(* ===== verification/Go_Prelude.thy ===== *)
theory Go_Prelude
  imports Main "HOL-Library.AList" "HOL-Library.Multiset"
begin

text \<open>
  What the Go code uses of its language and standard library, as executable HOL functions: the
  64-bit wrap-around of \<open>time.Duration\<close> arithmetic, truncated division, the string
  functions of package \<open>strings\<close> on byte lists, decimal rendering of \<open>%d\<close>, and
  Go maps whose size is asked for as association lists. The theory also holds the lemmas on
  lists that several components share and the collections their proofs add to the simplifier.
\<close>

named_theorems go_defs \<open>definitions of the language layer\<close>
named_theorems store_defs \<open>definitions of the in-memory store's operations\<close>
named_theorems offload_defs \<open>definitions of the shared offload helpers\<close>

type_synonym bytes = string
type_synonym duration = int
type_synonym instant = int

section \<open>Integers\<close>

text \<open>Go's \<open>int64\<close> (and \<open>int\<close> on a 64-bit host) after an overflow.\<close>

definition wrap64 :: "int \<Rightarrow> int" where
  "wrap64 x = (x + 2 ^ 63) mod 2 ^ 64 - 2 ^ 63"

text \<open>Go's integer division truncates towards zero.\<close>

definition go_div :: "int \<Rightarrow> int \<Rightarrow> int" where
  "go_div a b = sgn a * sgn b * (\<bar>a\<bar> div \<bar>b\<bar>)"

definition second :: duration where "second = 1000000000"

definition millisecond :: duration where "millisecond = 1000000"

lemma wrap64_small: "- (2 ^ 63) \<le> x \<Longrightarrow> x < 2 ^ 63 \<Longrightarrow> wrap64 x = x"
  by (simp add: wrap64_def)

lemma wrap64_range: "- (2 ^ 63) \<le> wrap64 x \<and> wrap64 x < 2 ^ 63"
  by (simp add: wrap64_def)

lemma go_div_nonneg: "0 \<le> a \<Longrightarrow> 0 < b \<Longrightarrow> go_div a b = a div b"
  by (cases "a = 0") (simp_all add: go_div_def)

section \<open>Strings\<close>

text \<open>\<open>strings.HasPrefix\<close>, \<open>strings.HasSuffix\<close> and \<open>strings.Contains\<close>.\<close>

definition has_prefix :: "string \<Rightarrow> string \<Rightarrow> bool" where
  "has_prefix s p \<longleftrightarrow> take (length p) s = p"

definition has_suffix :: "string \<Rightarrow> string \<Rightarrow> bool" where
  "has_suffix s p \<longleftrightarrow> has_prefix (rev s) (rev p)"

fun str_contains :: "string \<Rightarrow> string \<Rightarrow> bool" where
  "str_contains [] sub = (sub = [])"
| "str_contains (c # cs) sub = (has_prefix (c # cs) sub \<or> str_contains cs sub)"

text \<open>\<open>strings.Split(s, sep)\<close> for a one-byte separator, and \<open>strings.Join\<close>.\<close>

fun split_on :: "char \<Rightarrow> string \<Rightarrow> string list" where
  "split_on sep [] = [[]]"
| "split_on sep (c # cs) =
     (if c = sep then [] # split_on sep cs
      else case split_on sep cs of [] \<Rightarrow> [[c]] | w # ws \<Rightarrow> (c # w) # ws)"

fun join_with :: "string \<Rightarrow> string list \<Rightarrow> string" where
  "join_with sep [] = []"
| "join_with sep [w] = w"
| "join_with sep (w # ws) = w @ sep @ join_with sep ws"

definition newline :: char where "newline = CHR 0x0A"

definition split_lines :: "string \<Rightarrow> string list" where
  "split_lines s = split_on newline s"

definition join_lines :: "string list \<Rightarrow> string" where
  "join_lines ls = join_with [newline] ls"

text \<open>
  White space of package \<open>unicode\<close>: the ASCII bytes, and the UTF-8 encodings of the other spaces
  (U+0085, U+00A0, U+1680, U+2000 to U+200A, U+2028, U+2029, U+202F, U+205F and U+3000). A byte that
  starts one of them never continues another rune, so a scan by bytes meets the same spaces as the
  scan by runes of \<open>strings.TrimSpace\<close> and \<open>strings.Fields\<close>.
\<close>

definition is_space :: "char \<Rightarrow> bool" where
  "is_space c \<longleftrightarrow> c \<in> set [CHR 0x09, CHR 0x0A, CHR 0x0B, CHR 0x0C, CHR 0x0D, CHR 0x20]"

definition wide_spaces :: "string list" where
  "wide_spaces =
     [[CHR 0xC2, CHR 0x85], [CHR 0xC2, CHR 0xA0], [CHR 0xE1, CHR 0x9A, CHR 0x80],
      [CHR 0xE2, CHR 0x80, CHR 0x80], [CHR 0xE2, CHR 0x80, CHR 0x81], [CHR 0xE2, CHR 0x80, CHR 0x82],
      [CHR 0xE2, CHR 0x80, CHR 0x83], [CHR 0xE2, CHR 0x80, CHR 0x84], [CHR 0xE2, CHR 0x80, CHR 0x85],
      [CHR 0xE2, CHR 0x80, CHR 0x86], [CHR 0xE2, CHR 0x80, CHR 0x87], [CHR 0xE2, CHR 0x80, CHR 0x88],
      [CHR 0xE2, CHR 0x80, CHR 0x89], [CHR 0xE2, CHR 0x80, CHR 0x8A], [CHR 0xE2, CHR 0x80, CHR 0xA8],
      [CHR 0xE2, CHR 0x80, CHR 0xA9], [CHR 0xE2, CHR 0x80, CHR 0xAF], [CHR 0xE2, CHR 0x81, CHR 0x9F],
      [CHR 0xE3, CHR 0x80, CHR 0x80]]"

definition space_len :: "string list \<Rightarrow> string \<Rightarrow> nat" where
  "space_len wide s =
     (case s of
        [] \<Rightarrow> 0
      | c # _ \<Rightarrow> if is_space c then 1 else case find (has_prefix s) wide of Some w \<Rightarrow> length w | None \<Rightarrow> 0)"

lemma space_len_Nil [simp]: "space_len wide [] = 0"
  by (simp add: space_len_def)

function drop_spaces :: "string list \<Rightarrow> string \<Rightarrow> string" where
  "drop_spaces wide s = (if space_len wide s = 0 then s else drop_spaces wide (drop (space_len wide s) s))"
  by auto
termination
proof (relation "measure (\<lambda>(wide, s). length s)")
  fix wide s assume "space_len wide s \<noteq> 0"
  then show "((wide, drop (space_len wide s) s), (wide, s)) \<in> measure (\<lambda>(wide, s). length s)" by (cases s) auto
qed simp

declare drop_spaces.simps [simp del]

definition trim_space :: "string \<Rightarrow> string" where
  "trim_space s = rev (drop_spaces (map rev wide_spaces) (rev (drop_spaces wide_spaces s)))"

text \<open>\<open>strings.Fields\<close>: the maximal runs without white space.\<close>

fun take_word :: "string \<Rightarrow> string \<times> string" where
  "take_word [] = ([], [])"
| "take_word (c # cs) =
     (if space_len wide_spaces (c # cs) \<noteq> 0 then ([], c # cs)
      else case take_word cs of (w, rest) \<Rightarrow> (c # w, rest))"

lemma take_word_append: "take_word s = (w, rest) \<Longrightarrow> s = w @ rest"
  by (induction s arbitrary: w rest) (auto split: if_splits prod.splits)

lemma drop_spaces_length: "length (drop_spaces wide s) \<le> length s"
proof (induction wide s rule: drop_spaces.induct)
  case (1 wide s)
  show ?case
  proof (cases "space_len wide s = 0")
    case False
    with 1 have "length (drop_spaces wide (drop (space_len wide s) s)) \<le> length s" by fastforce
    with False show ?thesis by (simp add: drop_spaces.simps [of wide s])
  qed (simp add: drop_spaces.simps)
qed

lemma drop_spaces_done: "space_len wide (drop_spaces wide s) = 0"
proof (induction wide s rule: drop_spaces.induct)
  case (1 wide s)
  then show ?case by (cases "space_len wide s = 0") (simp_all add: drop_spaces.simps [of wide s])
qed

lemma fields_shorter:
  assumes "drop_spaces wide_spaces s = c # cs" "take_word (c # cs) = (w, rest)"
  shows "length rest < length s"
proof -
  have "space_len wide_spaces (c # cs) = 0" using drop_spaces_done [of wide_spaces s] assms(1) by simp
  then have "w \<noteq> []" using assms(2) by (auto split: prod.splits)
  moreover have "c # cs = w @ rest" using assms(2) take_word_append by metis
  ultimately have "length rest < length (c # cs)" by simp
  then show ?thesis using drop_spaces_length [of wide_spaces s] assms(1) by simp
qed

function str_fields :: "string \<Rightarrow> string list" where
  "str_fields s =
     (case drop_spaces wide_spaces s of
        [] \<Rightarrow> []
      | c # cs \<Rightarrow> (case take_word (c # cs) of (w, rest) \<Rightarrow> w # str_fields rest))"
  by auto
termination
  by (relation "measure length") (auto simp del: take_word.simps simp: fields_shorter [OF _ sym])

declare str_fields.simps [simp del]

text \<open>\<open>strings.ReplaceAll\<close> for a non-empty old text; the counter skips the rest of a replaced occurrence.\<close>

fun replace_str :: "string \<Rightarrow> string \<Rightarrow> nat \<Rightarrow> string \<Rightarrow> string" where
  "replace_str old new k [] = []"
| "replace_str old new (Suc k) (c # cs) = replace_str old new k cs"
| "replace_str old new 0 (c # cs) =
     (if has_prefix (c # cs) old then new @ replace_str old new (length old - 1) cs
      else c # replace_str old new 0 cs)"

text \<open>The decimal digits of \<open>strconv.Itoa\<close> and of the verb \<open>%d\<close>.\<close>

fun nat_digits :: "nat \<Rightarrow> string" where
  "nat_digits n = (if n < 10 then [char_of (48 + n)] else nat_digits (n div 10) @ [char_of (48 + n mod 10)])"

declare nat_digits.simps [simp del]

definition itoa :: "int \<Rightarrow> string" where
  "itoa i = (if i < 0 then ''-'' @ nat_digits (nat (- i)) else nat_digits (nat i))"

lemma has_prefix_append [simp]: "has_prefix (p @ s) p"
  by (simp add: has_prefix_def)

lemma has_prefix_iff: "has_prefix s p \<longleftrightarrow> (\<exists>t. s = p @ t)"
  by (metis append_take_drop_id has_prefix_append has_prefix_def)

lemma has_prefix_trans: "has_prefix s p \<Longrightarrow> has_prefix p q \<Longrightarrow> has_prefix s q"
  by (auto simp: has_prefix_iff)

lemma str_contains_iff: "str_contains s sub \<longleftrightarrow> (\<exists>a b. s = a @ sub @ b)"
proof (induction s)
  case Nil
  then show ?case by auto
next
  case (Cons c s)
  show ?case
  proof
    assume "str_contains (c # s) sub"
    then consider t where "c # s = sub @ t" | "str_contains s sub"
      by (auto simp: has_prefix_iff)
    then show "\<exists>a b. c # s = a @ sub @ b"
      by cases (metis append_Nil, metis Cons.IH append_Cons)
  next
    assume "\<exists>a b. c # s = a @ sub @ b"
    then obtain a b where ab: "c # s = a @ sub @ b" by blast
    show "str_contains (c # s) sub"
    proof (cases a)
      case Nil
      with ab have "has_prefix (c # s) sub" by (simp add: has_prefix_iff)
      then show ?thesis by simp
    next
      case (Cons x a')
      with ab Cons.IH show ?thesis by auto
    qed
  qed
qed

lemma split_on_nonempty [simp]: "split_on sep s \<noteq> []"
  by (induction s) (auto split: list.split)

lemma join_split: "join_with [sep] (split_on sep s) = s"
proof (induction s)
  case Nil
  then show ?case by simp
next
  case (Cons c s)
  then show ?case
    by (cases "split_on sep s" rule: list.exhaust; cases "tl (split_on sep s)") auto
qed

lemma join_lines_split_lines [simp]: "join_lines (split_lines s) = s"
  by (simp add: join_lines_def split_lines_def join_split)

section \<open>Lists shared by the components\<close>

text \<open>The number of elements with a property, as the code's live counters count them.\<close>

definition countp :: "('a \<Rightarrow> bool) \<Rightarrow> 'a list \<Rightarrow> int" where
  "countp P xs = int (length (filter P xs))"

lemma countp_Nil [simp]: "countp P [] = 0"
  by (simp add: countp_def)

lemma countp_Cons [simp]: "countp P (x # xs) = (if P x then 1 else 0) + countp P xs"
  by (simp add: countp_def)

lemma countp_append [simp]: "countp P (xs @ ys) = countp P xs + countp P ys"
  by (simp add: countp_def)

lemma countp_nonneg [simp]: "0 \<le> countp P xs"
  by (simp add: countp_def)

lemma countp_remove1: "x \<in> set xs \<Longrightarrow> countp P (remove1 x xs) = countp P xs - (if P x then 1 else 0)"
  by (induction xs) auto

lemma countp_le_length: "countp P xs \<le> int (length xs)"
  by (simp add: countp_def)

lemma countp_disjoint_le:
  "(\<And>x. x \<in> set xs \<Longrightarrow> P x \<Longrightarrow> Q x \<Longrightarrow> False) \<Longrightarrow> countp P xs + countp Q xs \<le> int (length xs)"
  by (induction xs) (auto simp: add_mono, force+)

lemma exists_neither:
  "countp P xs + countp Q xs < int (length xs) \<Longrightarrow> \<exists>x \<in> set xs. \<not> P x \<and> \<not> Q x"
proof (induction xs)
  case Nil
  then show ?case by simp
next
  case (Cons x xs)
  show ?case
  proof (cases "P x \<or> Q x")
    case True
    with Cons.prems have "countp P xs + countp Q xs < int (length xs)" by (auto split: if_splits)
    with Cons.IH show ?thesis by auto
  qed auto
qed

lemma sum_list_remove1:
  fixes f :: "'a \<Rightarrow> int"
  shows "x \<in> set xs \<Longrightarrow> sum_list (map f (remove1 x xs)) = sum_list (map f xs) - f x"
  by (induction xs) auto

lemma int_length_remove1: "x \<in> set xs \<Longrightarrow> int (length (remove1 x xs)) = int (length xs) - 1"
  by (induction xs) auto

lemma distinct_map_remove1: "distinct (map f xs) \<Longrightarrow> distinct (map f (remove1 x xs))"
  by (induction xs) (auto dest: notin_set_remove1, metis (no_types, lifting) image_iff notin_set_remove1)

lemma set_remove1_distinct_map:
  "distinct (map f xs) \<Longrightarrow> x \<in> set xs \<Longrightarrow> f ` set (remove1 x xs) = f ` set xs - {f x}"
  by (induction xs) (auto simp: image_iff)

lemma find_Some_set: "find P xs = Some x \<Longrightarrow> x \<in> set xs \<and> P x"
  by (auto simp: find_Some_iff)

lemma find_key:
  "distinct (map f xs) \<Longrightarrow> x \<in> set xs \<Longrightarrow> find (\<lambda>y. f y = f x) xs = Some x"
  by (induction xs) (auto simp: image_iff)

lemma find_remove1_other:
  "f x \<noteq> k \<Longrightarrow> find (\<lambda>y. f y = k) (remove1 x xs) = find (\<lambda>y. f y = k) xs"
  by (induction xs) auto

end
