(* ===== verification/Store_Memory.thy ===== *)
theory Store_Memory
  imports Go_Prelude
begin

text \<open>
  The session store of \<open>src/store/store.go\<close> (type \<open>Memory\<close>) with the parts of
  \<open>src/store/disk.go\<close> its operations reach. The LRU list \<open>ll\<close> is a list of entries,
  most recent first; \<open>items\<close> is the set of keys of the Go map from keys to list elements, and
  looking a key up finds the element of that key in the list. The clock \<open>m.now\<close> is an
  argument of each operation: one reading per operation. Instants and durations are nanoseconds.
  A zero \<open>time.Time\<close> is \<open>None\<close>. The database behind a \<open>Disk\<close> is not in
  the repository: it is the field \<open>dsel\<close>, the answer a point query gives (\<open>None\<close> an error,
  \<open>Some None\<close> no row).
\<close>

section \<open>Key namespaces\<close>

definition FrozenPrefix :: string where "FrozenPrefix = ''cg:frz:''"
definition ResultPrefix :: string where "ResultPrefix = ''cg:res:''"
definition SweepKeepPrefix :: string where "SweepKeepPrefix = ''cg:swk:''"
definition SweepHeldPrefix :: string where "SweepHeldPrefix = ''cg:swh:''"
definition SweepDropPrefix :: string where "SweepDropPrefix = ''cg:swd:''"
definition SweepExpandPrefix :: string where "SweepExpandPrefix = ''cg:swx:''"
definition LenPrefix :: string where "LenPrefix = ''cg:len:''"
definition XResultPrefix :: string where "XResultPrefix = ''cg:xres:''"
definition TTLPrefix :: string where "TTLPrefix = ''cg:ttl:''"
definition SeenPrefix :: string where "SeenPrefix = ''cg:seen:''"
definition SumPrefix :: string where "SumPrefix = ''cg:sum:''"
definition BilledPrefix :: string where "BilledPrefix = ''cg:bin:''"
definition BilledThreadPrefix :: string where "BilledThreadPrefix = ''cg:bint:''"
definition UsagePrefix :: string where "UsagePrefix = ''cg:use:''"
definition RestorePrefix :: string where "RestorePrefix = ''cg:rst:''"
definition ToolDeferPrefix :: string where "ToolDeferPrefix = ''cg:tdf:''"
definition ToolSearchOffPrefix :: string where "ToolSearchOffPrefix = ''cg:tso:''"

definition DefaultPinPrefixes :: "string list" where
  "DefaultPinPrefixes =
     [FrozenPrefix, ResultPrefix, LenPrefix, XResultPrefix, TTLPrefix, SeenPrefix, SumPrefix,
      BilledPrefix, BilledThreadPrefix, UsagePrefix, RestorePrefix, SweepHeldPrefix, SweepDropPrefix,
      SweepExpandPrefix, ToolDeferPrefix, ToolSearchOffPrefix]"

definition metadataPrefixes :: "string list" where
  "metadataPrefixes =
     [BilledPrefix, BilledThreadPrefix, LenPrefix, TTLPrefix, SeenPrefix,
      SweepDropPrefix, SweepKeepPrefix, SweepExpandPrefix, RestorePrefix, UsagePrefix, ToolDeferPrefix,
      ToolSearchOffPrefix]"

definition contentPrefixes :: "string list" where
  "contentPrefixes = [SumPrefix, ResultPrefix, XResultPrefix, FrozenPrefix, SweepHeldPrefix]"

definition globalPrefixes :: "string list" where
  "globalPrefixes = [XResultPrefix, SweepExpandPrefix]"

definition StatePrefixes :: "string list" where
  "StatePrefixes = metadataPrefixes @ contentPrefixes"

fun hasAnyPrefix :: "string \<Rightarrow> string list \<Rightarrow> bool" where
  "hasAnyPrefix key [] = False"
| "hasAnyPrefix key (p # ps) = (if has_prefix key p then True else hasAnyPrefix key ps)"

definition isStateKey :: "string \<Rightarrow> bool" where
  "isStateKey key = hasAnyPrefix key StatePrefixes"

section \<open>State\<close>

record entry =
  ekey :: string
  payload :: bytes
  expires :: instant
  pinned :: bool
  estate :: bool
  stash :: bool

record Disk =
  metaOnly :: bool
  pending :: "(string \<times> (bytes \<times> int)) list"
  errN :: int
  dsel :: "string \<Rightarrow> bytes option option"

record Memory =
  ttl :: duration
  stashTTL :: duration
  stateTTL :: duration
  maxN :: int
  ll :: "entry list"
  items :: "string set"
  sticky :: "(string \<times> string set) list"
  maxStick :: int
  pinPrefixes :: "string list"
  pinnedN :: int
  stashN :: int
  stashBytes :: int
  stashMaxBytes :: int
  nextExpiry :: "instant option"
  stashRefusedN :: int
  stashExpiredN :: int
  reclaimed :: "string set"
  reclaimedOrder :: "string list"
  stashRevivedN :: int
  lostFrozen :: "string set"
  lostOrder :: "string list"
  lostN :: int
  repairedN :: int
  noSlide :: bool
  disk :: "Disk option"
  loadedAt :: "(string \<times> instant) list"
  loadedOrder :: "string list"
  loadFailedAt :: "(string \<times> instant) list"

record Options =
  Enabled :: "bool option"
  TTLSeconds :: int
  PinPrefixes :: "string list option"
  MaxEntries :: int
  StashMaxBytes :: int
  StashTTLSeconds :: int
  MaxSessions :: int
  StateTTLSeconds :: int

section \<open>Options and construction\<close>

definition DefaultTTL :: duration where "DefaultTTL = 10000 * second"
definition DefaultStashTTL :: duration where "DefaultStashTTL = 1800 * second"
definition DefaultMaxEntries :: int where "DefaultMaxEntries = 5000"
definition DefaultStashMaxBytes :: int where "DefaultStashMaxBytes = 256 * 2 ^ 20"
definition hour :: duration where "hour = 3600 * second"

definition EffectiveTTL :: "Options \<Rightarrow> duration" where
  "EffectiveTTL opt =
     (if TTLSeconds opt \<le> 0 then DefaultTTL else wrap64 (TTLSeconds opt * second))"

definition IdleExitFloor :: "Options \<Rightarrow> duration" where
  "IdleExitFloor opt = (let f = wrap64 (2 * EffectiveTTL opt) in if f > hour then f else hour)"

datatype idle_exit_error =
    BelowStoreTerm duration duration duration
  | BelowAbsoluteMinimum duration duration duration duration

definition ValidateIdleExit :: "duration \<Rightarrow> Options \<Rightarrow> idle_exit_error option" where
  "ValidateIdleExit d opt =
     (if d \<le> 0 then None
      else let flr = IdleExitFloor opt in
        if d \<ge> flr then None
        else let ttl = EffectiveTTL opt in
          if wrap64 (2 * ttl) > hour then Some (BelowStoreTerm d flr ttl)
          else Some (BelowAbsoluteMinimum d flr ttl (wrap64 (2 * ttl))))"

definition NewMemory :: "Options \<Rightarrow> Memory" where
  "NewMemory opt =
     (let ttl = EffectiveTTL opt;
          mx = (if MaxEntries opt \<le> 0 then DefaultMaxEntries else MaxEntries opt);
          stashMax = (if StashMaxBytes opt \<le> 0 then DefaultStashMaxBytes else StashMaxBytes opt);
          sttl = (if StashTTLSeconds opt \<le> 0 then DefaultStashTTL
                  else wrap64 (StashTTLSeconds opt * second));
          sttl = (if sttl > ttl then ttl else sttl);
          stick = (if MaxSessions opt \<le> 0 then 100 else MaxSessions opt);
          pins = (case PinPrefixes opt of None \<Rightarrow> DefaultPinPrefixes | Some ps \<Rightarrow> ps);
          stt = (if StateTTLSeconds opt > 0 then wrap64 (StateTTLSeconds opt * second) else 0)
      in \<lparr> ttl = ttl, stashTTL = sttl, stateTTL = stt, maxN = mx, ll = [], items = {}, sticky = [],
           maxStick = stick, pinPrefixes = pins, pinnedN = 0, stashN = 0, stashBytes = 0,
           stashMaxBytes = stashMax, nextExpiry = None, stashRefusedN = 0, stashExpiredN = 0,
           reclaimed = {}, reclaimedOrder = [], stashRevivedN = 0, lostFrozen = {}, lostOrder = [],
           lostN = 0, repairedN = 0, noSlide = False, disk = None, loadedAt = [], loadedOrder = [],
           loadFailedAt = [] \<rparr>)"

definition EffectiveStashTTLSeconds :: "Options \<Rightarrow> int" where
  "EffectiveStashTTLSeconds opt = go_div (stashTTL (NewMemory opt)) second"

definition Durable :: "Memory \<Rightarrow> bool" where
  "Durable m = (disk m \<noteq> None)"

definition DisableSlidingTTLForTest :: "Memory \<Rightarrow> Memory" where
  "DisableSlidingTTLForTest m = m\<lparr>noSlide := True\<rparr>"

section \<open>Budgets and expiry\<close>

definition isPinPrefix :: "Memory \<Rightarrow> string \<Rightarrow> bool" where
  "isPinPrefix m key = hasAnyPrefix key (pinPrefixes m)"

definition ttlFor :: "Memory \<Rightarrow> entry \<Rightarrow> duration" where
  "ttlFor m e =
     (if stash e then stashTTL m
      else if estate e \<and> stateTTL m > 0 then stateTTL m
      else ttl m)"

definition noteExpiry :: "instant \<Rightarrow> Memory \<Rightarrow> Memory" where
  "noteExpiry t m =
     (case nextExpiry m of
        None \<Rightarrow> m\<lparr>nextExpiry := Some t\<rparr>
      | Some n \<Rightarrow> if t < n then m\<lparr>nextExpiry := Some t\<rparr> else m)"

definition setExpiry :: "instant \<Rightarrow> entry \<Rightarrow> Memory \<Rightarrow> entry \<times> Memory" where
  "setExpiry now e m =
     (let e' = e\<lparr>expires := now + ttlFor m e\<rparr> in (e', noteExpiry (expires e') m))"

definition pinCap :: "Memory \<Rightarrow> int" where "pinCap m = go_div (maxN m) 2"

definition stashCap :: "Memory \<Rightarrow> int" where "stashCap m = go_div (maxN m) 2"

definition evictableFloor :: "Memory \<Rightarrow> int" where
  "evictableFloor m = (let f = go_div (maxN m) 4 in if f > 0 then f else 1)"

definition exemptRoom :: "Memory \<Rightarrow> bool" where
  "exemptRoom m \<longleftrightarrow> pinnedN m + stashN m < maxN m - evictableFloor m"

definition byteRoom :: "Memory \<Rightarrow> int \<Rightarrow> bool" where
  "byteRoom m sz \<longleftrightarrow> stashBytes m + sz \<le> stashMaxBytes m"

section \<open>Marks of lost decisions and of reclaimed payloads\<close>

text \<open>The FIFO bound both mark sets use: drop the oldest while the set is at the entry cap.\<close>

fun dropOldestMarks :: "int \<Rightarrow> string set \<Rightarrow> string list \<Rightarrow> string set \<times> string list" where
  "dropOldestMarks mx marks [] = (marks, [])"
| "dropOldestMarks mx marks (oldest # order) =
     (if int (card marks) \<ge> mx then dropOldestMarks mx (marks - {oldest}) order
      else (marks, oldest # order))"

definition noteLost :: "string \<Rightarrow> Memory \<Rightarrow> Memory" where
  "noteLost key m =
     (if key \<in> lostFrozen m then m
      else let (marks, order) = dropOldestMarks (maxN m) (lostFrozen m) (lostOrder m)
           in m\<lparr>lostFrozen := insert key marks, lostOrder := order @ [key], lostN := lostN m + 1\<rparr>)"

definition noteReclaimed :: "string \<Rightarrow> Memory \<Rightarrow> Memory" where
  "noteReclaimed key m =
     (if key \<in> reclaimed m then m
      else let (marks, order) = dropOldestMarks (maxN m) (reclaimed m) (reclaimedOrder m)
           in m\<lparr>reclaimed := insert key marks, reclaimedOrder := order @ [key]\<rparr>)"

section \<open>Removal, expiry sweep, eviction\<close>

definition find_el :: "string \<Rightarrow> Memory \<Rightarrow> entry option" where
  "find_el key m = (if key \<in> items m then find (\<lambda>e. ekey e = key) (ll m) else None)"

definition remove_el :: "entry \<Rightarrow> Memory \<Rightarrow> Memory" where
  "remove_el e m =
     (let m = (if pinned e then m\<lparr>pinnedN := pinnedN m - 1\<rparr> else m);
          m = (if stash e then
                 (let m = m\<lparr>stashN := stashN m - 1, stashBytes := stashBytes m - int (length (payload e))\<rparr>;
                      m = noteReclaimed (ekey e) m
                  in m\<lparr>stashExpiredN := stashExpiredN m + 1\<rparr>)
               else m);
          m = (if isPinPrefix m (ekey e) \<and> \<not> noSlide m then noteLost (ekey e) m else m)
      in m\<lparr>ll := remove1 e (ll m), items := items m - {ekey e}\<rparr>)"

definition sooner :: "instant \<Rightarrow> instant option \<Rightarrow> instant option" where
  "sooner t s = (case s of None \<Rightarrow> Some t | Some u \<Rightarrow> if t < u then Some t else Some u)"

fun sweep_loop :: "instant \<Rightarrow> entry list \<Rightarrow> int \<Rightarrow> instant option \<Rightarrow> Memory \<Rightarrow> int \<times> instant option \<times> Memory" where
  "sweep_loop now [] n soonest m = (n, soonest, m)"
| "sweep_loop now (e # es) n soonest m =
     (if now > expires e then sweep_loop now es (n + 1) soonest (remove_el e m)
      else sweep_loop now es n (sooner (expires e) soonest) m)"

definition sweepExpired :: "instant \<Rightarrow> Memory \<Rightarrow> int \<times> Memory" where
  "sweepExpired now m =
     (if (case nextExpiry m of Some t \<Rightarrow> \<not> now > t | None \<Rightarrow> False) then (0, m)
      else case sweep_loop now (rev (ll m)) 0 None m of
        (n, soonest, m') \<Rightarrow> (n, m'\<lparr>nextExpiry := soonest\<rparr>))"

definition evictOldest :: "instant \<Rightarrow> Memory \<Rightarrow> bool \<times> Memory" where
  "evictOldest now m =
     (case sweepExpired now m of
        (n, m) \<Rightarrow>
          if n > 0 then (True, m)
          else case find (\<lambda>e. \<not> pinned e \<and> \<not> stash e) (rev (ll m)) of
                 Some e \<Rightarrow> (True, remove_el e m)
               | None \<Rightarrow> (False, m))"

lemma noteLost_ll [simp]: "ll (noteLost k m) = ll m"
  by (simp add: noteLost_def split: prod.split)

lemma noteReclaimed_ll [simp]: "ll (noteReclaimed k m) = ll m"
  by (simp add: noteReclaimed_def split: prod.split)

lemma remove_el_ll [simp]: "ll (remove_el e m) = remove1 e (ll m)"
  by (simp add: remove_el_def Let_def)

lemma sweep_loop_length:
  "mset es \<subseteq># mset (ll m) \<Longrightarrow> sweep_loop now es n s m = (n', s', m') \<Longrightarrow>
   int (length (ll m')) + n' = int (length (ll m)) + n \<and> n \<le> n'"
proof (induction now es n s m rule: sweep_loop.induct)
  case (1 now n s m)
  then show ?case by simp
next
  case (2 now e es n s m)
  have e: "e \<in> set (ll m)" and sub: "mset es \<subseteq># mset (remove1 e (ll m))"
    using "2.prems"(1) by (auto simp: insert_subset_eq_iff)
  show ?case
  proof (cases "now > expires e")
    case True
    with 2 sub have "int (length (remove1 e (ll m))) + (n + 1) = int (length (ll m')) + n' \<and> n + 1 \<le> n'"
      by auto
    with e show ?thesis by (simp add: int_length_remove1)
  next
    case False
    have "mset es \<subseteq># mset (ll m)"
      using "2.prems"(1) by (metis mset.simps(2) mset_subset_eq_insertD subset_mset.less_imp_le)
    with 2 False show ?thesis by simp
  qed
qed

lemma sweepExpired_length:
  "sweepExpired now m = (n, m') \<Longrightarrow> int (length (ll m')) + n = int (length (ll m)) \<and> 0 \<le> n"
  by (auto simp: sweepExpired_def split: if_splits prod.splits dest!: sweep_loop_length [rotated])

lemma evictOldest_length:
  "evictOldest now m = (True, m') \<Longrightarrow> length (ll m') < length (ll m)"
proof -
  assume *: "evictOldest now m = (True, m')"
  obtain n m1 where s: "sweepExpired now m = (n, m1)" by fastforce
  note l = sweepExpired_length [OF s]
  show ?thesis
  proof (cases "n > 0")
    case True
    with * s l show ?thesis by (auto simp: evictOldest_def)
  next
    case False
    with * s obtain e where e: "find (\<lambda>e. \<not> pinned e \<and> \<not> stash e) (rev (ll m1)) = Some e"
      and m': "m' = remove_el e m1"
      by (auto simp: evictOldest_def split: option.splits)
    from e have in1: "e \<in> set (ll m1)" by (auto dest: find_Some_set)
    with l False m' int_length_remove1 [OF in1] show ?thesis by auto
  qed
qed

text \<open>\<open>for m.ll.Len() > m.max { if !m.evictOldest() { break } }\<close>\<close>

function evict_loop :: "instant \<Rightarrow> Memory \<Rightarrow> Memory" where
  "evict_loop now m =
     (if int (length (ll m)) > maxN m
      then (case evictOldest now m of (b, m') \<Rightarrow> if b then evict_loop now m' else m')
      else m)"
  by pat_completeness auto
termination
  by (relation "measure (\<lambda>(now, m). length (ll m))") (auto dest: evictOldest_length [OF sym])

declare evict_loop.simps [simp del]

section \<open>The rewind reserve\<close>

definition no_stash_room :: "Memory \<Rightarrow> int \<Rightarrow> bool" where
  "no_stash_room m sz \<longleftrightarrow> stashN m \<ge> stashCap m \<or> \<not> exemptRoom m \<or> \<not> byteRoom m sz"

definition StashRoom :: "instant \<Rightarrow> int \<Rightarrow> Memory \<Rightarrow> bool \<times> Memory" where
  "StashRoom now sz m =
     (let m = (if no_stash_room m sz then snd (sweepExpired now m) else m)
      in (stashN m < stashCap m \<and> exemptRoom m \<and> byteRoom m sz, m))"

text \<open>\<open>m.ll.MoveToFront(el)\<close> after the fields of the element \<open>e\<close> became \<open>e'\<close>.\<close>

definition moveToFront :: "entry \<Rightarrow> entry \<Rightarrow> Memory \<Rightarrow> Memory" where
  "moveToFront e e' m = m\<lparr>ll := e' # remove1 e (ll m)\<rparr>"

definition pushFront :: "entry \<Rightarrow> Memory \<Rightarrow> Memory" where
  "pushFront e m = m\<lparr>ll := e # ll m, items := insert (ekey e) (items m)\<rparr>"

definition PutStash :: "instant \<Rightarrow> string \<Rightarrow> bytes \<Rightarrow> Memory \<Rightarrow> bool \<times> Memory" where
  "PutStash now key pl m =
     (case find_el key m of
        Some e \<Rightarrow>
          let m = (if stash e then m\<lparr>stashBytes := stashBytes m + (int (length pl) - int (length (payload e)))\<rparr>
                   else m);
              e1 = e\<lparr>payload := pl\<rparr>;
              claim = (\<not> stash e \<and> stashN m < stashCap m \<and> exemptRoom m);
              e2 = (if claim then e1\<lparr>stash := True\<rparr> else e1);
              m = (if claim then m\<lparr>stashN := stashN m + 1, stashBytes := stashBytes m + int (length pl)\<rparr> else m);
              (e3, m) = setExpiry now e2 m
          in (True, moveToFront e e3 m)
      | None \<Rightarrow>
          let m = (if no_stash_room m (int (length pl)) then snd (sweepExpired now m) else m)
          in if no_stash_room m (int (length pl))
             then (False, m\<lparr>stashRefusedN := stashRefusedN m + 1\<rparr>)
             else
               let e = \<lparr>ekey = key, payload = pl, expires = 0, pinned = False, estate = False, stash = True\<rparr>;
                   (e, m) = setExpiry now e m;
                   m = (if key \<in> reclaimed m
                        then m\<lparr>reclaimed := reclaimed m - {key},
                               reclaimedOrder := remove1 key (reclaimedOrder m),
                               stashRevivedN := stashRevivedN m + 1\<rparr>
                        else m);
                   m = m\<lparr>stashN := stashN m + 1, stashBytes := stashBytes m + int (length pl)\<rparr>;
                   m = pushFront e m
               in (True, evict_loop now m))"

record StashStat =
  Live :: int
  Capacity :: int
  Bytes :: int
  MaxBytes :: int
  Refused :: int
  Expired :: int
  Revived :: int

definition StashStats :: "Memory \<Rightarrow> StashStat" where
  "StashStats m =
     \<lparr>Live = stashN m, Capacity = stashCap m, Bytes = stashBytes m, MaxBytes = stashMaxBytes m,
      Refused = stashRefusedN m, Expired = stashExpiredN m, Revived = stashRevivedN m\<rparr>"

section \<open>Plain writes and reads\<close>

definition maxPending :: int where "maxPending = 50000"

definition allowed :: "Disk \<Rightarrow> string \<Rightarrow> bool" where
  "allowed d key = (if metaOnly d then hasAnyPrefix key metadataPrefixes else isStateKey key)"

definition enqueue :: "string \<Rightarrow> bytes \<Rightarrow> instant \<Rightarrow> Disk \<Rightarrow> Disk" where
  "enqueue key val now d =
     (if \<not> allowed d key then d
      else if map_of (pending d) key \<noteq> None \<or> int (length (pending d)) < maxPending
      then d\<lparr>pending := AList.update key (val, now div millisecond) (pending d)\<rparr>
      else d)"

definition claimPin :: "string \<Rightarrow> entry \<Rightarrow> Memory \<Rightarrow> entry \<times> Memory" where
  "claimPin key e m =
     (if \<not> pinned e \<and> isPinPrefix m key \<and> \<not> noSlide m \<and> pinnedN m < pinCap m \<and> exemptRoom m
      then (e\<lparr>pinned := True\<rparr>, m\<lparr>pinnedN := pinnedN m + 1\<rparr>)
      else (e, m))"

definition repairLost :: "string \<Rightarrow> Memory \<Rightarrow> Memory" where
  "repairLost key m =
     (if key \<in> lostFrozen m
      then m\<lparr>lostFrozen := lostFrozen m - {key}, lostOrder := remove1 key (lostOrder m),
             repairedN := repairedN m + 1\<rparr>
      else m)"

definition putLocked :: "instant \<Rightarrow> string \<Rightarrow> bytes \<Rightarrow> Memory \<Rightarrow> Memory" where
  "putLocked now key pl m =
     (let m = repairLost key m
      in case find_el key m of
           Some e \<Rightarrow>
             let (e1, m) = setExpiry now (e\<lparr>payload := pl\<rparr>) m;
                 (e2, m) = claimPin key e1 m
             in moveToFront e e2 m
         | None \<Rightarrow>
             let e = \<lparr>ekey = key, payload = pl, expires = 0, pinned = False,
                      estate = isStateKey key, stash = False\<rparr>;
                 (e, m) = claimPin key e m;
                 (e, m) = setExpiry now e m
             in evict_loop now (pushFront e m))"

definition Put :: "instant \<Rightarrow> string \<Rightarrow> bytes \<Rightarrow> Memory \<Rightarrow> Memory" where
  "Put now key pl m =
     (let m = putLocked now key pl m
      in case disk m of
           None \<Rightarrow> m
         | Some d \<Rightarrow> m\<lparr>disk := Some (enqueue key pl now d)\<rparr>)"

definition FrozenLost :: "string \<Rightarrow> Memory \<Rightarrow> bool" where
  "FrozenLost key m \<longleftrightarrow> key \<in> lostFrozen m"

definition FrozenLossStats :: "Memory \<Rightarrow> int \<times> int" where
  "FrozenLossStats m = (lostN m, repairedN m)"

definition Peek :: "instant \<Rightarrow> string \<Rightarrow> Memory \<Rightarrow> bool" where
  "Peek now key m = (case find_el key m of None \<Rightarrow> False | Some e \<Rightarrow> \<not> now > expires e)"

definition getMem :: "instant \<Rightarrow> string \<Rightarrow> Memory \<Rightarrow> bytes option \<times> Memory" where
  "getMem now key m =
     (case find_el key m of
        None \<Rightarrow> (None, m)
      | Some e \<Rightarrow>
          if now > expires e then (None, remove_el e m)
          else let (e', m) = (if noSlide m then (e, m) else setExpiry now e m)
               in (Some (payload e'), moveToFront e e' m))"

definition isGlobal :: "Disk \<Rightarrow> string \<Rightarrow> bool" where
  "isGlobal d key \<longleftrightarrow> allowed d key \<and> hasAnyPrefix key globalPrefixes"

definition disk_fail :: "Disk \<Rightarrow> Disk" where "disk_fail d = d\<lparr>errN := errN d + 1\<rparr>"

definition disk_get :: "string \<Rightarrow> Disk \<Rightarrow> bytes option \<times> Disk" where
  "disk_get key d =
     (case map_of (pending d) key of
        Some (v, _) \<Rightarrow> (Some v, d)
      | None \<Rightarrow>
          (case dsel d key of
             None \<Rightarrow> (None, disk_fail d)
           | Some None \<Rightarrow> (None, d)
           | Some (Some v) \<Rightarrow> (Some v, d)))"

definition getGlobal :: "instant \<Rightarrow> string \<Rightarrow> Memory \<Rightarrow> bytes option \<times> Memory" where
  "getGlobal now key m =
     (case disk m of
        None \<Rightarrow> (None, m)
      | Some d \<Rightarrow>
          if \<not> isGlobal d key then (None, m)
          else
            let (v, d) = disk_get key d; m = m\<lparr>disk := Some d\<rparr>
            in case v of
                 None \<Rightarrow> (None, m)
               | Some v \<Rightarrow>
                   (case find_el key m of
                      Some e \<Rightarrow> if \<not> now > expires e then (Some (payload e), m)
                                else (Some v, putLocked now key v m)
                    | None \<Rightarrow> (Some v, putLocked now key v m)))"

definition Get :: "instant \<Rightarrow> string \<Rightarrow> Memory \<Rightarrow> bytes option \<times> Memory" where
  "Get now key m =
     (case getMem now key m of
        (Some v, m) \<Rightarrow> (Some v, m)
      | (None, m) \<Rightarrow> getGlobal now key m)"

section \<open>Sticky ids\<close>

definition Sticky :: "string \<Rightarrow> Memory \<Rightarrow> string set" where
  "Sticky session m = (case map_of (sticky m) session of None \<Rightarrow> {} | Some s \<Rightarrow> s)"

text \<open>
  At the session cap \<open>MarkSticky\<close> deletes the first key a Go map iteration yields, which the
  language leaves open: the iteration order is the argument \<open>order\<close>.
\<close>

definition MarkSticky :: "(string list \<Rightarrow> string list) \<Rightarrow> string \<Rightarrow> string \<Rightarrow> Memory \<Rightarrow> Memory" where
  "MarkSticky order session idn m =
     (case map_of (sticky m) session of
        Some s \<Rightarrow> m\<lparr>sticky := AList.update session (insert idn s) (sticky m)\<rparr>
      | None \<Rightarrow>
          let st = (if int (length (sticky m)) \<ge> maxStick m
                    then (case order (map fst (sticky m)) of
                            [] \<Rightarrow> sticky m
                          | k # _ \<Rightarrow> AList.delete k (sticky m))
                    else sticky m)
          in m\<lparr>sticky := AList.update session {idn} st\<rparr>)"

section \<open>Sessions restored from disk\<close>

definition maxLoaded :: int where "maxLoaded = 4096"

definition loadRetryAfter :: duration where "loadRetryAfter = 60 * second"

fun drop_oldest_loaded :: "(string \<times> instant) list \<Rightarrow> string list \<Rightarrow> (string \<times> instant) list \<times> string list" where
  "drop_oldest_loaded at [] = (at, [])"
| "drop_oldest_loaded at (oldest # order) =
     (if int (length at) \<ge> maxLoaded then drop_oldest_loaded (AList.delete oldest at) order
      else (at, oldest # order))"

definition markLoaded :: "string \<Rightarrow> instant \<Rightarrow> Memory \<Rightarrow> Memory" where
  "markLoaded session now m =
     (let m = (if map_of (loadedAt m) session = None
               then (case drop_oldest_loaded (loadedAt m) (loadedOrder m) of
                       (at, order) \<Rightarrow> m\<lparr>loadedAt := at, loadedOrder := order @ [session]\<rparr>)
               else m)
      in m\<lparr>loadedAt := AList.update session now (loadedAt m)\<rparr>)"

definition unmarkLoaded :: "string \<Rightarrow> Memory \<Rightarrow> Memory" where
  "unmarkLoaded session m =
     m\<lparr>loadedAt := AList.delete session (loadedAt m), loadedOrder := remove1 session (loadedOrder m)\<rparr>"

text \<open>\<open>boundaryOK\<close>: the byte after the session id ends the id.\<close>

fun boundaryOK :: "string \<Rightarrow> string \<Rightarrow> string list \<Rightarrow> bool" where
  "boundaryOK key session [] = False"
| "boundaryOK key session (p # ps) =
     (if \<not> has_prefix key (p @ session) then boundaryOK key session ps
      else let rest = drop (length p + length session) key
           in if rest = [] then True
              else if hd rest \<in> set [CHR '':'', CHR 0x00, CHR 0x01, CHR 0x02] then True
              else boundaryOK key session ps)"

text \<open>
  \<open>loadSession\<close>: the key ranges of the query, and the filter on what it returns. The database's
  answer is the argument \<open>query\<close>: \<open>None\<close> an error, otherwise the scanned rows
  (\<open>None\<close> a row that fails to scan) and whether the iteration ended without an error.
\<close>

type_synonym db_query = "(string \<times> string) list \<Rightarrow> ((string \<times> bytes) option list \<times> bool) option"

definition prefixes :: "Disk \<Rightarrow> string list" where
  "prefixes d = (if metaOnly d then metadataPrefixes else StatePrefixes)"

definition load_ranges :: "Disk \<Rightarrow> string \<Rightarrow> (string \<times> string) list" where
  "load_ranges d session =
     map (\<lambda>p. (p @ session, p @ session @ [CHR 0xFF])) (filter (\<lambda>p. \<not> hasAnyPrefix p globalPrefixes) (prefixes d))"

fun scan_rows :: "string \<Rightarrow> (string \<times> bytes) option list \<Rightarrow> Disk \<Rightarrow> (string \<times> bytes) list \<times> Disk" where
  "scan_rows session [] d = ([], d)"
| "scan_rows session (None # rows) d = scan_rows session rows (disk_fail d)"
| "scan_rows session (Some (k, v) # rows) d =
     (case scan_rows session rows d of
        (out, d') \<Rightarrow> if \<not> boundaryOK k session (prefixes d) then (out, d') else ((k, v) # out, d'))"

definition loadSession :: "db_query \<Rightarrow> string \<Rightarrow> Disk \<Rightarrow> (string \<times> bytes) list \<times> bool \<times> Disk" where
  "loadSession query session d =
     (if session = [] then ([], True, d)
      else case query (load_ranges d session) of
             None \<Rightarrow> ([], False, disk_fail d)
           | Some (rows, ok) \<Rightarrow>
               (case scan_rows session rows d of
                  (out, d) \<Rightarrow> if ok then (out, True, d) else (out, False, disk_fail d)))"

fun restore_rows :: "instant \<Rightarrow> (string \<times> bytes) list \<Rightarrow> Memory \<Rightarrow> Memory" where
  "restore_rows now [] m = m"
| "restore_rows now ((k, v) # rows) m =
     restore_rows now rows
       (case find_el k m of
          Some e \<Rightarrow> if \<not> now > expires e then m else putLocked now k v m
        | None \<Rightarrow> putLocked now k v m)"

definition LoadSession :: "instant \<Rightarrow> db_query \<Rightarrow> string \<Rightarrow> Memory \<Rightarrow> Memory" where
  "LoadSession now query session m =
     (if session = [] then m
      else case disk m of
        None \<Rightarrow> m
      | Some d \<Rightarrow>
        let life = (if stateTTL m \<le> 0 then ttl m else stateTTL m)
        in if (case map_of (loadedAt m) session of Some at \<Rightarrow> now - at < life | None \<Rightarrow> False)
           then m\<lparr>loadedAt := AList.update session now (loadedAt m)\<rparr>
           else if (case map_of (loadFailedAt m) session of Some at \<Rightarrow> now - at < loadRetryAfter | None \<Rightarrow> False)
           then m
           else
             let m = markLoaded session now m;
                 (rows, ok, d) = loadSession query session d;
                 m = m\<lparr>disk := Some d\<rparr>;
                 m = (if ok then m
                      else let m = unmarkLoaded session m;
                               failed = (if int (length (loadFailedAt m)) \<ge> maxLoaded then [] else loadFailedAt m)
                           in m\<lparr>loadFailedAt := AList.update session now failed\<rparr>)
             in restore_rows now rows m)"

text \<open>
  \<open>Flush\<close>: the pending batch leaves memory first; what the database answers to each step of the
  transaction is an argument. The result is the batch that was committed, if it was.
\<close>

record flush_db =
  begin_ok :: bool
  prepare_ok :: bool
  exec_ok :: "string \<Rightarrow> bool"
  commit_ok :: bool

definition Flush :: "flush_db \<Rightarrow> Disk \<Rightarrow> (string \<times> (bytes \<times> int)) list option \<times> Disk" where
  "Flush db d =
     (let batch = pending d; d = d\<lparr>pending := []\<rparr>
      in if batch = [] then (None, d)
         else if \<not> begin_ok db then (None, disk_fail d)
         else if \<not> prepare_ok db then (None, disk_fail d)
         else if \<exists>r \<in> set batch. \<not> exec_ok db (fst r) then (None, disk_fail d)
         else if \<not> commit_ok db then (None, disk_fail d)
         else (Some batch, d))"

definition AttachDisk :: "Disk \<Rightarrow> Memory \<Rightarrow> Memory" where
  "AttachDisk d m = m\<lparr>disk := Some d\<rparr>"

text \<open>\<open>DropPrefix\<close>: the order in which the Go map yields the keys does not matter, every match goes.\<close>

definition DropPrefix :: "string \<Rightarrow> Memory \<Rightarrow> int \<times> Memory" where
  "DropPrefix prefix m =
     (if prefix = [] then (0, m)
      else
        let gone = filter (\<lambda>e. has_prefix (ekey e) prefix) (ll m);
            m = m\<lparr>pinnedN := pinnedN m - countp pinned gone,
                  ll := filter (\<lambda>e. \<not> has_prefix (ekey e) prefix) (ll m),
                  items := {k \<in> items m. \<not> has_prefix k prefix}\<rparr>;
            m = (case disk m of
                   None \<Rightarrow> m
                 | Some d \<Rightarrow> m\<lparr>disk := Some (d\<lparr>pending := filter (\<lambda>(k, _). \<not> has_prefix k prefix) (pending d)\<rparr>)\<rparr>)
        in (int (length gone), m))"

lemmas store_op_defs =
  PutStash_def putLocked_def Put_def getMem_def getGlobal_def Get_def StashRoom_def MarkSticky_def
  LoadSession_def DropPrefix_def

end
