(* ===== verification/Store_Invariant.thy ===== *)
theory Store_Invariant
  imports Store_Memory
begin

text \<open>
  The representation invariant of the session store and that every operation keeps it: the map and
  the LRU list agree, the live counters count what they say, both exemptions stay within their
  budgets and leave the evictable floor, the expiry bound is a lower bound, and the two mark sets
  are the FIFO queues that bound them.
\<close>

section \<open>The parts of the invariant\<close>

definition stash_size :: "entry \<Rightarrow> int" where
  "stash_size e = (if stash e then int (length (payload e)) else 0)"

definition keys_ok :: "Memory \<Rightarrow> bool" where
  "keys_ok m \<longleftrightarrow> distinct (map ekey (ll m)) \<and> items m = ekey ` set (ll m)"

definition counters_ok :: "Memory \<Rightarrow> bool" where
  "counters_ok m \<longleftrightarrow> pinnedN m = countp pinned (ll m) \<and> stashN m = countp stash (ll m)
     \<and> stashBytes m = sum_list (map stash_size (ll m))"

definition budget_ok :: "Memory \<Rightarrow> bool" where
  "budget_ok m \<longleftrightarrow> 1 \<le> maxN m \<and> pinnedN m \<le> pinCap m \<and> stashN m \<le> stashCap m
     \<and> pinnedN m + stashN m \<le> maxN m - evictableFloor m"

definition bound_ok :: "Memory \<Rightarrow> bool" where
  "bound_ok m \<longleftrightarrow> (\<forall>e \<in> set (ll m). case nextExpiry m of None \<Rightarrow> False | Some t \<Rightarrow> t \<le> expires e)"

definition pins_ok :: "Memory \<Rightarrow> bool" where
  "pins_ok m \<longleftrightarrow> (\<forall>e \<in> set (ll m). pinned e \<longrightarrow> isPinPrefix m (ekey e))"

definition fifo_ok :: "int \<Rightarrow> string set \<Rightarrow> string list \<Rightarrow> bool" where
  "fifo_ok mx marks order \<longleftrightarrow> distinct order \<and> marks = set order \<and> int (length order) \<le> mx"

definition marks_ok :: "Memory \<Rightarrow> bool" where
  "marks_ok m \<longleftrightarrow> fifo_ok (maxN m) (lostFrozen m) (lostOrder m)
     \<and> fifo_ok (maxN m) (reclaimed m) (reclaimedOrder m)
     \<and> repairedN m + int (length (lostOrder m)) \<le> lostN m"

text \<open>\<open>wf_core\<close> also holds between an insertion and the eviction that follows it.\<close>

definition wf_core :: "Memory \<Rightarrow> bool" where
  "wf_core m \<longleftrightarrow> keys_ok m \<and> counters_ok m \<and> budget_ok m \<and> bound_ok m \<and> pins_ok m \<and> marks_ok m"

definition mem_wf :: "Memory \<Rightarrow> bool" where
  "mem_wf m \<longleftrightarrow> wf_core m \<and> int (length (ll m)) \<le> maxN m"

lemmas wf_parts = keys_ok_def counters_ok_def budget_ok_def bound_ok_def pins_ok_def marks_ok_def
lemmas wf_defs = mem_wf_def wf_core_def wf_parts

text \<open>The fields no operation changes.\<close>

definition config :: "Memory \<Rightarrow> (duration \<times> duration \<times> duration) \<times> (int \<times> int) \<times> string list \<times> int \<times> bool" where
  "config m = ((ttl m, stashTTL m, stateTTL m), (maxN m, maxStick m), pinPrefixes m, stashMaxBytes m, noSlide m)"

lemma config_caps:
  "config m' = config m \<Longrightarrow> ttl m' = ttl m \<and> stashTTL m' = stashTTL m \<and> stateTTL m' = stateTTL m \<and> maxN m' = maxN m
     \<and> maxStick m' = maxStick m \<and> pinPrefixes m' = pinPrefixes m \<and> stashMaxBytes m' = stashMaxBytes m \<and> noSlide m' = noSlide m
     \<and> pinCap m' = pinCap m \<and> stashCap m' = stashCap m \<and> evictableFloor m' = evictableFloor m
     \<and> isPinPrefix m' = isPinPrefix m \<and> ttlFor m' = ttlFor m"
  by (auto simp: config_def pinCap_def stashCap_def evictableFloor_def isPinPrefix_def ttlFor_def fun_eq_iff)

lemma evictableFloor_pos: "1 \<le> evictableFloor m"
  by (simp add: evictableFloor_def Let_def)

section \<open>The mark queues\<close>

lemma dropOldestMarks_ok:
  assumes "fifo_ok b marks order" "1 \<le> mx"
    and "dropOldestMarks mx marks order = (marks', order')"
  shows "distinct order' \<and> marks' = set order' \<and> int (length order') < mx
     \<and> length order' \<le> length order \<and> set order' \<subseteq> set order"
  using assms
proof (induction mx marks order arbitrary: b rule: dropOldestMarks.induct)
  case (2 mx marks oldest order)
  then have "fifo_ok b (marks - {oldest}) order"
    by (auto simp: fifo_ok_def)
  with 2 show ?case
    by (fastforce simp: fifo_ok_def distinct_card split: if_splits)
qed (auto simp: fifo_ok_def)

lemma fifo_push:
  assumes "fifo_ok mx marks order" "1 \<le> mx" "k \<notin> marks"
    and "dropOldestMarks mx marks order = (marks', order')"
  shows "fifo_ok mx (insert k marks') (order' @ [k]) \<and> length order' \<le> length order"
  using dropOldestMarks_ok [OF assms(1,2,4)] assms(1,3) by (auto simp: fifo_ok_def)

lemma fifo_delete: "fifo_ok mx marks order \<Longrightarrow> fifo_ok mx (marks - {k}) (remove1 k order)"
  by (auto simp: fifo_ok_def length_remove1)

lemma noteLost_config [simp]: "config (noteLost k m) = config m"
  by (simp add: noteLost_def config_def Let_def split: prod.split)

lemma noteReclaimed_config [simp]: "config (noteReclaimed k m) = config m"
  by (simp add: noteReclaimed_def config_def Let_def split: prod.split)

lemma marks_ok_noteLost: "marks_ok m \<Longrightarrow> 1 \<le> maxN m \<Longrightarrow> marks_ok (noteLost k m)"
  by (cases "dropOldestMarks (maxN m) (lostFrozen m) (lostOrder m)")
    (auto simp: noteLost_def marks_ok_def dest: fifo_push)

lemma marks_ok_noteReclaimed: "marks_ok m \<Longrightarrow> 1 \<le> maxN m \<Longrightarrow> marks_ok (noteReclaimed k m)"
  by (cases "dropOldestMarks (maxN m) (reclaimed m) (reclaimedOrder m)")
    (auto simp: noteReclaimed_def marks_ok_def dest: fifo_push)

lemma noteLost_marked: "k \<in> lostFrozen (noteLost k m)"
  by (simp add: noteLost_def Let_def split: prod.split)

text \<open>The two recorders change their own marks only.\<close>

lemma note_caps [simp]:
  "maxN (noteLost k m) = maxN m" "noSlide (noteLost k m) = noSlide m" "isPinPrefix (noteLost k m) = isPinPrefix m"
  "maxN (noteReclaimed k m) = maxN m" "noSlide (noteReclaimed k m) = noSlide m"
  "isPinPrefix (noteReclaimed k m) = isPinPrefix m"
  using config_caps [OF noteLost_config] config_caps [OF noteReclaimed_config] by auto

lemma isPinPrefix_update [simp]:
  "isPinPrefix (m\<lparr>ll := a\<rparr>) = isPinPrefix m" "isPinPrefix (m\<lparr>items := b\<rparr>) = isPinPrefix m"
  "isPinPrefix (m\<lparr>pinnedN := c\<rparr>) = isPinPrefix m" "isPinPrefix (m\<lparr>stashN := c\<rparr>) = isPinPrefix m"
  "isPinPrefix (m\<lparr>stashBytes := c\<rparr>) = isPinPrefix m" "isPinPrefix (m\<lparr>stashExpiredN := c\<rparr>) = isPinPrefix m"
  "isPinPrefix (m\<lparr>nextExpiry := d\<rparr>) = isPinPrefix m" "isPinPrefix (m\<lparr>disk := g\<rparr>) = isPinPrefix m"
  by (simp_all add: isPinPrefix_def fun_eq_iff)

lemma noteLost_frame [simp]:
  "items (noteLost k m) = items m" "pinnedN (noteLost k m) = pinnedN m" "stashN (noteLost k m) = stashN m"
  "stashBytes (noteLost k m) = stashBytes m" "nextExpiry (noteLost k m) = nextExpiry m" "disk (noteLost k m) = disk m"
  "reclaimed (noteLost k m) = reclaimed m" "reclaimedOrder (noteLost k m) = reclaimedOrder m"
  by (simp_all add: noteLost_def Let_def split: prod.split)

lemma noteReclaimed_frame [simp]:
  "items (noteReclaimed k m) = items m" "pinnedN (noteReclaimed k m) = pinnedN m" "stashN (noteReclaimed k m) = stashN m"
  "stashBytes (noteReclaimed k m) = stashBytes m" "nextExpiry (noteReclaimed k m) = nextExpiry m" "disk (noteReclaimed k m) = disk m"
  "lostFrozen (noteReclaimed k m) = lostFrozen m" "lostOrder (noteReclaimed k m) = lostOrder m"
  "lostN (noteReclaimed k m) = lostN m" "repairedN (noteReclaimed k m) = repairedN m"
  by (simp_all add: noteReclaimed_def Let_def split: prod.split)

section \<open>Removal\<close>

lemma config_update [simp]:
  "config (m\<lparr>ll := a\<rparr>) = config m" "config (m\<lparr>items := b\<rparr>) = config m" "config (m\<lparr>pinnedN := c\<rparr>) = config m"
  "config (m\<lparr>stashN := d\<rparr>) = config m" "config (m\<lparr>stashBytes := c\<rparr>) = config m" "config (m\<lparr>stashExpiredN := c\<rparr>) = config m"
  "config (m\<lparr>nextExpiry := e\<rparr>) = config m" "config (m\<lparr>stashRefusedN := c\<rparr>) = config m" "config (m\<lparr>disk := f\<rparr>) = config m"
  "config (m\<lparr>reclaimed := b\<rparr>) = config m" "config (m\<lparr>reclaimedOrder := g\<rparr>) = config m" "config (m\<lparr>stashRevivedN := c\<rparr>) = config m"
  "config (m\<lparr>lostFrozen := b\<rparr>) = config m" "config (m\<lparr>lostOrder := g\<rparr>) = config m" "config (m\<lparr>repairedN := c\<rparr>) = config m"
  "config (m\<lparr>sticky := h\<rparr>) = config m" "config (m\<lparr>loadedAt := i\<rparr>) = config m" "config (m\<lparr>loadedOrder := g\<rparr>) = config m"
  "config (m\<lparr>loadFailedAt := i\<rparr>) = config m"
  by (simp_all add: config_def)

lemma remove_el_config [simp]: "config (remove_el e m) = config m"
  by (simp add: remove_el_def Let_def)

lemma remove_el_fields [simp]:
  "items (remove_el e m) = items m - {ekey e}"
  "pinnedN (remove_el e m) = pinnedN m - (if pinned e then 1 else 0)"
  "stashN (remove_el e m) = stashN m - (if stash e then 1 else 0)"
  "stashBytes (remove_el e m) = stashBytes m - stash_size e"
  "nextExpiry (remove_el e m) = nextExpiry m"
  "disk (remove_el e m) = disk m"
  by (simp_all add: remove_el_def Let_def stash_size_def)

lemma marks_ok_remove_el: "marks_ok m \<Longrightarrow> 1 \<le> maxN m \<Longrightarrow> marks_ok (remove_el e m)"
proof -
  assume m: "marks_ok m" "1 \<le> maxN m"
  have up: "marks_ok (x\<lparr>pinnedN := a\<rparr>) = marks_ok x" "marks_ok (x\<lparr>stashN := a, stashBytes := b\<rparr>) = marks_ok x"
    "marks_ok (x\<lparr>stashExpiredN := a\<rparr>) = marks_ok x" "marks_ok (x\<lparr>ll := c, items := d\<rparr>) = marks_ok x" for x a b c d
    by (simp_all add: marks_ok_def)
  show ?thesis
    unfolding remove_el_def Let_def up
    using m by (auto simp: up intro!: marks_ok_noteLost marks_ok_noteReclaimed)
qed

lemma wf_core_remove_el:
  assumes "wf_core m" "e \<in> set (ll m)"
  shows "wf_core (remove_el e m)"
proof -
  note c = config_caps [OF remove_el_config [of e m]]
  have "keys_ok (remove_el e m)"
    using assms by (auto simp: wf_core_def keys_ok_def distinct_map_remove1 set_remove1_distinct_map)
  moreover have "counters_ok (remove_el e m)"
    using assms by (auto simp: wf_core_def counters_ok_def countp_remove1 sum_list_remove1)
  moreover have "budget_ok (remove_el e m)"
    using assms c by (auto simp: wf_core_def budget_ok_def)
  moreover have "bound_ok (remove_el e m)"
    using assms set_remove1_subset [of e "ll m"] by (auto simp: wf_core_def bound_ok_def)
  moreover have "pins_ok (remove_el e m)"
    using assms c set_remove1_subset [of e "ll m"] by (auto simp: wf_core_def pins_ok_def)
  moreover have "marks_ok (remove_el e m)"
    using assms by (auto simp: wf_core_def budget_ok_def intro!: marks_ok_remove_el)
  ultimately show ?thesis by (simp add: wf_core_def)
qed

text \<open>A removal in a pinned namespace is recorded as a loss (unless the old store is reproduced).\<close>

lemma remove_el_marks_loss:
  "isPinPrefix m (ekey e) \<Longrightarrow> \<not> noSlide m \<Longrightarrow> FrozenLost (ekey e) (remove_el e m)"
  by (auto simp: FrozenLost_def remove_el_def Let_def noteLost_marked)

section \<open>The expiry sweep\<close>

text \<open>What the sweep loop does to the list: exactly the expired elements of the pending part go.\<close>

lemma wf_core_distinct: "wf_core m \<Longrightarrow> distinct (ll m)"
  by (auto simp: wf_core_def keys_ok_def dest: distinct_map [THEN iffD1])

lemma remove1_filter: "distinct xs \<Longrightarrow> remove1 e xs = filter (\<lambda>x. x \<noteq> e) xs"
  by (simp add: distinct_remove1_removeAll removeAll_filter_not_eq neq_commute)

lemma sweep_loop_inv:
  assumes "wf_core m" "distinct es" "set es \<subseteq> set (ll m)"
    and "sweep_loop now es n s m = (n', s', m')"
  shows "wf_core m' \<and> config m' = config m \<and> disk m' = disk m
     \<and> ll m' = filter (\<lambda>e. \<not> (e \<in> set es \<and> now > expires e)) (ll m)"
  using assms
proof (induction now es n s m rule: sweep_loop.induct)
  case (2 now e es n s m)
  show ?case
  proof (cases "now > expires e")
    case True
    note d = wf_core_distinct [OF "2.prems"(1)]
    have "set es \<subseteq> set (ll (remove_el e m))" using "2.prems"(2,3) d by auto
    with 2 True have "wf_core m' \<and> config m' = config m \<and> disk m' = disk m
       \<and> ll m' = filter (\<lambda>x. \<not> (x \<in> set es \<and> now > expires x)) (remove1 e (ll m))"
      using wf_core_remove_el by auto
    moreover have "filter (\<lambda>x. \<not> (x \<in> set es \<and> now > expires x)) (remove1 e (ll m))
       = filter (\<lambda>x. \<not> (x \<in> set (e # es) \<and> now > expires x)) (ll m)"
      using True by (auto simp: remove1_filter [OF d] intro!: filter_cong)
    ultimately show ?thesis by simp
  next
    case False
    with 2 have "wf_core m' \<and> config m' = config m \<and> disk m' = disk m
       \<and> ll m' = filter (\<lambda>x. \<not> (x \<in> set es \<and> now > expires x)) (ll m)" by auto
    moreover have "filter (\<lambda>x. \<not> (x \<in> set es \<and> now > expires x)) (ll m)
       = filter (\<lambda>x. \<not> (x \<in> set (e # es) \<and> now > expires x)) (ll m)"
      using False by (auto intro!: filter_cong)
    ultimately show ?thesis by simp
  qed
qed auto

lemma sweep_loop_soonest:
  assumes "sweep_loop now es n s m = (n', s', m')"
  shows "s' = fold (\<lambda>e s. if now > expires e then s else sooner (expires e) s) es s"
  using assms by (induction now es n s m rule: sweep_loop.induct) (auto split: if_splits)

lemma soonest_lower:
  "fold (\<lambda>e s. if now > expires e then s else sooner (expires e) s) es s = r \<Longrightarrow>
   (\<forall>t. s = Some t \<longrightarrow> (\<exists>u. r = Some u \<and> u \<le> t))
   \<and> (\<forall>e \<in> set es. \<not> now > expires e \<longrightarrow> (\<exists>u. r = Some u \<and> u \<le> expires e))"
proof (induction es arbitrary: s)
  case (Cons e es)
  define s1 where "s1 = (if now > expires e then s else sooner (expires e) s)"
  have r: "fold (\<lambda>e s. if now > expires e then s else sooner (expires e) s) es s1 = r"
    using Cons.prems by (simp add: s1_def)
  note ih = Cons.IH [OF r]
  have up: "\<exists>u. s1 = Some u \<and> u \<le> t" if "s = Some t" for t
    using that by (auto simp: s1_def sooner_def)
  have here: "\<exists>u. s1 = Some u \<and> u \<le> expires e" if "\<not> now > expires e"
    using that by (auto simp: s1_def sooner_def split: option.splits)
  from ih have le: "\<exists>w. r = Some w \<and> w \<le> u" if "s1 = Some u" for u
    using that by blast
  have "\<exists>u. r = Some u \<and> u \<le> t" if "s = Some t" for t
    using up [OF that] le by (metis order_trans)
  moreover have "\<exists>u. r = Some u \<and> u \<le> expires x" if "x \<in> set (e # es)" "\<not> now > expires x" for x
    using that here le ih by (cases "x = e") (metis order_trans, auto)
  ultimately show ?case by blast
qed auto

lemma sweepExpired_spec:
  assumes "wf_core m" "sweepExpired now m = (n, m')"
  shows "wf_core m' \<and> config m' = config m \<and> disk m' = disk m \<and> ll m' = filter (\<lambda>e. \<not> now > expires e) (ll m)"
proof (cases "case nextExpiry m of Some t \<Rightarrow> \<not> now > t | None \<Rightarrow> False")
  case True
  have "\<not> now > expires e" if "e \<in> set (ll m)" for e
    using True assms(1) that by (fastforce simp: wf_core_def bound_ok_def split: option.splits)
  then have "filter (\<lambda>e. \<not> now > expires e) (ll m) = ll m" by (simp add: filter_id_conv)
  with True assms show ?thesis by (auto simp: sweepExpired_def)
next
  case False
  obtain s m1 where l: "sweep_loop now (rev (ll m)) 0 None m = (n, s, m1)" and m': "m' = m1\<lparr>nextExpiry := s\<rparr>"
    using assms(2) False by (auto simp: sweepExpired_def split: prod.splits if_splits)
  have 1: "wf_core m1" "config m1 = config m" "disk m1 = disk m"
    and s1: "ll m1 = filter (\<lambda>e. \<not> (e \<in> set (rev (ll m)) \<and> now > expires e)) (ll m)"
    using sweep_loop_inv [OF assms(1) _ _ l] wf_core_distinct [OF assms(1)] by auto
  have s2: "ll m1 = filter (\<lambda>e. \<not> now > expires e) (ll m)"
    unfolding s1 by (auto intro!: filter_cong)
  have "bound_ok m'"
    using soonest_lower [OF sweep_loop_soonest [OF l, symmetric]] s2 by (force simp: bound_ok_def m')
  with 1 s2 show ?thesis
    by (simp add: wf_core_def wf_parts m' pinCap_def stashCap_def evictableFloor_def)
qed

section \<open>Eviction\<close>

text \<open>
  What any amount of eviction leaves alone: every live element that is pinned or stashed.
  \<open>shrunk\<close> relates the store before and after, at one instant.
\<close>

definition shrunk :: "instant \<Rightarrow> Memory \<Rightarrow> Memory \<Rightarrow> bool" where
  "shrunk now m m' \<longleftrightarrow> wf_core m' \<and> config m' = config m \<and> disk m' = disk m \<and> set (ll m') \<subseteq> set (ll m)
     \<and> (\<forall>e \<in> set (ll m). (pinned e \<or> stash e) \<and> \<not> now > expires e \<longrightarrow> e \<in> set (ll m'))"

lemma shrunk_refl: "wf_core m \<Longrightarrow> shrunk now m m"
  by (simp add: shrunk_def)

lemma shrunk_trans: "shrunk now m m1 \<Longrightarrow> shrunk now m1 m2 \<Longrightarrow> shrunk now m m2"
  by (auto simp: shrunk_def)

lemma shrunk_sweep: "wf_core m \<Longrightarrow> shrunk now m (snd (sweepExpired now m))"
  using sweepExpired_spec [of m now "fst (sweepExpired now m)" "snd (sweepExpired now m)"]
  by (auto simp: shrunk_def)

lemma exists_evictable:
  assumes "wf_core m" "int (length (ll m)) > maxN m"
  shows "\<exists>e \<in> set (tl (ll m)). \<not> pinned e \<and> \<not> stash e"
proof -
  have "pinnedN m + stashN m \<le> maxN m - 1"
    using assms(1) evictableFloor_pos [of m] by (auto simp: wf_core_def budget_ok_def)
  then have b: "countp pinned (ll m) + countp stash (ll m) < maxN m"
    using assms(1) by (auto simp: wf_core_def counters_ok_def)
  show ?thesis
  proof (cases "ll m")
    case Nil
    with b assms(2) show ?thesis by simp
  next
    case (Cons x xs)
    with b assms(2) have "countp pinned xs + countp stash xs < int (length xs)" by (auto split: if_splits)
    with Cons show ?thesis by (simp add: exists_neither)
  qed
qed

lemma find_rev_tl:
  assumes "\<exists>e \<in> set (tl xs). P e" "distinct xs"
  shows "\<exists>e. find P (rev xs) = Some e \<and> e \<in> set (tl xs) \<and> P e \<and> e \<noteq> hd xs"
proof (cases xs)
  case Nil
  with assms show ?thesis by simp
next
  case (Cons x ys)
  then obtain e where e: "find P (rev ys) = Some e"
    using assms(1) by (metis find_None_iff list.sel(3) not_None_eq set_rev)
  have app: "find P (as @ bs) = (case find P as of Some y \<Rightarrow> Some y | None \<Rightarrow> find P bs)" for as bs
    by (induction as) auto
  from e Cons have "find P (rev xs) = Some e" by (simp add: app)
  with find_Some_set [OF e] Cons assms(2) show ?thesis by auto
qed

lemma evictOldest_spec:
  assumes "wf_core m" "int (length (ll m)) > maxN m" "evictOldest now m = (b, m')"
  shows "b \<and> shrunk now m m' \<and> (\<not> now > expires (hd (ll m)) \<longrightarrow> hd (ll m) = hd (ll m') \<and> ll m' \<noteq> [])"
proof -
  obtain n m1 where s: "sweepExpired now m = (n, m1)" by fastforce
  note sp = sweepExpired_spec [OF assms(1) s]
  note len = sweepExpired_length [OF s]
  have ne: "ll m \<noteq> []" using exists_evictable [OF assms(1,2)] by auto
  show ?thesis
  proof (cases "n > 0")
    case True
    with s assms(3) have bm: "b" "m' = m1" by (auto simp: evictOldest_def)
    with sp shrunk_sweep [OF assms(1), of now] s ne show ?thesis
      by (cases "ll m") auto
  next
    case False
    with len have l1: "length (ll m1) = length (ll m)" by simp
    with sp have same: "ll m1 = ll m" by (metis length_filter_less less_irrefl_nat filter_id_conv)
    from sp have "maxN m1 = maxN m" by (auto dest: config_caps)
    then have "\<exists>e \<in> set (tl (ll m1)). \<not> pinned e \<and> \<not> stash e"
      using sp assms(2) l1 by (intro exists_evictable) auto
    then obtain e where e: "find (\<lambda>e. \<not> pinned e \<and> \<not> stash e) (rev (ll m1)) = Some e"
      and et: "e \<in> set (tl (ll m1))" "\<not> pinned e" "\<not> stash e" "e \<noteq> hd (ll m1)"
      using find_rev_tl [of "ll m1" "\<lambda>e. \<not> pinned e \<and> \<not> stash e"] sp wf_core_distinct by metis
    with False s assms(3) have bm: "b" "m' = remove_el e m1" by (auto simp: evictOldest_def)
    have "e \<in> set (ll m1)" using et(1) by (cases "ll m1") auto
    then have w: "wf_core m'" using sp bm wf_core_remove_el by auto
    have frame: "config m' = config m" "disk m' = disk m" "ll m' = remove1 e (ll m)"
      using sp bm same by auto
    have keep: "x \<in> set (ll m')" if "x \<in> set (ll m)" "x \<noteq> e" for x
      using that frame(3) by simp
    have "shrunk now m m'"
      using w frame et keep set_remove1_subset [of e "ll m"] unfolding shrunk_def by metis
    moreover have "hd (ll m) = hd (ll m') \<and> ll m' \<noteq> []"
      using ne et(4) same frame(3) by (cases "ll m") auto
    ultimately show ?thesis using bm by simp
  qed
qed

lemma evict_loop_spec:
  assumes "wf_core m"
  shows "shrunk now m (evict_loop now m) \<and> int (length (ll (evict_loop now m))) \<le> maxN m
     \<and> (ll m \<noteq> [] \<longrightarrow> \<not> now > expires (hd (ll m)) \<longrightarrow> hd (ll m) \<in> set (ll (evict_loop now m)))"
  using assms
proof (induction now m rule: evict_loop.induct)
  case (1 now m)
  show ?case
  proof (cases "int (length (ll m)) > maxN m")
    case False
    then show ?thesis using "1.prems" by (simp add: evict_loop.simps [of now m] shrunk_refl)
  next
    case True
    obtain b m' where e: "evictOldest now m = (b, m')" by fastforce
    note sp = evictOldest_spec [OF "1.prems" True e]
    then have m': "wf_core m'" "maxN m' = maxN m" by (auto simp: shrunk_def dest: config_caps)
    have eq: "evict_loop now m = evict_loop now m'" using True e sp by (simp add: evict_loop.simps [of now m])
    note ih = "1.IH" [OF True e [symmetric] _ m'(1)]
    show ?thesis unfolding eq using ih sp m' by (auto intro: shrunk_trans)
  qed
qed

section \<open>Loss marks under eviction\<close>

text \<open>A key that is present is not marked lost by removing other elements.\<close>

definition unmarked :: "string \<Rightarrow> Memory \<Rightarrow> bool" where
  "unmarked k m \<longleftrightarrow> (k \<in> ekey ` set (ll m) \<longrightarrow> k \<notin> lostFrozen m)"

lemma dropOldestMarks_subset: "dropOldestMarks mx marks order = (marks', order') \<Longrightarrow> marks' \<subseteq> marks"
  by (induction mx marks order rule: dropOldestMarks.induct) (auto split: if_splits)

lemma noteLost_subset: "lostFrozen (noteLost k m) \<subseteq> insert k (lostFrozen m)"
  by (auto simp: noteLost_def Let_def split: prod.split dest: dropOldestMarks_subset)

lemma remove_el_lost: "lostFrozen (remove_el e m) \<subseteq> insert (ekey e) (lostFrozen m)"
  using noteLost_subset [of "ekey e"] by (fastforce simp: remove_el_def Let_def split: if_splits)

lemma remove_el_refused [simp]: "stashRefusedN (remove_el e m) = stashRefusedN m"
  by (simp add: remove_el_def Let_def noteLost_def noteReclaimed_def split: prod.split)

lemma sweep_loop_refused: "sweep_loop now es n s m = (n', s', m') \<Longrightarrow> stashRefusedN m' = stashRefusedN m"
  by (induction now es n s m rule: sweep_loop.induct) (auto split: if_splits)

lemma sweepExpired_refused: "stashRefusedN (snd (sweepExpired now m)) = stashRefusedN m"
  by (auto simp: sweepExpired_def split: prod.split dest: sweep_loop_refused)

lemma unmarked_remove_el:
  assumes "wf_core m" "e \<in> set (ll m)" "unmarked k m"
  shows "unmarked k (remove_el e m)"
  using assms remove_el_lost [of e m] set_remove1_distinct_map [of ekey "ll m" e]
  by (auto simp: unmarked_def wf_core_def keys_ok_def)

lemma unmarked_sweep_loop:
  assumes "wf_core m" "distinct es" "set es \<subseteq> set (ll m)" "unmarked k m" "sweep_loop now es n s m = (n', s', m')"
  shows "unmarked k m'"
  using assms
proof (induction now es n s m rule: sweep_loop.induct)
  case (2 now e es n s m)
  note d = wf_core_distinct [OF "2.prems"(1)]
  have "unmarked k (remove_el e m)" "wf_core (remove_el e m)" "set es \<subseteq> set (ll (remove_el e m))"
    using "2.prems" d by (auto intro: unmarked_remove_el wf_core_remove_el)
  with 2 show ?case by (auto split: if_splits)
qed auto

lemma unmarked_sweepExpired:
  assumes "wf_core m" "unmarked k m" "sweepExpired now m = (n, m')"
  shows "unmarked k m'"
proof -
  obtain n1 s1 m1 where l: "sweep_loop now (rev (ll m)) 0 None m = (n1, s1, m1)" by (metis prod_cases3)
  have "unmarked k m1"
    using unmarked_sweep_loop [OF assms(1) _ _ assms(2) l] wf_core_distinct [OF assms(1)] by auto
  moreover have "m' = m \<or> m' = m1\<lparr>nextExpiry := s1\<rparr>"
    using assms(3) l by (auto simp: sweepExpired_def split: if_splits option.splits)
  ultimately show ?thesis using assms(2) by (auto simp: unmarked_def)
qed

lemma unmarked_evictOldest:
  assumes "wf_core m" "unmarked k m" "evictOldest now m = (b, m')"
  shows "unmarked k m'"
proof -
  obtain n m1 where s: "sweepExpired now m = (n, m1)" by fastforce
  have 1: "wf_core m1" "unmarked k m1"
    using sweepExpired_spec [OF assms(1) s] unmarked_sweepExpired [OF assms(1,2) s] by auto
  then show ?thesis
    using assms(3) s by (auto simp: evictOldest_def split: if_splits option.splits dest!: find_Some_set
        intro: unmarked_remove_el)
qed

lemma unmarked_evict_loop: "wf_core m \<Longrightarrow> unmarked k m \<Longrightarrow> unmarked k (evict_loop now m)"
proof (induction now m rule: evict_loop.induct)
  case (1 now m)
  obtain b m' where e: "evictOldest now m = (b, m')" by fastforce
  note u = unmarked_evictOldest [OF "1.prems" e]
  show ?case
  proof (cases "int (length (ll m)) > maxN m")
    case True
    note sp = evictOldest_spec [OF "1.prems"(1) True e]
    then have "evict_loop now m = evict_loop now m'" using True e by (simp add: evict_loop.simps [of now m])
    with "1.IH" [OF True e [symmetric]] sp u show ?thesis by (simp add: shrunk_def)
  qed (use "1.prems" in \<open>simp add: evict_loop.simps [of now m]\<close>)
qed

section \<open>Writing one element\<close>

definition lower :: "instant \<Rightarrow> instant option \<Rightarrow> instant option" where
  "lower t s = Some (case s of None \<Rightarrow> t | Some n \<Rightarrow> min t n)"

lemma noteExpiry_lower: "noteExpiry t m = m\<lparr>nextExpiry := lower t (nextExpiry m)\<rparr>"
  by (auto simp: noteExpiry_def lower_def min_def split: option.split)

lemma setExpiry_eq:
  "setExpiry now e m = (e\<lparr>expires := now + ttlFor m e\<rparr>, m\<lparr>nextExpiry := lower (now + ttlFor m e) (nextExpiry m)\<rparr>)"
  by (simp add: setExpiry_def Let_def noteExpiry_lower)

text \<open>
  Both kinds of write put an element \<open>e'\<close> in front of the other elements \<open>rest\<close> of the
  list; what each write owes is that the budgets still hold.
\<close>

lemma wf_core_front:
  assumes "wf_core m" "config m' = config m" "marks_ok m'"
    and l: "ll m' = e' # rest" "set rest \<subseteq> set (ll m)" "distinct (map ekey rest)" "ekey e' \<notin> ekey ` set rest"
    and "items m' = insert (ekey e') (ekey ` set rest)" "counters_ok m'"
    and "pinnedN m' \<le> pinCap m" "stashN m' \<le> stashCap m" "pinnedN m' + stashN m' \<le> maxN m - evictableFloor m"
    and "nextExpiry m' = lower (expires e') (nextExpiry m)" "pinned e' \<longrightarrow> isPinPrefix m (ekey e')"
  shows "wf_core m'"
proof -
  note c = config_caps [OF assms(2)]
  have "keys_ok m'" using assms by (auto simp: keys_ok_def)
  moreover have "budget_ok m'" using assms c by (auto simp: wf_core_def budget_ok_def)
  moreover have "bound_ok m'"
    using assms by (fastforce simp: wf_core_def bound_ok_def lower_def split: option.splits)
  moreover have "pins_ok m'" using assms c by (auto simp: wf_core_def pins_ok_def)
  ultimately show ?thesis using assms by (simp add: wf_core_def)
qed

lemma find_el_Some: "find_el k m = Some e \<Longrightarrow> e \<in> set (ll m) \<and> ekey e = k \<and> k \<in> items m"
  by (auto simp: find_el_def find_Some_iff split: if_splits)

lemma find_el_in: "wf_core m \<Longrightarrow> e \<in> set (ll m) \<Longrightarrow> find_el (ekey e) m = Some e"
  using find_key [of ekey "ll m" e] by (auto simp: find_el_def wf_core_def keys_ok_def)

lemma find_el_None: "wf_core m \<Longrightarrow> find_el k m = None \<longleftrightarrow> k \<notin> ekey ` set (ll m)"
  by (auto simp: find_el_def wf_core_def keys_ok_def find_None_iff)

text \<open>A refresh: the element under its key is rewritten and moved to the front.\<close>

lemma wf_core_refresh:
  assumes "wf_core m" "e \<in> set (ll m)" "ekey e' = ekey e" "config m' = config m" "marks_ok m'"
    and "ll m' = e' # remove1 e (ll m)" "items m' = items m"
    and "pinnedN m' = pinnedN m - (if pinned e then 1 else 0) + (if pinned e' then 1 else 0)"
    and "stashN m' = stashN m - (if stash e then 1 else 0) + (if stash e' then 1 else 0)"
    and "stashBytes m' = stashBytes m - stash_size e + stash_size e'"
    and "pinnedN m' \<le> pinCap m" "stashN m' \<le> stashCap m" "pinnedN m' + stashN m' \<le> maxN m - evictableFloor m"
    and "nextExpiry m' = lower (expires e') (nextExpiry m)" "pinned e' \<longrightarrow> isPinPrefix m (ekey e')"
  shows "wf_core m'"
proof (rule wf_core_front)
  show "wf_core m" "config m' = config m" "marks_ok m'" "ll m' = e' # remove1 e (ll m)" by fact+
  have k: "distinct (map ekey (ll m))" "items m = ekey ` set (ll m)"
    using assms(1) by (auto simp: wf_core_def keys_ok_def)
  note r = set_remove1_distinct_map [OF k(1) assms(2)]
  show "set (remove1 e (ll m)) \<subseteq> set (ll m)" by (rule set_remove1_subset)
  show "distinct (map ekey (remove1 e (ll m)))" by (rule distinct_map_remove1 [OF k(1)])
  show "ekey e' \<notin> ekey ` set (remove1 e (ll m))" using r assms(3) by simp
  show "items m' = insert (ekey e') (ekey ` set (remove1 e (ll m)))" using r k assms by auto
  show "counters_ok m'"
    using assms by (auto simp: wf_core_def counters_ok_def countp_remove1 sum_list_remove1)
qed (use assms in auto)

text \<open>An insertion of a new key.\<close>

lemma wf_core_insert:
  assumes "wf_core m" "ekey e' \<notin> ekey ` set (ll m)" "config m' = config m" "marks_ok m'"
    and "ll m' = e' # ll m" "items m' = insert (ekey e') (items m)"
    and "pinnedN m' = pinnedN m + (if pinned e' then 1 else 0)"
    and "stashN m' = stashN m + (if stash e' then 1 else 0)"
    and "stashBytes m' = stashBytes m + stash_size e'"
    and "pinnedN m' \<le> pinCap m" "stashN m' \<le> stashCap m" "pinnedN m' + stashN m' \<le> maxN m - evictableFloor m"
    and "nextExpiry m' = lower (expires e') (nextExpiry m)" "pinned e' \<longrightarrow> isPinPrefix m (ekey e')"
  shows "wf_core m'"
  by (rule wf_core_front [of m m' e' "ll m"])
    (use assms in \<open>auto simp: wf_core_def keys_ok_def counters_ok_def\<close>)

lemma remove1_other_key: "x \<in> set xs \<Longrightarrow> ekey x \<noteq> ekey e \<Longrightarrow> x \<in> set (remove1 e xs)"
  by (metis in_set_remove1)

section \<open>Plain writes\<close>

text \<open>
  \<open>kept now k m m'\<close>: every live pinned or stashed element of another key survives untouched; the
  configuration stays.
\<close>

definition kept :: "instant \<Rightarrow> string \<Rightarrow> Memory \<Rightarrow> Memory \<Rightarrow> bool" where
  "kept now k m m' \<longleftrightarrow> config m' = config m
     \<and> (\<forall>e \<in> set (ll m). ekey e \<noteq> k \<longrightarrow> pinned e \<or> stash e \<longrightarrow> \<not> now > expires e \<longrightarrow> e \<in> set (ll m'))"

definition ttl_ok :: "Memory \<Rightarrow> bool" where
  "ttl_ok m \<longleftrightarrow> 0 \<le> ttl m \<and> 0 \<le> stashTTL m"

lemma ttlFor_nonneg: "ttl_ok m \<Longrightarrow> 0 \<le> ttlFor m e"
  by (auto simp: ttl_ok_def ttlFor_def)

lemma repairLost_frame [simp]:
  "config (repairLost k m) = config m" "ll (repairLost k m) = ll m" "items (repairLost k m) = items m"
  "pinnedN (repairLost k m) = pinnedN m" "stashN (repairLost k m) = stashN m" "stashBytes (repairLost k m) = stashBytes m"
  "nextExpiry (repairLost k m) = nextExpiry m" "disk (repairLost k m) = disk m"
  "ttlFor (repairLost k m) = ttlFor m" "isPinPrefix (repairLost k m) = isPinPrefix m"
  "find_el j (repairLost k m) = find_el j m"
  by (auto simp: repairLost_def find_el_def ttlFor_def isPinPrefix_def fun_eq_iff)

lemma repairLost_clears: "k \<notin> lostFrozen (repairLost k m)"
  by (simp add: repairLost_def)

lemma marks_ok_repairLost: "marks_ok m \<Longrightarrow> marks_ok (repairLost k m)"
  by (auto simp: repairLost_def marks_ok_def fifo_ok_def int_length_remove1)

lemma wf_core_repairLost: "wf_core m \<Longrightarrow> wf_core (repairLost k m)"
  using config_caps [OF repairLost_frame(1) [of k m]]
  by (simp add: wf_core_def marks_ok_repairLost) (simp add: wf_parts)

definition pin_claim :: "string \<Rightarrow> entry \<Rightarrow> Memory \<Rightarrow> bool" where
  "pin_claim k e m \<longleftrightarrow> \<not> pinned e \<and> isPinPrefix m k \<and> \<not> noSlide m \<and> pinnedN m < pinCap m \<and> exemptRoom m"

lemma claimPin_eq:
  "claimPin k e m = (e\<lparr>pinned := pinned e \<or> pin_claim k e m\<rparr>, m\<lparr>pinnedN := pinnedN m + (if pin_claim k e m then 1 else 0)\<rparr>)"
  by (auto simp: claimPin_def pin_claim_def)

lemma marks_ok_update [simp]:
  "marks_ok (m\<lparr>ll := a\<rparr>) = marks_ok m" "marks_ok (m\<lparr>items := b\<rparr>) = marks_ok m" "marks_ok (m\<lparr>pinnedN := c\<rparr>) = marks_ok m"
  "marks_ok (m\<lparr>stashN := c\<rparr>) = marks_ok m" "marks_ok (m\<lparr>stashBytes := c\<rparr>) = marks_ok m"
  "marks_ok (m\<lparr>nextExpiry := d\<rparr>) = marks_ok m" "marks_ok (m\<lparr>stashRefusedN := c\<rparr>) = marks_ok m"
  "marks_ok (m\<lparr>stashRevivedN := c\<rparr>) = marks_ok m" "marks_ok (m\<lparr>disk := f\<rparr>) = marks_ok m"
  by (simp_all add: marks_ok_def)

text \<open>The element a plain write leaves under its key.\<close>

definition put_entry :: "instant \<Rightarrow> string \<Rightarrow> bytes \<Rightarrow> Memory \<Rightarrow> entry" where
  "put_entry now k v m =
     (let e = (case find_el k m of
                 Some e \<Rightarrow> e\<lparr>payload := v\<rparr>
               | None \<Rightarrow> \<lparr>ekey = k, payload = v, expires = 0, pinned = False, estate = isStateKey k, stash = False\<rparr>)
      in e\<lparr>expires := now + ttlFor m e, pinned := pinned e \<or> pin_claim k e m\<rparr>)"

lemma put_entry_simps:
  "ekey (put_entry now k v m) = k" "payload (put_entry now k v m) = v"
  "ttl_ok m \<Longrightarrow> now \<le> expires (put_entry now k v m)"
  by (auto simp: put_entry_def Let_def ttlFor_nonneg dest: find_el_Some split: option.split)

text \<open>The store between the write and the eviction.\<close>

definition put_front :: "instant \<Rightarrow> string \<Rightarrow> bytes \<Rightarrow> Memory \<Rightarrow> Memory" where
  "put_front now k v m =
     (let e' = put_entry now k v m;
          c = (case find_el k m of
                 Some e \<Rightarrow> pin_claim k e m
               | None \<Rightarrow> pinned e');
          m1 = m\<lparr>pinnedN := pinnedN m + (if c then 1 else 0), nextExpiry := lower (expires e') (nextExpiry m)\<rparr>
      in case find_el k m of
           Some e \<Rightarrow> m1\<lparr>ll := e' # remove1 e (ll m)\<rparr>
         | None \<Rightarrow> m1\<lparr>ll := e' # ll m, items := insert k (items m)\<rparr>)"

lemma pin_claim_frame [simp]:
  "pin_claim k (e\<lparr>payload := v\<rparr>) m = pin_claim k e m" "pin_claim k (e\<lparr>expires := t\<rparr>) m = pin_claim k e m"
  "pin_claim k e (m\<lparr>nextExpiry := s\<rparr>) = pin_claim k e m"
  by (simp_all add: pin_claim_def isPinPrefix_def pinCap_def exemptRoom_def evictableFloor_def)

lemma ttlFor_frame [simp]:
  "ttlFor m (e\<lparr>pinned := b\<rparr>) = ttlFor m e" "ttlFor (m\<lparr>pinnedN := c\<rparr>) e = ttlFor m e"
  "ttlFor m (e\<lparr>payload := v\<rparr>) = ttlFor m e" "ttlFor m (e\<lparr>expires := t\<rparr>) = ttlFor m e"
  by (simp_all add: ttlFor_def)

lemma put_entry_key: "find_el k m = Some e \<Longrightarrow> ekey e = k"
  by (auto dest: find_el_Some)

lemma putLocked_eq:
  "putLocked now k v m =
     (let m1 = repairLost k m in
      if find_el k m1 = None then evict_loop now (put_front now k v m1) else put_front now k v m1)"
proof (cases "find_el k (repairLost k m)")
  case None
  then show ?thesis
    by (auto simp: putLocked_def put_front_def put_entry_def claimPin_eq setExpiry_eq pushFront_def Let_def)
next
  case (Some e)
  then show ?thesis
    by (auto simp: putLocked_def put_front_def put_entry_def claimPin_eq setExpiry_eq moveToFront_def Let_def)
qed

text \<open>
  \<open>putLocked\<close> replaces the payload of a stashed element without charging the difference to the
  reserve, so the byte counter stays right only when the lengths agree, or the key is no stash at
  all (which is how the callers use the store: payload keys are bare hashes).
\<close>

definition no_clash :: "string \<Rightarrow> bytes \<Rightarrow> Memory \<Rightarrow> bool" where
  "no_clash k v m \<longleftrightarrow>
     (case find_el k m of Some e \<Rightarrow> stash e \<longrightarrow> length (payload e) = length v | None \<Rightarrow> True)"

lemma put_front_facts:
  assumes "wf_core m" and clash: "no_clash k v m"
  shows "wf_core (put_front now k v m)" "config (put_front now k v m) = config m" "disk (put_front now k v m) = disk m"
    "lostFrozen (put_front now k v m) = lostFrozen m" "hd (ll (put_front now k v m)) = put_entry now k v m"
    "set (ll (put_front now k v m)) = insert (put_entry now k v m) {e \<in> set (ll m). ekey e \<noteq> k}"
proof -
  show "config (put_front now k v m) = config m" "disk (put_front now k v m) = disk m"
    "lostFrozen (put_front now k v m) = lostFrozen m" "hd (ll (put_front now k v m)) = put_entry now k v m"
    by (auto simp: put_front_def Let_def split: option.split)
  have d: "distinct (map ekey (ll m))" using assms by (simp add: wf_core_def keys_ok_def)
  have b: "pinnedN m \<le> pinCap m" "stashN m \<le> stashCap m" "pinnedN m + stashN m \<le> maxN m - evictableFloor m" "marks_ok m"
    and p: "\<And>e. e \<in> set (ll m) \<Longrightarrow> pinned e \<Longrightarrow> isPinPrefix m (ekey e)"
    using assms by (auto simp: wf_core_def budget_ok_def pins_ok_def)
  have "wf_core (put_front now k v m) \<and>
    set (ll (put_front now k v m)) = insert (put_entry now k v m) {e \<in> set (ll m). ekey e \<noteq> k}"
  proof (cases "find_el k m")
    case None
    then have k: "k \<notin> ekey ` set (ll m)" using find_el_None [OF assms(1)] by simp
    have "wf_core (put_front now k v m)"
      by (rule wf_core_insert [OF assms(1), of "put_entry now k v m"])
        (use None k b in \<open>auto simp: put_entry_simps put_front_def Let_def put_entry_def stash_size_def pin_claim_def exemptRoom_def\<close>)
    with None k show ?thesis by (auto simp: put_front_def Let_def)
  next
    case (Some e)
    then have e: "e \<in> set (ll m)" "ekey e = k" by (auto dest: find_el_Some)
    have "wf_core (put_front now k v m)"
      by (rule wf_core_refresh [OF assms(1) e(1), of "put_entry now k v m"])
        (use Some e b p clash in \<open>auto simp: no_clash_def put_front_def Let_def put_entry_def
           stash_size_def pin_claim_def exemptRoom_def\<close>)
    moreover have "set (remove1 e (ll m)) = {x \<in> set (ll m). ekey x \<noteq> k}"
      using d e by (auto simp: remove1_filter distinct_map inj_on_def)
    ultimately show ?thesis using Some by (simp add: put_front_def Let_def)
  qed
  then show "wf_core (put_front now k v m)"
    "set (ll (put_front now k v m)) = insert (put_entry now k v m) {e \<in> set (ll m). ekey e \<noteq> k}" by auto
qed

lemma put_front_length:
  "int (length (ll (put_front now k v m))) = int (length (ll m)) + (if find_el k m = None then 1 else 0)"
proof (cases "find_el k m")
  case (Some e)
  then have "e \<in> set (ll m)" by (auto dest: find_el_Some)
  with Some int_length_remove1 [OF this] show ?thesis by (auto simp: put_front_def Let_def)
qed (simp add: put_front_def Let_def)

lemma ttl_ok_config: "config m' = config m \<Longrightarrow> ttl_ok m' = ttl_ok m"
  by (auto simp: ttl_ok_def dest: config_caps)

lemma no_clash_repairLost [simp]: "no_clash k v (repairLost j m) = no_clash k v m"
  by (simp add: no_clash_def)

lemma putLocked_wf:
  assumes "mem_wf m" "no_clash k v m"
  shows "mem_wf (putLocked now k v m) \<and> disk (putLocked now k v m) = disk m \<and> kept now k m (putLocked now k v m)"
proof -
  define m1 where "m1 = repairLost k m"
  have 1: "wf_core m1" "no_clash k v m1" "config m1 = config m" "disk m1 = disk m" "ll m1 = ll m"
    using assms by (auto simp: m1_def mem_wf_def wf_core_repairLost)
  note f = put_front_facts [OF 1(1,2), of now]
  have mx: "maxN (put_front now k v m1) = maxN m" using f(2) 1(3) config_caps by metis
  note ev = evict_loop_spec [OF f(1), of now]
  show ?thesis
  proof (cases "find_el k m1")
    case None
    then have eq: "putLocked now k v m = evict_loop now (put_front now k v m1)"
      by (simp add: putLocked_eq m1_def Let_def)
    have "mem_wf (evict_loop now (put_front now k v m1))"
      using ev mx by (auto simp: mem_wf_def shrunk_def dest: config_caps)
    moreover have "kept now k m (evict_loop now (put_front now k v m1))"
      using ev f 1 by (auto simp: kept_def shrunk_def)
    moreover have "disk (evict_loop now (put_front now k v m1)) = disk m"
      using ev f 1 by (auto simp: shrunk_def)
    ultimately show ?thesis by (simp add: eq)
  next
    case (Some e)
    then have eq: "putLocked now k v m = put_front now k v m1"
      by (simp add: putLocked_eq m1_def Let_def)
    show ?thesis
      using f 1 mx Some assms put_front_length [of now k v m1] by (auto simp: eq mem_wf_def kept_def)
  qed
qed

lemma putLocked_present:
  assumes "mem_wf m" "no_clash k v m" "ttl_ok m"
  shows "\<exists>e \<in> set (ll (putLocked now k v m)). ekey e = k \<and> payload e = v \<and> now \<le> expires e"
proof -
  define m1 where "m1 = repairLost k m"
  have 1: "wf_core m1" "no_clash k v m1" "ttl_ok m1"
    using assms ttl_ok_config [of m1 m] by (auto simp: m1_def mem_wf_def wf_core_repairLost)
  note f = put_front_facts [OF 1(1,2), of now]
  note ev = evict_loop_spec [OF f(1), of now]
  have "put_entry now k v m1 \<in> set (ll (put_front now k v m1))" using f(6) by simp
  then have ne: "ll (put_front now k v m1) \<noteq> []" by auto
  have live: "\<not> now > expires (put_entry now k v m1)" using put_entry_simps(3) [OF 1(3)] by (simp add: not_less)
  have "put_entry now k v m1 \<in> set (ll (putLocked now k v m))"
    using ev f(5,6) ne live by (auto simp: putLocked_eq m1_def [symmetric] Let_def)
  then show ?thesis using put_entry_simps(1,2) [of now k v m1] live by (auto simp: not_less)
qed

lemma putLocked_repairs:
  assumes "mem_wf m" "no_clash k v m" "ttl_ok m"
  shows "\<not> FrozenLost k (putLocked now k v m)"
proof -
  define m1 where "m1 = repairLost k m"
  have 1: "wf_core m1" "no_clash k v m1" using assms by (auto simp: m1_def mem_wf_def wf_core_repairLost)
  note f = put_front_facts [OF 1, of now]
  have nl: "k \<notin> lostFrozen (put_front now k v m1)" by (simp add: f(4)) (simp add: m1_def repairLost_clears)
  then have "unmarked k (evict_loop now (put_front now k v m1))"
    using unmarked_evict_loop [OF f(1)] by (simp add: unmarked_def)
  then have "unmarked k (putLocked now k v m)"
    using nl by (auto simp: putLocked_eq m1_def [symmetric] Let_def unmarked_def)
  with putLocked_present [OF assms, of now] show ?thesis by (auto simp: unmarked_def FrozenLost_def)
qed

end
