(* ===== verification/Store_Shift.thy ===== *)
theory Store_Shift
  imports Store_Invariant
begin

text \<open>
  The byte budget of the reserve is a pair of a counter and a limit, and the code only ever compares their
  difference with the size of a payload. Shifting both by the same amount is therefore invisible: every
  operation commutes with it. A store whose counter has drifted behaves as one whose counter is exact and
  whose limit is off by the drift, which is how the facts of \<open>Store_Reserve\<close> reach runs in which a plain
  write changes the length of a stashed payload.
\<close>

definition shift :: "int \<Rightarrow> Memory \<Rightarrow> Memory" where
  "shift c m = m\<lparr>stashBytes := stashBytes m + c, stashMaxBytes := stashMaxBytes m + c\<rparr>"

lemma shift_sel [simp]:
  "ll (shift c m) = ll m" "items (shift c m) = items m" "pinnedN (shift c m) = pinnedN m" "stashN (shift c m) = stashN m"
  "maxN (shift c m) = maxN m" "nextExpiry (shift c m) = nextExpiry m" "disk (shift c m) = disk m" "noSlide (shift c m) = noSlide m"
  "stashTTL (shift c m) = stashTTL m" "ttl (shift c m) = ttl m" "stateTTL (shift c m) = stateTTL m"
  "lostFrozen (shift c m) = lostFrozen m" "lostOrder (shift c m) = lostOrder m" "reclaimed (shift c m) = reclaimed m"
  "reclaimedOrder (shift c m) = reclaimedOrder m" "stashBytes (shift c m) = stashBytes m + c" "sticky (shift c m) = sticky m"
  "loadedAt (shift c m) = loadedAt m" "loadedOrder (shift c m) = loadedOrder m" "loadFailedAt (shift c m) = loadFailedAt m"
  "maxStick (shift c m) = maxStick m" "stashMaxBytes (shift c m) = stashMaxBytes m + c"
  "lostN (shift c m) = lostN m" "repairedN (shift c m) = repairedN m" "stashRefusedN (shift c m) = stashRefusedN m"
  "stashRevivedN (shift c m) = stashRevivedN m" "stashExpiredN (shift c m) = stashExpiredN m" "pinPrefixes (shift c m) = pinPrefixes m"
  by (simp_all add: shift_def)

lemma shift_shift [simp]: "shift a (shift b m) = shift (a + b) m"
  by (simp add: shift_def ac_simps)

lemma shift_0 [simp]: "shift 0 m = m"
  by (simp add: shift_def)

lemma shift_reads [simp]:
  "find_el k (shift c m) = find_el k m" "exemptRoom (shift c m) = exemptRoom m" "stashCap (shift c m) = stashCap m"
  "pinCap (shift c m) = pinCap m" "evictableFloor (shift c m) = evictableFloor m" "ttlFor (shift c m) = ttlFor m"
  "isPinPrefix (shift c m) = isPinPrefix m" "byteRoom (shift c m) sz = byteRoom m sz" "no_stash_room (shift c m) sz = no_stash_room m sz"
  by (simp_all add: find_el_def exemptRoom_def stashCap_def pinCap_def evictableFloor_def ttlFor_def fun_eq_iff isPinPrefix_def
      byteRoom_def no_stash_room_def)

text \<open>Updates of the other fields, and an addition to the counter, pass through.\<close>

lemma shift_updates:
  "shift c m\<lparr>pinnedN := x\<rparr> = shift c (m\<lparr>pinnedN := x\<rparr>)" "shift c m\<lparr>stashExpiredN := x\<rparr> = shift c (m\<lparr>stashExpiredN := x\<rparr>)"
  "shift c m\<lparr>stashN := x, stashBytes := b + c - y\<rparr> = shift c (m\<lparr>stashN := x, stashBytes := b - y\<rparr>)"
  "shift c m\<lparr>stashN := x, stashBytes := b + c + y\<rparr> = shift c (m\<lparr>stashN := x, stashBytes := b + y\<rparr>)"
  "shift c m\<lparr>stashBytes := b + c + y\<rparr> = shift c (m\<lparr>stashBytes := b + y\<rparr>)"
  "shift c m\<lparr>ll := es, items := is\<rparr> = shift c (m\<lparr>ll := es, items := is\<rparr>)" "shift c m\<lparr>ll := es\<rparr> = shift c (m\<lparr>ll := es\<rparr>)"
  "shift c m\<lparr>pinnedN := x, ll := es, items := is\<rparr> = shift c (m\<lparr>pinnedN := x, ll := es, items := is\<rparr>)"
  "shift c m\<lparr>nextExpiry := t\<rparr> = shift c (m\<lparr>nextExpiry := t\<rparr>)" "shift c m\<lparr>stashRefusedN := x\<rparr> = shift c (m\<lparr>stashRefusedN := x\<rparr>)"
  "shift c m\<lparr>reclaimed := r, reclaimedOrder := ro, stashRevivedN := x\<rparr> = shift c (m\<lparr>reclaimed := r, reclaimedOrder := ro, stashRevivedN := x\<rparr>)"
  "shift c m\<lparr>sticky := st\<rparr> = shift c (m\<lparr>sticky := st\<rparr>)" "shift c m\<lparr>disk := d\<rparr> = shift c (m\<lparr>disk := d\<rparr>)"
  "shift c m\<lparr>loadFailedAt := f\<rparr> = shift c (m\<lparr>loadFailedAt := f\<rparr>)" "shift c m\<lparr>loadedAt := f\<rparr> = shift c (m\<lparr>loadedAt := f\<rparr>)"
  "shift c m\<lparr>loadedAt := f, loadedOrder := lo\<rparr> = shift c (m\<lparr>loadedAt := f, loadedOrder := lo\<rparr>)"
  by (simp_all add: shift_def)

section \<open>Every operation commutes with a shift\<close>

lemma shift_marks:
  "noteLost k (shift c m) = shift c (noteLost k m)" "noteReclaimed k (shift c m) = shift c (noteReclaimed k m)"
  "repairLost k (shift c m) = shift c (repairLost k m)" "noteExpiry t (shift c m) = shift c (noteExpiry t m)"
  by (auto simp: noteLost_def noteReclaimed_def repairLost_def noteExpiry_def shift_def split: prod.split option.split)

lemma shift_entries:
  "setExpiry now e (shift c m) = (fst (setExpiry now e m), shift c (snd (setExpiry now e m)))"
  "claimPin k e (shift c m) = (fst (claimPin k e m), shift c (snd (claimPin k e m)))"
  "moveToFront e e' (shift c m) = shift c (moveToFront e e' m)" "pushFront e (shift c m) = shift c (pushFront e m)"
  by (auto simp: setExpiry_def Let_def shift_marks claimPin_def moveToFront_def pushFront_def shift_updates)

lemma shift_remove: "remove_el e (shift c m) = shift c (remove_el e m)"
  by (simp add: remove_el_def Let_def shift_updates shift_marks)

lemma shift_sweep_loop:
  "sweep_loop now es n s (shift c m) = (case sweep_loop now es n s m of (n', s', m') \<Rightarrow> (n', s', shift c m'))"
  by (induction now es n s m rule: sweep_loop.induct) (auto simp: shift_remove)

lemma shift_sweep: "sweepExpired now (shift c m) = (fst (sweepExpired now m), shift c (snd (sweepExpired now m)))"
  by (auto simp: sweepExpired_def shift_sweep_loop shift_updates split: prod.split)

lemma shift_evictOldest: "evictOldest now (shift c m) = (fst (evictOldest now m), shift c (snd (evictOldest now m)))"
  by (auto simp: evictOldest_def shift_sweep shift_remove split: prod.split option.split)

lemma shift_evict_loop: "evict_loop now (shift c m) = shift c (evict_loop now m)"
proof (induction now m rule: evict_loop.induct)
  case (1 now m)
  obtain b m' where e: "evictOldest now m = (b, m')" by fastforce
  show ?case
    by (subst (1 2) evict_loop.simps) (use 1 e in \<open>auto simp: shift_evictOldest split: prod.split\<close>)
qed

lemma shift_putLocked: "putLocked now k v (shift c m) = shift c (putLocked now k v m)"
  by (auto simp: putLocked_def Let_def shift_marks shift_entries shift_evict_loop split: option.split prod.split)

lemma shift_Put: "Put now k v (shift c m) = shift c (Put now k v m)"
  by (auto simp: Put_def Let_def shift_putLocked shift_updates split: option.split)

lemma shift_getMem: "getMem now k (shift c m) = (fst (getMem now k m), shift c (snd (getMem now k m)))"
  by (auto simp: getMem_def Let_def shift_entries shift_remove split: option.split prod.split)

lemma shift_getGlobal: "getGlobal now k (shift c m) = (fst (getGlobal now k m), shift c (snd (getGlobal now k m)))"
  by (auto simp: getGlobal_def Let_def shift_updates shift_putLocked split: option.split prod.split)

lemma shift_Get: "Get now k (shift c m) = (fst (Get now k m), shift c (snd (Get now k m)))"
  by (auto simp: Get_def shift_getMem shift_getGlobal split: option.split prod.split)

lemma shift_StashRoom: "StashRoom now sz (shift c m) = (fst (StashRoom now sz m), shift c (snd (StashRoom now sz m)))"
  by (auto simp: StashRoom_def Let_def shift_sweep)

lemma shift_PutStash: "PutStash now k v (shift c m) = (fst (PutStash now k v m), shift c (snd (PutStash now k v m)))"
proof (cases "find_el k m")
  case None
  then show ?thesis
    by (simp add: PutStash_def Let_def shift_sweep shift_entries shift_updates shift_evict_loop split: prod.split)
next
  case (Some e)
  then show ?thesis
    by (simp add: PutStash_def Let_def shift_entries shift_updates split: prod.split)
qed

lemma shift_MarkSticky: "MarkSticky ord s i (shift c m) = shift c (MarkSticky ord s i m)"
  by (simp add: MarkSticky_def Let_def shift_updates split: option.split list.split)

lemma shift_restore: "restore_rows now rows (shift c m) = shift c (restore_rows now rows m)"
  by (induction now rows m rule: restore_rows.induct) (auto simp: shift_putLocked split: option.split)

lemma shift_sessions:
  "markLoaded s now (shift c m) = shift c (markLoaded s now m)" "unmarkLoaded s (shift c m) = shift c (unmarkLoaded s m)"
  by (simp_all add: markLoaded_def unmarkLoaded_def Let_def shift_updates split: prod.split)

lemma shift_LoadSession: "LoadSession now q s (shift c m) = shift c (LoadSession now q s m)"
  by (simp add: LoadSession_def Let_def shift_sessions shift_updates shift_restore split: option.split prod.split)

lemma shift_DropPrefix: "DropPrefix p (shift c m) = (fst (DropPrefix p m), shift c (snd (DropPrefix p m)))"
  by (simp add: DropPrefix_def Let_def shift_updates split: option.split)

lemma shift_AttachDisk: "AttachDisk d (shift c m) = shift c (AttachDisk d m)"
  by (simp add: AttachDisk_def shift_updates)

end
