(* ===== verification/Store_Reserve.thy ===== *)
theory Store_Reserve
  imports Store_Shift
begin

text \<open>
  The rewind reserve's promise. Every operation of the store keeps the invariant; a payload the
  reserve has accepted stays readable until its lifetime ends, whatever else the store is asked to
  do; a refusal leaves no trace of the payload; and the probe answers what the write would do.
  The operations are also collected into runs, lists of operations with their clock readings.
\<close>

section \<open>Bare keys\<close>

text \<open>
  The code keeps rewind payloads under bare content hashes and everything else under a namespace
  that starts with \<open>cg:\<close>.
\<close>

definition bare :: "string \<Rightarrow> bool" where
  "bare k \<longleftrightarrow> \<not> has_prefix k ''cg:''"

definition stash_keys :: "Memory \<Rightarrow> string set" where
  "stash_keys m = ekey ` {e \<in> set (ll m). stash e}"

definition disciplined :: "Memory \<Rightarrow> bool" where
  "disciplined m \<longleftrightarrow> (\<forall>k \<in> stash_keys m. bare k)"

lemma hasAnyPrefix_iff: "hasAnyPrefix k ps \<longleftrightarrow> (\<exists>p \<in> set ps. has_prefix k p)"
  by (induction ps) auto

lemmas prefix_defs = FrozenPrefix_def ResultPrefix_def SweepKeepPrefix_def SweepHeldPrefix_def SweepDropPrefix_def
  SweepExpandPrefix_def LenPrefix_def XResultPrefix_def TTLPrefix_def SeenPrefix_def SumPrefix_def BilledPrefix_def
  BilledThreadPrefix_def UsagePrefix_def RestorePrefix_def ToolDeferPrefix_def ToolSearchOffPrefix_def

lemma state_prefix_not_bare: "isStateKey k \<Longrightarrow> \<not> bare k"
proof -
  assume "isStateKey k"
  then obtain p where p: "p \<in> set StatePrefixes" "has_prefix k p"
    by (auto simp: isStateKey_def hasAnyPrefix_iff)
  have "has_prefix p ''cg:''"
    using p(1) by (auto simp: StatePrefixes_def metadataPrefixes_def contentPrefixes_def prefix_defs has_prefix_def)
  with p(2) show ?thesis by (auto simp: bare_def intro: has_prefix_trans)
qed

lemma metadata_subset: "hasAnyPrefix k metadataPrefixes \<Longrightarrow> isStateKey k"
  by (auto simp: hasAnyPrefix_iff isStateKey_def StatePrefixes_def)

lemma allowed_not_bare: "allowed d k \<Longrightarrow> \<not> bare k"
  by (auto simp: allowed_def state_prefix_not_bare metadata_subset split: if_splits)

lemma no_clash_disciplined: "mem_wf m \<Longrightarrow> disciplined m \<Longrightarrow> \<not> bare k \<Longrightarrow> no_clash k v m"
  by (auto simp: no_clash_def disciplined_def stash_keys_def dest!: find_el_Some split: option.split)

lemma stash_keys_shrunk: "shrunk now m m' \<Longrightarrow> stash_keys m' \<subseteq> stash_keys m"
  by (auto simp: shrunk_def stash_keys_def)

lemma putLocked_stash_keys:
  assumes "mem_wf m" "no_clash k v m"
  shows "stash_keys (putLocked now k v m) \<subseteq> stash_keys m"
proof -
  define m1 where "m1 = repairLost k m"
  have 1: "wf_core m1" "no_clash k v m1" "ll m1 = ll m"
    using assms by (auto simp: m1_def mem_wf_def wf_core_repairLost)
  note f = put_front_facts [OF 1(1,2), of now]
  have "stash (put_entry now k v m1) \<Longrightarrow> k \<in> stash_keys m1"
    by (auto simp: put_entry_def Let_def stash_keys_def dest: find_el_Some split: option.splits)
  then have "stash_keys (put_front now k v m1) \<subseteq> stash_keys m"
    using 1(3) put_entry_simps(1) [of now k v m1] by (auto simp: stash_keys_def f(6))
  moreover have "stash_keys (evict_loop now (put_front now k v m1)) \<subseteq> stash_keys (put_front now k v m1)"
    using evict_loop_spec [OF f(1), of now] stash_keys_shrunk by blast
  ultimately show ?thesis by (auto simp: putLocked_eq m1_def [symmetric] Let_def)
qed

section \<open>PutStash\<close>

text \<open>The element a stash write leaves under its key.\<close>

definition stash_claim :: "entry \<Rightarrow> Memory \<Rightarrow> bool" where
  "stash_claim e m \<longleftrightarrow> \<not> stash e \<and> stashN m < stashCap m \<and> exemptRoom m"

definition stash_refresh :: "instant \<Rightarrow> bytes \<Rightarrow> entry \<Rightarrow> Memory \<Rightarrow> entry" where
  "stash_refresh now v e m =
     (let e1 = e\<lparr>payload := v\<rparr>; e2 = (if stash_claim e m then e1\<lparr>stash := True\<rparr> else e1) in e2\<lparr>expires := now + ttlFor m e2\<rparr>)"

lemma caps_update [simp]:
  "stashCap (m\<lparr>stashBytes := c\<rparr>) = stashCap m" "stashCap (m\<lparr>stashN := c\<rparr>) = stashCap m"
  "exemptRoom (m\<lparr>stashBytes := c\<rparr>) = exemptRoom m"
  "ttlFor (m\<lparr>stashBytes := c\<rparr>) = ttlFor m" "ttlFor (m\<lparr>stashN := c\<rparr>) = ttlFor m"
  "stashTTL (m\<lparr>stashBytes := c\<rparr>) = stashTTL m" 
  by (simp_all add: stashCap_def exemptRoom_def evictableFloor_def ttlFor_def fun_eq_iff)

lemma PutStash_refresh_eq:
  assumes "find_el k m = Some e"
  shows "PutStash now k v m = (True, m\<lparr>
     stashBytes := stashBytes m - stash_size e + stash_size (stash_refresh now v e m),
     stashN := stashN m + (if stash_claim e m then 1 else 0),
     nextExpiry := lower (expires (stash_refresh now v e m)) (nextExpiry m),
     ll := stash_refresh now v e m # remove1 e (ll m)\<rparr>)"
  using assms
  by (auto simp: PutStash_def Let_def setExpiry_eq moveToFront_def stash_refresh_def stash_claim_def stash_size_def
      algebra_simps)

lemma PutStash_refresh_wf:
  assumes "mem_wf m" "find_el k m = Some e" "PutStash now k v m = (b, m')"
  shows "mem_wf m' \<and> disk m' = disk m \<and> kept now k m m' \<and> b \<and> stash_refresh now v e m \<in> set (ll m')
     \<and> stash_keys m' \<subseteq> insert k (stash_keys m)"
proof -
  have e: "e \<in> set (ll m)" "ekey e = k" using assms(2) by (auto dest: find_el_Some)
  have w: "wf_core m" using assms(1) by (simp add: mem_wf_def)
  have b: "pinnedN m \<le> pinCap m" "stashN m \<le> stashCap m" "pinnedN m + stashN m \<le> maxN m - evictableFloor m" "marks_ok m"
    and p: "\<And>e. e \<in> set (ll m) \<Longrightarrow> pinned e \<Longrightarrow> isPinPrefix m (ekey e)"
    using w by (auto simp: wf_core_def budget_ok_def pins_ok_def)
  have eq: "b" "m' = snd (PutStash now k v m)" using assms(2,3) by (auto simp: PutStash_refresh_eq)
  have mem_wf': "wf_core m'"
    by (rule wf_core_refresh [OF w e(1), of "stash_refresh now v e m"])
      (use e b p in \<open>auto simp: eq PutStash_refresh_eq [OF assms(2)] stash_refresh_def Let_def stash_claim_def exemptRoom_def\<close>)
  have set': "ll m' = stash_refresh now v e m # remove1 e (ll m)"
    by (simp add: eq PutStash_refresh_eq [OF assms(2)])
  have cfg: "config m' = config m" "disk m' = disk m" by (simp_all add: eq PutStash_refresh_eq [OF assms(2)])
  have "int (length (ll m')) \<le> maxN m'"
    using assms(1) config_caps [OF cfg(1)] int_length_remove1 [OF e(1)] by (simp add: set' mem_wf_def)
  moreover have "kept now k m m'" using e cfg by (auto simp: kept_def set' remove1_other_key)
  moreover have "stash_keys m' \<subseteq> insert k (stash_keys m)"
    using e set_remove1_subset [of e "ll m"] by (auto simp: stash_keys_def set' stash_refresh_def Let_def)
  ultimately show ?thesis using mem_wf' cfg eq set' by (simp add: mem_wf_def)
qed

text \<open>The new-key branch: the reserve after the sweep, and the element that is pushed.\<close>

definition reserve_swept :: "instant \<Rightarrow> int \<Rightarrow> Memory \<Rightarrow> Memory" where
  "reserve_swept now sz m = (if no_stash_room m sz then snd (sweepExpired now m) else m)"

definition new_stash :: "instant \<Rightarrow> string \<Rightarrow> bytes \<Rightarrow> Memory \<Rightarrow> entry" where
  "new_stash now k v m =
     \<lparr>ekey = k, payload = v, expires = now + stashTTL m, pinned = False, estate = False, stash = True\<rparr>"

definition unreclaim :: "string \<Rightarrow> Memory \<Rightarrow> Memory" where
  "unreclaim k m =
     (if k \<in> reclaimed m
      then m\<lparr>reclaimed := reclaimed m - {k}, reclaimedOrder := remove1 k (reclaimedOrder m),
             stashRevivedN := stashRevivedN m + 1\<rparr>
      else m)"

definition stash_front :: "instant \<Rightarrow> string \<Rightarrow> bytes \<Rightarrow> Memory \<Rightarrow> Memory" where
  "stash_front now k v m =
     (let m1 = unreclaim k (m\<lparr>nextExpiry := lower (now + stashTTL m) (nextExpiry m)\<rparr>)
      in m1\<lparr>stashN := stashN m1 + 1, stashBytes := stashBytes m1 + int (length v),
            ll := new_stash now k v m # ll m1, items := insert k (items m1)\<rparr>)"

lemma PutStash_new_eq:
  assumes "find_el k m = None"
  shows "PutStash now k v m =
     (let m1 = reserve_swept now (int (length v)) m
      in if no_stash_room m1 (int (length v)) then (False, m1\<lparr>stashRefusedN := stashRefusedN m1 + 1\<rparr>)
         else (True, evict_loop now (stash_front now k v m1)))"
  using assms
  by (simp add: PutStash_def Let_def reserve_swept_def stash_front_def new_stash_def setExpiry_eq unreclaim_def
      pushFront_def ttlFor_def)

lemma unreclaim_frame [simp]:
  "config (unreclaim k m) = config m" "ll (unreclaim k m) = ll m" "items (unreclaim k m) = items m"
  "pinnedN (unreclaim k m) = pinnedN m" "stashN (unreclaim k m) = stashN m" "stashBytes (unreclaim k m) = stashBytes m"
  "nextExpiry (unreclaim k m) = nextExpiry m" "disk (unreclaim k m) = disk m"
  by (simp_all add: unreclaim_def)

lemma marks_ok_unreclaim: "marks_ok m \<Longrightarrow> marks_ok (unreclaim k m)"
  by (auto simp: unreclaim_def marks_ok_def fifo_delete)

lemma reserve_swept_shrunk: "wf_core m \<Longrightarrow> shrunk now m (reserve_swept now sz m)"
  by (simp add: reserve_swept_def shrunk_sweep shrunk_refl)

lemma reserve_swept_size:
  assumes "mem_wf m"
  shows "mem_wf (reserve_swept now sz m)"
proof -
  have "shrunk now m (reserve_swept now sz m)" using assms by (simp add: mem_wf_def reserve_swept_shrunk)
  moreover have "length (ll (reserve_swept now sz m)) \<le> length (ll m)"
    using sweepExpired_length [of now m "fst (sweepExpired now m)" "snd (sweepExpired now m)"]
    by (simp add: reserve_swept_def)
  ultimately show ?thesis using assms by (auto simp: mem_wf_def shrunk_def dest: config_caps)
qed

lemma stash_front_facts:
  assumes "wf_core m" "k \<notin> ekey ` set (ll m)" "\<not> no_stash_room m (int (length v))"
  shows "wf_core (stash_front now k v m)" "config (stash_front now k v m) = config m"
    "disk (stash_front now k v m) = disk m" "ll (stash_front now k v m) = new_stash now k v m # ll m"
proof -
  show "config (stash_front now k v m) = config m" "disk (stash_front now k v m) = disk m"
    "ll (stash_front now k v m) = new_stash now k v m # ll m"
    by (auto simp: stash_front_def Let_def)
  have b: "pinnedN m \<le> pinCap m" "marks_ok m"
    using assms(1) by (auto simp: wf_core_def budget_ok_def)
  show "wf_core (stash_front now k v m)"
    by (rule wf_core_insert [OF assms(1), of "new_stash now k v m"])
      (use assms b in \<open>auto simp: stash_front_def Let_def new_stash_def stash_size_def no_stash_room_def exemptRoom_def
         intro!: marks_ok_unreclaim\<close>)
qed

lemma PutStash_new_wf:
  assumes "mem_wf m" "find_el k m = None" "PutStash now k v m = (b, m')"
  shows "mem_wf m' \<and> disk m' = disk m \<and> kept now k m m' \<and> stash_keys m' \<subseteq> insert k (stash_keys m)
     \<and> (if b then ttl_ok m \<longrightarrow> new_stash now k v m \<in> set (ll m')
        else set (ll m') \<subseteq> set (ll m) \<and> (\<forall>e \<in> set (ll m). \<not> now > expires e \<longrightarrow> e \<in> set (ll m')))"
proof -
  define m1 where "m1 = reserve_swept now (int (length v)) m"
  have w: "wf_core m" using assms(1) by (simp add: mem_wf_def)
  have s1: "shrunk now m m1" "mem_wf m1" using reserve_swept_shrunk [OF w] reserve_swept_size [OF assms(1)] by (auto simp: m1_def)
  then have k: "k \<notin> ekey ` set (ll m1)" and w1: "wf_core m1" and c1: "config m1 = config m" "disk m1 = disk m"
    using assms(2) find_el_None [OF w] by (auto simp: shrunk_def)
  have live: "\<forall>e \<in> set (ll m). \<not> now > expires e \<longrightarrow> e \<in> set (ll m1)"
    using sweepExpired_spec [OF w, of now "fst (sweepExpired now m)" "snd (sweepExpired now m)"]
    by (auto simp: m1_def reserve_swept_def)
  show ?thesis
  proof (cases "no_stash_room m1 (int (length v))")
    case True
    then have eq: "b = False" "m' = m1\<lparr>stashRefusedN := stashRefusedN m1 + 1\<rparr>"
      using assms(2,3) by (auto simp: PutStash_new_eq m1_def Let_def)
    have "mem_wf m'"
      using s1(2) config_caps [of m' m1] by (simp add: eq wf_defs)
    with eq s1 live stash_keys_shrunk [OF s1(1)] show ?thesis by (auto simp: kept_def shrunk_def stash_keys_def)
  next
    case False
    then have eq: "b = True" "m' = evict_loop now (stash_front now k v m1)"
      using assms(2,3) by (auto simp: PutStash_new_eq m1_def Let_def)
    note f = stash_front_facts [OF w1 k False, of now]
    note ev = evict_loop_spec [OF f(1), of now]
    have ns: "new_stash now k v m1 = new_stash now k v m" using c1 by (auto simp: new_stash_def dest: config_caps)
    have "mem_wf m'" using ev eq by (auto simp: mem_wf_def shrunk_def dest: config_caps)
    moreover have "kept now k m m'" "disk m' = disk m" using ev eq f s1 c1 by (auto simp: kept_def shrunk_def)
    moreover have "ttl_ok m \<longrightarrow> new_stash now k v m \<in> set (ll m')"
      using ev eq f ns by (auto simp: shrunk_def new_stash_def ttl_ok_def)
    moreover have "stash_keys (stash_front now k v m1) \<subseteq> insert k (stash_keys m1)"
      by (auto simp: stash_keys_def f(4) new_stash_def)
    then have "stash_keys m' \<subseteq> insert k (stash_keys m)"
      using ev eq stash_keys_shrunk [OF s1(1)] stash_keys_shrunk [of now "stash_front now k v m1" m'] by blast
    ultimately show ?thesis using eq by simp
  qed
qed

section \<open>Reads\<close>

definition get_entry :: "instant \<Rightarrow> entry \<Rightarrow> Memory \<Rightarrow> entry" where
  "get_entry now e m = (if noSlide m then e else e\<lparr>expires := now + ttlFor m e\<rparr>)"

lemma lower_id: "bound_ok m \<Longrightarrow> e \<in> set (ll m) \<Longrightarrow> nextExpiry m = lower (expires e) (nextExpiry m)"
  by (auto simp: bound_ok_def lower_def min_def split: option.splits)

lemma getMem_wf:
  assumes "mem_wf m" "getMem now k m = (r, m')"
  shows "mem_wf m' \<and> disk m' = disk m \<and> kept now k m m' \<and> stash_keys m' \<subseteq> stash_keys m
     \<and> (case find_el k m of
          None \<Rightarrow> r = None \<and> m' = m
        | Some e \<Rightarrow> if now > expires e then r = None \<and> set (ll m') \<subseteq> set (ll m)
                    else r = Some (payload e) \<and> get_entry now e m \<in> set (ll m'))"
proof (cases "find_el k m")
  case None
  with assms show ?thesis by (simp add: getMem_def kept_def)
next
  case (Some e)
  then have e: "e \<in> set (ll m)" "ekey e = k" by (auto dest: find_el_Some)
  have w: "wf_core m" using assms(1) by (simp add: mem_wf_def)
  show ?thesis
  proof (cases "now > expires e")
    case True
    then have m': "r = None" "m' = remove_el e m" using assms(2) Some by (auto simp: getMem_def)
    have "mem_wf m'" using assms(1) wf_core_remove_el [OF w e(1)] int_length_remove1 [OF e(1)]
      config_caps [OF remove_el_config, of e m] by (simp add: m' mem_wf_def)
    with True m' Some e set_remove1_subset [of e "ll m"] show ?thesis
      by (auto simp: kept_def remove1_other_key stash_keys_def)
  next
    case False
    have b: "pinnedN m \<le> pinCap m" "stashN m \<le> stashCap m" "pinnedN m + stashN m \<le> maxN m - evictableFloor m"
      "marks_ok m" "bound_ok m"
      and p: "\<And>e. e \<in> set (ll m) \<Longrightarrow> pinned e \<Longrightarrow> isPinPrefix m (ekey e)"
      using w by (auto simp: wf_core_def budget_ok_def pins_ok_def)
    have eq: "r = Some (payload e)"
      "m' = m\<lparr>nextExpiry := lower (expires (get_entry now e m)) (nextExpiry m), ll := get_entry now e m # remove1 e (ll m)\<rparr>"
      using assms(2) Some False lower_id [OF b(5) e(1)]
      by (auto simp: getMem_def setExpiry_eq moveToFront_def get_entry_def Let_def split: if_splits)
    have mem_wf': "wf_core m'"
      by (rule wf_core_refresh [OF w e(1), of "get_entry now e m"])
        (use e b p in \<open>auto simp: eq get_entry_def stash_size_def\<close>)
    have "mem_wf m'" using mem_wf' assms(1) int_length_remove1 [OF e(1)] by (simp add: mem_wf_def eq)
    moreover have "stash_keys m' \<subseteq> stash_keys m"
      using e set_remove1_subset [of e "ll m"] by (auto simp: stash_keys_def eq get_entry_def)
    ultimately show ?thesis using False Some e eq by (auto simp: kept_def remove1_other_key)
  qed
qed

lemma wf_disk [simp]: "mem_wf (m\<lparr>disk := d\<rparr>) = mem_wf m"
  by (simp add: wf_defs pinCap_def stashCap_def evictableFloor_def)

lemma find_el_disk [simp]: "find_el k (m\<lparr>disk := d\<rparr>) = find_el k m"
  by (simp add: find_el_def)

lemma stash_keys_disk [simp]: "stash_keys (m\<lparr>disk := d\<rparr>) = stash_keys m"
  by (simp add: stash_keys_def)

lemma kept_disk [simp]:
  "kept now k (m\<lparr>disk := d\<rparr>) m' = kept now k m m'" "kept now k m (m'\<lparr>disk := d\<rparr>) = kept now k m m'"
  by (simp_all add: kept_def)

lemma kept_refl [simp]: "kept now k m m"
  by (simp add: kept_def)

lemma no_clash_disk [simp]: "no_clash k v (m\<lparr>disk := d\<rparr>) = no_clash k v m"
  by (simp add: no_clash_def)

lemma getGlobal_wf:
  assumes "mem_wf m" "disciplined m" "getGlobal now k m = (r, m')"
  shows "mem_wf m' \<and> kept now k m m' \<and> stash_keys m' \<subseteq> stash_keys m"
proof (cases "disk m")
  case None
  with assms show ?thesis by (simp add: getGlobal_def)
next
  case (Some d)
  obtain v d' where g: "disk_get k d = (v, d')" by fastforce
  define m1 where "m1 = m\<lparr>disk := Some d'\<rparr>"
  have nc: "no_clash k u m" if "isGlobal d k" for u
    using assms that by (intro no_clash_disciplined) (auto simp: isGlobal_def allowed_not_bare)
  have put: "mem_wf (putLocked now k u m1) \<and> kept now k m (putLocked now k u m1) \<and> stash_keys (putLocked now k u m1) \<subseteq> stash_keys m"
    if "isGlobal d k" for u
    using putLocked_wf [of m1 k u now] putLocked_stash_keys [of m1 k u now] assms(1) nc [OF that, of u]
    by (simp add: m1_def)
  have "m' = m \<or> m' = m1 \<or> (isGlobal d k \<and> (\<exists>u. m' = putLocked now k u m1))"
    using assms(3) Some g by (auto simp: getGlobal_def m1_def Let_def split: if_splits option.splits)
  with put assms(1) show ?thesis by (auto simp: m1_def)
qed

lemma kept_trans: "kept now k m m1 \<Longrightarrow> kept now k m1 m2 \<Longrightarrow> kept now k m m2"
  by (simp add: kept_def)

lemma disciplined_mono: "disciplined m \<Longrightarrow> stash_keys m' \<subseteq> stash_keys m \<Longrightarrow> disciplined m'"
  by (auto simp: disciplined_def)

lemma Get_wf:
  assumes "mem_wf m" "disciplined m" "Get now k m = (r, m')"
  shows "mem_wf m' \<and> kept now k m m' \<and> stash_keys m' \<subseteq> stash_keys m"
proof -
  obtain r1 m1 where g: "getMem now k m = (r1, m1)" by fastforce
  note w = getMem_wf [OF assms(1) g]
  show ?thesis
  proof (cases r1)
    case None
    then have "getGlobal now k m1 = (r, m')" using assms(3) g by (simp add: Get_def)
    with getGlobal_wf [of m1 now k r m'] w assms(2) show ?thesis
      by (metis disciplined_mono kept_trans subset_trans)
  next
    case (Some v)
    then have "m' = m1" using assms(3) g by (simp add: Get_def)
    with w show ?thesis by blast
  qed
qed

section \<open>The other operations\<close>

lemma StashRoom_wf:
  assumes "mem_wf m" "StashRoom now sz m = (b, m')"
  shows "mem_wf m' \<and> shrunk now m m' \<and> stash_keys m' \<subseteq> stash_keys m"
proof -
  have "m' = reserve_swept now sz m" using assms(2) by (simp add: StashRoom_def Let_def reserve_swept_def)
  moreover have "shrunk now m (reserve_swept now sz m)" using assms(1) by (simp add: reserve_swept_shrunk mem_wf_def)
  ultimately show ?thesis using reserve_swept_size [OF assms(1)] stash_keys_shrunk by blast
qed

lemma wf_bookkeeping:
  assumes "mem_wf m" "config m' = config m" "ll m' = ll m" "items m' = items m" "pinnedN m' = pinnedN m" "stashN m' = stashN m"
    "stashBytes m' = stashBytes m" "nextExpiry m' = nextExpiry m" "marks_ok m'"
  shows "mem_wf m'"
  using assms config_caps [OF assms(2)] by (auto simp: mem_wf_def wf_core_def keys_ok_def counters_ok_def budget_ok_def bound_ok_def pins_ok_def)

lemma marks_ok_sessions [simp]:
  "marks_ok (m\<lparr>sticky := a\<rparr>) = marks_ok m" "marks_ok (m\<lparr>loadedAt := b\<rparr>) = marks_ok m"
  "marks_ok (m\<lparr>loadedOrder := c\<rparr>) = marks_ok m" "marks_ok (m\<lparr>loadFailedAt := b\<rparr>) = marks_ok m"
  by (simp_all add: marks_ok_def)

lemma wf_sessions [simp]:
  "mem_wf (m\<lparr>sticky := a\<rparr>) = mem_wf m" "mem_wf (m\<lparr>loadedAt := b\<rparr>) = mem_wf m" "mem_wf (m\<lparr>loadedOrder := c\<rparr>) = mem_wf m"
  "mem_wf (m\<lparr>loadFailedAt := b\<rparr>) = mem_wf m"
  by (simp_all add: wf_defs pinCap_def stashCap_def evictableFloor_def isPinPrefix_def)

lemma sessions_frame [simp]:
  "config (markLoaded s now m) = config m" "ll (markLoaded s now m) = ll m" "mem_wf (markLoaded s now m) = mem_wf m"
  "config (unmarkLoaded s m) = config m" "ll (unmarkLoaded s m) = ll m" "mem_wf (unmarkLoaded s m) = mem_wf m"
  by (auto simp: markLoaded_def unmarkLoaded_def Let_def split: prod.split)

lemma MarkSticky_frame:
  "config (MarkSticky ord s i m) = config m \<and> ll (MarkSticky ord s i m) = ll m \<and> mem_wf (MarkSticky ord s i m) = mem_wf m"
  by (simp add: MarkSticky_def Let_def split: option.split)

text \<open>Restoring rows never touches a live element, so every one of them survives if it is exempt.\<close>

definition kept_all :: "instant \<Rightarrow> Memory \<Rightarrow> Memory \<Rightarrow> bool" where
  "kept_all now m m' \<longleftrightarrow> config m' = config m
     \<and> (\<forall>e \<in> set (ll m). pinned e \<or> stash e \<longrightarrow> \<not> now > expires e \<longrightarrow> e \<in> set (ll m'))"

lemma kept_all_trans: "kept_all now m m1 \<Longrightarrow> kept_all now m1 m2 \<Longrightarrow> kept_all now m m2"
  by (simp add: kept_all_def)

lemma restore_one:
  assumes "mem_wf m" "disciplined m" "\<not> bare k"
    and m': "m' = (case find_el k m of Some e \<Rightarrow> if \<not> now > expires e then m else putLocked now k v m
                   | None \<Rightarrow> putLocked now k v m)"
  shows "mem_wf m' \<and> disciplined m' \<and> kept_all now m m'"
proof -
  have nc: "no_clash k v m" using assms by (intro no_clash_disciplined)
  note p = putLocked_wf [OF assms(1) nc, of now] putLocked_stash_keys [OF assms(1) nc, of now]
  have w: "wf_core m" using assms(1) by (simp add: mem_wf_def)
  have "m' = m \<or> (m' = putLocked now k v m \<and> (\<forall>e \<in> set (ll m). ekey e = k \<longrightarrow> now > expires e))"
    using m' find_el_in [OF w] find_el_None [OF w, of k] by (force split: option.splits if_splits)
  then show ?thesis
    using p assms by (auto simp: kept_all_def kept_def intro: disciplined_mono)
qed

lemma restore_rows_wf:
  assumes "mem_wf m" "disciplined m" "\<forall>r \<in> set rows. \<not> bare (fst r)"
  shows "mem_wf (restore_rows now rows m) \<and> disciplined (restore_rows now rows m) \<and> kept_all now m (restore_rows now rows m)"
  using assms
proof (induction now rows m rule: restore_rows.induct)
  case (1 now m)
  then show ?case by (simp add: kept_all_def)
next
  case (2 now k v rows m)
  from "2.prems" have one: "mem_wf m1 \<and> disciplined m1 \<and> kept_all now m m1"
    if "m1 = (case find_el k m of Some e \<Rightarrow> if \<not> now > expires e then m else putLocked now k v m
              | None \<Rightarrow> putLocked now k v m)" for m1
    using restore_one [OF _ _ _ that] by simp
  with "2.IH" "2.prems"(3) show ?case by (auto intro: kept_all_trans)
qed

lemma boundaryOK_prefix: "boundaryOK k s ps \<Longrightarrow> \<exists>p \<in> set ps. has_prefix k p"
proof (induction ps)
  case (Cons p ps)
  then show ?case
    by (cases "has_prefix k (p @ s)") (auto simp: has_prefix_iff)
qed simp

lemma scan_rows_keys:
  assumes "scan_rows s rows d = (out, d')"
  shows "\<forall>r \<in> set out. \<exists>p \<in> set StatePrefixes. has_prefix (fst r) p"
  using assms
proof (induction s rows d arbitrary: out d' rule: scan_rows.induct)
  case (3 s k v rows d)
  have sub: "set (prefixes d) \<subseteq> set StatePrefixes" by (auto simp: prefixes_def StatePrefixes_def)
  obtain out1 d1 where r: "scan_rows s rows d = (out1, d1)" by fastforce
  with "3.prems" have "out = out1 \<or> (out = (k, v) # out1 \<and> boundaryOK k s (prefixes d))"
    by (auto split: if_splits)
  moreover have "\<exists>p \<in> set StatePrefixes. has_prefix k p" if "boundaryOK k s (prefixes d)"
    using boundaryOK_prefix [OF that] sub by blast
  ultimately show ?case using "3.IH" [OF r] by auto
qed auto

lemma loadSession_keys:
  assumes "loadSession query s d = (rows, ok, d')"
  shows "\<forall>r \<in> set rows. \<not> bare (fst r)"
proof -
  have "\<forall>r \<in> set rows. \<exists>p \<in> set StatePrefixes. has_prefix (fst r) p"
    using assms scan_rows_keys by (fastforce simp: loadSession_def split: if_splits option.splits prod.splits)
  then show ?thesis
    by (intro ballI state_prefix_not_bare) (auto simp: isStateKey_def hasAnyPrefix_iff)
qed

lemma disciplined_ll: "ll m' = ll m \<Longrightarrow> disciplined m' = disciplined m"
  by (simp add: disciplined_def stash_keys_def)

lemma LoadSession_cases:
  "LoadSession now query s m = m \<or> (\<exists>a. LoadSession now query s m = m\<lparr>loadedAt := a\<rparr>)
   \<or> (\<exists>d rows ok d' m1. loadSession query s d = (rows, ok, d') \<and> config m1 = config m \<and> ll m1 = ll m
        \<and> mem_wf m1 = mem_wf m \<and> LoadSession now query s m = restore_rows now rows m1)"
proof (cases "s = [] \<or> disk m = None")
  case True
  then show ?thesis by (auto simp: LoadSession_def)
next
  case False
  then obtain d where s: "s \<noteq> []" and d: "disk m = Some d" by auto
  obtain rows ok d' where l: "loadSession query s d = (rows, ok, d')" by (metis prod_cases3)
  define m1 where "m1 = (let m1 = markLoaded s now m\<lparr>disk := Some d'\<rparr> in
     if ok then m1 else let m2 = unmarkLoaded s m1; failed = (if int (length (loadFailedAt m2)) \<ge> maxLoaded then [] else loadFailedAt m2)
       in m2\<lparr>loadFailedAt := AList.update s now failed\<rparr>)"
  have "config m1 = config m" "ll m1 = ll m" "mem_wf m1 = mem_wf m" by (simp_all add: m1_def Let_def)
  moreover have "LoadSession now query s m \<in> {m, m\<lparr>loadedAt := AList.update s now (loadedAt m)\<rparr>, restore_rows now rows m1}"
    using s by (simp add: LoadSession_def d l m1_def Let_def)
  ultimately show ?thesis using l by blast
qed

lemma LoadSession_wf:
  assumes "mem_wf m" "disciplined m"
  shows "mem_wf (LoadSession now query s m) \<and> disciplined (LoadSession now query s m)
     \<and> kept_all now m (LoadSession now query s m)"
proof -
  have id: "kept_all now m (m\<lparr>loadedAt := a\<rparr>)" "kept_all now m m" "disciplined (m\<lparr>loadedAt := a\<rparr>)" for a
    using assms by (auto simp: kept_all_def disciplined_ll [of "m\<lparr>loadedAt := a\<rparr>" m])
  have rest: "mem_wf (restore_rows now rows m1) \<and> disciplined (restore_rows now rows m1) \<and> kept_all now m (restore_rows now rows m1)"
    if "loadSession query s d = (rows, ok, d')" "mem_wf m1" "ll m1 = ll m" "config m1 = config m" for rows m1 d ok d'
    using restore_rows_wf [of m1 rows now] that loadSession_keys [OF that(1)] assms disciplined_ll [of m1 m]
    by (auto simp: kept_all_def)
  from LoadSession_cases [of now query s m] show ?thesis
    by (elim disjE exE conjE) (use assms id rest in auto)
qed

text \<open>A purge keeps the invariant when its prefix is in the namespaces, so that it takes no payload.\<close>

lemma countp_filter: "countp P (filter Q xs) = countp P xs - countp P (filter (\<lambda>x. \<not> Q x) xs)"
  by (induction xs) auto

lemma DropPrefix_wf:
  assumes "mem_wf m" "disciplined m" "has_prefix p ''cg:''" "DropPrefix p m = (n, m')"
  shows "mem_wf m' \<and> config m' = config m \<and> set (ll m') = {e \<in> set (ll m). \<not> has_prefix (ekey e) p}
     \<and> (\<forall>e \<in> set (ll m). stash e \<longrightarrow> e \<in> set (ll m'))"
proof -
  define m1 where "m1 = m\<lparr>pinnedN := pinnedN m - countp pinned (filter (\<lambda>e. has_prefix (ekey e) p) (ll m)),
     ll := filter (\<lambda>e. \<not> has_prefix (ekey e) p) (ll m), items := {k \<in> items m. \<not> has_prefix k p}\<rparr>"
  have p: "p \<noteq> []" using assms(3) by (auto simp: has_prefix_def)
  have "m' = m1 \<or> (\<exists>d. m' = m1\<lparr>disk := d\<rparr>)"
    using assms(4) p by (auto simp: DropPrefix_def Let_def m1_def split: option.splits)
  then have m': "mem_wf m' = mem_wf m1" "config m' = config m1" "ll m' = ll m1" by auto
  have w: "wf_core m" using assms(1) by (simp add: mem_wf_def)
  have st: "\<not> has_prefix (ekey e) p" if "e \<in> set (ll m)" "stash e" for e
    using that assms(2,3) by (auto simp: disciplined_def stash_keys_def bare_def dest: has_prefix_trans)
  have none: "filter (\<lambda>e. \<not> \<not> has_prefix (ekey e) p \<and> stash e) (ll m) = []"
    using st by (auto simp: filter_empty_conv)
  have cfg: "config m1 = config m" by (simp add: m1_def)
  note c = config_caps [OF cfg]
  have "keys_ok m1" using w by (auto simp: m1_def wf_core_def keys_ok_def distinct_map_filter)
  moreover have "counters_ok m1"
  proof -
    have "countp stash (filter (\<lambda>e. has_prefix (ekey e) p) (ll m)) = 0"
      using st by (auto simp: countp_def filter_empty_conv)
    moreover have "sum_list (map stash_size (filter (\<lambda>e. \<not> has_prefix (ekey e) p) (ll m))) = sum_list (map stash_size (ll m))"
      using st by (intro sum_list_map_filter) (auto simp: stash_size_def)
    ultimately show ?thesis using w
      by (simp add: m1_def wf_core_def counters_ok_def countp_filter [of _ "\<lambda>e. \<not> has_prefix (ekey e) p"])
  qed
  moreover have "budget_ok m1" using w c by (auto simp: m1_def wf_core_def budget_ok_def)
      (smt (verit) countp_nonneg)+
  moreover have "bound_ok m1" "pins_ok m1" "marks_ok m1"
    using w c by (auto simp: m1_def wf_core_def bound_ok_def pins_ok_def)
  moreover have "int (length (ll m1)) \<le> maxN m1"
    using assms(1) by (auto simp: m1_def mem_wf_def intro: order_trans [OF of_nat_mono [OF length_filter_le]])
  ultimately have "mem_wf m1" by (simp add: mem_wf_def wf_core_def)
  with m' cfg st show ?thesis by (auto simp: m1_def)
qed

section \<open>Runs\<close>

text \<open>
  \<open>getGlobal\<close> and \<open>LoadSession\<close> read the disk with the store's lock released. Besides the whole
  operations, a run can therefore hold their halves, with anything in between: \<open>OpGetMem\<close> is the lookup
  in memory, \<open>OpRestore\<close> what either does with the rows it has read (any rows, read at any time).
\<close>

datatype store_op =
    OpPut string bytes
  | OpPutStash string bytes
  | OpGet string
  | OpStashRoom int
  | OpMarkSticky "string list \<Rightarrow> string list" string string
  | OpLoadSession db_query string
  | OpDropPrefix string
  | OpAttachDisk Disk
  | OpGetMem string
  | OpRestore "(string \<times> bytes) list"

fun apply_op :: "instant \<Rightarrow> store_op \<Rightarrow> Memory \<Rightarrow> Memory" where
  "apply_op now (OpPut k v) m = Put now k v m"
| "apply_op now (OpPutStash k v) m = snd (PutStash now k v m)"
| "apply_op now (OpGet k) m = snd (Get now k m)"
| "apply_op now (OpStashRoom sz) m = snd (StashRoom now sz m)"
| "apply_op now (OpMarkSticky ord s i) m = MarkSticky ord s i m"
| "apply_op now (OpLoadSession q s) m = LoadSession now q s m"
| "apply_op now (OpDropPrefix p) m = snd (DropPrefix p m)"
| "apply_op now (OpAttachDisk d) m = AttachDisk d m"
| "apply_op now (OpGetMem k) m = snd (getMem now k m)"
| "apply_op now (OpRestore rows) m = restore_rows now rows m"

fun run_ops :: "(instant \<times> store_op) list \<Rightarrow> Memory \<Rightarrow> Memory" where
  "run_ops [] m = m"
| "run_ops ((now, op) # ops) m = run_ops ops (apply_op now op m)"

text \<open>
  How the callers use the store: payloads go under bare hashes, purges and the rows of the disk are in
  the namespaces. A plain write may go under any key, a payload's included.
\<close>

fun op_ok :: "store_op \<Rightarrow> bool" where
  "op_ok (OpPutStash k v) = bare k"
| "op_ok (OpDropPrefix p) = (\<not> bare p)"
| "op_ok (OpRestore rows) = list_all (\<lambda>r. \<not> bare (fst r)) rows"
| "op_ok _ = True"

definition ops_ok :: "(instant \<times> store_op) list \<Rightarrow> bool" where
  "ops_ok ops = list_all (\<lambda>x. op_ok (snd x)) ops"

text \<open>
  The plain writes that keep the byte counter exact: those that do not change the length of a payload
  the reserve holds. That depends on the state the write finds, and \<open>putLocked\<close> does not check it.
\<close>

fun op_fits :: "store_op \<Rightarrow> Memory \<Rightarrow> bool" where
  "op_fits (OpPut k v) m = no_clash k v m"
| "op_fits _ m = True"

fun ops_fit :: "(instant \<times> store_op) list \<Rightarrow> Memory \<Rightarrow> bool" where
  "ops_fit [] m = True"
| "ops_fit ((now, op) # ops) m = (op_fits op m \<and> ops_fit ops (apply_op now op m))"

definition promise :: "string \<Rightarrow> bytes \<Rightarrow> instant \<Rightarrow> Memory \<Rightarrow> bool" where
  "promise k v D m \<longleftrightarrow> (\<exists>e \<in> set (ll m). ekey e = k \<and> stash e \<and> payload e = v \<and> D \<le> expires e)"

text \<open>The operation writes no other payload under the key.\<close>

fun same_payload :: "string \<Rightarrow> bytes \<Rightarrow> store_op \<Rightarrow> bool" where
  "same_payload k v (OpPutStash k' v') = (k' = k \<longrightarrow> v' = v)"
| "same_payload k v (OpPut k' v') = (k' = k \<longrightarrow> v' = v)"
| "same_payload k v _ = True"

definition good :: "Memory \<Rightarrow> bool" where
  "good m \<longleftrightarrow> mem_wf m \<and> disciplined m"

lemma promise_kept: "kept now j m m' \<Longrightarrow> j \<noteq> k \<Longrightarrow> now \<le> D \<Longrightarrow> promise k v D m \<Longrightarrow> promise k v D m'"
  by (force simp: kept_def promise_def)

lemma Put_keeps:
  assumes "good m" "no_clash k v m"
  shows "good (Put now k v m) \<and> kept now k m (Put now k v m)"
proof -
  have "Put now k v m = putLocked now k v m \<or> (\<exists>d. Put now k v m = putLocked now k v m\<lparr>disk := d\<rparr>)"
    by (auto simp: Put_def Let_def split: option.split)
  moreover have "good (m1\<lparr>disk := d\<rparr>) = good m1" for m1 d by (simp add: good_def disciplined_def)
  moreover have "good (putLocked now k v m) \<and> kept now k m (putLocked now k v m)"
    using assms putLocked_wf [OF _ assms(2), of now] putLocked_stash_keys [OF _ assms(2), of now]
    by (auto simp: good_def intro: disciplined_mono)
  ultimately show ?thesis by auto
qed

lemma Put_good: "good m \<Longrightarrow> \<not> bare k \<Longrightarrow> good (Put now k v m) \<and> kept now k m (Put now k v m)"
  using Put_keeps no_clash_disciplined by (simp add: good_def)

lemma PutStash_good:
  assumes "good m" "bare k" "PutStash now k v m = (b, m')"
  shows "good m' \<and> kept now k m m'"
proof -
  have "mem_wf m' \<and> kept now k m m' \<and> stash_keys m' \<subseteq> insert k (stash_keys m)"
    using assms PutStash_new_wf [of m k now v b m'] PutStash_refresh_wf [of m k _ now v b m']
    by (cases "find_el k m") (auto simp: good_def)
  with assms(1,2) show ?thesis by (auto simp: good_def disciplined_def)
qed

lemma apply_op_good:
  assumes "good m" "op_ok op" "op_fits op m"
  shows "good (apply_op now op m) \<and> config (apply_op now op m) = config m"
proof (cases op)
  case (OpPut k v)
  with assms Put_keeps show ?thesis by (auto simp: kept_def)
next
  case (OpPutStash k v)
  with assms PutStash_good [of m k now v "fst (PutStash now k v m)"] show ?thesis by (auto simp: kept_def)
next
  case (OpGet k)
  have "Get now k m = (fst (Get now k m), snd (Get now k m))" by simp
  with OpGet assms Get_wf [OF _ _ this] show ?thesis
    by (auto simp: good_def kept_def intro: disciplined_mono)
next
  case (OpStashRoom sz)
  have "StashRoom now sz m = (fst (StashRoom now sz m), snd (StashRoom now sz m))" by simp
  with OpStashRoom assms StashRoom_wf [OF _ this] show ?thesis
    by (auto simp: good_def shrunk_def intro: disciplined_mono)
next
  case (OpMarkSticky ord s i)
  with assms MarkSticky_frame [of ord s i m] disciplined_ll [of "MarkSticky ord s i m" m] show ?thesis
    by (auto simp: good_def)
next
  case (OpLoadSession q s)
  with assms LoadSession_wf [of m now q s] show ?thesis by (auto simp: good_def kept_all_def)
next
  case (OpDropPrefix p)
  with assms have "mem_wf m" "disciplined m" "has_prefix p ''cg:''" by (auto simp: good_def bare_def)
  note d = DropPrefix_wf [OF this, of "fst (DropPrefix p m)" "snd (DropPrefix p m)"]
  with OpDropPrefix assms show ?thesis by (auto simp: good_def disciplined_def stash_keys_def)
next
  case (OpAttachDisk d)
  with assms show ?thesis by (simp add: AttachDisk_def good_def disciplined_def)
next
  case (OpGetMem k)
  with assms getMem_wf [of m now k "fst (getMem now k m)" "snd (getMem now k m)"] show ?thesis
    by (auto simp: good_def kept_def intro: disciplined_mono)
next
  case (OpRestore rows)
  with assms restore_rows_wf [of m rows now] show ?thesis by (auto simp: good_def kept_all_def list_all_iff)
qed

lemma stash_refresh_promise:
  "stash e \<or> stash_claim e m \<Longrightarrow> ekey e = k \<Longrightarrow> stash_refresh now v e m = e' \<Longrightarrow>
   ekey e' = k \<and> stash e' \<and> payload e' = v \<and> expires e' = now + stashTTL m"
  by (auto simp: stash_refresh_def Let_def ttlFor_def stash_claim_def)

text \<open>A plain write of the same payload leaves the element stashed, and refreshes it.\<close>

lemma put_entry_stash:
  "find_el k m = Some e \<Longrightarrow> stash e \<Longrightarrow>
   ekey (put_entry now k v m) = k \<and> stash (put_entry now k v m) \<and> payload (put_entry now k v m) = v
   \<and> expires (put_entry now k v m) = now + stashTTL m"
  by (auto simp: put_entry_def Let_def ttlFor_def dest: find_el_Some)

lemma Put_promise:
  assumes "good m" "no_clash k v m" "find_el k m = Some e" "stash e" "now \<le> D" "D \<le> now + stashTTL m"
  shows "promise k v D (Put now k v m)"
proof -
  define m1 where "m1 = repairLost k m"
  have 1: "wf_core m1" "no_clash k v m1" "find_el k m1 = Some e" "stashTTL m1 = stashTTL m"
    using assms config_caps [of m1 m] by (auto simp: m1_def good_def mem_wf_def wf_core_repairLost find_el_def split: if_splits)
  note f = put_front_facts [OF 1(1,2), of now]
  note ev = evict_loop_spec [OF f(1), of now]
  note pe = put_entry_stash [OF 1(3) assms(4), of now v]
  have "put_entry now k v m1 \<in> set (ll (put_front now k v m1))" by (simp add: f(6))
  moreover have "\<not> now > expires (put_entry now k v m1)" using pe 1(4) assms(5,6) by simp
  ultimately have "put_entry now k v m1 \<in> set (ll (putLocked now k v m))"
    using ev pe by (auto simp: putLocked_eq m1_def [symmetric] Let_def shrunk_def)
  moreover have "ll (Put now k v m) = ll (putLocked now k v m)" by (simp add: Put_def Let_def split: option.split)
  ultimately show ?thesis using pe 1(4) assms(6) by (auto simp: promise_def)
qed

lemma apply_op_promise:
  assumes "good m" "op_ok op" "op_fits op m" "same_payload k v op" "promise k v D m" "bare k" "now \<le> D" "D \<le> now + stashTTL m"
  shows "promise k v D (apply_op now op m)"
proof -
  have w: "wf_core m" and w': "mem_wf m" "disciplined m" using assms(1) by (auto simp: good_def mem_wf_def)
  obtain e where e: "e \<in> set (ll m)" "ekey e = k" "stash e" "payload e = v" "D \<le> expires e"
    using assms(5) by (auto simp: promise_def)
  have f: "find_el k m = Some e" using find_el_in [OF w e(1)] e(2) by simp
  have read: "fst (getMem now k m) = Some v \<and> promise k v D (snd (getMem now k m))"
  proof -
    have "\<not> now > expires e" using assms(7) e(5) by simp
    then have "fst (getMem now k m) = Some v" "get_entry now e m \<in> set (ll (snd (getMem now k m)))"
      using getMem_wf [OF w'(1), of now k "fst (getMem now k m)" "snd (getMem now k m)"] f e by auto
    moreover have "ekey (get_entry now e m) = k \<and> stash (get_entry now e m) \<and> payload (get_entry now e m) = v
        \<and> D \<le> expires (get_entry now e m)"
      using e assms(8) by (simp add: get_entry_def ttlFor_def)
    ultimately show ?thesis by (auto simp: promise_def)
  qed
  show ?thesis
  proof (cases op)
    case (OpPut j u)
    show ?thesis
    proof (cases "j = k")
      case True
      with OpPut assms(4) Put_promise [OF assms(1) _ f e(3) assms(7,8)] assms(3) show ?thesis by simp
    next
      case False
      have "kept now j m (Put now j u m)" using assms(1,3) OpPut Put_keeps by simp
      from promise_kept [OF this False assms(7,5)] OpPut show ?thesis by simp
    qed
  next
    case (OpPutStash j u)
    obtain b m' where p: "PutStash now j u m = (b, m')" by fastforce
    show ?thesis
    proof (cases "j = k")
      case True
      with OpPutStash assms(4) have "u = v" by simp
      then have "stash_refresh now v e m \<in> set (ll m')"
        using PutStash_refresh_wf [OF w'(1) f, of now v b m'] p True by simp
      with stash_refresh_promise [OF disjI1 [OF e(3)] e(2) refl] assms(8) p OpPutStash show ?thesis by (force simp: promise_def)
    next
      case False
      with OpPutStash assms p PutStash_good [OF assms(1) _ p] show ?thesis by (auto intro: promise_kept)
    qed
  next
    case (OpGet j)
    obtain r m' where g: "Get now j m = (r, m')" by fastforce
    show ?thesis
    proof (cases "j = k")
      case True
      then have "snd (Get now j m) = snd (getMem now k m)" using read by (auto simp: Get_def split: prod.splits)
      with OpGet read show ?thesis by simp
    next
      case False
      with OpGet g Get_wf [OF w' g] assms show ?thesis by (auto intro: promise_kept)
    qed
  next
    case (OpStashRoom sz)
    with StashRoom_wf [OF w'(1), of now sz "fst (StashRoom now sz m)"] e assms(7) show ?thesis
      by (force simp: shrunk_def promise_def)
  next
    case (OpMarkSticky ord s i)
    with MarkSticky_frame [of ord s i m] assms(5) show ?thesis by (simp add: promise_def)
  next
    case (OpLoadSession q s)
    with LoadSession_wf [OF w', of now q s] e assms(7) show ?thesis by (force simp: kept_all_def promise_def)
  next
    case (OpDropPrefix p)
    with assms(2) have "has_prefix p ''cg:''" by (auto simp: bare_def)
    from DropPrefix_wf [OF w' this, of "fst (DropPrefix p m)" "snd (DropPrefix p m)"] OpDropPrefix e show ?thesis
      by (force simp: promise_def)
  next
    case (OpAttachDisk d)
    with assms(5) show ?thesis by (simp add: AttachDisk_def promise_def)
  next
    case (OpGetMem j)
    show ?thesis
    proof (cases "j = k")
      case False
      with OpGetMem getMem_wf [OF w'(1), of now j "fst (getMem now j m)" "snd (getMem now j m)"] assms show ?thesis
        by (auto intro: promise_kept)
    qed (use read OpGetMem in simp)
  next
    case (OpRestore rows)
    with assms(2) restore_rows_wf [OF w', of rows now] e assms(7) show ?thesis
      by (force simp: kept_all_def promise_def list_all_iff)
  qed
qed

lemma run_ops_good: "good m \<Longrightarrow> ops_ok ops \<Longrightarrow> ops_fit ops m \<Longrightarrow> good (run_ops ops m)"
proof (induction ops m rule: run_ops.induct)
  case (2 now op ops m)
  then have "good (apply_op now op m)" using apply_op_good by (auto simp: ops_ok_def)
  with 2 show ?case by (simp add: ops_ok_def)
qed simp

section \<open>A drifted byte counter\<close>

text \<open>
  A store whose invariant holds but for the byte counter. A shift makes the counter exact again, so
  what holds of the exact store carries over.
\<close>

definition exact_bytes :: "Memory \<Rightarrow> Memory" where
  "exact_bytes m = m\<lparr>stashBytes := sum_list (map stash_size (ll m))\<rparr>"

definition sound :: "Memory \<Rightarrow> bool" where
  "sound m \<longleftrightarrow> good (exact_bytes m)"

lemma good_limit: "good (m\<lparr>stashMaxBytes := x\<rparr>) = good m"
  by (simp add: good_def disciplined_def stash_keys_def wf_defs pinCap_def stashCap_def evictableFloor_def isPinPrefix_def)

lemma shift_exact: "good (shift c m) \<longleftrightarrow> sound m \<and> stashBytes m + c = sum_list (map stash_size (ll m))"
proof -
  have eq: "good (shift c m) = good (m\<lparr>stashBytes := stashBytes m + c\<rparr>)"
    using good_limit [where m = "m\<lparr>stashBytes := stashBytes m + c\<rparr>" and x = "stashMaxBytes m + c"] by (simp add: shift_def)
  show ?thesis
  proof
    assume g: "good (shift c m)"
    then have "stashBytes m + c = sum_list (map stash_size (ll m))" by (simp add: good_def mem_wf_def wf_core_def counters_ok_def)
    with g show "sound m \<and> stashBytes m + c = sum_list (map stash_size (ll m))" by (simp add: eq sound_def exact_bytes_def)
  qed (simp add: eq sound_def exact_bytes_def)
qed

lemma sound_shift [simp]: "sound (shift c m) = sound m"
proof -
  have "exact_bytes (shift c m) = (exact_bytes m)\<lparr>stashMaxBytes := stashMaxBytes m + c\<rparr>"
    by (simp add: exact_bytes_def shift_def)
  then show ?thesis by (simp only: sound_def good_limit)
qed

lemma sound_bytes [simp]: "sound (m\<lparr>stashBytes := b\<rparr>) = sound m" "sound (m\<lparr>stashBytes := b, disk := d\<rparr>) = sound (m\<lparr>disk := d\<rparr>)"
  by (simp_all add: sound_def exact_bytes_def)

lemma good_sound: "good m \<Longrightarrow> sound m"
  using shift_exact [of 0 m] by simp

lemma sound_obtain: "sound m \<Longrightarrow> \<exists>c. good (shift c m)"
  by (rule exI [of _ "sum_list (map stash_size (ll m)) - stashBytes m"]) (simp add: shift_exact)

lemma config_shift [simp]: "config (shift c m) = config (shift c m') \<longleftrightarrow> config m = config m'"
  by (simp add: config_def)

lemma promise_shift [simp]: "promise k v D (shift c m) = promise k v D m"
  by (simp add: promise_def)

lemma kept_shift [simp]: "kept now k (shift c m) (shift c m') = kept now k m m'"
  by (simp add: kept_def)

lemma shift_op: "apply_op now op (shift c m) = shift c (apply_op now op m)"
  by (cases op) (simp_all add: shift_Put shift_PutStash shift_Get shift_StashRoom shift_MarkSticky shift_LoadSession
      shift_DropPrefix shift_AttachDisk shift_getMem shift_restore)

text \<open>
  A plain write over a payload of another length is the rewrite \<open>PutStash\<close> does, which charges the
  difference, followed by a plain write that fits, but for the counter.
\<close>

lemma PutStash_find:
  assumes "find_el k m = Some e"
  shows "find_el k (snd (PutStash now k v m)) = Some (stash_refresh now v e m)"
proof -
  have "ekey (stash_refresh now v e m) = k" using find_el_Some [OF assms] by (simp add: stash_refresh_def Let_def)
  moreover have "k \<in> items m" using assms by (auto simp: find_el_def split: if_splits)
  ultimately show ?thesis by (simp add: PutStash_refresh_eq [OF assms] find_el_def)
qed

lemma lower_lower [simp]: "lower t (lower t n) = lower t n"
  by (simp add: lower_def split: option.split)

lemma pin_claim_repair [simp]: "pin_claim k e (repairLost k m) = pin_claim k e m"
  by (simp add: pin_claim_def isPinPrefix_def repairLost_def pinCap_def exemptRoom_def evictableFloor_def)

lemma putLocked_rewritten:
  assumes "find_el k m = Some e"
  shows "putLocked now k v m = (repairLost k m)\<lparr>
     pinnedN := pinnedN m + (if pin_claim k e m then 1 else 0),
     nextExpiry := lower (now + ttlFor m e) (nextExpiry m),
     ll := e\<lparr>payload := v, expires := now + ttlFor m e, pinned := pinned e \<or> pin_claim k e m\<rparr> # remove1 e (ll m)\<rparr>"
  using assms by (simp add: putLocked_eq put_front_def put_entry_def Let_def)

lemma repairLost_update:
  "repairLost k (m\<lparr>stashBytes := b, nextExpiry := n, ll := l\<rparr>) = (repairLost k m)\<lparr>stashBytes := b, nextExpiry := n, ll := l\<rparr>"
  by (simp add: repairLost_def)

lemma clash_as_rewrite:
  assumes "find_el k m = Some e" "stash e"
  shows "putLocked now k v m = putLocked now k v (snd (PutStash now k v m))\<lparr>stashBytes := stashBytes m\<rparr>"
proof -
  define p where "p = snd (PutStash now k v m)"
  define e' where "e' = e\<lparr>payload := v, expires := now + stashTTL m\<rparr>"
  have e1: "stash_refresh now v e m = e'" using assms(2) by (simp add: stash_refresh_def stash_claim_def e'_def ttlFor_def)
  have f: "find_el k p = Some e'" using PutStash_find [OF assms(1), of now v] by (simp add: p_def e1)
  have p: "p = m\<lparr>stashBytes := stashBytes m - stash_size e + stash_size e', nextExpiry := lower (now + stashTTL m) (nextExpiry m), ll := e' # remove1 e (ll m)\<rparr>"
    using assms(2) by (simp add: p_def PutStash_refresh_eq [OF assms(1)] e1 stash_claim_def) (simp add: e'_def)
  have s: "ttlFor m e = stashTTL m" "ttlFor p e' = stashTTL m" using assms(2) by (simp_all add: ttlFor_def e'_def p)
  have c: "pin_claim k e' p = pin_claim k e m" by (simp add: pin_claim_def p e'_def isPinPrefix_def pinCap_def exemptRoom_def evictableFloor_def)
  have u: "repairLost k p = (repairLost k m)\<lparr>stashBytes := stashBytes p, nextExpiry := nextExpiry p, ll := ll p\<rparr>"
    by (simp add: p repairLost_update)
  have v: "pinnedN p = pinnedN m" "ll p = e' # remove1 e (ll m)" "nextExpiry p = lower (now + stashTTL m) (nextExpiry m)" "pinned e' = pinned e"
    by (simp_all add: p e'_def)
  have x: "e'\<lparr>payload := v, expires := now + stashTTL m, pinned := q\<rparr> = e\<lparr>payload := v, expires := now + stashTTL m, pinned := q\<rparr>" for q
    by (simp add: e'_def)
  have "(putLocked now k v p)\<lparr>stashBytes := stashBytes m\<rparr> = putLocked now k v m"
    unfolding putLocked_rewritten [OF f] putLocked_rewritten [OF assms(1)] s c u v x
    by (rule Memory.equality) simp_all
  then show ?thesis by (simp add: p_def)
qed

lemma clash_sound:
  assumes "good m" "\<not> no_clash k v m"
  shows "sound (Put now k v m) \<and> kept now k m (Put now k v m)"
proof -
  obtain e where e: "find_el k m = Some e" "stash e" using assms(2) by (auto simp: no_clash_def split: option.splits)
  then have "bare k" using assms(1) by (force simp: good_def disciplined_def stash_keys_def dest: find_el_Some)
  define p where "p = snd (PutStash now k v m)"
  have p: "good p" "kept now k m p"
    using PutStash_good [OF assms(1) \<open>bare k\<close>, of now v "fst (PutStash now k v m)" p] by (auto simp: p_def)
  have "find_el k p = Some (stash_refresh now v e m)" unfolding p_def by (rule PutStash_find [OF e(1)])
  then have nc: "no_clash k v p" by (simp add: no_clash_def stash_refresh_def Let_def)
  have q: "good (putLocked now k v p)" "kept now k p (putLocked now k v p)"
    using p(1) putLocked_wf [OF _ nc, of now] putLocked_stash_keys [OF _ nc, of now] by (auto simp: good_def intro: disciplined_mono)
  have r: "putLocked now k v m = putLocked now k v p\<lparr>stashBytes := stashBytes m\<rparr>"
    unfolding p_def by (rule clash_as_rewrite [OF e])
  have "Put now k v m = putLocked now k v m \<or> (\<exists>d. Put now k v m = putLocked now k v m\<lparr>disk := d\<rparr>)"
    by (auto simp: Put_def Let_def split: option.split)
  moreover have "sound (putLocked now k v p\<lparr>disk := d\<rparr>)" for d
    using q(1) by (intro good_sound) (simp add: good_def disciplined_def)
  ultimately show ?thesis using good_sound [OF q(1)] kept_trans [OF p(2) q(2)] by (auto simp: r kept_def)
qed

lemma apply_op_sound:
  assumes "sound m" "op_ok op"
  shows "sound (apply_op now op m) \<and> config (apply_op now op m) = config m"
proof -
  obtain c where g: "good (shift c m)" using sound_obtain [OF assms(1)] by blast
  have "sound (apply_op now op (shift c m)) \<and> config (apply_op now op (shift c m)) = config (shift c m)"
  proof (cases "op_fits op (shift c m)")
    case True
    with apply_op_good [OF g assms(2)] good_sound show ?thesis by blast
  next
    case False
    then show ?thesis using clash_sound [OF g] by (cases op) (auto simp: kept_def)
  qed
  then show ?thesis by (simp add: shift_op)
qed

lemma sound_op_promise:
  assumes "sound m" "op_ok op" "same_payload k v op" "promise k v D m" "bare k" "now \<le> D" "D \<le> now + stashTTL m"
  shows "promise k v D (apply_op now op m)"
proof -
  obtain c where g: "good (shift c m)" using sound_obtain [OF assms(1)] by blast
  have "promise k v D (apply_op now op (shift c m))"
  proof (cases "op_fits op (shift c m)")
    case True
    with apply_op_promise [OF g assms(2) _ assms(3) _ assms(5,6)] assms(4,7) show ?thesis by simp
  next
    case False
    then obtain j u where op: "op = OpPut j u" "\<not> no_clash j u (shift c m)" by (cases op) auto
    obtain e where e: "e \<in> set (ll m)" "ekey e = k" "payload e = v" using assms(4) by (auto simp: promise_def)
    then have "find_el k (shift c m) = Some e"
      using find_el_in [of "shift c m" e] g by (simp add: good_def mem_wf_def)
    then have "j \<noteq> k" using op assms(3) e(3) by (auto simp: no_clash_def)
    with promise_kept [of now j "shift c m" _ k D v] clash_sound [OF g op(2), of now] assms(4,6) op(1) show ?thesis by simp
  qed
  then show ?thesis by (simp add: shift_op)
qed

lemma run_ops_sound: "sound m \<Longrightarrow> ops_ok ops \<Longrightarrow> sound (run_ops ops m) \<and> config (run_ops ops m) = config m"
proof (induction ops m rule: run_ops.induct)
  case (2 now op ops m)
  then have "sound (apply_op now op m)" "config (apply_op now op m) = config m" "ops_ok ops"
    using apply_op_sound by (auto simp: ops_ok_def)
  with "2.IH" show ?case by simp
qed simp

lemma run_ops_promise:
  assumes "sound m" "ops_ok ops" "promise k v D m" "bare k"
    and "list_all (\<lambda>(t, op). D - stashTTL m \<le> t \<and> t \<le> D \<and> same_payload k v op) ops"
  shows "promise k v D (run_ops ops m)"
  using assms
proof (induction ops m rule: run_ops.induct)
  case (2 now op ops m)
  then have ok: "op_ok op" "ops_ok ops" by (auto simp: ops_ok_def)
  note g = apply_op_sound [OF "2.prems"(1) ok(1), of now]
  have "promise k v D (apply_op now op m)"
    using "2.prems" ok(1) by (intro sound_op_promise) auto
  moreover have "stashTTL (apply_op now op m) = stashTTL m" using g config_caps by blast
  ultimately show ?case using "2.IH" "2.prems" g ok(2) by auto
qed simp

lemma NewMemory_good: "good (NewMemory opt)"
  by (auto simp: good_def wf_defs disciplined_def stash_keys_def NewMemory_def Let_def fifo_ok_def pinCap_def stashCap_def
      evictableFloor_def DefaultMaxEntries_def go_div_nonneg)

section \<open>What the store guarantees\<close>

lemma live_Get:
  assumes "mem_wf m" "e \<in> set (ll m)" "ekey e = k" "t \<le> expires e"
  shows "fst (Get t k m) = Some (payload e)"
proof -
  obtain r m' where g: "getMem t k m = (r, m')" by fastforce
  have "find_el k m = Some e" using find_el_in [of m e] assms by (simp add: mem_wf_def)
  with getMem_wf [OF assms(1) g] assms(4) have "r = Some (payload e)" by simp
  with g show ?thesis by (simp add: Get_def)
qed

lemma good_Put_then_Get:
  assumes "good m" "\<not> bare k" "ttl_ok m"
  shows "fst (Get now k (Put now k v m)) = Some v"
proof -
  have nc: "no_clash k v m" using assms(1,2) by (auto simp: good_def intro: no_clash_disciplined)
  obtain e where e: "e \<in> set (ll (putLocked now k v m))" "ekey e = k" "payload e = v" "now \<le> expires e"
    using putLocked_present [OF _ nc assms(3)] assms(1) by (auto simp: good_def)
  have "ll (Put now k v m) = ll (putLocked now k v m)" by (simp add: Put_def Let_def split: option.split)
  with e Put_good [OF assms(1,2)] live_Get show ?thesis by (auto simp: good_def)
qed

lemma promise_Get: "good m \<Longrightarrow> promise k v D m \<Longrightarrow> t \<le> D \<Longrightarrow> fst (Get t k m) = Some v"
  by (auto simp: promise_def good_def intro!: live_Get)

lemma PutStash_promise:
  assumes "good m" "ttl_ok m" "PutStash now k v m = (True, m')"
    and "case find_el k m of Some e \<Rightarrow> stash e \<or> stash_claim e m | None \<Rightarrow> True"
  shows "promise k v (now + stashTTL m) m'"
proof (cases "find_el k m")
  case None
  then have "new_stash now k v m \<in> set (ll m')"
    using PutStash_new_wf [OF _ None assms(3)] assms(1,2) by (simp add: good_def)
  then show ?thesis by (force simp: promise_def new_stash_def)
next
  case (Some e)
  then have e: "stash e \<or> stash_claim e m" "ekey e = k" using assms(4) by (auto dest: find_el_Some)
  have "stash_refresh now v e m \<in> set (ll m')"
    using PutStash_refresh_wf [OF _ Some assms(3)] assms(1) by (simp add: good_def)
  with stash_refresh_promise [OF e refl] show ?thesis by (force simp: promise_def)
qed

text \<open>
  C9: the invariant over runs. Take a store built by \<open>NewMemory\<close> and any sequence of its operations
  (with a disk attached at any point, and the halves of the reads that release the lock as steps of
  their own), in which payloads are stashed under bare hashes and purges and restored rows stay in the
  namespaces; plain writes may go under any key. Then, setting the byte counter to what is held, its
  map and LRU list agree, at most \<open>max\<close> entries are held, the pin and stash counters count exactly the live
  entries, each exemption is within its cap and together they leave the evictable floor, the expiry
  bound is a lower bound of every deadline, and the loss marks balance. The byte counter itself is
  exact as well if no plain write changed the length of a payload the reserve held.
\<close>

theorem store_run_invariant:
  assumes "ops_ok ops"
  shows "mem_wf (exact_bytes (run_ops ops (NewMemory opt)))
     \<and> (ops_fit ops (NewMemory opt) \<longrightarrow> mem_wf (run_ops ops (NewMemory opt)))"
  using run_ops_sound [OF good_sound [OF NewMemory_good] assms, of opt] run_ops_good [OF NewMemory_good assms, of opt]
  by (simp add: sound_def good_def)

definition opts0 :: Options where
  "opts0 = \<lparr>Enabled = None, TTLSeconds = 0, PinPrefixes = None, MaxEntries = 4, StashMaxBytes = 0,
            StashTTLSeconds = 0, MaxSessions = 0, StateTTLSeconds = 0\<rparr>"

text \<open>The evaluation of a small run, for the witnesses.\<close>

lemmas store_eval = NewMemory_def opts0_def EffectiveTTL_def DefaultTTL_def DefaultStashTTL_def second_def
  DefaultMaxEntries_def DefaultStashMaxBytes_def Let_def find_el_def no_stash_room_def stashCap_def pinCap_def
  exemptRoom_def evictableFloor_def byteRoom_def go_div_def setExpiry_def noteExpiry_def ttlFor_def pushFront_def
  moveToFront_def evict_loop.simps ttl_ok_def bare_def has_prefix_def

definition disk0 :: Disk where
  "disk0 = \<lparr>metaOnly = False, pending = [], errN = 0, dsel = (\<lambda>k. Some (if k = ''cg:frz:s'' then Some ''old'' else None))\<rparr>"

theorem store_run_invariant_witness:
  "mem_wf (exact_bytes (run_ops [(0, OpAttachDisk disk0), (0, OpPutStash ''abc'' ''payload''), (1, OpPut ''cg:frz:s'' ''x''), (1, OpPut ''abc'' ''short''),
     (2, OpGet ''abc''), (3, OpLoadSession (\<lambda>_. Some ([Some (''cg:frz:s'', ''old'')], True)) ''s''), (4, OpRestore [(''cg:frz:s'', ''old'')]),
     (5, OpDropPrefix ''cg:td:t:'')] (NewMemory opts0)))
   \<and> mem_wf (run_ops [(0, OpPutStash ''abc'' ''payload''), (1, OpPut ''abc'' ''Payload'')] (NewMemory opts0))"
proof
  show "mem_wf (run_ops [(0, OpPutStash ''abc'' ''payload''), (1, OpPut ''abc'' ''Payload'')] (NewMemory opts0))"
    by (rule store_run_invariant [THEN conjunct2, THEN mp])
      (simp_all add: ops_ok_def PutStash_def store_eval no_clash_def)
qed (rule store_run_invariant [THEN conjunct1], simp add: ops_ok_def bare_def has_prefix_def)

text \<open>
  The drift is real: a plain write of five bytes over a payload of
  seven leaves the counter at seven.
\<close>

lemma byte_counter_drifts:
  "stashBytes (run_ops [(0, OpPutStash ''abc'' ''payload''), (1, OpPut ''abc'' ''short'')] (NewMemory opts0)) = 7
   \<and> stashBytes (exact_bytes (run_ops [(0, OpPutStash ''abc'' ''payload''), (1, OpPut ''abc'' ''short'')] (NewMemory opts0))) = 5
   \<and> ops_fit [(0, OpPutStash ''abc'' ''payload''), (1, OpPut ''abc'' ''payload'')] (NewMemory opts0)"
  by (simp add: PutStash_def Put_def putLocked_def repairLost_def claimPin_def isPinPrefix_def store_eval DefaultPinPrefixes_def prefix_defs
      exact_bytes_def stash_size_def no_clash_def)

text \<open>
  C5: once \<open>PutStash\<close> has reported a payload retained, \<open>Get\<close> returns exactly that payload at every
  instant up to the payload horizon: a live stash is never evicted to make room, however much is
  written, read, purged or restored from the disk in between. The conditions: the run before and
  after is as for C9 (payloads under bare hashes, purges and restored rows in the namespaces), what is
  written under the same key, by \<open>PutStash\<close> or by a plain \<open>Put\<close>, is the same bytes, the configured
  lifetimes do not overflow, and the key was new, already a payload, or an ordinary entry the reserve has
  room to promote (\<open>PutStash\<close> also answers yes for an ordinary entry it has no room to promote, and that
  one stays evictable).
\<close>

theorem rewind_promise_kept:
  assumes "ops_ok pre" "ops_ok ops" "bare k" "ttl_ok (NewMemory opt)"
    and m: "m = run_ops pre (NewMemory opt)" "PutStash now k v m = (True, m')"
    and fresh: "case find_el k m of Some e \<Rightarrow> stash e \<or> stash_claim e m | None \<Rightarrow> True"
    and times: "list_all (\<lambda>(t, op). now \<le> t \<and> t \<le> now + stashTTL m \<and> same_payload k v op) ops"
    and "t \<le> now + stashTTL m"
  shows "fst (Get t k (run_ops ops m')) = Some v"
proof -
  have s: "sound m" "config m = config (NewMemory opt)"
    using run_ops_sound [OF good_sound [OF NewMemory_good] assms(1)] m(1) by auto
  then have ok: "ttl_ok m" using assms(4) ttl_ok_config by blast
  obtain c where g: "good (shift c m)" using sound_obtain [OF s(1)] by blast
  have put: "PutStash now k v (shift c m) = (True, shift c m')" by (simp add: shift_PutStash m(2))
  have g': "good (shift c m')" "config m' = config m"
    using PutStash_good [OF g assms(3) put] by (auto simp: kept_def)
  have "stashTTL m' = stashTTL m" using g'(2) config_caps by blast
  moreover have "promise k v (now + stashTTL m) m'"
  proof -
    have "case find_el k (shift c m) of Some e \<Rightarrow> stash e \<or> stash_claim e (shift c m) | None \<Rightarrow> True"
      using fresh by (cases "find_el k m") (simp_all add: stash_claim_def)
    with PutStash_promise [OF g _ put] ok show ?thesis by (simp add: ttl_ok_def)
  qed
  moreover have "sound m'" using good_sound [OF g'(1)] by simp
  ultimately have p: "promise k v (now + stashTTL m) (run_ops ops m')" "sound (run_ops ops m')"
    using run_ops_promise [OF _ assms(2) _ assms(3)] run_ops_sound [OF _ assms(2)] times by auto
  obtain d where "good (shift d (run_ops ops m'))" using sound_obtain [OF p(2)] by blast
  from promise_Get [OF this, of k v _ t] p(1) assms(9) show ?thesis by (simp add: shift_Get)
qed

lemma PutStash_example:
  "PutStash 0 ''abc'' ''payload'' (NewMemory opts0) = (True, snd (PutStash 0 ''abc'' ''payload'' (NewMemory opts0)))"
  by (simp add: PutStash_def store_eval)

theorem rewind_promise_kept_witness:
  "fst (Get (1800 * second) ''abc''
     (run_ops [(1, OpPut ''abc'' ''payload''), (1, OpPut ''cg:keep:a'' ''1''), (2, OpPut ''cg:keep:b'' ''2''), (3, OpPut ''cg:keep:c'' ''3''),
               (4, OpPut ''cg:keep:d'' ''4''), (5, OpPutStash ''def'' ''other''), (6, OpPut ''def'' ''longer than it was'')]
        (snd (PutStash 0 ''abc'' ''payload'' (NewMemory opts0))))) = Some ''payload''"
  by (rule rewind_promise_kept [where pre = "[]" and opt = opts0, OF _ _ _ _ _ PutStash_example])
    (simp_all add: store_eval ops_ok_def)

text \<open>
  A refusal is clean. When \<open>PutStash\<close> reports a payload not retained, its key is absent before
  and after, no live entry has been dropped, nothing has been added, the refusal counter moved by
  one, and the reserve really was full: no entry slot, no exempt room or no byte room is left even
  after the expired payloads have been collected.
\<close>

theorem stash_refusal_clean:
  assumes "mem_wf m" "PutStash now k v m = (False, m')"
  shows "find_el k m = None \<and> find_el k m' = None \<and> set (ll m') \<subseteq> set (ll m)
     \<and> (\<forall>e \<in> set (ll m). now \<le> expires e \<longrightarrow> e \<in> set (ll m'))
     \<and> no_stash_room m' (int (length v)) \<and> Refused (StashStats m') = Refused (StashStats m) + 1"
proof -
  have n: "find_el k m = None"
  proof (cases "find_el k m")
    case (Some e)
    with assms(2) show ?thesis by (simp add: PutStash_refresh_eq [OF Some])
  qed
  note w = PutStash_new_wf [OF assms(1) n assms(2)]
  have wc: "wf_core m" "wf_core m'" using w assms(1) by (auto simp: mem_wf_def)
  have "find_el k m' = None"
    using n w find_el_None [OF wc(1), of k] find_el_None [OF wc(2), of k] by auto
  moreover define m1 where "m1 = reserve_swept now (int (length v)) m"
  have "m' = m1\<lparr>stashRefusedN := stashRefusedN m1 + 1\<rparr>" "no_stash_room m1 (int (length v))"
    using assms(2) n by (auto simp: PutStash_new_eq m1_def Let_def split: if_splits)
  moreover have "stashRefusedN m1 = stashRefusedN m"
    by (simp add: m1_def reserve_swept_def sweepExpired_refused)
  ultimately show ?thesis
    using n w by (auto simp: StashStats_def no_stash_room_def stashCap_def exemptRoom_def evictableFloor_def byteRoom_def)
qed

lemma len_payload: "int (length ''payload'') = 7"
  by simp

definition opts1 :: Options where "opts1 = opts0\<lparr>StashMaxBytes := 3\<rparr>"

theorem stash_refusal_clean_witness:
  "mem_wf (NewMemory opts1) \<and> \<not> fst (PutStash 0 ''abc'' ''payload'' (NewMemory opts1))
   \<and> no_stash_room (snd (PutStash 0 ''abc'' ''payload'' (NewMemory opts1))) 7"
proof -
  have p: "PutStash 0 ''abc'' ''payload'' (NewMemory opts1) = (False, snd (PutStash 0 ''abc'' ''payload'' (NewMemory opts1)))"
    by (simp add: PutStash_def store_eval opts1_def sweepExpired_def)
  have w: "mem_wf (NewMemory opts1)" using NewMemory_good by (simp add: good_def)
  have "no_stash_room (snd (PutStash 0 ''abc'' ''payload'' (NewMemory opts1))) (int (length ''payload''))"
    using stash_refusal_clean [OF w p] by blast
  with p w show ?thesis by (metis (no_types, lifting) fst_conv len_payload)
qed

text \<open>
  The probe answers what the write would do: \<open>StashRoom\<close> for the length of a payload gives the
  same answer as \<open>PutStash\<close> of that payload under a key the store does not hold.
\<close>

theorem StashRoom_predicts_PutStash:
  assumes "find_el k m = None"
  shows "fst (StashRoom now (int (length v)) m) = fst (PutStash now k v m)"
  using assms by (auto simp: PutStash_new_eq StashRoom_def reserve_swept_def no_stash_room_def Let_def)

theorem StashRoom_predicts_PutStash_witness:
  "fst (StashRoom 0 7 (NewMemory opts0)) = fst (PutStash 0 ''abc'' ''payload'' (NewMemory opts0))"
  using StashRoom_predicts_PutStash [of "''abc''" "NewMemory opts0" 0 "''payload''"] by (simp add: store_eval)

text \<open>
  A plain write is never a silent no-op. However full of pinned and stashed entries the store
  is, the value \<open>Put\<close> has just written is readable, because the evictable floor keeps the eviction
  that follows the write from taking the new entry itself.
\<close>

theorem Put_then_Get:
  assumes "ops_ok ops" "\<not> bare k" "ttl_ok (NewMemory opt)" "m = run_ops ops (NewMemory opt)"
  shows "fst (Get now k (Put now k v m)) = Some v"
proof -
  have s: "sound m" "config m = config (NewMemory opt)"
    using run_ops_sound [OF good_sound [OF NewMemory_good] assms(1)] assms(4) by auto
  obtain c where g: "good (shift c m)" using sound_obtain [OF s(1)] by blast
  have "ttl_ok m" using ttl_ok_config [OF s(2)] assms(3) by simp
  then have "ttl_ok (shift c m)" by (simp add: ttl_ok_def)
  from good_Put_then_Get [OF g assms(2) this, of now v] show ?thesis by (simp add: shift_Put shift_Get)
qed

theorem Put_then_Get_witness:
  "fst (Get 3 ''cg:keep:a'' (Put 3 ''cg:keep:a'' ''1'' (run_ops [(0, OpPutStash ''abc'' ''p''), (1, OpPut ''cg:frz:s'' ''x'')] (NewMemory opts0))))
   = Some ''1''"
  by (rule Put_then_Get [OF _ _ _ refl]) (simp_all add: store_eval ops_ok_def)

text \<open>
  The loss signal. Reading a frozen decision past its deadline misses and flags the key as
  lost; writing the key again clears the flag and makes the decision readable; and over any run the
  repairs never exceed the drops.
\<close>

lemma good_frozen_loss:
  assumes g: "good m" and "ttl_ok m"
    and "find_el k m = Some e" "isPinPrefix m k" "\<not> bare k" "\<not> noSlide m" "expires e < now"
  shows "fst (getMem now k m) = None \<and> FrozenLost k (snd (getMem now k m))
     \<and> \<not> FrozenLost k (Put now k v (snd (getMem now k m)))
     \<and> fst (Get now k (Put now k v (snd (getMem now k m)))) = Some v
     \<and> repairedN m \<le> lostN m"
proof -
  obtain r m1 where get: "getMem now k m = (r, m1)" by fastforce
  have r: "r = None" "m1 = remove_el e m" using get assms(3,7) by (auto simp: getMem_def)
  have lost: "FrozenLost k m1" using remove_el_marks_loss [of m e] assms(3,4,6) r by (auto dest: find_el_Some)
  have g1: "good m1" "config m1 = config m"
    using getMem_wf [OF _ get] g by (auto simp: good_def kept_def intro: disciplined_mono)
  have ok: "ttl_ok m1" using ttl_ok_config [OF g1(2)] assms(2) by simp
  have nc: "no_clash k v m1" using g1 assms(5) by (auto simp: good_def intro: no_clash_disciplined)
  note w1 = g1(1) [unfolded good_def, THEN conjunct1]
  have put: "FrozenLost k (Put now k v m1) = FrozenLost k (putLocked now k v m1)"
    by (simp add: Put_def Let_def FrozenLost_def split: option.split)
  have "repairedN m \<le> lostN m" using g by (auto simp: good_def mem_wf_def wf_core_def marks_ok_def)
  with good_Put_then_Get [OF g1(1) assms(5) ok] putLocked_repairs [OF w1 nc ok, of now] put lost get r(1) show ?thesis by simp
qed

theorem frozen_loss_cycle:
  assumes "ops_ok ops" "ttl_ok (NewMemory opt)" "m = run_ops ops (NewMemory opt)"
    and "find_el k m = Some e" "isPinPrefix m k" "\<not> bare k" "\<not> noSlide m" "expires e < now"
  shows "fst (getMem now k m) = None \<and> FrozenLost k (snd (getMem now k m))
     \<and> \<not> FrozenLost k (Put now k v (snd (getMem now k m)))
     \<and> fst (Get now k (Put now k v (snd (getMem now k m)))) = Some v
     \<and> (case FrozenLossStats m of (dropped, repaired) \<Rightarrow> repaired \<le> dropped)"
proof -
  have s: "sound m" "config m = config (NewMemory opt)"
    using run_ops_sound [OF good_sound [OF NewMemory_good] assms(1)] assms(3) by auto
  obtain c where g: "good (shift c m)" using sound_obtain [OF s(1)] by blast
  have "ttl_ok m" using ttl_ok_config [OF s(2)] assms(2) by simp
  then have "ttl_ok (shift c m)" by (simp add: ttl_ok_def)
  from good_frozen_loss [OF g this, of k e now v] assms(4-8) show ?thesis
    by (simp add: shift_getMem shift_Put shift_Get FrozenLost_def FrozenLossStats_def)
qed

definition store_frz :: Memory where
  "store_frz = run_ops [(0, OpPut ''cg:frz:s'' ''x'')] (NewMemory opts0)"

lemma store_frz_entry:
  "find_el ''cg:frz:s'' store_frz = Some \<lparr>ekey = ''cg:frz:s'', payload = ''x'', expires = 10000 * second,
     pinned = True, estate = True, stash = False\<rparr>"
  "isPinPrefix store_frz ''cg:frz:s''" "\<not> noSlide store_frz"
  by (simp_all add: store_frz_def Put_def putLocked_def repairLost_def claimPin_def store_eval isPinPrefix_def
      DefaultPinPrefixes_def prefix_defs isStateKey_def StatePrefixes_def metadataPrefixes_def contentPrefixes_def)

theorem frozen_loss_cycle_witness:
  "FrozenLost ''cg:frz:s'' (snd (getMem (10001 * second) ''cg:frz:s'' store_frz))
   \<and> \<not> FrozenLost ''cg:frz:s'' (Put (10001 * second) ''cg:frz:s'' ''y'' (snd (getMem (10001 * second) ''cg:frz:s'' store_frz)))"
proof -
  have "ops_ok [(0, OpPut ''cg:frz:s'' ''x'')]" "ttl_ok (NewMemory opts0)" "\<not> bare ''cg:frz:s''"
    by (simp_all add: store_eval ops_ok_def)
  from frozen_loss_cycle [OF this(1,2) store_frz_def store_frz_entry(1,2) this(3) store_frz_entry(3), of "10001 * second"]
  show ?thesis by (simp add: second_def)
qed

text \<open>
  The idle-exit timeout cannot undercut the store. A timeout that \<open>ValidateIdleExit\<close> accepts
  is either off or at least two store lifetimes and at least an hour, as long as the configured
  lifetime does not overflow a 64-bit duration.
\<close>

theorem ValidateIdleExit_sound:
  assumes "TTLSeconds opt \<le> 4611686018" "ValidateIdleExit d opt = None"
  shows "d \<le> 0 \<or> (2 * EffectiveTTL opt \<le> d \<and> hour \<le> d \<and> 0 < EffectiveTTL opt)"
proof -
  have "wrap64 (2 * EffectiveTTL opt) = 2 * EffectiveTTL opt \<and> 0 < EffectiveTTL opt"
  proof (cases "TTLSeconds opt \<le> 0")
    case False
    with assms(1) have "wrap64 (TTLSeconds opt * second) = TTLSeconds opt * second"
      by (intro wrap64_small) (auto simp: second_def)
    moreover have "wrap64 (2 * (TTLSeconds opt * second)) = 2 * (TTLSeconds opt * second)"
      using assms(1) False by (intro wrap64_small) (auto simp: second_def)
    ultimately show ?thesis using False by (simp add: EffectiveTTL_def second_def)
  qed (simp add: EffectiveTTL_def DefaultTTL_def second_def wrap64_small)
  with assms(2) show ?thesis
    by (auto simp: ValidateIdleExit_def IdleExitFloor_def Let_def split: if_splits)
qed

theorem ValidateIdleExit_sound_witness:
  "2 * EffectiveTTL opts0 \<le> 20000 * second \<and> hour \<le> 20000 * second"
  using ValidateIdleExit_sound [of opts0 "20000 * second"]
  by (simp add: opts0_def ValidateIdleExit_def IdleExitFloor_def EffectiveTTL_def DefaultTTL_def second_def hour_def
      wrap64_small)

end
