(* ===== verification/Turn_Tracker.thy ===== *)
theory Turn_Tracker
  imports Go_Prelude "HOL-Library.Word"
begin

unbundle bit_operations_syntax

text \<open>
  The cached-prefix boundary of \<open>src/modes/tracker.go\<close>: how many messages of a request the provider
  already holds. The Go map of records is an association list and the set of dropped hashes a list
  without repetitions. Where the code deletes the first element a map iteration yields, the
  iteration order is the argument \<open>order\<close>. A host lookup that panics answers \<open>None\<close>. The
  process-wide counter of compaction resets is passed through explicitly.
\<close>

section \<open>State\<close>

record turn =
  turn_n :: int
  turn_at :: int
  used :: nat

type_synonym last_seen = "string \<Rightarrow> (int \<times> bool \<times> bool) option"

record Tracker =
  tm :: "(string \<times> turn) list"
  tmax :: int
  seq :: nat
  startedAtMs :: int
  lastSeen :: "last_seen option"
  graceOn :: bool
  dropped :: "64 word list"

definition DefaultMaxKeys :: int where "DefaultMaxKeys = 4096"

definition StaleAfter :: duration where "StaleAfter = 6 * 3600 * second"

definition Milliseconds :: "duration \<Rightarrow> int" where "Milliseconds d = go_div d millisecond"

definition Boundary :: "int \<Rightarrow> int \<Rightarrow> int \<Rightarrow> int \<times> int" where
  "Boundary prev n resets = (if n < prev then (0, resets + 1) else (prev, resets))"

text \<open>FNV-1a over the bytes of the key.\<close>

definition keyHash :: "string \<Rightarrow> 64 word" where
  "keyHash key = fold (\<lambda>c h. (h XOR of_nat (of_char c)) * 1099511628211) key 14695981039346656037"

definition NewTracker :: "int \<Rightarrow> int \<Rightarrow> Tracker" where
  "NewTracker maxKeys nowMs =
     \<lparr>tm = [], tmax = (if maxKeys \<le> 0 then DefaultMaxKeys else maxKeys), seq = 0, startedAtMs = nowMs,
      lastSeen = None, graceOn = True, dropped = []\<rparr>"

definition SetStartedAt :: "int \<Rightarrow> Tracker \<Rightarrow> Tracker" where
  "SetStartedAt ms t = t\<lparr>startedAtMs := ms\<rparr>"

definition SetRestartGrace :: "bool \<Rightarrow> Tracker \<Rightarrow> Tracker" where
  "SetRestartGrace on t = t\<lparr>graceOn := on\<rparr>"

definition SetLastSeen :: "last_seen option \<Rightarrow> Tracker \<Rightarrow> Tracker" where
  "SetLastSeen f t = t\<lparr>lastSeen := f\<rparr>"

section \<open>Dropped keys\<close>

definition dropLocked :: "(64 word list \<Rightarrow> 64 word list) \<Rightarrow> string \<Rightarrow> Tracker \<Rightarrow> Tracker" where
  "dropLocked order key t =
     (let t = t\<lparr>tm := AList.delete key (tm t)\<rparr>;
          d = (if int (length (dropped t)) \<ge> 4 * tmax t
               then (case order (dropped t) of [] \<Rightarrow> dropped t | h # _ \<Rightarrow> removeAll h (dropped t))
               else dropped t)
      in t\<lparr>dropped := List.insert (keyHash key) d\<rparr>)"

definition wasDropped :: "string \<Rightarrow> Tracker \<Rightarrow> bool \<times> Tracker" where
  "wasDropped key t =
     (let h = keyHash key
      in if h \<in> set (dropped t) then (True, t\<lparr>dropped := removeAll h (dropped t)\<rparr>) else (False, t))"

definition droppedLocked :: "string \<Rightarrow> Tracker \<Rightarrow> bool" where
  "droppedLocked key t \<longleftrightarrow> keyHash key \<in> set (dropped t)"

section \<open>Pruning\<close>

definition stale :: "int \<Rightarrow> turn \<Rightarrow> bool" where
  "stale nowMs v \<longleftrightarrow> turn_at v > 0 \<and> nowMs - turn_at v > Milliseconds StaleAfter"

fun expire_stale :: "(64 word list \<Rightarrow> 64 word list) \<Rightarrow> int \<Rightarrow> (string \<times> turn) list \<Rightarrow> Tracker \<Rightarrow> Tracker" where
  "expire_stale order nowMs [] t = t"
| "expire_stale order nowMs ((k, v) # rest) t =
     expire_stale order nowMs rest (if stale nowMs v then dropLocked order k t else t)"

fun oldest_key :: "(string \<times> turn) list \<Rightarrow> (string \<times> nat) option \<Rightarrow> (string \<times> nat) option" where
  "oldest_key [] best = best"
| "oldest_key ((k, v) # rest) best =
     oldest_key rest
       (case best of
          None \<Rightarrow> Some (k, used v)
        | Some (o', least) \<Rightarrow> if used v < least then Some (k, used v) else best)"

definition pruneLocked :: "(64 word list \<Rightarrow> 64 word list) \<Rightarrow> int \<Rightarrow> Tracker \<Rightarrow> Tracker" where
  "pruneLocked order nowMs t =
     (let t = (if nowMs > 0 then expire_stale order nowMs (tm t) t else t)
      in if nowMs > 0 \<and> int (length (tm t)) < tmax t then t
         else case oldest_key (tm t) None of
                None \<Rightarrow> t
              | Some (k, _) \<Rightarrow> dropLocked order k t)"

section \<open>The restart grace\<close>

definition lastSeenLocked :: "string \<Rightarrow> Tracker \<Rightarrow> int \<times> bool \<times> bool" where
  "lastSeenLocked key t =
     (case lastSeen t of
        None \<Rightarrow> (0, False, False)
      | Some f \<Rightarrow> (case f key of None \<Rightarrow> (0, False, False) | Some r \<Rightarrow> r))"

definition graceLocked :: "string \<Rightarrow> string \<Rightarrow> int \<Rightarrow> int \<Rightarrow> duration \<Rightarrow> Tracker \<Rightarrow> int" where
  "graceLocked key aliasKey n nowMs grace t =
     (if \<not> graceOn t \<or> nowMs \<le> 0 \<or> grace \<le> 0 then 0
      else
        let (at, known, have_ans) = lastSeenLocked key t;
            (at, known, have_ans) =
              (if aliasKey \<noteq> [] \<and> aliasKey \<noteq> key
               then (case lastSeenLocked aliasKey t of
                       (a, aKnown, aHave) \<Rightarrow>
                         if aHave then (if aKnown \<and> (\<not> known \<or> a > at) then (a, True, True) else (at, known, True))
                         else (at, known, have_ans))
               else (at, known, have_ans))
        in if have_ans
           then (if \<not> known then 0
                 else let d = nowMs - at in if d \<ge> 0 \<and> d < Milliseconds grace then n else 0)
           else if startedAtMs t = 0 then 0
           else let d = nowMs - startedAtMs t in if d \<ge> 0 \<and> d < Milliseconds grace then n else 0)"

section \<open>Turns\<close>

definition TurnFrom ::
  "(64 word list \<Rightarrow> 64 word list) \<Rightarrow> string \<Rightarrow> string \<Rightarrow> string \<Rightarrow> string \<Rightarrow> int \<Rightarrow> int \<Rightarrow> duration \<Rightarrow>
   Tracker \<times> int \<Rightarrow> (int \<times> int) \<times> (Tracker \<times> int)" where
  "TurnFrom order key parent aliasKey aliasParent n nowMs grace tr =
     (let (t, resets) = tr;
          prev = map_of (tm t) key;
          ((prevLen, prevAtMs), resets, t) =
            (case prev of
               Some p \<Rightarrow> (case Boundary (turn_n p) n resets of (b, r) \<Rightarrow> ((b, turn_at p), r, t))
             | None \<Rightarrow>
                 (case wasDropped key t of
                    (True, t) \<Rightarrow> ((n, 0), resets, t)
                  | (False, t) \<Rightarrow>
                      if parent = [] then ((graceLocked key aliasKey n nowMs grace t, 0), resets, t)
                      else (case map_of (tm t) parent of
                              Some p \<Rightarrow> ((min (turn_n p) n, turn_at p), resets, t)
                            | None \<Rightarrow>
                                if droppedLocked parent t then ((n, 0), resets, t)
                                else ((graceLocked parent aliasParent n nowMs grace t, 0), resets, t))));
          t = (if prev = None \<and> int (length (tm t)) \<ge> tmax t then pruneLocked order nowMs t else t);
          at = (if nowMs > 0 then nowMs else case prev of Some p \<Rightarrow> turn_at p | None \<Rightarrow> 0);
          t = t\<lparr>seq := seq t + 1\<rparr>;
          t = t\<lparr>tm := AList.update key \<lparr>turn_n = n, turn_at = at, used = seq t\<rparr> (tm t)\<rparr>
      in ((prevLen, prevAtMs), (t, resets)))"

definition TurnAt ::
  "(64 word list \<Rightarrow> 64 word list) \<Rightarrow> string \<Rightarrow> int \<Rightarrow> int \<Rightarrow> duration \<Rightarrow> Tracker \<times> int \<Rightarrow> (int \<times> int) \<times> (Tracker \<times> int)" where
  "TurnAt order session n nowMs grace tr = TurnFrom order session [] [] [] n nowMs grace tr"

definition Turn :: "(64 word list \<Rightarrow> 64 word list) \<Rightarrow> string \<Rightarrow> int \<Rightarrow> Tracker \<times> int \<Rightarrow> int \<times> (Tracker \<times> int)" where
  "Turn order session n tr = (case TurnAt order session n 0 0 tr of ((prevLen, _), tr) \<Rightarrow> (prevLen, tr))"

definition Sessions :: "Tracker \<Rightarrow> int" where
  "Sessions t = int (length (tm t))"

section \<open>Invariant\<close>

definition order_ok :: "('a list \<Rightarrow> 'a list) \<Rightarrow> bool" where
  "order_ok order \<longleftrightarrow> (\<forall>xs. set (order xs) = set xs)"

definition tr_inv :: "Tracker \<Rightarrow> bool" where
  "tr_inv t \<longleftrightarrow> distinct (map fst (tm t)) \<and> 1 \<le> tmax t \<and> int (length (tm t)) \<le> tmax t
     \<and> distinct (dropped t) \<and> int (length (dropped t)) \<le> 4 * tmax t \<and> (\<forall>r \<in> set (tm t). 0 \<le> turn_n (snd r) \<and> used (snd r) \<le> seq t)"

lemma NewTracker_inv: "tr_inv (NewTracker maxKeys nowMs)"
  by (simp add: tr_inv_def NewTracker_def DefaultMaxKeys_def)

lemma length_alist_delete:
  assumes "distinct (map fst al)" "k \<in> fst ` set al"
  shows "int (length (AList.delete k al)) = int (length al) - 1"
proof -
  have "length (AList.delete k al) = length (removeAll k (map fst al))" by (metis AList.delete_keys length_map)
  also have "\<dots> = length (remove1 k (map fst al))" using assms(1) by (simp add: distinct_remove1_removeAll)
  finally show ?thesis using assms(2) by (simp only: int_length_remove1 set_map length_map)
qed

lemma length_alist_update:
  "length (AList.update k v al) = (if k \<in> fst ` set al then length al else length al + 1)"
proof -
  have "length (AList.update k v al) = length (map fst (AList.update k v al))" by simp
  then show ?thesis by (simp add: AList.update_keys)
qed

lemma set_alist_delete: "set (AList.delete k al) \<subseteq> set al"
  by (induction al) auto

lemma set_alist_update: "set (AList.update k v al) \<subseteq> insert (k, v) (set al)"
  by (induction al) auto

lemma dropLocked_frame [simp]:
  "tm (dropLocked order k t) = AList.delete k (tm t)" "tmax (dropLocked order k t) = tmax t"
  "seq (dropLocked order k t) = seq t"
  by (simp_all add: dropLocked_def Let_def)

lemma dropLocked_remembers: "keyHash k \<in> set (dropped (dropLocked order k t))"
  by (simp add: dropLocked_def Let_def)

lemma dropLocked_dropped:
  assumes "order_ok order" "distinct (dropped t)" "int (length (dropped t)) \<le> 4 * tmax t" "1 \<le> tmax t"
  shows "distinct (dropped (dropLocked order k t)) \<and> int (length (dropped (dropLocked order k t))) \<le> 4 * tmax t"
proof (cases "int (length (dropped t)) \<ge> 4 * tmax t")
  case True
  with assms have ne: "dropped t \<noteq> []" by auto
  then obtain h hs where o: "order (dropped t) = h # hs"
    using assms(1) by (metis order_ok_def neq_Nil_conv set_empty)
  then have h: "h \<in> set (dropped t)" using assms(1) by (metis order_ok_def list.set_intros(1))
  have "int (length (removeAll h (dropped t))) = int (length (dropped t)) - 1"
    using int_length_remove1 [OF h] assms(2) by (simp add: distinct_remove1_removeAll)
  then have "int (length (dropped (dropLocked order k t))) \<le> int (length (dropped t))"
    using True by (simp add: dropLocked_def Let_def o List.insert_def)
  with assms True show ?thesis by (auto simp: dropLocked_def Let_def o distinct_removeAll)
next
  case False
  then have "int (length (dropped (dropLocked order k t))) \<le> 4 * tmax t"
    by (simp add: dropLocked_def Let_def List.insert_def)
  with assms False show ?thesis by (simp add: dropLocked_def Let_def)
qed

lemma dropLocked_inv: "order_ok order \<Longrightarrow> tr_inv t \<Longrightarrow> tr_inv (dropLocked order k t)"
  using dropLocked_dropped [of order t k] length_delete_le [of k "tm t"] set_alist_delete [of k "tm t"]
  by (auto simp: tr_inv_def distinct_delete)

lemma expire_stale_inv:
  "order_ok order \<Longrightarrow> tr_inv t \<Longrightarrow>
   tr_inv (expire_stale order nowMs rest t) \<and> tmax (expire_stale order nowMs rest t) = tmax t
   \<and> seq (expire_stale order nowMs rest t) = seq t \<and> length (tm (expire_stale order nowMs rest t)) \<le> length (tm t)"
proof (induction order nowMs rest t rule: expire_stale.induct)
  case (2 order nowMs k v rest t)
  then show ?case
    using dropLocked_inv [of order t k] length_delete_le [of k "tm t"] by (auto intro: order_trans)
qed simp

lemma oldest_key_spec:
  "oldest_key al best = Some (k, u) \<Longrightarrow>
   (best = Some (k, u) \<or> (\<exists>v. (k, v) \<in> set al \<and> used v = u)) \<and> (\<forall>r \<in> set al. u \<le> used (snd r))
   \<and> (\<forall>b. best = Some b \<longrightarrow> u \<le> snd b)"
proof (induction al best rule: oldest_key.induct)
  case (2 k' v rest best)
  then show ?case by (cases best) (force split: if_splits)+
qed auto

lemma oldest_key_None: "oldest_key al best = None \<longleftrightarrow> al = [] \<and> best = None"
  by (induction al best rule: oldest_key.induct) (auto split: option.splits if_splits)

lemma pruneLocked_inv:
  assumes "order_ok order" "tr_inv t"
  shows "tr_inv (pruneLocked order nowMs t) \<and> tmax (pruneLocked order nowMs t) = tmax t
     \<and> seq (pruneLocked order nowMs t) = seq t \<and> int (length (tm (pruneLocked order nowMs t))) < tmax t"
proof -
  define t1 where "t1 = (if nowMs > 0 then expire_stale order nowMs (tm t) t else t)"
  have 1: "tr_inv t1" "tmax t1 = tmax t" "seq t1 = seq t" "length (tm t1) \<le> length (tm t)"
    using expire_stale_inv [OF assms, of nowMs "tm t"] assms(2) by (auto simp: t1_def)
  show ?thesis
  proof (cases "nowMs > 0 \<and> int (length (tm t1)) < tmax t1")
    case True
    then have "pruneLocked order nowMs t = t1"
      unfolding pruneLocked_def t1_def [symmetric] Let_def by auto
    with 1 True show ?thesis by simp
  next
    case False
    then have eq: "pruneLocked order nowMs t = (case oldest_key (tm t1) None of None \<Rightarrow> t1 | Some (k, _) \<Rightarrow> dropLocked order k t1)"
      unfolding pruneLocked_def t1_def [symmetric] Let_def by auto
    show ?thesis
    proof (cases "oldest_key (tm t1) None")
      case None
      with 1 eq show ?thesis by (auto simp: oldest_key_None tr_inv_def)
    next
      case (Some ku)
      obtain k u where ku: "ku = (k, u)" by fastforce
      then have k: "k \<in> fst ` set (tm t1)" using oldest_key_spec [of "tm t1" None k u] Some by force
      have "int (length (AList.delete k (tm t1))) = int (length (tm t1)) - 1"
        using length_alist_delete [OF _ k] 1(1) by (simp add: tr_inv_def)
      moreover have "int (length (tm t1)) \<le> tmax t" using 1 by (auto simp: tr_inv_def)
      ultimately show ?thesis using eq Some ku 1 dropLocked_inv [OF assms(1) 1(1), of k] by simp
    qed
  qed
qed

section \<open>What a pruning keeps\<close>

definition only_drops :: "Tracker \<Rightarrow> Tracker \<Rightarrow> bool" where
  "only_drops t t' \<longleftrightarrow> (\<forall>k. map_of (tm t') k = map_of (tm t) k \<or> map_of (tm t') k = None)"

lemma only_drops_delete: "only_drops t t1 \<Longrightarrow> tm t' = AList.delete k (tm t1) \<Longrightarrow> only_drops t t'"
  by (auto simp: only_drops_def AList.delete_conv')

lemma only_drops_expire: "only_drops t t1 \<Longrightarrow> only_drops t (expire_stale order nowMs rest t1)"
proof (induction order nowMs rest t1 rule: expire_stale.induct)
  case (2 order nowMs k v rest t1)
  then show ?case by (simp add: only_drops_delete [of t t1 _ k])
qed simp

lemma only_drops_prune: "only_drops t (pruneLocked order nowMs t)"
proof -
  have "only_drops t t" by (simp add: only_drops_def)
  then have "only_drops t (if nowMs > 0 then expire_stale order nowMs (tm t) t else t)"
    by (simp add: only_drops_expire)
  then show ?thesis
    by (auto simp: pruneLocked_def Let_def split: option.split intro: only_drops_delete)
qed

text \<open>While the set of dropped hashes has room, a key that loses its record is remembered as dropped.\<close>

definition remembers :: "Tracker \<Rightarrow> Tracker \<Rightarrow> bool" where
  "remembers t t' \<longleftrightarrow> (\<forall>k. map_of (tm t) k \<noteq> None \<and> map_of (tm t') k = None \<longrightarrow> keyHash k \<in> set (dropped t'))"

lemma dropLocked_keeps:
  assumes "int (length (dropped t)) < 4 * tmax t"
  shows "set (dropped t) \<subseteq> set (dropped (dropLocked order k t)) \<and> length (dropped (dropLocked order k t)) \<le> length (dropped t) + 1"
  using assms by (auto simp: dropLocked_def Let_def List.insert_def)

lemma remembers_drop:
  assumes "remembers t t1" "int (length (dropped t1)) < 4 * tmax t1"
  shows "remembers t (dropLocked order k t1)"
  using assms dropLocked_keeps [OF assms(2), of order k] dropLocked_remembers [of k order t1]
  by (auto simp: remembers_def AList.delete_conv')

lemma remembers_expire:
  assumes "remembers t t1" "int (length (dropped t1) + length rest) \<le> 4 * tmax t1"
  shows "remembers t (expire_stale order nowMs rest t1) \<and>
    length (dropped (expire_stale order nowMs rest t1)) \<le> length (dropped t1) + length rest"
  using assms
proof (induction order nowMs rest t1 rule: expire_stale.induct)
  case (2 order nowMs k v rest t1)
  then have room: "int (length (dropped t1)) < 4 * tmax t1" by simp
  have r: "remembers t (dropLocked order k t1)" using remembers_drop [OF "2.prems"(1) room] .
  show ?case
    using 2 r dropLocked_keeps [OF room, of order k] by (cases "stale nowMs v") fastforce+
qed simp

lemma remembers_prune:
  assumes "order_ok order" "tr_inv t" "int (length (dropped t) + length (tm t)) < 4 * tmax t"
  shows "remembers t (pruneLocked order nowMs t)"
proof -
  define t1 where "t1 = (if nowMs > 0 then expire_stale order nowMs (tm t) t else t)"
  have r: "remembers t t" by (auto simp: remembers_def)
  have 1: "remembers t t1" "length (dropped t1) \<le> length (dropped t) + length (tm t)" "tmax t1 = tmax t"
    using remembers_expire [OF r, of "tm t" order nowMs] r assms expire_stale_inv [OF assms(1,2), of nowMs "tm t"]
    by (auto simp: t1_def)
  then have "int (length (dropped t1)) < 4 * tmax t1" using assms(3) by linarith
  from remembers_drop [OF 1(1) this] 1(1) show ?thesis
    unfolding pruneLocked_def t1_def [symmetric] Let_def by (auto split: option.split)
qed

section \<open>One turn\<close>

text \<open>The boundary a turn is answered with, apart from the bookkeeping of the records.\<close>

lemma int_length_removeAll: "int (length xs) \<le> b \<Longrightarrow> int (length (removeAll h xs)) \<le> b"
  by (rule order_trans [OF of_nat_mono [OF length_removeAll_less_eq]])

lemma wasDropped_frame:
  "wasDropped k t = (b, t') \<Longrightarrow> tm t' = tm t \<and> tmax t' = tmax t \<and> seq t' = seq t \<and> b = droppedLocked k t
     \<and> (tr_inv t \<longrightarrow> tr_inv t') \<and> length (dropped t') \<le> length (dropped t)"
  by (simp add: wasDropped_def droppedLocked_def Let_def split: if_splits)
    (fastforce simp: tr_inv_def distinct_removeAll int_length_removeAll)

lemma graceLocked_cases: "graceLocked key al n nowMs grace t \<in> {0, n}"
  by (auto simp: graceLocked_def Let_def split: prod.split)

definition record_turn :: "string \<Rightarrow> int \<Rightarrow> int \<Rightarrow> Tracker \<Rightarrow> Tracker" where
  "record_turn key n at t =
     t\<lparr>seq := seq t + 1, tm := AList.update key \<lparr>turn_n = n, turn_at = at, used = seq t + 1\<rparr> (tm t)\<rparr>"

lemma TurnFrom_known:
  assumes "map_of (tm t) key = Some p"
  shows "TurnFrom order key parent ak ap n nowMs grace (t, r) =
    ((fst (Boundary (turn_n p) n r), turn_at p),
     (record_turn key n (if nowMs > 0 then nowMs else turn_at p) t, snd (Boundary (turn_n p) n r)))"
  using assms by (simp add: TurnFrom_def Let_def record_turn_def Boundary_def)

lemma TurnFrom_new:
  assumes "map_of (tm t) key = None"
  shows "\<exists>pl pa t1. TurnFrom order key parent ak ap n nowMs grace (t, r) =
      ((pl, pa), (record_turn key n (if nowMs > 0 then nowMs else 0)
                    (if int (length (tm t1)) \<ge> tmax t1 then pruneLocked order nowMs t1 else t1), r))
     \<and> t1 = snd (wasDropped key t) \<and> (droppedLocked key t \<longrightarrow> pl = n)
     \<and> (pl = 0 \<or> pl = n \<or> (\<exists>p. map_of (tm t) parent = Some p \<and> pl = min (turn_n p) n \<and> pa = turn_at p))"
proof -
  obtain b t1 where w: "wasDropped key t = (b, t1)" by fastforce
  note f = wasDropped_frame [OF w]
  show ?thesis
    using assms f graceLocked_cases [of key ak n nowMs grace t1] graceLocked_cases [of parent ap n nowMs grace t1]
    by (cases b; cases "map_of (tm t) parent") (auto simp: TurnFrom_def Let_def record_turn_def w)
qed

lemma record_turn_inv:
  assumes "tr_inv t" "0 \<le> n" "key \<in> fst ` set (tm t) \<or> int (length (tm t)) < tmax t"
  shows "tr_inv (record_turn key n at t)"
  using assms set_alist_update [of key "\<lparr>turn_n = n, turn_at = at, used = Suc (seq t)\<rparr>" "tm t"]
  by (auto simp: tr_inv_def record_turn_def distinct_update length_alist_update) (fastforce intro: le_SucI)+

lemma TurnFrom_new_inv:
  assumes "order_ok order" "tr_inv t" "0 \<le> n" "map_of (tm t) key = None"
    and t1: "t1 = snd (wasDropped key t)"
  shows "tr_inv (record_turn key n at (if int (length (tm t1)) \<ge> tmax t1 then pruneLocked order nowMs t1 else t1))"
proof -
  have "tr_inv t1" using wasDropped_frame [of key t "fst (wasDropped key t)" t1] assms by simp
  with pruneLocked_inv [OF assms(1), of t1 nowMs] assms(3) show ?thesis
    by (intro record_turn_inv) auto
qed

text \<open>
  When the restart grace protects a thread: the grace is on, the request has a clock and a cache
  lifetime, and the later of the refresh times the host knows under the thread's two ids lies inside
  that lifetime; when the host answers for neither id, the start of the proxy is the time.
\<close>

definition refresh_times :: "string \<Rightarrow> string \<Rightarrow> Tracker \<Rightarrow> int set" where
  "refresh_times key alias t =
     {at. \<exists>h. lastSeenLocked key t = (at, True, h)} \<union> {at. alias \<noteq> [] \<and> lastSeenLocked alias t = (at, True, True)}"

definition host_answers :: "string \<Rightarrow> string \<Rightarrow> Tracker \<Rightarrow> bool" where
  "host_answers key alias t \<longleftrightarrow> snd (snd (lastSeenLocked key t)) \<or> (alias \<noteq> [] \<and> snd (snd (lastSeenLocked alias t)))"

definition grace_open :: "string \<Rightarrow> string \<Rightarrow> int \<Rightarrow> duration \<Rightarrow> Tracker \<Rightarrow> bool" where
  "grace_open key alias nowMs grace t \<longleftrightarrow> graceOn t \<and> 0 < nowMs \<and> 0 < grace \<and>
     (if host_answers key alias t
      then \<exists>at \<in> refresh_times key alias t. (\<forall>b \<in> refresh_times key alias t. b \<le> at) \<and> at \<le> nowMs \<and> nowMs - at < Milliseconds grace
      else startedAtMs t \<noteq> 0 \<and> startedAtMs t \<le> nowMs \<and> nowMs - startedAtMs t < Milliseconds grace)"

lemma refresh_times_eq:
  assumes "lastSeenLocked key t = (x, kn, h)" "lastSeenLocked alias t = (y, ka, ha)"
  shows "refresh_times key alias t = (if kn then {x} else {}) \<union> (if alias \<noteq> [] \<and> ka \<and> ha then {y} else {})"
  using assms by (auto simp: refresh_times_def)

lemma graceLocked_exact: "graceLocked key alias n nowMs grace t = (if grace_open key alias nowMs grace t then n else 0)"
proof -
  obtain x kn h where k: "lastSeenLocked key t = (x, kn, h)" by (metis prod_cases3)
  obtain y ka ha where a: "lastSeenLocked alias t = (y, ka, ha)" by (metis prod_cases3)
  note rt = refresh_times_eq [OF k a]
  have hst: "host_answers key alias t = (h \<or> (alias \<noteq> [] \<and> ha))" by (simp add: host_answers_def k a)
  show ?thesis
  proof (cases "alias = key")
    case True
    with k a have "y = x" "ka = kn" "ha = h" by auto
    then show ?thesis
      unfolding grace_open_def rt hst
      by (cases kn; cases h; simp add: graceLocked_def Let_def k True; auto)
  next
    case False
    show ?thesis
      unfolding grace_open_def rt hst
      by (cases "alias = []"; cases kn; cases h; cases ka; cases ha; simp add: graceLocked_def Let_def k a False; auto)
  qed
qed

lemma TurnFrom_new_answer:
  assumes "map_of (tm t) key = None" "TurnFrom order key parent ak ap n nowMs grace (t, r) = ((pl, pa), tr)"
  shows "if droppedLocked key t then pl = n \<and> pa = 0
     else if parent = [] then pl = (if grace_open key ak nowMs grace t then n else 0) \<and> pa = 0
     else case map_of (tm t) parent of
            Some q \<Rightarrow> pl = min (turn_n q) n \<and> pa = turn_at q
          | None \<Rightarrow> pl = (if droppedLocked parent t \<or> grace_open parent ap nowMs grace t then n else 0) \<and> pa = 0"
proof (cases "droppedLocked key t")
  case True
  with assms show ?thesis by (simp add: TurnFrom_def Let_def wasDropped_def droppedLocked_def)
next
  case False
  then have "wasDropped key t = (False, t)" by (simp add: wasDropped_def droppedLocked_def Let_def)
  with assms False show ?thesis
    by (auto simp: TurnFrom_def Let_def graceLocked_exact split: option.splits if_splits)
qed

text \<open>
  C19: what a turn is measured against, for every case. Every turn keeps the tracker within its
  bounds and is answered with a boundary between 0 and its own length. A known thread gets the length
  of its previous turn, or 0 with one compaction counted when the transcript shrank. A thread with no
  record is never counted as a compaction: its whole length is the boundary if its record was dropped;
  a thread with no parent gets its whole length while its restart grace is open and 0 otherwise; a
  child gets its parent's length (cut to its own) and clock when the parent has a record, and
  otherwise its whole length when the parent was dropped or the parent's grace is open, and 0 when
  not. The turn is recorded under its own key, and every other thread's record is untouched or
  dropped, never rewritten.
\<close>

theorem TurnFrom_boundary:
  assumes "order_ok order" "tr_inv t" "0 \<le> n"
    and "TurnFrom order key parent ak ap n nowMs grace (t, r) = ((pl, pa), (t', r'))"
  shows "tr_inv t' \<and> 0 \<le> pl \<and> pl \<le> n \<and> (\<exists>at u. map_of (tm t') key = Some \<lparr>turn_n = n, turn_at = at, used = u\<rparr>)
     \<and> (case map_of (tm t) key of
          Some p \<Rightarrow> pl = (if n < turn_n p then 0 else turn_n p) \<and> pa = turn_at p
                    \<and> r' = r + (if n < turn_n p then 1 else 0)
        | None \<Rightarrow> r' = r \<and>
            (if droppedLocked key t then pl = n \<and> pa = 0
             else if parent = [] then pl = (if grace_open key ak nowMs grace t then n else 0) \<and> pa = 0
             else case map_of (tm t) parent of
                    Some q \<Rightarrow> pl = min (turn_n q) n \<and> pa = turn_at q
                  | None \<Rightarrow> pl = (if droppedLocked parent t \<or> grace_open parent ap nowMs grace t then n else 0) \<and> pa = 0))
     \<and> (\<forall>k. k \<noteq> key \<longrightarrow> map_of (tm t') k = map_of (tm t) k \<or> map_of (tm t') k = None)"
proof (cases "map_of (tm t) key")
  case (Some p)
  then have "(key, p) \<in> set (tm t)" by (rule map_of_SomeD)
  then have p: "0 \<le> turn_n p" "key \<in> fst ` set (tm t)" using assms(2) by (force simp: tr_inv_def)+
  note eq = TurnFrom_known [OF Some, of order parent ak ap n nowMs grace r]
  have "tr_inv t'" using assms eq p by (auto intro!: record_turn_inv)
  with assms eq p Some show ?thesis
    by (auto simp: Boundary_def record_turn_def AList.update_conv')
next
  case None
  obtain pl' pa' t1 where eq: "TurnFrom order key parent ak ap n nowMs grace (t, r) =
      ((pl', pa'), (record_turn key n (if nowMs > 0 then nowMs else 0)
                    (if int (length (tm t1)) \<ge> tmax t1 then pruneLocked order nowMs t1 else t1), r))"
    and t1: "t1 = snd (wasDropped key t)"
    and pl: "pl' = 0 \<or> pl' = n \<or> (\<exists>p. map_of (tm t) parent = Some p \<and> pl' = min (turn_n p) n \<and> pa' = turn_at p)"
    using TurnFrom_new [OF None, of order parent ak ap n nowMs grace r] by blast
  have f: "tm t1 = tm t" using wasDropped_frame [of key t "fst (wasDropped key t)" t1] t1 by simp
  have od: "only_drops t (if int (length (tm t1)) \<ge> tmax t1 then pruneLocked order nowMs t1 else t1)"
    using only_drops_prune [of t1 order nowMs] f by (auto simp: only_drops_def)
  have "0 \<le> turn_n p" if "map_of (tm t) parent = Some p" for p
    using map_of_SomeD [OF that] assms(2) by (force simp: tr_inv_def)
  with pl assms(3) have b: "0 \<le> pl' \<and> pl' \<le> n" by auto
  have keep: "map_of (tm t') k = map_of (tm t) k \<or> map_of (tm t') k = None" if "k \<noteq> key" for k
    using eq assms(4) od that by (auto simp: record_turn_def AList.update_conv' only_drops_def)
  have "map_of (tm t') key = Some \<lparr>turn_n = n, turn_at = (if nowMs > 0 then nowMs else 0), used = seq t' \<rparr>" "tr_inv t'" "r' = r"
    "0 \<le> pl" "pl \<le> n"
    using eq assms b TurnFrom_new_inv [OF assms(1-3) None t1] by (auto simp: record_turn_def AList.update_conv')
  with keep TurnFrom_new_answer [OF None assms(4)] show ?thesis unfolding None option.case by blast
qed

definition tracker0 :: Tracker where
  "tracker0 = NewTracker 2 1000"

definition tracker1 :: Tracker where
  "tracker1 = tracker0\<lparr>seq := 1, tm := [(''p'', \<lparr>turn_n = 4, turn_at = 1500, used = 1\<rparr>)]\<rparr>"

theorem TurnFrom_boundary_witness:
  "fst (TurnFrom id ''a'' ''p'' [] [] 9 2000 second (tracker1, 0)) = (4, 1500)
   \<and> tr_inv (fst (snd (TurnFrom id ''a'' ''p'' [] [] 9 2000 second (tracker1, 0))))
   \<and> fst (fst (TurnFrom id ''a'' [] [] [] 9 1500 second (tracker0, 0))) = 9"
proof -
  obtain pl pa t' r' where e: "TurnFrom id ''a'' ''p'' [] [] 9 2000 second (tracker1, 0) = ((pl, pa), (t', r'))" by (metis surj_pair)
  obtain ql qa u' s' where q: "TurnFrom id ''a'' [] [] [] 9 1500 second (tracker0, 0) = ((ql, qa), (u', s'))" by (metis surj_pair)
  have o: "order_ok (id :: 64 word list \<Rightarrow> _)" and i: "tr_inv tracker0" "tr_inv tracker1"
    by (simp_all add: tracker1_def tracker0_def NewTracker_inv order_ok_def) (simp add: NewTracker_def tr_inv_def)
  have g: "grace_open ''a'' [] 1500 second tracker0"
    by (simp add: grace_open_def host_answers_def lastSeenLocked_def tracker0_def NewTracker_def Milliseconds_def go_div_def
        second_def millisecond_def)
  have "ql = 9"
    using TurnFrom_boundary [OF o i(1) _ q] g by (simp add: tracker0_def NewTracker_def droppedLocked_def)
  moreover have "pl = 4 \<and> pa = 1500 \<and> tr_inv t'"
    using TurnFrom_boundary [OF o i(2) _ e] by (simp add: tracker1_def tracker0_def NewTracker_def droppedLocked_def)
  ultimately show ?thesis by (simp add: e q)
qed

text \<open>
  Eviction never makes a cached prefix look uncached. When a turn of one thread pushes another
  thread's record out of the tracker, by staleness or by LRU, the next turn of that other thread
  gets its whole length as boundary (nothing may change), as long as the memory of dropped keys
  had room.
\<close>

theorem evicted_thread_reads_cached:
  assumes "order_ok order" "tr_inv t" "0 \<le> n" "k \<noteq> key"
    and "int (length (dropped t) + length (tm t)) < 4 * tmax t"
    and turn: "TurnFrom order key parent ak ap n nowMs grace (t, r) = (b, (t', r'))"
    and gone: "map_of (tm t) k \<noteq> None" "map_of (tm t') k = None"
  shows "fst (fst (TurnFrom order k parent' ak' ap' n' nowMs' grace' (t', r'))) = n'"
proof (cases "map_of (tm t) key")
  case (Some p)
  have "map_of (tm t') k = map_of (tm t) k"
    using turn assms(4) by (auto simp: TurnFrom_known [OF Some] record_turn_def AList.update_conv')
  with gone show ?thesis by simp
next
  case None
  obtain pl' pa' t1 where eq: "TurnFrom order key parent ak ap n nowMs grace (t, r) =
      ((pl', pa'), (record_turn key n (if nowMs > 0 then nowMs else 0)
                    (if int (length (tm t1)) \<ge> tmax t1 then pruneLocked order nowMs t1 else t1), r))"
    and t1: "t1 = snd (wasDropped key t)"
    using TurnFrom_new [OF None, of order parent ak ap n nowMs grace r] by blast
  have f: "tm t1 = tm t" "tmax t1 = tmax t" "tr_inv t1" "length (dropped t1) \<le> length (dropped t)"
    using wasDropped_frame [of key t "fst (wasDropped key t)" t1] t1 assms(2) by auto
  have room: "int (length (dropped t1) + length (tm t1)) < 4 * tmax t1" using f assms(5) by simp
  have t': "t' = record_turn key n (if nowMs > 0 then nowMs else 0)
      (if int (length (tm t1)) \<ge> tmax t1 then pruneLocked order nowMs t1 else t1)" using eq turn by simp
  with gone assms(4) f(1) have full: "int (length (tm t1)) \<ge> tmax t1" and g: "map_of (tm (pruneLocked order nowMs t1)) k = None"
    by (auto simp: record_turn_def AList.update_conv' split: if_splits)
  with remembers_prune [OF assms(1) f(3) room, of nowMs] gone(1) f(1) have "keyHash k \<in> set (dropped (pruneLocked order nowMs t1))"
    by (simp add: remembers_def)
  then have "droppedLocked k t'" using t' full by (simp add: droppedLocked_def record_turn_def)
  then show ?thesis
    using TurnFrom_new [OF gone(2), of order parent' ak' ap' n' nowMs' grace' r'] by auto
qed

lemma TurnFrom_full_example:
  "\<exists>b t' r'. TurnFrom id ''c'' [] [] [] 3 2002 0
     (tracker0\<lparr>seq := 2, tm := [(''a'', \<lparr>turn_n = 4, turn_at = 2000, used = 1\<rparr>), (''b'', \<lparr>turn_n = 4, turn_at = 2001, used = 2\<rparr>)]\<rparr>, 0)
     = (b, (t', r')) \<and> map_of (tm t') ''a'' = None"
  by (simp add: TurnFrom_def Let_def tracker0_def NewTracker_def wasDropped_def graceLocked_def pruneLocked_def stale_def
      Milliseconds_def StaleAfter_def go_div_def second_def millisecond_def)

theorem evicted_thread_reads_cached_witness:
  "\<exists>t' r'. map_of (tm t') ''a'' = None \<and> fst (fst (TurnFrom id ''a'' [] [] [] 9 3000 0 (t', r'))) = 9"
proof -
  define t where "t = tracker0\<lparr>seq := 2, tm := [(''a'', \<lparr>turn_n = 4, turn_at = 2000, used = 1\<rparr>), (''b'', \<lparr>turn_n = 4, turn_at = 2001, used = 2\<rparr>)]\<rparr>"
  have "tr_inv t" "order_ok (id :: 64 word list \<Rightarrow> _)" "map_of (tm t) ''a'' \<noteq> None" "int (length (dropped t) + length (tm t)) < 4 * tmax t"
    by (auto simp: t_def tracker0_def NewTracker_def tr_inv_def order_ok_def)
  moreover obtain b t' r' where "TurnFrom id ''c'' [] [] [] 3 2002 0 (t, 0) = (b, (t', r'))" "map_of (tm t') ''a'' = None"
    using TurnFrom_full_example unfolding t_def by blast
  ultimately show ?thesis
    using evicted_thread_reads_cached [of id t 3 "''a''" "''c''" "[]" "[]" "[]" 2002 0 0 b t' r' "[]" "[]" "[]" 9 3000 0] by auto
qed

text \<open>
  The restart grace. A thread the tracker has no record of is protected in full exactly when
  the grace is on and its clock, the host's last-seen time (the later one of the two session ids)
  or, when the host cannot answer, the start of the proxy, lies inside the request's cache lifetime.
\<close>

theorem graceLocked_window:
  assumes "aliasKey = [] \<or> aliasKey = key" "n \<noteq> 0"
  shows "graceLocked key aliasKey n nowMs grace t = n \<longleftrightarrow>
    graceOn t \<and> 0 < nowMs \<and> 0 < grace \<and>
    (case lastSeenLocked key t of
       (at, known, True) \<Rightarrow> known \<and> 0 \<le> nowMs - at \<and> nowMs - at < Milliseconds grace
     | (_, _, False) \<Rightarrow> startedAtMs t \<noteq> 0 \<and> 0 \<le> nowMs - startedAtMs t \<and> nowMs - startedAtMs t < Milliseconds grace)"
proof -
  obtain at kn hv where l: "lastSeenLocked key t = (at, kn, hv)" by (metis prod_cases3)
  have no_alias: "\<not> (aliasKey \<noteq> [] \<and> aliasKey \<noteq> key)" using assms(1) by blast
  show ?thesis
    using assms(2) unfolding graceLocked_def l if_not_P [OF no_alias] Let_def
    by (cases hv; cases "graceOn t \<and> 0 < nowMs \<and> 0 < grace") (simp_all, auto)
qed

theorem graceLocked_window_witness:
  "graceLocked ''a'' [] 5 1500 (2 * second) tracker0 = 5"
  using graceLocked_window [of "[]" "''a''" 5 1500 "2 * second" tracker0]
  by (simp add: tracker0_def NewTracker_def lastSeenLocked_def Milliseconds_def go_div_def second_def millisecond_def)

end
