(* ===== verification/Worker_Pool.thy ===== *)
theory Worker_Pool
  imports Go_Prelude
begin

text \<open>
  The off-path worker pool of \<open>src/modes/pool.go\<close> as a step relation over the interleavings of the
  goroutines that use it. A caller of \<open>Enqueue\<close> takes two steps, as in the code: it claims the key
  under the lock, then tries to send without blocking; \<open>claiming\<close> holds the callers in between.
  The buffered channel is the list \<open>q\<close>; a worker is idle, running a job, or gone. A job is known by
  its key; what it computes is not the pool's concern, only whether it panics.
\<close>

datatype worker = Idle | Running string | Exited

record Pool =
  q :: "string list"
  qcap :: int
  started :: bool
  cancelled :: bool
  ppending :: "string set"
  processed :: int
  pdropped :: int
  perrors :: int
  claiming :: "string list"
  workers :: "worker list"

record Stats =
  SQueued :: int
  SPending :: int
  SProcessed :: int
  SDropped :: int
  SErrors :: int

definition DefaultMaxQueue :: int where "DefaultMaxQueue = 256"
definition DefaultWorkers :: int where "DefaultWorkers = 1"

definition NewPool :: "int \<Rightarrow> int \<Rightarrow> Pool" where
  "NewPool maxQueue nworkers =
     \<lparr>q = [], qcap = (if maxQueue \<le> 0 then DefaultMaxQueue else maxQueue), started = True, cancelled = False,
      ppending = {}, processed = 0, pdropped = 0, perrors = 0, claiming = [],
      workers = replicate (nat (if nworkers \<le> 0 then DefaultWorkers else nworkers)) Idle\<rparr>"

section \<open>The steps\<close>

text \<open>\<open>Enqueue\<close> up to the release of the lock: refused, or the slot claimed.\<close>

definition enqueue_claim :: "string \<Rightarrow> Pool \<Rightarrow> bool \<times> Pool" where
  "enqueue_claim key p =
     (if \<not> started p then (False, p)
      else if key \<in> ppending p then (False, p)
      else (True, p\<lparr>ppending := insert key (ppending p), claiming := claiming p @ [key]\<rparr>))"

text \<open>The non-blocking send of a caller that holds the claim.\<close>

definition enqueue_send :: "string \<Rightarrow> Pool \<Rightarrow> bool \<times> Pool" where
  "enqueue_send key p =
     (let p = p\<lparr>claiming := remove1 key (claiming p)\<rparr>
      in if int (length (q p)) < qcap p then (True, p\<lparr>q := q p @ [key]\<rparr>)
         else (False, p\<lparr>ppending := ppending p - {key}, pdropped := pdropped p + 1\<rparr>))"

text \<open>\<open>Enqueue\<close> with no other goroutine in between.\<close>

definition Enqueue :: "string \<Rightarrow> Pool \<Rightarrow> bool \<times> Pool" where
  "Enqueue key p = (case enqueue_claim key p of (False, p) \<Rightarrow> (False, p) | (True, p) \<Rightarrow> enqueue_send key p)"

text \<open>One round of \<open>drain\<close>: take the next job, or leave when the context is cancelled.\<close>

definition drain_take :: "nat \<Rightarrow> Pool \<Rightarrow> Pool option" where
  "drain_take w p =
     (if w < length (workers p) \<and> workers p ! w = Idle
      then (case q p of [] \<Rightarrow> None | j # rest \<Rightarrow> Some (p\<lparr>q := rest, workers := (workers p)[w := Running j]\<rparr>))
      else None)"

definition drain_exit :: "nat \<Rightarrow> Pool \<Rightarrow> Pool option" where
  "drain_exit w p =
     (if w < length (workers p) \<and> workers p ! w = Idle \<and> cancelled p
      then Some (p\<lparr>workers := (workers p)[w := Exited]\<rparr>) else None)"

text \<open>The deferred end of \<open>runOne\<close>, after the job returned or panicked.\<close>

definition runOne :: "nat \<Rightarrow> bool \<Rightarrow> Pool \<Rightarrow> Pool option" where
  "runOne w panics p =
     (if w < length (workers p)
      then (case workers p ! w of
              Running j \<Rightarrow>
                let p = p\<lparr>ppending := ppending p - {j}, workers := (workers p)[w := Idle]\<rparr>
                in Some (if panics then p\<lparr>perrors := perrors p + 1\<rparr> else p\<lparr>processed := processed p + 1\<rparr>)
            | _ \<Rightarrow> None)
      else None)"

definition pool_Stats :: "Pool \<Rightarrow> Stats" where
  "pool_Stats p = \<lparr>SQueued = int (length (q p)), SPending = int (card (ppending p)), SProcessed = processed p,
     SDropped = pdropped p, SErrors = perrors p\<rparr>"

text \<open>\<open>Stop\<close>: the flag under the lock, then the cancellation; the second call finds the flag cleared.\<close>

definition Stop_flag :: "Pool \<Rightarrow> Pool" where "Stop_flag p = p\<lparr>started := False\<rparr>"
definition Stop_cancel :: "Pool \<Rightarrow> Pool" where "Stop_cancel p = p\<lparr>cancelled := True\<rparr>"

datatype pool_label = LClaim string | LSend string | LFull string | LTake nat | LDone nat bool | LExit nat | LStop | LCancel

inductive pool_step :: "Pool \<Rightarrow> pool_label \<Rightarrow> Pool \<Rightarrow> bool" where
  claim: "enqueue_claim key p = (True, p') \<Longrightarrow> pool_step p (LClaim key) p'"
| send: "key \<in> set (claiming p) \<Longrightarrow> enqueue_send key p = (True, p') \<Longrightarrow> pool_step p (LSend key) p'"
| full: "key \<in> set (claiming p) \<Longrightarrow> enqueue_send key p = (False, p') \<Longrightarrow> pool_step p (LFull key) p'"
| take_job: "drain_take w p = Some p' \<Longrightarrow> pool_step p (LTake w) p'"
| finish: "runOne w panics p = Some p' \<Longrightarrow> pool_step p (LDone w panics) p'"
| leave: "drain_exit w p = Some p' \<Longrightarrow> pool_step p (LExit w) p'"
| stop: "pool_step p LStop (Stop_flag p)"
| cancel: "\<not> started p \<Longrightarrow> pool_step p LCancel (Stop_cancel p)"

inductive_cases pool_step_claimE: "pool_step p (LClaim key) p'"
inductive_simps pool_step_simps: "pool_step p l p'"

inductive pool_run :: "Pool \<Rightarrow> pool_label list \<Rightarrow> Pool \<Rightarrow> bool" where
  run_refl: "pool_run p [] p"
| run_step: "pool_run p ls p1 \<Longrightarrow> pool_step p1 l p2 \<Longrightarrow> pool_run p (ls @ [l]) p2"

section \<open>Invariant\<close>

fun job_of :: "worker \<Rightarrow> string list" where
  "job_of (Running j) = [j]"
| "job_of _ = []"

definition in_flight :: "Pool \<Rightarrow> string list" where
  "in_flight p = concat (map job_of (workers p))"

definition pool_inv :: "Pool \<Rightarrow> bool" where
  "pool_inv p \<longleftrightarrow> distinct (claiming p @ q p @ in_flight p)
     \<and> ppending p = set (claiming p) \<union> set (q p) \<union> set (in_flight p)
     \<and> int (length (q p)) \<le> qcap p \<and> 1 \<le> qcap p \<and> (cancelled p \<longrightarrow> \<not> started p)"

lemma in_flight_start:
  "w < length ws \<Longrightarrow> ws ! w = Idle \<Longrightarrow>
   mset (concat (map job_of (ws[w := Running j]))) = add_mset j (mset (concat (map job_of ws)))"
  by (induction ws arbitrary: w) (auto split: nat.splits simp: nth_Cons)

lemma in_flight_end:
  "w < length ws \<Longrightarrow> ws ! w = Running j \<Longrightarrow>
   add_mset j (mset (concat (map job_of (ws[w := Idle])))) = mset (concat (map job_of ws))"
  by (induction ws arbitrary: w) (auto split: nat.splits simp: nth_Cons)

lemma in_flight_exit:
  "w < length ws \<Longrightarrow> ws ! w = Idle \<Longrightarrow> concat (map job_of (ws[w := Exited])) = concat (map job_of ws)"
  by (induction ws arbitrary: w) (auto split: nat.splits simp: nth_Cons)

text \<open>The invariant over the multiset of claimed keys, which the steps move around.\<close>

definition claimed :: "Pool \<Rightarrow> string multiset" where
  "claimed p = mset (claiming p) + mset (q p) + mset (in_flight p)"

definition once :: "string multiset \<Rightarrow> bool" where
  "once M \<longleftrightarrow> (\<forall>k. count M k \<le> 1)"

lemma once_add: "once (add_mset j M) \<longleftrightarrow> once M \<and> j \<notin># M"
proof
  assume o: "once (add_mset j M)"
  then have "count (add_mset j M) k \<le> 1" for k by (simp only: once_def)
  from this [of j] this show "once M \<and> j \<notin># M"
    unfolding once_def by (metis One_nat_def Suc_le_mono count_add_mset le_Suc_eq le_zero_eq not_in_iff)
next
  assume "once M \<and> j \<notin># M"
  then show "once (add_mset j M)" by (auto simp: once_def not_in_iff)
qed

lemma once_mset: "distinct xs \<longleftrightarrow> once (mset xs)"
proof (induction xs)
  case Nil
  then show ?case by (simp add: once_def)
next
  case (Cons x xs)
  then show ?case by (auto simp: once_add)
qed

lemma pool_inv_claimed:
  "pool_inv p \<longleftrightarrow> once (claimed p) \<and> ppending p = set_mset (claimed p)
     \<and> int (length (q p)) \<le> qcap p \<and> 1 \<le> qcap p \<and> (cancelled p \<longrightarrow> \<not> started p)"
  using once_mset [of "claiming p @ q p @ in_flight p"]
  by (auto simp: pool_inv_def claimed_def ac_simps)

lemma claim_effect:
  "enqueue_claim key p = (True, p') \<Longrightarrow> claimed p' = add_mset key (claimed p) \<and> key \<notin> ppending p \<and> started p
     \<and> p' = p\<lparr>ppending := insert key (ppending p), claiming := claiming p @ [key]\<rparr>"
  by (auto simp: enqueue_claim_def claimed_def in_flight_def split: if_splits)

lemma send_effect:
  "key \<in> set (claiming p) \<Longrightarrow> enqueue_send key p = (True, p') \<Longrightarrow>
   claimed p' = claimed p \<and> int (length (q p)) < qcap p \<and> p' = p\<lparr>claiming := remove1 key (claiming p), q := q p @ [key]\<rparr>"
  by (auto simp: enqueue_send_def Let_def claimed_def in_flight_def split: if_splits)

lemma full_effect:
  "key \<in> set (claiming p) \<Longrightarrow> enqueue_send key p = (False, p') \<Longrightarrow>
   claimed p = add_mset key (claimed p') \<and> \<not> int (length (q p)) < qcap p
   \<and> p' = p\<lparr>claiming := remove1 key (claiming p), ppending := ppending p - {key}, pdropped := pdropped p + 1\<rparr>"
  by (auto simp: enqueue_send_def Let_def claimed_def in_flight_def split: if_splits)

lemma take_effect:
  "drain_take w p = Some p' \<Longrightarrow> claimed p' = claimed p
   \<and> (\<exists>j rest. q p = j # rest \<and> p' = p\<lparr>q := rest, workers := (workers p)[w := Running j]\<rparr>)"
  by (auto simp: drain_take_def claimed_def in_flight_def in_flight_start split: if_splits list.splits)

lemma finish_effect:
  assumes "runOne w panics p = Some p'"
  shows "\<exists>j. claimed p = add_mset j (claimed p') \<and> ppending p' = ppending p - {j} \<and> q p' = q p \<and> qcap p' = qcap p
     \<and> claiming p' = claiming p \<and> started p' = started p \<and> cancelled p' = cancelled p \<and> pdropped p' = pdropped p
     \<and> processed p' + perrors p' = processed p + perrors p + 1 \<and> size (mset (in_flight p)) = size (mset (in_flight p')) + 1"
proof -
  obtain j where w: "w < length (workers p)" "workers p ! w = Running j"
    and p': "p' = (if panics then p\<lparr>ppending := ppending p - {j}, workers := (workers p)[w := Idle], perrors := perrors p + 1\<rparr>
                else p\<lparr>ppending := ppending p - {j}, workers := (workers p)[w := Idle], processed := processed p + 1\<rparr>)"
    using assms by (auto simp: runOne_def Let_def split: if_splits worker.splits)
  note m = in_flight_end [OF w]
  have "claimed p = add_mset j (claimed p')" "size (mset (in_flight p)) = size (mset (in_flight p')) + 1"
    using m [symmetric] by (simp_all add: p' Let_def claimed_def in_flight_def del: size_mset)
  then show ?thesis by (auto simp: p' Let_def)
qed

lemma exit_effect:
  "drain_exit w p = Some p' \<Longrightarrow> in_flight p' = in_flight p \<and> p' = p\<lparr>workers := (workers p)[w := Exited]\<rparr>"
  by (auto simp: drain_exit_def in_flight_def in_flight_exit split: if_splits)

lemma pool_step_inv:
  assumes "pool_step p l p'" "pool_inv p"
  shows "pool_inv p'"
  using assms
proof (induction rule: pool_step.induct)
  case (claim key p p')
  note e = claim_effect [OF claim(1)]
  then have "claimed p' = add_mset key (claimed p)" "key \<notin># claimed p" using claim(2) by (auto simp: pool_inv_claimed)
  with e claim(2) show ?case by (auto simp: pool_inv_claimed once_add)
next
  case (send key p p')
  note e = send_effect [OF send(1,2)]
  then have "ppending p' = ppending p" "qcap p' = qcap p" "cancelled p' = cancelled p"
    "started p' = started p" "int (length (q p')) \<le> qcap p" by auto
  with e [THEN conjunct1] send(3) show ?case by (simp add: pool_inv_claimed)
next
  case (full key p p')
  note e = full_effect [OF full(1,2)]
  then have c: "claimed p = add_mset key (claimed p')" by simp
  have "key \<notin># claimed p'" using full(3) unfolding pool_inv_claimed c by (simp add: once_add)
  with e full(3) show ?case by (auto simp: pool_inv_claimed once_add)
next
  case (take_job w p p')
  from take_effect [OF take_job(1)] have "claimed p' = claimed p" "ppending p' = ppending p" "qcap p' = qcap p"
    "cancelled p' = cancelled p" "started p' = started p" "length (q p') \<le> length (q p)" by auto
  with take_job(2) show ?case by (simp add: pool_inv_claimed)
next
  case (finish w panics p p')
  obtain j where e: "claimed p = add_mset j (claimed p')" "ppending p' = ppending p - {j}" "q p' = q p" "qcap p' = qcap p"
    "started p' = started p" "cancelled p' = cancelled p" using finish_effect [OF finish(1)] by blast
  have "j \<notin># claimed p'" using finish(2) unfolding pool_inv_claimed e(1) by (simp add: once_add)
  with e finish(2) show ?case by (auto simp: pool_inv_claimed once_add)
next
  case (leave w p p')
  from exit_effect [OF leave(1)] leave(2) show ?case by (auto simp: pool_inv_def)
qed (auto simp: pool_inv_def Stop_flag_def Stop_cancel_def in_flight_def)

lemma NewPool_inv: "pool_inv (NewPool a b)"
  by (auto simp: pool_inv_def NewPool_def in_flight_def DefaultMaxQueue_def)

section \<open>Runs\<close>

definition sends :: "pool_label list \<Rightarrow> int" where
  "sends ls = countp (\<lambda>l. case l of LSend _ \<Rightarrow> True | _ \<Rightarrow> False) ls"

definition fulls :: "pool_label list \<Rightarrow> int" where
  "fulls ls = countp (\<lambda>l. case l of LFull _ \<Rightarrow> True | _ \<Rightarrow> False) ls"

definition accounted :: "Pool \<Rightarrow> int" where
  "accounted p = processed p + perrors p + int (length (q p)) + int (length (in_flight p))"

lemma length_in_flight_start:
  "drain_take w p = Some p' \<Longrightarrow> int (length (in_flight p')) + int (length (q p')) = int (length (in_flight p)) + int (length (q p))"
proof -
  assume t: "drain_take w p = Some p'"
  then obtain j rest where q: "q p = j # rest" "p' = p\<lparr>q := rest, workers := (workers p)[w := Running j]\<rparr>"
    and w: "w < length (workers p)" "workers p ! w = Idle"
    by (auto simp: drain_take_def split: if_splits list.splits)
  have "size (mset (in_flight p')) = size (mset (in_flight p)) + 1"
    using in_flight_start [OF w, of j] by (simp add: q in_flight_def del: size_mset)
  then show ?thesis by (simp add: q)
qed

lemma pool_step_account:
  assumes "pool_step p l p'"
  shows "accounted p' = accounted p + sends [l] \<and> pdropped p' = pdropped p + fulls [l]"
  using assms
proof (induction rule: pool_step.induct)
  case (take_job w p p')
  with length_in_flight_start [OF take_job] take_effect [OF take_job] show ?case
    by (auto simp: accounted_def sends_def fulls_def)
next
  case (finish w panics p p')
  from finish_effect [OF finish] have "q p' = q p" "pdropped p' = pdropped p"
    "processed p' + perrors p' = processed p + perrors p + 1" "length (in_flight p) = length (in_flight p') + 1" by auto
  then show ?case by (simp add: accounted_def sends_def fulls_def)
next
  case (claim key p p')
  from claim_effect [OF claim] show ?case by (auto simp: accounted_def sends_def fulls_def in_flight_def)
next
  case (send key p p')
  from send_effect [OF send] show ?case by (auto simp: accounted_def sends_def fulls_def in_flight_def)
next
  case (full key p p')
  from full_effect [OF full] show ?case by (auto simp: accounted_def sends_def fulls_def in_flight_def)
next
  case (leave w p p')
  from exit_effect [OF leave] show ?case by (auto simp: accounted_def sends_def fulls_def)
qed (auto simp: accounted_def sends_def fulls_def Stop_flag_def Stop_cancel_def in_flight_def)

lemma pool_run_facts:
  assumes "pool_run p ls p'" "pool_inv p"
  shows "pool_inv p' \<and> accounted p' = accounted p + sends ls \<and> pdropped p' = pdropped p + fulls ls"
  using assms
proof (induction rule: pool_run.induct)
  case (run_step p ls p1 l p2)
  with pool_step_inv [OF run_step(2)] pool_step_account [OF run_step(2)] show ?case
    by (simp add: sends_def fulls_def)
qed (simp add: sends_def fulls_def)

text \<open>
  C15: in every interleaving of callers, workers and shutdown, no key is claimed, queued or running
  twice, the pending set is exactly those keys, the queue is within its bound, every job that was
  accepted is queued, running, processed or counted as an error, and every job the full queue
  refused is counted as dropped.
\<close>

theorem pool_accounts_every_job:
  assumes "pool_run (NewPool maxQueue nworkers) ls p"
  shows "distinct (claiming p @ q p @ in_flight p) \<and> ppending p = set (claiming p @ q p @ in_flight p)
     \<and> int (length (q p)) \<le> qcap p
     \<and> sends ls = processed p + perrors p + int (length (q p)) + int (length (in_flight p))
     \<and> fulls ls = pdropped p"
proof -
  have "accounted (NewPool maxQueue nworkers) = 0" "pdropped (NewPool maxQueue nworkers) = 0"
    by (simp_all add: accounted_def NewPool_def in_flight_def)
  with pool_run_facts [OF assms NewPool_inv] show ?thesis by (auto simp: pool_inv_def accounted_def)
qed

theorem pool_accounts_every_job_witness:
  "\<exists>p. pool_run (NewPool 1 1) ([] @ [LClaim ''k'']) p \<and> ppending p = {''k''}"
proof -
  define p where "p = snd (enqueue_claim ''k'' (NewPool 1 1))"
  have "enqueue_claim ''k'' (NewPool 1 1) = (True, p)" by (simp add: p_def enqueue_claim_def NewPool_def)
  then have r: "pool_run (NewPool 1 1) ([] @ [LClaim ''k'']) p" by (intro pool_run.run_step [OF pool_run.run_refl] pool_step.claim)
  moreover have "claiming p = [''k'']" "q p = []" "in_flight p = []"
    by (simp_all add: p_def enqueue_claim_def NewPool_def in_flight_def)
  ultimately show ?thesis using pool_accounts_every_job [OF r] by auto
qed

section \<open>Progress\<close>

text \<open>
  The steps that move a claimed job on, and a measure they use up: a claim is worth three of them
  (send or refuse, take, finish).
\<close>

fun moves_job :: "pool_label \<Rightarrow> bool" where
  "moves_job (LSend _) = True"
| "moves_job (LFull _) = True"
| "moves_job (LTake _) = True"
| "moves_job (LDone _ _) = True"
| "moves_job _ = False"

fun is_claim :: "pool_label \<Rightarrow> bool" where
  "is_claim (LClaim _) = True"
| "is_claim _ = False"

definition work_left :: "Pool \<Rightarrow> int" where
  "work_left p = 3 * int (length (claiming p)) + 2 * int (length (q p)) + int (length (in_flight p))"

lemma pool_step_work:
  assumes "pool_step p l p'"
  shows "work_left p' + (if moves_job l then 1 else 0) \<le> work_left p + (if is_claim l then 3 else 0)"
  using assms
proof (induction rule: pool_step.induct)
  case (claim key p p')
  from claim_effect [OF claim] show ?case by (auto simp: work_left_def in_flight_def)
next
  case (send key p p')
  from send_effect [OF send] int_length_remove1 [OF send(1)] show ?case by (auto simp: work_left_def in_flight_def)
next
  case (full key p p')
  from full_effect [OF full] int_length_remove1 [OF full(1)] show ?case by (auto simp: work_left_def in_flight_def)
next
  case (take_job w p p')
  from take_effect [OF take_job] have "int (length (q p)) = int (length (q p')) + 1" "claiming p' = claiming p" by auto
  with length_in_flight_start [OF take_job] show ?case by (simp add: work_left_def)
next
  case (finish w panics p p')
  from finish_effect [OF finish] have "q p' = q p" "claiming p' = claiming p" "length (in_flight p) = length (in_flight p') + 1"
    by auto
  then show ?case by (simp add: work_left_def)
next
  case (leave w p p')
  from exit_effect [OF leave] show ?case by (auto simp: work_left_def)
qed (auto simp: work_left_def Stop_flag_def Stop_cancel_def in_flight_def)

lemma pool_run_work:
  "pool_run p ls p' \<Longrightarrow>
   work_left p' + int (length (filter moves_job ls)) \<le> work_left p + 3 * int (length (filter is_claim ls))"
proof (induction rule: pool_run.induct)
  case (run_step p ls p1 l p2)
  with pool_step_work [OF run_step(2)] show ?case by (auto split: if_splits)
qed simp

lemma running_in_flight: "w < length (workers p) \<Longrightarrow> workers p ! w = Running j \<Longrightarrow> j \<in> set (in_flight p)"
  by (force simp: in_flight_def in_set_conv_nth)

lemma caller_moves: "key \<in> set (claiming p) \<Longrightarrow> \<exists>p'. pool_step p (LSend key) p' \<or> pool_step p (LFull key) p'"
  using pool_step.send [of key p] pool_step.full [of key p] by (metis (full_types) surj_pair)

text \<open>With no such step left, either nothing is pending or every worker has left.\<close>

lemma stuck_is_empty:
  assumes "pool_inv p" "\<And>l p'. moves_job l \<Longrightarrow> \<not> pool_step p l p'" "w < length (workers p)" "workers p ! w \<noteq> Exited"
  shows "ppending p = {}"
proof -
  have c: "claiming p = []" using caller_moves assms(2) by (metis list.set_intros(1) moves_job.simps(1,2) neq_Nil_conv)
  have run: "workers p ! v \<noteq> Running j" if v: "v < length (workers p)" for v j
  proof
    assume "workers p ! v = Running j"
    with v have "runOne v True p \<noteq> None" by (simp add: runOne_def Let_def)
    with pool_step.finish [of v True p] assms(2) [of "LDone v True"] show False by auto
  qed
  then have f: "in_flight p = []"
    by (auto simp: in_flight_def in_set_conv_nth) (metis job_of.simps(2,3) worker.exhaust)
  have "workers p ! w = Idle" using run [OF assms(3)] assms(4) by (cases "workers p ! w") auto
  then have "q p = []"
    using assms(2) [of "LTake w"] assms(3) pool_step.take_job [of w p] by (cases "q p") (auto simp: drain_take_def)
  with c f assms(1) show ?thesis by (simp add: pool_inv_def)
qed

text \<open>What the end of a job leaves, whether it returned or panicked.\<close>

lemma done_leaves:
  assumes "pool_inv p" "pool_step p (LDone w b) p'"
  shows "\<exists>j. workers p ! w = Running j \<and> j \<in> ppending p \<and> ppending p' = ppending p - {j} \<and> (started p \<longrightarrow> fst (enqueue_claim j p'))
     \<and> workers p' = (workers p)[w := Idle] \<and> q p' = q p \<and> (q p \<noteq> [] \<longrightarrow> drain_take w p' \<noteq> None)
     \<and> perrors p' = perrors p + (if b then 1 else 0) \<and> processed p' = processed p + (if b then 0 else 1)"
proof -
  have "runOne w b p = Some p'" using assms(2) by (auto elim: pool_step.cases)
  then obtain j where w: "w < length (workers p)" "workers p ! w = Running j"
    and p': "p' = (if b then p\<lparr>ppending := ppending p - {j}, workers := (workers p)[w := Idle], perrors := perrors p + 1\<rparr>
                else p\<lparr>ppending := ppending p - {j}, workers := (workers p)[w := Idle], processed := processed p + 1\<rparr>)"
    by (auto simp: runOne_def Let_def split: if_splits worker.splits)
  have "j \<in> ppending p" using running_in_flight [OF w] assms(1) by (simp add: pool_inv_def)
  with w show ?thesis by (auto simp: p' enqueue_claim_def drain_take_def split: list.split)
qed

lemma stopped_step: "pool_step a l b \<Longrightarrow> \<not> started a \<Longrightarrow> \<not> started b \<and> \<not> is_claim l"
proof (induction rule: pool_step.induct)
  case (claim key p p')
  with claim_effect [OF claim(1)] show ?case by simp
next
  case (send key p p')
  with send_effect [OF send(1,2)] show ?case by simp
next
  case (full key p p')
  with full_effect [OF full(1,2)] show ?case by simp
next
  case (take_job w p p')
  with take_effect [OF take_job(1)] show ?case by auto
next
  case (finish w panics p p')
  with finish_effect [OF finish(1)] show ?case by auto
next
  case (leave w p p')
  with exit_effect [OF leave(1)] show ?case by simp
qed (simp_all add: Stop_flag_def Stop_cancel_def)

lemma stopped_run: "pool_run a ls b \<Longrightarrow> \<not> started a \<Longrightarrow> \<not> started b \<and> filter is_claim ls = []"
  by (induction rule: pool_run.induct) (use stopped_step in auto)

text \<open>
  C27: no claimed job is stuck. In every interleaving of callers, workers and shutdown: a job that
  ends, whether it returned or panicked, gives its key back (a caller can claim the key again unless
  the pool was stopped) and leaves its worker free for the next queued job, and the two endings differ
  only in which counter moves; a caller that holds a claim can always send or be refused, without
  waiting for anyone; each claim is followed by at most three steps (send or refuse, take, finish), so
  the pool comes to rest once the claims cease, as they do after \<open>Stop\<close>; and at rest no key is pending,
  unless every worker has left (which takes a cancelled context, and abandons what is still queued).
\<close>

theorem pool_never_blocks:
  assumes "pool_run (NewPool maxQueue nworkers) ls p"
  shows "(pool_step p (LDone w b) p' \<longrightarrow>
        (\<exists>j. workers p ! w = Running j \<and> j \<in> ppending p \<and> ppending p' = ppending p - {j} \<and> (started p \<longrightarrow> fst (enqueue_claim j p'))
           \<and> workers p' = (workers p)[w := Idle] \<and> q p' = q p \<and> (q p \<noteq> [] \<longrightarrow> drain_take w p' \<noteq> None)
           \<and> perrors p' = perrors p + (if b then 1 else 0) \<and> processed p' = processed p + (if b then 0 else 1)))
   \<and> (key \<in> set (claiming p) \<longrightarrow> (\<exists>p'. pool_step p (LSend key) p' \<or> pool_step p (LFull key) p'))
   \<and> length (filter moves_job ls) \<le> 3 * length (filter is_claim ls)
   \<and> (\<not> started p \<and> pool_run p ls2 p'' \<longrightarrow>
        filter is_claim ls2 = [] \<and> \<not> started p'' \<and> int (length (filter moves_job ls2)) \<le> work_left p)
   \<and> ((\<forall>l p'. moves_job l \<longrightarrow> \<not> pool_step p l p') \<and> (\<exists>v < length (workers p). workers p ! v \<noteq> Exited) \<longrightarrow> ppending p = {})"
proof -
  have inv: "pool_inv p" using pool_run_facts [OF assms NewPool_inv] by simp
  have "work_left (NewPool maxQueue nworkers) = 0" "0 \<le> work_left p" "0 \<le> work_left p''"
    by (simp_all add: work_left_def NewPool_def in_flight_def)
  with pool_run_work [OF assms] pool_run_work [of p ls2 p''] stopped_run [of p ls2 p'']
  have w: "length (filter moves_job ls) \<le> 3 * length (filter is_claim ls)"
    "\<not> started p \<Longrightarrow> pool_run p ls2 p'' \<Longrightarrow> filter is_claim ls2 = [] \<and> \<not> started p'' \<and> int (length (filter moves_job ls2)) \<le> work_left p"
    by auto
  show ?thesis using done_leaves [OF inv] caller_moves stuck_is_empty [OF inv] w by blast
qed

theorem pool_never_blocks_witness:
  "\<exists>p p'. pool_run (NewPool 1 1) [LClaim ''k'', LSend ''k'', LTake 0] p \<and> pool_step p (LDone 0 True) p'
     \<and> ''k'' \<in> ppending p \<and> ppending p' = {} \<and> fst (enqueue_claim ''k'' p') \<and> perrors p' = 1"
proof -
  define p0 where "p0 = NewPool 1 1"
  define p1 where "p1 = snd (enqueue_claim ''k'' p0)"
  define p2 where "p2 = snd (enqueue_send ''k'' p1)"
  define p where "p = the (drain_take 0 p2)"
  define p' where "p' = the (runOne 0 True p)"
  note d = p0_def p1_def p2_def p_def p'_def NewPool_def enqueue_claim_def enqueue_send_def drain_take_def runOne_def Let_def
  have "pool_step p0 (LClaim ''k'') p1" by (rule pool_step.claim) (simp add: d)
  moreover have "pool_step p1 (LSend ''k'') p2" by (rule pool_step.send) (simp_all add: d)
  moreover have "pool_step p2 (LTake 0) p" by (rule pool_step.take_job) (simp add: d)
  ultimately have r: "pool_run p0 ((([] @ [LClaim ''k'']) @ [LSend ''k'']) @ [LTake 0]) p"
    using pool_run.run_refl [of p0] pool_run.run_step by blast
  have e: "pool_step p (LDone 0 True) p'" by (rule pool_step.finish) (simp add: d)
  have s: "workers p ! 0 = Running ''k''" "ppending p = {''k''}" "started p" "perrors p = 0" by (simp_all add: d)
  from pool_never_blocks [OF r [unfolded p0_def], of 0 True p'] e s
  have "ppending p' = {}" "fst (enqueue_claim ''k'' p')" "perrors p' = 1" by auto
  with r e s show ?thesis unfolding p0_def by auto
qed

end
