(* ===== verification/Utf8_Runes.thy ===== *)
theory Utf8_Runes
  imports Go_Prelude
begin

text \<open>
  Go's view of a string as UTF-8 (package \<open>unicode/utf8\<close> and the conversion \<open>[]rune(s)\<close>): the
  bytes of one code point, with every byte that starts no well-formed sequence a rune of its own.
  A rune is represented by its bytes; a rune that came from an invalid byte is rendered back as
  U+FFFD.
\<close>

definition byte :: "char \<Rightarrow> nat" where "byte c = of_char c"

definition in_range :: "nat \<Rightarrow> nat \<Rightarrow> char \<Rightarrow> bool" where
  "in_range lo hi c \<longleftrightarrow> lo \<le> byte c \<and> byte c \<le> hi"

text \<open>The number of bytes of the first rune when it is well formed.\<close>

fun rune_len :: "string \<Rightarrow> nat option" where
  "rune_len [] = None"
| "rune_len (b # rest) =
     (if byte b < 0x80 then Some 1
      else if in_range 0xC2 0xDF b then
        (case rest of c # _ \<Rightarrow> if in_range 0x80 0xBF c then Some 2 else None | [] \<Rightarrow> None)
      else if in_range 0xE0 0xEF b then
        (case rest of
           c # d # _ \<Rightarrow>
             if in_range (if byte b = 0xE0 then 0xA0 else 0x80) (if byte b = 0xED then 0x9F else 0xBF) c \<and> in_range 0x80 0xBF d
             then Some 3 else None
         | _ \<Rightarrow> None)
      else if in_range 0xF0 0xF4 b then
        (case rest of
           c # d # e # _ \<Rightarrow>
             if in_range (if byte b = 0xF0 then 0x90 else 0x80) (if byte b = 0xF4 then 0x8F else 0xBF) c
                \<and> in_range 0x80 0xBF d \<and> in_range 0x80 0xBF e
             then Some 4 else None
         | _ \<Rightarrow> None)
      else None)"

lemma rune_len_bound: "rune_len s = Some n \<Longrightarrow> 1 \<le> n \<and> n \<le> length s"
  by (induction s rule: rune_len.induct) (auto split: if_splits list.splits)

text \<open>The runes of a string, each as its bytes with a flag for well-formedness.\<close>

function decode_runes :: "string \<Rightarrow> (bool \<times> string) list" where
  "decode_runes [] = []"
| "decode_runes (b # rest) =
     (case rune_len (b # rest) of
        Some n \<Rightarrow> (True, take n (b # rest)) # decode_runes (drop n (b # rest))
      | None \<Rightarrow> (False, [b]) # decode_runes rest)"
  by pat_completeness auto
termination
  by (relation "measure length") (auto simp del: rune_len.simps dest!: rune_len_bound)

definition valid_string :: "string \<Rightarrow> bool" where
  "valid_string s \<longleftrightarrow> list_all fst (decode_runes s)"

text \<open>\<open>[]rune(s)\<close>, and \<open>string(rs)\<close>; \<open>rune_count\<close> is \<open>utf8.RuneCountInString\<close>.\<close>

definition runes :: "string \<Rightarrow> string list" where
  "runes s = map (\<lambda>(ok, bs). if ok then bs else [CHR 0xEF, CHR 0xBF, CHR 0xBD]) (decode_runes s)"

definition rune_count :: "string \<Rightarrow> int" where
  "rune_count s = int (length (decode_runes s))"

definition of_runes :: "string list \<Rightarrow> string" where
  "of_runes rs = concat rs"

lemma concat_decode_runes: "concat (map snd (decode_runes s)) = s"
proof (induction s rule: decode_runes.induct)
  case (2 b rest)
  show ?case
  proof (cases "rune_len (b # rest)")
    case (Some n)
    with 2 show ?thesis by (simp del: rune_len.simps)
  next
    case None
    with 2 show ?thesis by (simp del: rune_len.simps)
  qed
qed simp

lemma of_runes_runes: "valid_string s \<Longrightarrow> of_runes (runes s) = s"
proof -
  assume "valid_string s"
  then have "runes s = map snd (decode_runes s)"
    by (auto simp: valid_string_def runes_def list_all_iff)
  then show ?thesis using concat_decode_runes by (simp add: of_runes_def)
qed

lemma decode_runes_length: "length (decode_runes s) \<le> length s"
proof (induction s rule: decode_runes.induct)
  case (2 b rest)
  show ?case
  proof (cases "rune_len (b # rest)")
    case (Some n)
    with 2 rune_len_bound [OF Some] show ?thesis by (auto simp del: rune_len.simps)
  next
    case None
    with 2 show ?thesis by (simp del: rune_len.simps)
  qed
qed simp

lemma decode_runes_piece: "r \<in> set (decode_runes s) \<Longrightarrow> snd r \<noteq> []"
proof (induction s rule: decode_runes.induct)
  case (2 b rest)
  show ?case
  proof (cases "rune_len (b # rest)")
    case (Some n)
    with 2 rune_len_bound [OF Some] show ?thesis by (auto simp del: rune_len.simps)
  next
    case None
    with 2 show ?thesis by (auto simp del: rune_len.simps)
  qed
qed simp

lemma ascii_runes: "list_all (\<lambda>c. byte c < 0x80) s \<Longrightarrow> decode_runes s = map (\<lambda>c. (True, [c])) s"
  by (induction s) auto

lemma rune_count_nonneg [simp]: "0 \<le> rune_count s"
  by (simp add: rune_count_def)

lemma length_runes: "int (length (runes s)) = rune_count s"
  by (simp add: runes_def rune_count_def)

section \<open>Strings built of runes\<close>

definition whole_rune :: "string \<Rightarrow> bool" where
  "whole_rune r \<longleftrightarrow> rune_len r = Some (length r)"

lemma rune_len_prefix: "rune_len s = Some n \<Longrightarrow> rune_len (take n s @ t) = Some n"
  by (cases s rule: rune_len.cases) (auto split: if_splits list.splits)

lemma whole_rune_append: "whole_rune r \<Longrightarrow> rune_len (r @ t) = Some (length r)"
  using rune_len_prefix [of r "length r" t] by (simp add: whole_rune_def)

lemma decode_whole: "whole_rune r \<Longrightarrow> decode_runes (r @ t) = (True, r) # decode_runes t"
proof -
  assume "whole_rune r"
  then have n: "rune_len (r @ t) = Some (length r)" by (rule whole_rune_append)
  then obtain b rest where s: "r @ t = b # rest" using rune_len_bound [OF n] by (cases "r @ t") auto
  have "take (length r) (b # rest) = r" "drop (length r) (b # rest) = t" by (simp_all flip: s)
  with n show ?thesis unfolding s by (simp del: rune_len.simps)
qed

lemma decode_concat: "list_all whole_rune rs \<Longrightarrow> decode_runes (concat rs) = map (Pair True) rs"
  by (induction rs) (simp_all add: decode_whole)

lemma decode_pieces_whole: "(True, r) \<in> set (decode_runes s) \<Longrightarrow> whole_rune r"
proof (induction s rule: decode_runes.induct)
  case (2 b rest)
  show ?case
  proof (cases "rune_len (b # rest)")
    case (Some n)
    have "whole_rune (take n (b # rest))"
      using rune_len_prefix [OF Some, of "[]"] rune_len_bound [OF Some] by (simp add: whole_rune_def)
    with 2 Some show ?thesis by auto
  qed (use 2 in auto)
qed simp

lemma runes_whole: "list_all whole_rune (runes s)"
proof -
  have "whole_rune [CHR 0xEF, CHR 0xBF, CHR 0xBD]" by code_simp
  then show ?thesis using decode_pieces_whole [of _ s] by (auto simp: runes_def list_all_iff)
qed

lemma rune_count_concat: "list_all whole_rune rs \<Longrightarrow> rune_count (concat rs) = int (length rs)"
  by (simp add: rune_count_def decode_concat)

lemma ascii_whole: "list_all (\<lambda>c. byte c < 0x80) s \<Longrightarrow> list_all whole_rune (map (\<lambda>c. [c]) s)"
  by (simp add: list_all_iff whole_rune_def)

lemma concat_singletons: "concat (map (\<lambda>c. [c]) s) = s"
  by (induction s) auto

end
