(* ===== verification/Chat_Schema.thy ===== *)
theory Chat_Schema
  imports Utf8_Runes
begin

text \<open>
  The message toolbox of \<open>src/schema\<close>: the text of a message, rewriting it, cloning a transcript,
  the canonical form, pairing tool results with their calls, and the shape validator. The message
  type is bifrost's, which the repository only uses: a message has the fields the code reads, and
  the payload of a field the code only tests for presence is an opaque string. Values have no
  aliases here, so a clone is about content and positions. The JSON round trip and the deep copy
  behind \<open>CloneMessages\<close>, and the token counter, are arguments.
\<close>

section \<open>Messages\<close>

record block =
  btype :: string
  btext :: "string option"
  refusal :: "string option"
  imageURL :: "string option"
  inputAudio :: "string option"
  fileRef :: "string option"
  cacheControl :: "string option"
  citations :: "string option"
  cachePoint :: "string option"

record content =
  contentStr :: "string option"
  contentBlocks :: "block list option"

record call =
  call_id :: "string option"
  fn_name :: "string option"
  fn_args :: string

record message =
  role :: string
  name :: "string option"
  content :: "content option"
  toolMsg :: "string option option"
  asstMsg :: "call list option"

definition RoleSystem :: string where "RoleSystem = ''system''"
definition RoleUser :: string where "RoleUser = ''user''"
definition RoleAssistant :: string where "RoleAssistant = ''assistant''"
definition RoleTool :: string where "RoleTool = ''tool''"
definition TypeText :: string where "TypeText = ''text''"

definition LookbackBlocks :: int where "LookbackBlocks = 20"
definition MaxBreakpoints :: int where "MaxBreakpoints = 4"

definition blocks_of :: "content \<Rightarrow> block list" where
  "blocks_of c = (case contentBlocks c of None \<Rightarrow> [] | Some bs \<Rightarrow> bs)"

definition BlockText :: "block \<Rightarrow> string" where
  "BlockText b = (case btext b of Some t \<Rightarrow> t | None \<Rightarrow> [])"

text \<open>\<open>MessageText\<close>, with the one-block shortcut of the code.\<close>

definition MessageText :: "message \<Rightarrow> string" where
  "MessageText m =
     (case content m of
        None \<Rightarrow> []
      | Some c \<Rightarrow>
          (case contentStr c of
             Some s \<Rightarrow> s
           | None \<Rightarrow>
               (case blocks_of c of
                  [b] \<Rightarrow> BlockText b
                | bs \<Rightarrow> concat (map BlockText bs))))"

definition SetMessageText :: "message \<Rightarrow> string \<Rightarrow> message" where
  "SetMessageText m text = m\<lparr>content := Some \<lparr>contentStr = Some text, contentBlocks = None\<rparr>\<rparr>"

definition Rewritable :: "message \<Rightarrow> bool" where
  "Rewritable m =
     (case content m of
        None \<Rightarrow> True
      | Some c \<Rightarrow> if contentStr c \<noteq> None then True
                 else list_all (\<lambda>b. btype b = TypeText \<or> btype b = []) (blocks_of c))"

fun SessionHead_loop :: "message list \<Rightarrow> string \<Rightarrow> string \<Rightarrow> string \<times> string" where
  "SessionHead_loop [] sys firstUser = (sys, firstUser)"
| "SessionHead_loop (m # ms) sys firstUser =
     (if role m = RoleSystem then SessionHead_loop ms (if sys = [] then MessageText m else sys) firstUser
      else if role m = RoleUser then SessionHead_loop ms sys (if firstUser = [] then MessageText m else firstUser)
      else SessionHead_loop ms sys firstUser)"

definition SessionHead :: "message list \<Rightarrow> string \<times> string" where
  "SessionHead msgs = SessionHead_loop msgs [] []"

definition MessagesTokens :: "(string \<Rightarrow> int) \<Rightarrow> message list \<Rightarrow> int" where
  "MessagesTokens cnt msgs = sum_list (map (\<lambda>m. cnt (MessageText m)) msgs)"

section \<open>Cloning\<close>

definition clonePlainText :: "message \<Rightarrow> message option" where
  "clonePlainText m =
     (if name m \<noteq> None \<or> toolMsg m \<noteq> None \<or> asstMsg m \<noteq> None then None
      else case content m of
             None \<Rightarrow> None
           | Some c \<Rightarrow>
               (case contentStr c of
                  None \<Rightarrow> None
                | Some s \<Rightarrow>
                    if contentBlocks c \<noteq> None \<or> \<not> valid_string s \<or> \<not> valid_string (role m) then None
                    else Some \<lparr>role = role m, name = None,
                               content = Some \<lparr>contentStr = Some s, contentBlocks = None\<rparr>,
                               toolMsg = None, asstMsg = None\<rparr>))"

text \<open>The messages that need the round trip, by position, and the positions they go back to.\<close>

fun slow_indices :: "nat \<Rightarrow> message list \<Rightarrow> nat list" where
  "slow_indices i [] = []"
| "slow_indices i (m # ms) =
     (case clonePlainText m of Some _ \<Rightarrow> slow_indices (i + 1) ms | None \<Rightarrow> i # slow_indices (i + 1) ms)"

definition empty_message :: message where
  "empty_message = \<lparr>role = [], name = None, content = None, toolMsg = None, asstMsg = None\<rparr>"

fun put_back :: "(nat \<times> message) list \<Rightarrow> message list \<Rightarrow> message list" where
  "put_back [] out = out"
| "put_back ((i, m) # rest) out = put_back rest (out[i := m])"

definition CloneMessages :: "(message list \<Rightarrow> message list) \<Rightarrow> message list \<Rightarrow> message list" where
  "CloneMessages cloneViaJSON ms =
     (let out = map (\<lambda>m. case clonePlainText m of Some c \<Rightarrow> c | None \<Rightarrow> empty_message) ms;
          slow = slow_indices 0 ms
      in if slow = [] then out
         else put_back (zip slow (cloneViaJSON (map (\<lambda>i. ms ! i) slow))) out)"

section \<open>Canonical form\<close>

definition plainText :: "block \<Rightarrow> bool" where
  "plainText b \<longleftrightarrow> btype b = TypeText \<and> btext b \<noteq> None \<and> refusal b = None \<and> imageURL b = None \<and> inputAudio b = None
     \<and> fileRef b = None \<and> citations b = None \<and> cachePoint b = None"

definition CanonicalMessage :: "message \<Rightarrow> message" where
  "CanonicalMessage m =
     (case content m of
        None \<Rightarrow> m
      | Some c \<Rightarrow>
          (let blocks = blocks_of c in
           if blocks = [] then m
           else if length blocks = 1 \<and> plainText (hd blocks)
           then m\<lparr>content := Some \<lparr>contentStr = Some (the (btext (hd blocks))), contentBlocks = None\<rparr>\<rparr>
           else if \<not> list_ex (\<lambda>b. cacheControl b \<noteq> None) blocks then m
           else m\<lparr>content := Some (c\<lparr>contentBlocks := Some (map (\<lambda>b. b\<lparr>cacheControl := None\<rparr>) blocks)\<rparr>)\<rparr>))"

text \<open>The decoded JSON of a wire message, for \<open>CanonicalWireMessage\<close>.\<close>

datatype json = JNull | JBool bool | JNum string | JStr string | JArr "json list" | JObj "(string \<times> json) list"

fun dropCacheControl :: "json \<Rightarrow> json" where
  "dropCacheControl (JObj kvs) =
     JObj (map (\<lambda>(k, x). (k, dropCacheControl x)) (filter (\<lambda>(k, _). k \<noteq> ''cache_control'') kvs))"
| "dropCacheControl (JArr xs) = JArr (map dropCacheControl xs)"
| "dropCacheControl v = v"

definition collapseTextContent :: "(string \<times> json) list \<Rightarrow> (string \<times> json) list" where
  "collapseTextContent m =
     (case map_of m ''content'' of
        Some (JArr [JObj blk]) \<Rightarrow>
          if length blk \<noteq> 2 \<or> map_of blk ''type'' \<noteq> Some (JStr ''text'') then m
          else (case map_of blk ''text'' of
                  Some (JStr s) \<Rightarrow> AList.update ''content'' (JStr s) m
                | _ \<Rightarrow> m)
      | _ \<Rightarrow> m)"

definition collapse_tool_result :: "json \<Rightarrow> json" where
  "collapse_tool_result x =
     (case x of
        JObj blk \<Rightarrow> if map_of blk ''type'' = Some (JStr ''tool_result'') then JObj (collapseTextContent blk) else x
      | _ \<Rightarrow> x)"

definition canonical_wire :: "json \<Rightarrow> json" where
  "canonical_wire v =
     (case dropCacheControl v of
        JObj m \<Rightarrow>
          (let m = collapseTextContent m in
           case map_of m ''content'' of
             Some (JArr blocks) \<Rightarrow> JObj (AList.update ''content'' (JArr (map collapse_tool_result blocks)) m)
           | _ \<Rightarrow> JObj m)
      | w \<Rightarrow> w)"

section \<open>Tool results and their calls\<close>

record ToolCall =
  tool_name :: string
  tool_args :: string

fun collect_calls :: "call list \<Rightarrow> (string \<rightharpoonup> ToolCall) \<Rightarrow> (string \<rightharpoonup> ToolCall)" where
  "collect_calls [] byID = byID"
| "collect_calls (tc # tcs) byID =
     collect_calls tcs
       (case call_id tc of
          None \<Rightarrow> byID
        | Some i \<Rightarrow> if i = [] then byID
                    else byID(i \<mapsto> \<lparr>tool_name = (case fn_name tc of Some n \<Rightarrow> n | None \<Rightarrow> []), tool_args = fn_args tc\<rparr>))"

fun ToolCalls_loop :: "nat \<Rightarrow> message list \<Rightarrow> (string \<rightharpoonup> ToolCall) \<Rightarrow> (nat \<times> ToolCall) list" where
  "ToolCalls_loop i [] byID = []"
| "ToolCalls_loop i (m # ms) byID =
     (let byID = (case asstMsg m of None \<Rightarrow> byID | Some tcs \<Rightarrow> collect_calls tcs byID);
          rest = ToolCalls_loop (i + 1) ms byID
      in if role m \<noteq> RoleTool then rest
         else case toolMsg m of
                Some (Some tid) \<Rightarrow> (case byID tid of Some tc \<Rightarrow> (i, tc) # rest | None \<Rightarrow> rest)
              | _ \<Rightarrow> rest)"

definition ToolCalls :: "message list \<Rightarrow> nat \<rightharpoonup> ToolCall" where
  "ToolCalls msgs = map_of (ToolCalls_loop 0 msgs Map.empty)"

section \<open>The shape validator\<close>

datatype shape_rule = RuleSystemPosition | RuleAnsweredToolUse string | RulePairedToolResult string | RuleNonEmptyContent

type_synonym ShapeViolation = "nat \<times> shape_rule"

definition contentPresentButBlank :: "message \<Rightarrow> bool" where
  "contentPresentButBlank m =
     (if content m = None \<or> role m = RoleTool then False
      else if (case asstMsg m of Some tcs \<Rightarrow> tcs \<noteq> [] | None \<Rightarrow> False) then False
      else Rewritable m \<and> trim_space (MessageText m) = [])"

definition systemPositionOK :: "message list \<Rightarrow> nat \<Rightarrow> bool" where
  "systemPositionOK msgs i = (if i + 1 = length msgs then True else role (msgs ! (i + 1)) = RoleAssistant)"

definition tool_id :: "message \<Rightarrow> string option" where
  "tool_id m = (case toolMsg m of Some (Some tid) \<Rightarrow> Some tid | _ \<Rightarrow> None)"

text \<open>The ids of the tool results that may answer a call just before position \<open>from\<close>.\<close>

definition answeredInRun :: "message list \<Rightarrow> nat \<Rightarrow> int list option \<Rightarrow> string list" where
  "answeredInRun msgs from groups =
     (case groups of
        Some gs \<Rightarrow>
          if from < length gs
          then List.map_filter (\<lambda>(m, _). tool_id m)
                 (takeWhile (\<lambda>(_, g). g = gs ! from) (zip (drop from msgs) (drop from gs)))
          else List.map_filter tool_id (takeWhile (\<lambda>m. role m = RoleTool) (drop from msgs))
      | None \<Rightarrow> List.map_filter tool_id (takeWhile (\<lambda>m. role m = RoleTool) (drop from msgs)))"

definition call_ids :: "message \<Rightarrow> string list" where
  "call_ids m =
     (case asstMsg m of
        None \<Rightarrow> []
      | Some tcs \<Rightarrow> List.map_filter (\<lambda>tc. case call_id tc of Some i \<Rightarrow> if i = [] then None else Some i | None \<Rightarrow> None) tcs)"

definition violations_at ::
  "bool \<Rightarrow> message list \<Rightarrow> int list option \<Rightarrow> nat \<Rightarrow> string set \<Rightarrow> ShapeViolation list" where
  "violations_at anthropic msgs groups i seen =
     (let m = msgs ! i in
      (if anthropic \<and> role m = RoleSystem \<and> i \<noteq> 0 \<and> \<not> systemPositionOK msgs i then [(i, RuleSystemPosition)] else [])
      @ (if anthropic \<and> contentPresentButBlank m then [(i, RuleNonEmptyContent)] else [])
      @ (case tool_id m of
           Some tid \<Rightarrow> if role m = RoleTool \<and> tid \<noteq> [] \<and> tid \<notin> seen then [(i, RulePairedToolResult tid)] else []
         | None \<Rightarrow> [])
      @ map (\<lambda>c. (i, RuleAnsweredToolUse c))
          (filter (\<lambda>c. c \<notin> set (answeredInRun msgs (i + 1) groups)) (call_ids m)))"

text \<open>The loop of \<open>ValidateShapeGrouped\<close>; \<open>seen\<close> is the map \<open>seenCall\<close>.\<close>

fun validate_loop :: "bool \<Rightarrow> message list \<Rightarrow> int list option \<Rightarrow> nat list \<Rightarrow> string set \<Rightarrow> ShapeViolation list" where
  "validate_loop anthropic msgs groups [] seen = []"
| "validate_loop anthropic msgs groups (i # is) seen =
     violations_at anthropic msgs groups i seen
     @ validate_loop anthropic msgs groups is (seen \<union> set (call_ids (msgs ! i)))"

definition ValidateShapeGrouped :: "string \<Rightarrow> message list \<Rightarrow> int list option \<Rightarrow> ShapeViolation list" where
  "ValidateShapeGrouped provider msgs groups =
     (let groups = (case groups of Some gs \<Rightarrow> if length gs \<noteq> length msgs then None else Some gs | None \<Rightarrow> None)
      in validate_loop (provider = ''anthropic'') msgs groups [0..<length msgs] {})"

definition ValidateShapeFor :: "string \<Rightarrow> message list \<Rightarrow> ShapeViolation list" where
  "ValidateShapeFor provider msgs = ValidateShapeGrouped provider msgs None"

definition ValidateShape :: "message list \<Rightarrow> ShapeViolation list" where
  "ValidateShape msgs = ValidateShapeFor ''anthropic'' msgs"

section \<open>Text and canonical form\<close>

lemma MessageText_concat:
  "content m = Some c \<Longrightarrow> contentStr c = None \<Longrightarrow> MessageText m = concat (map BlockText (blocks_of c))"
  by (auto simp: MessageText_def split: list.split)

lemma MessageText_Set [simp]: "MessageText (SetMessageText m t) = t"
  by (simp add: MessageText_def SetMessageText_def)

lemma SetMessageText_frame [simp]:
  "role (SetMessageText m t) = role m" "name (SetMessageText m t) = name m" "toolMsg (SetMessageText m t) = toolMsg m"
  "asstMsg (SetMessageText m t) = asstMsg m" "Rewritable (SetMessageText m t)" "tool_id (SetMessageText m t) = tool_id m"
  "call_ids (SetMessageText m t) = call_ids m"
  by (simp_all add: SetMessageText_def Rewritable_def tool_id_def call_ids_def)

lemma CanonicalMessage_frame:
  "role (CanonicalMessage m) = role m \<and> name (CanonicalMessage m) = name m \<and> toolMsg (CanonicalMessage m) = toolMsg m
   \<and> asstMsg (CanonicalMessage m) = asstMsg m"
  by (simp add: CanonicalMessage_def Let_def split: option.split)

text \<open>A message whose content is a string or a list of blocks, never both, as the wire has it.\<close>

definition one_form :: "message \<Rightarrow> bool" where
  "one_form m = (case content m of Some c \<Rightarrow> contentStr c = None \<or> contentBlocks c = None | None \<Rightarrow> True)"

lemma BlockText_unmark [simp]: "BlockText (b\<lparr>cacheControl := x\<rparr>) = BlockText b"
  by (simp add: BlockText_def)

lemma BlockText_Some: "btext b = Some t \<Longrightarrow> BlockText b = t"
  by (simp add: BlockText_def)

lemma plainText_mark [simp]: "plainText (b\<lparr>cacheControl := x\<rparr>) = plainText b"
  by (simp add: plainText_def)

lemma CanonicalMessage_blocks:
  assumes "content m = Some c" "contentBlocks c = Some bs" "\<not> (length bs = 1 \<and> plainText (hd bs))"
  shows "CanonicalMessage m = m\<lparr>content := Some (c\<lparr>contentBlocks := Some (map (\<lambda>b. b\<lparr>cacheControl := None\<rparr>) bs)\<rparr>)\<rparr>"
proof (cases "list_ex (\<lambda>b. cacheControl b \<noteq> None) bs")
  case True
  then have "bs \<noteq> []" by auto
  with True assms show ?thesis by (auto simp: CanonicalMessage_def blocks_of_def Let_def)
next
  case False
  then have "map (\<lambda>b. b\<lparr>cacheControl := None\<rparr>) bs = bs" by (auto simp: list_ex_iff intro!: map_idI)
  moreover have "m\<lparr>content := Some (c\<lparr>contentBlocks := Some bs\<rparr>)\<rparr> = m" using assms by simp
  ultimately show ?thesis using False assms by (auto simp: CanonicalMessage_def blocks_of_def Let_def)
qed

lemma CanonicalMessage_text: "one_form m \<Longrightarrow> MessageText (CanonicalMessage m) = MessageText m"
proof (cases "content m")
  case None
  then show ?thesis by (simp add: CanonicalMessage_def)
next
  case (Some c)
  assume "one_form m"
  with Some have "blocks_of c \<noteq> [] \<longrightarrow> contentStr c = None" by (auto simp: one_form_def blocks_of_def split: option.splits)
  with Some show ?thesis
    by (cases "blocks_of c" rule: list.exhaust; cases "tl (blocks_of c)")
      (auto simp: CanonicalMessage_def MessageText_def Let_def plainText_def blocks_of_def comp_def BlockText_unmark
        BlockText_Some split: list.split)
qed

lemma CanonicalMessage_idem: "CanonicalMessage (CanonicalMessage m) = CanonicalMessage m"
proof (cases "content m")
  case (Some c)
  show ?thesis
  proof (cases "length (blocks_of c) = 1 \<and> plainText (hd (blocks_of c))")
    case True
    with Some show ?thesis by (auto simp: CanonicalMessage_def Let_def blocks_of_def)
  next
    case False
    have p: "plainText (b\<lparr>cacheControl := x\<rparr>) = plainText b" for b x by (simp add: plainText_def)
    from False Some show ?thesis
      by (auto simp: CanonicalMessage_def Let_def blocks_of_def p list_ex_iff hd_map)
  qed
qed (simp add: CanonicalMessage_def)

text \<open>Two wire forms of one message: the text as a string, or as one text block with any marker.\<close>

definition text_block :: "string \<Rightarrow> string option \<Rightarrow> block" where
  "text_block t cc = \<lparr>btype = TypeText, btext = Some t, refusal = None, imageURL = None, inputAudio = None,
     fileRef = None, cacheControl = cc, citations = None, cachePoint = None\<rparr>"

lemma CanonicalMessage_forms:
  "CanonicalMessage (m\<lparr>content := Some \<lparr>contentStr = None, contentBlocks = Some [text_block t cc]\<rparr>\<rparr>) = SetMessageText m t"
  by (simp add: CanonicalMessage_def blocks_of_def Let_def plainText_def text_block_def SetMessageText_def)

lemma CanonicalMessage_marker:
  assumes "content m = Some c" "contentBlocks c = Some bs"
  shows "CanonicalMessage (m\<lparr>content := Some (c\<lparr>contentBlocks := Some (map (\<lambda>b. b\<lparr>cacheControl := f b\<rparr>) bs)\<rparr>)\<rparr>)
     = CanonicalMessage m"
proof (cases "length bs = 1 \<and> plainText (hd bs)")
  case True
  then obtain b where "bs = [b]" by (cases bs) auto
  with True assms show ?thesis by (simp add: CanonicalMessage_def blocks_of_def Let_def)
next
  case False
  then have f: "\<not> (length (map (\<lambda>b. b\<lparr>cacheControl := f b\<rparr>) bs) = 1 \<and> plainText (hd (map (\<lambda>b. b\<lparr>cacheControl := f b\<rparr>) bs)))"
    by (cases bs) auto
  define bs' where "bs' = map (\<lambda>b. b\<lparr>cacheControl := f b\<rparr>) bs"
  define c' where "c' = c\<lparr>contentBlocks := Some bs'\<rparr>"
  have u: "map (\<lambda>b. b\<lparr>cacheControl := None\<rparr>) bs' = map (\<lambda>b. b\<lparr>cacheControl := None\<rparr>) bs"
    by (simp add: bs'_def comp_def)
  have "CanonicalMessage (m\<lparr>content := Some c'\<rparr>)
      = m\<lparr>content := Some c'\<rparr>\<lparr>content := Some (c'\<lparr>contentBlocks := Some (map (\<lambda>b. b\<lparr>cacheControl := None\<rparr>) bs')\<rparr>)\<rparr>"
    by (rule CanonicalMessage_blocks) (use f in \<open>auto simp: c'_def bs'_def\<close>)
  with CanonicalMessage_blocks [OF assms False] u show ?thesis by (simp add: c'_def bs'_def)
qed

section \<open>Clones\<close>

lemma clonePlainText_same: "clonePlainText m = Some c \<Longrightarrow> c = m"
  by (cases m; auto simp: clonePlainText_def split: if_splits option.splits)

lemma slow_indices_spec:
  "slow_indices i ms = filter (\<lambda>j. clonePlainText (ms ! (j - i)) = None) [i..<i + length ms]"
proof (induction ms arbitrary: i)
  case (Cons m ms)
  have "filter (\<lambda>j. clonePlainText ((m # ms) ! (j - i)) = None) [Suc i..<Suc i + length ms]
      = filter (\<lambda>j. clonePlainText (ms ! (j - Suc i)) = None) [Suc i..<Suc i + length ms]"
    by (rule filter_cong) (auto simp: nth_Cons' Suc_diff_le)
  moreover have "[i..<i + length (m # ms)] = i # [Suc i..<Suc i + length ms]"
    by (simp add: upt_conv_Cons del: upt_Suc)
  ultimately show ?case using Cons.IH [of "Suc i"] by (simp split: option.split del: upt_Suc)
qed simp

lemma put_back_length [simp]: "length (put_back ps out) = length out"
  by (induction ps out rule: put_back.induct) auto

lemma put_back_map:
  "distinct is \<Longrightarrow> \<forall>i \<in> set is. i < length out \<Longrightarrow> j < length out \<Longrightarrow>
   put_back (zip is (map f is)) out ! j = (if j \<in> set is then f j else out ! j)"
  by (induction "is" arbitrary: out) (auto simp: nth_list_update)

lemma CloneMessages_map:
  assumes "\<And>xs. cloneViaJSON xs = map r xs"
  shows "CloneMessages cloneViaJSON ms = map (\<lambda>m. if clonePlainText m = None then r m else m) ms"
proof -
  define out where "out = map (\<lambda>m. case clonePlainText m of Some c \<Rightarrow> c | None \<Rightarrow> empty_message) ms"
  define want where "want = map (\<lambda>m. if clonePlainText m = None then r m else m) ms"
  have slow: "slow_indices 0 ms = filter (\<lambda>j. clonePlainText (ms ! j) = None) [0..<length ms]"
    using slow_indices_spec [of 0 ms] by simp
  have out: "out ! j = want ! j" if "j < length ms" "clonePlainText (ms ! j) \<noteq> None" for j
    using that clonePlainText_same by (fastforce simp: out_def want_def split: option.splits)
  have "put_back (zip (slow_indices 0 ms) (map (\<lambda>i. r (ms ! i)) (slow_indices 0 ms))) out = want"
  proof (rule nth_equalityI)
    fix j assume "j < length (put_back (zip (slow_indices 0 ms) (map (\<lambda>i. r (ms ! i)) (slow_indices 0 ms))) out)"
    then have j: "j < length ms" by (simp add: out_def)
    then show "put_back (zip (slow_indices 0 ms) (map (\<lambda>i. r (ms ! i)) (slow_indices 0 ms))) out ! j = want ! j"
      using out by (subst put_back_map) (auto simp: slow out_def want_def)
  qed (simp add: out_def want_def)
  moreover have "out = want" if "slow_indices 0 ms = []"
  proof (rule nth_equalityI)
    fix j assume "j < length out"
    then show "out ! j = want ! j" using that by (intro out) (auto simp: slow out_def filter_empty_conv)
  qed (simp add: out_def want_def)
  ultimately show ?thesis
    using assms by (simp add: CloneMessages_def Let_def out_def want_def comp_def)
qed

text \<open>
  A snapshot is position for position the transcript it was taken from: a plain text message is
  copied as it is, and any other message is what the JSON round trip makes of it, at its own place.
\<close>

theorem CloneMessages_pointwise:
  assumes "\<And>xs. cloneViaJSON xs = map r xs"
  shows "CloneMessages cloneViaJSON ms = map (\<lambda>m. if clonePlainText m = None then r m else m) ms"
  by (rule CloneMessages_map [OF assms])

theorem CloneMessages_pointwise_witness:
  "CloneMessages (map id) [empty_message, SetMessageText empty_message ''hi''] = [empty_message, SetMessageText empty_message ''hi'']"
  using CloneMessages_pointwise [of "map id" id "[empty_message, SetMessageText empty_message ''hi'']"] by simp

text \<open>
  The canonical form is one representative of the wire forms of a message. It is idempotent and
  keeps the text, the role and the tool fields; moving or dropping cache markers does not change it; and a single
  plain text block has the canonical form of the same text sent as a string.
\<close>

theorem CanonicalMessage_representative:
  assumes "one_form m"
  shows "CanonicalMessage (CanonicalMessage m) = CanonicalMessage m
     \<and> MessageText (CanonicalMessage m) = MessageText m \<and> role (CanonicalMessage m) = role m
     \<and> toolMsg (CanonicalMessage m) = toolMsg m \<and> asstMsg (CanonicalMessage m) = asstMsg m
     \<and> CanonicalMessage (m\<lparr>content := Some \<lparr>contentStr = None, contentBlocks = Some [text_block t cc]\<rparr>\<rparr>)
         = CanonicalMessage (SetMessageText m t)
     \<and> (\<forall>c bs f. content m = Some c \<longrightarrow> contentBlocks c = Some bs \<longrightarrow>
          CanonicalMessage (m\<lparr>content := Some (c\<lparr>contentBlocks := Some (map (\<lambda>b. b\<lparr>cacheControl := f b\<rparr>) bs)\<rparr>)\<rparr>) = CanonicalMessage m)"
proof -
  have "CanonicalMessage (SetMessageText m t) = SetMessageText m t"
    by (simp add: CanonicalMessage_def SetMessageText_def blocks_of_def)
  with CanonicalMessage_idem [of m] CanonicalMessage_text [OF assms] CanonicalMessage_frame [of m]
    CanonicalMessage_forms [where m = m and t = t and cc = cc] CanonicalMessage_marker [where m = m] show ?thesis by auto
qed

theorem CanonicalMessage_representative_witness:
  "CanonicalMessage (empty_message\<lparr>content := Some \<lparr>contentStr = None, contentBlocks = Some [text_block ''hi'' (Some ''ephemeral'')]\<rparr>\<rparr>)
   = CanonicalMessage (SetMessageText empty_message ''hi'')"
  using CanonicalMessage_representative [of empty_message "''hi''" "Some ''ephemeral''"]
  by (simp add: one_form_def empty_message_def)

section \<open>Canonical wire form\<close>

text \<open>No object of the value carries a cache marker, at any depth.\<close>

fun unmarked_json :: "json \<Rightarrow> bool" where
  "unmarked_json (JObj kvs) = list_all (\<lambda>(k, x). k \<noteq> ''cache_control'' \<and> unmarked_json x) kvs"
| "unmarked_json (JArr xs) = list_all unmarked_json xs"
| "unmarked_json v = True"

lemma dropCacheControl_unmarked: "unmarked_json (dropCacheControl v)"
proof (induction v rule: dropCacheControl.induct)
  case (1 kvs)
  then show ?case by (auto simp: list_all_iff)
qed (auto simp: list_all_iff)

lemma unmarked_drop: "unmarked_json v \<Longrightarrow> dropCacheControl v = v"
proof (induction v rule: unmarked_json.induct)
  case (1 kvs)
  then have "filter (\<lambda>(k, _). k \<noteq> ''cache_control'') kvs = kvs" by (auto simp: list_all_iff intro!: filter_True)
  with 1 show ?case by (auto simp: list_all_iff intro!: map_idI)
next
  case (2 xs)
  then show ?case by (auto simp: list_all_iff intro!: map_idI)
qed auto

lemma unmarked_update:
  "unmarked_json (JObj m) \<Longrightarrow> unmarked_json x \<Longrightarrow> k \<noteq> ''cache_control'' \<Longrightarrow> unmarked_json (JObj (AList.update k x m))"
  by (induction m) (auto simp: list_all_iff)

lemma unmarked_lookup: "unmarked_json (JObj m) \<Longrightarrow> map_of m k = Some x \<Longrightarrow> unmarked_json x"
  by (auto simp: list_all_iff dest!: map_of_SomeD)

lemma collapse_cases:
  "collapseTextContent m = m \<or> (\<exists>s. collapseTextContent m = AList.update ''content'' (JStr s) m)"
  by (auto simp: collapseTextContent_def split: option.splits json.splits list.splits)

lemma collapse_unmarked: "unmarked_json (JObj m) \<Longrightarrow> unmarked_json (JObj (collapseTextContent m))"
proof -
  assume u: "unmarked_json (JObj m)"
  have "unmarked_json (JObj (AList.update ''content'' (JStr s) m))" for s by (rule unmarked_update [OF u]) auto
  with collapse_cases [of m] u show ?thesis by metis
qed

lemma collapse_type: "k \<noteq> ''content'' \<Longrightarrow> map_of (collapseTextContent m) k = map_of m k"
  using collapse_cases [of m] by (auto simp: AList.update_conv')

lemma collapse_idem: "collapseTextContent (collapseTextContent m) = collapseTextContent m"
proof -
  have "collapseTextContent (AList.update ''content'' (JStr s) m) = AList.update ''content'' (JStr s) m" for s
    by (simp add: collapseTextContent_def AList.update_conv')
  with collapse_cases [of m] show ?thesis by metis
qed

lemma collapse_tool_result_idem: "collapse_tool_result (collapse_tool_result x) = collapse_tool_result x"
  by (auto simp: collapse_tool_result_def collapse_type collapse_idem split: json.split)

lemma collapse_tool_result_unmarked: "unmarked_json x \<Longrightarrow> unmarked_json (collapse_tool_result x)"
  by (auto simp: collapse_tool_result_def collapse_unmarked simp del: unmarked_json.simps(1) split: json.split)

text \<open>The shape \<open>collapseTextContent\<close> rewrites.\<close>

definition text_list :: "json \<Rightarrow> bool" where
  "text_list x \<longleftrightarrow> (\<exists>blk s. x = JArr [JObj blk] \<and> length blk = 2 \<and> map_of blk ''type'' = Some (JStr ''text'')
      \<and> map_of blk ''text'' = Some (JStr s))"

lemma collapse_id: "map_of m ''content'' = Some x \<Longrightarrow> \<not> text_list x \<Longrightarrow> collapseTextContent m = m"
  by (auto simp: collapseTextContent_def text_list_def split: option.splits json.splits list.splits)

lemma collapse_array: "map_of (collapseTextContent m) ''content'' = Some (JArr xs) \<Longrightarrow> \<not> text_list (JArr xs)"
  by (auto simp: collapseTextContent_def text_list_def AList.update_conv' split: option.splits json.splits list.splits if_splits)

lemma text_list_results: "text_list (JArr (map collapse_tool_result xs)) \<Longrightarrow> text_list (JArr xs)"
proof -
  assume "text_list (JArr (map collapse_tool_result xs))"
  then obtain blk s y where xs: "xs = [y]" "collapse_tool_result y = JObj blk" "length blk = 2"
    "map_of blk ''type'' = Some (JStr ''text'')" "map_of blk ''text'' = Some (JStr s)"
    by (auto simp: text_list_def)
  then have "y = JObj blk"
    by (auto simp: collapse_tool_result_def collapse_type split: json.splits if_splits)
  with xs show ?thesis by (auto simp: text_list_def)
qed

text \<open>
  The canonical wire form carries no cache marker at any depth and is a fixed point of the
  canonicalisation, so two requests are compared by values that the canonicalisation itself
  regards as final.
\<close>

theorem canonical_wire_fixpoint:
  "unmarked_json (canonical_wire v) \<and> canonical_wire (canonical_wire v) = canonical_wire v"
proof (cases "dropCacheControl v")
  case (JObj m)
  define m1 where "m1 = collapseTextContent m"
  have u1: "unmarked_json (JObj m1)"
    using dropCacheControl_unmarked [of v] JObj collapse_unmarked by (simp add: m1_def del: unmarked_json.simps(1))
  have i1: "collapseTextContent m1 = m1" by (simp add: m1_def collapse_idem)
  show ?thesis
  proof (cases "\<exists>xs. map_of m1 ''content'' = Some (JArr xs)")
    case True
    then obtain xs where xs: "map_of m1 ''content'' = Some (JArr xs)" by blast
    define m2 where "m2 = AList.update ''content'' (JArr (map collapse_tool_result xs)) m1"
    have w: "canonical_wire v = JObj m2" using JObj xs by (simp add: canonical_wire_def m1_def [symmetric] m2_def Let_def)
    have "unmarked_json (JArr xs)" using unmarked_lookup [OF u1 xs] .
    then have "unmarked_json (JArr (map collapse_tool_result xs))"
      by (auto simp: list_all_iff collapse_tool_result_unmarked)
    then have u2: "unmarked_json (JObj m2)" unfolding m2_def by (rule unmarked_update [OF u1]) auto
    have c2: "map_of m2 ''content'' = Some (JArr (map collapse_tool_result xs))" by (simp add: m2_def AList.update_conv')
    have "collapseTextContent m2 = m2"
      using collapse_id [OF c2] text_list_results collapse_array [of m xs] xs by (auto simp: m1_def)
    moreover have "AList.update ''content'' (JArr (map collapse_tool_result (map collapse_tool_result xs))) m2 = m2"
      by (rule AList.update_triv) (simp add: c2 comp_def collapse_tool_result_idem)
    ultimately have "canonical_wire (JObj m2) = JObj m2"
      using unmarked_drop [OF u2] c2 by (simp add: canonical_wire_def Let_def)
    with u2 w show ?thesis by simp
  next
    case False
    then have w: "canonical_wire v = JObj m1"
      using JObj by (auto simp: canonical_wire_def m1_def [symmetric] Let_def split: option.splits json.splits)
    have "canonical_wire (JObj m1) = JObj m1"
      using unmarked_drop [OF u1] False i1 by (auto simp: canonical_wire_def Let_def split: option.splits json.splits)
    with u1 w show ?thesis by simp
  qed
qed (use dropCacheControl_unmarked [of v] unmarked_drop in \<open>auto simp: canonical_wire_def list_all_iff intro!: map_idI\<close>)

section \<open>Pairing\<close>

text \<open>\<open>makes_call m i t\<close>: the message makes the call \<open>t\<close> under the id \<open>i\<close>.\<close>

definition call_of :: "call \<Rightarrow> ToolCall" where
  "call_of tc = \<lparr>tool_name = (case fn_name tc of Some n \<Rightarrow> n | None \<Rightarrow> []), tool_args = fn_args tc\<rparr>"

definition makes_call :: "message \<Rightarrow> string \<Rightarrow> ToolCall \<Rightarrow> bool" where
  "makes_call m i t \<longleftrightarrow> (\<exists>tcs tc. asstMsg m = Some tcs \<and> tc \<in> set tcs \<and> call_id tc = Some i \<and> i \<noteq> [] \<and> t = call_of tc)"

lemma collect_calls_source:
  "collect_calls tcs byID i = Some t \<Longrightarrow>
   byID i = Some t \<or> (\<exists>tc \<in> set tcs. call_id tc = Some i \<and> i \<noteq> [] \<and> t = call_of tc)"
proof (induction tcs byID rule: collect_calls.induct)
  case (2 tc tcs byID)
  then show ?case by (auto simp: call_of_def split: option.splits if_splits)
qed simp

lemma ToolCalls_loop_source:
  assumes "(j, t) \<in> set (ToolCalls_loop i ms byID)"
    and "\<And>x u. byID x = Some u \<Longrightarrow> \<exists>m \<in> set pre. makes_call m x u"
  shows "i \<le> j \<and> j < i + length ms \<and> role (ms ! (j - i)) = RoleTool
    \<and> (\<exists>x. toolMsg (ms ! (j - i)) = Some (Some x) \<and> (\<exists>m \<in> set (pre @ take (Suc (j - i)) ms). makes_call m x t))"
  using assms
proof (induction ms arbitrary: i byID pre)
  case (Cons m ms)
  define by2 where "by2 = (case asstMsg m of None \<Rightarrow> byID | Some tcs \<Rightarrow> collect_calls tcs byID)"
  have src: "\<exists>m' \<in> set (pre @ [m]). makes_call m' x u" if "by2 x = Some u" for x u
  proof (cases "asstMsg m")
    case None
    with that Cons.prems(2) show ?thesis by (auto simp: by2_def)
  next
    case (Some tcs)
    with that collect_calls_source [of tcs byID x u] have "byID x = Some u \<or> makes_call m x u"
      by (auto simp: by2_def makes_call_def)
    with Cons.prems(2) [of x u] show ?thesis by auto
  qed
  consider "(j, t) \<in> set (ToolCalls_loop (i + 1) ms by2)"
    | x where "j = i" "role m = RoleTool" "toolMsg m = Some (Some x)" "by2 x = Some t"
    using Cons.prems(1) by (auto simp: by2_def Let_def split: if_splits option.splits)
  then show ?case
  proof cases
    case 1
    from Cons.IH [OF 1 src] have *: "i + 1 \<le> j" "j < i + 1 + length ms" "role (ms ! (j - (i + 1))) = RoleTool"
      "\<exists>x. toolMsg (ms ! (j - (i + 1))) = Some (Some x) \<and> (\<exists>m' \<in> set ((pre @ [m]) @ take (Suc (j - (i + 1))) ms). makes_call m' x t)"
      by auto
    then have ji: "j - i = Suc (j - (i + 1))" by simp
    show ?thesis unfolding ji using * by auto
  next
    case 2
    then show ?thesis using src [of x t] by auto
  qed
qed simp

section \<open>Shape\<close>

definition calls_before :: "message list \<Rightarrow> nat \<Rightarrow> string set" where
  "calls_before msgs i = (\<Union>j < i. set (call_ids (msgs ! j)))"

lemma validate_upt:
  "k \<le> n \<Longrightarrow> validate_loop a msgs g [k..<n] (calls_before msgs k)
     = concat (map (\<lambda>i. violations_at a msgs g i (calls_before msgs i)) [k..<n])"
proof (induction rule: inc_induct)
  case (step k)
  have "calls_before msgs k \<union> set (call_ids (msgs ! k)) = calls_before msgs (Suc k)"
    by (auto simp: calls_before_def lessThan_Suc)
  with step show ?case by (simp add: upt_conv_Cons)
qed simp

lemma ValidateShapeFor_concat:
  "ValidateShapeFor provider msgs =
     concat (map (\<lambda>i. violations_at (provider = ''anthropic'') msgs None i (calls_before msgs i)) [0..<length msgs])"
  using validate_upt [of 0 "length msgs" "provider = ''anthropic''" msgs None]
  by (simp add: ValidateShapeFor_def ValidateShapeGrouped_def calls_before_def)

text \<open>
  The declarative reading of the four rules for a transcript without wire groups.
\<close>

definition answered_run :: "message list \<Rightarrow> nat \<Rightarrow> string \<Rightarrow> bool" where
  "answered_run msgs i c \<longleftrightarrow>
     (\<exists>j. i < j \<and> j < length msgs \<and> (\<forall>k. i < k \<and> k \<le> j \<longrightarrow> role (msgs ! k) = RoleTool) \<and> toolMsg (msgs ! j) = Some (Some c))"

definition well_shaped :: "bool \<Rightarrow> message list \<Rightarrow> bool" where
  "well_shaped anthropic msgs \<longleftrightarrow>
     (anthropic \<longrightarrow> (\<forall>i. 0 < i \<and> i + 1 < length msgs \<and> role (msgs ! i) = RoleSystem \<longrightarrow> role (msgs ! (i + 1)) = RoleAssistant))
     \<and> (anthropic \<longrightarrow> (\<forall>m \<in> set msgs. \<not> contentPresentButBlank m))
     \<and> (\<forall>i < length msgs. \<forall>c. role (msgs ! i) = RoleTool \<and> toolMsg (msgs ! i) = Some (Some c) \<and> c \<noteq> []
          \<longrightarrow> (\<exists>k < i. c \<in> set (call_ids (msgs ! k))))
     \<and> (\<forall>i < length msgs. \<forall>c \<in> set (call_ids (msgs ! i)). answered_run msgs i c)"

lemma takeWhile_drop_mem:
  "x \<in> set (takeWhile P (drop n xs)) \<longleftrightarrow> (\<exists>j. n \<le> j \<and> j < length xs \<and> xs ! j = x \<and> (\<forall>k. n \<le> k \<and> k \<le> j \<longrightarrow> P (xs ! k)))"
proof -
  have tw: "x \<in> set (takeWhile P ys) \<longleftrightarrow> (\<exists>j < length ys. ys ! j = x \<and> (\<forall>k \<le> j. P (ys ! k)))" for ys
  proof (induction ys)
    case (Cons y ys)
    show ?case
    proof
      assume "x \<in> set (takeWhile P (y # ys))"
      then have "P y" "x = y \<or> x \<in> set (takeWhile P ys)" by (auto split: if_splits)
      then consider "P y" "x = y" | j where "P y" "j < length ys" "ys ! j = x" "\<forall>k \<le> j. P (ys ! k)"
        using Cons.IH by blast
      then show "\<exists>j < length (y # ys). (y # ys) ! j = x \<and> (\<forall>k \<le> j. P ((y # ys) ! k))"
      proof cases
        case 1
        then show ?thesis by (intro exI [of _ 0]) auto
      next
        case (2 j)
        then show ?thesis by (intro exI [of _ "Suc j"]) (auto simp: nth_Cons split: nat.split)
      qed
    next
      assume "\<exists>j < length (y # ys). (y # ys) ! j = x \<and> (\<forall>k \<le> j. P ((y # ys) ! k))"
      then obtain j where j: "j < length (y # ys)" "(y # ys) ! j = x" "\<forall>k \<le> j. P ((y # ys) ! k)" by blast
      then have "P y" by auto
      show "x \<in> set (takeWhile P (y # ys))"
      proof (cases j)
        case (Suc i)
        with j have "i < length ys" "ys ! i = x" "\<forall>k \<le> i. P (ys ! k)" by auto
        with Cons.IH \<open>P y\<close> show ?thesis by auto
      qed (use j \<open>P y\<close> in auto)
    qed
  qed simp
  show ?thesis
  proof
    assume "x \<in> set (takeWhile P (drop n xs))"
    then obtain j where "j < length (drop n xs)" "drop n xs ! j = x" "\<forall>k \<le> j. P (drop n xs ! k)" using tw by blast
    then have j: "n + j < length xs" "xs ! (n + j) = x" "\<And>k. k \<le> j \<Longrightarrow> P (xs ! (n + k))" by auto
    have "P (xs ! k)" if "n \<le> k" "k \<le> n + j" for k using j(3) [of "k - n"] that by simp
    with j(1,2) show "\<exists>j. n \<le> j \<and> j < length xs \<and> xs ! j = x \<and> (\<forall>k. n \<le> k \<and> k \<le> j \<longrightarrow> P (xs ! k))"
      by (intro exI [of _ "n + j"]) auto
  next
    assume "\<exists>j. n \<le> j \<and> j < length xs \<and> xs ! j = x \<and> (\<forall>k. n \<le> k \<and> k \<le> j \<longrightarrow> P (xs ! k))"
    then obtain j where "n \<le> j" "j < length xs" "xs ! j = x" "\<forall>k. n \<le> k \<and> k \<le> j \<longrightarrow> P (xs ! k)" by blast
    then show "x \<in> set (takeWhile P (drop n xs))"
      unfolding tw by (intro exI [of _ "j - n"]) auto
  qed
qed

lemma map_filter_set: "set (List.map_filter f xs) = {y. \<exists>x \<in> set xs. f x = Some y}"
  by (induction xs) (auto simp: map_filter_simps split: option.splits)

lemma tool_id_iff: "tool_id m = Some c \<longleftrightarrow> toolMsg m = Some (Some c)"
  by (auto simp: tool_id_def split: option.splits)

lemma answeredInRun_iff: "c \<in> set (answeredInRun msgs (i + 1) None) \<longleftrightarrow> answered_run msgs i c"
proof -
  have "c \<in> set (answeredInRun msgs (i + 1) None) \<longleftrightarrow>
      (\<exists>m. m \<in> set (takeWhile (\<lambda>m. role m = RoleTool) (drop (i + 1) msgs)) \<and> toolMsg m = Some (Some c))"
    by (simp add: answeredInRun_def map_filter_set tool_id_iff Bex_def)
  also have "\<dots> \<longleftrightarrow> answered_run msgs i c"
    unfolding takeWhile_drop_mem answered_run_def by (simp add: Suc_le_eq) blast
  finally show ?thesis .
qed

lemma no_violations_at:
  assumes "i < length msgs"
  shows "violations_at a msgs None i seen = [] \<longleftrightarrow>
     (a \<longrightarrow> 0 < i \<and> i + 1 < length msgs \<and> role (msgs ! i) = RoleSystem \<longrightarrow> role (msgs ! (i + 1)) = RoleAssistant)
     \<and> (a \<longrightarrow> \<not> contentPresentButBlank (msgs ! i))
     \<and> (\<forall>c. role (msgs ! i) = RoleTool \<and> toolMsg (msgs ! i) = Some (Some c) \<and> c \<noteq> [] \<longrightarrow> c \<in> seen)
     \<and> (\<forall>c \<in> set (call_ids (msgs ! i)). answered_run msgs i c)"
proof -
  have t: "(case tool_id m of Some tid \<Rightarrow> if role m = RoleTool \<and> tid \<noteq> [] \<and> tid \<notin> seen then [(i, RulePairedToolResult tid)] else []
         | None \<Rightarrow> []) = [] \<longleftrightarrow> (\<forall>c. role m = RoleTool \<and> toolMsg m = Some (Some c) \<and> c \<noteq> [] \<longrightarrow> c \<in> seen)" for m
    by (cases "tool_id m") (auto simp flip: tool_id_iff)
  have c: "map (\<lambda>c. (i, RuleAnsweredToolUse c)) (filter (\<lambda>c. c \<notin> set (answeredInRun msgs (i + 1) None)) cs) = []
      \<longleftrightarrow> (\<forall>c \<in> set cs. answered_run msgs i c)" for cs
    unfolding map_is_Nil_conv filter_empty_conv answeredInRun_iff by simp
  have s: "(if a \<and> role (msgs ! i) = RoleSystem \<and> i \<noteq> 0 \<and> \<not> systemPositionOK msgs i then [(i, RuleSystemPosition)] else []) = []
      \<longleftrightarrow> (a \<longrightarrow> 0 < i \<and> i + 1 < length msgs \<and> role (msgs ! i) = RoleSystem \<longrightarrow> role (msgs ! (i + 1)) = RoleAssistant)"
    using assms by (auto simp: systemPositionOK_def)
  show ?thesis
    unfolding violations_at_def Let_def append_is_Nil_conv t c s by simp
qed

lemma calls_before_iff: "c \<in> calls_before msgs i \<longleftrightarrow> (\<exists>k < i. c \<in> set (call_ids (msgs ! k)))"
  by (auto simp: calls_before_def)

lemma validator_exact:
  "ValidateShapeFor provider msgs = [] \<longleftrightarrow> well_shaped (provider = ''anthropic'') msgs"
proof -
  have "ValidateShapeFor provider msgs = [] \<longleftrightarrow>
     (\<forall>i < length msgs. violations_at (provider = ''anthropic'') msgs None i (calls_before msgs i) = [])"
    by (auto simp: ValidateShapeFor_concat)
  also have "\<dots> \<longleftrightarrow> well_shaped (provider = ''anthropic'') msgs"
    unfolding well_shaped_def all_set_conv_all_nth [of msgs]
    by (simp only: no_violations_at calls_before_iff cong: imp_cong) (meson add_lessD1)
  finally show ?thesis .
qed

text \<open>
  C18: the shape validator reports nothing exactly on the transcripts the four rules allow: a system
  message away from the head is followed by an assistant or ends the list, no message carries blank
  content (both for Anthropic only), every tool result answers a call of an earlier message, and
  every call is answered inside the contiguous run of tool messages right after it.
\<close>

theorem ValidateShape_exact:
  "ValidateShapeFor provider msgs = [] \<longleftrightarrow> well_shaped (provider = ''anthropic'') msgs"
  by (rule validator_exact)

text \<open>
  A tool result is paired only with a call that made its id, in the message itself or an
  earlier one, and the pairing sits on a tool message.
\<close>

theorem ToolCalls_pair_sound:
  assumes "ToolCalls msgs i = Some t"
  shows "i < length msgs \<and> role (msgs ! i) = RoleTool
     \<and> (\<exists>x k. toolMsg (msgs ! i) = Some (Some x) \<and> k \<le> i \<and> makes_call (msgs ! k) x t)"
proof -
  have "(i, t) \<in> set (ToolCalls_loop 0 msgs Map.empty)" using assms by (auto simp: ToolCalls_def dest: map_of_SomeD)
  from ToolCalls_loop_source [OF this, of "[]"] obtain x m where
    *: "i < length msgs" "role (msgs ! i) = RoleTool" "toolMsg (msgs ! i) = Some (Some x)"
      "m \<in> set (take (Suc i) msgs)" "makes_call m x t" by auto
  then obtain k where "k < Suc i" "msgs ! k = m" by (auto simp: in_set_conv_nth)
  with * show ?thesis by (metis less_Suc_eq_le)
qed

definition call_msg :: message where
  "call_msg = empty_message\<lparr>role := RoleAssistant, asstMsg := Some [\<lparr>call_id = Some ''t1'', fn_name = Some ''Bash'', fn_args = ''scripts/tv.py''\<rparr>]\<rparr>"

definition result_msg :: message where
  "result_msg = (SetMessageText empty_message ''out'')\<lparr>role := RoleTool, toolMsg := Some (Some ''t1'')\<rparr>"

theorem ToolCalls_pair_sound_witness:
  "ToolCalls [call_msg, result_msg] 1 = Some \<lparr>tool_name = ''Bash'', tool_args = ''scripts/tv.py''\<rparr>
   \<and> (\<exists>x k. k \<le> 1 \<and> makes_call ([call_msg, result_msg] ! k) x \<lparr>tool_name = ''Bash'', tool_args = ''scripts/tv.py''\<rparr>)"
proof -
  have e: "ToolCalls [call_msg, result_msg] 1 = Some \<lparr>tool_name = ''Bash'', tool_args = ''scripts/tv.py''\<rparr>"
    by (simp add: ToolCalls_def call_msg_def result_msg_def empty_message_def SetMessageText_def RoleAssistant_def RoleTool_def)
  with ToolCalls_pair_sound [OF e] show ?thesis by auto
qed

end
