(* ===== verification/Component_Core.thy ===== *)
theory Component_Core
  imports Chat_Schema Complex_Main
begin

text \<open>
  What every component is handed (\<open>src/components/component.go\<close>, \<open>cachephase.go\<close>, \<open>trigger.go\<close>):
  the request context with the cache clock, the report, the span hashes, and the trigger that
  decides whether an expensive component acts. A nil \<open>*Ctx\<close> is \<open>None\<close>. A context
  fraction is a rational: the rounding of the float product inside \<open>math.Ceil\<close> is not modelled.
  The digest of a message span (JSON encoding and SHA-256) is an argument.
\<close>

section \<open>Context and report\<close>

datatype Mode = ModeSync | ModeObserve

definition ParseMode :: "string \<Rightarrow> string + Mode" where
  "ParseMode s =
     (if s = [] \<or> s = ''sync'' then Inr ModeSync
      else if s = ''observe'' then Inr ModeObserve
      else Inl (''mode must be sync|observe, got '' @ s))"

record Ctx =
  Session :: string
  Thread :: string
  ThreadParent :: string
  ThreadInherits :: bool
  DeclaresTools :: bool
  Restored :: "(string \<times> string) list"
  CMode :: "Mode option"
  Bypass :: bool
  CacheAware :: bool
  ColdCache :: bool
  IdleMs :: int
  MaxCachedIdx :: int
  CacheTTLMs :: int
  CacheTTLMinimum :: bool
  CtxWindow :: int
  CtxWindowExact :: bool
  PrevBilledInput :: int
  CompactionPoint :: int

definition effMode :: "Ctx option \<Rightarrow> Mode" where
  "effMode c = (case c of None \<Rightarrow> ModeSync | Some c \<Rightarrow> (case CMode c of None \<Rightarrow> ModeSync | Some m \<Rightarrow> m))"

definition TailOnly :: "Ctx option \<Rightarrow> int \<Rightarrow> bool" where
  "TailOnly c i =
     (case c of
        None \<Rightarrow> True
      | Some c \<Rightarrow> if \<not> CacheAware c \<or> MaxCachedIdx c < 0 then True else i > MaxCachedIdx c)"

definition TailOnlyCold :: "Ctx option \<Rightarrow> int \<Rightarrow> bool \<Rightarrow> bool" where
  "TailOnlyCold c i optIn =
     (if (case c of Some c \<Rightarrow> optIn \<and> ColdCache c | None \<Rightarrow> False) then True else TailOnly c i)"

record ('m) ModelSpec =
  Incoming :: "'m option"
  Static :: "'m option"

definition ForSource :: "'m ModelSpec \<Rightarrow> string \<Rightarrow> 'm option \<times> string" where
  "ForSource m source =
     (if source = ''config'' then (Static m, ''config'')
      else case Incoming m of Some c \<Rightarrow> (Some c, ''incoming'') | None \<Rightarrow> (Static m, ''config''))"

definition ForModelSource :: "('m \<Rightarrow> string \<Rightarrow> 'm option) \<Rightarrow> 'm ModelSpec \<Rightarrow> string \<Rightarrow> string \<Rightarrow> 'm option \<times> string" where
  "ForModelSource asModel m source idn =
     (case ForSource m source of
        (c, used) \<Rightarrow>
          if idn = [] then (c, used)
          else (case c of
                  None \<Rightarrow> (c, used)
                | Some cl \<Rightarrow> (case asModel cl idn of Some swapped \<Rightarrow> (Some swapped, used) | None \<Rightarrow> (c, used))))"

record Report =
  RComponent :: string
  Kind :: string
  TokensBefore :: int
  TokensAfter :: int
  CacheKeys :: "string list"
  Skipped :: bool
  Reverted :: bool
  Irreversible :: bool
  RErr :: "string option"
  ChangedIdx :: "nat list"
  Discarded :: int
  RMode :: Mode
  Gates :: "(string \<times> int) list"
  Events :: "(string \<times> int) list"
  Replays :: int

text \<open>\<open>m[name] += n\<close> on a map of counters.\<close>

definition bump :: "string \<Rightarrow> int \<Rightarrow> (string \<times> int) list \<Rightarrow> (string \<times> int) list" where
  "bump nm n m = AList.update nm ((case map_of m nm of Some k \<Rightarrow> k | None \<Rightarrow> 0) + n) m"

definition Gate :: "string \<Rightarrow> Report \<Rightarrow> Report" where
  "Gate nm r = r\<lparr>Gates := bump nm 1 (Gates r)\<rparr>"

definition GateN :: "string \<Rightarrow> int \<Rightarrow> Report \<Rightarrow> Report" where
  "GateN nm n r = (if n \<le> 0 then r else r\<lparr>Gates := bump nm n (Gates r)\<rparr>)"

definition Event :: "string \<Rightarrow> Report \<Rightarrow> Report" where
  "Event nm r = r\<lparr>Events := bump nm 1 (Events r)\<rparr>"

definition EventN :: "string \<Rightarrow> int \<Rightarrow> Report \<Rightarrow> Report" where
  "EventN nm n r = (if n \<le> 0 then r else r\<lparr>Events := bump nm n (Events r)\<rparr>)"

definition Replay :: "string \<Rightarrow> Report \<Rightarrow> Report" where
  "Replay nm r = (Event nm r)\<lparr>Replays := Replays r + 1\<rparr>"

definition Saved :: "Report \<Rightarrow> int" where
  "Saved r = (if TokensAfter r > TokensBefore r then 0 else TokensBefore r - TokensAfter r)"

section \<open>The cache clock\<close>

datatype CachePhase = CachePhaseUnknown | CachePhaseWarm | CachePhasePreExpiry | CachePhaseCold

definition CacheRemaining :: "Ctx option \<Rightarrow> duration option" where
  "CacheRemaining c =
     (case c of
        None \<Rightarrow> None
      | Some c \<Rightarrow> if CacheTTLMs c \<le> 0 \<or> IdleMs c < 0 then None
                 else Some (wrap64 ((CacheTTLMs c - IdleMs c) * millisecond)))"

definition cachePhase :: "Ctx option \<Rightarrow> duration \<Rightarrow> CachePhase" where
  "cachePhase c preExpiry =
     (case c of
        None \<Rightarrow> CachePhaseUnknown
      | Some ctx \<Rightarrow>
          if ColdCache ctx then CachePhaseCold
          else case CacheRemaining c of
                 None \<Rightarrow> CachePhaseUnknown
               | Some remaining \<Rightarrow>
                   if CacheTTLMinimum ctx then (if remaining > 0 then CachePhaseWarm else CachePhaseUnknown)
                   else if remaining \<le> 0 then CachePhaseCold
                   else if remaining \<le> preExpiry then CachePhasePreExpiry
                   else CachePhaseWarm)"

definition FillDenominator :: "Ctx option \<Rightarrow> int" where
  "FillDenominator c =
     (case c of None \<Rightarrow> 0 | Some c \<Rightarrow> if CompactionPoint c > 0 then CompactionPoint c else CtxWindow c)"

section \<open>The trigger\<close>

record Trigger =
  MinRequestTokens :: int
  MinMessages :: int
  MinOutputTokens :: int
  MinRequestFrac :: rat
  MinOutputFrac :: rat
  HugeOutputFrac :: rat
  CacheState :: string
  PreExpirySeconds :: int

definition CacheStateAny :: string where "CacheStateAny = ''any''"
definition CacheStatePreExpiry :: string where "CacheStatePreExpiry = ''pre_expiry''"
definition CacheStates :: "string list" where "CacheStates = [CacheStateAny, CacheStatePreExpiry]"
definition removedCacheStates :: "string list" where "removedCacheStates = [''cold'', ''pre_expiry_or_cold'']"
definition DefaultPreExpiry :: duration where "DefaultPreExpiry = 60 * second"
definition maxPreExpirySeconds :: int where "maxPreExpirySeconds = 300"

definition PreExpiry :: "Trigger \<Rightarrow> duration" where
  "PreExpiry t = (if PreExpirySeconds t > 0 then wrap64 (PreExpirySeconds t * second) else DefaultPreExpiry)"

definition CacheAllows :: "Trigger \<Rightarrow> Ctx option \<Rightarrow> CachePhase \<Rightarrow> bool" where
  "CacheAllows t c p =
     (if p = CachePhaseUnknown \<and> (case c of Some c \<Rightarrow> CacheAware c \<and> MaxCachedIdx c \<ge> 0 | None \<Rightarrow> False)
         \<and> CacheState t \<noteq> [] \<and> CacheState t \<noteq> CacheStateAny
      then False
      else if CacheState t = CacheStatePreExpiry then p = CachePhasePreExpiry \<or> p = CachePhaseUnknown
      else True)"

definition FracResolvable :: "Trigger \<Rightarrow> Ctx option \<Rightarrow> bool" where
  "FracResolvable t c =
     (if MinRequestFrac t \<le> 0 then True
      else case c of None \<Rightarrow> False | Some c \<Rightarrow> CtxWindowExact c \<and> CtxWindow c > 0 \<and> PrevBilledInput c > 0)"

definition frac :: "rat \<Rightarrow> int \<Rightarrow> int" where
  "frac f window = (if f \<le> 0 \<or> window \<le> 0 then 0 else \<lceil>f * of_int window\<rceil>)"

definition Fires :: "(string \<Rightarrow> int) \<Rightarrow> Trigger \<Rightarrow> message list \<Rightarrow> Ctx option \<Rightarrow> bool" where
  "Fires cnt t msgs c =
     (if MinMessages t > 0 \<and> int (length msgs) < MinMessages t then False
      else if MinRequestTokens t > 0 \<and> MessagesTokens cnt msgs < MinRequestTokens t then False
      else let denom = FillDenominator c; billed = (case c of None \<Rightarrow> 0 | Some c \<Rightarrow> PrevBilledInput c);
               f = frac (MinRequestFrac t) denom
           in if f > 0 \<and> billed > 0 \<and> billed < f then False else True)"

definition OutputFloor :: "Trigger \<Rightarrow> int \<Rightarrow> int \<Rightarrow> int" where
  "OutputFloor t window legacyDefault =
     (let base = (if MinOutputTokens t > 0 then MinOutputTokens t else legacyDefault);
          f = frac (MinOutputFrac t) window
      in if f > base then f else base)"

definition IsHuge :: "Trigger \<Rightarrow> int \<Rightarrow> int \<Rightarrow> bool" where
  "IsHuge t outputTokens window = (let h = frac (HugeOutputFrac t) window in h > 0 \<and> outputTokens \<ge> h)"

datatype trigger_error = WithdrawnState string | UnknownState string | WindowTooWide int | WindowNegative int

definition Validate :: "Trigger \<Rightarrow> trigger_error option" where
  "Validate t =
     (if CacheState t \<in> set removedCacheStates then Some (WithdrawnState (CacheState t))
      else if CacheState t \<noteq> [] \<and> CacheState t \<notin> set CacheStates then Some (UnknownState (CacheState t))
      else if PreExpirySeconds t \<ge> maxPreExpirySeconds then Some (WindowTooWide (PreExpirySeconds t))
      else if PreExpirySeconds t < 0 then Some (WindowNegative (PreExpirySeconds t))
      else None)"

section \<open>Span hashes\<close>

definition legacyStripCacheControl :: "message \<Rightarrow> message" where
  "legacyStripCacheControl m =
     (case content m of
        None \<Rightarrow> m
      | Some c \<Rightarrow>
          if blocks_of c = [] then m
          else if \<not> list_ex (\<lambda>b. cacheControl b \<noteq> None) (blocks_of c) then m
          else m\<lparr>content := Some (c\<lparr>contentBlocks := Some (map (\<lambda>b. b\<lparr>cacheControl := None\<rparr>) (blocks_of c))\<rparr>)\<rparr>)"

definition spanHash :: "(message list \<Rightarrow> 'd) \<Rightarrow> message list \<Rightarrow> (message \<Rightarrow> message) \<Rightarrow> 'd" where
  "spanHash digest msgs canon = digest (map canon msgs)"

definition SpanHash :: "(message list \<Rightarrow> 'd) \<Rightarrow> message list \<Rightarrow> 'd" where
  "SpanHash digest msgs = spanHash digest msgs CanonicalMessage"

definition LegacySpanHash :: "(message list \<Rightarrow> 'd) \<Rightarrow> message list \<Rightarrow> 'd" where
  "LegacySpanHash digest msgs = spanHash digest msgs legacyStripCacheControl"

definition isStringContent :: "message \<Rightarrow> bool" where
  "isStringContent m = (case content m of Some c \<Rightarrow> contentStr c \<noteq> None | None \<Rightarrow> False)"

definition asTextBlock :: "message \<Rightarrow> message" where
  "asTextBlock m =
     (case content m of
        Some c \<Rightarrow> (case contentStr c of
                     Some t \<Rightarrow> m\<lparr>content := Some \<lparr>contentStr = None, contentBlocks = Some [text_block t None]\<rparr>\<rparr>
                   | None \<Rightarrow> m)
      | None \<Rightarrow> m)"

definition LegacySpanHashes :: "(message list \<Rightarrow> 'd) \<Rightarrow> message list \<Rightarrow> 'd list" where
  "LegacySpanHashes digest msgs =
     (let last_form = (if msgs \<noteq> [] \<and> isStringContent (last msgs)
                       then [LegacySpanHash digest (butlast msgs @ [asTextBlock (last msgs)])] else []);
          flip = (\<lambda>m. if isStringContent m then asTextBlock m else m);
          flipped = length (filter isStringContent msgs);
          all_form = (if flipped > 1 \<or> (flipped = 1 \<and> \<not> isStringContent (last msgs))
                      then [LegacySpanHash digest (map flip msgs)] else [])
      in [LegacySpanHash digest msgs] @ last_form @ all_form)"

definition SpanHashMatches :: "(message list \<Rightarrow> 'd) \<Rightarrow> message list \<Rightarrow> 'd \<Rightarrow> bool" where
  "SpanHashMatches digest msgs want =
     (if SpanHash digest msgs = want then True else list_ex (\<lambda>h. h = want) (LegacySpanHashes digest msgs))"

section \<open>What the gates guarantee\<close>

text \<open>
  A validated trigger cannot see a fresh cache entry as about to expire. On an entry at least
  as long-lived as the shortest provider lifetime (300 s) that was used this very moment, the phase
  is warm whatever window was configured, so \<open>pre_expiry\<close> does not fire on every turn.
\<close>

theorem validated_window_leaves_warm:
  assumes "Validate t = None" "300000 \<le> CacheTTLMs c" "CacheTTLMs c \<le> 9000000000000" "IdleMs c = 0" "\<not> ColdCache c"
  shows "cachePhase (Some c) (PreExpiry t) = CachePhaseWarm
     \<and> (CacheState t = CacheStatePreExpiry \<longrightarrow> \<not> CacheAllows t (Some c) (cachePhase (Some c) (PreExpiry t)))"
proof -
  have p: "0 \<le> PreExpirySeconds t" "PreExpirySeconds t < 300"
    using assms(1) by (auto simp: Validate_def maxPreExpirySeconds_def split: if_splits)
  have "wrap64 (PreExpirySeconds t * second) = PreExpirySeconds t * second"
    using p by (intro wrap64_small) (auto simp: second_def)
  then have w: "PreExpiry t < 300 * second"
    using p by (auto simp: PreExpiry_def DefaultPreExpiry_def second_def)
  have r: "CacheRemaining (Some c) = Some (CacheTTLMs c * millisecond)"
    using assms(2,3,4) by (auto simp: CacheRemaining_def millisecond_def intro!: wrap64_small)
  have "PreExpiry t < CacheTTLMs c * millisecond" "0 < CacheTTLMs c * millisecond"
    using w assms(2) by (auto simp: second_def millisecond_def)
  with r assms(5) have "cachePhase (Some c) (PreExpiry t) = CachePhaseWarm" by (simp add: cachePhase_def)
  then show ?thesis by (simp add: CacheAllows_def)
qed

definition ctx0 :: Ctx where
  "ctx0 = \<lparr>Session = ''s'', Thread = [], ThreadParent = [], ThreadInherits = False, DeclaresTools = True,
     Restored = [], CMode = None, Bypass = False, CacheAware = True, ColdCache = False, IdleMs = 0,
     MaxCachedIdx = 3, CacheTTLMs = 300000, CacheTTLMinimum = False, CtxWindow = 200000, CtxWindowExact = True,
     PrevBilledInput = 0, CompactionPoint = 0\<rparr>"

definition trigger0 :: Trigger where
  "trigger0 = \<lparr>MinRequestTokens = 0, MinMessages = 0, MinOutputTokens = 0, MinRequestFrac = 0, MinOutputFrac = 0,
     HugeOutputFrac = 0, CacheState = CacheStatePreExpiry, PreExpirySeconds = 299\<rparr>"

theorem validated_window_leaves_warm_witness:
  "\<not> CacheAllows trigger0 (Some ctx0) (cachePhase (Some ctx0) (PreExpiry trigger0))"
proof -
  have "Validate trigger0 = None" "CacheState trigger0 = CacheStatePreExpiry"
    by (simp_all add: trigger0_def Validate_def removedCacheStates_def CacheStates_def CacheStatePreExpiry_def
        CacheStateAny_def maxPreExpirySeconds_def)
  moreover have "300000 \<le> CacheTTLMs ctx0" "CacheTTLMs ctx0 \<le> 9000000000000" "IdleMs ctx0 = 0" "\<not> ColdCache ctx0"
    by (simp_all add: ctx0_def)
  ultimately show ?thesis using validated_window_leaves_warm [of trigger0 ctx0] by blast
qed

text \<open>
  A \<open>pre_expiry\<close> component never acts over a prefix it cannot prove alive. On a request whose
  cached prefix is known to exist, the gate opens only in the pre-expiry phase; and every index the
  cache boundary covers is off limits to an offloader that did not opt into cold turns.
\<close>

theorem protected_prefix_gate:
  assumes "CacheAware c" "0 \<le> MaxCachedIdx c"
  shows "(CacheState t = CacheStatePreExpiry \<longrightarrow> (CacheAllows t (Some c) p \<longleftrightarrow> p = CachePhasePreExpiry))
     \<and> (TailOnly (Some c) i \<longleftrightarrow> MaxCachedIdx c < i)
     \<and> (TailOnlyCold (Some c) i optIn \<longleftrightarrow> MaxCachedIdx c < i \<or> (optIn \<and> ColdCache c))"
  using assms
  by (cases p) (auto simp: CacheAllows_def CacheStatePreExpiry_def CacheStateAny_def TailOnly_def TailOnlyCold_def)

theorem protected_prefix_gate_witness:
  "TailOnly (Some ctx0) 4 \<and> \<not> TailOnly (Some ctx0) 3"
  using protected_prefix_gate [of ctx0 _ _ 4] protected_prefix_gate [of ctx0 _ _ 3] by (simp add: ctx0_def)

lemma Fires_frac:
  assumes "Fires cnt t msgs (Some ctx)" "0 < MinRequestFrac t" "FracResolvable t (Some ctx)"
  shows "MinRequestFrac t * of_int (FillDenominator (Some ctx)) \<le> of_int (PrevBilledInput ctx)"
proof -
  have c: "0 < CtxWindow ctx" "0 < PrevBilledInput ctx" using assms(2,3) by (auto simp: FracResolvable_def)
  then have d: "0 < FillDenominator (Some ctx)" by (auto simp: FillDenominator_def)
  with assms(2) have "0 < \<lceil>MinRequestFrac t * of_int (FillDenominator (Some ctx))\<rceil>" by simp
  with assms(1,2) c d have "\<lceil>MinRequestFrac t * of_int (FillDenominator (Some ctx))\<rceil> \<le> PrevBilledInput ctx"
    by (auto simp: Fires_def frac_def Let_def not_less split: if_splits)
  then show ?thesis by (simp add: ceiling_le_iff)
qed

lemma Fires_counts:
  assumes "Fires cnt t msgs c"
  shows "(MinMessages t \<le> int (length msgs) \<or> MinMessages t \<le> 0) \<and> (MinRequestTokens t \<le> MessagesTokens cnt msgs \<or> MinRequestTokens t \<le> 0)"
  using assms by (auto simp: Fires_def split: if_splits)

text \<open>
  The thresholds compose as documented: the zero trigger fires on every request, the window
  fraction only ever raises the per-item floor, a fraction of an unknown window constrains nothing,
  and a request fires only if it meets each configured threshold on its own ruler.
\<close>

theorem trigger_thresholds:
  "(MinMessages t = 0 \<and> MinRequestTokens t = 0 \<and> MinRequestFrac t = 0 \<longrightarrow> Fires cnt t msgs c)
   \<and> (if MinOutputTokens t > 0 then MinOutputTokens t else dflt) \<le> OutputFloor t window dflt
   \<and> (window \<le> 0 \<and> 0 \<le> dflt \<longrightarrow> OutputFloor t window dflt = (if MinOutputTokens t > 0 then MinOutputTokens t else dflt))
   \<and> (window \<le> 0 \<longrightarrow> \<not> IsHuge t sz window)
   \<and> (Fires cnt t msgs (Some ctx) \<longrightarrow>
        (MinMessages t \<le> int (length msgs) \<or> MinMessages t \<le> 0)
        \<and> (MinRequestTokens t \<le> MessagesTokens cnt msgs \<or> MinRequestTokens t \<le> 0)
        \<and> (0 < MinRequestFrac t \<longrightarrow> FracResolvable t (Some ctx) \<longrightarrow>
             MinRequestFrac t * of_int (FillDenominator (Some ctx)) \<le> of_int (PrevBilledInput ctx)))"
proof -
  have "MinMessages t = 0 \<and> MinRequestTokens t = 0 \<and> MinRequestFrac t = 0 \<longrightarrow> Fires cnt t msgs c"
    by (simp add: Fires_def frac_def)
  moreover have "(if MinOutputTokens t > 0 then MinOutputTokens t else dflt) \<le> OutputFloor t window dflt"
    by (simp add: OutputFloor_def Let_def)
  moreover have "window \<le> 0 \<and> 0 \<le> dflt \<longrightarrow> OutputFloor t window dflt = (if MinOutputTokens t > 0 then MinOutputTokens t else dflt)"
    by (simp add: OutputFloor_def frac_def Let_def)
  moreover have "window \<le> 0 \<longrightarrow> \<not> IsHuge t sz window" by (simp add: IsHuge_def frac_def)
  ultimately show ?thesis using Fires_counts Fires_frac by blast
qed

theorem trigger_thresholds_witness:
  "Fires length (trigger0\<lparr>MinMessages := 0\<rparr>) [] (Some ctx0) \<and> \<not> IsHuge trigger0 5 0"
  using trigger_thresholds [of "trigger0\<lparr>MinMessages := 0\<rparr>" length "[]" "Some ctx0"] trigger_thresholds [of trigger0 _ _ _ _ 0 5]
  by (simp add: trigger0_def)

section \<open>The hash fallback\<close>

lemma CanonicalMessage_strip: "CanonicalMessage (legacyStripCacheControl m) = CanonicalMessage m"
proof (cases "content m")
  case (Some c)
  show ?thesis
  proof (cases "contentBlocks c")
    case None
    with Some show ?thesis by (simp add: legacyStripCacheControl_def blocks_of_def)
  next
    case (Some bs)
    with \<open>content m = Some c\<close> CanonicalMessage_marker [OF \<open>content m = Some c\<close> Some, of "\<lambda>_. None"] show ?thesis
      by (simp add: legacyStripCacheControl_def blocks_of_def)
  qed
qed (simp add: legacyStripCacheControl_def)

lemma CanonicalMessage_asTextBlock:
  assumes "one_form m"
  shows "CanonicalMessage (asTextBlock m) = CanonicalMessage m"
proof (cases "content m")
  case (Some c)
  show ?thesis
  proof (cases "contentStr c")
    case (Some t)
    with \<open>content m = Some c\<close> assms have "contentBlocks c = None" by (simp add: one_form_def)
    with Some have "c = \<lparr>contentStr = Some t, contentBlocks = None\<rparr>" by simp
    with \<open>content m = Some c\<close> Some CanonicalMessage_forms [where m = m and t = t and cc = None] show ?thesis
      by (simp add: asTextBlock_def SetMessageText_def CanonicalMessage_def blocks_of_def)
  qed (use \<open>content m = Some c\<close> in \<open>simp add: asTextBlock_def\<close>)
qed (simp add: asTextBlock_def)

lemma LegacySpanHashes_same_span:
  assumes "h \<in> set (LegacySpanHashes digest msgs)" "\<forall>m \<in> set msgs. one_form m"
  shows "\<exists>form. h = LegacySpanHash digest form \<and> map CanonicalMessage form = map CanonicalMessage msgs"
proof -
  have l: "map CanonicalMessage (butlast msgs @ [asTextBlock (last msgs)]) = map CanonicalMessage msgs" if "msgs \<noteq> []"
  proof -
    have "CanonicalMessage (asTextBlock (last msgs)) = CanonicalMessage (last msgs)"
      using that assms(2) by (intro CanonicalMessage_asTextBlock) auto
    then have "map CanonicalMessage (butlast msgs @ [asTextBlock (last msgs)]) = map CanonicalMessage (butlast msgs @ [last msgs])"
      by simp
    also have "butlast msgs @ [last msgs] = msgs" using that by simp
    finally show ?thesis .
  qed
  have a: "map CanonicalMessage (map (\<lambda>m. if isStringContent m then asTextBlock m else m) msgs) = map CanonicalMessage msgs"
    using assms(2) by (auto simp: CanonicalMessage_asTextBlock)
  have "h \<in> {LegacySpanHash digest msgs, LegacySpanHash digest (map (\<lambda>m. if isStringContent m then asTextBlock m else m) msgs)}
      \<or> (msgs \<noteq> [] \<and> h = LegacySpanHash digest (butlast msgs @ [asTextBlock (last msgs)]))"
    using assms(1) by (auto simp: LegacySpanHashes_def Let_def split: if_splits)
  then show ?thesis using l a by blast
qed

text \<open>
  The fallback for hashes stored under the older rule never accepts another conversation.
  When a stored hash (under the old or the new rule) of the span \<open>stored\<close> matches the current
  span, the two spans have the same canonical form, for any digest without collisions.
\<close>

theorem SpanHashMatches_sound:
  assumes "inj digest" "\<forall>m \<in> set msgs. one_form m"
    and "want = SpanHash digest stored \<or> want = LegacySpanHash digest stored"
    and "SpanHashMatches digest msgs want"
  shows "map CanonicalMessage msgs = map CanonicalMessage stored"
proof -
  obtain f form where f: "f = CanonicalMessage \<or> f = legacyStripCacheControl" and w: "want = digest (map f form)"
    and m: "map CanonicalMessage form = map CanonicalMessage msgs"
  proof (cases "SpanHash digest msgs = want")
    case True
    then show ?thesis using that [of CanonicalMessage msgs] by (simp add: SpanHash_def spanHash_def)
  next
    case False
    with assms(4) have "want \<in> set (LegacySpanHashes digest msgs)" by (auto simp: SpanHashMatches_def list_ex_iff)
    from LegacySpanHashes_same_span [OF this assms(2)] show ?thesis
      using that [of legacyStripCacheControl] by (auto simp: LegacySpanHash_def spanHash_def)
  qed
  obtain g where g: "g = CanonicalMessage \<or> g = legacyStripCacheControl" and w': "want = digest (map g stored)"
    using assms(3) by (auto simp: SpanHash_def LegacySpanHash_def spanHash_def)
  have eq: "map f form = map g stored" using assms(1) w w' by (simp add: inj_eq)
  have c: "map CanonicalMessage (map h xs) = map CanonicalMessage xs"
    if "h = CanonicalMessage \<or> h = legacyStripCacheControl" for h xs
    using that by (auto simp: CanonicalMessage_strip CanonicalMessage_idem)
  have "map CanonicalMessage form = map CanonicalMessage (map f form)" using c [OF f] by simp
  also have "\<dots> = map CanonicalMessage stored" using eq c [OF g] by metis
  finally show ?thesis using m by simp
qed

theorem SpanHashMatches_sound_witness:
  "map CanonicalMessage [SetMessageText empty_message ''hi'']
   = map CanonicalMessage [asTextBlock (SetMessageText empty_message ''hi'')]"
  by (rule SpanHashMatches_sound [where digest = id and want = "LegacySpanHash id [asTextBlock (SetMessageText empty_message ''hi'')]"])
    (auto simp: one_form_def SetMessageText_def empty_message_def SpanHashMatches_def LegacySpanHashes_def isStringContent_def)

end
