(* ===== verification/Go_Regexp.thy ===== *)
theory Go_Regexp
  imports Go_Prelude
begin

text \<open>
  What the code uses of package \<open>regexp\<close>: expressions over bytes with classes, repetition and the
  assertions \<open>^\<close>, \<open>$\<close> and \<open>\b\<close>. \<open>ends r s i\<close> lists the ends of the matches of \<open>r\<close> in \<open>s\<close> that
  start at \<open>i\<close>, in the order of preference of a leftmost-first matcher: an earlier alternative
  before a later one, a longer repetition before a shorter one. \<open>match_string\<close> is \<open>MatchString\<close> and
  \<open>replace_all\<close> is \<open>ReplaceAllString\<close> for an expression that matches no empty text.
\<close>

datatype re =
    Eps
  | Cls "char \<Rightarrow> bool"
  | Seq re re
  | Alt re re
  | Star re
  | BeginText
  | EndText
  | BeginLine
  | WordEdge

text \<open>
  One more round of a repetition is taken only when the round consumed something, so the number of
  bytes left bounds the rounds.
\<close>

primrec star_ends :: "nat \<Rightarrow> (nat \<Rightarrow> nat list) \<Rightarrow> nat \<Rightarrow> nat list" where
  "star_ends 0 f i = [i]"
| "star_ends (Suc n) f i = concat (map (\<lambda>j. if i < j then star_ends n f j else []) (f i)) @ [i]"

definition is_digit :: "char \<Rightarrow> bool" where
  "is_digit c \<longleftrightarrow> c \<in> set ''0123456789''"

definition is_upper :: "char \<Rightarrow> bool" where
  "is_upper c \<longleftrightarrow> c \<in> set ''ABCDEFGHIJKLMNOPQRSTUVWXYZ''"

definition is_lower :: "char \<Rightarrow> bool" where
  "is_lower c \<longleftrightarrow> c \<in> set ''abcdefghijklmnopqrstuvwxyz''"

definition is_word :: "char \<Rightarrow> bool" where
  "is_word c \<longleftrightarrow> is_digit c \<or> is_upper c \<or> is_lower c \<or> c = CHR ''_''"

definition word_at :: "string \<Rightarrow> nat \<Rightarrow> bool" where
  "word_at s i \<longleftrightarrow> i < length s \<and> is_word (s ! i)"

primrec ends :: "re \<Rightarrow> string \<Rightarrow> nat \<Rightarrow> nat list" where
  "ends Eps s i = [i]"
| "ends (Cls P) s i = (if i < length s \<and> P (s ! i) then [i + 1] else [])"
| "ends (Seq a b) s i = concat (map (ends b s) (ends a s i))"
| "ends (Alt a b) s i = ends a s i @ ends b s i"
| "ends (Star a) s i = star_ends (length s - i) (ends a s) i"
| "ends BeginText s i = (if i = 0 then [i] else [])"
| "ends EndText s i = (if i = length s then [i] else [])"
| "ends BeginLine s i = (if i = 0 \<or> s ! (i - 1) = newline then [i] else [])"
| "ends WordEdge s i = (if (0 < i \<and> word_at s (i - 1)) \<noteq> word_at s i then [i] else [])"

definition match_string :: "re \<Rightarrow> string \<Rightarrow> bool" where
  "match_string r s \<longleftrightarrow> list_ex (\<lambda>i. ends r s i \<noteq> []) [0..<length s + 1]"

fun replace_from :: "re \<Rightarrow> string \<Rightarrow> string \<Rightarrow> nat \<Rightarrow> nat \<Rightarrow> string" where
  "replace_from r by s i 0 = drop i s"
| "replace_from r by s i (Suc n) =
     (if length s \<le> i then []
      else case filter (\<lambda>j. i < j) (ends r s i) of
             j # _ \<Rightarrow> by @ replace_from r by s j n
           | [] \<Rightarrow> s ! i # replace_from r by s (i + 1) n)"

definition replace_all :: "re \<Rightarrow> string \<Rightarrow> string \<Rightarrow> string" where
  "replace_all r by s = replace_from r by s 0 (length s)"

section \<open>Derived expressions\<close>

definition Chr :: "char \<Rightarrow> re" where "Chr c = Cls (\<lambda>x. x = c)"

definition OneOf :: "string \<Rightarrow> re" where "OneOf cs = Cls (\<lambda>x. x \<in> set cs)"

definition Plus :: "re \<Rightarrow> re" where "Plus r = Seq r (Star r)"

definition Opt :: "re \<Rightarrow> re" where "Opt r = Alt r Eps"

primrec Lit :: "string \<Rightarrow> re" where
  "Lit [] = Eps"
| "Lit (c # cs) = Seq (Chr c) (Lit cs)"

primrec Bytes_any :: "string list \<Rightarrow> re" where
  "Bytes_any [] = Cls (\<lambda>_. False)"
| "Bytes_any (w # ws) = Alt (Lit w) (Bytes_any ws)"

primrec Alts :: "re list \<Rightarrow> re" where
  "Alts [] = Cls (\<lambda>_. False)"
| "Alts (r # rs) = Alt r (Alts rs)"

primrec Seqs :: "re list \<Rightarrow> re" where
  "Seqs [] = Eps"
| "Seqs (r # rs) = Seq r (Seqs rs)"

text \<open>
  A letter under \<open>(?i)\<close>. Case folding also equates \<open>k\<close> with the Kelvin sign U+212A and \<open>s\<close> with the
  long s U+017F.
\<close>

definition to_lower :: "char \<Rightarrow> char" where
  "to_lower c = (if is_upper c then char_of (of_char c + (32 :: nat)) else c)"

definition FoldChr :: "char \<Rightarrow> re" where
  "FoldChr c =
     Alt (Cls (\<lambda>x. to_lower x = to_lower c))
       (if to_lower c = CHR ''k'' then Lit [CHR 0xE2, CHR 0x84, CHR 0xAA]
        else if to_lower c = CHR ''s'' then Lit [CHR 0xC5, CHR 0xBF]
        else Cls (\<lambda>_. False))"

primrec FoldLit :: "string \<Rightarrow> re" where
  "FoldLit [] = Eps"
| "FoldLit (c # cs) = Seq (FoldChr c) (FoldLit cs)"

text \<open>\<open>\s\<close> and \<open>\d\<close> of the syntax.\<close>

definition re_space :: "char \<Rightarrow> bool" where
  "re_space c \<longleftrightarrow> c \<in> set [CHR 0x09, CHR 0x0A, CHR 0x0C, CHR 0x0D, CHR 0x20]"

definition Space :: re where "Space = Cls re_space"

definition Digit :: re where "Digit = Cls is_digit"

section \<open>Positions\<close>

lemma star_ends_range:
  assumes "\<And>i j. i \<le> m \<Longrightarrow> j \<in> set (f i) \<Longrightarrow> i \<le> j \<and> j \<le> m" "i \<le> m" "j \<in> set (star_ends n f i)"
  shows "i \<le> j \<and> j \<le> m"
  using assms(2,3)
proof (induction n arbitrary: i)
  case (Suc n)
  show ?case
  proof (cases "j = i")
    case False
    with Suc.prems obtain k where k: "k \<in> set (f i)" "i < k" "j \<in> set (star_ends n f k)"
      by (auto split: if_splits)
    then have "k \<le> m" using assms(1) [OF Suc.prems(1)] by blast
    from Suc.IH [OF this k(3)] k(2) show ?thesis by simp
  qed (use Suc.prems in simp)
qed simp

lemma ends_range: "i \<le> length s \<Longrightarrow> j \<in> set (ends r s i) \<Longrightarrow> i \<le> j \<and> j \<le> length s"
proof (induction r arbitrary: i j)
  case (Seq a b)
  from Seq.prems(2) obtain k where k: "k \<in> set (ends a s i)" "j \<in> set (ends b s k)" unfolding ends.simps by fastforce
  have ik: "i \<le> k" "k \<le> length s" using Seq.IH(1) [OF Seq.prems(1) k(1)] by simp_all
  from Seq.IH(2) [OF ik(2) k(2)] ik(1) show ?case by simp
next
  case (Star a)
  from star_ends_range [of "length s" "ends a s", OF Star.IH Star.prems(1)] Star.prems(2) show ?case by simp
next
  case (Alt a b)
  from Alt.prems(2) have "j \<in> set (ends a s i) \<or> j \<in> set (ends b s i)" by simp
  then show ?case using Alt.IH(1) [OF Alt.prems(1), of j] Alt.IH(2) [OF Alt.prems(1), of j] by blast
qed (simp_all split: if_splits)

text \<open>The rounds allowed are enough: a repetition is one round and the rest, or nothing.\<close>

lemma star_ends_fuel:
  assumes "\<And>i j. i \<le> m \<Longrightarrow> j \<in> set (f i) \<Longrightarrow> j \<le> m" "m - i \<le> n" "i \<le> m"
  shows "star_ends n f i = star_ends (m - i) f i"
  using assms(2,3)
proof (induction "m - i" arbitrary: i n rule: less_induct)
  case less
  have tail: "(if i < j then star_ends k f j else []) = (if i < j then star_ends (m - j) f j else [])"
    if "j \<in> set (f i)" "m - Suc i \<le> k" for j k
    using less(1) [of j k] assms(1) [OF less.prems(2) that(1)] that(2) by auto
  show ?case
  proof (cases "m - i")
    case 0
    then have "j \<le> i" if "j \<in> set (f i)" for j using assms(1) [OF less.prems(2) that] less.prems(2) by simp
    then have "concat (map (\<lambda>j. if i < j then star_ends k f j else []) (f i)) = []" for k by fastforce
    then show ?thesis using 0 by (cases n) simp_all
  next
    case (Suc k)
    then obtain n' where n: "n = Suc n'" "k \<le> n'" using less.prems(1) by (cases n) auto
    have "map (\<lambda>j. if i < j then star_ends n' f j else []) (f i) = map (\<lambda>j. if i < j then star_ends k f j else []) (f i)"
      using tail [where k = n'] tail [where k = k] Suc n by (intro map_cong) auto
    then show ?thesis by (simp only: Suc n star_ends.simps)
  qed
qed

lemma ends_Star:
  assumes "i \<le> length s"
  shows "ends (Star a) s i = concat (map (\<lambda>j. if i < j then ends (Star a) s j else []) (ends a s i)) @ [i]"
proof -
  have f: "\<And>i j. i \<le> length s \<Longrightarrow> j \<in> set (ends a s i) \<Longrightarrow> j \<le> length s" using ends_range by blast
  have fuel: "star_ends n (ends a s) i = star_ends (length s - i) (ends a s) i" if "length s - i \<le> n" "i \<le> length s" for n i
    using star_ends_fuel [of "length s" "ends a s" i n] f that by blast
  have "star_ends (length s - i) (ends a s) i = star_ends (Suc (length s)) (ends a s) i"
    using fuel [of i "Suc (length s)"] assms by simp
  also have "\<dots> = concat (map (\<lambda>j. if i < j then star_ends (length s) (ends a s) j else []) (ends a s i)) @ [i]" by simp
  also have "map (\<lambda>j. if i < j then star_ends (length s) (ends a s) j else []) (ends a s i)
      = map (\<lambda>j. if i < j then ends (Star a) s j else []) (ends a s i)"
  proof (rule map_cong [OF refl])
    fix j assume "j \<in> set (ends a s i)"
    from f [OF assms this] show "(if i < j then star_ends (length s) (ends a s) j else []) = (if i < j then ends (Star a) s j else [])"
      using fuel [of j "length s"] by simp
  qed
  finally show ?thesis by simp
qed

end
