(* ===== verification/Pipeline.thy ===== *)
theory Pipeline
  imports Component_Core Go_Regexp
begin

text \<open>
  The pipeline of \<open>src/components/pipeline.go\<close>: an ordered list of components, each run under a
  snapshot that a failure restores. A component is any function of the messages, its report and the
  rest of the world (\<open>'s\<close>: the store, the model clients, the counters); it may return, return an
  error, or panic at any point with the messages half rewritten. The token counter, the JSON round
  trip of a clone and the SHA-256 hex digest are arguments. Durations, the emitter callbacks and the two context fields \<open>Run\<close> fills in
  for the components (\<open>FilterStats\<close>, \<open>CutFrac\<close>) are not modelled.
\<close>

section \<open>Components\<close>

datatype 's outcome =
    Returned "message list" Report "string list" "string option" 's
  | Panicked "message list" Report string 's

datatype 's comp_kind =
    Reformat "message list \<Rightarrow> Report \<Rightarrow> 's \<Rightarrow> 's outcome"
  | Offload "message list \<Rightarrow> Report \<Rightarrow> 's \<Rightarrow> 's outcome"
  | NeitherKind

record 's component =
  cname :: string
  cenabled :: "'s \<Rightarrow> bool"
  ckind :: "'s comp_kind"

record env =
  count_tokens :: "string \<Rightarrow> int"
  clone_json :: "message list \<Rightarrow> message list"
  sha_hex :: "string \<Rightarrow> string"

definition clone :: "env \<Rightarrow> message list \<Rightarrow> message list" where
  "clone E ms = CloneMessages (clone_json E) ms"

definition tokensOf :: "env \<Rightarrow> message list \<Rightarrow> int" where
  "tokensOf E ms = MessagesTokens (count_tokens E) ms"

section \<open>Bookkeeping of changes\<close>

definition changedIdx :: "message list \<Rightarrow> message list \<Rightarrow> nat list" where
  "changedIdx before aft =
     (if length before \<noteq> length aft then [] else filter (\<lambda>i. before ! i \<noteq> aft ! i) [0..<length aft])"

definition reformatKeys :: "env \<Rightarrow> message list \<Rightarrow> nat list \<Rightarrow> string list" where
  "reformatKeys E before changed =
     (if changed = [] then []
      else map (\<lambda>i. ''cg:fold:'' @ sha_hex E (MessageText (before ! i))) (filter (\<lambda>i. i < length before) changed))"

fun resync_at :: "env \<Rightarrow> message list \<Rightarrow> nat list \<Rightarrow> message list \<Rightarrow> message list" where
  "resync_at E live [] snap = snap"
| "resync_at E live (i # is) snap = resync_at E live is (snap[i := hd (clone E [live ! i])])"

definition resync :: "env \<Rightarrow> message list \<Rightarrow> message list \<Rightarrow> nat list \<Rightarrow> message list" where
  "resync E snap live changed =
     (if length snap \<noteq> length live then clone E live else resync_at E live changed snap)"

definition quote :: re where "quote = OneOf [CHR 0x22, CHR 0x27]"

definition ownOutput :: re where
  "ownOutput =
     Seqs [Alt BeginText (Cls (\<lambda>c. re_space c \<or> c \<in> set [CHR 0x22, CHR 0x27, CHR ''/''])),
       Lit ''scripts/'',
       Alt (Seqs [Lit ''cg.py'', Opt (Seq (Opt (Chr (CHR 0x5C))) quote), Plus Space,
              Alts (map Lit [''adapt'', ''home'', ''savings'', ''cache'', ''waste'', ''session'', ''doctor'']),
              Alts [Space, Seq (Opt (Chr (CHR 0x5C))) quote, EndText]])
         (Seq (Lit ''tv.py'') WordEdge)]"

definition ownOutputs :: "message list \<Rightarrow> nat set" where
  "ownOutputs msgs = {i. \<exists>tc. ToolCalls msgs i = Some tc \<and> match_string ownOutput (tool_args tc)}"

fun restore_at :: "env \<Rightarrow> message list \<Rightarrow> nat set \<Rightarrow> nat list \<Rightarrow> message list \<Rightarrow> message list" where
  "restore_at E before own [] live = live"
| "restore_at E before own (i # is) live =
     restore_at E before own is (if i \<in> own then live[i := hd (clone E [before ! i])] else live)"

definition restoreOwn ::
  "env \<Rightarrow> Report \<Rightarrow> message list \<Rightarrow> message list \<Rightarrow> nat set \<Rightarrow> bool \<times> Report \<times> message list" where
  "restoreOwn E rep before live own =
     (if own = {} \<or> length before \<noteq> length live then (False, rep, live)
      else if filter (\<lambda>i. i \<in> own) (ChangedIdx rep) = [] then (False, rep, live)
      else (True, Gate ''own_output'' (rep\<lparr>ChangedIdx := filter (\<lambda>i. i \<notin> own) (ChangedIdx rep)\<rparr>),
            restore_at E before own (ChangedIdx rep) live))"

section \<open>One component\<close>

definition new_report :: "string \<Rightarrow> Mode \<Rightarrow> Report" where
  "new_report nm md = \<lparr>RComponent = nm, Kind = [], TokensBefore = 0, TokensAfter = 0, CacheKeys = [], Skipped = False,
     Reverted = False, Irreversible = False, RErr = None, ChangedIdx = [], Discarded = 0, RMode = md,
     Gates = [], Events = [], Replays = 0\<rparr>"

text \<open>The verdict on a component that returned: what the switch after the call decides.\<close>

definition judge ::
  "env \<Rightarrow> message list \<Rightarrow> nat set \<Rightarrow> message list \<Rightarrow> Report \<Rightarrow> string option \<Rightarrow> Report \<times> message list \<times> message list" where
  "judge E before own live rep err =
     (let baseline = tokensOf E before; aft = tokensOf E live;
          reverted = (\<lambda>rep. rep\<lparr>Reverted := True, TokensBefore := baseline, TokensAfter := baseline\<rparr>)
      in if err \<noteq> None then ((reverted rep)\<lparr>RErr := err\<rparr>, before, clone E before)
         else if Kind rep = ''offload'' \<and> aft < baseline \<and> CacheKeys rep = [] \<and> \<not> Skipped rep \<and> \<not> Irreversible rep
         then ((reverted rep)\<lparr>RErr := Some ''offload dropped content without stashing a cache_key''\<rparr>, before, clone E before)
         else if aft > baseline then (reverted rep, before, clone E before)
         else
           let rep = rep\<lparr>ChangedIdx := changedIdx before live\<rparr>;
               (restored, rep, live) = restoreOwn E rep before live own;
               aft = (if restored then tokensOf E live else aft);
               rep = rep\<lparr>TokensBefore := baseline, TokensAfter := aft\<rparr>;
               rep = (if Kind rep = ''reformat'' \<or> (Irreversible rep \<and> CacheKeys rep = [])
                      then rep\<lparr>CacheKeys := reformatKeys E before (ChangedIdx rep)\<rparr> else rep)
           in (rep, live, resync E before live (ChangedIdx rep)))"

definition runOne ::
  "env \<Rightarrow> Mode \<Rightarrow> 's component \<Rightarrow> nat set \<Rightarrow> message list \<times> message list \<times> 's \<Rightarrow> Report \<times> (message list \<times> message list \<times> 's)" where
  "runOne E md cmp own st =
     (let (input, before, s) = st;
          baseline = tokensOf E before;
          rep = (new_report (cname cmp) md)\<lparr>TokensBefore := baseline\<rparr>;
          finish = (\<lambda>stashes out.
            case out of
              Panicked live rep why s \<Rightarrow>
                (rep\<lparr>Reverted := True, Skipped := False, TokensBefore := baseline, TokensAfter := baseline,
                     RErr := Some (''panic: '' @ why)\<rparr>, (before, clone E before, s))
            | Returned live rep keys err s \<Rightarrow>
                let rep = (if stashes then rep\<lparr>CacheKeys := keys\<rparr> else rep)
                in case judge E before own live rep err of (rep, live, snap) \<Rightarrow> (rep, (live, snap, s)))
      in case ckind cmp of
           Reformat f \<Rightarrow> finish False (f input (rep\<lparr>Kind := ''reformat''\<rparr>) s)
         | Offload f \<Rightarrow> finish True (f input (rep\<lparr>Kind := ''offload''\<rparr>) s)
         | NeitherKind \<Rightarrow> (rep\<lparr>Skipped := True, TokensAfter := baseline\<rparr>, (input, before, s)))"

section \<open>The run\<close>

record RunReport =
  RunSession :: string
  RunTokensBefore :: int
  RunTokensAfter :: int
  RunComponents :: "Report list"
  RunMode :: Mode

fun run_comps ::
  "env \<Rightarrow> Mode \<Rightarrow> nat set \<Rightarrow> 's component list \<Rightarrow> message list \<times> message list \<times> 's \<Rightarrow> Report list \<times> (message list \<times> message list \<times> 's)" where
  "run_comps E md own [] st = ([], st)"
| "run_comps E md own (cmp # comps) st =
     (if \<not> cenabled cmp (snd (snd st)) then run_comps E md own comps st
      else case runOne E md cmp own st of
             (rep, st) \<Rightarrow> (case run_comps E md own comps st of (reps, st) \<Rightarrow> (rep # reps, st)))"

definition Run :: "env \<Rightarrow> 's component list \<Rightarrow> Ctx \<Rightarrow> message list \<Rightarrow> 's \<Rightarrow> RunReport \<times> message list \<times> 's" where
  "Run E comps c input s =
     (if Bypass c then
        (\<lparr>RunSession = Session c, RunTokensBefore = 0, RunTokensAfter = 0, RunComponents = [], RunMode = effMode (Some c)\<rparr>, input, s)
      else
        case run_comps E (effMode (Some c)) (ownOutputs input) comps (input, clone E input, s) of
          (reps, (live, snap, s)) \<Rightarrow>
            (\<lparr>RunSession = Session c, RunTokensBefore = tokensOf E input, RunTokensAfter = tokensOf E live,
              RunComponents = reps, RunMode = effMode (Some c)\<rparr>, live, s))"

section \<open>Discards and lookups\<close>

text \<open>\<open>RecordDiscards\<close>: the owner of an index is the last component that changed it.\<close>

fun discard_owner :: "nat \<Rightarrow> Report list \<Rightarrow> nat \<Rightarrow> nat option \<Rightarrow> nat option" where
  "discard_owner i [] c best = best"
| "discard_owner i (r # rs) c best = discard_owner i rs (c + 1) (if i \<in> set (ChangedIdx r) then Some c else best)"

definition discard_counts :: "Report list \<Rightarrow> (nat \<times> int) list \<Rightarrow> nat \<Rightarrow> int" where
  "discard_counts reps discarded c =
     sum_list (map snd (filter (\<lambda>(i, n). discard_owner i reps 0 None = Some c) discarded))"

definition RecordDiscards :: "Report list \<Rightarrow> (nat \<times> int) list \<Rightarrow> Report list" where
  "RecordDiscards reps discarded =
     map (\<lambda>c. (new_report (RComponent (reps ! c)) ModeSync)\<lparr>Kind := Kind (reps ! c), Discarded := discard_counts reps discarded c\<rparr>)
       (filter (\<lambda>c. \<exists>x \<in> set discarded. discard_owner (fst x) reps 0 None = Some c) [0..<length reps])"

definition Names :: "'s component list \<Rightarrow> string list" where
  "Names comps = map cname comps"

definition Find :: "string \<Rightarrow> 's component list \<Rightarrow> 's component option" where
  "Find nm comps = find (\<lambda>c. cname c = nm) comps"

definition Has :: "string \<Rightarrow> 's component list \<Rightarrow> bool" where
  "Has nm comps = list_ex (\<lambda>c. cname c = nm) comps"

definition HasOffload :: "'s component list \<Rightarrow> bool" where
  "HasOffload comps = list_ex (\<lambda>c. case ckind c of Offload _ \<Rightarrow> True | _ \<Rightarrow> False) comps"

section \<open>Snapshots\<close>

text \<open>
  A clone copies the messages that are nothing but a role and valid UTF-8 text, whatever the JSON
  round trip does. A snapshot of other messages is what the round trip makes of them, and the round
  trip rewrites invalid UTF-8, so it need not be the transcript it was taken from. \<open>steady E P\<close>: the
  clone gives back a transcript of \<open>P\<close> messages.
\<close>

definition plain :: "message \<Rightarrow> bool" where
  "plain m \<longleftrightarrow> clonePlainText m \<noteq> None"

definition steady :: "env \<Rightarrow> (message \<Rightarrow> bool) \<Rightarrow> bool" where
  "steady E P \<longleftrightarrow> (\<forall>ms. list_all P ms \<longrightarrow> clone E ms = ms)"

lemma clone_id: "steady E P \<Longrightarrow> list_all P ms \<Longrightarrow> clone E ms = ms"
  by (simp add: steady_def)

lemma put_back_other: "j < length out \<Longrightarrow> j \<notin> fst ` set ps \<Longrightarrow> put_back ps out ! j = out ! j"
  by (induction ps out rule: put_back.induct) (auto simp: nth_list_update)

lemma slow_indices_0: "slow_indices 0 ms = filter (\<lambda>j. clonePlainText (ms ! j) = None) [0..<length ms]"
  using slow_indices_spec [of 0 ms] by simp

lemma length_CloneMessages: "length (CloneMessages f ms) = length ms"
  by (simp add: CloneMessages_def Let_def)

lemma CloneMessages_plain:
  assumes "i < length ms" "clonePlainText (ms ! i) \<noteq> None"
  shows "CloneMessages f ms ! i = ms ! i"
proof -
  have "i \<notin> fst ` set (zip (slow_indices 0 ms) xs)" for xs :: "message list"
    using assms by (auto simp: slow_indices_0 dest: set_zip_leftD)
  with assms clonePlainText_same show ?thesis
    by (auto simp: CloneMessages_def Let_def put_back_other)
qed

lemma CloneMessages_exact:
  assumes "f (filter (\<lambda>m. clonePlainText m = None) ms) = filter (\<lambda>m. clonePlainText m = None) ms"
  shows "CloneMessages f ms = ms"
proof (rule nth_equalityI)
  fix i assume i: "i < length (CloneMessages f ms)"
  then have l: "i < length ms" by (simp add: length_CloneMessages)
  show "CloneMessages f ms ! i = ms ! i"
  proof (cases "clonePlainText (ms ! i) = None")
    case False
    then show ?thesis by (intro CloneMessages_plain l) 
  next
    case True
    with l have s: "i \<in> set (slow_indices 0 ms)" by (simp add: slow_indices_0)
    have "filter (\<lambda>m. clonePlainText m = None) ms = map (\<lambda>j. ms ! j) (slow_indices 0 ms)"
      using filter_map [of "\<lambda>m. clonePlainText m = None" "\<lambda>j. ms ! j" "[0..<length ms]"]
      by (simp add: slow_indices_0 map_nth comp_def)
    with assms have "f (map (\<lambda>j. ms ! j) (slow_indices 0 ms)) = map (\<lambda>j. ms ! j) (slow_indices 0 ms)" by simp
    moreover have "slow_indices 0 ms \<noteq> []" using s by auto
    ultimately show ?thesis
      using l s by (simp add: CloneMessages_def Let_def, subst put_back_map) (auto simp: slow_indices_0)
  qed
qed (simp add: length_CloneMessages)

lemma clone_plain: "i < length ms \<Longrightarrow> plain (ms ! i) \<Longrightarrow> clone E ms ! i = ms ! i"
  by (simp add: clone_def plain_def CloneMessages_plain)

lemma length_clone [simp]: "length (clone E ms) = length ms"
  by (simp add: clone_def length_CloneMessages)

lemma clone_exact: "clone_json E (filter (\<lambda>m. \<not> plain m) ms) = filter (\<lambda>m. \<not> plain m) ms \<Longrightarrow> clone E ms = ms"
  unfolding clone_def by (rule CloneMessages_exact) (simp add: plain_def)

lemma steady_plain: "steady E plain"
  by (auto simp: steady_def list_all_length clone_plain intro!: nth_equalityI)

lemma steady_json: "(\<And>ms. list_all P ms \<Longrightarrow> clone_json E ms = ms) \<Longrightarrow> steady E P"
  by (auto simp: steady_def list_all_iff intro!: clone_exact)

lemma changedIdx_iff:
  "length before = length aft \<Longrightarrow> i \<in> set (changedIdx before aft) \<longleftrightarrow> i < length aft \<and> before ! i \<noteq> aft ! i"
  by (auto simp: changedIdx_def)

lemma resync_at_spec:
  assumes "steady E P" "list_all P live" "length snap = length live"
  shows "length (resync_at E live is snap) = length live
     \<and> (\<forall>j < length live. resync_at E live is snap ! j = (if j \<in> set is then live ! j else snap ! j))"
  using assms
proof (induction E live "is" snap rule: resync_at.induct)
  case (2 E live i "is" snap)
  have "i < length live \<Longrightarrow> clone E [live ! i] = [live ! i]"
    using "2.prems" by (intro clone_id [where P = P]) (auto simp: list_all_length)
  with 2 show ?case by (auto simp: nth_list_update)
qed simp

lemma resync_in_step:
  assumes "steady E P" "list_all P live" "\<And>j. j < length live \<Longrightarrow> length snap = length live \<Longrightarrow> j \<notin> set is \<Longrightarrow> snap ! j = live ! j"
  shows "resync E snap live is = live"
proof (cases "length snap = length live")
  case True
  with resync_at_spec [OF assms(1,2) True, of "is"] assms(3) show ?thesis
    by (auto simp: resync_def intro!: nth_equalityI)
qed (simp add: resync_def clone_id [OF assms(1,2)])

lemma restore_at_spec:
  assumes "steady E P" "list_all P before" "\<forall>i \<in> set is. i < length live \<and> i < length before"
  shows "length (restore_at E before own is live) = length live
     \<and> (\<forall>j < length live. restore_at E before own is live ! j = (if j \<in> set is \<and> j \<in> own then before ! j else live ! j))"
  using assms
proof (induction E before own "is" live rule: restore_at.induct)
  case (2 E before own i "is" live)
  have "clone E [before ! i] = [before ! i]"
    using "2.prems" by (intro clone_id [where P = P]) (auto simp: list_all_length)
  with 2 show ?case by (auto simp: nth_list_update)
qed simp

section \<open>The verdict\<close>

text \<open>The messages that survive a component: the snapshot, or its output with our own outputs put back.\<close>

definition accepted :: "env \<Rightarrow> message list \<Rightarrow> message list \<Rightarrow> Report \<Rightarrow> string option \<Rightarrow> bool" where
  "accepted E before live rep err \<longleftrightarrow> err = None \<and> tokensOf E live \<le> tokensOf E before
     \<and> \<not> (Kind rep = ''offload'' \<and> tokensOf E live < tokensOf E before \<and> CacheKeys rep = [] \<and> \<not> Skipped rep \<and> \<not> Irreversible rep)"

definition put_own :: "nat set \<Rightarrow> message list \<Rightarrow> message list \<Rightarrow> message list" where
  "put_own own before live =
     (if length before = length live then map (\<lambda>i. if i \<in> own then before ! i else live ! i) [0..<length live] else live)"

lemma restoreOwn_put_own:
  assumes "steady E P" "list_all P before" "ChangedIdx rep = changedIdx before live" "restoreOwn E rep before live own = (b, rep', live')"
  shows "live' = put_own own before live \<and> Kind rep' = Kind rep \<and> Irreversible rep' = Irreversible rep \<and> CacheKeys rep' = CacheKeys rep \<and> Reverted rep' = Reverted rep
     \<and> (length before = length live \<longrightarrow> set (ChangedIdx rep') = {i \<in> set (changedIdx before live). i \<notin> own}) \<and> (\<not> b \<longrightarrow> live' = live)"
proof (cases "length before = length live")
  case False
  with assms show ?thesis by (auto simp: restoreOwn_def put_own_def)
next
  case True
  note c = changedIdx_iff [OF True]
  have p: "put_own own before live ! j = live ! j" if "j < length live" "j \<notin> set (changedIdx before live) \<or> j \<notin> own" for j
    using that True c by (auto simp: put_own_def)
  show ?thesis
  proof (cases "own = {} \<or> filter (\<lambda>i. i \<in> own) (changedIdx before live) = []")
    case none: True
    then have same: "put_own own before live = live"
      using True p by (intro nth_equalityI) (auto simp: put_own_def filter_empty_conv c)
    from none assms True have "b = False" "rep' = rep" "live' = live" by (auto simp: restoreOwn_def split: if_splits)
    moreover have "set (changedIdx before live) = {i \<in> set (changedIdx before live). i \<notin> own}"
      using none by (auto simp: filter_empty_conv)
    ultimately show ?thesis using same assms(3) by auto
  next
    case some: False
    then have r: "b" "live' = restore_at E before own (changedIdx before live) live" "set (ChangedIdx rep') = {i \<in> set (changedIdx before live). i \<notin> own}"
      "Kind rep' = Kind rep" "Irreversible rep' = Irreversible rep" "CacheKeys rep' = CacheKeys rep" "Reverted rep' = Reverted rep"
      using assms True by (auto simp: restoreOwn_def Gate_def)
    have "live' = put_own own before live"
      using restore_at_spec [OF assms(1,2), of "changedIdx before live" live own] c True p
      by (intro nth_equalityI) (auto simp: r(2) put_own_def)
    with r show ?thesis by simp
  qed
qed

lemma put_own_all: "list_all P before \<Longrightarrow> list_all P live \<Longrightarrow> list_all P (put_own own before live)"
  by (auto simp: put_own_def list_all_length)

lemma judge_rejects:
  assumes "\<not> accepted E before live rep err" "judge E before own live rep err = (rep', live', snap')"
  shows "live' = before \<and> snap' = clone E before \<and> Reverted rep' \<and> TokensBefore rep' = tokensOf E before \<and> TokensAfter rep' = tokensOf E before"
  using assms by (auto simp: judge_def accepted_def Let_def split: if_splits)

lemma judge_spec:
  assumes "steady E P" "list_all P before" "accepted E before live rep err \<Longrightarrow> list_all P live" "judge E before own live rep err = (rep', live', snap')"
  shows "live' = (if accepted E before live rep err then put_own own before live else before) \<and> snap' = live'
     \<and> Reverted rep' = (if accepted E before live rep err then Reverted rep else True)
     \<and> TokensBefore rep' = tokensOf E before \<and> TokensAfter rep' = tokensOf E live'"
proof (cases "accepted E before live rep err")
  case False
  with judge_rejects [OF False assms(4)] clone_id [OF assms(1,2)] show ?thesis by simp
next
  case True
  obtain b rep1 live1 where r: "restoreOwn E (rep\<lparr>ChangedIdx := changedIdx before live\<rparr>) before live own = (b, rep1, live1)"
    by (metis prod_cases3)
  note ro = restoreOwn_put_own [OF assms(1,2) _ r, simplified]
  have res: "resync E before live1 (ChangedIdx rep1) = live1"
  proof (rule resync_in_step [OF assms(1)])
    show "list_all P live1" using ro put_own_all assms(2) assms(3) [OF True] by metis
  next
    fix j assume j: "j < length live1" "length before = length live1" "j \<notin> set (ChangedIdx rep1)"
    have l: "length live1 = length live" using ro by (simp add: put_own_def)
    have lb: "length before = length live" using l j(2) by simp
    have s: "set (ChangedIdx rep1) = {i \<in> set (changedIdx before live). i \<notin> own}" "live1 = put_own own before live"
      using ro lb by blast+
    have jl: "j < length live" using j(1) l by simp
    show "before ! j = live1 ! j"
    proof (cases "j \<in> own")
      case True
      with jl lb show ?thesis by (simp add: s(2) put_own_def)
    next
      case False
      with j(3) s(1) changedIdx_iff [OF lb, of j] jl have "before ! j = live ! j" by simp
      with False jl lb show ?thesis by (simp add: s(2) put_own_def)
    qed
  qed
  have "Reverted rep1 = Reverted rep" using ro by simp
  moreover have "err = None" "\<not> tokensOf E before < tokensOf E live"
    "\<not> (Kind rep = ''offload'' \<and> tokensOf E live < tokensOf E before \<and> CacheKeys rep = [] \<and> \<not> Skipped rep \<and> \<not> Irreversible rep)"
    using True by (simp_all add: accepted_def)
  then have "live' = live1 \<and> snap' = live1 \<and> Reverted rep' = Reverted rep1 \<and> TokensBefore rep' = tokensOf E before
      \<and> TokensAfter rep' = (if b then tokensOf E live1 else tokensOf E live)"
    using assms(4) res unfolding judge_def Let_def by (auto simp: r split: if_splits)
  ultimately show ?thesis using True ro by auto
qed

section \<open>Isolation of one component\<close>

text \<open>What a component left behind, if it is kept.\<close>

definition comp_outcome :: "int \<Rightarrow> Mode \<Rightarrow> 's component \<Rightarrow> message list \<Rightarrow> 's \<Rightarrow> (bool \<times> 's outcome) option" where
  "comp_outcome baseline md cmp input s =
     (let rep = (new_report (cname cmp) md)\<lparr>TokensBefore := baseline\<rparr>
      in case ckind cmp of
           Reformat f \<Rightarrow> Some (False, f input (rep\<lparr>Kind := ''reformat''\<rparr>) s)
         | Offload f \<Rightarrow> Some (True, f input (rep\<lparr>Kind := ''offload''\<rparr>) s)
         | NeitherKind \<Rightarrow> None)"

definition kept_output :: "env \<Rightarrow> message list \<Rightarrow> (bool \<times> 's outcome) option \<Rightarrow> message list option" where
  "kept_output E before out =
     (case out of
        Some (stashes, Returned live rep keys err s) \<Rightarrow>
          if accepted E before live (if stashes then rep\<lparr>CacheKeys := keys\<rparr> else rep) err then Some live else None
      | _ \<Rightarrow> None)"

lemma comp_outcome_None: "comp_outcome b md cmp input s = None \<longleftrightarrow> ckind cmp = NeitherKind"
  by (simp add: comp_outcome_def Let_def split: comp_kind.splits)

lemma runOne_skips:
  "ckind cmp = NeitherKind \<Longrightarrow> runOne E md cmp own (input, before, s) = (rep, (live, snap, s'))
     \<Longrightarrow> live = input \<and> snap = before \<and> TokensBefore rep = tokensOf E before \<and> TokensAfter rep = tokensOf E before"
  by (auto simp: runOne_def Let_def)

lemma runOne_panics:
  "comp_outcome (tokensOf E before) md cmp input s = Some (stashes, Panicked l r why s1)
     \<Longrightarrow> runOne E md cmp own (input, before, s) = (rep, (live, snap, s'))
     \<Longrightarrow> live = before \<and> snap = clone E before \<and> Reverted rep \<and> TokensBefore rep = tokensOf E before \<and> TokensAfter rep = tokensOf E before"
  by (auto simp: runOne_def comp_outcome_def Let_def split: comp_kind.splits)

lemma runOne_returns:
  "comp_outcome (tokensOf E before) md cmp input s = Some (stashes, Returned l r keys err s1)
     \<Longrightarrow> runOne E md cmp own (input, before, s) = (rep, (live, snap, s'))
     \<Longrightarrow> judge E before own l (if stashes then r\<lparr>CacheKeys := keys\<rparr> else r) err = (rep, live, snap)"
  by (auto simp: runOne_def comp_outcome_def Let_def split: comp_kind.splits prod.splits)

lemma runOne_rejects:
  assumes "kept_output E before (comp_outcome (tokensOf E before) md cmp input s) = None" "ckind cmp \<noteq> NeitherKind"
    and r: "runOne E md cmp own (input, before, s) = (rep, (live, snap, s'))"
  shows "live = before \<and> snap = clone E before \<and> Reverted rep \<and> TokensBefore rep = tokensOf E before \<and> TokensAfter rep = tokensOf E before"
proof -
  obtain stashes out where o: "comp_outcome (tokensOf E before) md cmp input s = Some (stashes, out)"
    using assms(2) comp_outcome_None by (metis not_None_eq surj_pair)
  show ?thesis
  proof (cases out)
    case (Panicked l r why s1)
    with runOne_panics [OF _ r] o show ?thesis by simp
  next
    case (Returned l r1 keys err s1)
    with judge_rejects [OF _ runOne_returns [OF _ r]] o assms(1) show ?thesis
      by (simp add: kept_output_def split: if_splits)
  qed
qed

lemma runOne_spec:
  assumes "steady E P" "list_all P input" and r: "runOne E md cmp own (input, input, s) = (rep, (live, snap, s'))"
    and "\<And>out. kept_output E input (comp_outcome (tokensOf E input) md cmp input s) = Some out \<Longrightarrow> list_all P out"
  shows "snap = live \<and> TokensBefore rep = tokensOf E input \<and> TokensAfter rep = tokensOf E live \<and> list_all P live
     \<and> live = (case kept_output E input (comp_outcome (tokensOf E input) md cmp input s) of
                 Some out \<Rightarrow> put_own own input out | None \<Rightarrow> input)"
proof (cases "kept_output E input (comp_outcome (tokensOf E input) md cmp input s)")
  case None
  with runOne_skips [OF _ r] runOne_rejects [OF None _ r] clone_id [OF assms(1,2)] assms(2) show ?thesis
    by (cases "ckind cmp = NeitherKind") simp_all
next
  case (Some l)
  then obtain stashes r1 keys err s1 where o: "comp_outcome (tokensOf E input) md cmp input s = Some (stashes, Returned l r1 keys err s1)"
    and a: "accepted E input l (if stashes then r1\<lparr>CacheKeys := keys\<rparr> else r1) err"
    by (auto simp: kept_output_def split: option.splits outcome.splits if_splits)
  with judge_spec [OF assms(1,2) _ runOne_returns [OF o r]] assms(4) [OF Some] Some put_own_all [OF assms(2)] show ?thesis by simp
qed

text \<open>
  C4: the pipeline fails open. When a component panics, returns an error, grows the request, or is
  an offloader that shrank it without a cache key (and without declaring the loss), the transcript
  is set back to the snapshot taken before it ran, the next snapshot is a fresh clone of that one,
  and the report says it was reverted and saved nothing. Against the request the snapshot was cloned
  from, the restored transcript has the same number of messages; every message that is a role and
  valid UTF-8 text is exactly as it was, whatever the JSON round trip does, and so is the whole
  transcript when the round trip gives back the other messages as they were. (It does not for text
  that is not valid UTF-8: such a message comes back rewritten.)
\<close>

theorem failed_component_is_reverted:
  assumes "runOne E md cmp own (input, before, s) = (rep, (live, snap, s'))"
    and fails: "case comp_outcome (tokensOf E before) md cmp input s of
       Some (_, Panicked _ _ _ _) \<Rightarrow> True
     | Some (stashes, Returned out r keys err _) \<Rightarrow>
         err \<noteq> None \<or> tokensOf E before < tokensOf E out
         \<or> (stashes \<and> Kind r = ''offload'' \<and> tokensOf E out < tokensOf E before \<and> keys = [] \<and> \<not> Skipped r \<and> \<not> Irreversible r)
     | None \<Rightarrow> False"
  shows "live = before \<and> snap = clone E before \<and> Reverted rep
     \<and> TokensBefore rep = tokensOf E before \<and> TokensAfter rep = tokensOf E before
     \<and> (before = clone E input \<longrightarrow>
          length live = length input \<and> (\<forall>i < length input. plain (input ! i) \<longrightarrow> live ! i = input ! i)
          \<and> (clone_json E (filter (\<lambda>m. \<not> plain m) input) = filter (\<lambda>m. \<not> plain m) input \<longrightarrow> live = input \<and> snap = input))"
proof -
  have "kept_output E before (comp_outcome (tokensOf E before) md cmp input s) = None" "ckind cmp \<noteq> NeitherKind"
    using fails comp_outcome_None [of "tokensOf E before" md cmp input s]
    by (auto simp: kept_output_def accepted_def split: option.splits outcome.splits)
  with runOne_rejects [OF this assms(1)] show ?thesis by (auto simp: clone_plain clone_exact)
qed

definition user_msg :: message where
  "user_msg = (SetMessageText empty_message ''x'')\<lparr>role := RoleUser\<rparr>"

definition env0 :: env where
  "env0 = \<lparr>count_tokens = (\<lambda>t. int (length t)), clone_json = id, sha_hex = id\<rparr>"

definition panicky :: "unit component" where
  "panicky = \<lparr>cname = ''p'', cenabled = (\<lambda>_. True), ckind = Reformat (\<lambda>ms rep s. Panicked [] rep ''boom'' s)\<rparr>"

text \<open>
  An environment whose round trip rewrites: an invalid byte of a text becomes U+FFFD, three bytes.
\<close>

definition env_utf8 :: env where
  "env_utf8 = env0\<lparr>clone_json := map (\<lambda>m. SetMessageText m (of_runes (runes (MessageText m))))\<rparr>"

definition bad_msg :: message where
  "bad_msg = (SetMessageText empty_message [CHR 0xFF])\<lparr>role := RoleUser\<rparr>"

lemma clone_bad: "clone env_utf8 [bad_msg] = [SetMessageText bad_msg [CHR 0xEF, CHR 0xBF, CHR 0xBD]]"
  by code_simp

theorem failed_component_is_reverted_witness:
  "fst (snd (runOne env0 ModeSync panicky {} ([result_msg], clone env0 [result_msg], ()))) = [result_msg]
   \<and> fst (snd (runOne env_utf8 ModeSync panicky {} ([bad_msg], clone env_utf8 [bad_msg], ()))) = clone env_utf8 [bad_msg]"
proof -
  have run: "\<exists>rep live snap s'. runOne E ModeSync panicky {} st = (rep, (live, snap, s'))" for E st
    by (metis prod_cases3 surj_pair)
  have f: "case comp_outcome b ModeSync panicky input () of
       Some (_, Panicked _ _ _ _) \<Rightarrow> True | Some (stashes, Returned out r keys err _) \<Rightarrow> Q stashes out r keys err | None \<Rightarrow> False" for b input Q
    by (simp add: comp_outcome_def panicky_def Let_def)
  have j: "clone_json env0 ms = ms" for ms by (simp add: env0_def)
  from run [of env0 "([result_msg], clone env0 [result_msg], ())"] run [of env_utf8 "([bad_msg], clone env_utf8 [bad_msg], ())"]
  show ?thesis using failed_component_is_reverted [OF _ f] j by fastforce
qed

text \<open>
  What the condition on the clone excludes: a message of one invalid byte, restored after a panic,
  is three bytes longer than it came in, because the snapshot is already the rewritten text and the
  never-worse comparison is against the snapshot.
\<close>

lemma revert_can_grow:
  "\<exists>rr live. Run env_utf8 [panicky] ctx0 [bad_msg] () = (rr, live, ()) \<and> tokensOf env_utf8 live = 3 \<and> tokensOf env_utf8 [bad_msg] = 1
     \<and> RunTokensBefore rr = 1 \<and> RunTokensAfter rr = 3"
proof -
  have own: "ownOutputs [bad_msg] = {}"
    by (simp add: ownOutputs_def ToolCalls_def bad_msg_def SetMessageText_def empty_message_def RoleUser_def RoleTool_def)
  have t: "tokensOf env_utf8 (clone env_utf8 [bad_msg]) = 3" "tokensOf env_utf8 [bad_msg] = 1" by code_simp+
  show ?thesis
    unfolding Run_def own using t by (simp add: ctx0_def panicky_def runOne_def Let_def new_report_def effMode_def)
qed

section \<open>Runs\<close>

lemma put_own_empty: "put_own {} before live = live"
  by (auto simp: put_own_def map_nth)

text \<open>What a component may leave when its input is \<open>P\<close> messages: \<open>P\<close> messages, on whatever path it is kept.\<close>

definition keeps_msgs :: "env \<Rightarrow> Mode \<Rightarrow> (message \<Rightarrow> bool) \<Rightarrow> 's component \<Rightarrow> bool" where
  "keeps_msgs E md P cmp \<longleftrightarrow>
     (\<forall>input s out. list_all P input \<longrightarrow> kept_output E input (comp_outcome (tokensOf E input) md cmp input s) = Some out \<longrightarrow> list_all P out)"

lemma judge_report:
  assumes "judge E before {} live rep err = (rep', live', snap')"
  shows "TokensAfter rep' \<le> TokensBefore rep'"
proof (cases "accepted E before live rep err")
  case True
  with assms show ?thesis by (auto simp: judge_def accepted_def Let_def restoreOwn_def split: if_splits)
qed (use judge_rejects assms in fastforce)

lemma runOne_report:
  assumes "runOne E md cmp {} (input, before, s) = (rep, (live, snap, s'))"
  shows "TokensAfter rep \<le> TokensBefore rep"
proof (cases "comp_outcome (tokensOf E before) md cmp input s")
  case None
  then have "ckind cmp = NeitherKind" by (simp add: comp_outcome_None)
  from runOne_skips [OF this assms] show ?thesis by simp
next
  case (Some so)
  obtain stashes out where so: "so = (stashes, out)" by fastforce
  show ?thesis
  proof (cases out)
    case (Panicked l r why s1)
    with runOne_panics [OF _ assms] Some so show ?thesis by simp
  next
    case (Returned l r keys err s1)
    with judge_report [OF runOne_returns [OF _ assms]] Some so show ?thesis by simp
  qed
qed

lemma run_comps_reports:
  "run_comps E md {} comps st = (reps, st') \<Longrightarrow> r \<in> set reps \<Longrightarrow> TokensAfter r \<le> TokensBefore r"
proof (induction comps arbitrary: st reps)
  case (Cons cmp comps)
  obtain input before s where st: "st = (input, before, s)" by (metis prod_cases3)
  obtain rep st1 where one: "runOne E md cmp {} st = (rep, st1)" by (cases "runOne E md cmp {} st")
  obtain reps1 st2 where t: "run_comps E md {} comps st1 = (reps1, st2)" by (cases "run_comps E md {} comps st1")
  have "TokensAfter rep \<le> TokensBefore rep"
    using one runOne_report by (metis st prod_cases3)
  with Cons.IH [of st1 reps1] one t show ?case
    using Cons.IH [of st reps] Cons.prems by (cases "cenabled cmp (snd (snd st))") auto
qed simp

lemma runOne_never_worse:
  assumes "steady E P" "list_all P input" "keeps_msgs E md P cmp" "runOne E md cmp {} (input, input, s) = (rep, (live, snap, s'))"
  shows "snap = live \<and> list_all P live \<and> tokensOf E live \<le> tokensOf E input \<and> TokensBefore rep = tokensOf E input \<and> TokensAfter rep = tokensOf E live"
proof -
  have "tokensOf E out \<le> tokensOf E input" if "kept_output E input (comp_outcome (tokensOf E input) md cmp input s) = Some out" for out
    using that by (auto simp: kept_output_def accepted_def split: option.splits outcome.splits if_splits)
  with runOne_spec [OF assms(1,2,4)] assms(2,3) show ?thesis
    by (auto simp: put_own_empty keeps_msgs_def split: option.splits)
qed

lemma run_comps_never_worse:
  assumes "steady E P" "list_all P input" "\<forall>cmp \<in> set comps. keeps_msgs E md P cmp"
    and "run_comps E md {} comps (input, input, s) = (reps, (live, snap, s'))"
  shows "snap = live \<and> tokensOf E live \<le> tokensOf E input
     \<and> sum_list (map Saved reps) = tokensOf E input - tokensOf E live"
  using assms(2-)
proof (induction comps arbitrary: input s reps)
  case (Cons cmp comps)
  show ?case
  proof (cases "cenabled cmp s")
    case False
    with Cons show ?thesis by simp
  next
    case True
    obtain rep live1 snap1 s1 where r: "runOne E md cmp {} (input, input, s) = (rep, (live1, snap1, s1))"
      by (metis prod_cases3 surj_pair)
    have nw: "snap1 = live1 \<and> list_all P live1 \<and> tokensOf E live1 \<le> tokensOf E input \<and> TokensBefore rep = tokensOf E input \<and> TokensAfter rep = tokensOf E live1"
      using Cons.prems by (intro runOne_never_worse [OF assms(1) _ _ r]) auto
    obtain reps1 st where t: "run_comps E md {} comps (live1, live1, s1) = (reps1, st)" by (metis surj_pair)
    have eq: "reps = rep # reps1" "st = (live, snap, s')" using Cons.prems(3) True r t nw by auto
    with Cons.IH [of live1 s1 reps1] Cons.prems(2) t nw show ?thesis by (auto simp: Saved_def)
  qed
qed simp

text \<open>
  C7: never worse, over a whole run with none of the plugin's own outputs in the request. Whatever
  components are configured and whatever they do, no report claims a growth, and a bypassed request
  is forwarded untouched. When in addition the messages that come in, and those the components
  leave, are messages the clone gives back as they are (for instance a role and valid UTF-8 text,
  with no assumption on the JSON round trip), the request that leaves the run has no more tokens
  than the one that came in and the savings of the reports add up to exactly the difference.
\<close>

theorem run_never_worse:
  assumes "ownOutputs input = {}" "Run E comps c input s = (rr, live, s')"
  shows "(Bypass c \<longrightarrow> live = input \<and> s' = s)
     \<and> (\<forall>r \<in> set (RunComponents rr). TokensAfter r \<le> TokensBefore r)
     \<and> (steady E P \<and> list_all P input \<and> (\<forall>cmp \<in> set comps. keeps_msgs E (effMode (Some c)) P cmp) \<longrightarrow>
          tokensOf E live \<le> tokensOf E input
          \<and> (\<not> Bypass c \<longrightarrow> RunTokensBefore rr = tokensOf E input \<and> RunTokensAfter rr = tokensOf E live
               \<and> sum_list (map Saved (RunComponents rr)) = tokensOf E input - tokensOf E live))"
proof (cases "Bypass c")
  case True
  with assms show ?thesis by (auto simp: Run_def)
next
  case False
  obtain reps live1 snap s1 where r: "run_comps E (effMode (Some c)) {} comps (input, clone E input, s) = (reps, (live1, snap, s1))"
    by (metis prod_cases3 surj_pair)
  have eq: "RunComponents rr = reps" "live = live1" "RunTokensBefore rr = tokensOf E input" "RunTokensAfter rr = tokensOf E live"
    using assms False r by (auto simp: Run_def)
  have "tokensOf E live \<le> tokensOf E input \<and> sum_list (map Saved reps) = tokensOf E input - tokensOf E live"
    if "steady E P" "list_all P input" "\<forall>cmp \<in> set comps. keeps_msgs E (effMode (Some c)) P cmp"
    using run_comps_never_worse [OF that] r by (simp add: clone_id [OF that(1,2)] eq)
  with run_comps_reports [OF r] False show ?thesis by (auto simp: eq)
qed

lemma keeps_all: "keeps_msgs E md (\<lambda>_. True) cmp"
  by (simp add: keeps_msgs_def list_all_iff)

lemma steady_env0: "steady env0 (\<lambda>_. True)"
  by (rule steady_json) (simp add: env0_def)

definition shrinker :: "unit component" where
  "shrinker = \<lparr>cname = ''z'', cenabled = (\<lambda>_. True),
     ckind = Reformat (\<lambda>ms rep s. Returned (map (\<lambda>m. SetMessageText m []) ms) rep [] None s)\<rparr>"

text \<open>Emptying texts keeps plain messages plain, so the bound holds under the rewriting round trip as well.\<close>

lemma plain_cleared: "plain m \<Longrightarrow> plain (SetMessageText m [])"
  by (auto simp: plain_def clonePlainText_def SetMessageText_def valid_string_def split: option.splits if_splits)

lemma shrinker_keeps_plain: "keeps_msgs E md plain shrinker"
  by (auto simp: keeps_msgs_def kept_output_def comp_outcome_def shrinker_def list_all_iff plain_cleared split: if_splits)

lemma panicky_keeps: "keeps_msgs E md P panicky"
  by (simp add: keeps_msgs_def kept_output_def comp_outcome_def panicky_def)

lemma no_own_user: "ownOutputs [user_msg] = {}"
  by (simp add: ownOutputs_def ToolCalls_def user_msg_def SetMessageText_def empty_message_def RoleUser_def RoleTool_def)

theorem run_never_worse_witness:
  "\<exists>rr live. Run env_utf8 [shrinker, panicky] ctx0 [user_msg] () = (rr, live, ()) \<and> tokensOf env_utf8 live \<le> 1"
proof -
  obtain rr live s' where r: "Run env_utf8 [shrinker, panicky] ctx0 [user_msg] () = (rr, live, s')" by (metis prod_cases3)
  have p: "list_all plain [user_msg]" "tokensOf env_utf8 [user_msg] = 1" by code_simp+
  have k: "\<forall>cmp \<in> set [shrinker, panicky]. keeps_msgs env_utf8 (effMode (Some ctx0)) plain cmp"
    by (simp add: shrinker_keeps_plain panicky_keeps)
  with run_never_worse [OF no_own_user r] steady_plain p have "tokensOf env_utf8 live \<le> 1" by metis
  with r show ?thesis by auto
qed

section \<open>The plugin's own outputs\<close>

text \<open>A component that keeps the number of messages, on whatever path it ends.\<close>

definition keeps_count :: "env \<Rightarrow> Mode \<Rightarrow> 's component \<Rightarrow> bool" where
  "keeps_count E md cmp \<longleftrightarrow>
     (\<forall>input s out. kept_output E input (comp_outcome (tokensOf E input) md cmp input s) = Some out \<longrightarrow> length out = length input)"

lemma run_comps_own:
  assumes "steady E P" "list_all P input" "\<forall>cmp \<in> set comps. keeps_count E md cmp \<and> keeps_msgs E md P cmp"
    and "run_comps E md own comps (input, input, s) = (reps, (live, snap, s'))"
  shows "snap = live \<and> length live = length input \<and> (\<forall>i \<in> own. i < length input \<longrightarrow> live ! i = input ! i)"
  using assms(2-)
proof (induction comps arbitrary: input s reps)
  case (Cons cmp comps)
  show ?case
  proof (cases "cenabled cmp s")
    case False
    with Cons show ?thesis by simp
  next
    case True
    obtain rep live1 snap1 s1 where r: "runOne E md cmp own (input, input, s) = (rep, (live1, snap1, s1))"
      by (metis prod_cases3 surj_pair)
    have sp: "snap1 = live1 \<and> list_all P live1 \<and> live1 = (case kept_output E input (comp_outcome (tokensOf E input) md cmp input s) of
        Some out \<Rightarrow> put_own own input out | None \<Rightarrow> input)"
    proof -
      have "list_all P out" if "kept_output E input (comp_outcome (tokensOf E input) md cmp input s) = Some out" for out
        using Cons.prems(1,2) that unfolding keeps_msgs_def by (meson list.set_intros(1))
      from runOne_spec [OF assms(1) Cons.prems(1) r this] show ?thesis by blast
    qed
    have 1: "length live1 = length input \<and> (\<forall>i \<in> own. i < length input \<longrightarrow> live1 ! i = input ! i)"
      using sp Cons.prems(2) by (auto simp: keeps_count_def put_own_def split: option.splits)
    obtain reps1 st where t: "run_comps E md own comps (live1, live1, s1) = (reps1, st)" by (metis surj_pair)
    have "st = (live, snap, s')" using Cons.prems(3) True r t sp by auto
    with Cons.IH [of live1 s1 reps1] Cons.prems(2) sp t 1 show ?thesis by auto
  qed
qed simp

text \<open>
  No component changes a byte of the plugin's own outputs. In a run of components that keep
  the number of messages, over messages the clone gives back as they are, every tool result that answers one of the plugin's own read commands
  leaves the run exactly as it came in, at its own position.
\<close>

theorem own_outputs_untouched:
  assumes "steady E P" "list_all P input"
    and "\<forall>cmp \<in> set comps. keeps_count E (effMode (Some c)) cmp \<and> keeps_msgs E (effMode (Some c)) P cmp"
    and "Run E comps c input s = (rr, live, s')" "i \<in> ownOutputs input"
  shows "i < length input \<and> live ! i = input ! i"
proof -
  obtain tc where "ToolCalls input i = Some tc" using assms(5) by (auto simp: ownOutputs_def)
  then have "(i, tc) \<in> set (ToolCalls_loop 0 input Map.empty)" by (auto simp: ToolCalls_def dest: map_of_SomeD)
  then have l: "i < length input" using ToolCalls_loop_source [of i tc 0 input Map.empty "[]"] by simp
  show ?thesis
  proof (cases "Bypass c")
    case True
    with assms(4) l show ?thesis by (simp add: Run_def)
  next
    case False
    obtain reps live1 snap s1 where
      r: "run_comps E (effMode (Some c)) (ownOutputs input) comps (input, input, s) = (reps, (live1, snap, s1))"
      by (metis prod_cases3 surj_pair)
    with run_comps_own [OF assms(1,2,3) r] assms(4,5) False l show ?thesis
      by (auto simp: Run_def clone_id [OF assms(1,2)])
  qed
qed

lemma shrinker_keeps: "keeps_count E md shrinker"
  by (auto simp: keeps_count_def kept_output_def comp_outcome_def shrinker_def split: if_splits)

lemma tv_is_own: "match_string ownOutput ''scripts/tv.py''"
  by code_simp

lemma own_example: "ownOutputs [call_msg, result_msg] = {1}"
proof -
  have "ToolCalls [call_msg, result_msg] = [1 \<mapsto> \<lparr>tool_name = ''Bash'', tool_args = ''scripts/tv.py''\<rparr>]"
    by (simp add: ToolCalls_def call_msg_def result_msg_def empty_message_def SetMessageText_def RoleAssistant_def RoleTool_def)
  then show ?thesis by (auto simp: ownOutputs_def tv_is_own)
qed

theorem own_outputs_untouched_witness:
  "fst (snd (Run env0 [shrinker] ctx0 [call_msg, result_msg] ())) ! 1 = result_msg"
proof -
  obtain rr live s' where r: "Run env0 [shrinker] ctx0 [call_msg, result_msg] () = (rr, live, s')" by (metis prod_cases3)
  have "list_all (\<lambda>_. True) [call_msg, result_msg]"
    "\<forall>cmp \<in> set [shrinker]. keeps_count env0 (effMode (Some ctx0)) cmp \<and> keeps_msgs env0 (effMode (Some ctx0)) (\<lambda>_. True) cmp"
    by (simp_all add: shrinker_keeps keeps_all)
  from own_outputs_untouched [OF steady_env0 this r, of 1] r show ?thesis by (simp add: own_example)
qed

text \<open>
  A component that pays for a growth elsewhere by shrinking one of the plugin's own outputs.
\<close>

definition trader :: "unit component" where
  "trader = \<lparr>cname = ''t'', cenabled = (\<lambda>_. True),
     ckind = Reformat (\<lambda>ms rep s. Returned [ms ! 0, SetMessageText (ms ! 1) [], SetMessageText (ms ! 2) ''xyz''] rep [] None s)\<rparr>"

text \<open>
  The never-worse comparison is made before the plugin's own outputs are put back, so a
  component that shrinks one of them and grows another message is kept, and the request grows.
\<close>

theorem own_output_can_grow_the_request:
  "\<exists>rr live. Run env0 [trader] ctx0 [call_msg, result_msg, user_msg] () = (rr, live, ())
     \<and> RunTokensBefore rr = 4 \<and> RunTokensAfter rr = 6 \<and> \<not> Reverted (hd (RunComponents rr))"
proof -
  have "ToolCalls [call_msg, result_msg, user_msg] = [1 \<mapsto> \<lparr>tool_name = ''Bash'', tool_args = ''scripts/tv.py''\<rparr>]"
    by (simp add: ToolCalls_def call_msg_def result_msg_def user_msg_def empty_message_def SetMessageText_def RoleAssistant_def
        RoleTool_def RoleUser_def)
  then have own: "ownOutputs [call_msg, result_msg, user_msg] = {1}" by (auto simp: ownOutputs_def tv_is_own)
  have cl: "clone env0 ms = ms" for ms by (rule clone_id [OF steady_env0]) (simp add: list_all_iff)
  have up: "[0..<3] = [0, 1, 2]" by (simp add: upt_rec numeral_3_eq_3)
  show ?thesis
    unfolding Run_def own cl
    by (simp add: ctx0_def trader_def runOne_def judge_def Let_def new_report_def tokensOf_def MessagesTokens_def env0_def [THEN arg_cong [of _ _ count_tokens]]
        MessageText_def call_msg_def result_msg_def user_msg_def empty_message_def SetMessageText_def changedIdx_def up numeral_3_eq_3
        restoreOwn_def Gate_def resync_def cl effMode_def)
qed

section \<open>Discarded changes\<close>

lemma discard_owner_last:
  "discard_owner i reps c best =
     (case find (\<lambda>k. i \<in> set (ChangedIdx (reps ! k))) (rev [0..<length reps]) of Some k \<Rightarrow> Some (c + k) | None \<Rightarrow> best)"
proof (induction reps arbitrary: c best rule: rev_induct)
  case (snoc r reps)
  have step: "discard_owner i (xs @ [r]) c best = (if i \<in> set (ChangedIdx r) then Some (c + length xs) else discard_owner i xs c best)" for xs c best
    by (induction xs arbitrary: c best) auto
  have "find (\<lambda>k. i \<in> set (ChangedIdx ((reps @ [r]) ! k))) (rev [0..<length reps]) = find (\<lambda>k. i \<in> set (ChangedIdx (reps ! k))) (rev [0..<length reps])"
    by (rule find_cong) (auto simp: nth_append)
  with snoc show ?case by (simp add: step)
qed simp

lemma find_rev_upt:
  "find P (rev [0..<n]) = Some k \<longleftrightarrow> k < n \<and> P k \<and> (\<forall>j. k < j \<and> j < n \<longrightarrow> \<not> P j)"
proof (induction n)
  case (Suc n)
  then show ?case by (auto simp: less_Suc_eq)
qed simp

lemma discard_owner_iff:
  "discard_owner i reps 0 None = Some c \<longleftrightarrow>
     c < length reps \<and> i \<in> set (ChangedIdx (reps ! c)) \<and> (\<forall>j. c < j \<and> j < length reps \<longrightarrow> i \<notin> set (ChangedIdx (reps ! j)))"
proof -
  have "discard_owner i reps 0 None = find (\<lambda>k. i \<in> set (ChangedIdx (reps ! k))) (rev [0..<length reps])"
    by (simp add: discard_owner_last split: option.splits)
  then show ?thesis by (simp add: find_rev_upt)
qed

lemma discard_owner_None: "discard_owner i reps 0 None = None \<longleftrightarrow> (\<forall>k < length reps. i \<notin> set (ChangedIdx (reps ! k)))"
proof -
  have "discard_owner i reps 0 None = find (\<lambda>k. i \<in> set (ChangedIdx (reps ! k))) (rev [0..<length reps])"
    by (simp add: discard_owner_last split: option.splits)
  then show ?thesis by (auto simp: find_None_iff)
qed

lemma discard_counts_total:
  "sum_list (map (discard_counts reps d) [0..<length reps])
     = sum_list (map (\<lambda>(i, n). if discard_owner i reps 0 None = None then 0 else n) d)"
proof (induction d)
  case Nil
  then show ?case by (simp add: discard_counts_def)
next
  case (Cons x d)
  obtain i n where x: "x = (i, n)" by fastforce
  have one: "sum_list (map (\<lambda>c. if discard_owner i reps 0 None = Some c then n else 0) [0..<length reps])
      = (if discard_owner i reps 0 None = None then 0 else n)"
  proof (cases "discard_owner i reps 0 None")
    case (Some k)
    then have "k < length reps" by (simp add: discard_owner_iff)
    with Some show ?thesis by (simp add: sum_list_distinct_conv_sum_set)
  qed simp
  have step: "discard_counts reps (x # d) = (\<lambda>c. (if discard_owner i reps 0 None = Some c then n else 0) + discard_counts reps d c)"
    by (auto simp: discard_counts_def x)
  have "sum_list (map (discard_counts reps (x # d)) [0..<length reps])
      = (if discard_owner i reps 0 None = None then 0 else n) + sum_list (map (discard_counts reps d) [0..<length reps])"
    unfolding step sum_list_addf one ..
  with Cons show ?case by (simp add: x)
qed

text \<open>
  A discarded change is charged exactly once, to the last component that changed the message.
  The follow-up reports add up to the discards of the messages some component changed, and a
  component is charged for an index only if no later component changed that index.
\<close>

theorem discards_charged_once:
  "sum_list (map Discarded (RecordDiscards reps d))
     = sum_list (map (\<lambda>(i, n). if \<exists>k < length reps. i \<in> set (ChangedIdx (reps ! k)) then n else 0) d)
   \<and> (discard_owner i reps 0 None = Some c \<longleftrightarrow>
        c < length reps \<and> i \<in> set (ChangedIdx (reps ! c)) \<and> (\<forall>j. c < j \<and> j < length reps \<longrightarrow> i \<notin> set (ChangedIdx (reps ! j))))"
proof -
  have "sum_list (map Discarded (RecordDiscards reps d)) = sum_list (map (discard_counts reps d)
      (filter (\<lambda>c. \<exists>x \<in> set d. discard_owner (fst x) reps 0 None = Some c) [0..<length reps]))"
    by (simp add: RecordDiscards_def comp_def)
  also have "\<dots> = sum_list (map (discard_counts reps d) [0..<length reps])"
  proof (rule sum_list_map_filter)
    fix c assume "c \<in> set [0..<length reps]" "\<not> (\<exists>x \<in> set d. discard_owner (fst x) reps 0 None = Some c)"
    then have "filter (\<lambda>(i, n). discard_owner i reps 0 None = Some c) d = []" by (auto simp: filter_empty_conv)
    then show "discard_counts reps d c = 0" by (simp add: discard_counts_def)
  qed
  also have "\<dots> = sum_list (map (\<lambda>(i, n). if discard_owner i reps 0 None = None then 0 else n) d)"
    by (rule discard_counts_total)
  also have "\<dots> = sum_list (map (\<lambda>(i, n). if \<exists>k < length reps. i \<in> set (ChangedIdx (reps ! k)) then n else 0) d)"
    by (rule arg_cong [of _ _ sum_list], rule map_cong) (auto simp: discard_owner_None)
  finally show ?thesis using discard_owner_iff by blast
qed

theorem discards_charged_once_witness:
  "discard_owner 0 [(new_report ''a'' ModeSync)\<lparr>ChangedIdx := [0]\<rparr>, (new_report ''b'' ModeSync)\<lparr>ChangedIdx := [0]\<rparr>] 0 None = Some 1"
  using discards_charged_once [of "[(new_report ''a'' ModeSync)\<lparr>ChangedIdx := [0]\<rparr>, (new_report ''b'' ModeSync)\<lparr>ChangedIdx := [0]\<rparr>]" "[]" 0 1]
  by (simp add: new_report_def)

end
