(* ===== verification/Expand_Marker.thy ===== *)
theory Expand_Marker
  imports Go_Regexp
begin

text \<open>
  The marker that stands in a message for offloaded content, \<open>src/expand/expand.go\<close>, and the content
  key of \<open>src/internal/extract/extract.go\<close>. The expression \<open>markerRe\<close> is written out as a scanner: its
  class excludes \<open>>\<close>, so the longest run of key bytes is the only candidate. The lemmas show that a
  marker put anywhere into a text is found again, whatever stands around it.
\<close>

definition ToolName :: string where "ToolName = ''context_guru_expand''"

text \<open>U+27EA \<open>cg\<close> U+27EB.\<close>

definition SummaryMarker :: string where
  "SummaryMarker = [CHR 0xE2, CHR 0x9F, CHR 0xAA] @ ''cg'' @ [CHR 0xE2, CHR 0x9F, CHR 0xAB]"

definition Marker :: "string \<Rightarrow> string" where
  "Marker key = ''<<cg:'' @ key @ ''>>''"

definition key_char :: "char \<Rightarrow> bool" where
  "key_char c \<longleftrightarrow> is_word c \<or> c = CHR ''-''"

definition valid_key :: "string \<Rightarrow> bool" where
  "valid_key k \<longleftrightarrow> k \<noteq> [] \<and> length k \<le> 64 \<and> list_all key_char k"

text \<open>The match of \<open>markerRe\<close> at the start of a text: its key and the rest of the text.\<close>

definition markerRe :: "string \<Rightarrow> (string \<times> string) option" where
  "markerRe s =
     (if has_prefix s ''<<cg:''
      then let t = drop 5 s; k = takeWhile key_char t; u = dropWhile key_char t
           in if k \<noteq> [] \<and> length k \<le> 64 \<and> has_prefix u ''>>'' then Some (k, drop 2 u) else None
      else None)"

lemma markerRe_Some:
  assumes "markerRe s = Some (k, rest)"
  shows "s = Marker k @ rest \<and> valid_key k"
proof -
  have p: "has_prefix s ''<<cg:''" and k: "k = takeWhile key_char (drop 5 s)" "k \<noteq> []" "length k \<le> 64"
    and u: "has_prefix (dropWhile key_char (drop 5 s)) ''>>''" "rest = drop 2 (dropWhile key_char (drop 5 s))"
    using assms by (auto simp: markerRe_def Let_def split: if_splits)
  obtain t where t: "s = ''<<cg:'' @ t" using p by (auto simp: has_prefix_iff)
  obtain v where v: "dropWhile key_char (drop 5 s) = ''>>'' @ v" using u(1) by (auto simp: has_prefix_iff)
  have "k = takeWhile key_char t" "dropWhile key_char t = ''>>'' @ rest" using t k(1) u(2) v by simp_all
  then have "t = k @ ''>>'' @ rest" using takeWhile_dropWhile_id [of key_char t] by simp
  moreover have "list_all key_char k" using k(1) by (auto simp: list_all_iff dest: set_takeWhileD)
  ultimately show ?thesis using t k by (simp add: Marker_def valid_key_def)
qed

function find_all :: "string \<Rightarrow> string list" where
  "find_all [] = []"
| "find_all (c # cs) = (case markerRe (c # cs) of Some (k, rest) \<Rightarrow> k # find_all rest | None \<Rightarrow> find_all cs)"
  by pat_completeness auto
termination
proof (relation "measure length")
  fix c cs p k rest
  assume "markerRe (c # cs) = Some p" "(k, rest) = p"
  then have "c # cs = Marker k @ rest" using markerRe_Some by metis
  then have "length (c # cs) = length (Marker k @ rest)" by simp
  then show "(rest, c # cs) \<in> measure length" by (simp add: Marker_def)
qed simp_all

fun first_seen :: "string list \<Rightarrow> string set \<Rightarrow> string list" where
  "first_seen [] seen = []"
| "first_seen (k # ks) seen = (if k \<in> seen then first_seen ks seen else k # first_seen ks (insert k seen))"

definition ParseMarkers :: "string \<Rightarrow> string list" where
  "ParseMarkers s = first_seen (find_all s) {}"

definition HasPlaceholder :: "string \<Rightarrow> bool" where
  "HasPlaceholder s \<longleftrightarrow> str_contains s SummaryMarker \<or> find_all s \<noteq> []"

section \<open>Content keys\<close>

function strip_markers :: "string \<Rightarrow> string" where
  "strip_markers [] = []"
| "strip_markers (c # cs) = (case markerRe (c # cs) of Some (k, rest) \<Rightarrow> strip_markers rest | None \<Rightarrow> c # strip_markers cs)"
  by pat_completeness auto
termination
proof (relation "measure length")
  fix c cs p k rest
  assume "markerRe (c # cs) = Some p" "(k, rest) = p"
  then have "c # cs = Marker k @ rest" using markerRe_Some by metis
  then have "length (c # cs) = length (Marker k @ rest)" by simp
  then show "(rest, c # cs) \<in> measure length" by (simp add: Marker_def)
qed simp_all

fun squeeze :: "bool \<Rightarrow> string \<Rightarrow> string" where
  "squeeze sp [] = []"
| "squeeze sp (c # cs) =
     (if re_space c then (if sp then squeeze True cs else CHR 0x20 # squeeze True cs) else c # squeeze False cs)"

text \<open>The text a content key is taken of, and the key: 24 hexadecimal digits of its SHA-256.\<close>

definition content_form :: "string \<Rightarrow> string" where
  "content_form text =
     trim_space (squeeze False (if str_contains text ''<<cg:'' then strip_markers text else text))"

definition ContentKey :: "(string \<Rightarrow> string) \<Rightarrow> string \<Rightarrow> string" where
  "ContentKey sha_hex text = take 24 (sha_hex (content_form text))"

section \<open>Finding a marker again\<close>

lemma set_first_seen: "set (first_seen ks seen) = set ks - seen"
  by (induction ks seen rule: first_seen.induct) auto

lemma distinct_first_seen: "distinct (first_seen ks seen)"
  by (induction ks seen rule: first_seen.induct) (auto simp: set_first_seen)

lemma set_ParseMarkers [simp]: "set (ParseMarkers s) = set (find_all s)"
  by (simp add: ParseMarkers_def set_first_seen)

lemma markerRe_Marker: "valid_key k \<Longrightarrow> markerRe (Marker k @ rest) = Some (k, rest)"
proof -
  assume v: "valid_key k"
  then have a: "list_all key_char k" by (simp add: valid_key_def)
  have "takeWhile key_char (k @ ''>>'' @ rest) = k" "dropWhile key_char (k @ ''>>'' @ rest) = ''>>'' @ rest"
    using a by (auto simp: takeWhile_append2 dropWhile_append2 list_all_iff key_char_def is_word_def is_digit_def is_upper_def is_lower_def)
  with v show ?thesis by (simp add: markerRe_def Marker_def has_prefix_def valid_key_def)
qed

text \<open>A match that starts before a marker ends before it.\<close>

lemma markerRe_before:
  assumes "markerRe (pre @ Marker k @ post) = Some (j, rest)" "pre \<noteq> []"
  shows "\<exists>pre'. pre = Marker j @ pre' \<and> rest = pre' @ Marker k @ post"
proof -
  have eq: "pre @ Marker k @ post = Marker j @ rest" and v: "valid_key j" using markerRe_Some [OF assms(1)] by auto
  from eq obtain us where "pre = Marker j @ us \<and> us @ Marker k @ post = rest \<or> pre @ us = Marker j \<and> Marker k @ post = us @ rest"
    unfolding append_eq_append_conv2 by blast
  then consider "pre = Marker j @ us" "us @ Marker k @ post = rest"
    | "pre @ us = Marker j" "Marker k @ post = us @ rest" "us \<noteq> []" by (cases "us = []") auto
  then show ?thesis
  proof cases
    case 2
    then obtain us' where us: "us = CHR ''<'' # us'" by (cases us) (auto simp: Marker_def)
    have "\<not> key_char CHR ''<''" by (simp add: key_char_def is_word_def is_digit_def is_upper_def is_lower_def)
    then have key: "CHR ''<'' \<notin> set (''cg:'' @ j @ ''>>'')" using v by (auto simp: valid_key_def list_all_iff)
    have split: "pre @ CHR ''<'' # us' = CHR ''<'' # CHR ''<'' # (''cg:'' @ j @ ''>>'')" using 2 us by (simp add: Marker_def)
    then obtain p where p: "pre = CHR ''<'' # p" using assms(2) by (cases pre) auto
    with split have tail: "p @ CHR ''<'' # us' = CHR ''<'' # (''cg:'' @ j @ ''>>'')" by simp
    have "us' = ''cg:'' @ j @ ''>>''"
    proof (cases p)
      case (Cons a q)
      with tail have "q @ CHR ''<'' # us' = ''cg:'' @ j @ ''>>''" by simp
      then have "CHR ''<'' \<in> set (''cg:'' @ j @ ''>>'')" by (metis in_set_conv_decomp)
      with key show ?thesis by contradiction
    qed (use tail in simp)
    with 2 us have False by (auto simp: Marker_def)
    then show ?thesis ..
  qed auto
qed

lemma Marker_found: "valid_key k \<Longrightarrow> k \<in> set (find_all (pre @ Marker k @ post))"
proof (induction pre rule: length_induct)
  case (1 pre)
  show ?case
  proof (cases pre)
    case Nil
    have "find_all (Marker k @ post) = k # find_all post"
      using markerRe_Marker [OF 1(2), of post] by (cases "Marker k @ post") (auto simp: Marker_def)
    with Nil show ?thesis by simp
  next
    case (Cons c cs)
    show ?thesis
    proof (cases "markerRe (pre @ Marker k @ post)")
      case None
      with Cons 1 show ?thesis by simp
    next
      case (Some p)
      obtain j rest where p: "p = (j, rest)" by fastforce
      with markerRe_before [of pre k post j rest] Some Cons obtain pre' where
        pre': "pre = Marker j @ pre'" "rest = pre' @ Marker k @ post" by auto
      then have "length pre' < length pre" by (simp add: Marker_def)
      with 1 pre' have "k \<in> set (find_all rest)" by blast
      with Some p Cons show ?thesis by simp
    qed
  qed
qed

lemma find_all_source: "k \<in> set (find_all s) \<Longrightarrow> valid_key k \<and> (\<exists>pre post. s = pre @ Marker k @ post)"
proof (induction s rule: find_all.induct)
  case (2 c cs)
  show ?case
  proof (cases "markerRe (c # cs)")
    case None
    with 2 show ?thesis by (auto intro: exI [of _ "c # _"]) (metis append_Cons)
  next
    case (Some p)
    obtain j rest where p: "p = (j, rest)" by fastforce
    note s = markerRe_Some [of "c # cs" j rest] Some p
    show ?thesis
    proof (cases "k = j")
      case True
      with s show ?thesis by (metis append_Nil)
    next
      case False
      with 2 Some p have "valid_key k" "\<exists>pre post. rest = pre @ Marker k @ post" by auto
      with s show ?thesis by (metis append.assoc)
    qed
  qed
qed simp

text \<open>
  C28: the keys read out of a text are exactly the well-formed keys whose marker occurs in it,
  each once, whatever stands before, between and after the markers.
\<close>

theorem ParseMarkers_exact:
  "distinct (ParseMarkers s)
   \<and> (k \<in> set (ParseMarkers s) \<longleftrightarrow> valid_key k \<and> str_contains s (Marker k))"
  using Marker_found find_all_source [of k s]
  by (auto simp: ParseMarkers_def distinct_first_seen set_first_seen str_contains_iff)

lemma marked_has_placeholder: "valid_key k \<Longrightarrow> HasPlaceholder (pre @ Marker k @ post)"
  using Marker_found [of k pre post] by (auto simp: HasPlaceholder_def)

end
