(* ===== verification/Store_Interface.thy ===== *)
theory Store_Interface
  imports Store_Reserve
begin

text \<open>
  The store as its clients see it: the interfaces \<open>Store\<close>, \<open>Stasher\<close>, \<open>Peeker\<close> and \<open>FrozenLoser\<close> of
  \<open>src/store/store.go\<close>, an optional capability being a method that may be absent, and the dispatching
  helpers \<open>PutStash\<close>, \<open>StashRoom\<close> and \<open>Peek\<close>. The locale \<open>rewind_store\<close> states what an offloader relies on:
  a payload the reserve accepted is readable and no other write disturbs it; \<open>decision_store\<close> adds what
  replaying a frozen decision relies on. The in-memory store and the disabled store are instances.
\<close>

record 's Store =
  iPut :: "instant \<Rightarrow> string \<Rightarrow> bytes \<Rightarrow> 's \<Rightarrow> 's"
  iGet :: "instant \<Rightarrow> string \<Rightarrow> 's \<Rightarrow> bytes option \<times> 's"
  iPersists :: bool
  iPutStash :: "(instant \<Rightarrow> string \<Rightarrow> bytes \<Rightarrow> 's \<Rightarrow> bool \<times> 's) option"
  iStashRoom :: "(instant \<Rightarrow> int \<Rightarrow> 's \<Rightarrow> bool \<times> 's) option"
  iPeek :: "(instant \<Rightarrow> string \<Rightarrow> 's \<Rightarrow> bool) option"
  iFrozenLost :: "(string \<Rightarrow> 's \<Rightarrow> bool) option"

definition store_PutStash :: "'s Store \<Rightarrow> instant \<Rightarrow> string \<Rightarrow> bytes \<Rightarrow> 's \<Rightarrow> bool \<times> 's" where
  "store_PutStash I now key pl s =
     (case iPutStash I of Some f \<Rightarrow> f now key pl s | None \<Rightarrow> (True, iPut I now key pl s))"

definition store_StashRoom :: "'s Store \<Rightarrow> instant \<Rightarrow> int \<Rightarrow> 's \<Rightarrow> bool \<times> 's" where
  "store_StashRoom I now sz s = (case iStashRoom I of Some f \<Rightarrow> f now sz s | None \<Rightarrow> (True, s))"

definition store_Peek :: "'s Store \<Rightarrow> instant \<Rightarrow> string \<Rightarrow> 's \<Rightarrow> bool \<times> 's" where
  "store_Peek I now key s =
     (case iPeek I of Some f \<Rightarrow> (f now key s, s) | None \<Rightarrow> (case iGet I now key s of (v, s) \<Rightarrow> (v \<noteq> None, s)))"

definition memory_store :: "Memory Store" where
  "memory_store = \<lparr>iPut = Put, iGet = Get, iPersists = True, iPutStash = Some PutStash, iStashRoom = Some StashRoom,
     iPeek = Some Peek, iFrozenLost = Some FrozenLost\<rparr>"

text \<open>The disabled store \<open>Nop\<close>.\<close>

definition nop_store :: "unit Store" where
  "nop_store = \<lparr>iPut = (\<lambda>_ _ _ s. s), iGet = (\<lambda>_ _ s. (None, s)), iPersists = False,
     iPutStash = Some (\<lambda>_ _ _ s. (False, s)), iStashRoom = Some (\<lambda>_ _ s. (False, s)), iPeek = None, iFrozenLost = None\<rparr>"

section \<open>What clients rely on\<close>

text \<open>Keys that no read brings back from the disk.\<close>

definition local_key :: "string \<Rightarrow> bool" where
  "local_key k \<longleftrightarrow> \<not> hasAnyPrefix k globalPrefixes"

locale rewind_store =
  fixes I :: "'s Store" and ok :: "'s \<Rightarrow> bool" and holds :: "instant \<Rightarrow> string \<Rightarrow> bytes \<Rightarrow> 's \<Rightarrow> bool"
  assumes put_ok: "ok s \<Longrightarrow> \<not> bare k \<Longrightarrow> ok (iPut I now k v s)"
    and get_ok: "ok s \<Longrightarrow> ok (snd (iGet I now k s))"
    and stash_ok: "ok s \<Longrightarrow> bare k \<Longrightarrow> ok (snd (store_PutStash I now k v s))"
    and stash_holds: "ok s \<Longrightarrow> bare k \<Longrightarrow> fst (store_PutStash I now k v s) \<Longrightarrow> holds now k v (snd (store_PutStash I now k v s))"
    and holds_get: "ok s \<Longrightarrow> holds now k v s \<Longrightarrow> fst (iGet I now k s) = Some v"
    and holds_put: "ok s \<Longrightarrow> bare k \<Longrightarrow> \<not> bare j \<Longrightarrow> holds now k v s \<Longrightarrow> holds now k v (iPut I now j u s)"
    and holds_read: "ok s \<Longrightarrow> bare k \<Longrightarrow> holds now k v s \<Longrightarrow> holds now k v (snd (iGet I now j s))"
    and holds_stash: "ok s \<Longrightarrow> bare k \<Longrightarrow> bare j \<Longrightarrow> j \<noteq> k \<Longrightarrow> holds now k v s \<Longrightarrow>
      holds now k v (snd (store_PutStash I now j u s))"
    and refused_holds: "ok s \<Longrightarrow> bare k \<Longrightarrow> bare j \<Longrightarrow> \<not> fst (store_PutStash I now j u s) \<Longrightarrow> holds now k v s \<Longrightarrow>
      holds now k v (snd (store_PutStash I now j u s))"
    and peek_state: "ok s \<Longrightarrow> snd (store_Peek I now k s) = s \<or> snd (store_Peek I now k s) = snd (iGet I now k s)"
begin

lemma peek_ok: "ok s \<Longrightarrow> ok (snd (store_Peek I now k s))"
  using peek_state [of s now k] get_ok by auto

lemma peek_holds: "ok s \<Longrightarrow> bare k \<Longrightarrow> holds now k v s \<Longrightarrow> holds now k v (snd (store_Peek I now j s))"
  using peek_state [of s now j] holds_read by auto

text \<open>Two payloads accepted one after the other are both served.\<close>

lemma stash_both:
  assumes "ok s" "bare k" "bare j" "j \<noteq> k" "fst (store_PutStash I now k v s)"
    "fst (store_PutStash I now j u (snd (store_PutStash I now k v s)))"
  defines "t \<equiv> snd (store_PutStash I now j u (snd (store_PutStash I now k v s)))"
  shows "fst (iGet I now k t) = Some v \<and> fst (iGet I now j t) = Some u"
proof -
  have "ok (snd (store_PutStash I now k v s))" "holds now k v (snd (store_PutStash I now k v s))"
    using assms stash_ok stash_holds by auto
  with assms have "ok t" "holds now k v t" "holds now j u t"
    by (auto simp: t_def stash_ok stash_holds holds_stash)
  then show ?thesis using holds_get by blast
qed

end

locale decision_store = rewind_store +
  assumes put_get: "ok s \<Longrightarrow> iPersists I \<Longrightarrow> \<not> bare k \<Longrightarrow> local_key k \<Longrightarrow> fst (iGet I now k (iPut I now k v s)) = Some v"
    and absent_put: "ok s \<Longrightarrow> \<not> bare k \<Longrightarrow> j \<noteq> k \<Longrightarrow> local_key j \<Longrightarrow> fst (iGet I now j s) = None \<Longrightarrow>
      fst (iGet I now j (iPut I now k v s)) = None"
    and absent_stash: "ok s \<Longrightarrow> bare k \<Longrightarrow> j \<noteq> k \<Longrightarrow> local_key j \<Longrightarrow> fst (iGet I now j s) = None \<Longrightarrow>
      fst (iGet I now j (snd (store_PutStash I now k v s))) = None"
    and miss_frame: "ok s \<Longrightarrow> local_key k \<Longrightarrow> local_key j \<Longrightarrow> fst (iGet I now k s) = None \<Longrightarrow>
      fst (iGet I now j (snd (iGet I now k s))) = fst (iGet I now j s)"

section \<open>The in-memory store\<close>

text \<open>Only the entry under the key of an operation is new.\<close>

definition from_old :: "string \<Rightarrow> Memory \<Rightarrow> Memory \<Rightarrow> bool" where
  "from_old k m m' \<longleftrightarrow> (\<forall>e \<in> set (ll m'). ekey e \<noteq> k \<longrightarrow> e \<in> set (ll m))"

definition sealed :: "Memory \<Rightarrow> bool" where
  "sealed m \<longleftrightarrow> (\<forall>e \<in> set (ll m). bare (ekey e) \<longrightarrow> stash e)"

definition mem_ok :: "Memory \<Rightarrow> bool" where
  "mem_ok m \<longleftrightarrow> good m \<and> sealed m \<and> ttl_ok m"

definition mem_holds :: "instant \<Rightarrow> string \<Rightarrow> bytes \<Rightarrow> Memory \<Rightarrow> bool" where
  "mem_holds now k v m \<longleftrightarrow> promise k v now m"

lemma from_old_refl [simp]: "from_old k m m"
  by (simp add: from_old_def)

lemma from_old_trans: "from_old k m m1 \<Longrightarrow> from_old k m1 m2 \<Longrightarrow> from_old k m m2"
  by (auto simp: from_old_def)

lemma from_old_disk [simp]: "from_old k m (m'\<lparr>disk := d\<rparr>) = from_old k m m'" "from_old k (m\<lparr>disk := d\<rparr>) m' = from_old k m m'"
  by (simp_all add: from_old_def)

lemma shrunk_from_old: "shrunk now m m' \<Longrightarrow> from_old k m m'"
  by (auto simp: shrunk_def from_old_def)

lemma putLocked_from_old:
  assumes "mem_wf m" "no_clash k v m"
  shows "from_old k m (putLocked now k v m)"
proof -
  define m1 where "m1 = repairLost k m"
  have 1: "wf_core m1" "no_clash k v m1" "ll m1 = ll m"
    using assms by (auto simp: m1_def mem_wf_def wf_core_repairLost)
  note f = put_front_facts [OF 1(1,2), of now]
  have a: "from_old k m (put_front now k v m1)" using f(6) 1(3) put_entry_simps(1) [of now k v m1] by (auto simp: from_old_def)
  have "from_old k (put_front now k v m1) (evict_loop now (put_front now k v m1))"
    using evict_loop_spec [OF f(1), of now] shrunk_from_old by blast
  with a show ?thesis by (auto simp: putLocked_eq m1_def [symmetric] Let_def intro: from_old_trans split: option.split)
qed

lemma Put_from_old:
  assumes "good m" "\<not> bare k"
  shows "from_old k m (Put now k v m)"
proof -
  have "no_clash k v m" using assms by (auto simp: good_def intro: no_clash_disciplined)
  with assms putLocked_from_old [of m k v now] have "from_old k m (putLocked now k v m)" by (simp add: good_def)
  then show ?thesis by (auto simp: Put_def Let_def split: option.split)
qed

lemma PutStash_from_old:
  assumes "good m" "PutStash now k v m = (b, m')"
  shows "from_old k m m'"
proof (cases "find_el k m")
  case (Some e)
  then have "ll m' = stash_refresh now v e m # remove1 e (ll m)" "ekey (stash_refresh now v e m) = k"
    using assms(2) find_el_Some [OF Some] by (auto simp: PutStash_refresh_eq stash_refresh_def Let_def)
  then show ?thesis using set_remove1_subset [of e "ll m"] by (auto simp: from_old_def)
next
  case None
  define m1 where "m1 = reserve_swept now (int (length v)) m"
  have w: "wf_core m" using assms(1) by (simp add: good_def mem_wf_def)
  have s: "shrunk now m m1" using reserve_swept_shrunk [OF w] by (simp add: m1_def)
  then have w1: "wf_core m1" and k: "k \<notin> ekey ` set (ll m1)" using find_el_None [OF w] None by (auto simp: shrunk_def)
  show ?thesis
  proof (cases "no_stash_room m1 (int (length v))")
    case True
    then have "ll m' = ll m1" using assms(2) None by (auto simp: PutStash_new_eq m1_def Let_def)
    with s show ?thesis by (auto simp: from_old_def shrunk_def)
  next
    case False
    then have eq: "m' = evict_loop now (stash_front now k v m1)" using assms(2) None by (auto simp: PutStash_new_eq m1_def Let_def)
    note f = stash_front_facts [OF w1 k False, of now]
    have "from_old k m1 (stash_front now k v m1)" by (simp add: from_old_def f(4) new_stash_def)
    with s eq evict_loop_spec [OF f(1), of now] show ?thesis by (meson from_old_trans shrunk_from_old)
  qed
qed

lemma getMem_from_old:
  assumes "mem_wf m" "getMem now k m = (r, m')"
  shows "from_old k m m'"
proof (cases "find_el k m")
  case (Some e)
  note e = find_el_Some [OF Some]
  have "set (ll m') \<subseteq> insert (get_entry now e m) (set (ll m)) \<or> set (ll m') \<subseteq> set (ll m)"
    using assms(2) Some set_remove1_subset [of e "ll m"] getMem_wf [OF assms]
    by (auto simp: getMem_def setExpiry_eq moveToFront_def get_entry_def Let_def split: if_splits)
  moreover have "ekey (get_entry now e m) = k" using e by (simp add: get_entry_def)
  ultimately show ?thesis by (auto simp: from_old_def)
qed (use assms in \<open>simp add: getMem_def\<close>)

lemma Get_from_old:
  assumes "good m" "Get now k m = (r, m')"
  shows "from_old k m m'"
proof -
  have m: "mem_wf m" "disciplined m" using assms(1) by (simp_all add: good_def)
  obtain r1 m1 where g: "getMem now k m = (r1, m1)" by fastforce
  note w1 = getMem_wf [OF m(1) g]
  have f1: "from_old k m m1" by (rule getMem_from_old [OF m(1) g])
  have d1: "disciplined m1" using w1 m(2) disciplined_mono by blast
  have "from_old k m1 m'" if "getGlobal now k m1 = (r, m')"
  proof (cases "disk m1")
    case (Some d)
    obtain u d' where u: "disk_get k d = (u, d')" by fastforce
    have "from_old k m1 (putLocked now k v (m1\<lparr>disk := Some d'\<rparr>))" if "isGlobal d k" for v
      using putLocked_from_old [of "m1\<lparr>disk := Some d'\<rparr>" k v now] no_clash_disciplined [of m1 k v] w1 d1 that
      by (auto simp: isGlobal_def dest: allowed_not_bare)
    with that Some u show ?thesis by (auto simp: getGlobal_def Let_def split: if_splits option.splits)
  qed (use that in \<open>simp add: getGlobal_def\<close>)
  with g assms(2) f1 show ?thesis by (cases r1) (auto simp: Get_def intro: from_old_trans)
qed

text \<open>What a read of a local key answers.\<close>

definition look :: "instant \<Rightarrow> string \<Rightarrow> Memory \<Rightarrow> bytes option" where
  "look now k m = (case find_el k m of None \<Rightarrow> None | Some e \<Rightarrow> if now > expires e then None else Some (payload e))"

lemma isGlobal_local: "local_key k \<Longrightarrow> \<not> isGlobal d k"
  by (simp add: local_key_def isGlobal_def)

lemma Get_local:
  assumes "mem_wf m" "local_key k"
  shows "fst (Get now k m) = look now k m"
proof -
  obtain r m1 where g: "getMem now k m = (r, m1)" by fastforce
  have "fst (getGlobal now k m1) = None"
    by (auto simp: getGlobal_def Let_def isGlobal_local [OF assms(2)] split: option.split prod.split)
  moreover have "r = look now k m" using getMem_wf [OF assms(1) g] by (auto simp: look_def split: option.splits if_splits)
  ultimately show ?thesis using g by (auto simp: Get_def split: option.split)
qed

lemma look_None: "wf_core m \<Longrightarrow> look now k m = None \<longleftrightarrow> (\<forall>e \<in> set (ll m). ekey e = k \<longrightarrow> now > expires e)"
  using find_el_in [of m] by (force simp: look_def dest: find_el_Some find_el_None split: option.split)

lemma absent_from_old:
  "wf_core m \<Longrightarrow> wf_core m' \<Longrightarrow> from_old k m m' \<Longrightarrow> j \<noteq> k \<Longrightarrow> look now j m = None \<Longrightarrow> look now j m' = None"
  by (auto simp: look_None from_old_def)

lemma sealed_from_old: "sealed m \<Longrightarrow> from_old k m m' \<Longrightarrow> \<not> bare k \<Longrightarrow> sealed m'"
  by (auto simp: sealed_def from_old_def)

lemma kept_ttl_ok: "kept now k m m' \<Longrightarrow> ttl_ok m \<Longrightarrow> ttl_ok m'"
  by (auto simp: kept_def ttl_ok_def dest: config_caps)

lemma mem_ok_Put: "mem_ok m \<Longrightarrow> \<not> bare k \<Longrightarrow> mem_ok (Put now k v m)"
  using Put_good [of m k now v] Put_from_old [of m k now v]
  by (auto simp: mem_ok_def intro: sealed_from_old kept_ttl_ok)

lemma Get_good: "good m \<Longrightarrow> good (snd (Get now k m)) \<and> kept now k m (snd (Get now k m))"
  using Get_wf [of m now k "fst (Get now k m)" "snd (Get now k m)"] by (auto simp: good_def intro: disciplined_mono)

lemma Get_bare:
  assumes "mem_ok m" "bare k"
  shows "sealed (snd (Get now k m))"
proof -
  have w: "mem_wf m" using assms(1) by (simp add: mem_ok_def good_def)
  obtain r m1 where g: "getMem now k m = (r, m1)" by fastforce
  have "\<not> isGlobal d k" for d using assms(2) by (auto simp: isGlobal_def dest: allowed_not_bare)
  then have "ll (snd (getGlobal now k m1)) = ll m1"
    by (auto simp: getGlobal_def Let_def split: option.split prod.split)
  then have ll: "ll (snd (Get now k m)) = ll m1" using g by (auto simp: Get_def split: option.split)
  have "set (ll m1) \<subseteq> set (ll m) \<or> (\<exists>e \<in> set (ll m). ekey e = k \<and> set (ll m1) \<subseteq> insert (get_entry now e m) (set (ll m)))"
  proof (cases "find_el k m")
    case (Some e)
    then show ?thesis using g set_remove1_subset [of e "ll m"] find_el_Some [OF Some] getMem_wf [OF w g]
      by (auto simp: getMem_def setExpiry_eq moveToFront_def get_entry_def Let_def split: if_splits)
  qed (use g in \<open>simp add: getMem_def\<close>)
  moreover have "stash (get_entry now e m) = stash e" "ekey (get_entry now e m) = ekey e" for e by (simp_all add: get_entry_def)
  moreover have "\<forall>e \<in> set (ll m). bare (ekey e) \<longrightarrow> stash e" using assms(1) by (simp add: mem_ok_def sealed_def)
  ultimately show ?thesis unfolding sealed_def ll by (metis insert_iff subsetD)
qed

lemma mem_ok_Get: "mem_ok m \<Longrightarrow> mem_ok (snd (Get now k m))"
proof -
  assume m: "mem_ok m"
  have "sealed (snd (Get now k m))"
  proof (cases "bare k")
    case False
    with m Get_from_old [of m now k "fst (Get now k m)" "snd (Get now k m)"] show ?thesis
      by (auto simp: mem_ok_def intro: sealed_from_old)
  qed (use m Get_bare in blast)
  with m Get_good [of m now k] show ?thesis by (auto simp: mem_ok_def intro: kept_ttl_ok)
qed

lemma PutStash_establishes:
  assumes "mem_ok m" "bare k" "PutStash now k v m = (b, m')"
  shows "mem_ok m' \<and> (b \<longrightarrow> mem_holds now k v m')"
proof -
  have w: "mem_wf m" and g: "good m" and t: "ttl_ok m" and s: "sealed m" using assms(1) by (auto simp: mem_ok_def good_def)
  have g': "good m'" "kept now k m m'" using PutStash_good [OF g assms(2,3)] by auto
  have fo: "from_old k m m'" by (rule PutStash_from_old [OF g assms(3)])
  have d: "distinct (map ekey (ll m'))" using g' by (simp add: good_def mem_wf_def wf_core_def keys_ok_def)
  have seal: "sealed m'" if "e \<in> set (ll m')" "ekey e = k" "stash e" for e
    unfolding sealed_def
  proof safe
    fix x assume x: "x \<in> set (ll m')" "bare (ekey x)"
    show "stash x"
    proof (cases "ekey x = k")
      case True
      with d x(1) that have "x = e" by (metis distinct_map inj_on_def)
      with that show ?thesis by simp
    next
      case False
      with fo x s show ?thesis by (auto simp: from_old_def sealed_def)
    qed
  qed
  have "sealed m' \<and> (b \<longrightarrow> mem_holds now k v m')"
  proof (cases "find_el k m")
    case (Some e)
    note e = find_el_Some [OF Some]
    have st: "stash e" using e s assms(2) by (auto simp: sealed_def)
    note r = stash_refresh_promise [OF disjI1 [OF st] _ refl, of k now v m]
    have "stash_refresh now v e m \<in> set (ll m')" using PutStash_refresh_wf [OF w Some assms(3)] by simp
    with r e t seal show ?thesis by (auto simp: mem_holds_def promise_def ttl_ok_def)
  next
    case None
    note p = PutStash_new_wf [OF w None assms(3)]
    show ?thesis
    proof (cases b)
      case True
      with p t have "new_stash now k v m \<in> set (ll m')" by simp
      with seal t show ?thesis by (force simp: new_stash_def mem_holds_def promise_def ttl_ok_def)
    next
      case False
      with p s show ?thesis by (auto simp: sealed_def)
    qed
  qed
  with g' t show ?thesis by (auto simp: mem_ok_def intro: kept_ttl_ok)
qed

lemma mem_holds_kept: "kept now j m m' \<Longrightarrow> j \<noteq> k \<Longrightarrow> mem_holds now k v m \<Longrightarrow> mem_holds now k v m'"
  unfolding mem_holds_def by (rule promise_kept) auto

lemma mem_holds_Get:
  assumes "mem_ok m" "bare k" "mem_holds now k v m"
  shows "mem_holds now k v (snd (Get now j m))"
proof -
  have "0 \<le> stashTTL m" "good m" using assms(1) by (auto simp: mem_ok_def ttl_ok_def)
  with apply_op_promise [of m "OpGet j" k v now now] assms show ?thesis by (simp add: mem_holds_def)
qed

lemma refused_keeps:
  assumes "good m" "PutStash now j u m = (False, m')" "mem_holds now k v m"
  shows "mem_holds now k v m'"
proof -
  have w: "mem_wf m" using assms(1) by (simp add: good_def)
  have "find_el j m = None" using PutStash_refresh_wf [OF w _ assms(2)] by (cases "find_el j m") auto
  with PutStash_new_wf [OF w _ assms(2)] assms(3) show ?thesis by (fastforce simp: mem_holds_def promise_def)
qed

lemmas memory_store_simps [simp] =
  memory_store_def [THEN arg_cong [of _ _ iPut], simplified] memory_store_def [THEN arg_cong [of _ _ iGet], simplified]
  memory_store_def [THEN arg_cong [of _ _ iPersists], simplified] memory_store_def [THEN arg_cong [of _ _ iFrozenLost], simplified]

lemma memory_stash [simp]: "store_PutStash memory_store = PutStash"
  by (simp add: fun_eq_iff store_PutStash_def memory_store_def)

lemma memory_peek [simp]: "store_Peek memory_store now k m = (Peek now k m, m)"
  by (simp add: store_Peek_def memory_store_def)

interpretation mem_rewind: rewind_store memory_store mem_ok mem_holds
proof unfold_locales
  fix m :: Memory and now k j v u
  assume m: "mem_ok m"
  then have g: "good m" by (simp add: mem_ok_def)
  show "\<not> bare k \<Longrightarrow> mem_ok (iPut memory_store now k v m)" using m by (simp add: mem_ok_Put)
  show "mem_ok (snd (iGet memory_store now k m))" using m by (simp add: mem_ok_Get)
  show "bare k \<Longrightarrow> mem_ok (snd (store_PutStash memory_store now k v m))"
    using PutStash_establishes [OF m, of k now v "fst (PutStash now k v m)"] by simp
  show "bare k \<Longrightarrow> fst (store_PutStash memory_store now k v m) \<Longrightarrow> mem_holds now k v (snd (store_PutStash memory_store now k v m))"
    using PutStash_establishes [OF m, of k now v True "snd (PutStash now k v m)"] by (auto simp: prod_eq_iff)
  show "mem_holds now k v m \<Longrightarrow> fst (iGet memory_store now k m) = Some v"
    using promise_Get [OF g, of k v now now] by (simp add: mem_holds_def)
  show "bare k \<Longrightarrow> \<not> bare j \<Longrightarrow> mem_holds now k v m \<Longrightarrow> mem_holds now k v (iPut memory_store now j u m)"
    using Put_good [OF g, of j now u] mem_holds_kept [of now j m _ k v] by auto
  show "bare k \<Longrightarrow> mem_holds now k v m \<Longrightarrow> mem_holds now k v (snd (iGet memory_store now j m))"
    using mem_holds_Get [OF m] by simp
  show "bare k \<Longrightarrow> bare j \<Longrightarrow> j \<noteq> k \<Longrightarrow> mem_holds now k v m \<Longrightarrow> mem_holds now k v (snd (store_PutStash memory_store now j u m))"
    using PutStash_good [OF g, of j now u "fst (PutStash now j u m)"] mem_holds_kept [of now j m _ k v] by auto
  show "bare k \<Longrightarrow> bare j \<Longrightarrow> \<not> fst (store_PutStash memory_store now j u m) \<Longrightarrow> mem_holds now k v m \<Longrightarrow>
      mem_holds now k v (snd (store_PutStash memory_store now j u m))"
    using refused_keeps [OF g, of now j u "snd (PutStash now j u m)" k v] by (auto simp: prod_eq_iff)
  show "snd (store_Peek memory_store now k m) = m \<or> snd (store_Peek memory_store now k m) = snd (iGet memory_store now k m)"
    by simp
qed

lemma Put_present:
  assumes "mem_ok m" "\<not> bare k"
  shows "fst (Get now k (Put now k v m)) = Some v"
proof -
  have nc: "no_clash k v m" using assms by (auto simp: mem_ok_def good_def intro: no_clash_disciplined)
  then obtain e where e: "e \<in> set (ll (putLocked now k v m))" "ekey e = k" "payload e = v" "now \<le> expires e"
    using putLocked_present [OF _ nc] assms(1) by (auto simp: mem_ok_def good_def)
  have "ll (Put now k v m) = ll (putLocked now k v m)" by (simp add: Put_def Let_def split: option.split)
  with e mem_ok_Put [OF assms] live_Get show ?thesis by (auto simp: mem_ok_def good_def)
qed

lemma miss_keeps_looks:
  assumes "mem_wf m" "local_key k" "fst (Get now k m) = None"
  shows "look now j (snd (Get now k m)) = look now j m"
proof -
  obtain r m1 where g: "getMem now k m = (r, m1)" by fastforce
  have n: "look now k m = None" using Get_local [OF assms(1,2)] assms(3) by simp
  have "look now j m1 = look now j m"
  proof (cases "find_el k m")
    case (Some e)
    with n have m1: "m1 = remove_el e m" and e: "ekey e = k" using g find_el_Some [OF Some]
      by (auto simp: getMem_def look_def split: if_splits)
    have w: "wf_core m" "wf_core m1" using assms(1) wf_core_remove_el [of m e] find_el_Some [OF Some] m1 by (auto simp: mem_wf_def)
    show ?thesis
    proof (cases "j = k")
      case True
      have "set (ll m1) \<subseteq> set (ll m)" using set_remove1_subset [of e "ll m"] m1 by simp
      then have "look now k m1 = None" using n w by (auto simp: look_None)
      with True n show ?thesis by simp
    next
      case False
      with e have "find_el j m1 = find_el j m" by (simp add: m1 find_el_def find_remove1_other)
      then show ?thesis by (simp add: look_def)
    qed
  qed (use g in \<open>simp add: getMem_def\<close>)
  moreover have "look now j (snd (getGlobal now k m1)) = look now j m1"
    by (auto simp: getGlobal_def Let_def isGlobal_local [OF assms(2)] look_def split: option.split prod.split)
  ultimately show ?thesis using g by (auto simp: Get_def split: option.split)
qed

interpretation mem_decisions: decision_store memory_store mem_ok mem_holds
proof unfold_locales
  fix m :: Memory and now k j v
  assume m: "mem_ok m"
  then have g: "good m" "mem_wf m" "wf_core m" by (auto simp: mem_ok_def good_def mem_wf_def)
  have w: "mem_ok m' \<Longrightarrow> mem_wf m' \<and> wf_core m'" for m' by (auto simp: mem_ok_def good_def mem_wf_def)
  show "\<not> bare k \<Longrightarrow> fst (iGet memory_store now k (iPut memory_store now k v m)) = Some v"
    using Put_present [OF m] by simp
  show "fst (iGet memory_store now j (iPut memory_store now k v m)) = None"
    if "\<not> bare k" "j \<noteq> k" "local_key j" "fst (iGet memory_store now j m) = None"
    using that w [OF mem_ok_Put [OF m that(1)]] g absent_from_old [OF g(3) _ Put_from_old [OF g(1) that(1)] that(2)]
    by (simp add: Get_local)
  show "fst (iGet memory_store now j (snd (store_PutStash memory_store now k v m))) = None"
    if "bare k" "j \<noteq> k" "local_key j" "fst (iGet memory_store now j m) = None"
  proof -
    obtain b m' where p: "PutStash now k v m = (b, m')" by fastforce
    have "wf_core m'" "mem_wf m'" using w PutStash_establishes [OF m that(1) p] by auto
    with that g p absent_from_old [OF g(3) _ PutStash_from_old [OF g(1) p] that(2)] show ?thesis by (simp add: Get_local)
  qed
  show "fst (iGet memory_store now j (snd (iGet memory_store now k m))) = fst (iGet memory_store now j m)"
    if "local_key k" "local_key j" "fst (iGet memory_store now k m) = None"
    using that g w [OF mem_ok_Get [OF m]] miss_keeps_looks [OF g(2) that(1), of now j] by (simp add: Get_local)
qed

interpretation nop_rewind: rewind_store nop_store "\<lambda>_. True" "\<lambda>_ _ _ _. False"
  by unfold_locales (simp_all add: nop_store_def store_PutStash_def store_Peek_def)

interpretation nop_decisions: decision_store nop_store "\<lambda>_. True" "\<lambda>_ _ _ _. False"
  by unfold_locales (simp_all add: nop_store_def store_PutStash_def store_Peek_def)

lemma NewMemory_ok: "ttl_ok (NewMemory opt) \<Longrightarrow> mem_ok (NewMemory opt)"
  by (simp add: mem_ok_def NewMemory_good sealed_def) (simp add: NewMemory_def Let_def)

end
