(* ===== verification/Offload_State.thy ===== *)
theory Offload_State
  imports Pipeline Expand_Marker Store_Interface
begin

text \<open>
  The state every offloader shares: \<open>src/components/offload/marker.go\<close> (marker modes, the
  marker-inclusive size test, the commit of a removal) and the freeze, replay, kept-verbatim, owner
  and checkpoint keys of \<open>src/components/offload/state.go\<close>. An operation takes the host of the pass (the token
  counter and digest, the store's methods, the clock of the pass, the context) and threads the
  world: the store's state and the process-wide counters. The locale \<open>offloader\<close> states what one step
  of an offloader promises, and proves once what a pass over a transcript then guarantees.
\<close>

record 's host =
  henv :: env
  hstore :: "'s Store"
  hnow :: instant
  hctx :: Ctx

record 's world =
  st :: 's
  stashRefusals :: int
  stashMissing :: int
  frozenHits :: int
  frozenMisses :: int
  expandFlips :: int

definition TextTokens :: "'s host \<Rightarrow> string \<Rightarrow> int" where
  "TextTokens H s = count_tokens (henv H) s"

definition hashKey :: "'s host \<Rightarrow> string \<Rightarrow> string" where
  "hashKey H s = take 16 (sha_hex (henv H) s)"

definition contentKey :: "'s host \<Rightarrow> string \<Rightarrow> string" where
  "contentKey H s = ContentKey (sha_hex (henv H)) s"

text \<open>\<open>c.Store.Get\<close>, \<open>c.Store.Put\<close> and the two helpers, on the store part of the world.\<close>

definition w_get :: "'s host \<Rightarrow> string \<Rightarrow> 's world \<Rightarrow> bytes option \<times> 's world" where
  "w_get H k w = (case iGet (hstore H) (hnow H) k (st w) of (v, s) \<Rightarrow> (v, w\<lparr>st := s\<rparr>))"

definition w_put :: "'s host \<Rightarrow> string \<Rightarrow> bytes \<Rightarrow> 's world \<Rightarrow> 's world" where
  "w_put H k v w = w\<lparr>st := iPut (hstore H) (hnow H) k v (st w)\<rparr>"

definition w_stash :: "'s host \<Rightarrow> string \<Rightarrow> bytes \<Rightarrow> 's world \<Rightarrow> bool \<times> 's world" where
  "w_stash H k v w = (case store_PutStash (hstore H) (hnow H) k v (st w) of (b, s) \<Rightarrow> (b, w\<lparr>st := s\<rparr>))"

definition w_peek :: "'s host \<Rightarrow> string \<Rightarrow> 's world \<Rightarrow> bool \<times> 's world" where
  "w_peek H k w = (case store_Peek (hstore H) (hnow H) k (st w) of (b, s) \<Rightarrow> (b, w\<lparr>st := s\<rparr>))"

section \<open>Markers\<close>

datatype markerMode = markerFull | markerSummary | markerOff

definition parseMarkerMode :: "string \<Rightarrow> markerMode" where
  "parseMarkerMode s = (if s = ''summary'' then markerSummary else if s = ''off'' then markerOff else markerFull)"

definition effectiveMode :: "'s host \<Rightarrow> markerMode \<Rightarrow> markerMode" where
  "effectiveMode H md = (if md = markerFull \<and> \<not> iPersists (hstore H) then markerOff else md)"

definition markToken :: "'s host \<Rightarrow> markerMode \<Rightarrow> string \<Rightarrow> string \<Rightarrow> string \<times> string \<times> markerMode" where
  "markToken H md original hint =
     (case effectiveMode H md of
        markerFull \<Rightarrow> (Marker (hashKey H original) @ hint, hashKey H original, markerFull)
      | markerSummary \<Rightarrow> (SummaryMarker, [], markerSummary)
      | markerOff \<Rightarrow> ([], [], markerOff))"

definition tryMark ::
  "'s host \<Rightarrow> markerMode \<Rightarrow> string \<Rightarrow> string \<Rightarrow> (string \<Rightarrow> string) \<Rightarrow> string \<times> string \<times> markerMode \<times> bool" where
  "tryMark H md original hint assemble =
     (case markToken H md original hint of
        (token, key, eff) \<Rightarrow>
          let newText = assemble token in (newText, key, eff, TextTokens H newText < TextTokens H original))"

definition ownerKey :: "string \<Rightarrow> string \<Rightarrow> string" where
  "ownerKey session key = ''cg:own:'' @ session @ '':'' @ key"

definition recordOwner :: "'s host \<Rightarrow> string \<Rightarrow> 's world \<Rightarrow> 's world" where
  "recordOwner H key w = (if key \<noteq> [] then w_put H (ownerKey (Session (hctx H)) key) [CHR 0x01] w else w)"

definition OwnsKey :: "'s host \<Rightarrow> string \<Rightarrow> string \<Rightarrow> 's world \<Rightarrow> bool \<times> 's world" where
  "OwnsKey H session key w =
     (if session = [] \<or> key = [] then (False, w)
      else case w_get H (ownerKey session key) w of (v, w) \<Rightarrow> (v \<noteq> None, w))"

definition commitMark :: "'s host \<Rightarrow> markerMode \<Rightarrow> string \<Rightarrow> string \<Rightarrow> Report \<Rightarrow> 's world \<Rightarrow> bool \<times> Report \<times> 's world" where
  "commitMark H eff key original rep w =
     (if eff = markerFull
      then case w_stash H key original w of
             (b, w) \<Rightarrow>
               if \<not> b then (False, Gate ''stash_reserve_exhausted'' rep, w\<lparr>stashRefusals := stashRefusals w + 1\<rparr>)
               else (True, rep, recordOwner H key w)
      else (True, rep\<lparr>Irreversible := True\<rparr>, w))"

definition commitRefresh :: "'s host \<Rightarrow> markerMode \<Rightarrow> string \<Rightarrow> string \<Rightarrow> Report \<Rightarrow> 's world \<Rightarrow> bool \<times> Report \<times> 's world" where
  "commitRefresh H eff key original rep w =
     (if eff \<noteq> markerFull then (True, rep\<lparr>Irreversible := True\<rparr>, w)
      else case w_stash H key original w of
             (b, w) \<Rightarrow> if \<not> b then (False, rep, w\<lparr>stashMissing := stashMissing w + 1\<rparr>) else (True, rep, w))"

section \<open>Kept-verbatim content\<close>

definition keptKey :: "string \<Rightarrow> string \<Rightarrow> string" where
  "keptKey session ck = ''cg:keep:'' @ session @ '':'' @ ck"

definition MarkKeptVerbatim :: "'s host \<Rightarrow> string \<Rightarrow> string \<Rightarrow> 's world \<Rightarrow> 's world" where
  "MarkKeptVerbatim H session original w =
     (if session = [] then w else w_put H (keptKey session (contentKey H original)) [CHR 0x01] w)"

definition KeptVerbatim :: "'s host \<Rightarrow> string \<Rightarrow> string \<Rightarrow> 's world \<Rightarrow> bool \<times> 's world" where
  "KeptVerbatim H session original w =
     (case w_get H (keptKey session (contentKey H original)) w of (v, w) \<Rightarrow> (v \<noteq> None, w))"

definition isKeptVerbatim :: "'s host \<Rightarrow> string \<Rightarrow> 's world \<Rightarrow> bool \<times> 's world" where
  "isKeptVerbatim H ck w =
     (if map_of (Restored (hctx H)) ck \<noteq> None then (False, w)
      else case w_get H (keptKey (Session (hctx H)) ck) w of (v, w) \<Rightarrow> (v \<noteq> None, w))"

definition restoredSpanGuard :: "'s host \<Rightarrow> string \<Rightarrow> bool" where
  "restoredSpanGuard H text =
     (if Restored (hctx H) = [] then False
      else if map_of (Restored (hctx H)) (contentKey H text) \<noteq> None then True
      else list_ex (\<lambda>(_, mid). str_contains text (Marker mid)) (Restored (hctx H)))"

definition GateAlreadyMarked :: string where "GateAlreadyMarked = ''already_marked''"
definition GateKeptVerbatim :: string where "GateKeptVerbatim = ''kept_verbatim_after_expand''"

definition skipReduce :: "'s host \<Rightarrow> string \<Rightarrow> 's world \<Rightarrow> string option \<times> 's world" where
  "skipReduce H text w =
     (if HasPlaceholder text then (Some GateAlreadyMarked, w)
      else case isKeptVerbatim H (contentKey H text) w of
             (b, w) \<Rightarrow> (if b then Some GateKeptVerbatim else None, w))"

section \<open>Freeze and replay\<close>

definition frozenKey :: "string \<Rightarrow> string \<Rightarrow> string \<Rightarrow> string" where
  "frozenKey session cmp ck = FrozenPrefix @ session @ '':'' @ cmp @ '':'' @ ck"

definition freeze :: "'s host \<Rightarrow> string \<Rightarrow> string \<Rightarrow> string \<Rightarrow> 's world \<Rightarrow> 's world" where
  "freeze H cmp original replacement w =
     w_put H (frozenKey (Session (hctx H)) cmp (contentKey H original)) replacement w"

definition frozenLost :: "'s host \<Rightarrow> string \<Rightarrow> 's world \<Rightarrow> bool" where
  "frozenLost H key w = (case iFrozenLost (hstore H) of Some f \<Rightarrow> f key (st w) | None \<Rightarrow> False)"

definition repairLostFreeze :: "'s host \<Rightarrow> string \<Rightarrow> string \<Rightarrow> 's world \<Rightarrow> bool" where
  "repairLostFreeze H cmp text w = frozenLost H (frozenKey (Session (hctx H)) cmp (contentKey H text)) w"

fun refresh_keys :: "'s host \<Rightarrow> string list \<Rightarrow> string \<Rightarrow> Report \<Rightarrow> 's world \<Rightarrow> Report \<times> 's world" where
  "refresh_keys H [] text rep w = (rep, w)"
| "refresh_keys H (k # ks) text rep w =
     (case commitRefresh H markerFull k text rep w of (_, rep, w) \<Rightarrow> refresh_keys H ks text rep w)"

text \<open>\<open>reapplyFrozen\<close>: the keys and the tokens saved when it acted, and the message it leaves.\<close>

definition reapplyFrozen ::
  "'s host \<Rightarrow> string \<Rightarrow> message \<Rightarrow> Report \<Rightarrow> 's world \<Rightarrow> (string list \<times> int) option \<times> message \<times> Report \<times> 's world" where
  "reapplyFrozen H cmp m rep w =
     (let text = MessageText m; ck = contentKey H text; fk = frozenKey (Session (hctx H)) cmp ck
      in case isKeptVerbatim H ck w of
           (True, w) \<Rightarrow>
             (case w_peek H fk w of
                (b, w) \<Rightarrow> (None, m, rep, if b then w\<lparr>expandFlips := expandFlips w + 1\<rparr> else w))
         | (False, w) \<Rightarrow>
             (case w_get H fk w of
                (None, w) \<Rightarrow> (None, m, rep, w\<lparr>frozenMisses := frozenMisses w + 1\<rparr>)
              | (Some rs, w) \<Rightarrow>
                  let w = w\<lparr>frozenHits := frozenHits w + 1\<rparr>; saved = TextTokens H text - TextTokens H rs
                  in if saved \<le> 0 then (None, m, rep, w)
                     else let keys = ParseMarkers rs;
                              rep = (if keys = [] then rep\<lparr>Irreversible := True\<rparr> else rep)
                          in case refresh_keys H keys text rep w of
                               (rep, w) \<Rightarrow> (Some (keys, saved), SetMessageText m rs, rep, w)))"

section \<open>A pass over the transcript\<close>

text \<open>
  The loop of every offloader: a step leaves its message (\<open>None\<close>, a \<open>continue\<close> of the code) or replaces
  it and hands over the keys to report. \<open>'x\<close> is what the component carries from message to message.
\<close>

type_synonym ('x, 's) step =
  "nat \<Rightarrow> message \<Rightarrow> 'x \<Rightarrow> Report \<Rightarrow> 's world \<Rightarrow> string list option \<times> message \<times> 'x \<times> Report \<times> 's world"

fun offload_loop ::
  "('x, 's) step \<Rightarrow> nat list \<Rightarrow> message list \<Rightarrow> 'x \<Rightarrow> string list \<Rightarrow> int \<Rightarrow> Report \<Rightarrow> 's world
     \<Rightarrow> message list \<times> string list \<times> int \<times> Report \<times> 's world" where
  "offload_loop step [] ms x keys changed rep w = (ms, keys, changed, rep, w)"
| "offload_loop step (i # is) ms x keys changed rep w =
     (case step i (ms ! i) x rep w of
        (None, m, x, rep, w) \<Rightarrow> offload_loop step is ms x keys changed rep w
      | (Some ks, m, x, rep, w) \<Rightarrow> offload_loop step is (ms[i := m]) x (keys @ ks) (changed + 1) rep w)"

definition finish_pass :: "message list \<times> string list \<times> int \<times> Report \<times> 's world \<Rightarrow> message list \<times> string list \<times> Report \<times> 's world" where
  "finish_pass r =
     (case r of (ms, keys, changed, rep, w) \<Rightarrow>
        (ms, keys, if changed = 0 then rep\<lparr>Skipped := True\<rparr> else rep, w))"

definition toolIndices :: "message list \<Rightarrow> nat list" where
  "toolIndices ms = filter (\<lambda>i. role (ms ! i) = RoleTool) [0..<length ms]"

text \<open>
  The tail every offloader ends a new removal with: build the candidate, test its size with the
  marker, commit, splice, and freeze the decision where the component freezes.
\<close>

definition mark_message ::
  "'s host \<Rightarrow> markerMode \<Rightarrow> string \<Rightarrow> (string \<Rightarrow> string) \<Rightarrow> string option \<Rightarrow> message \<Rightarrow> Report \<Rightarrow> 's world
     \<Rightarrow> string list option \<times> message \<times> Report \<times> 's world" where
  "mark_message H md hint assemble frz m rep w =
     (let text = MessageText m
      in case tryMark H md text hint assemble of
           (newText, key, eff, fits) \<Rightarrow>
             if \<not> fits then (None, m, Gate ''marker_no_win'' rep, w)
             else case commitMark H eff key text rep w of
                    (committed, rep, w) \<Rightarrow>
                      if \<not> committed then (None, m, rep, w)
                      else (Some (if key = [] then [] else [key]), SetMessageText m newText, rep,
                            case frz of Some cmp \<Rightarrow> freeze H cmp text newText w | None \<Rightarrow> w))"

definition full_hint :: string where
  "full_hint = '' [full output: call '' @ ToolName @ '']''"

end
