(* ===== verification/Offload_Contract.thy ===== *)
theory Offload_Contract
  imports Offload_State
begin

text \<open>
  What one step of an offloader promises and what a pass then guarantees. The lemmas about the shared
  operations are proved once for every store with the laws of \<open>rewind_store\<close>; the locale \<open>offloader\<close>
  carries the contract of a step to the whole transcript: the removed text of every message is
  served by the store under each reported key, or its loss was counted.
\<close>

text \<open>SHA-256 in hexadecimal: 64 digits.\<close>

definition hex_digest :: "env \<Rightarrow> bool" where
  "hex_digest E \<longleftrightarrow> (\<forall>s. length (sha_hex E s) = 64 \<and> list_all (\<lambda>c. c \<in> set ''0123456789abcdef'') (sha_hex E s))"

definition keeps ::
  "('s \<Rightarrow> bool) \<Rightarrow> (instant \<Rightarrow> string \<Rightarrow> bytes \<Rightarrow> 's \<Rightarrow> bool) \<Rightarrow> 's host \<Rightarrow> string set \<Rightarrow> 's world \<Rightarrow> 's world \<Rightarrow> bool" where
  "keeps ok holds H K w w' \<longleftrightarrow> ok (st w') \<and> stashMissing w \<le> stashMissing w'
     \<and> (\<forall>k v. bare k \<longrightarrow> k \<notin> K \<longrightarrow> holds (hnow H) k v (st w) \<longrightarrow> holds (hnow H) k v (st w'))"

text \<open>The text behind a key is in the store, or a missing payload was counted.\<close>

definition backed ::
  "(instant \<Rightarrow> string \<Rightarrow> bytes \<Rightarrow> 's \<Rightarrow> bool) \<Rightarrow> 's host \<Rightarrow> string \<Rightarrow> string \<Rightarrow> 's world \<Rightarrow> 's world \<Rightarrow> bool" where
  "backed holds H k v w w' \<longleftrightarrow> holds (hnow H) k v (st w') \<or> stashMissing w < stashMissing w'"

definition step_post ::
  "('s \<Rightarrow> bool) \<Rightarrow> (instant \<Rightarrow> string \<Rightarrow> bytes \<Rightarrow> 's \<Rightarrow> bool) \<Rightarrow> 's host \<Rightarrow> message \<Rightarrow> Report \<Rightarrow> 's world
     \<Rightarrow> string list option \<Rightarrow> message \<Rightarrow> Report \<Rightarrow> 's world \<Rightarrow> bool" where
  "step_post ok holds H m rep w r m' rep' w' \<longleftrightarrow>
     keeps ok holds H (case r of None \<Rightarrow> {} | Some ks \<Rightarrow> set ks) w w'
     \<and> (Irreversible rep \<longrightarrow> Irreversible rep')
     \<and> (case r of
          None \<Rightarrow> True
        | Some ks \<Rightarrow>
            Rewritable m
            \<and> (\<exists>t. m' = SetMessageText m t \<and> TextTokens H t < TextTokens H (MessageText m) \<and> set ks \<subseteq> set (ParseMarkers t))
            \<and> (ks = [] \<longrightarrow> Irreversible rep')
            \<and> (\<forall>k \<in> set ks. backed holds H k (MessageText m) w w'))"

lemma keeps_trans: "keeps ok holds H K w w1 \<Longrightarrow> keeps ok holds H L w1 w2 \<Longrightarrow> keeps ok holds H (K \<union> L) w w2"
  by (auto simp: keeps_def)

lemma keeps_trans0: "keeps ok holds H {} w w1 \<Longrightarrow> keeps ok holds H L w1 w2 \<Longrightarrow> keeps ok holds H L w w2"
  by (auto simp: keeps_def)

lemma keeps_trans1: "keeps ok holds H K w w1 \<Longrightarrow> keeps ok holds H {} w1 w2 \<Longrightarrow> keeps ok holds H K w w2"
  by (auto simp: keeps_def)

lemma keeps_refl: "ok (st w) \<Longrightarrow> keeps ok holds H K w w"
  by (simp add: keeps_def)

lemma keeps_ok: "keeps ok holds H K w w' \<Longrightarrow> ok (st w')"
  by (simp add: keeps_def)

lemma keeps_counters [simp]:
  "keeps ok holds H K w (w'\<lparr>stashRefusals := a\<rparr>) = keeps ok holds H K w w'" "keeps ok holds H K w (w'\<lparr>frozenHits := a\<rparr>) = keeps ok holds H K w w'"
  "keeps ok holds H K w (w'\<lparr>frozenMisses := a\<rparr>) = keeps ok holds H K w w'" "keeps ok holds H K w (w'\<lparr>expandFlips := a\<rparr>) = keeps ok holds H K w w'"
  by (simp_all add: keeps_def)

lemma not_bare_keys [simp]: "\<not> bare (ownerKey s k)" "\<not> bare (keptKey s k)" "\<not> bare (frozenKey s c k)"
  by (simp_all add: bare_def has_prefix_def ownerKey_def keptKey_def frozenKey_def FrozenPrefix_def)

lemma valid_key_bare: "valid_key k \<Longrightarrow> bare k"
proof (rule ccontr)
  assume v: "valid_key k" and "\<not> bare k"
  then obtain t where "k = ''cg:'' @ t" by (auto simp: bare_def has_prefix_iff)
  then have "key_char CHR '':''" using v by (simp add: valid_key_def)
  then show False by (simp add: key_char_def is_word_def is_digit_def is_upper_def is_lower_def)
qed

lemma ParseMarkers_bare: "k \<in> set (ParseMarkers t) \<Longrightarrow> bare k"
  using find_all_source valid_key_bare by auto

lemma hashKey_valid:
  assumes "hex_digest (henv H)"
  shows "valid_key (hashKey H s)"
proof -
  define d where "d = sha_hex (henv H) s"
  have d: "length d = 64" "list_all (\<lambda>c. c \<in> set ''0123456789abcdef'') d" using assms by (auto simp: hex_digest_def d_def)
  have "list_all key_char d"
    using d(2) by (rule list.pred_mono_strong) (auto simp: key_char_def is_word_def is_digit_def is_lower_def)
  then have "list_all key_char (take 16 d)" by (auto simp: list_all_iff dest: in_set_takeD)
  moreover have "length (take 16 d) = 16" using d(1) by simp
  ultimately show ?thesis unfolding valid_key_def hashKey_def d_def by (metis list.size(3) numeral_le_iff semiring_norm(68) semiring_norm(71) verit_comp_simplify(9) zero_neq_numeral)
qed

section \<open>The shared operations on any rewind store\<close>

context rewind_store
begin

lemma w_get_keeps: "hstore H = I \<Longrightarrow> ok (st w) \<Longrightarrow> w_get H k w = (v, w') \<Longrightarrow> keeps ok holds H {} w w'"
  using get_ok [of "st w" "hnow H" k] holds_read [of "st w" _ "hnow H" _ k]
  by (auto simp: w_get_def keeps_def split: prod.splits)

lemma w_peek_keeps: "hstore H = I \<Longrightarrow> ok (st w) \<Longrightarrow> w_peek H k w = (v, w') \<Longrightarrow> keeps ok holds H {} w w'"
  using peek_ok [of "st w" "hnow H" k] peek_holds [of "st w" _ "hnow H" _ k]
  by (auto simp: w_peek_def keeps_def split: prod.splits)

lemma w_put_keeps: "hstore H = I \<Longrightarrow> ok (st w) \<Longrightarrow> \<not> bare k \<Longrightarrow> keeps ok holds H {} w (w_put H k v w)"
  using put_ok [of "st w" k "hnow H" v] holds_put [of "st w" _ k "hnow H" _ v]
  by (auto simp: w_put_def keeps_def)

lemma w_stash_keeps:
  assumes "hstore H = I" "ok (st w)" "bare k" "w_stash H k v w = (b, w')"
  shows "keeps ok holds H (if b then {k} else {}) w w' \<and> (b \<longrightarrow> holds (hnow H) k v (st w')) \<and> stashMissing w' = stashMissing w"
proof -
  obtain s where s: "store_PutStash I (hnow H) k v (st w) = (b, s)" "w' = w\<lparr>st := s\<rparr>"
    using assms by (auto simp: w_stash_def split: prod.splits)
  show ?thesis
    using s assms(2,3) stash_ok [of "st w" k "hnow H" v] stash_holds [of "st w" k "hnow H" v]
      holds_stash [of "st w" _ k "hnow H" _ v] refused_holds [of "st w" _ k "hnow H" v]
    by (auto simp: keeps_def)
qed

lemma isKeptVerbatim_keeps: "hstore H = I \<Longrightarrow> ok (st w) \<Longrightarrow> isKeptVerbatim H ck w = (b, w') \<Longrightarrow> keeps ok holds H {} w w'"
  using w_get_keeps keeps_refl by (fastforce simp: isKeptVerbatim_def split: if_splits prod.splits)

lemma skipReduce_keeps: "hstore H = I \<Longrightarrow> ok (st w) \<Longrightarrow> skipReduce H t w = (g, w') \<Longrightarrow> keeps ok holds H {} w w'"
  using isKeptVerbatim_keeps keeps_refl by (fastforce simp: skipReduce_def split: if_splits prod.splits)

lemma freeze_keeps: "hstore H = I \<Longrightarrow> ok (st w) \<Longrightarrow> keeps ok holds H {} w (freeze H c t r w)"
  unfolding freeze_def by (intro w_put_keeps) auto

lemma recordOwner_keeps: "hstore H = I \<Longrightarrow> ok (st w) \<Longrightarrow> keeps ok holds H {} w (recordOwner H k w)"
  by (simp add: recordOwner_def w_put_keeps keeps_refl)

lemma refresh_keys_post:
  assumes "hstore H = I" "ok (st w)" "\<And>k. k \<in> set ks \<Longrightarrow> bare k" "distinct ks" "refresh_keys H ks t rep w = (rep', w')"
  shows "keeps ok holds H (set ks) w w' \<and> rep' = rep \<and> (\<forall>k \<in> set ks. backed holds H k t w w')"
  using assms(2-)
proof (induction ks arbitrary: rep w)
  case Nil
  then show ?case by (simp add: keeps_refl)
next
  case (Cons k ks)
  obtain b w1 where s: "w_stash H k t w = (b, w1)" by fastforce
  define w2 where "w2 = (if b then w1 else w1\<lparr>stashMissing := stashMissing w1 + 1\<rparr>)"
  note a = w_stash_keeps [OF assms(1) Cons.prems(1) _ s]
  have 2: "keeps ok holds H {k} w w2" "backed holds H k t w w2" using a Cons.prems(2) by (auto simp: w2_def keeps_def backed_def)
  have r: "refresh_keys H ks t rep w2 = (rep', w')" using Cons.prems(4) s by (auto simp: commitRefresh_def w2_def split: if_splits)
  have 3: "keeps ok holds H (set ks) w2 w' \<and> rep' = rep \<and> (\<forall>k \<in> set ks. backed holds H k t w2 w')"
    using Cons.IH [OF keeps_ok [OF 2(1)] _ _ r] Cons.prems by simp
  have "backed holds H k t w w'"
    using 2 3 Cons.prems(2,3) by (auto simp: backed_def keeps_def)
  moreover have "stashMissing w \<le> stashMissing w2" using 2 by (simp add: keeps_def)
  ultimately show ?case using 2 3 keeps_trans [OF 2(1), of "set ks" w'] by (auto simp: backed_def)
qed

lemma reapplyFrozen_post:
  assumes "hstore H = I" "ok (st w)" "Rewritable m" "reapplyFrozen H c m rep w = (r, m', rep', w')"
  shows "step_post ok holds H m rep w (map_option fst r) m' rep' w' \<and> (r = None \<longrightarrow> m' = m \<and> rep' = rep)"
proof -
  let ?t = "MessageText m"
  obtain b w1 where b: "isKeptVerbatim H (contentKey H ?t) w = (b, w1)" by fastforce
  have k1: "keeps ok holds H {} w w1" by (rule isKeptVerbatim_keeps [OF assms(1,2) b])
  let ?fk = "frozenKey (Session (hctx H)) c (contentKey H ?t)"
  obtain p wp where p: "w_peek H ?fk w1 = (p, wp)" by fastforce
  obtain v w2 where g: "w_get H ?fk w1 = (v, w2)" by fastforce
  have k2: "keeps ok holds H {} w w2" "keeps ok holds H {} w wp"
    using keeps_trans0 [OF k1 w_get_keeps [OF assms(1) keeps_ok [OF k1] g]] keeps_trans0 [OF k1 w_peek_keeps [OF assms(1) keeps_ok [OF k1] p]] by auto
  show ?thesis
  proof (cases "b \<or> v = None \<or> TextTokens H ?t - TextTokens H (the v) \<le> 0")
    case True
    then have "r = None" "m' = m" "rep' = rep" "keeps ok holds H {} w w'"
      using assms(4) b p g k2 by (auto simp: reapplyFrozen_def Let_def split: if_splits bool.splits option.splits)
    then show ?thesis by (simp add: step_post_def)
  next
    case False
    then obtain rs where v: "v = Some rs" "\<not> b" "TextTokens H rs < TextTokens H ?t" by auto
    define rep1 where "rep1 = (if ParseMarkers rs = [] then rep\<lparr>Irreversible := True\<rparr> else rep)"
    obtain rep2 w3 where f: "refresh_keys H (ParseMarkers rs) ?t rep1 (w2\<lparr>frozenHits := frozenHits w2 + 1\<rparr>) = (rep2, w3)" by fastforce
    have r: "r = Some (ParseMarkers rs, TextTokens H ?t - TextTokens H rs)" "m' = SetMessageText m rs" "rep' = rep2" "w' = w3"
      using assms(4) b g v f by (auto simp: reapplyFrozen_def Let_def rep1_def split: if_splits)
    define w2' where "w2' = w2\<lparr>frozenHits := frozenHits w2 + 1\<rparr>"
    have k2': "keeps ok holds H {} w w2'" using k2(1) by (simp add: w2'_def)
    have d: "distinct (ParseMarkers rs)" by (simp add: ParseMarkers_def distinct_first_seen)
    note q = refresh_keys_post [OF assms(1) keeps_ok [OF k2'] ParseMarkers_bare [of _ rs] d, of ?t rep1 rep2 w3]
    have q': "keeps ok holds H (set (ParseMarkers rs)) w2' w3" "rep2 = rep1" "\<forall>k \<in> set (ParseMarkers rs). backed holds H k ?t w2' w3"
      using q f by (auto simp: w2'_def)
    have "keeps ok holds H (set (ParseMarkers rs)) w w3" by (rule keeps_trans0 [OF k2' q'(1)])
    moreover have "backed holds H k ?t w w3" if "k \<in> set (ParseMarkers rs)" for k
      using q'(3) that k2' by (auto simp: backed_def keeps_def)
    ultimately show ?thesis using r q'(2) v assms(3) by (auto simp: step_post_def rep1_def)
  qed
qed

text \<open>A committed removal: the marker is in the text and the original is in the store.\<close>

lemma commitMark_post:
  assumes "hstore H = I" "hex_digest (henv H)" "ok (st w)" "Rewritable m"
    and t: "tryMark H md (MessageText m) hint asm = (t, key, eff, True)"
    and c: "commitMark H eff key (MessageText m) rep w = (b, rep', w')"
    and asm: "\<And>k. \<exists>pre post. asm (Marker k @ hint) = pre @ Marker k @ post"
  shows "step_post ok holds H m rep w (if b then Some (if key = [] then [] else [key]) else None) (SetMessageText m t) rep' w'"
proof (cases "effectiveMode H md")
  case markerFull
  have e: "eff = markerFull" "key = hashKey H (MessageText m)" "t = asm (Marker key @ hint)"
    "TextTokens H t < TextTokens H (MessageText m)"
    using t markerFull by (auto simp: tryMark_def markToken_def Let_def)
  have vk: "valid_key key" using hashKey_valid [OF assms(2)] e(2) by simp
  have bk: "bare key" and ne: "key \<noteq> []" using valid_key_bare [OF vk] vk by (auto simp: valid_key_def)
  have pm: "key \<in> set (ParseMarkers t)" using asm [of key] e(3) Marker_found [OF vk] by auto
  obtain b1 w1 where s: "w_stash H key (MessageText m) w = (b1, w1)" by fastforce
  note q = w_stash_keeps [OF assms(1,3) bk s]
  show ?thesis
  proof (cases b1)
    case True
    with c s e have r: "b" "rep' = rep" "w' = recordOwner H key w1" by (auto simp: commitMark_def)
    have o: "keeps ok holds H {} w1 w'" using recordOwner_keeps [OF assms(1), of w1 key] q True r by (auto dest: keeps_ok)
    have "keeps ok holds H {key} w w'" using keeps_trans1 [OF _ o, of "{key}" w] q True by simp
    moreover have "backed holds H key (MessageText m) w w'" using o q True bk by (auto simp: backed_def keeps_def)
    ultimately show ?thesis using r ne pm e(4) assms(4) by (auto simp: step_post_def)
  next
    case False
    with c s e have "\<not> b" "Irreversible rep' = Irreversible rep" "w' = w1\<lparr>stashRefusals := stashRefusals w1 + 1\<rparr>"
      by (auto simp: commitMark_def Gate_def)
    with q False show ?thesis by (simp add: step_post_def)
  qed
qed (use t c assms(3,4) in \<open>auto simp: tryMark_def markToken_def commitMark_def step_post_def keeps_refl Let_def\<close>)

end

lemma backed_weaken: "keeps ok holds H K w w1 \<Longrightarrow> backed holds H k v w1 w' \<Longrightarrow> backed holds H k v w w'"
  by (auto simp: backed_def keeps_def)

lemma backed_later:
  "backed holds H k v w w1 \<Longrightarrow> keeps ok holds H K w1 w' \<Longrightarrow> k \<notin> K \<Longrightarrow> bare k \<Longrightarrow> backed holds H k v w w'"
  by (auto simp: backed_def keeps_def)

lemma step_post_later:
  assumes "step_post ok holds H m rep w r m' rep' w'" "keeps ok holds H {} w' w2"
  shows "step_post ok holds H m rep w r m' rep' w2"
proof (cases r)
  case None
  with assms show ?thesis by (auto simp: step_post_def intro: keeps_trans1)
next
  case (Some ks)
  then have b: "\<forall>k \<in> set ks. backed holds H k (MessageText m) w w' \<and> bare k"
    using assms(1) ParseMarkers_bare by (force simp: step_post_def)
  have "\<forall>k \<in> set ks. backed holds H k (MessageText m) w w2" using b backed_later [OF _ assms(2)] by blast
  with Some assms keeps_trans1 [OF _ assms(2), of "set ks" w] show ?thesis by (auto simp: step_post_def)
qed

lemma step_post_earlier:
  assumes "keeps ok holds H {} w w1" "step_post ok holds H m rep w1 r m' rep' w'"
  shows "step_post ok holds H m rep w r m' rep' w'"
  using assms by (auto simp: step_post_def backed_def keeps_def split: option.splits)

lemma step_post_idle: "keeps ok holds H {} w w' \<Longrightarrow> Irreversible rep' = Irreversible rep \<Longrightarrow> step_post ok holds H m rep w None m' rep' w'"
  by (simp add: step_post_def)

lemma Gate_Irreversible [simp]: "Irreversible (Gate g r) = Irreversible r" "Irreversible (Event g r) = Irreversible r"
  by (simp_all add: Gate_def Event_def)

context rewind_store
begin

lemma mark_message_post:
  assumes "hstore H = I" "hex_digest (henv H)" "ok (st w)" "Rewritable m"
    and r: "mark_message H md hint asm frz m rep w = (r, m', rep', w')"
    and asm: "\<And>k. \<exists>pre post. asm (Marker k @ hint) = pre @ Marker k @ post"
  shows "step_post ok holds H m rep w r m' rep' w'"
proof -
  obtain t key eff fits where t: "tryMark H md (MessageText m) hint asm = (t, key, eff, fits)" by (metis prod_cases4)
  obtain b rep1 w1 where c: "commitMark H eff key (MessageText m) rep w = (b, rep1, w1)" by (metis prod_cases3)
  show ?thesis
  proof (cases fits)
    case False
    with r t have "r = None" "m' = m" "rep' = Gate ''marker_no_win'' rep" "w' = w" by (auto simp: mark_message_def Let_def)
    with assms(3) show ?thesis by (auto intro!: step_post_idle keeps_refl)
  next
    case True
    have p: "step_post ok holds H m rep w (if b then Some (if key = [] then [] else [key]) else None) (SetMessageText m t) rep1 w1"
      using commitMark_post [OF assms(1-4) _ c asm] t True by simp
    show ?thesis
    proof (cases b)
      case False
      with r t c True p show ?thesis by (auto simp: mark_message_def Let_def step_post_def)
    next
      case b: True
      then have eq: "r = Some (if key = [] then [] else [key])" "m' = SetMessageText m t" "rep' = rep1"
        "w' = (case frz of Some cmp \<Rightarrow> freeze H cmp (MessageText m) t w1 | None \<Rightarrow> w1)"
        using r t c True by (auto simp: mark_message_def Let_def)
      have ok1: "ok (st w1)" using p by (auto simp: step_post_def dest: keeps_ok)
      then have "keeps ok holds H {} w1 w'" using freeze_keeps [OF assms(1)] by (auto simp: eq(4) keeps_refl split: option.split)
      with p b eq show ?thesis by (auto intro: step_post_later)
    qed
  qed
qed

end

section \<open>From a step to a pass\<close>

definition shrunk_message :: "'s host \<Rightarrow> message \<Rightarrow> message \<Rightarrow> bool" where
  "shrunk_message H m m' \<longleftrightarrow> Rewritable m \<and> m' = SetMessageText m (MessageText m') \<and> TextTokens H (MessageText m') < TextTokens H (MessageText m)"

definition pass_post ::
  "('s \<Rightarrow> bool) \<Rightarrow> (instant \<Rightarrow> string \<Rightarrow> bytes \<Rightarrow> 's \<Rightarrow> bool) \<Rightarrow> 's host \<Rightarrow> nat list \<Rightarrow> message list \<Rightarrow> Report \<Rightarrow> 's world
     \<Rightarrow> message list \<Rightarrow> string list \<Rightarrow> int \<Rightarrow> Report \<Rightarrow> 's world \<Rightarrow> bool" where
  "pass_post ok holds H is ms rep w ms' keys n rep' w' \<longleftrightarrow>
     keeps ok holds H (set keys) w w'
     \<and> (Irreversible rep \<longrightarrow> Irreversible rep')
     \<and> length ms' = length ms
     \<and> (\<forall>i < length ms. ms' ! i = ms ! i \<or> i \<in> set is \<and> role (ms ! i) = RoleTool \<and> shrunk_message H (ms ! i) (ms' ! i))
     \<and> (\<forall>k \<in> set keys. bare k \<and> (\<exists>i \<in> set is. k \<in> set (ParseMarkers (MessageText (ms' ! i))) \<and> backed holds H k (MessageText (ms ! i)) w w'))
     \<and> 0 \<le> n \<and> (n = 0 \<longrightarrow> ms' = ms \<and> keys = []) \<and> (n \<noteq> 0 \<longrightarrow> keys \<noteq> [] \<or> Irreversible rep')"

locale offloader = rewind_store I ok holds
  for I :: "'s Store" and ok :: "'s \<Rightarrow> bool" and holds :: "instant \<Rightarrow> string \<Rightarrow> bytes \<Rightarrow> 's \<Rightarrow> bool" +
  fixes applies :: "message \<Rightarrow> bool" and step :: "'s host \<Rightarrow> ('x, 's) step"
  assumes step_law: "applies m \<Longrightarrow> hstore H = I \<Longrightarrow> hex_digest (henv H) \<Longrightarrow> ok (st w) \<Longrightarrow> step H i m x rep w = (r, m', x', rep', w') \<Longrightarrow>
    step_post ok holds H m rep w r m' rep' w'"
    and step_role: "applies m \<Longrightarrow> step H i m x rep w = (Some ks, m', x', rep', w') \<Longrightarrow> role m = RoleTool"
begin

lemma loop_post:
  assumes "hstore H = I" "hex_digest (henv H)"
  shows "ok (st w) \<Longrightarrow> distinct is \<Longrightarrow> \<forall>i \<in> set is. i < length ms \<and> applies (ms ! i) \<Longrightarrow>
    offload_loop (step H) is ms x keys changed rep w = (ms', keys', changed', rep', w') \<Longrightarrow>
    \<exists>new. keys' = keys @ new \<and> pass_post ok holds H is ms rep w ms' new (changed' - changed) rep' w'"
proof (induction "is" arbitrary: ms x keys changed rep w)
  case Nil
  then show ?case by (simp add: pass_post_def keeps_refl)
next
  case (Cons i "is")
  obtain r m1 x1 rep1 w1 where s: "step H i (ms ! i) x rep w = (r, m1, x1, rep1, w1)" by (metis prod_cases5)
  have ap: "applies (ms ! i)" using Cons.prems(3) by simp
  note p = step_law [OF ap assms Cons.prems(1) s]
  have k1: "keeps ok holds H (case r of None \<Rightarrow> {} | Some ks \<Rightarrow> set ks) w w1" and irr: "Irreversible rep \<longrightarrow> Irreversible rep1"
    using p by (auto simp: step_post_def)
  show ?case
  proof (cases r)
    case None
    with Cons.prems s have l: "offload_loop (step H) is ms x1 keys changed rep1 w1 = (ms', keys', changed', rep', w')" by simp
    obtain new where new: "keys' = keys @ new" and q: "pass_post ok holds H is ms rep1 w1 ms' new (changed' - changed) rep' w'"
      using Cons.IH [OF keeps_ok [OF k1] _ _ l] Cons.prems by auto
    have "keeps ok holds H {} w w1" using k1 None by simp
    then have "pass_post ok holds H (i # is) ms rep w ms' new (changed' - changed) rep' w'"
      using q irr by (fastforce simp: pass_post_def intro: keeps_trans0 backed_weaken)
    with new show ?thesis by blast
  next
    case (Some ks)
    with Cons.prems s have l: "offload_loop (step H) is (ms[i := m1]) x1 (keys @ ks) (changed + 1) rep1 w1 = (ms', keys', changed', rep', w')" by simp
    have "\<forall>j \<in> set is. j < length (ms[i := m1]) \<and> applies ((ms[i := m1]) ! j)" using Cons.prems(2,3) by (auto simp: nth_list_update)
    then obtain new where new: "keys' = (keys @ ks) @ new"
      and q: "pass_post ok holds H is (ms[i := m1]) rep1 w1 ms' new (changed' - (changed + 1)) rep' w'"
      using Cons.IH [OF keeps_ok [OF k1] _ _ l] Cons.prems(2) by auto
    have i: "i < length ms" "i \<notin> set is" using Cons.prems by auto
    have k1': "keeps ok holds H (set ks) w w1" using k1 Some by simp
    obtain t where t: "m1 = SetMessageText (ms ! i) t" "TextTokens H t < TextTokens H (MessageText (ms ! i))" "set ks \<subseteq> set (ParseMarkers t)"
      and rw: "Rewritable (ms ! i)" and bk: "\<forall>k \<in> set ks. backed holds H k (MessageText (ms ! i)) w w1" and ir: "ks = [] \<longrightarrow> Irreversible rep1"
      using p Some by (auto simp: step_post_def)
    have at_i: "ms' ! i = m1" using q i by (auto simp: pass_post_def)
    have kw: "keeps ok holds H (set new) w1 w'" using q by (simp add: pass_post_def)
    have keys: "\<exists>j \<in> set (i # is). k \<in> set (ParseMarkers (MessageText (ms' ! j))) \<and> backed holds H k (MessageText (ms ! j)) w w'"
      if "k \<in> set (ks @ new)" for k
    proof (cases "k \<in> set new")
      case True
      then obtain j where j: "j \<in> set is" "k \<in> set (ParseMarkers (MessageText (ms' ! j)))" "backed holds H k (MessageText ((ms[i := m1]) ! j)) w1 w'"
        using q by (auto simp: pass_post_def)
      then have "backed holds H k (MessageText (ms ! j)) w w'" using i backed_weaken [OF k1'] by (metis nth_list_update_neq)
      with j show ?thesis by auto
    next
      case False
      with that have k: "k \<in> set ks" by simp
      then have "bare k" using t(3) ParseMarkers_bare by blast
      with False k bk kw have "backed holds H k (MessageText (ms ! i)) w w'" using backed_later by blast
      with k t at_i show ?thesis by auto
    qed
    have msgs: "ms' ! j = ms ! j \<or> j \<in> set (i # is) \<and> role (ms ! j) = RoleTool \<and> shrunk_message H (ms ! j) (ms' ! j)" if "j < length ms" for j
    proof (cases "j = i")
      case True
      with at_i t rw step_role [OF ap] s Some show ?thesis by (simp add: shrunk_message_def)
    next
      case False
      with q that show ?thesis by (auto simp: pass_post_def)
    qed
    have bare: "\<forall>k \<in> set (ks @ new). bare k" using t(3) ParseMarkers_bare q by (auto simp: pass_post_def)
    have "pass_post ok holds H (i # is) ms rep w ms' (ks @ new) (changed' - changed) rep' w'"
      using q irr ir keys msgs bare keeps_trans [OF k1' kw] unfolding pass_post_def by (auto simp: Un_commute)
    with new show ?thesis by auto
  qed
qed

lemma pass:
  assumes "hstore H = I" "hex_digest (henv H)" "ok (st w)" "distinct is" "\<forall>i \<in> set is. i < length ms \<and> applies (ms ! i)"
    and "finish_pass (offload_loop (step H) is ms x [] 0 rep w) = (ms', keys, rep', w')"
  shows "(\<exists>n rep1. pass_post ok holds H is ms rep w ms' keys n rep1 w' \<and> rep' = (if n = 0 then rep1\<lparr>Skipped := True\<rparr> else rep1))"
proof -
  obtain ms1 keys1 n rep1 w1 where l: "offload_loop (step H) is ms x [] 0 rep w = (ms1, keys1, n, rep1, w1)" by (metis prod_cases5)
  from loop_post [OF assms(1-5) l] assms(6) l show ?thesis by (auto simp: finish_pass_def split: if_splits)
qed

end

section \<open>What a pass means for the request\<close>

text \<open>The guarantee of a pass, spelled out with the reads of the store.\<close>

definition pass_guarantee :: "'s host \<Rightarrow> message list \<Rightarrow> 's world \<Rightarrow> message list \<Rightarrow> string list \<Rightarrow> Report \<Rightarrow> 's world \<Rightarrow> bool" where
  "pass_guarantee H ms w ms' keys rep' w' \<longleftrightarrow>
     length ms' = length ms
     \<and> (\<forall>i < length ms. ms' ! i = ms ! i \<or> role (ms ! i) = RoleTool \<and> shrunk_message H (ms ! i) (ms' ! i))
     \<and> (\<forall>k \<in> set keys. \<exists>i < length ms. str_contains (MessageText (ms' ! i)) (Marker k)
          \<and> (fst (iGet (hstore H) (hnow H) k (st w')) = Some (MessageText (ms ! i)) \<or> stashMissing w < stashMissing w'))
     \<and> (ms' \<noteq> ms \<longrightarrow> keys \<noteq> [] \<or> Irreversible rep')"

context rewind_store
begin

lemma guarantee:
  assumes "hstore H = I" "pass_post ok holds H is ms rep w ms' keys n rep1 w'"
    and "rep' = (if n = 0 then rep1\<lparr>Skipped := True\<rparr> else rep1)" "\<forall>i \<in> set is. i < length ms"
  shows "pass_guarantee H ms w ms' keys rep' w' \<and> ok (st w')"
proof -
  have ok: "ok (st w')" using assms(2) by (auto simp: pass_post_def dest: keeps_ok)
  have "\<exists>i < length ms. str_contains (MessageText (ms' ! i)) (Marker k)
          \<and> (fst (iGet I (hnow H) k (st w')) = Some (MessageText (ms ! i)) \<or> stashMissing w < stashMissing w')"
    if k: "k \<in> set keys" for k
  proof -
    obtain i where i: "i \<in> set is" "k \<in> set (ParseMarkers (MessageText (ms' ! i)))" "backed holds H k (MessageText (ms ! i)) w w'"
      using assms(2) k by (auto simp: pass_post_def)
    have "str_contains (MessageText (ms' ! i)) (Marker k)"
      using i(2) find_all_source by (auto simp: str_contains_iff)
    with i assms(4) show ?thesis using holds_get [OF ok] by (auto simp: backed_def)
  qed
  with assms ok show ?thesis unfolding pass_guarantee_def by (auto simp: pass_post_def)
qed

end

section \<open>Replaying a decision\<close>

lemma local_keys [simp]: "local_key (keptKey s k)" "local_key (frozenKey s c k)"
  by (simp_all add: local_key_def globalPrefixes_def XResultPrefix_def SweepExpandPrefix_def has_prefix_def keptKey_def
      frozenKey_def FrozenPrefix_def)

lemma key_kinds [simp]: "keptKey s k \<noteq> ownerKey s' k'" "keptKey s k \<noteq> frozenKey s' c k'"
  by (simp_all add: keptKey_def ownerKey_def frozenKey_def FrozenPrefix_def)

lemma bare_not_kept: "bare k \<Longrightarrow> keptKey s c \<noteq> k"
  using not_bare_keys(2) by blast

context decision_store
begin

lemma absent_after_commit:
  assumes "hstore H = I" "hex_digest (henv H)" "ok (st w)" "commitMark H eff key text rep w = (True, rep', w')"
    and "key = hashKey H text \<or> eff \<noteq> markerFull" "fst (w_get H (keptKey s k) w) = None"
  shows "fst (w_get H (keptKey s k) w') = None \<and> ok (st w')"
proof (cases "eff = markerFull")
  case False
  with assms show ?thesis by (simp add: commitMark_def)
next
  case True
  then have b: "bare key" using assms(2,5) hashKey_valid valid_key_bare by auto
  obtain c w1 where s: "w_stash H key text w = (c, w1)" by fastforce
  with assms(4) True have w': "w' = recordOwner H key w1" "c" by (auto simp: commitMark_def split: if_splits)
  have ok1: "ok (st w1)" using w_stash_keeps [OF assms(1,3) b s] by (auto dest: keeps_ok)
  have "fst (iGet I (hnow H) (keptKey s k) (st w1)) = None"
    using absent_stash [OF assms(3) b bare_not_kept [OF b] local_keys(1), of "hnow H" s k "text"] assms(1,6) s
    by (auto simp: w_get_def w_stash_def split: prod.splits)
  then have "fst (iGet I (hnow H) (keptKey s k) (st w')) = None"
    using absent_put [OF ok1, of _ "keptKey s k"] assms(1) by (auto simp: w' recordOwner_def w_put_def)
  moreover have "ok (st w')" using recordOwner_keeps [OF assms(1) ok1, of key] w' by (auto dest: keeps_ok)
  ultimately show ?thesis using assms(1) by (auto simp: w_get_def split: prod.splits)
qed

lemma kept_stays:
  assumes "hstore H = I" "ok (st w)" "skipReduce H t w = (None, w')"
  shows "\<not> fst (isKeptVerbatim H (contentKey H t) w')"
proof -
  have k: "isKeptVerbatim H (contentKey H t) w = (False, w')" using assms(3) by (auto simp: skipReduce_def split: if_splits prod.splits)
  show ?thesis
  proof (cases "map_of (Restored (hctx H)) (contentKey H t) = None")
    case True
    let ?k = "keptKey (Session (hctx H)) (contentKey H t)"
    have "iGet I (hnow H) ?k (st w) = (None, st w')" using k True assms(1)
      by (auto simp: isKeptVerbatim_def w_get_def split: prod.splits)
    with miss_frame [OF assms(2), of ?k ?k "hnow H"] have "fst (iGet I (hnow H) ?k (st w')) = None" by simp
    with True assms(1) show ?thesis by (auto simp: isKeptVerbatim_def w_get_def split: prod.splits)
  qed (simp add: isKeptVerbatim_def)
qed

text \<open>A decision made and frozen in this pass is what the replay produces, at whatever depth.\<close>

lemma mark_message_replays:
  assumes "hstore H = I" "hex_digest (henv H)" "iPersists I" "ok (st w)"
    and mm: "mark_message H md hint asm (Some cmp) m rep w = (Some ks, m', rep', w')"
    and kept: "\<not> fst (isKeptVerbatim H (contentKey H (MessageText m)) w)"
    and H': "H' = H\<lparr>hctx := c\<rparr>" "Session c = Session (hctx H)" "Restored c = Restored (hctx H)"
  shows "\<exists>a rep2 w2. reapplyFrozen H' cmp m rep1 w' = (Some a, m', rep2, w2)"
proof -
  let ?t = "MessageText m" and ?s = "Session (hctx H)"
  let ?ck = "contentKey H ?t"
  obtain t key eff where t: "tryMark H md ?t hint asm = (t, key, eff, True)" "m' = SetMessageText m t"
    and cm: "\<exists>wc. commitMark H eff key ?t rep w = (True, rep', wc) \<and> w' = freeze H cmp ?t t wc"
    using mm by (auto simp: mark_message_def Let_def split: prod.splits if_splits)
  then obtain wc where c: "commitMark H eff key ?t rep w = (True, rep', wc)" and w': "w' = freeze H cmp ?t t wc" by blast
  have key: "key = hashKey H ?t \<or> eff \<noteq> markerFull" and win: "TextTokens H t < TextTokens H ?t"
    using t(1) by (auto simp: tryMark_def markToken_def Let_def split: markerMode.splits prod.splits)
  have hk: "hashKey H' = hashKey H" "contentKey H' = contentKey H" "TextTokens H' = TextTokens H" "w_get H' = w_get H"
    by (auto simp: H' hashKey_def contentKey_def TextTokens_def w_get_def fun_eq_iff)
  have frz: "fst (w_get H (frozenKey ?s cmp ?ck) w') = Some t" and ok': "ok (st w')"
    if "ok (st wc)"
    using put_get [OF that assms(3), of "frozenKey ?s cmp ?ck" "hnow H" t] put_ok [OF that, of "frozenKey ?s cmp ?ck"] assms(1)
    by (auto simp: w' freeze_def w_put_def w_get_def split: prod.splits)
  have okc: "ok (st wc)"
  proof (cases "eff = markerFull")
    case True
    then have b: "bare key" using assms(2) key hashKey_valid valid_key_bare by auto
    obtain d w1 where s: "w_stash H key ?t w = (d, w1)" by fastforce
    with c True have "wc = recordOwner H key w1" by (auto simp: commitMark_def split: if_splits)
    with recordOwner_keeps [OF assms(1), of w1 key] w_stash_keeps [OF assms(1,4) b s] show ?thesis by (auto dest: keeps_ok)
  qed (use c assms(4) in \<open>auto simp: commitMark_def\<close>)
  obtain b wk where k: "isKeptVerbatim H' ?ck w' = (b, wk)" by fastforce
  have "\<not> b \<and> fst (w_get H (frozenKey ?s cmp ?ck) wk) = Some t"
  proof (cases "map_of (Restored (hctx H)) ?ck = None")
    case False
    with k H' frz okc show ?thesis by (auto simp: isKeptVerbatim_def)
  next
    case True
    then have "fst (w_get H (keptKey ?s ?ck) w) = None" using kept by (auto simp: isKeptVerbatim_def split: prod.splits)
    note absent_after_commit [OF assms(1,2,4) c key this]
    then have "fst (w_get H (keptKey ?s ?ck) wc) = None" by simp
    then have n: "fst (iGet I (hnow H) (keptKey ?s ?ck) (st w')) = None"
      using absent_put [OF okc, of "frozenKey ?s cmp ?ck" "keptKey ?s ?ck"] assms(1)
      by (auto simp: w' freeze_def w_put_def w_get_def split: prod.splits)
    have "fst (iGet I (hnow H) (frozenKey ?s cmp ?ck) (snd (iGet I (hnow H) (keptKey ?s ?ck) (st w')))) = Some t"
      using miss_frame [OF ok' [OF okc] _ _ n, of "frozenKey ?s cmp ?ck"] frz [OF okc] assms(1) by (auto simp: w_get_def split: prod.splits)
    with k n True H' assms(1) show ?thesis by (auto simp: isKeptVerbatim_def w_get_def split: prod.splits)
  qed
  then obtain w2 where g: "w_get H' (frozenKey (Session (hctx H')) cmp ?ck) wk = (Some t, w2)" and nb: "\<not> b"
    using H' hk by (cases "w_get H (frozenKey ?s cmp ?ck) wk") auto
  show ?thesis using k g nb win t(2) by (auto simp: reapplyFrozen_def Let_def hk split: prod.splits)
qed

end

end
