(* ===== verification/Offload_Mask.thy ===== *)
theory Offload_Mask
  imports Offload_Contract
begin

text \<open>
  The two offloaders that act by age: \<open>mask\<close> (\<open>src/components/offload/mask.go\<close>) replaces all but the
  newest tool outputs, \<open>failed_run\<close> (\<open>src/components/offload/failed_run.go\<close>) the earlier failed runs a
  later run supersedes, with the helpers \<open>headPeek\<close> and \<open>clipRunes\<close> of \<open>common.go\<close>. Both replay frozen
  decisions at every depth and make new ones only past the cached prefix. Their steps meet the
  contract of \<open>offloader\<close> on every rewind store. \<open>keep_recent\<close> is a natural number here; the code has an
  \<open>int\<close> with no lower bound, and a negative one slices past the list of tool outputs.
\<close>

section \<open>Helpers\<close>

definition rune_start :: "char \<Rightarrow> bool" where
  "rune_start c \<longleftrightarrow> \<not> in_range 0x80 0xBF c"

fun back_to_start :: "string \<Rightarrow> nat \<Rightarrow> nat" where
  "back_to_start s 0 = 0"
| "back_to_start s (Suc b) = (if rune_start (s ! Suc b) then Suc b else back_to_start s b)"

definition clipRunes :: "string \<Rightarrow> int \<Rightarrow> string" where
  "clipRunes s maxBytes =
     (if maxBytes \<le> 0 then []
      else if int (length s) \<le> maxBytes then s
      else take (back_to_start s (nat maxBytes)) s)"

definition ellipsis :: string where "ellipsis = [CHR 0xE2, CHR 0x80, CHR 0xA6]"

definition headPeek :: "string \<Rightarrow> int \<Rightarrow> string" where
  "headPeek text maxChars =
     (if maxChars \<le> 0 then []
      else let head = join_with '' '' (str_fields (clipRunes text (wrap64 (maxChars * 4))))
           in if head = [] then []
              else let head = replace_str ''<<cg:'' ''<< cg:'' 0 head; r = runes head
                   in if int (length r) > maxChars then of_runes (take (nat maxChars) r) @ ellipsis else head)"

section \<open>mask\<close>

record Mask =
  mask_keepRecent :: nat
  mask_minTokens :: int
  mask_keepHeadChars :: int
  mask_mode :: markerMode
  mask_coldCache :: bool

record maskConfig =
  KeepRecent :: nat
  MaskMinTokens :: int
  KeepHeadChars :: "int option"
  MaskMarkerMode :: string
  MaskColdCache :: "bool option"

definition coldCacheDefault :: "bool option \<Rightarrow> bool" where
  "coldCacheDefault v = (case v of None \<Rightarrow> True | Some b \<Rightarrow> b)"

definition newMask :: "maskConfig \<Rightarrow> Mask" where
  "newMask cfg =
     \<lparr>mask_keepRecent = KeepRecent cfg, mask_minTokens = MaskMinTokens cfg,
      mask_keepHeadChars = (case KeepHeadChars cfg of Some n \<Rightarrow> n | None \<Rightarrow> 96),
      mask_mode = parseMarkerMode (MaskMarkerMode cfg), mask_coldCache = coldCacheDefault (MaskColdCache cfg)\<rparr>"

definition mask_prefix :: "Mask \<Rightarrow> string \<Rightarrow> string" where
  "mask_prefix cfg text =
     (let peek = headPeek text (mask_keepHeadChars cfg)
      in if peek \<noteq> [] then ''[older tool output masked; starts: '' @ peek @ ''] ''
         else ''[older tool output masked] '')"

definition mask_step :: "Mask \<Rightarrow> 's host \<Rightarrow> (unit, 's) step" where
  "mask_step cfg H i m x rep w =
     (let text = MessageText m
      in if \<not> Rewritable m then (None, m, x, Gate ''non_text_blocks'' rep, w)
         else if text = [] then (None, m, x, rep, w)
         else case reapplyFrozen H ''mask'' m rep w of
                (Some (fk, _), m, rep, w) \<Rightarrow> (Some fk, m, x, rep, w)
              | (None, _, rep, w) \<Rightarrow>
                  (case skipReduce H text w of
                     (Some gate, w) \<Rightarrow> (None, m, x, Gate gate rep, w)
                   | (None, w) \<Rightarrow>
                       if TextTokens H text < mask_minTokens cfg then (None, m, x, Gate ''below_min_tokens'' rep, w)
                       else if \<not> TailOnlyCold (Some (hctx H)) (int i) (mask_coldCache cfg) \<and> \<not> repairLostFreeze H ''mask'' text w
                       then (None, m, x, Gate ''cached_prefix'' rep, w)
                       else case mark_message H (mask_mode cfg) full_hint (\<lambda>tok. mask_prefix cfg text @ tok) (Some ''mask'') m rep w of
                              (r, m, rep, w) \<Rightarrow> (r, m, x, rep, w)))"

definition mask_Offload :: "Mask \<Rightarrow> 's host \<Rightarrow> message list \<Rightarrow> Report \<Rightarrow> 's world \<Rightarrow> message list \<times> string list \<times> Report \<times> 's world" where
  "mask_Offload cfg H ms rep w =
     (let tools = toolIndices ms
      in if length tools \<le> mask_keepRecent cfg
         then (ms, [], (Gate ''within_keep_recent'' rep)\<lparr>Skipped := True\<rparr>, w)
         else finish_pass (offload_loop (mask_step cfg H) (take (length tools - mask_keepRecent cfg) tools) ms () [] 0 rep w))"

section \<open>failed_run\<close>

text \<open>The two expressions, under the flags \<open>(?im)\<close>.\<close>

definition Indent :: re where "Indent = Seq BeginLine (Star (OneOf [CHR 0x20, CHR 0x09]))"

definition NonZero :: re where "NonZero = OneOf ''123456789''"

definition runMarkers :: re where
  "runMarkers =
     Alt (Seqs [Plus Digit, FoldLit '' '', Alts (map FoldLit [''passed'', ''failed'', ''error''])])
       (Seq Indent
          (Alts [Seq (FoldLit ''BUILD '') (Alts (map FoldLit [''SUCCESS'', ''FAIL''])),
                 Seqs [Plus (Chr (CHR ''='')), FoldLit '' '', Alts (map FoldLit [''FAILURES'', ''test session''])],
                 FoldLit ''Traceback (most recent'', Seq (FoldLit ''FAILED'') WordEdge, FoldLit ''panic:'', FoldLit ''npm ERR!'']))"

definition failMarkers :: re where
  "failMarkers =
     Alts
       [Seqs [NonZero, Star Digit, FoldLit '' '',
              Alt (FoldLit ''failed'') (Seq (FoldLit ''error'') (Opt (Alt (FoldLit ''s'') (FoldLit ''ed'')))), WordEdge],
        Seqs [WordEdge, FoldLit ''exit'', Opt (FoldLit ''ed with''), FoldLit '' '', Opt (FoldLit ''code ''), NonZero],
        Seq Indent
          (Alts [FoldLit ''build fail'', Seqs [Plus (Chr (CHR ''='')), FoldLit '' failures''],
                 FoldLit ''traceback (most recent'', FoldLit ''panic:'', FoldLit ''npm err!'']),
        Seqs [Indent, Lit ''FAILED'', WordEdge]]"

record FailedRun =
  fr_minTokens :: int
  fr_mode :: markerMode
  fr_coldCache :: bool

record failedRunConfig =
  FrMinTokens :: int
  FrMarkerMode :: string
  FrColdCache :: "bool option"

definition newFailedRun :: "failedRunConfig \<Rightarrow> FailedRun" where
  "newFailedRun cfg =
     \<lparr>fr_minTokens = FrMinTokens cfg, fr_mode = parseMarkerMode (FrMarkerMode cfg), fr_coldCache = coldCacheDefault (FrColdCache cfg)\<rparr>"

text \<open>The first loop: the indices of run-like outputs, in order.\<close>

fun find_runs :: "FailedRun \<Rightarrow> 's host \<Rightarrow> message list \<Rightarrow> nat list \<Rightarrow> nat list \<Rightarrow> Report \<Rightarrow> nat list \<times> Report" where
  "find_runs cfg H ms [] runs rep = (runs, rep)"
| "find_runs cfg H ms (i # is) runs rep =
     (let m = ms ! i; text = MessageText m
      in if role m \<noteq> RoleTool then find_runs cfg H ms is runs rep
         else if \<not> Rewritable m then find_runs cfg H ms is runs (Gate ''non_text_blocks'' rep)
         else if TextTokens H text < fr_minTokens cfg then find_runs cfg H ms is runs (Gate ''below_min_tokens'' rep)
         else if HasPlaceholder text then find_runs cfg H ms is runs (Gate ''marker_present'' rep)
         else if \<not> match_string runMarkers text then find_runs cfg H ms is runs (Gate ''not_run_like'' rep)
         else find_runs cfg H ms is (runs @ [i]) rep)"

definition superseded_note :: string where
  "superseded_note = ''[superseded by a later failed'' @ [CHR 0xE2, CHR 0x86, CHR 0x92] @ ''re-run] ''"

definition failed_run_step :: "FailedRun \<Rightarrow> 's host \<Rightarrow> (unit, 's) step" where
  "failed_run_step cfg H i m x rep w =
     (let text = MessageText m
      in case reapplyFrozen H ''failed_run'' m rep w of
           (Some (fk, _), m, rep, w) \<Rightarrow> (Some fk, m, x, rep, w)
         | (None, _, rep, w) \<Rightarrow>
             (case isKeptVerbatim H (contentKey H text) w of
                (True, w) \<Rightarrow> (None, m, x, Gate GateKeptVerbatim rep, w)
              | (False, w) \<Rightarrow>
                  if \<not> match_string failMarkers text then (None, m, x, Gate ''earlier_run_passed'' rep, w)
                  else if \<not> TailOnlyCold (Some (hctx H)) (int i) (fr_coldCache cfg) \<and> \<not> repairLostFreeze H ''failed_run'' text w
                  then (None, m, x, Gate ''cached_prefix'' rep, w)
                  else case mark_message H (fr_mode cfg) full_hint (\<lambda>tok. superseded_note @ tok) (Some ''failed_run'') m rep w of
                         (r, m, rep, w) \<Rightarrow> (r, m, x, rep, w)))"

definition failed_run_Offload :: "FailedRun \<Rightarrow> 's host \<Rightarrow> message list \<Rightarrow> Report \<Rightarrow> 's world \<Rightarrow> message list \<times> string list \<times> Report \<times> 's world" where
  "failed_run_Offload cfg H ms rep w =
     (case find_runs cfg H ms [0..<length ms] [] rep of
        (runs, rep) \<Rightarrow>
          if length runs < 2 then (ms, [], (Gate ''fewer_than_two_runs'' rep)\<lparr>Skipped := True\<rparr>, w)
          else finish_pass (offload_loop (failed_run_step cfg H) (butlast runs) ms () [] 0 rep w))"

section \<open>The steps meet the contract\<close>

text \<open>The replay that opens a step, and what follows a miss.\<close>

context rewind_store
begin

lemma replay_then:
  assumes H: "hstore H = I" and ok: "ok (st w)" and rw: "Rewritable m"
    and miss: "\<And>w1. ok (st w1) \<Longrightarrow> reapplyFrozen H c m rep w = (None, m, rep, w1) \<Longrightarrow> step_post ok holds H m rep w1 r m' rep' w'"
    and hit: "\<And>fk saved m1 rep1 w1. reapplyFrozen H c m rep w = (Some (fk, saved), m1, rep1, w1) \<Longrightarrow>
      r = Some fk \<and> m' = m1 \<and> rep' = rep1 \<and> w' = w1"
  shows "step_post ok holds H m rep w r m' rep' w'"
proof -
  obtain r1 m1 rep1 w1 where f: "reapplyFrozen H c m rep w = (r1, m1, rep1, w1)" by (metis prod_cases4)
  note p = reapplyFrozen_post [OF H ok rw f]
  show ?thesis
  proof (cases r1)
    case None
    with p have k: "keeps ok holds H {} w w1" and e: "m1 = m" "rep1 = rep" by (auto simp: step_post_def)
    from miss [OF keeps_ok [OF k]] f None e have "step_post ok holds H m rep w1 r m' rep' w'" by simp
    with k show ?thesis by (rule step_post_earlier)
  next
    case (Some a)
    with p f hit [of "fst a" "snd a"] show ?thesis by auto
  qed
qed

lemma mask_step_post:
  assumes "hstore H = I" "hex_digest (henv H)" "ok (st w)" "mask_step cfg H i m x rep w = (r, m', x', rep', w')"
  shows "step_post ok holds H m rep w r m' rep' w'"
proof (cases "Rewritable m \<and> MessageText m \<noteq> []")
  case False
  with assms(3,4) show ?thesis by (auto simp: mask_step_def Let_def split: if_splits intro!: step_post_idle keeps_refl)
next
  case True
  show ?thesis
  proof (rule replay_then [OF assms(1,3)])
    show "Rewritable m" using True by simp
  next
    fix w1 assume w1: "ok (st w1)" "reapplyFrozen H ''mask'' m rep w = (None, m, rep, w1)"
    obtain g w2 where s: "skipReduce H (MessageText m) w1 = (g, w2)" by fastforce
    have k: "keeps ok holds H {} w1 w2" by (rule skipReduce_keeps [OF assms(1) w1(1) s])
    obtain r3 m3 rep3 w3 where mm: "mark_message H (mask_mode cfg) full_hint (\<lambda>tok. mask_prefix cfg (MessageText m) @ tok) (Some ''mask'') m rep w2
        = (r3, m3, rep3, w3)" by (metis prod_cases4)
    have "step_post ok holds H m rep w2 r3 m3 rep3 w3"
      by (rule mark_message_post [OF assms(1,2) keeps_ok [OF k] _ mm]) (use True in auto)
    then have "step_post ok holds H m rep w1 r3 m3 rep3 w3" by (rule step_post_earlier [OF k])
    with assms(4) True w1 s mm k show "step_post ok holds H m rep w1 r m' rep' w'"
      by (auto simp: mask_step_def Let_def split: if_splits option.splits intro: step_post_idle)
  next
    fix fk saved m1 rep1 w1 assume "reapplyFrozen H ''mask'' m rep w = (Some (fk, saved), m1, rep1, w1)"
    with assms(4) True show "r = Some fk \<and> m' = m1 \<and> rep' = rep1 \<and> w' = w1" by (simp add: mask_step_def Let_def)
  qed
qed

lemma failed_run_step_post:
  assumes "Rewritable m" "hstore H = I" "hex_digest (henv H)" "ok (st w)" "failed_run_step cfg H i m x rep w = (r, m', x', rep', w')"
  shows "step_post ok holds H m rep w r m' rep' w'"
proof (rule replay_then [OF assms(2,4,1)])
  fix w1 assume w1: "ok (st w1)" "reapplyFrozen H ''failed_run'' m rep w = (None, m, rep, w1)"
  obtain b w2 where s: "isKeptVerbatim H (contentKey H (MessageText m)) w1 = (b, w2)" by fastforce
  have k: "keeps ok holds H {} w1 w2" by (rule isKeptVerbatim_keeps [OF assms(2) w1(1) s])
  obtain r3 m3 rep3 w3 where mm: "mark_message H (fr_mode cfg) full_hint (\<lambda>tok. superseded_note @ tok) (Some ''failed_run'') m rep w2
      = (r3, m3, rep3, w3)" by (metis prod_cases4)
  have "step_post ok holds H m rep w2 r3 m3 rep3 w3"
    by (rule mark_message_post [OF assms(2,3) keeps_ok [OF k] assms(1) mm]) auto
  then have "step_post ok holds H m rep w1 r3 m3 rep3 w3" by (rule step_post_earlier [OF k])
  with assms(5) w1 s mm k show "step_post ok holds H m rep w1 r m' rep' w'"
    by (auto simp: failed_run_step_def Let_def split: if_splits bool.splits intro: step_post_idle)
next
  fix fk saved m1 rep1 w1 assume "reapplyFrozen H ''failed_run'' m rep w = (Some (fk, saved), m1, rep1, w1)"
  with assms(5) show "r = Some fk \<and> m' = m1 \<and> rep' = rep1 \<and> w' = w1" by (simp add: failed_run_step_def Let_def)
qed

end

sublocale rewind_store \<subseteq> mask: offloader I ok holds "\<lambda>m. role m = RoleTool" "mask_step cfg" for cfg
  by unfold_locales (rule mask_step_post)

sublocale rewind_store \<subseteq> failed_run: offloader I ok holds "\<lambda>m. role m = RoleTool \<and> Rewritable m" "failed_run_step cfg" for cfg
  by unfold_locales (rule failed_run_step_post, auto)

section \<open>The passes\<close>

lemma toolIndices_ok: "distinct (toolIndices ms)" "i \<in> set (toolIndices ms) \<Longrightarrow> i < length ms \<and> role (ms ! i) = RoleTool"
  by (auto simp: toolIndices_def)

lemma skipped_guarantee: "pass_guarantee H ms w ms [] rep w"
  by (simp add: pass_guarantee_def)

lemma find_runs_Cons:
  "find_runs cfg H ms (i # is) runs rep = (out, rep') \<Longrightarrow>
   \<exists>rep1. find_runs cfg H ms is runs rep1 = (out, rep') \<or>
     role (ms ! i) = RoleTool \<and> Rewritable (ms ! i) \<and> match_string runMarkers (MessageText (ms ! i)) \<and>
     find_runs cfg H ms is (runs @ [i]) rep1 = (out, rep')"
  by (auto simp: Let_def split: if_splits)

lemma find_runs_spec:
  assumes "find_runs cfg H ms is runs rep = (out, rep')" "sorted_wrt (<) (runs @ is)"
    and "\<forall>i \<in> set runs. i < length ms \<and> role (ms ! i) = RoleTool \<and> Rewritable (ms ! i) \<and> match_string runMarkers (MessageText (ms ! i))"
    and "\<forall>i \<in> set is. i < length ms"
  shows "sorted_wrt (<) out \<and> (\<forall>i \<in> set out. i < length ms \<and> role (ms ! i) = RoleTool \<and> Rewritable (ms ! i)
    \<and> match_string runMarkers (MessageText (ms ! i)))"
  using assms
proof (induction "is" arbitrary: runs rep)
  case (Cons i "is")
  from find_runs_Cons [OF Cons.prems(1)] obtain rep1 where
    "find_runs cfg H ms is runs rep1 = (out, rep') \<or>
     role (ms ! i) = RoleTool \<and> Rewritable (ms ! i) \<and> match_string runMarkers (MessageText (ms ! i)) \<and>
     find_runs cfg H ms is (runs @ [i]) rep1 = (out, rep')" by blast
  then show ?case
    using Cons.IH [of runs rep1] Cons.IH [of "runs @ [i]" rep1] Cons.prems(2-4) by (auto simp: sorted_wrt_append)
qed simp

context rewind_store
begin

lemma mask_pass:
  assumes "hstore H = I" "hex_digest (henv H)" "ok (st w)" "mask_Offload cfg H ms rep w = (ms', keys, rep', w')"
  shows "pass_guarantee H ms w ms' keys rep' w' \<and> ok (st w')
    \<and> (\<forall>i \<in> set (drop (length (toolIndices ms) - mask_keepRecent cfg) (toolIndices ms)). ms' ! i = ms ! i)"
proof (cases "length (toolIndices ms) \<le> mask_keepRecent cfg")
  case True
  with assms(3,4) show ?thesis by (auto simp: mask_Offload_def Let_def skipped_guarantee)
next
  case False
  let ?is = "take (length (toolIndices ms) - mask_keepRecent cfg) (toolIndices ms)"
  have d: "distinct ?is" "\<forall>i \<in> set ?is. i < length ms \<and> role (ms ! i) = RoleTool"
    using toolIndices_ok by (auto dest: in_set_takeD)
  have f: "finish_pass (offload_loop (mask_step cfg H) ?is ms () [] 0 rep w) = (ms', keys, rep', w')"
    using assms(4) False by (simp add: mask_Offload_def Let_def)
  obtain n rep1 where p: "pass_post ok holds H ?is ms rep w ms' keys n rep1 w'" "rep' = (if n = 0 then rep1\<lparr>Skipped := True\<rparr> else rep1)"
    using mask.pass [OF assms(1-3) d(1) _ f] d(2) by auto
  have "ms' ! i = ms ! i" if "i \<in> set (drop (length (toolIndices ms) - mask_keepRecent cfg) (toolIndices ms))" for i
  proof -
    have "i \<notin> set ?is" using that toolIndices_ok(1) [of ms] by (metis append_take_drop_id disjoint_iff distinct_append)
    moreover have "i < length ms" using that toolIndices_ok(2) by (auto dest: in_set_dropD)
    ultimately show ?thesis using p(1) by (auto simp: pass_post_def)
  qed
  with guarantee [OF assms(1) p] d(2) show ?thesis by blast
qed

lemma failed_run_pass:
  assumes "hstore H = I" "hex_digest (henv H)" "ok (st w)" "failed_run_Offload cfg H ms rep w = (ms', keys, rep', w')"
  shows "pass_guarantee H ms w ms' keys rep' w' \<and> ok (st w')
    \<and> (\<forall>i < length ms. ms' ! i \<noteq> ms ! i \<longrightarrow> match_string runMarkers (MessageText (ms ! i))
        \<and> (\<exists>j. i < j \<and> j < length ms \<and> ms' ! j = ms ! j \<and> match_string runMarkers (MessageText (ms ! j))))"
proof -
  obtain runs rep0 where r: "find_runs cfg H ms [0..<length ms] [] rep = (runs, rep0)" by fastforce
  have s: "sorted_wrt (<) runs" "\<forall>i \<in> set runs. i < length ms \<and> role (ms ! i) = RoleTool \<and> Rewritable (ms ! i) \<and> match_string runMarkers (MessageText (ms ! i))"
    using find_runs_spec [OF r] by (auto simp: sorted_wrt_upt)
  show ?thesis
  proof (cases "length runs < 2")
    case True
    with assms(3,4) r show ?thesis by (auto simp: failed_run_Offload_def skipped_guarantee)
  next
    case False
    then obtain bl l where runs: "runs = bl @ [l]" by (metis append_butlast_last_id list.size(3) pos2)
    have d: "distinct bl" "\<forall>i \<in> set bl. i < length ms \<and> role (ms ! i) = RoleTool" "\<forall>i \<in> set bl. i < length ms \<and> role (ms ! i) = RoleTool \<and> Rewritable (ms ! i)"
      using s runs by (auto simp: sorted_wrt_append strict_sorted_iff)
    have f: "finish_pass (offload_loop (failed_run_step cfg H) bl ms () [] 0 rep0 w) = (ms', keys, rep', w')"
      using assms(4) False r runs by (simp add: failed_run_Offload_def)
    obtain n rep1 where p: "pass_post ok holds H bl ms rep0 w ms' keys n rep1 w'" "rep' = (if n = 0 then rep1\<lparr>Skipped := True\<rparr> else rep1)"
      using failed_run.pass [OF assms(1-3) d(1,3) f] by auto
    have l: "l < length ms" "ms' ! l = ms ! l" "match_string runMarkers (MessageText (ms ! l))" "l \<notin> set bl"
      using s runs p(1) by (auto simp: pass_post_def sorted_wrt_append)
    have "match_string runMarkers (MessageText (ms ! i)) \<and> i < l" if "i < length ms" "ms' ! i \<noteq> ms ! i" for i
      using p(1) that s runs l(2) by (auto simp: pass_post_def sorted_wrt_append)
    with l guarantee [OF assms(1) p] d(2) show ?thesis by blast
  qed
qed

end

section \<open>On the in-memory store\<close>

text \<open>
  C8: masking is reversible and never worse. On a well-formed in-memory store, a pass of \<open>mask\<close>
  changes only older tool outputs, each to a text with fewer tokens, and leaves the newest ones
  alone; for every key it reports, a message of the result carries the marker and a read of the key
  gives back exactly the text that message had, or a missing payload was counted; a request it
  changed has a key or is flagged irreversible.
\<close>

theorem mask_reversible:
  assumes "hstore H = memory_store" "hex_digest (henv H)" "mem_ok (st w)" "mask_Offload cfg H ms rep w = (ms', keys, rep', w')"
  shows "pass_guarantee H ms w ms' keys rep' w' \<and> mem_ok (st w')
    \<and> (\<forall>i \<in> set (drop (length (toolIndices ms) - mask_keepRecent cfg) (toolIndices ms)). ms' ! i = ms ! i)"
  by (rule mem_rewind.mask_pass [OF assms])

definition host0 :: "Memory host" where
  "host0 = \<lparr>henv = \<lparr>count_tokens = (\<lambda>t. int (length t)), clone_json = id, sha_hex = (\<lambda>_. replicate 64 CHR ''0'')\<rparr>,
     hstore = memory_store, hnow = 0, hctx = ctx0\<lparr>MaxCachedIdx := -1\<rparr>\<rparr>"

definition world0 :: "Memory world" where
  "world0 = \<lparr>st = NewMemory opts0, stashRefusals = 0, stashMissing = 0, frozenHits = 0, frozenMisses = 0, expandFlips = 0\<rparr>"

definition mask0 :: Mask where
  "mask0 = \<lparr>mask_keepRecent = 0, mask_minTokens = 1, mask_keepHeadChars = 0, mask_mode = markerFull, mask_coldCache = True\<rparr>"

definition long_msg :: message where
  "long_msg = (SetMessageText empty_message (replicate 120 CHR ''a''))\<lparr>role := RoleTool, toolMsg := Some (Some ''t1'')\<rparr>"

lemma host0_ok [simp]: "hstore host0 = memory_store" "hex_digest (henv host0)" "mem_ok (st world0)"
proof -
  show "hstore host0 = memory_store" "hex_digest (henv host0)" by (simp_all add: host0_def hex_digest_def list_all_iff)
  have "ttl_ok (NewMemory opts0)" by code_simp
  then show "mem_ok (st world0)" by (simp add: world0_def NewMemory_ok)
qed

theorem mask_reversible_witness:
  "\<exists>ms' rep' w'. mask_Offload mask0 host0 [long_msg] (new_report ''mask'' ModeSync) world0 = (ms', [replicate 16 CHR ''0''], rep', w')
     \<and> pass_guarantee host0 [long_msg] world0 ms' [replicate 16 CHR ''0''] rep' w'"
proof -
  obtain ms' keys rep' w' where r: "mask_Offload mask0 host0 [long_msg] (new_report ''mask'' ModeSync) world0 = (ms', keys, rep', w')"
    by (metis prod_cases4)
  have "fst (snd (mask_Offload mask0 host0 [long_msg] (new_report ''mask'' ModeSync) world0)) = [replicate 16 CHR ''0'']"
    by code_simp
  with r mask_reversible [OF host0_ok r] show ?thesis by auto
qed



text \<open>
  C36: \<open>failed_run\<close> hides only what a later run supersedes. Every output it changes is run-like and a
  later run-like output is left in full; the pass is reversible and never worse like \<open>mask\<close>.
\<close>

theorem failed_run_superseded:
  assumes "hstore H = memory_store" "hex_digest (henv H)" "mem_ok (st w)" "failed_run_Offload cfg H ms rep w = (ms', keys, rep', w')"
  shows "pass_guarantee H ms w ms' keys rep' w' \<and> mem_ok (st w')
    \<and> (\<forall>i < length ms. ms' ! i \<noteq> ms ! i \<longrightarrow> match_string runMarkers (MessageText (ms ! i))
        \<and> (\<exists>j. i < j \<and> j < length ms \<and> ms' ! j = ms ! j \<and> match_string runMarkers (MessageText (ms ! j))))"
  by (rule mem_rewind.failed_run_pass [OF assms])

definition failed0 :: FailedRun where
  "failed0 = \<lparr>fr_minTokens = 1, fr_mode = markerFull, fr_coldCache = True\<rparr>"

definition host1 :: "Memory host" where
  "host1 = host0\<lparr>henv := (henv host0)\<lparr>count_tokens := (\<lambda>t. if has_prefix t ''['' then 1 else int (length t))\<rparr>\<rparr>"

lemma host1_ok: "hstore host1 = memory_store" "hex_digest (henv host1)" "mem_ok (st world0)"
  using host0_ok by (simp_all add: host1_def hex_digest_def)

definition fail_msg :: message where
  "fail_msg = (SetMessageText empty_message ''1 failed'')\<lparr>role := RoleTool, toolMsg := Some (Some ''t1'')\<rparr>"

theorem failed_run_superseded_witness:
  "\<exists>ms' rep' w'. failed_run_Offload failed0 host1 [fail_msg, fail_msg] (new_report ''failed_run'' ModeSync) world0 = (ms', [replicate 16 CHR ''0''], rep', w')
     \<and> pass_guarantee host1 [fail_msg, fail_msg] world0 ms' [replicate 16 CHR ''0''] rep' w'"
proof -
  obtain ms' keys rep' w' where r: "failed_run_Offload failed0 host1 [fail_msg, fail_msg] (new_report ''failed_run'' ModeSync) world0 = (ms', keys, rep', w')"
    by (metis prod_cases4)
  have "fst (snd (failed_run_Offload failed0 host1 [fail_msg, fail_msg] (new_report ''failed_run'' ModeSync) world0)) = [replicate 16 CHR ''0'']"
    by code_simp
  with r failed_run_superseded [OF host1_ok r] show ?thesis by auto
qed

text \<open>
  The cached prefix is not rewritten. Where the depth gate is shut (the index is inside the
  cached prefix and the cache has not provably expired), \<open>mask\<close> changes a message only by replaying a
  frozen decision, or when the store lost the decision frozen for that content.
\<close>

theorem mask_leaves_cached_prefix:
  assumes "mask_step cfg H i m () rep w = (Some ks, m', (), rep', w')"
    and "\<not> TailOnlyCold (Some (hctx H)) (int i) (mask_coldCache cfg)"
  shows "(\<exists>a w1. reapplyFrozen H ''mask'' m rep w = (Some a, m', rep', w1))
    \<or> (\<exists>w1 w2. reapplyFrozen H ''mask'' m rep w = (None, m, rep, w1) \<and> skipReduce H (MessageText m) w1 = (None, w2)
         \<and> repairLostFreeze H ''mask'' (MessageText m) w2)"
proof -
  obtain r m1 rep1 w1 where f: "reapplyFrozen H ''mask'' m rep w = (r, m1, rep1, w1)" by (metis prod_cases4)
  show ?thesis
  proof (cases r)
    case None
    then have "m1 = m" "rep1 = rep" using f by (auto simp: reapplyFrozen_def Let_def split: prod.splits bool.splits option.splits if_splits)
    with None f assms show ?thesis
      by (auto simp: mask_step_def Let_def split: if_splits prod.splits option.splits)
  next
    case (Some a)
    with f assms(1) show ?thesis by (cases a) (auto simp: mask_step_def Let_def split: if_splits)
  qed
qed

theorem mask_leaves_cached_prefix_witness:
  "let w1 = snd (snd (snd (snd (mask_step mask0 host0 0 long_msg () (new_report ''mask'' ModeSync) world0))))
   in \<exists>a rep' w2. reapplyFrozen (host0\<lparr>hctx := ctx0\<rparr>) ''mask'' long_msg (new_report ''mask'' ModeSync) w1 = (Some a, SetMessageText long_msg (mask_prefix mask0 [] @ Marker (replicate 16 CHR ''0'') @ full_hint), rep', w2)"
proof -
  let ?rep = "new_report ''mask'' ModeSync" and ?H = "host0\<lparr>hctx := ctx0\<rparr>"
  define w1 where "w1 = snd (snd (snd (snd (mask_step mask0 host0 0 long_msg () ?rep world0))))"
  obtain r m' rep' w' where s: "mask_step mask0 ?H 0 long_msg () ?rep w1 = (r, m', (), rep', w')"
    by (metis prod_cases5 old.unit.exhaust)
  have "fst (mask_step mask0 ?H 0 long_msg () ?rep w1) = Some [replicate 16 CHR ''0'']"
    "fst (snd (mask_step mask0 ?H 0 long_msg () ?rep w1)) = SetMessageText long_msg (mask_prefix mask0 [] @ Marker (replicate 16 CHR ''0'') @ full_hint)"
    "\<not> TailOnlyCold (Some (hctx ?H)) (int 0) (mask_coldCache mask0)"
    "\<not> repairLostFreeze ?H ''mask'' (MessageText long_msg) (snd (skipReduce ?H (MessageText long_msg) (snd (snd (snd (reapplyFrozen ?H ''mask'' long_msg ?rep w1))))))"
    unfolding w1_def by code_simp+
  with s mask_leaves_cached_prefix [of mask0 ?H 0 long_msg ?rep w1 "[replicate 16 CHR ''0'']" m' rep' w'] show ?thesis
    by (fastforce simp: w1_def)
qed

end
