(* ===== verification/Offload_Window.thy ===== *)
theory Offload_Window
  imports Offload_Mask
begin

text \<open>
  Three more offloaders: \<open>dedup\<close> (\<open>src/components/offload/dedup.go\<close>) replaces a repeated output by a
  pointer, \<open>collapse\<close> (\<open>collapse.go\<close>) keeps a head and a tail of an oversized output, \<open>linecap\<close>
  (\<open>linecap.go\<close>) cuts the middle of long lines and folds repeated ones. The command of a tool call,
  which \<open>dedup\<close> names in its pointer, comes out of a JSON decoder and is an argument.
\<close>

section \<open>dedup\<close>

record Dedup =
  dd_minTokens :: int
  dd_mode :: markerMode

definition maxCmdTokens :: int where "maxCmdTokens = 16"

text \<open>\<open>strings.ToValidUTF8(s, "")\<close>: the bytes of ill-formed runes are dropped.\<close>

definition to_valid :: "string \<Rightarrow> string" where
  "to_valid s = concat (map snd (filter fst (decode_runes s)))"

definition backtick :: string where "backtick = [CHR 0x60]"

lemma to_valid_length: "length (to_valid s) \<le> length s"
proof -
  have "length (concat (map snd (filter fst xs))) \<le> length (concat (map snd xs))" for xs :: "(bool \<times> string) list"
    by (induction xs) auto
  then show ?thesis by (metis concat_decode_runes to_valid_def)
qed

text \<open>The shrink loop of \<open>quoteCmd\<close>: each round keeps at most three quarters of the bytes.\<close>

function shrink_cmd :: "'s host \<Rightarrow> string \<Rightarrow> bool \<Rightarrow> string \<times> bool" where
  "shrink_cmd H cmd truncated =
     (if TextTokens H cmd > maxCmdTokens \<and> length cmd > 1
      then shrink_cmd H (to_valid (take (length cmd * 3 div 4) cmd)) True
      else (cmd, truncated))"
  by auto
termination
proof (relation "measure (\<lambda>(H, cmd, t). length cmd)")
  fix H :: "'s host" and cmd :: string and t :: bool
  assume "TextTokens H cmd > maxCmdTokens \<and> length cmd > 1"
  then have "length (take (length cmd * 3 div 4) cmd) < length cmd" by auto
  with to_valid_length [of "take (length cmd * 3 div 4) cmd"]
  show "((H, to_valid (take (length cmd * 3 div 4) cmd), True), (H, cmd, t)) \<in> measure (\<lambda>(H, cmd, t). length cmd)"
    by simp
qed simp

declare shrink_cmd.simps [simp del]

definition quoteCmd :: "'s host \<Rightarrow> string \<Rightarrow> string" where
  "quoteCmd H cmd =
     (let cmd = join_with '' '' (str_fields cmd);
          hard = nat (maxCmdTokens * 4);
          cmd = (if length cmd > hard then to_valid (take hard cmd) else cmd)
      in case shrink_cmd H cmd False of
           (cmd, truncated) \<Rightarrow> if truncated then backtick @ cmd @ ellipsis @ backtick else backtick @ cmd @ backtick)"

definition dedupNote :: "'s host \<Rightarrow> (ToolCall \<Rightarrow> string) \<Rightarrow> ToolCall option \<Rightarrow> string" where
  "dedupNote H command tc =
     (let cmd = (case tc of Some t \<Rightarrow> command t | None \<Rightarrow> [])
      in if cmd \<noteq> [] then ''[repeat of earlier '' @ quoteCmd H cmd @ ''; expand ''
         else ''[repeat of an earlier tool output; expand '')"

definition dedup_step :: "Dedup \<Rightarrow> (ToolCall \<Rightarrow> string) \<Rightarrow> (nat \<rightharpoonup> ToolCall) \<Rightarrow> 's host \<Rightarrow> (string \<rightharpoonup> nat, 's) step" where
  "dedup_step cfg command pairs H i m seen rep w =
     (let text = MessageText m
      in if role m \<noteq> RoleTool then (None, m, seen, rep, w)
         else if \<not> Rewritable m then (None, m, seen, Gate ''non_text_blocks'' rep, w)
         else if text = [] \<or> TextTokens H text < dd_minTokens cfg then (None, m, seen, Gate ''below_min_tokens'' rep, w)
         else case skipReduce H text w of
                (Some gate, w) \<Rightarrow> (None, m, seen, Gate gate rep, w)
              | (None, w) \<Rightarrow>
                  (case seen (hashKey H text) of
                     None \<Rightarrow> (None, m, seen(hashKey H text \<mapsto> i), Gate ''no_earlier_identical_output'' rep, w)
                   | Some first \<Rightarrow>
                       (case mark_message H (dd_mode cfg) [] (\<lambda>tok. dedupNote H command (pairs first) @ tok @ '']'') None m rep w of
                          (r, m, rep, w) \<Rightarrow> (r, m, seen, rep, w))))"

definition dedup_Offload ::
  "Dedup \<Rightarrow> (ToolCall \<Rightarrow> string) \<Rightarrow> 's host \<Rightarrow> message list \<Rightarrow> Report \<Rightarrow> 's world \<Rightarrow> message list \<times> string list \<times> Report \<times> 's world" where
  "dedup_Offload cfg command H ms rep w =
     finish_pass (offload_loop (dedup_step cfg command (ToolCalls ms) H) [0..<length ms] ms Map.empty [] 0 rep w)"

section \<open>collapse\<close>

record Collapse =
  cl_maxTokens :: int
  cl_maxFrac :: rat
  cl_headLines :: int
  cl_tailLines :: int
  cl_mode :: markerMode
  cl_coldCache :: bool

record collapseConfig =
  MaxTokens :: int
  MaxFrac :: rat
  HeadLines :: int
  TailLines :: int
  ClMarkerMode :: string
  ClColdCache :: "bool option"

definition newCollapse :: "collapseConfig \<Rightarrow> Collapse" where
  "newCollapse cfg =
     \<lparr>cl_maxTokens = MaxTokens cfg, cl_maxFrac = MaxFrac cfg, cl_headLines = max (HeadLines cfg) 0, cl_tailLines = max (TailLines cfg) 0,
      cl_mode = parseMarkerMode (ClMarkerMode cfg), cl_coldCache = coldCacheDefault (ClColdCache cfg)\<rparr>"

definition resolveBudget :: "int \<Rightarrow> rat \<Rightarrow> int \<Rightarrow> int" where
  "resolveBudget absolute f window = (if f > 0 \<and> window > 0 then \<lceil>f * of_int window\<rceil> else absolute)"

definition collapseCharsPerToken :: int where "collapseCharsPerToken = 4"
definition collapseFitPasses :: nat where "collapseFitPasses = 3"
definition collapseMinWindowChars :: int where "collapseMinWindowChars = 200"

definition splitWindow :: "Collapse \<Rightarrow> int \<Rightarrow> int \<times> int" where
  "splitWindow cl budget =
     (let (hl, tl) = (if cl_headLines cl + cl_tailLines cl = 0 then (1, 1) else (cl_headLines cl, cl_tailLines cl));
          head = go_div (budget * hl) (hl + tl)
      in (head, budget - head))"

definition window_text :: "string \<Rightarrow> int \<Rightarrow> string \<Rightarrow> string \<Rightarrow> string \<Rightarrow> string" where
  "window_text head omitted unit_name tail tok =
     head @ [newline] @ ''... ('' @ itoa omitted @ '' '' @ unit_name @ '' omitted) '' @ tok @ [newline] @ tail"

definition rune_asm :: "string list \<Rightarrow> int \<Rightarrow> int \<Rightarrow> string \<Rightarrow> string" where
  "rune_asm r h t tok =
     window_text (of_runes (take (nat h) r)) (int (length r) - h - t) ''characters'' (of_runes (drop (length r - nat t) r)) tok"

text \<open>The fit loop; the second argument counts the passes that are left.\<close>

fun fit_window :: "Collapse \<Rightarrow> nat \<Rightarrow> 's host \<Rightarrow> string list \<Rightarrow> int \<Rightarrow> int \<Rightarrow> (int \<times> int) option" where
  "fit_window cl passes H r maxTokens budget0 =
     (let budget = (if budget0 < collapseMinWindowChars then collapseMinWindowChars else budget0);
          (h, t) = splitWindow cl budget
      in if h + t \<ge> int (length r) then None
         else if passes = 0 \<or> budget = collapseMinWindowChars then Some (h, t)
         else let got = TextTokens H (rune_asm r h t [])
              in if got \<le> maxTokens then Some (h, t)
                 else let nxt = go_div (go_div (budget * maxTokens) got * 9) 10
                      in if nxt \<ge> budget then Some (h, t)
                         else case passes of 0 \<Rightarrow> Some (h, t) | Suc n \<Rightarrow> fit_window cl n H r maxTokens nxt)"

declare fit_window.simps [simp del]

definition runeWindow :: "Collapse \<Rightarrow> 's host \<Rightarrow> string \<Rightarrow> int \<Rightarrow> (string \<Rightarrow> string) option" where
  "runeWindow cl H text maxTokens =
     (let r = runes text
      in case fit_window cl collapseFitPasses H r maxTokens (min (maxTokens * collapseCharsPerToken) (int (length r) - 1)) of
           None \<Rightarrow> None
         | Some (h, t) \<Rightarrow> Some (rune_asm r h t))"

definition line_asm :: "Collapse \<Rightarrow> string list \<Rightarrow> string \<Rightarrow> string" where
  "line_asm cl lines tok =
     window_text (join_lines (take (nat (cl_headLines cl)) lines)) (int (length lines) - cl_headLines cl - cl_tailLines cl) ''lines''
       (join_lines (drop (length lines - nat (cl_tailLines cl)) lines)) tok"

definition window :: "Collapse \<Rightarrow> 's host \<Rightarrow> string \<Rightarrow> int \<Rightarrow> Report \<Rightarrow> ((string \<Rightarrow> string) \<times> bool) option \<times> Report" where
  "window cl H text maxTokens rep =
     (let lines = split_lines text
      in if cl_headLines cl + cl_tailLines cl > 0 \<and> int (length lines) > cl_headLines cl + cl_tailLines cl
            \<and> length (line_asm cl lines []) * 2 \<le> length text
         then (Some (line_asm cl lines, False), rep)
         else case runeWindow cl H text maxTokens of
                None \<Rightarrow> (None, Gate ''too_few_lines_and_chars'' rep)
              | Some asm \<Rightarrow> (Some (asm, True), rep))"

definition collapse_step :: "Collapse \<Rightarrow> int \<Rightarrow> 's host \<Rightarrow> (unit, 's) step" where
  "collapse_step cl maxTokens H i m x rep w =
     (let text = MessageText m
      in if role m \<noteq> RoleTool then (None, m, x, rep, w)
         else if \<not> Rewritable m then (None, m, x, Gate ''non_text_blocks'' rep, w)
         else if text = [] then (None, m, x, rep, w)
         else case reapplyFrozen H ''collapse'' m rep w of
                (Some (fk, _), m, rep, w) \<Rightarrow> (Some fk, m, x, rep, w)
              | (None, _, rep, w) \<Rightarrow>
                  if TextTokens H text \<le> maxTokens then (None, m, x, Gate ''below_max_tokens'' rep, w)
                  else (case skipReduce H text w of
                          (Some gate, w) \<Rightarrow> (None, m, x, Gate gate rep, w)
                        | (None, w) \<Rightarrow>
                            (case window cl H text maxTokens rep of
                               (None, rep) \<Rightarrow> (None, m, x, rep, w)
                             | (Some (asm, byChars), rep) \<Rightarrow>
                                 if \<not> TailOnlyCold (Some (hctx H)) (int i) (cl_coldCache cl) \<and> \<not> repairLostFreeze H ''collapse'' text w
                                 then (None, m, x, Gate ''cached_prefix'' rep, w)
                                 else (case mark_message H (cl_mode cl) full_hint asm (Some ''collapse'') m rep w of
                                         (None, m, rep, w) \<Rightarrow> (None, m, x, rep, w)
                                       | (Some ks, m, rep, w) \<Rightarrow> (Some ks, m, x, if byChars then Event ''char_window'' rep else rep, w)))))"

definition collapse_Offload :: "Collapse \<Rightarrow> 's host \<Rightarrow> message list \<Rightarrow> Report \<Rightarrow> 's world \<Rightarrow> message list \<times> string list \<times> Report \<times> 's world" where
  "collapse_Offload cl H ms rep w =
     (let maxTokens = resolveBudget (cl_maxTokens cl) (cl_maxFrac cl) (CtxWindow (hctx H))
      in finish_pass (offload_loop (collapse_step cl maxTokens H) [0..<length ms] ms () [] 0 rep w))"

section \<open>linecap\<close>

record Linecap =
  lc_maxLineChars :: int
  lc_dups :: bool
  lc_minSize :: int
  lc_mode :: markerMode

record linecapConfig =
  MaxLineChars :: "int option"
  CollapseDuplicateLines :: "bool option"
  MinSize :: "int option"
  LcMarkerMode :: string

definition defaultMaxLineChars :: int where "defaultMaxLineChars = 500"
definition defaultMinSize :: int where "defaultMinSize = 400"
definition minDupLineChars :: nat where "minDupLineChars = 8"
definition dupEdgeLines :: nat where "dupEdgeLines = 3"

definition newLinecap :: "linecapConfig \<Rightarrow> Linecap" where
  "newLinecap cfg =
     \<lparr>lc_maxLineChars = (case MaxLineChars cfg of Some n \<Rightarrow> n | None \<Rightarrow> defaultMaxLineChars),
      lc_dups = (case CollapseDuplicateLines cfg of Some b \<Rightarrow> b | None \<Rightarrow> True),
      lc_minSize = (case MinSize cfg of Some n \<Rightarrow> n | None \<Rightarrow> defaultMinSize), lc_mode = parseMarkerMode (LcMarkerMode cfg)\<rparr>"

definition linecap_Enabled :: "Linecap \<Rightarrow> bool" where
  "linecap_Enabled lc \<longleftrightarrow> lc_maxLineChars lc > 0 \<or> lc_dups lc"

definition TruncateRunes :: "string \<Rightarrow> int \<Rightarrow> string" where
  "TruncateRunes s n =
     (let r = runes s
      in if int (length r) \<le> n then s
         else if n < 3 then ''...''
         else of_runes (take (nat (n - 3)) r) @ ''...'')"

definition cut_marker :: string where "cut_marker = ''...[cut]...''"

definition clipMiddle :: "string \<Rightarrow> int \<Rightarrow> string" where
  "clipMiddle s n =
     (let r = runes s
      in if int (length r) \<le> n then s
         else if n < 3 then of_runes (take (nat n) r)
         else if n \<le> int (length cut_marker) then TruncateRunes s n
         else let budget = n - int (length (runes cut_marker)); head = budget * 2 div 3; tail = budget - head
              in of_runes (take (nat head) r) @ cut_marker @ of_runes (drop (length r - nat tail) r))"

text \<open>
  \<open>neverTruncateRe\<close>. The flag \<open>(?i)\<close> holds to the end of the group it stands in, so every alternative
  after the first one that carries it ignores case.
\<close>

definition NotSpace :: re where "NotSpace = Cls (\<lambda>c. \<not> re_space c)"

definition neverTruncateRe :: re where
  "neverTruncateRe =
     Alts
       [Seqs [BeginText, Plus NotSpace, Chr (CHR '':''), Plus Digit],
        Seqs [BeginText, Star Space, Alt (Lit (''File '' @ [CHR 0x22])) (Lit ''at '')],
        Alts (map FoldLit [''error'', ''exception'', ''traceback'', ''assertionerror'', ''panic:'', ''fatal'']),
        Seqs [BeginText, Alts (map FoldLit [''FAILED'', ''ERROR'', ''PASS'', ''FAIL'', ''ok'']), FoldLit '' ''],
        Seq (FoldLit ''exit '') (Alt (FoldLit ''code'') (FoldLit ''status'')),
        Seqs [BeginText, OneOf ''+-'', Opt (OneOf ''+-''), Opt (OneOf ''+-''), Cls (\<lambda>c. c \<notin> set ''+-'')],
        Seq BeginText (FoldLit ''@@ ''),
        Seqs [FoldLit ''http'', Opt (FoldLit ''s''), FoldLit ''://'']]"

definition neverTruncate :: "string \<Rightarrow> bool" where
  "neverTruncate line = match_string neverTruncateRe line"

definition diffShaped :: re where
  "diffShaped = Seq BeginLine (Alts (map Lit [''diff --git '', ''@@ '', ''Index: '', ''--- '', ''+++ '']))"

definition dupKey :: "string \<Rightarrow> string option" where
  "dupKey line = (let t = trim_space line in if length t < minDupLineChars then None else Some t)"

definition dup_count :: "string list \<Rightarrow> string \<Rightarrow> nat" where
  "dup_count ls k = length (filter (\<lambda>l. dupKey l = Some k) ls)"

text \<open>The middle of the output: a later repeat is dropped, the first one carries the count.\<close>

fun fold_dups :: "(string \<Rightarrow> nat) \<Rightarrow> string list \<Rightarrow> string set \<Rightarrow> (string \<times> nat) list \<times> nat" where
  "fold_dups cnt [] seen = ([], 0)"
| "fold_dups cnt (l # ls) seen =
     (case dupKey l of
        None \<Rightarrow> (case fold_dups cnt ls seen of (out, n) \<Rightarrow> ((l, 0) # out, n))
      | Some k \<Rightarrow>
          if cnt k < 2 then (case fold_dups cnt ls seen of (out, n) \<Rightarrow> ((l, 0) # out, n))
          else if k \<in> seen then (case fold_dups cnt ls seen of (out, n) \<Rightarrow> (out, n + 1))
          else (case fold_dups cnt ls (insert k seen) of (out, n) \<Rightarrow> ((l, cnt k) # out, n)))"

definition collapseScatteredDups :: "string list \<Rightarrow> (string \<times> nat) list \<times> nat" where
  "collapseScatteredDups lines =
     (let plain = map (\<lambda>l. (l, 0)) lines
      in if length lines \<le> 2 * dupEdgeLines then (plain, 0)
         else if match_string diffShaped (join_lines lines) then (plain, 0)
         else let lo = dupEdgeLines; hi = length lines - dupEdgeLines; mid = drop lo (take hi lines)
              in case fold_dups (dup_count mid) mid {} of
                   (out, folds) \<Rightarrow>
                     if folds = 0 then (plain, 0)
                     else (map (\<lambda>l. (l, 0)) (take lo lines) @ out @ map (\<lambda>l. (l, 0)) (drop hi lines), folds))"

definition cap_line :: "int \<Rightarrow> string \<Rightarrow> string" where
  "cap_line n l = (if int (length l) \<le> n \<or> neverTruncate l then l else clipMiddle l n)"

definition annotate :: "string \<times> nat \<Rightarrow> string" where
  "annotate x = (case x of (l, n) \<Rightarrow> if n > 1 then l @ ''  (x'' @ itoa (int n) @ '')'' else l)"

definition rewrite :: "Linecap \<Rightarrow> string \<Rightarrow> string \<times> nat" where
  "rewrite lc text =
     (let lines = split_lines text;
          (ls, folds) = (if lc_dups lc then collapseScatteredDups lines else (map (\<lambda>l. (l, 0)) lines, 0));
          capped = (if lc_maxLineChars lc > 0 then map (\<lambda>(l, n). (cap_line (lc_maxLineChars lc) l, n)) ls else ls);
          folds = folds + length (filter (\<lambda>((l, _), (l', _)). l \<noteq> l') (zip ls capped))
      in if folds = 0 then (text, 0) else (join_lines (map annotate capped), folds))"

definition linecap_step :: "Linecap \<Rightarrow> 's host \<Rightarrow> (unit, 's) step" where
  "linecap_step lc H i m x rep w =
     (let text = MessageText m
      in if role m \<noteq> RoleTool then (None, m, x, rep, w)
         else if \<not> Rewritable m then (None, m, x, Gate ''non_text_blocks'' rep, w)
         else if text = [] then (None, m, x, rep, w)
         else if int (length text) < lc_minSize lc then (None, m, x, Gate ''below_min_size'' rep, w)
         else case skipReduce H text w of
                (Some gate, w) \<Rightarrow> (None, m, x, Gate gate rep, w)
              | (None, w) \<Rightarrow>
                  (case rewrite lc text of
                     (out, folds) \<Rightarrow>
                       if folds = 0 then (None, m, x, Gate ''no_long_or_repeated_lines'' rep, w)
                       else (case mark_message H (lc_mode lc) full_hint (\<lambda>tok. if tok = [] then out else out @ [newline] @ tok) None m rep w of
                               (r, m, rep, w) \<Rightarrow> (r, m, x, rep, w))))"

definition linecap_Offload :: "Linecap \<Rightarrow> 's host \<Rightarrow> message list \<Rightarrow> Report \<Rightarrow> 's world \<Rightarrow> message list \<times> string list \<times> Report \<times> 's world" where
  "linecap_Offload lc H ms rep w =
     finish_pass (offload_loop (linecap_step lc H) [0..<length ms] ms () [] 0 rep w)"

section \<open>The steps meet the contract\<close>

lemma window_text_marker: "\<exists>pre post. window_text head n u tail (Marker k @ hint) = pre @ Marker k @ post"
  unfolding window_text_def by (metis append.assoc)

lemma window_asm_marker:
  "window cl H text n rep = (Some (asm, b), rep') \<Longrightarrow> (\<exists>pre post. asm (Marker k @ hint) = pre @ Marker k @ post) \<and> rep' = rep"
  by (auto simp: window_def runeWindow_def line_asm_def rune_asm_def Let_def window_text_marker split: if_splits option.splits prod.splits)

lemma window_rep: "window cl H text n rep = (None, rep') \<Longrightarrow> Irreversible rep' = Irreversible rep"
  by (auto simp: window_def Let_def split: if_splits option.splits)

context rewind_store
begin

lemma dedup_step_post:
  assumes "hstore H = I" "hex_digest (henv H)" "ok (st w)" "dedup_step cfg command pairs H i m x rep w = (r, m', x', rep', w')"
  shows "step_post ok holds H m rep w r m' rep' w'"
proof (cases "role m \<noteq> RoleTool \<or> \<not> Rewritable m \<or> MessageText m = [] \<or> TextTokens H (MessageText m) < dd_minTokens cfg")
  case True
  with assms(3,4) show ?thesis by (auto simp: dedup_step_def Let_def split: if_splits intro!: step_post_idle keeps_refl)
next
  case False
  obtain g w1 where s: "skipReduce H (MessageText m) w = (g, w1)" by fastforce
  have k: "keeps ok holds H {} w w1" by (rule skipReduce_keeps [OF assms(1,3) s])
  have mm: "step_post ok holds H m rep w r3 m3 rep3 w3"
    if "mark_message H (dd_mode cfg) [] (\<lambda>tok. dedupNote H command (pairs first) @ tok @ '']'') None m rep w1 = (r3, m3, rep3, w3)"
    for first r3 m3 rep3 w3
  proof (rule step_post_earlier [OF k], rule mark_message_post [OF assms(1,2) keeps_ok [OF k] _ that])
    show "\<exists>pre post. dedupNote H command (pairs first) @ (Marker key @ []) @ '']'' = pre @ Marker key @ post" for key
      by (metis append_Nil2)
  qed (use False in simp)
  show ?thesis
    using assms(4) False s k mm
    by (auto simp: dedup_step_def Let_def split: option.splits prod.splits if_splits intro: step_post_idle)
qed

lemma collapse_step_post:
  assumes "hstore H = I" "hex_digest (henv H)" "ok (st w)" "collapse_step cl n H i m x rep w = (r, m', x', rep', w')"
  shows "step_post ok holds H m rep w r m' rep' w'"
proof (cases "role m \<noteq> RoleTool \<or> \<not> Rewritable m \<or> MessageText m = []")
  case True
  with assms(3,4) show ?thesis by (auto simp: collapse_step_def Let_def split: if_splits intro!: step_post_idle keeps_refl)
next
  case False
  show ?thesis
  proof (rule replay_then [OF assms(1,3)])
    show "Rewritable m" using False by simp
  next
    fix w1 assume w1: "ok (st w1)" "reapplyFrozen H ''collapse'' m rep w = (None, m, rep, w1)"
    obtain g w2 where s: "skipReduce H (MessageText m) w1 = (g, w2)" by fastforce
    have k: "keeps ok holds H {} w1 w2" by (rule skipReduce_keeps [OF assms(1) w1(1) s])
    obtain res rep2 where win: "window cl H (MessageText m) n rep = (res, rep2)" by fastforce
    show "step_post ok holds H m rep w1 r m' rep' w'"
    proof (cases "TextTokens H (MessageText m) \<le> n \<or> g \<noteq> None \<or> res = None")
      case True
      with assms(4) False w1 s k win window_rep [of cl H "MessageText m" n rep rep2] show ?thesis
        by (auto simp: collapse_step_def Let_def split: if_splits option.splits intro!: step_post_idle keeps_refl)
    next
      case go: False
      then obtain asm b where res: "res = Some (asm, b)" by (cases res) auto
      have asm: "\<exists>pre post. asm (Marker key @ full_hint) = pre @ Marker key @ post" for key
        using window_asm_marker [of cl H "MessageText m" n rep asm b rep2 key full_hint] win res by simp
      have r2: "rep2 = rep" using window_asm_marker [of cl H "MessageText m" n rep asm b rep2] win res by simp
      obtain r3 m3 rep3 w3 where mm: "mark_message H (cl_mode cl) full_hint asm (Some ''collapse'') m rep w2 = (r3, m3, rep3, w3)" by (metis prod_cases4)
      have p: "step_post ok holds H m rep w1 r3 m3 rep3 w3"
        using mark_message_post [OF assms(1,2) keeps_ok [OF k] _ mm asm] False step_post_earlier [OF k] by auto
      then have p': "step_post ok holds H m rep w1 r3 m3 (Event ''char_window'' rep3) w3" by (simp add: step_post_def split: option.splits)
      have no: "step_post ok holds H m rep w1 None m (Gate ''cached_prefix'' rep) w2" by (rule step_post_idle [OF k]) simp
      show ?thesis
        using assms(4) False w1 s win go res r2 mm p p' no
        by (cases r3) (auto simp: collapse_step_def Let_def step_post_def split: if_splits)
    qed
  next
    fix fk saved m1 rep1 w1 assume "reapplyFrozen H ''collapse'' m rep w = (Some (fk, saved), m1, rep1, w1)"
    with assms(4) False show "r = Some fk \<and> m' = m1 \<and> rep' = rep1 \<and> w' = w1" by (simp add: collapse_step_def Let_def)
  qed
qed

lemma linecap_step_post:
  assumes "hstore H = I" "hex_digest (henv H)" "ok (st w)" "linecap_step lc H i m x rep w = (r, m', x', rep', w')"
  shows "step_post ok holds H m rep w r m' rep' w'"
proof (cases "role m \<noteq> RoleTool \<or> \<not> Rewritable m \<or> MessageText m = [] \<or> int (length (MessageText m)) < lc_minSize lc")
  case True
  with assms(3,4) show ?thesis by (auto simp: linecap_step_def Let_def split: if_splits intro!: step_post_idle keeps_refl)
next
  case False
  obtain g w1 where s: "skipReduce H (MessageText m) w = (g, w1)" by fastforce
  have k: "keeps ok holds H {} w w1" by (rule skipReduce_keeps [OF assms(1,3) s])
  obtain out folds where o: "rewrite lc (MessageText m) = (out, folds)" by fastforce
  have asm: "\<exists>pre post. (if Marker key @ full_hint = [] then out else out @ [newline] @ Marker key @ full_hint) = pre @ Marker key @ post" for key
    by (rule exI [of _ "out @ [newline]"]) (simp add: Marker_def)
  obtain r3 m3 rep3 w3 where mm: "mark_message H (lc_mode lc) full_hint (\<lambda>tok. if tok = [] then out else out @ [newline] @ tok) None m rep w1 = (r3, m3, rep3, w3)"
    by (metis prod_cases4)
  have "step_post ok holds H m rep w r3 m3 rep3 w3"
    using mark_message_post [OF assms(1,2) keeps_ok [OF k] _ mm asm] False step_post_earlier [OF k] by auto
  then show ?thesis
    using assms(4) False s k mm o
    by (auto simp: linecap_step_def Let_def split: option.splits prod.splits if_splits intro: step_post_idle)
qed

end

sublocale rewind_store \<subseteq> dedup: offloader I ok holds "\<lambda>_. True" "dedup_step cfg command pairs" for cfg command pairs
  by unfold_locales (rule dedup_step_post, assumption+, auto simp: dedup_step_def Let_def split: if_splits)

sublocale rewind_store \<subseteq> collapse: offloader I ok holds "\<lambda>_. True" "collapse_step cl n" for cl n
  by unfold_locales (rule collapse_step_post, assumption+, auto simp: collapse_step_def Let_def split: if_splits)

sublocale rewind_store \<subseteq> linecap: offloader I ok holds "\<lambda>_. True" "linecap_step lc" for lc
  by unfold_locales (rule linecap_step_post, assumption+, auto simp: linecap_step_def Let_def split: if_splits)

section \<open>The passes\<close>

text \<open>A pass over every index of the transcript, for any of the three steps.\<close>

context offloader
begin

lemma whole_pass:
  assumes "hstore H = I" "hex_digest (henv H)" "ok (st w)" "\<forall>m \<in> set ms. applies m"
    and "finish_pass (offload_loop (step H) [0..<length ms] ms x [] 0 rep w) = (ms', keys, rep', w')"
  shows "pass_guarantee H ms w ms' keys rep' w' \<and> ok (st w')"
proof -
  have "\<forall>i \<in> set [0..<length ms]. i < length ms \<and> applies (ms ! i)" using assms(4) by simp
  from pass [OF assms(1-3) distinct_upt this assms(5)] obtain n rep1 where
    p: "pass_post ok holds H [0..<length ms] ms rep w ms' keys n rep1 w'" "rep' = (if n = 0 then rep1\<lparr>Skipped := True\<rparr> else rep1)" by blast
  show ?thesis by (rule guarantee [OF assms(1) p]) simp
qed

end

text \<open>
  C30: \<open>dedup\<close>, \<open>collapse\<close> and \<open>linecap\<close> are reversible and never worse on the in-memory store, with the
  same guarantee as \<open>mask\<close>: only tool outputs change, each to fewer tokens, and every reported key
  reads back the text its message had, or a missing payload was counted.
\<close>

theorem window_passes_reversible:
  assumes "hstore H = memory_store" "hex_digest (henv H)" "mem_ok (st w)"
    and "(ms', keys, rep', w') \<in> {dedup_Offload dd command H ms rep w, collapse_Offload cl H ms rep w, linecap_Offload lc H ms rep w}"
  shows "pass_guarantee H ms w ms' keys rep' w' \<and> mem_ok (st w')"
proof -
  have d: "pass_guarantee H ms w ms' keys rep' w' \<and> mem_ok (st w')" if "dedup_Offload dd command H ms rep w = (ms', keys, rep', w')"
    by (rule mem_rewind.dedup.whole_pass [OF assms(1-3) _ that [unfolded dedup_Offload_def]]) simp
  have c: "pass_guarantee H ms w ms' keys rep' w' \<and> mem_ok (st w')" if "collapse_Offload cl H ms rep w = (ms', keys, rep', w')"
    by (rule mem_rewind.collapse.whole_pass [OF assms(1-3) _ that [unfolded collapse_Offload_def Let_def]]) simp
  have l: "pass_guarantee H ms w ms' keys rep' w' \<and> mem_ok (st w')" if "linecap_Offload lc H ms rep w = (ms', keys, rep', w')"
    by (rule mem_rewind.linecap.whole_pass [OF assms(1-3) _ that [unfolded linecap_Offload_def]]) simp
  from assms(4) d c l show ?thesis by (metis empty_iff insert_iff)
qed

definition dedup0 :: Dedup where "dedup0 = \<lparr>dd_minTokens = 1, dd_mode = markerFull\<rparr>"

theorem window_passes_reversible_witness:
  "\<exists>ms' rep' w'. dedup_Offload dedup0 (\<lambda>_. []) host0 [long_msg, long_msg] (new_report ''dedup'' ModeSync) world0 = (ms', [replicate 16 CHR ''0''], rep', w')
     \<and> pass_guarantee host0 [long_msg, long_msg] world0 ms' [replicate 16 CHR ''0''] rep' w'"
proof -
  obtain ms' keys rep' w' where r: "dedup_Offload dedup0 (\<lambda>_. []) host0 [long_msg, long_msg] (new_report ''dedup'' ModeSync) world0 = (ms', keys, rep', w')"
    by (metis prod_cases4)
  have "fst (snd (dedup_Offload dedup0 (\<lambda>_. []) host0 [long_msg, long_msg] (new_report ''dedup'' ModeSync) world0)) = [replicate 16 CHR ''0'']"
    by code_simp
  with r window_passes_reversible [OF host0_ok, of ms' keys rep' w' dedup0 "\<lambda>_. []" "[long_msg, long_msg]" "new_report ''dedup'' ModeSync"] show ?thesis by auto
qed

section \<open>What a line cap and a window keep\<close>

lemma cut_marker_runes: "runes cut_marker = map (\<lambda>c. [c]) cut_marker" "length cut_marker = 11" "list_all whole_rune (map (\<lambda>c. [c]) cut_marker)"
  by code_simp+

lemma dots_runes: "list_all whole_rune (map (\<lambda>c. [c]) ''...'')"
  by code_simp

lemma runes_length: "int (length (runes s)) = rune_count s"
  by (rule length_runes)

lemma TruncateRunes_bound:
  assumes "3 \<le> n"
  shows "rune_count (TruncateRunes s n) \<le> n"
proof (cases "int (length (runes s)) \<le> n")
  case True
  then show ?thesis by (simp add: TruncateRunes_def Let_def runes_length)
next
  case False
  let ?rs = "take (nat (n - 3)) (runes s) @ map (\<lambda>c. [c]) ''...''"
  have "TruncateRunes s n = concat ?rs" using False assms by (simp add: TruncateRunes_def Let_def of_runes_def)
  moreover have "list_all whole_rune ?rs" using runes_whole [of s] dots_runes by (auto simp: list_all_iff dest: in_set_takeD)
  ultimately have "rune_count (TruncateRunes s n) = int (length ?rs)" using rune_count_concat by metis
  then show ?thesis using assms False by simp
qed

lemma clipMiddle_runes:
  assumes "11 < n" "n < int (length (runes s))"
  defines "head \<equiv> (n - 11) * 2 div 3"
  shows "clipMiddle s n = concat (take (nat head) (runes s) @ map (\<lambda>c. [c]) cut_marker @ drop (length (runes s) - nat (n - 11 - head)) (runes s))"
  using assms cut_marker_runes by (simp add: clipMiddle_def Let_def of_runes_def concat_singletons head_def)

text \<open>
  The line cap honours its budget exactly. A capped line never has more than the configured
  number of runes, a line within it is untouched, and a line cut in the middle has exactly that many
  and keeps its two ends, two thirds of the room before the cut and the rest after it.
\<close>

theorem clipMiddle_budget:
  assumes "0 \<le> n"
  shows "rune_count (clipMiddle s n) \<le> n
    \<and> (rune_count s \<le> n \<longrightarrow> clipMiddle s n = s)
    \<and> (11 < n \<and> n < rune_count s \<longrightarrow> rune_count (clipMiddle s n) = n
         \<and> (\<exists>mid. clipMiddle s n = of_runes (take (nat ((n - 11) * 2 div 3)) (runes s)) @ mid
              @ of_runes (drop (length (runes s) - nat (n - 11 - (n - 11) * 2 div 3)) (runes s))))"
proof -
  let ?r = "runes s"
  have w: "list_all whole_rune ?r" by (rule runes_whole)
  have same: "clipMiddle s n = s" if "rune_count s \<le> n" using that by (simp add: clipMiddle_def Let_def runes_length)
  have small: "rune_count (clipMiddle s n) \<le> n" if "n < rune_count s" "n \<le> 11"
  proof (cases "n < 3")
    case True
    with that have "clipMiddle s n = concat (take (nat n) ?r)" by (simp add: clipMiddle_def Let_def runes_length of_runes_def)
    moreover have "list_all whole_rune (take (nat n) ?r)" using w by (auto simp: list_all_iff dest: in_set_takeD)
    ultimately show ?thesis using rune_count_concat assms by (metis length_take min.cobounded2 nat_0_le of_nat_le_iff)
  next
    case False
    with that have "clipMiddle s n = TruncateRunes s n" using cut_marker_runes(2) by (simp add: clipMiddle_def Let_def runes_length)
    with False TruncateRunes_bound show ?thesis by simp
  qed
  have big: "rune_count (clipMiddle s n) = n \<and> (\<exists>mid. clipMiddle s n = of_runes (take (nat ((n - 11) * 2 div 3)) ?r) @ mid
              @ of_runes (drop (length ?r - nat (n - 11 - (n - 11) * 2 div 3)) ?r))" if n: "11 < n" "n < rune_count s"
  proof -
    define head where "head = (n - 11) * 2 div 3"
    let ?tail = "drop (length ?r - nat (n - 11 - head)) ?r"
    have h: "0 \<le> head" "head \<le> n - 11" using n by (auto simp: head_def)
    have l: "n < int (length ?r)" using n(2) by (simp add: runes_length)
    have eq: "clipMiddle s n = concat (take (nat head) ?r @ map (\<lambda>c. [c]) cut_marker @ ?tail)"
      unfolding head_def by (rule clipMiddle_runes [OF n(1) l])
    have "list_all whole_rune (take (nat head) ?r @ map (\<lambda>c. [c]) cut_marker @ ?tail)"
      using w cut_marker_runes(3) by (auto simp: list_all_iff dest: in_set_takeD in_set_dropD)
    then have "rune_count (clipMiddle s n) = int (length (take (nat head) ?r @ map (\<lambda>c. [c]) cut_marker @ ?tail))"
      unfolding eq by (rule rune_count_concat)
    also have "\<dots> = n" using h l cut_marker_runes(2) by (simp add: min_def of_nat_diff)
    finally show ?thesis using eq by (auto simp: of_runes_def concat_singletons head_def)
  qed
  show ?thesis
    using same small big assms by (cases "rune_count s \<le> n"; cases "n \<le> 11") auto
qed

theorem clipMiddle_budget_witness:
  "rune_count (clipMiddle (replicate 30 CHR ''a'') 20) = 20"
proof -
  have "20 < rune_count (replicate 30 CHR ''a'')" by code_simp
  with clipMiddle_budget [of 20 "replicate 30 CHR ''a''"] show ?thesis by simp
qed

lemma join_append: "xs \<noteq> [] \<Longrightarrow> ys \<noteq> [] \<Longrightarrow> join_with sep (xs @ ys) = join_with sep xs @ sep @ join_with sep ys"
proof (induction xs)
  case (Cons x xs)
  then show ?case by (cases xs; cases ys) auto
qed simp

text \<open>The first and the last lines around at least one omitted line.\<close>

lemma join_window:
  assumes "h + t < length ls" "0 < h + t"
  shows "\<exists>mid. join_lines ls = join_lines (take h ls) @ mid @ join_lines (drop (length ls - t) ls) \<and> mid \<noteq> []"
proof -
  let ?j = "join_with [newline]" and ?m = "take (length ls - t - h) (drop h ls)"
  have split: "ls = take h ls @ ?m @ drop (length ls - t) ls"
    using assms by (metis (no_types, lifting) add.commute append_take_drop_id drop_drop le_add_diff_inverse2 less_diff_conv less_or_eq_imp_le)
  have m: "?m \<noteq> []" and ne: "ls \<noteq> []" using assms by auto
  have two: "?j (?m @ drop (length ls - t) ls) = ?j ?m @ (if t = 0 then [] else newline # ?j (drop (length ls - t) ls))"
    using join_append [OF m, of "drop (length ls - t) ls" "[newline]"] assms by (cases "t = 0") auto
  have "?j (take h ls @ (?m @ drop (length ls - t) ls))
      = (if h = 0 then [] else ?j (take h ls) @ [newline]) @ ?j ?m @ (if t = 0 then [] else newline # ?j (drop (length ls - t) ls))"
  proof (cases "h = 0")
    case True
    with two show ?thesis by simp
  next
    case False
    then have "take h ls \<noteq> []" using ne by simp
    moreover have "?m @ drop (length ls - t) ls \<noteq> []" using m by blast
    ultimately have "?j (take h ls @ (?m @ drop (length ls - t) ls)) = ?j (take h ls) @ [newline] @ ?j (?m @ drop (length ls - t) ls)"
      by (rule join_append)
    with False show ?thesis by (simp only: two if_False append.assoc append_Cons append_Nil)
  qed
  then have j: "?j ls = (if h = 0 then [] else ?j (take h ls) @ [newline]) @ ?j ?m @ (if t = 0 then [] else newline # ?j (drop (length ls - t) ls))"
    by (subst split) (simp only: append.assoc)
  let ?mid = "(if h = 0 then [] else [newline]) @ ?j ?m @ (if t = 0 then [] else [newline])"
  have "?mid \<noteq> []" using assms(2) by auto
  moreover have "join_lines ls = join_lines (take h ls) @ ?mid @ join_lines (drop (length ls - t) ls)"
    unfolding join_lines_def j by simp
  ultimately show ?thesis by blast
qed

lemma splitWindow_range:
  assumes "0 \<le> cl_headLines cl" "0 \<le> cl_tailLines cl" "0 \<le> b" "splitWindow cl b = (h, t)"
  shows "0 \<le> h \<and> 0 \<le> t \<and> h + t = b"
proof -
  obtain hl tl where p: "0 \<le> hl" "0 \<le> tl" "0 < hl + tl" "h = go_div (b * hl) (hl + tl)" "t = b - h"
  proof (cases "cl_headLines cl + cl_tailLines cl = 0")
    case True
    with assms show ?thesis by (intro that [of 1 1]) (auto simp: splitWindow_def Let_def)
  next
    case False
    with assms show ?thesis by (intro that [of "cl_headLines cl" "cl_tailLines cl"]) (auto simp: splitWindow_def Let_def)
  qed
  then have h: "h = b * hl div (hl + tl)" using assms(3) by (simp add: go_div_nonneg)
  have "b * hl \<le> b * (hl + tl)" using assms(3) p by (intro mult_left_mono) auto
  then have "b * hl div (hl + tl) \<le> b * (hl + tl) div (hl + tl)" using p(3) by (intro zdiv_mono1) auto
  then show ?thesis using h p assms(3) by (simp add: pos_imp_zdiv_nonneg_iff)
qed

lemma fit_window_range:
  assumes "0 \<le> cl_headLines cl" "0 \<le> cl_tailLines cl" "fit_window cl n H r mt b = Some (h, t)"
  shows "0 \<le> h \<and> 0 \<le> t \<and> h + t < int (length r) \<and> collapseMinWindowChars \<le> h + t"
  using assms(3)
proof (induction n arbitrary: b)
  case 0
  define b' where "b' = (if b < collapseMinWindowChars then collapseMinWindowChars else b)"
  obtain h1 t1 where s: "splitWindow cl b' = (h1, t1)" by fastforce
  with 0 splitWindow_range [OF assms(1,2) _ s] show ?case
    by (subst (asm) fit_window.simps) (auto simp: Let_def b'_def collapseMinWindowChars_def split: if_splits)
next
  case (Suc n)
  define b' where "b' = (if b < collapseMinWindowChars then collapseMinWindowChars else b)"
  obtain h1 t1 where s: "splitWindow cl b' = (h1, t1)" by fastforce
  with Suc splitWindow_range [OF assms(1,2) _ s] show ?case
    by (subst (asm) fit_window.simps) (auto simp: Let_def b'_def collapseMinWindowChars_def split: if_splits)
qed

text \<open>
  What \<open>collapse\<close> shows is verbatim and what it hides is counted. Whichever window is chosen, the
  text it shows is a prefix and a suffix of the output around a non-empty omitted part, with the
  marker between them and a positive count of the lines or characters that were left out.
\<close>

theorem collapse_window_verbatim:
  assumes "valid_string text" "0 \<le> cl_headLines cl" "0 \<le> cl_tailLines cl" "window cl H text mt rep = (Some (asm, byChars), rep')"
  shows "\<exists>pre hidden suf n. text = pre @ hidden @ suf \<and> hidden \<noteq> [] \<and> 0 < n
    \<and> (\<forall>tok. asm tok = window_text pre n (if byChars then ''characters'' else ''lines'') suf tok)"
proof (cases byChars)
  case True
  then obtain h t where f: "fit_window cl collapseFitPasses H (runes text) mt (min (mt * collapseCharsPerToken) (int (length (runes text)) - 1)) = Some (h, t)"
    and a: "asm = rune_asm (runes text) h t"
    using assms(4) by (auto simp: window_def runeWindow_def Let_def split: if_splits option.splits prod.splits)
  let ?r = "runes text"
  have g: "0 \<le> h" "0 \<le> t" "h + t < int (length ?r)" using fit_window_range [OF assms(2,3) f] by auto
  let ?m = "take (length ?r - nat t - nat h) (drop (nat h) ?r)"
  have "?r = take (nat h) ?r @ ?m @ drop (length ?r - nat t) ?r"
    using g by (metis (no_types, lifting) Nat.diff_cancel add.commute append_take_drop_id drop_drop le_add_diff_inverse2 less_imp_le_nat nat_add_distrib nat_less_iff add_nonneg_nonneg less_diff_conv)
  then have "text = of_runes (take (nat h) ?r) @ of_runes ?m @ of_runes (drop (length ?r - nat t) ?r)"
    using of_runes_runes [OF assms(1)] by (metis concat_append of_runes_def)
  moreover have "of_runes ?m \<noteq> []"
  proof -
    have "?m \<noteq> []" using g by (simp add: nat_less_iff) (linarith)
    then obtain x where "x \<in> set ?m" by (metis last_in_set)
    then have "x \<in> set ?r" by (auto dest: in_set_takeD in_set_dropD)
    then have "x \<noteq> []" using runes_whole [of "text"] rune_len_bound by (fastforce simp: list_all_iff whole_rune_def)
    with \<open>x \<in> set ?m\<close> show ?thesis by (auto simp: of_runes_def)
  qed
  moreover have "0 < int (length ?r) - h - t" using g by simp
  moreover have "asm tok = window_text (of_runes (take (nat h) ?r)) (int (length ?r) - h - t) (if byChars then ''characters'' else ''lines'')
      (of_runes (drop (length ?r - nat t) ?r)) tok" for tok using True a by (simp add: rune_asm_def)
  ultimately show ?thesis by blast
next
  case False
  let ?ls = "split_lines text"
  have c: "cl_headLines cl + cl_tailLines cl > 0" "int (length ?ls) > cl_headLines cl + cl_tailLines cl" and a: "asm = line_asm cl ?ls"
    using assms(4) False by (auto simp: window_def Let_def split: if_splits option.splits)
  have "nat (cl_headLines cl) + nat (cl_tailLines cl) < length ?ls" "0 < nat (cl_headLines cl) + nat (cl_tailLines cl)"
    using c assms(2,3) by linarith+
  from join_window [OF this]
  obtain mid where "join_lines ?ls = join_lines (take (nat (cl_headLines cl)) ?ls) @ mid @ join_lines (drop (length ?ls - nat (cl_tailLines cl)) ?ls)" "mid \<noteq> []"
    by blast
  then have "text = join_lines (take (nat (cl_headLines cl)) ?ls) @ mid @ join_lines (drop (length ?ls - nat (cl_tailLines cl)) ?ls)" "mid \<noteq> []"
    by simp_all
  moreover have "0 < int (length ?ls) - cl_headLines cl - cl_tailLines cl" using c by simp
  moreover have "asm tok = window_text (join_lines (take (nat (cl_headLines cl)) ?ls)) (int (length ?ls) - cl_headLines cl - cl_tailLines cl)
      (if byChars then ''characters'' else ''lines'') (join_lines (drop (length ?ls - nat (cl_tailLines cl)) ?ls)) tok" for tok
    using False a by (simp add: line_asm_def)
  ultimately show ?thesis by blast
qed

definition collapse0 :: Collapse where
  "collapse0 = \<lparr>cl_maxTokens = 10, cl_maxFrac = 0, cl_headLines = 1, cl_tailLines = 1, cl_mode = markerFull, cl_coldCache = True\<rparr>"

theorem collapse_window_verbatim_witness:
  "\<exists>asm rep' pre hidden suf n. window collapse0 host0 (replicate 300 CHR ''a'') 10 (new_report ''c'' ModeSync) = (Some (asm, True), rep')
     \<and> replicate 300 CHR ''a'' = pre @ hidden @ suf \<and> hidden \<noteq> [] \<and> (0 :: int) < n
     \<and> asm ''T'' = window_text pre n ''characters'' suf ''T''"
proof -
  let ?t = "replicate 300 CHR ''a''" and ?rep = "new_report ''c'' ModeSync"
  have "valid_string ?t" by code_simp
  have "case fst (window collapse0 host0 ?t 10 ?rep) of Some (asm, b) \<Rightarrow> b | None \<Rightarrow> False" by code_simp
  then obtain asm rep' where w: "window collapse0 host0 ?t 10 ?rep = (Some (asm, True), rep')"
    by (cases "window collapse0 host0 ?t 10 ?rep") (auto split: option.splits)
  have "0 \<le> cl_headLines collapse0" "0 \<le> cl_tailLines collapse0" by (simp_all add: collapse0_def)
  from collapse_window_verbatim [OF \<open>valid_string ?t\<close> this w] w show ?thesis by fastforce
qed

end
