(* ===== verification/Summarize_Span.thy ===== *)
theory Summarize_Span
  imports Chat_Schema
begin

text \<open>
  \<open>src/components/offload/summarize_pairing.go\<close> and the splice the two summarizers share: which span
  of the transcript a summary may replace, and the repair of tool results whose call went with the
  span. The main lemma is about the composition with the shape validator of \<open>src/schema\<close>: a splice
  of a well-shaped transcript at these boundaries is well shaped. Wire groups are \<open>None\<close> for a nil
  slice; an index that the code can compute below zero is an \<open>int\<close>.
\<close>

section \<open>Boundaries\<close>

definition wireGroupsStale :: "int list option \<Rightarrow> message list \<Rightarrow> bool" where
  "wireGroupsStale wireGroup msgs =
     (case wireGroup of None \<Rightarrow> False | Some gs \<Rightarrow> length gs \<noteq> length msgs)"

definition requestedToolCalls :: "message \<Rightarrow> bool" where
  "requestedToolCalls m \<longleftrightarrow> role m = RoleAssistant \<and> (case asstMsg m of None \<Rightarrow> False | Some tcs \<Rightarrow> tcs \<noteq> [])"

text \<open>The guard that opens three of the functions: groups of another length count as nil.\<close>

definition aligned_groups :: "int list option \<Rightarrow> message list \<Rightarrow> int list option" where
  "aligned_groups groups msgs =
     (case groups of None \<Rightarrow> None | Some gs \<Rightarrow> if length gs \<noteq> length msgs then None else Some gs)"

definition sameGroup :: "int list option \<Rightarrow> int \<Rightarrow> int \<Rightarrow> bool" where
  "sameGroup groups a b =
     (case groups of
        None \<Rightarrow> False
      | Some gs \<Rightarrow> 0 \<le> a \<and> b < int (length gs) \<and> gs ! nat a = gs ! nat b)"

definition groupHasToolRole :: "message list \<Rightarrow> int list option \<Rightarrow> nat \<Rightarrow> bool" where
  "groupHasToolRole msgs groups i =
     (case groups of
        None \<Rightarrow> False
      | Some gs \<Rightarrow>
          i < length msgs
          \<and> list_ex (\<lambda>(m, _). role m = RoleTool)
              (takeWhile (\<lambda>(_, g). g = gs ! i) (zip (drop i msgs) (drop i gs))))"

definition unsafe_start :: "message list \<Rightarrow> int list option \<Rightarrow> nat \<Rightarrow> bool" where
  "unsafe_start msgs groups at \<longleftrightarrow>
     role (msgs ! at) = RoleTool \<or> sameGroup groups (int at - 1) (int at) \<or> groupHasToolRole msgs groups at"

function advance_loop :: "message list \<Rightarrow> int list option \<Rightarrow> nat \<Rightarrow> nat" where
  "advance_loop msgs groups at =
     (if at < length msgs \<and> unsafe_start msgs groups at then advance_loop msgs groups (at + 1) else at)"
  by pat_completeness auto
termination by (relation "measure (\<lambda>(msgs, _, at). length msgs - at)") auto

declare advance_loop.simps [simp del]

definition advanceSpanBoundary :: "message list \<Rightarrow> int list option \<Rightarrow> nat \<Rightarrow> nat" where
  "advanceSpanBoundary msgs groups at = advance_loop msgs (aligned_groups groups msgs) at"

fun retreat_head :: "message list \<Rightarrow> int list option \<Rightarrow> nat \<Rightarrow> nat" where
  "retreat_head msgs groups 0 = 0"
| "retreat_head msgs groups (Suc h) =
     (if requestedToolCalls (msgs ! h) \<or> sameGroup groups (int h) (int h + 1)
      then retreat_head msgs groups h else Suc h)"

definition summarizeSpan :: "message list \<Rightarrow> int \<Rightarrow> int \<Rightarrow> int list option \<Rightarrow> nat \<times> nat \<times> nat" where
  "summarizeSpan msgs keepFirst keepLast groups =
     (let groups = aligned_groups groups msgs;
          n = int (length msgs);
          headCount = retreat_head msgs groups (nat (min (max keepFirst 0) n));
          start = headCount;
          end0 = min (n - keepLast) n;
          end1 = nat (max end0 (int start))
      in (headCount, start, advanceSpanBoundary msgs groups end1))"

text \<open>The three backward walks of \<open>retreatPastLastToolExchange\<close>.\<close>

fun last_tool :: "message list \<Rightarrow> nat \<Rightarrow> nat \<Rightarrow> nat option" where
  "last_tool msgs start 0 = None"
| "last_tool msgs start (Suc i) =
     (if i < start then None
      else if role (msgs ! i) = RoleTool then Some i
      else last_tool msgs start i)"

definition grouped :: "int list option \<Rightarrow> nat \<Rightarrow> nat \<Rightarrow> bool" where
  "grouped groups a b = (case groups of None \<Rightarrow> False | Some gs \<Rightarrow> gs ! a = gs ! b)"

fun first_of_run :: "message list \<Rightarrow> int list option \<Rightarrow> nat \<Rightarrow> nat \<Rightarrow> nat" where
  "first_of_run msgs groups start 0 = 0"
| "first_of_run msgs groups start (Suc i) =
     (if start \<le> i \<and> (role (msgs ! i) = RoleTool \<or> grouped groups i (Suc i))
      then first_of_run msgs groups start i else Suc i)"

fun call_of_run :: "int list option \<Rightarrow> nat \<Rightarrow> nat \<Rightarrow> nat" where
  "call_of_run groups start 0 = 0"
| "call_of_run groups start (Suc i) =
     (if start < Suc i \<and> grouped groups i (Suc i) then call_of_run groups start i else Suc i)"

definition retreatPastLastToolExchange :: "message list \<Rightarrow> int list option \<Rightarrow> nat \<Rightarrow> nat \<Rightarrow> nat" where
  "retreatPastLastToolExchange msgs groups start end =
     (let groups = aligned_groups groups msgs in
      case last_tool msgs start (length msgs) of
        None \<Rightarrow> end
      | Some lastTool \<Rightarrow>
          let first = first_of_run msgs groups start lastTool in
          if int first - 1 \<le> int start \<or> role (msgs ! (first - 1)) \<noteq> RoleAssistant then end
          else
            let call = call_of_run groups start (first - 1) in
            if call \<le> start \<or> end \<le> call then end else call)"

definition lastKeptToolResultID :: "message list \<Rightarrow> nat \<Rightarrow> string" where
  "lastKeptToolResultID msgs from =
     (case List.map_filter (\<lambda>m. if role m = RoleTool then tool_id m else None) (rev (drop from msgs)) of
        [] \<Rightarrow> [] | i # _ \<Rightarrow> i)"

fun trim_retreat :: "message list \<Rightarrow> nat \<Rightarrow> nat \<Rightarrow> nat" where
  "trim_retreat msgs start 0 = 0"
| "trim_retreat msgs start (Suc e) =
     (if Suc e \<le> start then Suc e
      else if Suc e < length msgs \<and> role (msgs ! Suc e) = RoleTool then trim_retreat msgs start e
      else if requestedToolCalls (msgs ! e) then trim_retreat msgs start e
      else Suc e)"

definition trimSpanForKeptVerbatim :: "message list \<Rightarrow> nat \<Rightarrow> nat \<Rightarrow> (string \<Rightarrow> bool) \<Rightarrow> nat" where
  "trimSpanForKeptVerbatim msgs start end kept =
     (case filter (\<lambda>i. kept (MessageText (msgs ! i))) [start..<end] of
        [] \<Rightarrow> end
      | first # _ \<Rightarrow> trim_retreat msgs start first)"

section \<open>Repair and splice\<close>

text \<open>The ids a message's calls put into \<open>seen\<close>: every id that is not nil.\<close>

definition seen_ids :: "message \<Rightarrow> string list" where
  "seen_ids m = (case asstMsg m of None \<Rightarrow> [] | Some tcs \<Rightarrow> List.map_filter call_id tcs)"

fun drop_orphans :: "string list \<Rightarrow> message list \<Rightarrow> message list \<times> int" where
  "drop_orphans seen [] = ([], 0)"
| "drop_orphans seen (m # ms) =
     (let seen = seen_ids m @ seen in
      case drop_orphans seen ms of
        (out, dropped) \<Rightarrow>
          if role m = RoleTool \<and> (case tool_id m of Some t \<Rightarrow> t \<notin> set seen | None \<Rightarrow> False)
          then (out, dropped + 1) else (m # out, dropped))"

definition dropOrphanedToolResults :: "message list \<Rightarrow> message list \<times> int" where
  "dropOrphanedToolResults msgs = drop_orphans [] msgs"

definition user_text :: "string \<Rightarrow> message" where
  "user_text t = SetMessageText (empty_message\<lparr>role := RoleUser\<rparr>) t"

definition splice :: "message list \<Rightarrow> nat \<Rightarrow> nat \<Rightarrow> string \<Rightarrow> message list" where
  "splice msgs headCount boundary summaryText =
     (let out = take headCount msgs @ [user_text summaryText] @ drop boundary msgs in
      case dropOrphanedToolResults out of (repaired, n) \<Rightarrow> if 0 < n then repaired else out)"

section \<open>The boundaries found\<close>

lemma advance_loop_bounds:
  "at \<le> length msgs \<Longrightarrow> at \<le> advance_loop msgs gs at \<and> advance_loop msgs gs at \<le> length msgs"
proof (induction msgs gs at rule: advance_loop.induct)
  case (1 msgs gs at)
  then show ?case by (subst (1 2) advance_loop.simps) auto
qed

lemma advance_loop_stops:
  "at \<le> length msgs \<Longrightarrow> advance_loop msgs gs at = length msgs \<or> \<not> unsafe_start msgs gs (advance_loop msgs gs at)"
proof (induction msgs gs at rule: advance_loop.induct)
  case (1 msgs gs at)
  then show ?case by (subst (1 2) advance_loop.simps) auto
qed

lemma advance_loop_least:
  "at \<le> k \<Longrightarrow> k < advance_loop msgs gs at \<Longrightarrow> unsafe_start msgs gs k"
proof (induction msgs gs at rule: advance_loop.induct)
  case (1 msgs gs at)
  have "k < (if at < length msgs \<and> unsafe_start msgs gs at then advance_loop msgs gs (at + 1) else at)"
    using 1(3) by (simp add: advance_loop.simps [of msgs gs at])
  then show ?case using 1(1,2) by (cases "at = k") (auto split: if_splits)
qed

lemma retreat_head_le: "retreat_head msgs gs h \<le> h"
  by (induction h) auto

lemma retreat_head_stops:
  "retreat_head msgs gs h = 0
   \<or> \<not> requestedToolCalls (msgs ! (retreat_head msgs gs h - 1))
     \<and> \<not> sameGroup gs (int (retreat_head msgs gs h) - 1) (int (retreat_head msgs gs h))"
  by (induction h) (auto simp: algebra_simps)

lemma aligned_idem [simp]: "aligned_groups (aligned_groups gs msgs) msgs = aligned_groups gs msgs"
  by (auto simp: aligned_groups_def split: option.splits)

lemma summarizeSpan_bounds:
  assumes "summarizeSpan msgs kf kl gs = (h, s, e)"
  shows "h = s" "s \<le> e" "e \<le> length msgs" "int h \<le> max kf 0"
    "h = 0 \<or> \<not> requestedToolCalls (msgs ! (h - 1)) \<and> \<not> sameGroup (aligned_groups gs msgs) (int h - 1) (int h)"
    "e = length msgs \<or> \<not> unsafe_start msgs (aligned_groups gs msgs) e"
    "\<And>k. nat (int (length msgs) - kl) \<le> k \<Longrightarrow> s \<le> k \<Longrightarrow> k < e \<Longrightarrow> unsafe_start msgs (aligned_groups gs msgs) k"
proof -
  let ?g = "aligned_groups gs msgs" and ?n = "int (length msgs)"
  define k0 where "k0 = nat (min (max kf 0) ?n)"
  define a where "a = nat (max (min (?n - kl) ?n) (int h))"
  have eq: "h = retreat_head msgs ?g k0" "s = h" "e = advance_loop msgs ?g a"
    using assms by (auto simp: summarizeSpan_def advanceSpanBoundary_def Let_def k0_def a_def)
  have hk: "h \<le> k0" unfolding eq(1) by (rule retreat_head_le)
  have k: "k0 \<le> length msgs" "int k0 \<le> max kf 0" by (auto simp: k0_def)
  with hk have a: "a \<le> length msgs" "h \<le> a" by (auto simp: a_def)
  have b: "a \<le> e" "e \<le> length msgs" using advance_loop_bounds [OF a(1), of ?g] by (simp_all add: eq(3))
  show "h = s" using eq(2) ..
  show "s \<le> e" "e \<le> length msgs" using b a(2) eq(2) by simp_all
  show "int h \<le> max kf 0" using hk k(2) by linarith
  show "h = 0 \<or> \<not> requestedToolCalls (msgs ! (h - 1)) \<and> \<not> sameGroup ?g (int h - 1) (int h)"
    unfolding eq(1) by (rule retreat_head_stops)
  show "e = length msgs \<or> \<not> unsafe_start msgs ?g e" using advance_loop_stops [OF a(1)] by (simp add: eq(3))
  show "unsafe_start msgs ?g k" if k: "nat (?n - kl) \<le> k" "s \<le> k" "k < e" for k
  proof (rule advance_loop_least)
    show "a \<le> k" using k(1,2) eq(2) unfolding a_def by linarith
    show "k < advance_loop msgs ?g a" using k(3) eq(3) by simp
  qed
qed

section \<open>The shape rules, read forwards\<close>

fun sys_ok :: "message list \<Rightarrow> bool" where
  "sys_ok [] = True"
| "sys_ok (m # ms) \<longleftrightarrow> (role m = RoleSystem \<longrightarrow> ms = [] \<or> role (hd ms) = RoleAssistant) \<and> sys_ok ms"

fun paired :: "string set \<Rightarrow> message list \<Rightarrow> bool" where
  "paired seen [] = True"
| "paired seen (m # ms) \<longleftrightarrow>
     (role m = RoleTool \<longrightarrow> (\<forall>c. tool_id m = Some c \<and> c \<noteq> [] \<longrightarrow> c \<in> seen))
     \<and> paired (seen \<union> set (call_ids m)) ms"

fun answered :: "message list \<Rightarrow> bool" where
  "answered [] = True"
| "answered (m # ms) \<longleftrightarrow>
     (\<forall>c \<in> set (call_ids m). \<exists>r \<in> set (takeWhile (\<lambda>m. role m = RoleTool) ms). tool_id r = Some c)
     \<and> answered ms"

lemma sys_ok_nth:
  "sys_ok ms \<longleftrightarrow> (\<forall>i. i + 1 < length ms \<and> role (ms ! i) = RoleSystem \<longrightarrow> role (ms ! (i + 1)) = RoleAssistant)"
proof (induction ms)
  case (Cons m ms)
  have "(\<forall>i. Q i) \<longleftrightarrow> Q 0 \<and> (\<forall>i. Q (Suc i))" for Q :: "nat \<Rightarrow> bool" by (metis not0_implies_Suc)
  from this [of "\<lambda>i. i + 1 < length (m # ms) \<and> role ((m # ms) ! i) = RoleSystem \<longrightarrow> role ((m # ms) ! (i + 1)) = RoleAssistant"]
  show ?case unfolding sys_ok.simps Cons.IH by (cases ms) auto
qed simp

lemma paired_nth:
  "paired S ms \<longleftrightarrow>
     (\<forall>i < length ms. \<forall>c. role (ms ! i) = RoleTool \<and> tool_id (ms ! i) = Some c \<and> c \<noteq> []
        \<longrightarrow> c \<in> S \<or> (\<exists>k < i. c \<in> set (call_ids (ms ! k))))"
proof (induction ms arbitrary: S)
  case (Cons m ms)
  show ?case
    unfolding paired.simps Cons.IH length_Cons All_less_Suc2 Ex_less_Suc2 by auto
qed simp

lemma answered_nth: "answered ms \<longleftrightarrow> (\<forall>i < length ms. \<forall>c \<in> set (call_ids (ms ! i)). c \<in> set (answeredInRun ms (i + 1) None))"
  by (induction ms) (auto simp: less_Suc_eq_0_disj answeredInRun_def map_filter_set)

lemma well_shaped_rec:
  "well_shaped an ms \<longleftrightarrow>
     (an \<longrightarrow> sys_ok (tl ms) \<and> (\<forall>m \<in> set ms. \<not> contentPresentButBlank m)) \<and> paired {} ms \<and> answered ms"
proof -
  have sys: "(\<forall>i. 0 < i \<and> i + 1 < length ms \<and> role (ms ! i) = RoleSystem \<longrightarrow> role (ms ! (i + 1)) = RoleAssistant) \<longleftrightarrow> sys_ok (tl ms)"
  proof -
    have "(\<forall>i. 0 < i \<longrightarrow> Q i) \<longleftrightarrow> (\<forall>i. Q (Suc i))" for Q :: "nat \<Rightarrow> bool" by (metis Suc_pred zero_less_Suc)
    from this [of "\<lambda>i. i + 1 < length ms \<and> role (ms ! i) = RoleSystem \<longrightarrow> role (ms ! (i + 1)) = RoleAssistant"]
    show ?thesis unfolding sys_ok_nth by (cases ms) (auto simp: imp_conjL)
  qed
  show ?thesis
    unfolding well_shaped_def sys paired_nth answered_nth answeredInRun_iff tool_id_iff by blast
qed

section \<open>The repair\<close>

text \<open>Calls sit on assistant messages only, as every message the code builds has them.\<close>

definition calls_on_assistants :: "message list \<Rightarrow> bool" where
  "calls_on_assistants ms \<longleftrightarrow> list_all (\<lambda>m. asstMsg m \<noteq> None \<longrightarrow> role m = RoleAssistant) ms"

lemma roles_distinct [simp]:
  "RoleTool \<noteq> RoleAssistant" "RoleAssistant \<noteq> RoleTool" "RoleUser \<noteq> RoleTool" "RoleTool \<noteq> RoleUser"
  "RoleSystem \<noteq> RoleTool" "RoleTool \<noteq> RoleSystem" "RoleUser \<noteq> RoleSystem" "RoleSystem \<noteq> RoleUser"
  "RoleSystem \<noteq> RoleAssistant" "RoleAssistant \<noteq> RoleSystem"
  by (simp_all add: RoleTool_def RoleAssistant_def RoleUser_def RoleSystem_def)

lemma call_ids_seen: "c \<in> set (call_ids m) \<longleftrightarrow> c \<in> set (seen_ids m) \<and> c \<noteq> []"
proof (cases "asstMsg m")
  case (Some tcs)
  have "(case call_id x of Some i \<Rightarrow> if i = [] then None else Some i | None \<Rightarrow> None) = Some c
      \<longleftrightarrow> call_id x = Some c \<and> c \<noteq> []" for x
    by (auto split: option.splits)
  with Some show ?thesis by (auto simp: call_ids_def seen_ids_def map_filter_set)
qed (simp add: call_ids_def seen_ids_def)

lemma tool_no_calls:
  "calls_on_assistants (m # ms) \<Longrightarrow> role m = RoleTool \<Longrightarrow> seen_ids m = [] \<and> call_ids m = []"
  by (auto simp: calls_on_assistants_def seen_ids_def call_ids_def split: option.splits)

lemma calls_on_assistants_Cons: "calls_on_assistants (m # ms) \<Longrightarrow> calls_on_assistants ms"
  by (simp add: calls_on_assistants_def)

abbreviation kept_of :: "string list \<Rightarrow> message list \<Rightarrow> message list" where
  "kept_of seen ms \<equiv> fst (drop_orphans seen ms)"

definition orphan :: "string list \<Rightarrow> message \<Rightarrow> bool" where
  "orphan seen m \<longleftrightarrow> role m = RoleTool \<and> (\<exists>t. tool_id m = Some t \<and> t \<notin> set seen \<and> t \<notin> set (seen_ids m))"

lemma kept_of_Cons [simp]:
  "kept_of seen (m # ms) =
     (if orphan seen m then kept_of (seen_ids m @ seen) ms else m # kept_of (seen_ids m @ seen) ms)"
  by (auto simp: Let_def orphan_def split: prod.split option.split)

lemma kept_of_Nil [simp]: "kept_of seen [] = []" by simp

lemma dropped_Cons:
  "snd (drop_orphans seen (m # ms)) = (if orphan seen m then 1 else 0) + snd (drop_orphans (seen_ids m @ seen) ms)"
  by (auto simp: Let_def orphan_def split: prod.split option.split)

lemma dropped_Nil: "snd (drop_orphans seen []) = 0" by simp

declare drop_orphans.simps [simp del]

lemma drop_orphans_count: "snd (drop_orphans seen ms) = int (length ms) - int (length (kept_of seen ms))"
  by (induction ms arbitrary: seen) (simp_all add: dropped_Cons dropped_Nil)

lemma kept_of_set: "set (kept_of seen ms) \<subseteq> set ms"
  by (induction ms arbitrary: seen) auto

lemma kept_of_length: "length (kept_of seen ms) \<le> length ms"
  by (induction ms arbitrary: seen) (simp_all add: le_SucI)

lemma kept_of_all: "length (kept_of seen ms) = length ms \<Longrightarrow> kept_of seen ms = ms"
proof (induction ms arbitrary: seen)
  case (Cons m ms)
  then show ?case using kept_of_length [of "seen_ids m @ seen" ms] by (simp split: if_splits)
qed simp

lemma splice_eq: "splice msgs h b t = kept_of [] (take h msgs @ [user_text t] @ drop b msgs)"
  using drop_orphans_count [of "[]" "take h msgs @ [user_text t] @ drop b msgs"]
    kept_of_all [of "[]" "take h msgs @ [user_text t] @ drop b msgs"]
    kept_of_length [of "[]" "take h msgs @ [user_text t] @ drop b msgs"]
  unfolding splice_def dropOrphanedToolResults_def Let_def
  by (cases "drop_orphans [] (take h msgs @ [user_text t] @ drop b msgs)") (force simp del: append.simps length_append)

lemma kept_of_sys:
  "sys_ok ms \<Longrightarrow> sys_ok (kept_of seen ms)"
proof (induction ms arbitrary: seen)
  case (Cons m ms)
  have "role m = RoleSystem \<Longrightarrow> kept_of s ms = [] \<or> role (hd (kept_of s ms)) = RoleAssistant" for s
    using Cons.prems by (cases ms) (auto simp: orphan_def)
  then show ?case using Cons by (simp add: Cons.IH)
qed simp

lemma kept_of_paired:
  "calls_on_assistants ms \<Longrightarrow> set seen - {[]} \<subseteq> S \<Longrightarrow> paired S (kept_of seen ms)"
proof (induction ms arbitrary: seen S)
  case (Cons m ms)
  have coa: "calls_on_assistants ms" using Cons.prems(1) by (rule calls_on_assistants_Cons)
  have sub: "set (seen_ids m @ seen) - {[]} \<subseteq> S \<union> set (call_ids m)"
    using Cons.prems(2) by (auto simp: call_ids_seen)
  show ?case
  proof (cases "orphan seen m")
    case True
    with tool_no_calls [OF Cons.prems(1)] have "seen_ids m = []" by (simp add: orphan_def)
    with True Cons.IH [OF coa Cons.prems(2)] show ?thesis by simp
  next
    case False
    then have "c \<in> S" if "role m = RoleTool" "tool_id m = Some c" "c \<noteq> []" for c
      using that tool_no_calls [OF Cons.prems(1)] Cons.prems(2) by (auto simp: orphan_def)
    with False Cons.IH [OF coa sub] show ?thesis by simp
  qed
qed simp

lemma kept_of_run:
  "r \<in> set (takeWhile (\<lambda>m. role m = RoleTool) ms) \<Longrightarrow> tool_id r = Some c \<Longrightarrow> c \<in> set seen
   \<Longrightarrow> r \<in> set (takeWhile (\<lambda>m. role m = RoleTool) (kept_of seen ms))"
  by (induction ms arbitrary: seen) (auto simp: orphan_def split: if_splits)

lemma kept_of_answered: "answered ms \<Longrightarrow> answered (kept_of seen ms)"
proof (induction ms arbitrary: seen)
  case (Cons m ms)
  have "\<exists>r \<in> set (takeWhile (\<lambda>m. role m = RoleTool) (kept_of (seen_ids m @ seen) ms)). tool_id r = Some c"
    if "c \<in> set (call_ids m)" for c
    using Cons.prems that kept_of_run [of _ ms c "seen_ids m @ seen"] by (fastforce simp: call_ids_seen)
  with Cons show ?case by simp
qed simp

section \<open>A splice of a well-shaped transcript\<close>

lemma sys_ok_drop: "sys_ok ms \<Longrightarrow> sys_ok (drop k ms)"
  by (induction ms arbitrary: k) (auto simp: drop_Cons split: nat.split)

lemma answered_drop: "answered ms \<Longrightarrow> answered (drop k ms)"
  by (induction ms arbitrary: k) (auto simp: drop_Cons split: nat.split)

lemma user_text_frame [simp]:
  "role (user_text t) = RoleUser" "seen_ids (user_text t) = []" "call_ids (user_text t) = []"
  "asstMsg (user_text t) = None" "MessageText (user_text t) = t"
  by (simp_all add: user_text_def seen_ids_def call_ids_def empty_message_def)

lemma user_text_not_blank: "trim_space t \<noteq> [] \<Longrightarrow> \<not> contentPresentButBlank (user_text t)"
  by (simp add: contentPresentButBlank_def)

lemma no_requested_calls:
  "asstMsg m \<noteq> None \<longrightarrow> role m = RoleAssistant \<Longrightarrow> \<not> requestedToolCalls m \<Longrightarrow> call_ids m = []"
  by (auto simp: requestedToolCalls_def call_ids_def split: option.splits)

text \<open>
  A kept head that is cut off cleanly: at most one message, or the message after it is no tool result
  and its last message is no system message.
\<close>

definition clean_head :: "message list \<Rightarrow> nat \<Rightarrow> bool" where
  "clean_head msgs h \<longleftrightarrow> h \<le> 1 \<or> role (msgs ! h) \<noteq> RoleTool \<and> role (msgs ! (h - 1)) \<noteq> RoleSystem"

lemma takeWhile_take: "k < length ms \<Longrightarrow> \<not> P (ms ! k) \<Longrightarrow> takeWhile P (take k ms) = takeWhile P ms"
  by (induction ms arbitrary: k) (auto simp: nth_Cons split: nat.splits)

lemma takeWhile_append_mem: "x \<in> set (takeWhile P xs) \<Longrightarrow> x \<in> set (takeWhile P (xs @ ys))"
  by (induction xs) (auto split: if_splits)

lemma answered_take: "answered ms \<Longrightarrow> k < length ms \<Longrightarrow> role (ms ! k) \<noteq> RoleTool \<Longrightarrow> answered (take k ms)"
proof (induction ms arbitrary: k)
  case (Cons m ms)
  then show ?case by (cases k) (auto simp: takeWhile_take)
qed simp

lemma answered_append: "answered xs \<Longrightarrow> answered ys \<Longrightarrow> answered (xs @ ys)"
  by (induction xs) (simp_all, meson takeWhile_append_mem)

lemma answered_head:
  assumes "answered msgs" "calls_on_assistants msgs" "clean_head msgs h" "h < length msgs"
    and "h = 0 \<or> \<not> requestedToolCalls (msgs ! (h - 1))"
  shows "answered (take h msgs)"
proof (cases "h \<le> 1")
  case True
  have "call_ids (msgs ! 0) = []" if "h = 1"
  proof (rule no_requested_calls)
    have "msgs ! 0 \<in> set msgs" using assms(4) by (intro nth_mem) linarith
    with assms(2) show "asstMsg (msgs ! 0) \<noteq> None \<longrightarrow> role (msgs ! 0) = RoleAssistant" by (simp add: calls_on_assistants_def list_all_iff)
  qed (use that assms(5) in simp)
  with True assms(4) show ?thesis by (cases h; cases msgs) auto
next
  case False
  with assms show ?thesis by (intro answered_take) (auto simp: clean_head_def)
qed

lemma sys_ok_append: "sys_ok xs \<Longrightarrow> sys_ok (y # ys) \<Longrightarrow> xs = [] \<or> role (last xs) \<noteq> RoleSystem \<Longrightarrow> sys_ok (xs @ y # ys)"
proof (induction xs)
  case (Cons x xs)
  then show ?case by (cases xs) simp_all
qed simp

lemma sys_ok_take: "sys_ok ms \<Longrightarrow> sys_ok (take k ms)"
  unfolding sys_ok_nth by (intro allI impI) (simp, metis Suc_lessD nth_take)

lemma sys_ok_tl: "sys_ok xs \<Longrightarrow> sys_ok (tl xs)"
  by (cases xs) auto

lemma sys_ok_kept_tl: "sys_ok (tl xs) \<Longrightarrow> sys_ok (tl (kept_of seen xs))"
  by (cases xs) (auto intro: kept_of_sys sys_ok_tl)

lemma splice_well_shaped:
  assumes ws: "well_shaped an msgs" and coa: "calls_on_assistants msgs" and h: "clean_head msgs h" "h < b" "h < length msgs"
    and head: "h = 0 \<or> \<not> requestedToolCalls (msgs ! (h - 1))" and t: "trim_space t \<noteq> []"
  shows "well_shaped an (splice msgs h b t)"
proof -
  let ?out = "take h msgs @ [user_text t] @ drop b msgs"
  have rules: "an \<Longrightarrow> sys_ok (tl msgs)" "an \<Longrightarrow> m \<in> set msgs \<Longrightarrow> \<not> contentPresentButBlank m" "answered msgs" for m
    using ws by (auto simp: well_shaped_rec)
  have coa_out: "calls_on_assistants ?out"
    using coa by (auto simp: calls_on_assistants_def list_all_iff dest: in_set_takeD in_set_dropD)
  have tail: "answered (user_text t # drop b msgs)" "an \<Longrightarrow> sys_ok (user_text t # drop b msgs)"
    using answered_drop [OF rules(3)] sys_ok_drop [OF rules(1), of "b - 1"] h(2)
    by (auto simp: drop_Suc [symmetric] Suc_diff_Suc RoleUser_def RoleSystem_def)
  have ans: "answered ?out"
    using answered_append [OF answered_head [OF rules(3) coa h(1,3) head] tail(1)] by simp
  have sys: "an \<Longrightarrow> sys_ok (tl ?out)"
  proof -
    assume an: an
    show ?thesis
    proof (cases "h \<le> 1")
      case True
      then show ?thesis using tail(2) [OF an] h(3) by (cases h; cases msgs) auto
    next
      case False
      then obtain m ms where m: "msgs = m # ms" "take h msgs = m # take (h - 1) ms" using h(3) by (cases msgs; cases h) auto
      have ne: "take (h - 1) ms \<noteq> []" using False h(3) by (auto simp: m(1))
      obtain k where k: "h = Suc (Suc k)" using False by (metis One_nat_def Suc_leI le_Suc_eq not_less_eq_eq old.nat.exhaust)
      have "last (take (h - 1) ms) = msgs ! (h - 1)"
        using h(3) by (simp add: m(1) k take_Suc_conv_app_nth)
      with False h(1) have "role (last (take (h - 1) ms)) \<noteq> RoleSystem" by (simp add: clean_head_def)
      with sys_ok_append [OF sys_ok_take [of ms "h - 1"] tail(2) [OF an]] rules(1) [OF an] show ?thesis
        by (simp add: m(1)) (simp add: m(2) [unfolded m(1)])
    qed
  qed
  have blank: "an \<Longrightarrow> m \<in> set ?out \<Longrightarrow> \<not> contentPresentButBlank m" for m
    using rules(2) user_text_not_blank [OF t] by (auto dest: in_set_takeD in_set_dropD)
  have "an \<Longrightarrow> \<forall>m \<in> set (kept_of [] ?out). \<not> contentPresentButBlank m"
    using blank kept_of_set [of "[]" ?out] by blast
  with sys sys_ok_kept_tl kept_of_paired [OF coa_out, of "[]" "{}"] kept_of_answered [OF ans]
  show ?thesis unfolding splice_eq well_shaped_rec by simp
qed

text \<open>
  C20: no cut of a summary makes a request the provider refuses. On a transcript the shape validator
  accepts, with calls on assistant messages only and at most one message kept in front, the span the
  summarizers pick never separates a call from the run of tool results right after it, and the
  request with the span replaced by a summary that is not blank is again accepted by the validator.
\<close>

theorem summary_splice_accepted:
  assumes "summarizeSpan msgs keepFirst keepLast groups = (headCount, start, end)" "keepFirst \<le> 1" "start < end"
    and "ValidateShapeFor provider msgs = []" "calls_on_assistants msgs" "trim_space t \<noteq> []"
  shows "ValidateShapeFor provider (splice msgs headCount end t) = []
     \<and> (\<forall>i j. i < end \<and> i < j \<and> j < length msgs \<and> (\<forall>k. i < k \<and> k \<le> j \<longrightarrow> role (msgs ! k) = RoleTool) \<longrightarrow> j < end)"
proof -
  note b = summarizeSpan_bounds [OF assms(1)]
  have "well_shaped (provider = ''anthropic'') (splice msgs headCount end t)"
  proof (rule splice_well_shaped)
    show "well_shaped (provider = ''anthropic'') msgs" using assms(4) by (simp add: validator_exact)
    show "clean_head msgs headCount" using b(4) assms(2) by (auto simp: clean_head_def)
    show "headCount = 0 \<or> \<not> requestedToolCalls (msgs ! (headCount - 1))" using b(5) by blast
  qed (use assms b(1,3) in auto)
  moreover have "j < end" if "i < end" "i < j" "j < length msgs" "\<forall>k. i < k \<and> k \<le> j \<longrightarrow> role (msgs ! k) = RoleTool" for i j
    using that b(6) by (fastforce simp: unsafe_start_def not_less [symmetric])
  ultimately show ?thesis by (auto simp: validator_exact)
qed

definition exchange :: "message list" where
  "exchange = [user_text ''task'', call_msg, result_msg, user_text ''next'', user_text ''last'']"

theorem summary_splice_accepted_witness:
  "summarizeSpan exchange 1 2 None = (1, 1, 3)
   \<and> ValidateShapeFor ''anthropic'' exchange = [] \<and> ValidateShapeFor ''anthropic'' (splice exchange 1 3 ''sum'') = []"
proof -
  have span: "summarizeSpan exchange 1 2 None = (1, 1, 3)" by code_simp
  have ok: "ValidateShapeFor ''anthropic'' exchange = []" by code_simp
  have "calls_on_assistants exchange" "trim_space ''sum'' \<noteq> []" by code_simp+
  with summary_splice_accepted [OF span _ _ ok, of "''sum''"] span ok show ?thesis by simp
qed

definition parallel_calls :: "message list" where
  "parallel_calls =
     [user_text ''task'',
      empty_message\<lparr>role := RoleAssistant,
        asstMsg := Some [\<lparr>call_id = Some ''t1'', fn_name = Some ''Read'', fn_args = ''a''\<rparr>,
                         \<lparr>call_id = Some ''t2'', fn_name = Some ''Read'', fn_args = ''b''\<rparr>]\<rparr>,
      result_msg, result_msg\<lparr>toolMsg := Some (Some ''t2'')\<rparr>, user_text ''next'', user_text ''last'']"

text \<open>
  More than one kept head message can split an exchange. The head retreats only while its last
  message is an assistant's call, so on a transcript the validator accepts, a head that ends between
  the two results of one message with two calls keeps the second call and summarizes its result.
\<close>

theorem head_splits_parallel_calls:
  "ValidateShapeFor ''openai'' parallel_calls = []
   \<and> summarizeSpan parallel_calls 3 1 None = (3, 3, 5)
   \<and> ValidateShapeFor ''openai'' (splice parallel_calls 3 5 ''sum'') = [(1, RuleAnsweredToolUse ''t2'')]"
  by (intro conjI; code_simp)

text \<open>
  A boundary that advances shortens the kept tail, so fewer than \<open>keepLast\<close> messages can stay: with
  a tool result at the end, none does.
\<close>

lemma tail_can_vanish: "summarizeSpan [user_text ''task'', call_msg, result_msg] 1 1 None = (1, 1, 3)"
  by code_simp

section \<open>The other two boundary moves\<close>

lemma trim_retreat_bounds:
  "start \<le> e \<Longrightarrow> start \<le> trim_retreat msgs start e \<and> trim_retreat msgs start e \<le> e"
  by (induction e) (auto simp: le_Suc_eq)

lemma trim_retreat_stops:
  "start \<le> e \<Longrightarrow> e < length msgs \<Longrightarrow> trim_retreat msgs start e = start
   \<or> role (msgs ! trim_retreat msgs start e) \<noteq> RoleTool \<and> \<not> requestedToolCalls (msgs ! (trim_retreat msgs start e - 1))"
  by (induction e) (auto simp: le_Suc_eq)

text \<open>
  The span that is left holds nothing the agent expanded, and either nothing is left, or the span was
  not touched, or it ends neither on a call nor before a tool result.
\<close>

lemma trimSpan_protects:
  fixes kept :: "string \<Rightarrow> bool"
  assumes "start \<le> end" "end \<le> length msgs"
  defines "e \<equiv> trimSpanForKeptVerbatim msgs start end kept"
  shows "start \<le> e \<and> e \<le> end \<and> (\<forall>i. start \<le> i \<and> i < e \<longrightarrow> \<not> kept (MessageText (msgs ! i)))
     \<and> (e = start \<or> e = end \<or> role (msgs ! e) \<noteq> RoleTool \<and> \<not> requestedToolCalls (msgs ! (e - 1)))"
proof (cases "filter (\<lambda>i. kept (MessageText (msgs ! i))) [start..<end]")
  case Nil
  then have "e = end" by (simp add: e_def trimSpanForKeptVerbatim_def)
  with Nil assms(1) show ?thesis by (auto simp: filter_empty_conv)
next
  case (Cons first rest)
  then obtain us vs where split: "[start..<end] = us @ first # vs" "\<forall>i \<in> set us. \<not> kept (MessageText (msgs ! i))"
    by (auto simp: filter_eq_Cons_iff)
  have f: "start \<le> first" "first < end"
    using Cons by (auto dest!: arg_cong [of _ _ set] simp: set_eq_iff)
  have "us = [start..<first]"
  proof -
    have "length us < end - start" using arg_cong [OF split(1), of length] by simp
    moreover from this have "first = start + length us" using arg_cong [OF split(1), of "\<lambda>xs. xs ! length us"] by simp
    ultimately show ?thesis using arg_cong [OF split(1), of "take (length us)"] by (simp add: take_upt)
  qed
  with split(2) have u: "\<not> kept (MessageText (msgs ! i))" if "start \<le> i" "i < first" for i using that by auto
  have e: "e = trim_retreat msgs start first" using Cons by (simp add: e_def trimSpanForKeptVerbatim_def)
  have "start \<le> e \<and> e \<le> first" "e = start \<or> role (msgs ! e) \<noteq> RoleTool \<and> \<not> requestedToolCalls (msgs ! (e - 1))"
    using trim_retreat_bounds [OF f(1)] trim_retreat_stops [OF f(1)] f assms(2) unfolding e by auto
  then show ?thesis using u f by auto
qed

text \<open>
  The trim looks at roles and calls, not at wire groups, so it can end the span inside a wire message
  that holds a tool result and the expanded text beside it.
\<close>

lemma trim_can_split_group:
  "trimSpanForKeptVerbatim (take 3 exchange @ [user_text ''kept'', user_text ''last'']) 1 4 (\<lambda>t. t = ''kept'') = 3
   \<and> sameGroup (Some [0, 1, 2, 2, 3]) 2 3"
  by (intro conjI; code_simp)

lemma last_tool_some:
  "last_tool msgs start n = Some i \<Longrightarrow> start \<le> i \<and> i < n \<and> role (msgs ! i) = RoleTool"
  by (induction n) (auto split: if_splits)

lemma first_of_run_le: "first_of_run msgs gs start i \<le> i"
  by (induction i) auto

lemma call_of_run_le: "call_of_run gs start i \<le> i"
  by (induction i) auto

text \<open>A retreat moves the boundary back only, inside the span, and leaves a tool result after it.\<close>

lemma retreat_keeps_exchange:
  assumes "retreatPastLastToolExchange msgs gs start end \<noteq> end"
  defines "c \<equiv> retreatPastLastToolExchange msgs gs start end"
  shows "start < c \<and> c < end \<and> (\<exists>i. c < i \<and> i < length msgs \<and> role (msgs ! i) = RoleTool)"
proof -
  let ?g = "aligned_groups gs msgs"
  obtain l where l: "last_tool msgs start (length msgs) = Some l"
    using assms(1) by (auto simp: retreatPastLastToolExchange_def Let_def split: option.splits)
  let ?f = "first_of_run msgs ?g start l"
  have f: "int start < int ?f - 1" and c: "c = call_of_run ?g start (?f - 1)" "start < c" "c < end"
    using assms(1) l unfolding c_def retreatPastLastToolExchange_def by (auto simp: Let_def not_le split: if_splits)
  have "c < l" using f c(1) call_of_run_le [of ?g start "?f - 1"] first_of_run_le [of msgs ?g start l] by linarith
  with c last_tool_some [OF l] show ?thesis by blast
qed

end
