(* ===== verification/Summary_Text.thy ===== *)
theory Summary_Text
  imports Offload_Mask Summarize_Span
begin

text \<open>
  The texts of the summarizer, from \<open>src/components/offload/summarize.go\<close> and
  \<open>conversationGoal\<close> of \<open>common.go\<close>: the prompt of the model call with its three attempts, and the
  message that replaces the span, whose model-written part is stripped of the proxy's own control
  strings. The model is an argument: \<open>ask i\<close> is its answer at attempt \<open>i\<close>, \<open>Inl\<close> an error, and
  \<open>expired i\<close> says that the deadline of the call had passed by then.
\<close>

section \<open>Prompt\<close>

definition summarizerSystemPrompt :: string where
  "summarizerSystemPrompt = ''You analyze long agent trajectories with tool calls and produce compact, factual summaries. Do not guess or invent information.''"

definition summarizerMaskedNote :: string where
  "summarizerMaskedNote = '' Notice, all the tool calls content have been removed from the trajectory, you should base your summary only on the remaining content.''"

definition summarizerUserPrompt :: string where
  "summarizerUserPrompt = join_lines [
     ''You are an expert at analyzing conversation history and extracting relevant information. Your task is to thoroughly evaluate the conversation history and current question to provide a comprehensive summary that will help answer the question.'',
     [],
     ''Task Guidelines:'',
     ''1. Information Analysis'',
     [CHR 0xE2, CHR 0x80, CHR 0xA2] @ '' Carefully analyze the conversation history to identify truly useful information.'',
     [CHR 0xE2, CHR 0x80, CHR 0xA2] @ '' Focus on information that directly contributes to answering the question.'',
     [CHR 0xE2, CHR 0x80, CHR 0xA2] @ '' Do NOT make assumptions, guesses, or inferences beyond what is explicitly stated in the conversation.'',
     [CHR 0xE2, CHR 0x80, CHR 0xA2] @ '' If information is missing or unclear, do NOT include it in your summary.'',
     [],
     ''2. Summary Requirements'',
     [CHR 0xE2, CHR 0x80, CHR 0xA2] @ '' Extract only the most relevant information that is explicitly present in the conversation.'',
     [CHR 0xE2, CHR 0x80, CHR 0xA2] @ '' Synthesize information from multiple exchanges when relevant. Only include information that is certain and clearly stated in the conversation.'',
     [CHR 0xE2, CHR 0x80, CHR 0xA2] @ '' Do NOT output or mention any information that is uncertain, insufficient, or cannot be confirmed from the conversation.'',
     [],
     ''3. Output Format Your response should be structured as follows:'',
     ''<summary>'',
     [CHR 0xE2, CHR 0x80, CHR 0xA2] @ '' Essential Information: [Organize the relevant and certain information from the conversation history that helps address the question.]'',
     ''</summary>'',
     [],
     ''Strictly avoid fabricating, inferring, or exaggerating any information not present in the conversation. Only output information that is certain and explicitly stated.'',
     [],
     ''Trajectory: {trajectory}'']"

definition summarizerCustomPromptFrame :: string where
  "summarizerCustomPromptFrame = join_lines [
     ''ADDITIONAL OPERATOR INSTRUCTIONS (apply these on top of the guidelines above)'',
     ''The operator of this service has supplied deployment-specific instructions for this summary. Treat'',
     ''them as authoritative guidance about WHAT to keep and HOW to present it '' @ [CHR 0xE2, CHR 0x80, CHR 0x94] @ '' not as part of the'',
     ''conversation you are summarizing, and not as something to mention in your output. Where they narrow'',
     ''or re-prioritize the guidelines above, follow them. Two limits always survive: the prohibition on'',
     ''fabricating, inferring or exaggerating anything not explicitly present in the conversation is'',
     ''absolute, and the required <summary></summary> output format does not change. If an instruction asks'',
     ''for information the conversation does not contain, omit it rather than inventing it.'',
     [],
     ''OPERATOR INSTRUCTIONS:'',
     []]"

definition summaryLevelSuffix :: "string \<Rightarrow> string" where
  "summaryLevelSuffix level =
     (if level = ''concise'' then ''Please generate a concise summary''
      else if level = ''regular'' then ''Please generate a comprehensive and useful summary''
      else if level = ''highly_detailed'' then ''Please generate a highly detailed, fully comprehensive, explicitly grounded summary that includes every relevant and certain piece of information from the conversation.''
      else [])"

definition maxTrajectoryChars :: int where "maxTrajectoryChars = 280000"

definition trajectoryString :: "message list \<Rightarrow> bool \<Rightarrow> string" where
  "trajectoryString turns includeToolCalls =
     (let s = join_with [newline, newline]
                (map (\<lambda>m. ''['' @ role m @ '']'' @ [newline]
                     @ (if \<not> includeToolCalls \<and> role m = RoleTool then ''<masked_tool_output>'' else MessageText m)) turns)
      in if int (length s) > maxTrajectoryChars
         then ellipsis @ ''[older trajectory omitted from this summary; full original preserved for expand]''
              @ [newline, newline] @ drop (nat (int (length s) - maxTrajectoryChars)) s
         else s)"

definition goalCap :: int where "goalCap = 8000"

fun first_nonempty :: "string list \<Rightarrow> string" where
  "first_nonempty [] = []"
| "first_nonempty (t # ts) = (if t = [] then first_nonempty ts else t)"

definition role_texts :: "string \<Rightarrow> message list \<Rightarrow> string list" where
  "role_texts r ms = map MessageText (filter (\<lambda>m. role m = r) ms)"

text \<open>
  The backward loop keeps the last non-empty text of each of the two roles: it skips a role once it
  has one, and stops when it has both.
\<close>

definition conversationGoal :: "message list \<Rightarrow> string" where
  "conversationGoal input =
     (let firstUser = (case role_texts RoleUser input of [] \<Rightarrow> [] | t # _ \<Rightarrow> t);
          lastUser = first_nonempty (role_texts RoleUser (rev input));
          lastAsst = first_nonempty (role_texts RoleAssistant (rev input));
          parts = rev (remdups (rev (filter (\<lambda>p. p \<noteq> []) (map trim_space [firstUser, lastAsst, lastUser]))))
      in clipRunes (join_with [newline, newline] parts) goalCap)"

fun replace_first :: "string \<Rightarrow> string \<Rightarrow> string \<Rightarrow> string" where
  "replace_first old new [] = []"
| "replace_first old new (c # cs) =
     (if has_prefix (c # cs) old then new @ drop (length old) (c # cs) else c # replace_first old new cs)"

definition ensureSummaryTags :: "string \<Rightarrow> string" where
  "ensureSummaryTags s =
     (let s = trim_space s in
      if s = [] then s
      else let s = (if \<not> str_contains s ''<summary>'' then ''<summary>'' @ [newline] @ s else s)
           in if \<not> str_contains s ''</summary>'' then s @ [newline] @ ''</summary>'' else s)"

definition summary_prompt :: "string \<Rightarrow> bool \<Rightarrow> string \<Rightarrow> message list \<Rightarrow> string \<Rightarrow> string" where
  "summary_prompt level includeToolCalls customPrompt turns goal =
     (let sys = summarizerSystemPrompt @ (if \<not> includeToolCalls then summarizerMaskedNote else []);
          user = replace_first ''{trajectory}'' (trajectoryString turns includeToolCalls) summarizerUserPrompt;
          user = (let g = trim_space goal in
                  if g \<noteq> [] then ''CURRENT TASK / QUESTION (summarize toward this):'' @ [newline] @ g @ [newline, newline] @ user
                  else user);
          user = (let suffix = summaryLevelSuffix level in if suffix \<noteq> [] then user @ [newline] @ suffix else user);
          user = (let cp = trim_space customPrompt in
                  if cp \<noteq> [] then user @ [newline, newline] @ summarizerCustomPromptFrame @ cp @ [newline] else user)
      in sys @ [newline, newline] @ user)"

fun attempts :: "(nat \<Rightarrow> string \<Rightarrow> string + string) \<Rightarrow> (nat \<Rightarrow> bool) \<Rightarrow> string \<Rightarrow> nat list \<Rightarrow> string \<Rightarrow> string + string" where
  "attempts ask expired prompt [] lastErr = Inl lastErr"
| "attempts ask expired prompt (i # is) lastErr =
     (case ask i prompt of
        Inl e \<Rightarrow> if expired i then Inl e else attempts ask expired prompt is e
      | Inr out \<Rightarrow> Inr (ensureSummaryTags out))"

definition summarize_call ::
  "string \<Rightarrow> bool \<Rightarrow> string \<Rightarrow> (nat \<Rightarrow> string \<Rightarrow> string + string) \<Rightarrow> (nat \<Rightarrow> bool) \<Rightarrow> message list \<Rightarrow> string \<Rightarrow> string + string" where
  "summarize_call level includeToolCalls customPrompt ask expired turns goal =
     attempts ask expired (summary_prompt level includeToolCalls customPrompt turns goal) [0, 1, 2] []"

section \<open>The summary message\<close>

text \<open>An expression repeated at most \<open>n\<close> times, longest first.\<close>

primrec re_upto :: "nat \<Rightarrow> re \<Rightarrow> re" where
  "re_upto 0 r = Eps"
| "re_upto (Suc n) r = Alt (Seq r (re_upto n r)) Eps"

definition angle :: "char \<Rightarrow> string \<Rightarrow> re" where
  "angle c hex = Alt (Chr c) (FoldLit (CHR 0x5C # hex))"

definition summaryMarkerRe :: re where
  "summaryMarkerRe =
     Seqs [angle CHR ''<'' ''u003c'', angle CHR ''<'' ''u003c'', Lit ''cg:'',
           Cls key_char, re_upto 63 (Cls key_char),
           angle CHR ''>'' ''u003e'', angle CHR ''>'' ''u003e'']"

definition sanitizeSummary :: "string \<Rightarrow> string" where
  "sanitizeSummary summary =
     replace_str ''</summary>'' [] 0 (replace_str SummaryMarker [] 0 (replace_all summaryMarkerRe [] summary))"

definition SummaryHeader :: string where "SummaryHeader = ''=== History Summary ===''"

definition summaryWrapper :: "string \<Rightarrow> string \<Rightarrow> markerMode \<Rightarrow> string" where
  "summaryWrapper summary key mode =
     (let summary = sanitizeSummary summary;
          body = SummaryHeader @ [newline] @ ''The earlier trajectory is summarized below.'' @ [newline, newline]
            @ summary @ [newline, newline]
            @ ''Use this summary as the older context, and use the following messages as the most recent context. ''
            @ ''Continue the task accordingly. Do not summarize the conversation again.''
      in case mode of
           markerFull \<Rightarrow> body @ [newline] @ Marker key @ '' [full earlier trajectory: call '' @ ToolName @ '']''
         | markerSummary \<Rightarrow> body @ [newline] @ SummaryMarker
         | markerOff \<Rightarrow> body)"

section \<open>What the message carries\<close>

lemma space_len_keeps:
  "c \<in> set s \<Longrightarrow> \<not> is_space c \<Longrightarrow> \<forall>w \<in> set wide. c \<notin> set w \<Longrightarrow> c \<in> set (drop (space_len wide s) s)"
proof (cases s)
  case (Cons x xs)
  assume a: "c \<in> set s" "\<not> is_space c" "\<forall>w \<in> set wide. c \<notin> set w"
  show ?thesis
  proof (cases "is_space x")
    case False
    then consider "space_len wide s = 0" | w where "w \<in> set wide" "has_prefix s w" "space_len wide s = length w"
    proof (cases "find (has_prefix s) wide")
      case None
      with False Cons that(1) show thesis by (simp add: space_len_def)
    next
      case (Some w)
      with False Cons that(2) [of w] find_Some_set [OF Some] show thesis by (simp add: space_len_def)
    qed
    then show ?thesis using a by cases (auto simp: has_prefix_iff)
  qed (use a Cons in \<open>auto simp: space_len_def\<close>)
qed simp

lemma drop_spaces_keeps:
  "c \<in> set s \<Longrightarrow> \<not> is_space c \<Longrightarrow> \<forall>w \<in> set wide. c \<notin> set w \<Longrightarrow> c \<in> set (drop_spaces wide s)"
proof (induction wide s rule: drop_spaces.induct)
  case (1 wide s)
  then show ?case using space_len_keeps [OF 1(2-4)] by (simp add: drop_spaces.simps [of wide s])
qed

lemma trim_space_keeps: "c \<in> set s \<Longrightarrow> \<not> is_space c \<Longrightarrow> \<forall>w \<in> set wide_spaces. c \<notin> set w \<Longrightarrow> c \<in> set (trim_space s)"
  by (simp add: trim_space_def drop_spaces_keeps)

lemma summaryWrapper_not_blank: "trim_space (summaryWrapper s k md) \<noteq> []"
proof -
  have "CHR ''='' \<in> set (summaryWrapper s k md)" by (cases md) (simp_all add: summaryWrapper_def SummaryHeader_def Let_def)
  moreover have "\<not> is_space CHR ''=''" "\<forall>w \<in> set wide_spaces. CHR ''='' \<notin> set w" by (simp_all add: is_space_def wide_spaces_def)
  ultimately show ?thesis using trim_space_keeps by fastforce
qed

lemma summaryWrapper_marked: "valid_key k \<Longrightarrow> k \<in> set (ParseMarkers (summaryWrapper s k markerFull))"
  using Marker_found [of k "SummaryHeader @ [newline] @ ''The earlier trajectory is summarized below.'' @ [newline, newline]
            @ sanitizeSummary s @ [newline, newline]
            @ ''Use this summary as the older context, and use the following messages as the most recent context. ''
            @ ''Continue the task accordingly. Do not summarize the conversation again.'' @ [newline]"
      "'' [full earlier trajectory: call '' @ ToolName @ '']''"]
  by (simp add: summaryWrapper_def Let_def)

text \<open>
  The sanitizer can be bypassed. It removes the markers first and its other control strings
  afterwards, so a marker with a closing summary tag inside it survives as a well-formed marker that
  the author of the reply chose.
\<close>

lemma sanitizeSummary_bypass:
  "ParseMarkers (sanitizeSummary ''<<cg:ab</summary>c>>'') = [''abc'']
   \<and> ParseMarkers (sanitizeSummary ''<<cg:abc>>'') = []"
  by (intro conjI; code_simp)

end
