(* ===== verification/Thread_Fingerprint.thy ===== *)
theory Thread_Fingerprint
  imports Go_Prelude "HOL-Library.Word"
begin

unbundle bit_operations_syntax

text \<open>
  The conversation fingerprint of \<open>src/internal/thread/thread.go\<close>: the canonical bytes of a message
  and the running FNV-1a hash over a message list. A parsed JSON value is what package gjson hands
  the code: objects and arrays with their elements in order, a string with its value, any other
  literal with its rendering, and with each value the raw text it was read from. Parsing itself is
  gjson's, so the operations here start from the parsed body.
\<close>

section \<open>Parsed JSON\<close>

datatype gval =
    GObj string "(string \<times> gval) list"
  | GArr string "gval list"
  | GStr string string
  | GLit string string

text \<open>\<open>Result.Raw\<close> and \<open>Result.String()\<close>.\<close>

fun graw :: "gval \<Rightarrow> string" where
  "graw (GObj r _) = r"
| "graw (GArr r _) = r"
| "graw (GStr _ r) = r"
| "graw (GLit _ r) = r"

fun gstring :: "gval \<Rightarrow> string" where
  "gstring (GObj r _) = r"
| "gstring (GArr r _) = r"
| "gstring (GStr s _) = s"
| "gstring (GLit s _) = s"

text \<open>\<open>Get\<close> of a plain key is the first field of that name; the rendering of a missing value is empty.\<close>

definition gget :: "string \<Rightarrow> gval \<Rightarrow> gval option" where
  "gget k v = (case v of GObj _ kvs \<Rightarrow> map_of kvs k | _ \<Rightarrow> None)"

definition gget_str :: "string \<Rightarrow> gval \<Rightarrow> string" where
  "gget_str k v = (case gget k v of Some x \<Rightarrow> gstring x | None \<Rightarrow> [])"

definition first_str :: "string \<Rightarrow> (string \<times> gval) list \<Rightarrow> string" where
  "first_str k kvs = (case map_of kvs k of Some x \<Rightarrow> gstring x | None \<Rightarrow> [])"

section \<open>Canonical bytes\<close>

definition quoted_text :: string where
  "quoted_text = [CHR 0x22] @ ''text'' @ [CHR 0x22]"

definition text_array :: "string \<Rightarrow> string" where
  "text_array raw = ''[{type:'' @ quoted_text @ '',text:'' @ raw @ '',},]''"

fun canonAt :: "gval \<Rightarrow> bool \<Rightarrow> string" where
  "canonAt (GObj r kvs) msg =
     (let typ = first_str ''type'' kvs in
      if typ = ''thinking'' \<or> typ = ''redacted_thinking'' \<or> typ = ''reasoning'' then ''~''
      else if typ = ''tool_result'' then ''tool_result:'' @ first_str ''tool_use_id'' kvs
      else if typ = ''function_call_output'' then ''function_call_output:'' @ first_str ''call_id'' kvs
      else if first_str ''role'' kvs = ''tool'' then ''tool:'' @ first_str ''tool_call_id'' kvs
      else ''{''
        @ concat (map (\<lambda>(k, v).
            if k = ''cache_control'' \<or> msg \<and> k = ''output_config'' then []
            else k @ '':''
              @ (case v of
                   GStr _ raw \<Rightarrow> if k = ''content'' then text_array raw else raw
                 | _ \<Rightarrow> canonAt v False)
              @ '','') kvs)
        @ ''}'')"
| "canonAt (GArr r vs) msg = ''['' @ concat (map (\<lambda>v. canonAt v False @ '','') vs) @ '']''"
| "canonAt (GStr s r) msg = r"
| "canonAt (GLit s r) msg = r"

definition canon :: "gval \<Rightarrow> string" where
  "canon v = canonAt v False"

section \<open>The running hash\<close>

definition fnv_write :: "64 word \<Rightarrow> string \<Rightarrow> 64 word" where
  "fnv_write h bs = fold (\<lambda>c h. (h XOR of_nat (of_char c)) * 1099511628211) bs h"

definition fnv_offset :: "64 word" where "fnv_offset = 14695981039346656037"

fun sums_from :: "64 word \<Rightarrow> gval list \<Rightarrow> 64 word list" where
  "sums_from h [] = []"
| "sums_from h (m # ms) =
     (let h = fnv_write h (CHR 0x1E # canonAt m True) in h # sums_from h ms)"

fun mass_from :: "int \<Rightarrow> gval list \<Rightarrow> int list" where
  "mass_from sofar [] = []"
| "mass_from sofar (m # ms) =
     (let sofar = sofar + int (length (graw m)) in sofar # mass_from sofar ms)"

definition fingerprint :: "gval \<Rightarrow> (64 word list \<times> int list) option" where
  "fingerprint root =
     (case root of
        GObj _ _ \<Rightarrow>
          if gget_str ''previous_response_id'' root \<noteq> [] then None
          else
            let messages = gget ''messages'' root;
                items = (case messages of Some (GArr r vs) \<Rightarrow> messages | _ \<Rightarrow> gget ''input'' root)
            in (case items of
                  Some (GStr s r) \<Rightarrow> Some ([fnv_write fnv_offset (canon (GStr s r))], [int (length r)])
                | Some (GArr r vs) \<Rightarrow>
                    if sums_from fnv_offset vs = [] then None
                    else Some (sums_from fnv_offset vs, mass_from 0 vs)
                | _ \<Rightarrow> None)
      | _ \<Rightarrow> None)"

definition Fingerprint :: "gval \<Rightarrow> 64 word list option" where
  "Fingerprint root = map_option fst (fingerprint root)"

section \<open>What the fingerprint keeps\<close>

lemma length_sums [simp]: "length (sums_from h ms) = length ms"
  by (induction ms arbitrary: h) (simp_all add: Let_def)

lemma length_mass [simp]: "length (mass_from n ms) = length ms"
  by (induction ms arbitrary: n) (simp_all add: Let_def)

lemma sums_from_append:
  "sums_from h (ms @ ns) = sums_from h ms @ sums_from (last (h # sums_from h ms)) ns"
  by (induction ms arbitrary: h) (simp_all add: Let_def)

lemma sums_from_canon:
  "map (\<lambda>m. canonAt m True) ms = map (\<lambda>m. canonAt m True) ns \<Longrightarrow> sums_from h ms = sums_from h ns"
proof (induction ms arbitrary: h ns)
  case (Cons m ms)
  then obtain n ns' where "ns = n # ns'" "canonAt m True = canonAt n True" by auto
  with Cons show ?case by (simp add: Let_def)
qed simp

text \<open>
  How an agent resends a message of an earlier turn: the cache breakpoint has moved on, a tool
  result may have been cleared, and a content array of one text block has become a plain string.
\<close>

definition one_text :: "gval \<Rightarrow> gval" where
  "one_text v =
     (case v of
        GArr _ [GObj _ [(a, GStr x xr), (b, GStr s r)]] \<Rightarrow>
          if a = ''type'' \<and> x = ''text'' \<and> xr = quoted_text \<and> b = ''text'' then GStr s r else v
      | _ \<Rightarrow> v)"

definition is_output :: "(string \<times> gval) list \<Rightarrow> bool" where
  "is_output kvs \<longleftrightarrow>
     first_str ''type'' kvs \<in> {''tool_result'', ''function_call_output''} \<or> first_str ''role'' kvs = ''tool''"

fun aged :: "gval \<Rightarrow> gval" where
  "aged (GObj r kvs) =
     GObj r (map (\<lambda>(k, v). (k, if k = ''content'' then one_text (aged v) else aged v))
               (filter (\<lambda>(k, _). k \<noteq> ''cache_control'' \<and> (is_output kvs \<longrightarrow> k \<noteq> ''content'' \<and> k \<noteq> ''output'')) kvs))"
| "aged (GArr r vs) = GArr r (map aged vs)"
| "aged (GStr s r) = GStr s r"
| "aged (GLit s r) = GLit s r"

definition aged_message :: "gval \<Rightarrow> gval" where
  "aged_message m =
     (case aged m of GObj r kvs \<Rightarrow> GObj r (filter (\<lambda>(k, _). k \<noteq> ''output_config'') kvs) | v \<Rightarrow> v)"

definition piece :: "string \<Rightarrow> gval \<Rightarrow> string" where
  "piece k v = (case v of GStr _ raw \<Rightarrow> if k = ''content'' then text_array raw else raw | _ \<Rightarrow> canonAt v False)"

lemma canonAt_obj:
  "canonAt (GObj r kvs) msg =
     (let typ = first_str ''type'' kvs in
      if typ = ''thinking'' \<or> typ = ''redacted_thinking'' \<or> typ = ''reasoning'' then ''~''
      else if typ = ''tool_result'' then ''tool_result:'' @ first_str ''tool_use_id'' kvs
      else if typ = ''function_call_output'' then ''function_call_output:'' @ first_str ''call_id'' kvs
      else if first_str ''role'' kvs = ''tool'' then ''tool:'' @ first_str ''tool_call_id'' kvs
      else ''{''
        @ concat (map (\<lambda>(k, v). if k = ''cache_control'' \<or> msg \<and> k = ''output_config'' then [] else k @ '':'' @ piece k v @ '','') kvs)
        @ ''}'')"
  unfolding canonAt.simps piece_def ..

lemma gstring_aged [simp]: "gstring (aged v) = gstring v"
  by (cases v) simp_all

lemma map_of_aged:
  "P k \<Longrightarrow> map_of (map (\<lambda>(k, v). (k, f k v)) (filter (\<lambda>(k, _). P k) kvs)) k = map_option (f k) (map_of kvs k)"
  by (induction kvs) auto

lemma first_str_filter: "P k \<Longrightarrow> first_str k (filter (\<lambda>(k, _). P k) kvs) = first_str k kvs"
  using map_of_aged [of P k "\<lambda>_ v. v" kvs] by (simp add: first_str_def option.map_ident)

lemma first_str_aged:
  assumes "k \<notin> {''content'', ''output'', ''cache_control''}"
  shows "first_str k (map (\<lambda>(k, v). (k, if k = ''content'' then one_text (aged v) else aged v))
           (filter (\<lambda>(k, _). k \<noteq> ''cache_control'' \<and> (q \<longrightarrow> k \<noteq> ''content'' \<and> k \<noteq> ''output'')) kvs)) = first_str k kvs"
  using assms
    map_of_aged [of "\<lambda>k. k \<noteq> ''cache_control'' \<and> (q \<longrightarrow> k \<noteq> ''content'' \<and> k \<noteq> ''output'')" k
       "\<lambda>k v. if k = ''content'' then one_text (aged v) else aged v" kvs]
  by (auto simp: first_str_def split: option.splits)

lemma piece_one_text: "piece ''content'' (one_text v) = piece ''content'' v"
proof (cases "one_text v = v")
  case False
  then obtain a b s r where "v = GArr a [GObj b [(''type'', GStr ''text'' quoted_text), (''text'', GStr s r)]]" "one_text v = GStr s r"
    unfolding one_text_def by (auto split: gval.splits list.splits if_splits)
  then show ?thesis by (simp add: piece_def first_str_def text_array_def)
qed simp

lemma piece_aged: "(\<And>m. canonAt (aged v) m = canonAt v m) \<Longrightarrow> piece k (aged v) = piece k v"
  by (cases v) (simp_all add: piece_def)

lemma concat_skip:
  "(\<And>x. x \<in> set xs \<Longrightarrow> P x \<Longrightarrow> g (f x) = h x) \<Longrightarrow> (\<And>x. x \<in> set xs \<Longrightarrow> \<not> P x \<Longrightarrow> h x = [])
   \<Longrightarrow> concat (map g (map f (filter P xs))) = concat (map h xs)"
  by (induction xs) auto

lemma canonAt_aged: "canonAt (aged v) msg = canonAt v msg"
proof (induction v arbitrary: msg rule: aged.induct)
  case (1 r kvs)
  let ?P = "\<lambda>(k, _). k \<noteq> ''cache_control'' \<and> (is_output kvs \<longrightarrow> k \<noteq> ''content'' \<and> k \<noteq> ''output'')"
  let ?f = "\<lambda>(k, v). (k, if k = ''content'' then one_text (aged v) else aged v)"
  let ?kvs = "map ?f (filter ?P kvs)"
  have ids: "first_str ''type'' ?kvs = first_str ''type'' kvs" "first_str ''role'' ?kvs = first_str ''role'' kvs"
    "first_str ''tool_use_id'' ?kvs = first_str ''tool_use_id'' kvs" "first_str ''call_id'' ?kvs = first_str ''call_id'' kvs"
    "first_str ''tool_call_id'' ?kvs = first_str ''tool_call_id'' kvs"
    by (rule first_str_aged; simp)+
  show ?case
  proof (cases "is_output kvs")
    case True
    then show ?thesis unfolding aged.simps canonAt_obj ids by (auto simp: is_output_def Let_def)
  next
    case False
    let ?g = "\<lambda>(k, v). if k = ''cache_control'' \<or> msg \<and> k = ''output_config'' then [] else k @ '':'' @ piece k v @ '',''"
    have "concat (map ?g ?kvs) = concat (map ?g kvs)"
    proof (rule concat_skip)
      fix x assume x: "x \<in> set kvs" "?P x"
      obtain k v where kv: "x = (k, v)" by (cases x)
      have "canonAt (aged v) m = canonAt v m" for m
        using 1 x unfolding kv by (cases "k = ''content''") fastforce+
      then have "piece k (aged v) = piece k v" by (rule piece_aged)
      then show "?g (?f x) = ?g x" by (auto simp: kv piece_one_text)
    qed (use False in auto)
    then show ?thesis unfolding aged.simps canonAt_obj ids by (simp add: Let_def)
  qed
next
  case (2 r vs)
  then have "map (\<lambda>v. canonAt v False @ '','') (map aged vs) = map (\<lambda>v. canonAt v False @ '','') vs" by simp
  then show ?case unfolding aged.simps canonAt.simps by metis
qed simp_all

lemma canonAt_aged_message: "canonAt (aged_message m) True = canonAt m True"
proof (cases "aged m")
  case (GObj r kvs)
  let ?kvs = "filter (\<lambda>(k, _). k \<noteq> ''output_config'') kvs"
  have ids: "first_str k ?kvs = first_str k kvs" if "k \<noteq> ''output_config''" for k
    using first_str_filter [of "\<lambda>k. k \<noteq> ''output_config''" k kvs] that by simp
  let ?g = "\<lambda>(k, v). if k = ''cache_control'' \<or> True \<and> k = ''output_config'' then [] else k @ '':'' @ piece k v @ '',''"
  have "concat (map ?g ?kvs) = concat (map ?g kvs)"
    using concat_skip [of kvs "\<lambda>(k, _). k \<noteq> ''output_config''" ?g "\<lambda>x. x" ?g] by auto
  then have "canonAt (GObj r ?kvs) True = canonAt (GObj r kvs) True"
    unfolding canonAt_obj by (simp add: ids Let_def)
  with GObj canonAt_aged [of m True] show ?thesis by (simp add: aged_message_def)
qed (use canonAt_aged [of m True] in \<open>simp_all add: aged_message_def\<close>)

lemma resent_prefix:
  "sums_from h (map aged_message ms @ ns) = sums_from h ms @ sums_from (last (h # sums_from h ms)) ns"
  using sums_from_canon [of "map aged_message ms" ms h] by (simp add: sums_from_append o_def canonAt_aged_message)

end
