(* ===== verification/Thread_Tracker.thy ===== *)
theory Thread_Tracker
  imports Thread_Fingerprint "HOL-Library.AList"
begin

text \<open>
  The thread tracker of \<open>src/internal/thread/thread.go\<close>: which thread of a session a request
  continues. A session is the list of its threads, and a pointer to a thread is its position in that
  list. The clock of a call is an argument; the body is the parsed JSON of the request. The share
  test of \<open>mostShared\<close> is exact, as a float product is for sizes below \<open>2 ^ 53\<close>.
\<close>

section \<open>State\<close>

definition Primary :: string where "Primary = []"

definition Key :: "string \<Rightarrow> string \<Rightarrow> string" where
  "Key session thread = (if thread = Primary then session else session @ [CHR 0x00] @ thread)"

datatype Source = SourceHeader | SourcePrefix | SourceSession

text \<open>\<open>Inherits\<close> and its flag are one option.\<close>

record Result =
  resID :: string
  resSource :: Source
  Disagree :: bool
  Inherits :: "string option"

definition InheritsFrom :: "Result \<Rightarrow> string \<times> bool" where
  "InheritsFrom r = (case Inherits r of Some i \<Rightarrow> (i, True) | None \<Rightarrow> ([], False))"

definition maxThreadsPerSession :: int where "maxThreadsPerSession = 64"
definition maxSessions :: int where "maxSessions = 20000"
definition staleAfter :: duration where "staleAfter = 2 * 3600 * second"
definition maxHeaderID :: int where "maxHeaderID = 128"

record threadState =
  tid :: string
  tn :: nat
  tsum :: "64 word"
  tsums :: "64 word list"
  tlast :: instant
  ttools :: bool
  tmodel :: string
  compacting :: bool

record sessionState =
  threads :: "threadState list"
  slast :: instant

type_synonym thread_tracker = "(string \<times> sessionState) list"

definition New :: thread_tracker where "New = []"

definition header_char :: "char \<Rightarrow> bool" where
  "header_char c \<longleftrightarrow>
     c \<in> set ''abcdefghijklmnopqrstuvwxyz'' \<or> c \<in> set ''ABCDEFGHIJKLMNOPQRSTUVWXYZ'' \<or> c \<in> set ''0123456789''
     \<or> c \<in> set ''_.:-@''"

definition ValidHeaderID :: "string \<Rightarrow> bool" where
  "ValidHeaderID v \<longleftrightarrow> v \<noteq> [] \<and> int (length v) \<le> maxHeaderID \<and> list_all header_char v"

section \<open>Searches\<close>

fun find_from :: "nat \<Rightarrow> string \<Rightarrow> threadState list \<Rightarrow> nat option" where
  "find_from i k [] = None"
| "find_from i k (th # ths) = (if tid th = k then Some i else find_from (i + 1) k ths)"

definition find_thread :: "string \<Rightarrow> threadState list \<Rightarrow> nat option" where
  "find_thread k ths = find_from 0 k ths"

text \<open>
  A scan that keeps the best candidate seen so far: \<open>cand\<close> are the positions the loop does not skip,
  and \<open>better a b\<close> says that position \<open>a\<close> replaces the best so far \<open>b\<close>.
\<close>

fun best_scan :: "(nat \<Rightarrow> bool) \<Rightarrow> (nat \<Rightarrow> nat \<Rightarrow> bool) \<Rightarrow> nat list \<Rightarrow> nat option \<Rightarrow> nat option" where
  "best_scan cand better [] best = best"
| "best_scan cand better (i # is) best =
     best_scan cand better is
       (if \<not> cand i then best
        else case best of
               None \<Rightarrow> Some i
             | Some b \<Rightarrow> if better i b then Some i else best)"

fun lcp :: "64 word list \<Rightarrow> 64 word list \<Rightarrow> nat" where
  "lcp (x # xs) (y # ys) = (if x = y then Suc (lcp xs ys) else 0)"
| "lcp _ _ = 0"

definition headerThread :: "threadState \<Rightarrow> bool" where
  "headerThread th \<longleftrightarrow> has_prefix (tid th) ''a:''"

definition preferOnTie :: "threadState \<Rightarrow> threadState \<Rightarrow> string \<Rightarrow> bool" where
  "preferOnTie a b model =
     (let am = (model \<noteq> [] \<and> tmodel a = model); bm = (model \<noteq> [] \<and> tmodel b = model)
      in if am \<noteq> bm then am else tlast b < tlast a)"

definition hasPrefixThread :: "threadState list \<Rightarrow> bool" where
  "hasPrefixThread ths \<longleftrightarrow> list_ex (\<lambda>th. \<not> has_prefix (tid th) ''a:'') ths"

definition continues :: "64 word list \<Rightarrow> threadState \<Rightarrow> bool" where
  "continues sums th \<longleftrightarrow> \<not> (tn th = 0 \<or> length sums < tn th \<or> sums ! (tn th - 1) \<noteq> tsum th)"

definition longestPrefix :: "threadState list \<Rightarrow> 64 word list \<Rightarrow> nat option" where
  "longestPrefix ths sums =
     best_scan (\<lambda>i. continues sums (ths ! i))
       (\<lambda>i b. tn (ths ! b) < tn (ths ! i) \<or> tn (ths ! i) = tn (ths ! b) \<and> tlast (ths ! b) < tlast (ths ! i))
       [0..<length ths] None"

definition compactionParent :: "threadState list \<Rightarrow> 64 word list \<Rightarrow> string \<Rightarrow> nat option" where
  "compactionParent ths sums model =
     best_scan (\<lambda>i. \<not> headerThread (ths ! i) \<and> lcp (tsums (ths ! i)) sums \<noteq> 0)
       (\<lambda>i b. let th = ths ! i; best = ths ! b; n = lcp (tsums th) sums; bestLCP = lcp (tsums best) sums in
          ttools th \<and> \<not> ttools best
          \<or> ttools th = ttools best \<and> bestLCP < n
          \<or> ttools th = ttools best \<and> n = bestLCP \<and> preferOnTie th best model)
       [0..<length ths] None"

definition rewrittenTailParent :: "threadState list \<Rightarrow> 64 word list \<Rightarrow> string \<Rightarrow> nat option" where
  "rewrittenTailParent ths sums model =
     best_scan
       (\<lambda>i. let th = ths ! i; n = lcp (tsums th) sums in
          \<not> (\<not> ttools th \<or> tn th = 0 \<or> headerThread th) \<and> \<not> (int n < int (tn th) - 2 \<or> 2 * n \<le> tn th))
       (\<lambda>i b. let th = ths ! i; best = ths ! b; n = lcp (tsums th) sums; bestLCP = lcp (tsums best) sums in
          bestLCP < n \<or> n = bestLCP \<and> preferOnTie th best model)
       [0..<length ths] None"

text \<open>\<open>bestShared\<close> starts at zero, so a thread must share more than that to be a candidate.\<close>

definition mostShared :: "threadState list \<Rightarrow> 64 word list \<Rightarrow> int list \<Rightarrow> nat option" where
  "mostShared ths sums mass =
     (let full = last mass; shared = (\<lambda>i. mass ! (lcp (tsums (ths ! i)) sums - 1)) in
      if full \<le> 0 then None
      else
        case best_scan (\<lambda>i. lcp (tsums (ths ! i)) sums \<noteq> 0 \<and> 0 < shared i) (\<lambda>i b. shared b < shared i) [0..<length ths] None of
          None \<Rightarrow> None
        | Some b \<Rightarrow> if 2 * shared b < full then None else Some b)"

section \<open>Naming a thread\<close>

definition hex_digit :: "nat \<Rightarrow> char" where
  "hex_digit d = ''0123456789abcdef'' ! d"

text \<open>The six high bytes of the sum, in lower-case hex: twelve digits from bit 60 down to bit 16.\<close>

definition fingerprintID :: "64 word \<Rightarrow> string" where
  "fingerprintID s = ''p:'' @ map (\<lambda>i. hex_digit (unat (drop_bit (60 - 4 * i) s AND 15))) [0..<12]"

text \<open>\<open>newID\<close> can rename the thread that holds the primary id and clear a \<open>compacting\<close> flag.\<close>

definition newID :: "threadState list \<Rightarrow> 64 word list \<Rightarrow> bool \<Rightarrow> string \<Rightarrow> string \<times> threadState list" where
  "newID ths sums hasTools model =
     (let holder = find_thread Primary ths;
          rest =
            (let succ = best_scan (\<lambda>i. compacting (ths ! i) \<and> hasTools = ttools (ths ! i))
                          (\<lambda>i b. preferOnTie (ths ! i) (ths ! b) model) [0..<length ths] None
             in case succ of
                  Some i \<Rightarrow> (tid (ths ! i), ths[i := (ths ! i)\<lparr>compacting := False\<rparr>])
                | None \<Rightarrow> (fingerprintID (last sums), ths))
      in case holder of
           None \<Rightarrow> if \<not> hasPrefixThread ths then (Primary, ths) else rest
         | Some i \<Rightarrow>
             if hasTools \<and> \<not> ttools (ths ! i)
             then (Primary, ths[i := (ths ! i)\<lparr>tid := fingerprintID (tsum (ths ! i))\<rparr>])
             else rest)"

fun oldest_from :: "threadState list \<Rightarrow> nat list \<Rightarrow> nat \<Rightarrow> nat" where
  "oldest_from ths [] oldest = oldest"
| "oldest_from ths (i # is) oldest =
     oldest_from ths is (if tlast (ths ! i) < tlast (ths ! oldest) then i else oldest)"

definition add_thread :: "threadState \<Rightarrow> threadState list \<Rightarrow> threadState list" where
  "add_thread th ths =
     (let kept = (if maxThreadsPerSession \<le> int (length ths)
                  then let oldest = oldest_from ths [0..<length ths] 0
                       in take oldest ths @ drop (oldest + 1) ths
                  else ths)
      in kept @ [th])"

definition pruneLocked :: "instant \<Rightarrow> thread_tracker \<Rightarrow> thread_tracker" where
  "pruneLocked now t =
     (let kept = filter (\<lambda>(_, s). \<not> now - slast s > staleAfter) t
      in if maxSessions \<le> int (length kept) then [] else kept)"

section \<open>Resolve\<close>

definition blank_thread :: "string \<Rightarrow> threadState" where
  "blank_thread k = \<lparr>tid = k, tn = 0, tsum = 0, tsums = [], tlast = 0, ttools = False, tmodel = [], compacting = False\<rparr>"

text \<open>The last lines of \<open>Resolve\<close>: the request becomes its thread's last request.\<close>

definition record_tail ::
  "instant \<Rightarrow> 64 word list \<Rightarrow> bool \<Rightarrow> string \<Rightarrow> bool \<Rightarrow> nat \<Rightarrow> threadState list \<Rightarrow> threadState list" where
  "record_tail now sums hasTools model isComp i ths =
     ths[i := (ths ! i)\<lparr>tn := length sums, tsum := last sums, tsums := sums, tlast := now,
                        ttools := ttools (ths ! i) \<or> hasTools, tmodel := model, compacting := isComp\<rparr>]"

definition tools_count :: "gval \<Rightarrow> nat" where
  "tools_count root = (case gget ''tools'' root of Some (GArr _ vs) \<Rightarrow> length vs | _ \<Rightarrow> 0)"

text \<open>
  The two searches of \<open>Resolve\<close>, the side request test, the switch that names the thread, and the
  entry of the request into the thread found under that name or a new one.
\<close>

definition parent_search ::
  "string \<Rightarrow> 64 word list \<Rightarrow> bool \<Rightarrow> string \<Rightarrow> bool \<Rightarrow> threadState list \<Rightarrow> nat option" where
  "parent_search agentID sums hasTools model agentCompaction ths =
     (if longestPrefix ths sums \<noteq> None then None
      else if agentCompaction then compactionParent ths sums model
      else if hasTools \<and> agentID = [] then rewrittenTailParent ths sums model
      else None)"

definition side_parent :: "string \<Rightarrow> 64 word list \<Rightarrow> bool \<Rightarrow> bool \<Rightarrow> threadState list \<Rightarrow> nat option" where
  "side_parent agentID sums hasTools agentCompaction ths =
     (case longestPrefix ths sums of
        Some m \<Rightarrow> if agentID = [] \<and> ttools (ths ! m) \<and> \<not> hasTools \<and> \<not> agentCompaction then Some m else None
      | None \<Rightarrow> None)"

definition name_thread ::
  "string \<Rightarrow> 64 word list \<Rightarrow> bool \<Rightarrow> string \<Rightarrow> bool \<Rightarrow> threadState list \<Rightarrow> (string \<times> Source \<times> bool) \<times> threadState list" where
  "name_thread agentID sums hasTools model agentCompaction ths =
     (if agentID \<noteq> []
      then ((''a:'' @ agentID, SourceHeader,
             (case (find_thread (''a:'' @ agentID) ths, longestPrefix ths sums) of
                (Some k, Some m) \<Rightarrow> m \<noteq> k | _ \<Rightarrow> False)), ths)
      else if side_parent agentID sums hasTools agentCompaction ths \<noteq> None
      then ((fingerprintID (last sums), SourcePrefix, False), ths)
      else case longestPrefix ths sums of
             Some m \<Rightarrow> ((tid (ths ! m), SourcePrefix, False), ths)
           | None \<Rightarrow>
               (case parent_search agentID sums hasTools model agentCompaction ths of
                  Some c \<Rightarrow> ((tid (ths ! c), SourcePrefix, False), ths)
                | None \<Rightarrow> (case newID ths sums hasTools model of (k, ths') \<Rightarrow> ((k, SourcePrefix, False), ths'))))"

definition enter_thread ::
  "string \<Rightarrow> nat option \<Rightarrow> 64 word list \<Rightarrow> int list \<Rightarrow> threadState list \<Rightarrow> string option \<times> nat \<times> threadState list" where
  "enter_thread rid sideParent sums mass ths =
     (case find_thread rid ths of
        Some i \<Rightarrow> (None, i, ths)
      | None \<Rightarrow>
          ((case sideParent of
              Some m \<Rightarrow> Some (tid (ths ! m))
            | None \<Rightarrow> map_option (\<lambda>j. tid (ths ! j)) (mostShared ths sums mass)),
           length (add_thread (blank_thread rid) ths) - 1,
           add_thread (blank_thread rid) ths))"

text \<open>What \<open>Resolve\<close> does inside the lock to the threads of one session.\<close>

definition resolve_threads ::
  "instant \<Rightarrow> string \<Rightarrow> (64 word list \<times> int list) option \<Rightarrow> bool \<Rightarrow> string \<Rightarrow> bool \<Rightarrow> threadState list
   \<Rightarrow> Result \<times> threadState list" where
  "resolve_threads now agentID fp hasTools model agentCompaction ths =
     (case fp of
        None \<Rightarrow>
          (if agentID \<noteq> []
           then \<lparr>resID = ''a:'' @ agentID, resSource = SourceHeader, Disagree = False, Inherits = None\<rparr>
           else \<lparr>resID = Primary, resSource = SourceSession, Disagree = False, Inherits = None\<rparr>, ths)
      | Some (sums, mass) \<Rightarrow>
          let sideParent = side_parent agentID sums hasTools agentCompaction ths;
              ((rid, src, dis), ths1) = name_thread agentID sums hasTools model agentCompaction ths;
              (inh, i, ths2) = enter_thread rid sideParent sums mass ths1;
              isComp = (sideParent = None \<and> agentCompaction \<and> src = SourcePrefix)
          in (\<lparr>resID = rid, resSource = src, Disagree = dis, Inherits = inh\<rparr>,
              record_tail now sums hasTools model isComp i ths2))"

text \<open>A nil tracker is \<open>None\<close>.\<close>

definition Resolve ::
  "instant \<Rightarrow> string \<Rightarrow> string \<Rightarrow> gval \<Rightarrow> bool \<Rightarrow> thread_tracker option \<Rightarrow> Result \<times> thread_tracker option" where
  "Resolve now scope agentID root agentCompaction tracker =
     (case tracker of
        None \<Rightarrow> (\<lparr>resID = Primary, resSource = SourceSession, Disagree = False, Inherits = None\<rparr>, None)
      | Some t \<Rightarrow>
          if scope = []
          then (\<lparr>resID = Primary, resSource = SourceSession, Disagree = False, Inherits = None\<rparr>, Some t)
          else
            let (ths, t1) =
                  (case map_of t scope of
                     Some s \<Rightarrow> (threads s, t)
                   | None \<Rightarrow> ([], if maxSessions \<le> int (length t) then pruneLocked now t else t));
                (res, ths') = resolve_threads now agentID (fingerprint root) (tools_count root > 0) (gget_str ''model'' root)
                                agentCompaction ths
            in (res, Some (AList.update scope \<lparr>threads = ths', slast = now\<rparr> t1)))"

section \<open>The searches\<close>

lemma find_from_some: "find_from i k ths = Some j \<Longrightarrow> i \<le> j \<and> j - i < length ths \<and> tid (ths ! (j - i)) = k"
proof (induction ths arbitrary: i)
  case (Cons th ths)
  show ?case
  proof (cases "tid th = k")
    case False
    with Cons have "i + 1 \<le> j" "j - (i + 1) < length ths" "tid (ths ! (j - (i + 1))) = k" by auto
    moreover have "j - i = Suc (j - (i + 1))" using calculation(1) by simp
    ultimately show ?thesis by simp
  qed (use Cons in simp)
qed simp

lemma find_from_none: "find_from i k ths = None \<longleftrightarrow> k \<notin> tid ` set ths"
  by (induction ths arbitrary: i) auto

lemma find_thread_some: "find_thread k ths = Some j \<Longrightarrow> j < length ths \<and> tid (ths ! j) = k"
  using find_from_some [of 0 k ths j] by (simp add: find_thread_def)

lemma find_thread_none: "find_thread k ths = None \<longleftrightarrow> k \<notin> tid ` set ths"
  by (simp add: find_thread_def find_from_none)

lemma best_scan_append: "best_scan c b (xs @ ys) r = best_scan c b ys (best_scan c b xs r)"
  by (induction xs arbitrary: r) auto

lemma best_scan_mem: "best_scan c b is r = Some i \<Longrightarrow> r = Some i \<or> i \<in> set is \<and> c i"
  by (induction "is" arbitrary: r) (fastforce split: if_splits option.splits)+

lemma best_scan_upt_mem: "best_scan c b [0..<n] None = Some i \<Longrightarrow> i < n \<and> c i"
  using best_scan_mem [of c b "[0..<n]" None i] by auto

text \<open>The scan finds the first best candidate when \<open>better\<close> is a strict weak order.\<close>

definition first_best :: "(nat \<Rightarrow> bool) \<Rightarrow> (nat \<Rightarrow> nat \<Rightarrow> bool) \<Rightarrow> nat \<Rightarrow> nat \<Rightarrow> bool" where
  "first_best c b n i \<longleftrightarrow> i < n \<and> c i \<and> (\<forall>j < n. c j \<longrightarrow> \<not> b j i) \<and> (\<forall>j < i. c j \<longrightarrow> b i j)"

definition weak_order :: "(nat \<Rightarrow> nat \<Rightarrow> bool) \<Rightarrow> bool" where
  "weak_order b \<longleftrightarrow> (\<forall>x. \<not> b x x) \<and> (\<forall>x y z. b x y \<longrightarrow> b y z \<longrightarrow> b x z) \<and> (\<forall>x y z. \<not> b x y \<longrightarrow> \<not> b y z \<longrightarrow> \<not> b x z)"

lemma best_scan_first_best:
  assumes "weak_order b"
  shows "case best_scan c b [0..<n] None of None \<Rightarrow> \<forall>j < n. \<not> c j | Some i \<Rightarrow> first_best c b n i"
proof (induction n)
  case (Suc n)
  have irr: "\<not> b n n" and trans: "\<And>x y z. b x y \<Longrightarrow> b y z \<Longrightarrow> b x z"
    and neg: "\<And>x y z. \<not> b x y \<Longrightarrow> \<not> b y z \<Longrightarrow> \<not> b x z"
    using assms unfolding weak_order_def by blast+
  show ?case
  proof (cases "best_scan c b [0..<n] None")
    case None
    with Suc irr show ?thesis by (auto simp: best_scan_append first_best_def less_Suc_eq)
  next
    case (Some i)
    with Suc have "first_best c b n i" by simp
    then have i: "i < n" "c i" "\<And>j. j < n \<Longrightarrow> c j \<Longrightarrow> \<not> b j i" "\<And>j. j < i \<Longrightarrow> c j \<Longrightarrow> b i j"
      by (auto simp: first_best_def)
    show ?thesis
    proof (cases "c n \<and> b n i")
      case True
      have "\<not> b j n" "b n j" if "j < n" "c j" for j
        using trans [of j n i] neg [of n j i] True i(3) [OF that] by blast+
      with True Some irr show ?thesis by (auto simp: best_scan_append first_best_def less_Suc_eq)
    next
      case False
      with Some i show ?thesis by (auto simp: best_scan_append first_best_def less_Suc_eq)
    qed
  qed
qed simp

lemma first_best_unique:
  assumes "first_best c b n i" "first_best c b n j"
  shows "i = j"
  using assms unfolding first_best_def by (metis linorder_neqE_nat)

lemma best_scan_iff:
  assumes "weak_order b"
  shows "best_scan c b [0..<n] None = Some i \<longleftrightarrow> first_best c b n i"
proof
  assume "first_best c b n i"
  moreover from this have "i < n" "c i" by (simp_all add: first_best_def)
  ultimately show "best_scan c b [0..<n] None = Some i"
    using best_scan_first_best [OF assms, where c = c and n = n]
    by (cases "best_scan c b [0..<n] None") (auto dest: first_best_unique)
qed (use best_scan_first_best [OF assms, where c = c and n = n] in simp)

lemma longestPrefix_iff:
  "longestPrefix ths sums = Some i \<longleftrightarrow>
     first_best (\<lambda>i. continues sums (ths ! i))
       (\<lambda>i b. tn (ths ! b) < tn (ths ! i) \<or> tn (ths ! i) = tn (ths ! b) \<and> tlast (ths ! b) < tlast (ths ! i)) (length ths) i"
  unfolding longestPrefix_def by (rule best_scan_iff) (auto simp: weak_order_def)

section \<open>Invariant\<close>

definition thread_ok :: "threadState \<Rightarrow> bool" where
  "thread_ok th \<longleftrightarrow> tsums th \<noteq> [] \<and> tn th = length (tsums th) \<and> tsum th = last (tsums th)"

definition threads_ok :: "threadState list \<Rightarrow> bool" where
  "threads_ok ths \<longleftrightarrow>
     list_all thread_ok ths \<and> int (length ths) \<le> maxThreadsPerSession \<and> count_list (map tid ths) Primary \<le> 1"

definition tracker_ok :: "thread_tracker \<Rightarrow> bool" where
  "tracker_ok t \<longleftrightarrow>
     distinct (map fst t) \<and> int (length t) \<le> maxSessions \<and> list_all (\<lambda>(_, s). threads_ok (threads s)) t"

lemma count_list_update:
  "i < length xs \<Longrightarrow> xs ! i = x \<Longrightarrow> y \<noteq> x \<Longrightarrow> Suc (count_list (xs[i := y]) x) = count_list xs x"
  by (induction xs arbitrary: i) (auto simp: nth_Cons split: nat.splits)

lemma count_list_drop_one: "count_list (take i xs @ drop (Suc i) xs) x \<le> count_list xs x"
proof (induction xs arbitrary: i)
  case (Cons y ys)
  then show ?case using Cons.IH [of "i - 1"] by (cases i) auto
qed simp

lemma threads_ok_primary:
  assumes "threads_ok ths" "i < length ths" "j < length ths" "tid (ths ! i) = Primary" "tid (ths ! j) = Primary"
  shows "i = j"
proof (rule ccontr)
  assume "i \<noteq> j"
  have "Suc (count_list ((map tid ths)[i := ''x'']) Primary) = count_list (map tid ths) Primary"
    using assms(2,4) by (intro count_list_update) (auto simp: Primary_def)
  moreover have "Suc (count_list (((map tid ths)[i := ''x''])[j := ''x'']) Primary) = count_list ((map tid ths)[i := ''x'']) Primary"
    using assms(3,5) \<open>i \<noteq> j\<close> by (intro count_list_update) (auto simp: Primary_def)
  ultimately show False using assms(1) by (simp add: threads_ok_def)
qed

lemma fingerprintID_not_primary [simp]: "fingerprintID s \<noteq> Primary" "Primary \<noteq> fingerprintID s"
  by (simp_all add: fingerprintID_def Primary_def)

lemma newID_cases:
  assumes "newID ths sums hasTools model = (k, ths')"
  obtains (first) "k = Primary" "ths' = ths" "find_thread Primary ths = None"
    | (takeover) i where "k = Primary" "find_thread Primary ths = Some i" "hasTools" "\<not> ttools (ths ! i)"
        "ths' = ths[i := (ths ! i)\<lparr>tid := fingerprintID (tsum (ths ! i))\<rparr>]"
    | (successor) i where "k = tid (ths ! i)" "i < length ths" "compacting (ths ! i)" "hasTools = ttools (ths ! i)"
        "ths' = ths[i := (ths ! i)\<lparr>compacting := False\<rparr>]"
    | (own) "k = fingerprintID (last sums)" "ths' = ths"
proof -
  let ?succ = "best_scan (\<lambda>i. compacting (ths ! i) \<and> hasTools = ttools (ths ! i))
                          (\<lambda>i b. preferOnTie (ths ! i) (ths ! b) model) [0..<length ths] None"
  have succ: "i < length ths \<and> compacting (ths ! i) \<and> hasTools = ttools (ths ! i)" if "?succ = Some i" for i
    using best_scan_upt_mem [OF that] by simp
  show thesis
    using assms unfolding newID_def Let_def
    by (auto split: option.splits if_splits intro: that dest: succ)
qed

lemma add_thread_last:
  "length (add_thread th ths) - 1 < length (add_thread th ths)" "add_thread th ths ! (length (add_thread th ths) - 1) = th"
  by (simp_all add: add_thread_def Let_def)

lemma name_thread_threads:
  assumes "name_thread agentID sums hasTools model ac ths = (r, ths1)"
  shows "ths1 = ths \<or> (\<exists>k. newID ths sums hasTools model = (k, ths1))"
  using assms by (auto simp: name_thread_def split: if_splits option.splits prod.splits)

lemma record_tail_ok:
  assumes "i < length ths" "\<And>j. j < length ths \<Longrightarrow> j \<noteq> i \<Longrightarrow> thread_ok (ths ! j)" "sums \<noteq> []"
    and "int (length ths) \<le> maxThreadsPerSession" "count_list (map tid ths) Primary \<le> 1"
  shows "threads_ok (record_tail now sums hasTools model c i ths)"
proof -
  have "map tid (record_tail now sums hasTools model c i ths) = map tid ths"
    using assms(1) list_update_id [of "map tid ths" i] by (simp add: record_tail_def map_update)
  then show ?thesis
    using assms by (auto simp: threads_ok_def list_all_length record_tail_def nth_list_update thread_ok_def)
qed

lemma oldest_from_less: "old < n \<Longrightarrow> list_all (\<lambda>i. i < n) is \<Longrightarrow> oldest_from ths is old < n"
  by (induction "is" arbitrary: old) auto

lemma add_thread_ok:
  assumes "threads_ok ths" "tid th = Primary \<Longrightarrow> Primary \<notin> tid ` set ths"
  shows "int (length (add_thread th ths)) \<le> maxThreadsPerSession" "count_list (map tid (add_thread th ths)) Primary \<le> 1"
    "j < length (add_thread th ths) \<Longrightarrow> j \<noteq> length (add_thread th ths) - 1 \<Longrightarrow> thread_ok (add_thread th ths ! j)"
proof -
  define old where "old = oldest_from ths [0..<length ths] 0"
  define kept where "kept = (if maxThreadsPerSession \<le> int (length ths) then take old ths @ drop (Suc old) ths else ths)"
  have eq: "add_thread th ths = kept @ [th]" by (simp add: add_thread_def kept_def old_def Let_def)
  have sub: "set kept \<subseteq> set ths" by (auto simp: kept_def dest: in_set_takeD in_set_dropD)
  have "count_list (map tid kept) Primary \<le> count_list (map tid ths) Primary"
    using count_list_drop_one [of old "map tid ths" Primary] by (simp add: kept_def take_map drop_map)
  then show "count_list (map tid (add_thread th ths)) Primary \<le> 1"
    using assms sub unfolding eq by (auto simp: threads_ok_def count_list_0_iff)
  show "int (length (add_thread th ths)) \<le> maxThreadsPerSession"
  proof -
    have "ths \<noteq> [] \<Longrightarrow> old < length ths" unfolding old_def by (rule oldest_from_less) (auto simp: list_all_iff)
    moreover have "ths \<noteq> []" if "maxThreadsPerSession \<le> int (length ths)" using that by (auto simp: maxThreadsPerSession_def)
    ultimately show ?thesis using assms(1) unfolding eq by (auto simp: threads_ok_def kept_def)
  qed
  show "thread_ok (add_thread th ths ! j)" if "j < length (add_thread th ths)" "j \<noteq> length (add_thread th ths) - 1"
  proof -
    have "j < length kept" using that unfolding eq by auto
    moreover from this have "kept ! j \<in> set ths" using sub nth_mem by blast
    ultimately show ?thesis using assms(1) unfolding eq by (simp add: threads_ok_def list_all_iff nth_append)
  qed
qed

lemma newID_ok:
  assumes "threads_ok ths" "newID ths sums hasTools model = (k, ths')"
  shows "threads_ok ths'"
proof -
  have upd: "list_all thread_ok (ths[i := th])" if "i < length ths" "thread_ok th" for i th
    using assms(1) that by (simp add: threads_ok_def list_all_length nth_list_update)
  have ok: "thread_ok (ths ! i)" if "i < length ths" for i using assms(1) that by (simp add: threads_ok_def list_all_length)
  from assms(2) show ?thesis
  proof (cases rule: newID_cases)
    case (takeover i)
    then have i: "i < length ths" "tid (ths ! i) = Primary" using find_thread_some by blast+
    have "Suc (count_list ((map tid ths)[i := fingerprintID (tsum (ths ! i))]) Primary) = count_list (map tid ths) Primary"
      using i by (intro count_list_update) auto
    then show ?thesis
      using assms(1) upd [OF i(1)] ok [OF i(1)] takeover(5) by (auto simp: threads_ok_def map_update thread_ok_def)
  next
    case (successor i)
    moreover have "map tid (ths[i := (ths ! i)\<lparr>compacting := False\<rparr>]) = map tid ths"
      using successor(2) list_update_id [of "map tid ths" i] by (simp add: map_update)
    ultimately show ?thesis
      using assms(1) upd [of i] ok [of i] by (auto simp: threads_ok_def thread_ok_def)
  qed (use assms(1) in auto)
qed

lemma resolve_threads_eq:
  assumes "name_thread agentID sums hasTools model ac ths = ((rid, src, dis), ths1)"
    "enter_thread rid (side_parent agentID sums hasTools ac ths) sums mass ths1 = (inh, i, ths2)"
  shows "resolve_threads now agentID (Some (sums, mass)) hasTools model ac ths =
     (\<lparr>resID = rid, resSource = src, Disagree = dis, Inherits = inh\<rparr>,
      record_tail now sums hasTools model
        (side_parent agentID sums hasTools ac ths = None \<and> ac \<and> src = SourcePrefix) i ths2)"
  using assms by (simp add: resolve_threads_def Let_def)

lemma resolve_threads_ok:
  assumes ok: "threads_ok ths" and fp: "\<And>sums mass. fp = Some (sums, mass) \<Longrightarrow> sums \<noteq> []"
  shows "threads_ok (snd (resolve_threads now agentID fp hasTools model ac ths))"
proof (cases fp)
  case (Some f)
  obtain sums mass where f: "fp = Some (sums, mass)" using Some by (cases f) auto
  obtain rid src dis ths1 where n: "name_thread agentID sums hasTools model ac ths = ((rid, src, dis), ths1)"
    by (metis prod.collapse)
  have ok1: "threads_ok ths1" using name_thread_threads [OF n] newID_ok [OF ok] ok by blast
  show ?thesis
  proof (cases "find_thread rid ths1")
    case None
    let ?a = "add_thread (blank_thread rid) ths1"
    have "tid (blank_thread rid) = Primary \<Longrightarrow> Primary \<notin> tid ` set ths1"
      using None by (simp add: find_thread_none blank_thread_def)
    note add = add_thread_ok [OF ok1 this]
    have "threads_ok (record_tail now sums hasTools model c (length ?a - 1) ?a)" for c
      using add add_thread_last(1) fp [OF f] by (intro record_tail_ok) auto
    then show ?thesis by (simp add: f resolve_threads_eq [OF n] enter_thread_def None)
  next
    case (Some i)
    have "threads_ok (record_tail now sums hasTools model c i ths1)" for c
      using ok1 find_thread_some [OF Some] fp [OF f] by (intro record_tail_ok) (auto simp: threads_ok_def list_all_length)
    then show ?thesis by (simp add: f resolve_threads_eq [OF n] enter_thread_def Some)
  qed
qed (use ok in \<open>simp add: resolve_threads_def\<close>)

lemma fingerprint_nonempty: "fingerprint root = Some (sums, mass) \<Longrightarrow> sums \<noteq> []"
  by (auto simp: fingerprint_def Let_def split: gval.splits if_splits option.splits)

lemma update_length: "length (AList.update k v al) = (if k \<in> fst ` set al then length al else Suc (length al))"
  by (induction al) auto

lemma list_all_update:
  "list_all P al \<Longrightarrow> P (k, v) \<Longrightarrow> list_all P (AList.update k v al)"
  by (induction al) auto

lemma threads_ok_Nil: "threads_ok []"
  by (simp add: threads_ok_def maxThreadsPerSession_def)

lemma pruneLocked_ok:
  assumes "tracker_ok t"
  shows "tracker_ok (pruneLocked now t)" "int (length (pruneLocked now t)) < maxSessions"
  using assms by (auto simp: tracker_ok_def pruneLocked_def Let_def list_all_iff distinct_map_filter not_le maxSessions_def)

definition session_threads :: "string \<Rightarrow> thread_tracker \<Rightarrow> threadState list" where
  "session_threads scope t = (case map_of t scope of Some s \<Rightarrow> threads s | None \<Rightarrow> [])"

definition admit :: "instant \<Rightarrow> string \<Rightarrow> thread_tracker \<Rightarrow> thread_tracker" where
  "admit now scope t =
     (case map_of t scope of Some _ \<Rightarrow> t | None \<Rightarrow> if maxSessions \<le> int (length t) then pruneLocked now t else t)"

lemma Resolve_eq:
  assumes "scope \<noteq> []"
    "resolve_threads now agentID (fingerprint root) (tools_count root > 0) (gget_str ''model'' root) ac (session_threads scope t) = (res, ths')"
  shows "Resolve now scope agentID root ac (Some t) =
     (res, Some (AList.update scope \<lparr>threads = ths', slast = now\<rparr> (admit now scope t)))"
  using assms by (cases "map_of t scope") (simp_all add: Resolve_def session_threads_def admit_def)

lemma session_threads_ok: "tracker_ok t \<Longrightarrow> threads_ok (session_threads scope t)"
  using threads_ok_Nil by (auto simp: session_threads_def tracker_ok_def list_all_iff split: option.split dest: map_of_SomeD)

lemma admit_ok:
  assumes "tracker_ok t"
  shows "tracker_ok (admit now scope t)" "scope \<in> fst ` set (admit now scope t) \<or> int (length (admit now scope t)) < maxSessions"
  using assms pruneLocked_ok [OF assms]
  by (auto simp: admit_def tracker_ok_def split: option.splits dest: map_of_SomeD intro: rev_image_eqI)

lemma Resolve_ok:
  assumes "tracker_ok t" "Resolve now scope agentID root ac (Some t) = (res, t')"
  shows "\<exists>t2. t' = Some t2 \<and> tracker_ok t2"
proof (cases "scope = []")
  case False
  obtain r ths' where r: "resolve_threads now agentID (fingerprint root) (tools_count root > 0) (gget_str ''model'' root) ac
      (session_threads scope t) = (r, ths')"
    by (cases "resolve_threads now agentID (fingerprint root) (tools_count root > 0) (gget_str ''model'' root) ac (session_threads scope t)")
  have "threads_ok (snd (resolve_threads now agentID (fingerprint root) (tools_count root > 0) (gget_str ''model'' root) ac
      (session_threads scope t)))"
    by (rule resolve_threads_ok [OF session_threads_ok [OF assms(1)]]) (rule fingerprint_nonempty)
  then have "threads_ok ths'" by (simp only: r snd_conv)
  then have "tracker_ok (AList.update scope \<lparr>threads = ths', slast = now\<rparr> (admit now scope t))"
    using admit_ok [OF assms(1), where now = now and scope = scope]
    by (auto simp: tracker_ok_def update_length distinct_update intro!: list_all_update)
  with assms(2) Resolve_eq [OF False r] show ?thesis by auto
qed (use assms in \<open>auto simp: Resolve_def\<close>)

section \<open>Side requests\<close>

text \<open>
  A request of the agent: the clock, the thread header, the parsed body and whether it is the agent's
  own compaction request.
\<close>

record thread_request =
  at_time :: instant
  agent_header :: string
  root_of :: gval
  is_compaction :: bool

definition resolve_request :: "string \<Rightarrow> thread_request \<Rightarrow> thread_tracker option \<Rightarrow> Result \<times> thread_tracker option" where
  "resolve_request scope r t = Resolve (at_time r) scope (agent_header r) (root_of r) (is_compaction r) t"

definition toolless :: "thread_request \<Rightarrow> bool" where
  "toolless r \<longleftrightarrow> tools_count (root_of r) = 0 \<and> \<not> is_compaction r"

text \<open>The main agent's thread, at position \<open>i\<close>.\<close>

definition main_at :: "threadState list \<Rightarrow> nat \<Rightarrow> threadState \<Rightarrow> bool" where
  "main_at ths i th \<longleftrightarrow> i < length ths \<and> ths ! i = th \<and> tid th = Primary \<and> ttools th"

text \<open>Every other thread of \<open>ths'\<close> that \<open>sums\<close> continues is an old one that was shorter than the main thread.\<close>

definition main_longest :: "64 word list \<Rightarrow> threadState list \<Rightarrow> nat \<Rightarrow> bool" where
  "main_longest sums ths i \<longleftrightarrow> (\<forall>j < length ths. j \<noteq> i \<and> continues sums (ths ! j) \<longrightarrow> tn (ths ! j) < tn (ths ! i))"

lemma longestPrefix_main:
  "i < length ths \<Longrightarrow> continues sums (ths ! i) \<Longrightarrow> main_longest sums ths i \<Longrightarrow> longestPrefix ths sums = Some i"
  unfolding longestPrefix_iff first_best_def main_longest_def
proof (intro conjI allI impI)
  fix j assume i: "i < length ths" and long: "\<forall>j < length ths. j \<noteq> i \<and> continues sums (ths ! j) \<longrightarrow> tn (ths ! j) < tn (ths ! i)"
  { assume "j < length ths" "continues sums (ths ! j)"
    with long show "\<not> (tn (ths ! i) < tn (ths ! j) \<or> tn (ths ! j) = tn (ths ! i) \<and> tlast (ths ! i) < tlast (ths ! j))"
      by (cases "j = i") fastforce+ }
  { assume "j < i" "continues sums (ths ! j)"
    with i long show "tn (ths ! j) < tn (ths ! i) \<or> tn (ths ! i) = tn (ths ! j) \<and> tlast (ths ! j) < tlast (ths ! i)"
      by (metis less_trans less_irrefl) }
qed

lemma main_found: "main_at ths i th \<Longrightarrow> \<exists>j. find_thread Primary ths = Some j"
  using find_thread_none [of Primary ths] nth_mem [of i ths] unfolding main_at_def by (metis image_eqI option.exhaust)

lemma toolless_name:
  assumes ok: "threads_ok ths" and main: "main_at ths i th"
    and n: "name_thread agentID sums False model False ths = ((rid, src, dis), ths1)"
  shows "rid \<noteq> Primary \<and> length ths1 = length ths \<and> ths1 ! i = th
     \<and> (\<forall>j < length ths. tn (ths1 ! j) = tn (ths ! j) \<and> tsum (ths1 ! j) = tsum (ths ! j))"
proof -
  have other: "tid (ths ! m) \<noteq> Primary \<and> m \<noteq> i" if "m < length ths" "\<not> ttools (ths ! m)" for m
    using threads_ok_primary [OF ok that(1), of i] main that by (auto simp: main_at_def)
  have m: "m < length ths" if "longestPrefix ths sums = Some m" for m
    using that by (simp add: longestPrefix_iff first_best_def)
  consider (header) "rid = ''a:'' @ agentID" "ths1 = ths" | (side) "rid = fingerprintID (last sums)" "ths1 = ths"
    | (match) m where "longestPrefix ths sums = Some m" "\<not> ttools (ths ! m)" "rid = tid (ths ! m)" "ths1 = ths"
    | (new) "newID ths sums False model = (rid, ths1)"
  proof (cases "agentID = []")
    case True
    show thesis
    proof (cases "longestPrefix ths sums")
      case None
      with n True new show thesis
        by (cases "newID ths sums False model") (simp add: name_thread_def side_parent_def parent_search_def)
    next
      case (Some m)
      with n True have "ttools (ths ! m) \<Longrightarrow> rid = fingerprintID (last sums) \<and> ths1 = ths"
        and "\<not> ttools (ths ! m) \<Longrightarrow> rid = tid (ths ! m) \<and> ths1 = ths"
        by (auto simp: name_thread_def side_parent_def)
      with Some side match show thesis by blast
    qed
  next
    case False
    with n have "rid = ''a:'' @ agentID \<and> ths1 = ths" by (auto simp: name_thread_def)
    with header show thesis by blast
  qed
  then show ?thesis
  proof cases
    case new
    then show ?thesis
    proof (cases rule: newID_cases)
      case first
      with main_found [OF main] show ?thesis by simp
    next
      case (successor j)
      with other [of j] main show ?thesis by (auto simp: main_at_def nth_list_update)
    qed (use main in \<open>auto simp: main_at_def\<close>)
  next
    case (match j)
    with other [OF m [OF match(1)]] main show ?thesis by (simp add: main_at_def)
  qed (use main in \<open>simp_all add: main_at_def\<close>, simp add: Primary_def)
qed

lemma toolless_keeps_main:
  assumes ok: "threads_ok ths" and main: "main_at ths i th" and room: "int (length ths) < maxThreadsPerSession"
    and r: "resolve_threads now agentID fp False model False ths = (res, ths')"
    and long: "main_longest next ths i"
    and fresh: "\<And>sums mass. fp = Some (sums, mass) \<Longrightarrow> \<not> (length sums \<le> length next \<and> next ! (length sums - 1) = last sums)"
  shows "main_at ths' i th \<and> length ths' \<le> Suc (length ths) \<and> main_longest next ths' i"
proof (cases fp)
  case None
  with r main long show ?thesis by (simp add: resolve_threads_def)
next
  case (Some f)
  then obtain sums mass where f: "fp = Some (sums, mass)" by (cases f) auto
  obtain rid src dis ths1 where n: "name_thread agentID sums False model False ths = ((rid, src, dis), ths1)"
    by (metis prod.collapse)
  note t = toolless_name [OF ok main n]
  have i: "i < length ths" and th: "ths ! i = th" "tid th = Primary" "ttools th" using main by (auto simp: main_at_def)
  obtain inh j ths2 where e: "enter_thread rid (side_parent agentID sums False False ths) sums mass ths1 = (inh, j, ths2)"
    by (metis prod.collapse)
  have ths': "ths' = record_tail now sums False model False j ths2"
    using r unfolding f resolve_threads_eq [OF n e] by simp
  have add: "add_thread (blank_thread rid) ths1 = ths1 @ [blank_thread rid]" using room t by (simp add: add_thread_def)
  have j: "j \<noteq> i \<and> j < length ths2 \<and> length ths \<le> length ths2 \<and> length ths2 \<le> Suc (length ths) \<and> ths2 ! i = th
     \<and> (\<forall>k < length ths2. k \<noteq> j \<longrightarrow> k < length ths \<and> tn (ths2 ! k) = tn (ths ! k) \<and> tsum (ths2 ! k) = tsum (ths ! k))"
  proof (cases "find_thread rid ths1")
    case None
    then have "ths2 = ths1 @ [blank_thread rid]" "j = length ths1" using e unfolding enter_thread_def add by auto
    with t i show ?thesis by (auto simp: nth_append less_Suc_eq)
  next
    case (Some k)
    with e t i th find_thread_some [OF Some] show ?thesis by (auto simp: enter_thread_def)
  qed
  have "\<not> continues next (ths' ! j)"
    using fresh [OF f] j by (auto simp: ths' record_tail_def continues_def)
  moreover have "tn (ths' ! k) = tn (ths ! k)" "tsum (ths' ! k) = tsum (ths ! k)" "k < length ths"
    if "k < length ths'" "k \<noteq> j" for k
    using that j by (auto simp: ths' record_tail_def)
  moreover have "i < length ths'" using i j by (auto simp: ths' record_tail_def main_at_def)
  ultimately have "main_longest next ths' i"
    using long j unfolding main_longest_def continues_def by (metis (no_types, lifting))
  moreover have "main_at ths' i th" "length ths' \<le> Suc (length ths)"
    using th j i by (auto simp: main_at_def ths' record_tail_def)
  ultimately show ?thesis by simp
qed

fun run_requests :: "string \<Rightarrow> thread_request list \<Rightarrow> thread_tracker option \<Rightarrow> thread_tracker option" where
  "run_requests scope [] t = t"
| "run_requests scope (r # rs) t = run_requests scope rs (snd (resolve_request scope r t))"

lemma run_requests_ok: "tracker_ok t \<Longrightarrow> \<exists>t'. run_requests scope rs (Some t) = Some t' \<and> tracker_ok t'"
proof (induction rs arbitrary: t)
  case (Cons r rs)
  obtain res t1 where "resolve_request scope r (Some t) = (res, t1)" by fastforce
  moreover from this obtain t2 where "t1 = Some t2" "tracker_ok t2"
    using Resolve_ok [OF Cons.prems] unfolding resolve_request_def by blast
  ultimately show ?case using Cons.IH by simp
qed simp

lemma session_threads_update: "session_threads scope (AList.update scope s t) = threads s"
  by (simp add: session_threads_def update_conv')

text \<open>Whether the message list \<open>next\<close> extends that of the request \<open>r\<close>.\<close>

definition extends :: "64 word list \<Rightarrow> thread_request \<Rightarrow> bool" where
  "extends next r =
     (case fingerprint (root_of r) of
        None \<Rightarrow> False
      | Some (sums, _) \<Rightarrow> length sums \<le> length next \<and> next ! (length sums - 1) = last sums)"

lemma side_requests_keep_main:
  assumes "scope \<noteq> []" "tracker_ok t" "main_at (session_threads scope t) i th" "main_longest next (session_threads scope t) i"
    "list_all (\<lambda>r. toolless r \<and> \<not> extends next r) rs"
    "int (length (session_threads scope t)) + int (length rs) \<le> maxThreadsPerSession"
  shows "\<exists>t'. run_requests scope rs (Some t) = Some t' \<and> tracker_ok t'
     \<and> main_at (session_threads scope t') i th \<and> main_longest next (session_threads scope t') i"
  using assms
proof (induction rs arbitrary: t)
  case (Cons r rs)
  let ?ths = "session_threads scope t"
  obtain res ths' where r: "resolve_threads (at_time r) (agent_header r) (fingerprint (root_of r)) (tools_count (root_of r) > 0)
      (gget_str ''model'' (root_of r)) (is_compaction r) ?ths = (res, ths')"
    by (cases "resolve_threads (at_time r) (agent_header r) (fingerprint (root_of r)) (tools_count (root_of r) > 0)
      (gget_str ''model'' (root_of r)) (is_compaction r) ?ths")
  define t1 where "t1 = AList.update scope \<lparr>threads = ths', slast = at_time r\<rparr> (admit (at_time r) scope t)"
  have eq: "resolve_request scope r (Some t) = (res, Some t1)"
    unfolding resolve_request_def t1_def by (rule Resolve_eq [OF Cons.prems(1) r])
  then have ok: "tracker_ok t1" using Resolve_ok [OF Cons.prems(2)] by (fastforce simp: resolve_request_def)
  have ths: "session_threads scope t1 = ths'" by (simp add: t1_def session_threads_update)
  have tl: "toolless r" "\<not> extends next r" using Cons.prems(5) by simp_all
  then have q: "resolve_threads (at_time r) (agent_header r) (fingerprint (root_of r)) False (gget_str ''model'' (root_of r)) False ?ths = (res, ths')"
    using r by (simp add: toolless_def)
  have "main_at ths' i th \<and> length ths' \<le> Suc (length ?ths) \<and> main_longest next ths' i"
  proof (rule toolless_keeps_main [OF session_threads_ok [OF Cons.prems(2)] Cons.prems(3) _ q Cons.prems(4)])
    show "\<not> (length sums \<le> length next \<and> next ! (length sums - 1) = last sums)"
      if "fingerprint (root_of r) = Some (sums, mass)" for sums mass
      using tl(2) that by (simp add: extends_def)
  qed (use Cons.prems(6) in simp)
  with Cons.IH [OF Cons.prems(1) ok] Cons.prems(5,6) show ?case by (simp add: eq ths)
qed simp

lemma fingerprint_messages:
  "gget ''messages'' root = Some (GArr raw ms) \<Longrightarrow> gget_str ''previous_response_id'' root = [] \<Longrightarrow> ms \<noteq> []
   \<Longrightarrow> fingerprint root = Some (sums_from fnv_offset ms, mass_from 0 ms)"
  by (cases root; cases ms) (auto simp: fingerprint_def Let_def gget_def)

lemma continued:
  assumes "ms \<noteq> []" "tn th = length ms" "tsum th = last (sums_from fnv_offset ms)"
  shows "continues (sums_from fnv_offset (map aged_message ms @ ns)) th"
proof -
  have "sums_from fnv_offset ms \<noteq> []" using assms(1) by (metis length_sums length_0_conv)
  then show ?thesis
    using assms by (auto simp: continues_def resent_prefix nth_append last_conv_nth)
qed

text \<open>
  C12: side requests do not split the main agent's thread. Let the main agent's thread be the primary
  one of the session, and let its next turn have tools, no thread header and no previous_response_id,
  and resend the thread's messages as \<open>aged_message\<close> allows (breakpoints moved, tool results cleared,
  one-block contents as plain strings), followed by anything; of the threads this turn extends, the
  primary one is the longest. Let any requests come in between that have no tools, are no agent
  compaction, and whose conversation the main turn does not extend, with or without a thread header,
  and so few that the session holds at most 64 threads. Then that turn is resolved to the primary
  thread.
\<close>

theorem side_requests_never_split_main:
  assumes "scope \<noteq> []" "tracker_ok t" "main_at (session_threads scope t) i th"
    and "tsums th = sums_from fnv_offset ms"
    and "gget ''messages'' root = Some (GArr raw (map aged_message ms @ ns))" "gget_str ''previous_response_id'' root = []"
    and "tools_count root > 0"
    and "next = sums_from fnv_offset (map aged_message ms @ ns)"
    and "main_longest next (session_threads scope t) i"
    and "list_all (\<lambda>r. toolless r \<and> \<not> extends next r) side"
    and "int (length (session_threads scope t)) + int (length side) \<le> maxThreadsPerSession"
  shows "fst (Resolve now scope [] root ac (run_requests scope side (Some t)))
     = \<lparr>resID = Primary, resSource = SourcePrefix, Disagree = False, Inherits = None\<rparr>"
proof -
  obtain t' where t': "run_requests scope side (Some t) = Some t'" "tracker_ok t'"
    "main_at (session_threads scope t') i th" "main_longest next (session_threads scope t') i"
    using side_requests_keep_main [OF assms(1-3) assms(9-11)] by blast
  let ?ths = "session_threads scope t'"
  have th: "i < length ?ths" "?ths ! i = th" "tid th = Primary" "ttools th" using t'(3) by (auto simp: main_at_def)
  then have "thread_ok th" using session_threads_ok [OF t'(2), of scope] by (auto simp: threads_ok_def list_all_length)
  then have "ms \<noteq> []" "tn th = length ms" "tsum th = last (sums_from fnv_offset ms)"
    using assms(4) by (auto simp: thread_ok_def)
  then have "continues next th" and ne: "ms \<noteq> []" using continued [of ms th ns] assms(8) by auto
  then have m: "longestPrefix ?ths next = Some i" using longestPrefix_main [OF th(1) _ t'(4)] th(2) by simp
  have fp: "fingerprint root = Some (next, mass_from 0 (map aged_message ms @ ns))"
    unfolding assms(8) using assms(5,6) ne by (intro fingerprint_messages) auto
  have n: "name_thread [] next True model ac ?ths = ((Primary, SourcePrefix, False), ?ths)" for model
    using m th by (simp add: name_thread_def side_parent_def)
  obtain j where f: "find_thread Primary ?ths = Some j" using main_found [OF t'(3)] by blast
  have e: "enter_thread Primary sp next mass ?ths = (None, j, ?ths)" for sp mass by (simp add: enter_thread_def f)
  have "fst (resolve_threads now [] (fingerprint root) (tools_count root > 0) model ac ?ths)
      = \<lparr>resID = Primary, resSource = SourcePrefix, Disagree = False, Inherits = None\<rparr>" for model
    using assms(7) by (simp add: fp resolve_threads_eq [OF n e])
  then show ?thesis unfolding t'(1)
    by (cases "resolve_threads now [] (fingerprint root) (tools_count root > 0) (gget_str ''model'' root) ac ?ths")
      (metis Resolve_eq [OF assms(1)] fst_conv)
qed

definition turn0 :: gval where
  "turn0 = GObj ''{}'' [(''cache_control'', GLit ''x'' ''x'')]"

definition lit :: "string \<Rightarrow> gval" where
  "lit x = GLit x x"

definition body_of :: "nat \<Rightarrow> gval list \<Rightarrow> gval" where
  "body_of tools ms = GObj ''{}'' [(''tools'', GArr ''[]'' (replicate tools (GLit ''t'' ''t''))), (''messages'', GArr ''[]'' ms)]"

definition main_turn :: thread_tracker where
  "main_turn = the (snd (Resolve 5 ''s'' [] (body_of 1 [turn0]) False (Some New)))"

definition title_request :: thread_request where
  "title_request = \<lparr>at_time = 6, agent_header = [], root_of = body_of 0 [turn0, lit ''t''], is_compaction = False\<rparr>"

theorem side_requests_never_split_main_witness:
  "resID (fst (Resolve 7 ''s'' [] (body_of 1 [aged_message (turn0), lit ''b'']) False
     (run_requests ''s'' [title_request] (Some main_turn)))) = Primary
   \<and> resID (fst (resolve_request ''s'' title_request (Some main_turn))) \<noteq> Primary"
proof -
  let ?root = "body_of 1 [aged_message (turn0), lit ''b'']"
  let ?next = "sums_from fnv_offset (map aged_message [turn0] @ [lit ''b''])"
  have "tracker_ok main_turn" "main_at (session_threads ''s'' main_turn) 0 (session_threads ''s'' main_turn ! 0)"
    "tsums (session_threads ''s'' main_turn ! 0) = sums_from fnv_offset [turn0]"
    "gget ''messages'' ?root = Some (GArr ''[]'' (map aged_message [turn0] @ [lit ''b'']))"
    "gget_str ''previous_response_id'' ?root = []" "tools_count ?root > 0"
    "main_longest ?next (session_threads ''s'' main_turn) 0"
    "list_all (\<lambda>r. toolless r \<and> \<not> extends ?next r) [title_request]"
    "int (length (session_threads ''s'' main_turn)) + int (length [title_request]) \<le> maxThreadsPerSession"
    by code_simp+
  from side_requests_never_split_main [OF _ this(1-6) refl this(7-9), of 7 False]
  moreover have "resID (fst (resolve_request ''s'' title_request (Some main_turn))) \<noteq> Primary" by code_simp
  ultimately show ?thesis by simp
qed

fun run_all :: "(string \<times> thread_request) list \<Rightarrow> thread_tracker option \<Rightarrow> thread_tracker option" where
  "run_all [] t = t"
| "run_all ((scope, r) # rs) t = run_all rs (snd (resolve_request scope r t))"

lemma run_all_ok: "tracker_ok t \<Longrightarrow> \<exists>t'. run_all rs (Some t) = Some t' \<and> tracker_ok t'"
proof (induction rs arbitrary: t)
  case (Cons x rs)
  obtain scope r where x: "x = (scope, r)" by (cases x)
  obtain res t1 where "resolve_request scope r (Some t) = (res, t1)" by (cases "resolve_request scope r (Some t)")
  moreover from this obtain t2 where "t1 = Some t2" "tracker_ok t2"
    using Resolve_ok [OF Cons.prems] unfolding resolve_request_def by blast
  ultimately show ?case using Cons.IH by (simp add: x)
qed simp

text \<open>
  The tracker stays bounded whatever is sent: from a new tracker, any sequence of requests, of
  any sessions, leaves at most 20000 sessions of at most 64 threads each, with at most one primary
  thread per session, each session under one key, and every thread with the fingerprint of its last
  message list.
\<close>

theorem thread_tracker_bounded: "\<exists>t. run_all rs (Some New) = Some t \<and> tracker_ok t"
  by (rule run_all_ok) (simp add: tracker_ok_def New_def maxSessions_def)

text \<open>
  A thread other than the primary is named after its first request. A request without tools that
  resends exactly that list is named the same, so the side request is recorded on the main thread
  itself.
\<close>

definition two_mains :: thread_tracker where
  "two_mains = the (snd (Resolve 6 ''s'' [] (body_of 1 [lit ''b'']) False (Some main_turn)))"

lemma side_recorded_on_its_parent:
  "(case Resolve 9 ''s'' [] (body_of 0 [lit ''b'']) False (Some two_mains) of
      (res, t') \<Rightarrow>
        side_parent [] (sums_from fnv_offset [lit ''b'']) False False (session_threads ''s'' two_mains) = Some 1
        \<and> resID res = tid (session_threads ''s'' two_mains ! 1)
        \<and> map tlast (session_threads ''s'' two_mains) = [5, 6]
        \<and> map tlast (session_threads ''s'' (the t')) = [5, 9])"
  by code_simp

end
