(* ===== verification/Summarize.thy ===== *)
theory Summarize
  imports Summary_Text Thread_Tracker
begin

text \<open>
  The summarize offloader: \<open>src/components/offload/summarize.go\<close>, \<open>summarize_inline.go\<close>,
  \<open>summarize_async.go\<close> and the checkpoint part of \<open>state.go\<close>. A pass either leaves the transcript or
  splices one summary into it: a standing checkpoint of the thread, one that a background call just
  wrote, or, without a session, a fresh one. The background call is a job of the world that a later
  step finishes. Arguments are the JSON codecs of the stored records, the callbacks of the context,
  the model, the digest of a span, and what happens while a turn waits for a job. Log lines, the
  wait-time metric and the dashboard rows of a deferred call are left out.
\<close>

section \<open>Records\<close>

record sumCheckpoint =
  SummaryMsg :: string
  CoveredCount :: int
  CoveredHash :: string
  CpKey :: string
  Reserved :: bool

record deferredCall =
  dcModel :: string
  dcIn :: int
  dcOut :: int
  dcCacheWrite :: int
  dcCacheRead :: int
  dcComponent :: string
  dcPath :: string
  dcTrigger :: string
  dcBilledElsewhere :: bool

record deferredUsage =
  duModel :: string
  duIn :: int
  duOut :: int
  duCacheWrite :: int
  duCacheRead :: int
  duCalls :: "deferredCall list"

record Summarize =
  s_level :: string
  s_keepFirst :: int
  s_customPrompt :: string
  s_keepLast :: int
  s_minTokens :: int
  s_resummarizeTokens :: int
  s_includeToolCalls :: bool
  s_modelSource :: string
  s_trigger :: Trigger
  s_mode :: markerMode
  s_summaryWaitSeconds :: int

type_synonym model_call = "nat \<Rightarrow> string \<Rightarrow> string + string"

record 's sum_env =
  shost :: "'s host"
  cp_marshal :: "sumCheckpoint \<Rightarrow> bytes option"
  cp_unmarshal :: "bytes \<Rightarrow> sumCheckpoint option"
  usage_marshal :: "deferredUsage \<Rightarrow> bytes option"
  usage_unmarshal :: "bytes \<Rightarrow> deferredUsage option"
  span_marshal :: "message list \<Rightarrow> string + bytes"
  SummaryStashPayload :: "(nat \<Rightarrow> nat \<Rightarrow> message list \<Rightarrow> string + bytes) option"
  AllowSummarySpan :: "(nat \<Rightarrow> nat \<Rightarrow> bool) option"
  WireGroup :: "int list option"
  DisallowCountChange :: bool
  span_digest :: "message list \<Rightarrow> string"
  models :: "model_call ModelSpec"
  call_expired :: "nat \<Rightarrow> bool"

text \<open>A call in flight: what the goroutine captured when it started.\<close>

record summaryJob =
  job_mode :: markerMode
  job_session :: string
  job_span :: "message list"
  job_json :: bytes
  job_hash :: string
  job_goal :: string
  job_count :: int
  job_model :: model_call

record 's sum_world =
  base :: "'s world"
  jobs :: "(string \<times> summaryJob) list"
  slots :: int
  asyncStarted :: int
  asyncCommitted :: int
  asyncRefused :: int
  asyncPanics :: int
  unresolved :: int
  waitTimeouts :: int
  callTimeouts :: int
  callErrors :: int
  ledger :: "deferredUsage list"

abbreviation sctx :: "'s sum_env \<Rightarrow> Ctx" where
  "sctx E \<equiv> hctx (shost E)"

definition on_base :: "('s world \<Rightarrow> 'a \<times> 's world) \<Rightarrow> 's sum_world \<Rightarrow> 'a \<times> 's sum_world" where
  "on_base f w = (case f (base w) of (x, b) \<Rightarrow> (x, w\<lparr>base := b\<rparr>))"

definition s_get :: "'s sum_env \<Rightarrow> string \<Rightarrow> 's sum_world \<Rightarrow> bytes option \<times> 's sum_world" where
  "s_get E k w = on_base (w_get (shost E) k) w"

definition s_put :: "'s sum_env \<Rightarrow> string \<Rightarrow> bytes \<Rightarrow> 's sum_world \<Rightarrow> 's sum_world" where
  "s_put E k v w = w\<lparr>base := w_put (shost E) k v (base w)\<rparr>"

definition s_stash :: "'s sum_env \<Rightarrow> string \<Rightarrow> bytes \<Rightarrow> 's sum_world \<Rightarrow> bool \<times> 's sum_world" where
  "s_stash E k v w = on_base (w_stash (shost E) k v) w"

definition s_room :: "'s sum_env \<Rightarrow> int \<Rightarrow> 's sum_world \<Rightarrow> bool \<times> 's sum_world" where
  "s_room E n w =
     on_base (\<lambda>b. case store_StashRoom (hstore (shost E)) (hnow (shost E)) n (st b) of (r, s) \<Rightarrow> (r, b\<lparr>st := s\<rparr>)) w"

section \<open>Checkpoints of a thread\<close>

definition sumKey :: "string \<Rightarrow> string" where
  "sumKey conv = SumPrefix @ conv"

definition convKey :: "Ctx \<Rightarrow> string" where
  "convKey c = Key (Session c) (Thread c)"

definition parentConvKey :: "Ctx \<Rightarrow> string option" where
  "parentConvKey c =
     (if \<not> ThreadInherits c then None
      else let k = Key (Session c) (ThreadParent c) in if k \<noteq> convKey c then Some k else None)"

definition loadCheckpoint :: "'s sum_env \<Rightarrow> 's sum_world \<Rightarrow> sumCheckpoint option \<times> 's sum_world" where
  "loadCheckpoint E w =
     (case s_get E (sumKey (convKey (sctx E))) w of
        (Some b, w) \<Rightarrow> (cp_unmarshal E b, w)
      | (None, w) \<Rightarrow>
          (case parentConvKey (sctx E) of
             None \<Rightarrow> (None, w)
           | Some pk \<Rightarrow>
               (case s_get E (sumKey pk) w of
                  (Some b, w) \<Rightarrow> (cp_unmarshal E b, w)
                | (None, w) \<Rightarrow> (None, w))))"

definition sideRequest :: "Ctx \<Rightarrow> bool" where
  "sideRequest c \<longleftrightarrow> ThreadInherits c \<and> \<not> DeclaresTools c"

definition adoptParentCheckpoint :: "'s sum_env \<Rightarrow> 's sum_world \<Rightarrow> 's sum_world" where
  "adoptParentCheckpoint E w =
     (if \<not> DeclaresTools (sctx E) then w
      else case parentConvKey (sctx E) of
             None \<Rightarrow> w
           | Some pk \<Rightarrow>
               let own = sumKey (convKey (sctx E)) in
               (case on_base (w_peek (shost E) own) w of
                  (True, w) \<Rightarrow> w
                | (False, w) \<Rightarrow>
                    (case s_get E (sumKey pk) w of
                       (Some b, w) \<Rightarrow> s_put E own b w
                     | (None, w) \<Rightarrow> w)))"

definition saveCheckpoint :: "'s sum_env \<Rightarrow> sumCheckpoint \<Rightarrow> 's sum_world \<Rightarrow> 's sum_world" where
  "saveCheckpoint E cp w =
     (case cp_marshal E cp of Some b \<Rightarrow> s_put E (sumKey (convKey (sctx E))) b w | None \<Rightarrow> w)"

section \<open>The covered span\<close>

definition summaryStashJSON :: "'s sum_env \<Rightarrow> nat \<Rightarrow> nat \<Rightarrow> message list \<Rightarrow> string + bytes" where
  "summaryStashJSON E start end sp =
     (case SummaryStashPayload E of Some f \<Rightarrow> f start end sp | None \<Rightarrow> span_marshal E sp)"

definition summaryCoveredHash :: "'s sum_env \<Rightarrow> nat \<Rightarrow> nat \<Rightarrow> message list \<Rightarrow> string" where
  "summaryCoveredHash E start end sp =
     (case SummaryStashPayload E of
        Some f \<Rightarrow>
          (case f start end sp of
             Inl _ \<Rightarrow> ''unsafe''
           | Inr b \<Rightarrow> hashKey (shost E) (b @ '':'' @ SpanHash (span_digest E) sp))
      | None \<Rightarrow> SpanHash (span_digest E) sp)"

definition summaryCoveredHashMatches :: "'s sum_env \<Rightarrow> nat \<Rightarrow> nat \<Rightarrow> message list \<Rightarrow> string \<Rightarrow> bool" where
  "summaryCoveredHashMatches E start end sp want =
     (if summaryCoveredHash E start end sp = want then True
      else
        let legacies = LegacySpanHashes (span_digest E) sp in
        case SummaryStashPayload E of
          None \<Rightarrow> list_ex (\<lambda>l. l = want) legacies
        | Some f \<Rightarrow>
            (case f start end sp of
               Inl _ \<Rightarrow> False
             | Inr b \<Rightarrow> list_ex (\<lambda>l. hashKey (shost E) (b @ '':'' @ l) = want) legacies))"

section \<open>Replaying a checkpoint\<close>

definition emitCheckpoint ::
  "sumCheckpoint \<Rightarrow> message list \<Rightarrow> nat \<Rightarrow> nat \<Rightarrow> int list option \<Rightarrow> message list \<times> string list" where
  "emitCheckpoint cp msgs headCount boundary groups =
     (splice msgs headCount (advanceSpanBoundary msgs groups boundary) (SummaryMsg cp),
      if CpKey cp \<noteq> [] then [CpKey cp] else [])"

definition s_refresh :: "'s sum_env \<Rightarrow> sumCheckpoint \<Rightarrow> nat \<Rightarrow> nat \<Rightarrow> message list \<Rightarrow> Report \<Rightarrow> 's sum_world \<Rightarrow> Report \<times> 's sum_world" where
  "s_refresh E cp start boundary sp rep w =
     (if CpKey cp = [] then (rep, w)
      else case summaryStashJSON E start boundary sp of
             Inl _ \<Rightarrow> (rep, w)
           | Inr b \<Rightarrow> (case commitRefresh (shost E) markerFull (CpKey cp) b rep (base w) of (_, rep, bw) \<Rightarrow> (rep, w\<lparr>base := bw\<rparr>)))"

text \<open>The transcript and keys when the checkpoint is reused, and whether it is only stale.\<close>

definition tryReuse ::
  "'s sum_env \<Rightarrow> Summarize \<Rightarrow> Report \<Rightarrow> message list \<Rightarrow> nat \<Rightarrow> nat \<Rightarrow> nat \<Rightarrow> 's sum_world
   \<Rightarrow> (message list \<times> string list) option \<times> bool \<times> Report \<times> 's sum_world" where
  "tryReuse E s rep msgs headCount start end w =
     (case loadCheckpoint E w of
        (None, w) \<Rightarrow> (None, False, Gate ''summary_no_checkpoint'' rep, w)
      | (Some cp, w) \<Rightarrow>
          if CoveredCount cp \<le> 0 then (None, False, Gate ''summary_no_checkpoint'' rep, w)
          else
            let boundary = start + nat (CoveredCount cp) in
            if boundary > end then (None, False, Gate ''summary_checkpoint_overlaps_tail'' rep, w)
            else
              let covered = take (boundary - start) (drop start msgs) in
              if \<not> summaryCoveredHashMatches E start boundary covered (CoveredHash cp)
              then (None, False, Gate ''summary_covered_span_changed'' rep, w)
              else if s_resummarizeTokens s \<le> 0
                      \<or> MessagesTokens (count_tokens (henv (shost E))) (take (end - boundary) (drop boundary msgs)) \<ge> s_resummarizeTokens s
              then (None, True, Gate ''summary_checkpoint_stale'' rep, w)
              else case s_refresh E cp start boundary covered rep w of
                     (rep, w) \<Rightarrow> (Some (emitCheckpoint cp msgs headCount boundary (WireGroup E)), False, rep, w))"

text \<open>What a pass leaves: the transcript, the keys, an error, the report and the world.\<close>

type_synonym 's pass_result = "message list \<times> string list \<times> string option \<times> Report \<times> 's sum_world"

definition skip :: "message list \<Rightarrow> Report \<Rightarrow> 's sum_world \<Rightarrow> 's pass_result" where
  "skip msgs rep w = (msgs, [], None, rep\<lparr>Skipped := True\<rparr>, w)"

definition EventFreshSummary :: string where "EventFreshSummary = ''fresh_summary''"
definition EventReusedCheckpoint :: string where "EventReusedCheckpoint = ''reused_checkpoint''"
definition EventGatedReplayedCheckpoint :: string where "EventGatedReplayedCheckpoint = ''gated_replayed_checkpoint''"
definition EventReserveExhaustedReplayedCheckpoint :: string where
  "EventReserveExhaustedReplayedCheckpoint = ''reserve_exhausted_replayed_checkpoint''"
definition EventSummaryStarted :: string where "EventSummaryStarted = ''summary_started''"
definition EventAwaitedCheckpoint :: string where "EventAwaitedCheckpoint = ''awaited_checkpoint''"

definition replayStale ::
  "'s sum_env \<Rightarrow> Report \<Rightarrow> message list \<Rightarrow> nat \<Rightarrow> nat \<Rightarrow> string \<Rightarrow> 's sum_world \<Rightarrow> 's pass_result" where
  "replayStale E rep msgs headCount start event w =
     (case loadCheckpoint E w of
        (None, w) \<Rightarrow> skip msgs rep w
      | (Some cp, w) \<Rightarrow>
          if CoveredCount cp \<le> 0 then skip msgs rep w
          else
            let boundary = start + nat (CoveredCount cp) in
            if boundary > length msgs then skip msgs rep w
            else case s_refresh E cp start boundary (take (boundary - start) (drop start msgs)) rep w of
                   (rep, w) \<Rightarrow>
                     (case emitCheckpoint cp msgs headCount boundary (WireGroup E) of
                        (out, keys) \<Rightarrow>
                          let rep = (if keys = [] then rep\<lparr>Irreversible := True\<rparr> else rep);
                              count = count_tokens (henv (shost E)) in
                          if length msgs \<le> length out then skip msgs rep w
                          else if MessagesTokens count out \<ge> MessagesTokens count msgs
                          then skip msgs (Gate ''replay_would_not_shrink'' rep) w
                          else (out, keys, None, Replay event rep, w)))"

definition refuse ::
  "'s sum_env \<Rightarrow> Report \<Rightarrow> message list \<Rightarrow> nat \<Rightarrow> nat \<Rightarrow> bool \<Rightarrow> 's sum_world \<Rightarrow> 's pass_result" where
  "refuse E rep msgs headCount start stale w =
     (let w = w\<lparr>base := (base w)\<lparr>stashRefusals := stashRefusals (base w) + 1\<rparr>\<rparr>;
          rep = Gate ''stash_reserve_exhausted'' rep
      in if \<not> stale then skip msgs rep w
         else replayStale E rep msgs headCount start EventReserveExhaustedReplayedCheckpoint w)"

section \<open>Usage of detached calls\<close>

definition zero_usage :: "deferredUsage \<Rightarrow> bool" where
  "zero_usage u \<longleftrightarrow> duIn u = 0 \<and> duOut u = 0 \<and> duCacheWrite u = 0 \<and> duCacheRead u = 0"

definition maxDeferredCallDetails :: nat where "maxDeferredCallDetails = 4"

text \<open>The totals of a call's sink: calls, input, output, cache writes and reads, and its model.\<close>

type_synonym sink = "int \<times> int \<times> int \<times> int \<times> int \<times> string"

definition deferUsageAs ::
  "'s sum_env \<Rightarrow> string \<Rightarrow> string \<Rightarrow> string \<Rightarrow> string \<Rightarrow> sink \<Rightarrow> bool \<Rightarrow> 's sum_world \<Rightarrow> 's sum_world" where
  "deferUsageAs E session cmp path trigger snk billedElsewhere w =
     (if session = [] then w
      else case snk of
        (calls, tin, tout, cw, cr, model) \<Rightarrow>
          if calls = 0 \<or> tin = 0 \<and> tout = 0 \<and> cw = 0 \<and> cr = 0 then w
          else
            let detail = \<lparr>dcModel = model, dcIn = tin, dcOut = tout, dcCacheWrite = cw, dcCacheRead = cr,
                          dcComponent = cmp, dcPath = path, dcTrigger = trigger, dcBilledElsewhere = billedElsewhere\<rparr>;
                u = (if billedElsewhere
                     then \<lparr>duModel = model, duIn = 0, duOut = 0, duCacheWrite = 0, duCacheRead = 0, duCalls = []\<rparr>
                     else \<lparr>duModel = model, duIn = tin, duOut = tout, duCacheWrite = cw, duCacheRead = cr, duCalls = []\<rparr>);
                (prev, w) = s_get E (UsagePrefix @ session) w;
                u = (case prev of
                       None \<Rightarrow> u
                     | Some b \<Rightarrow>
                         if b = [] then u
                         else case usage_unmarshal E b of
                                None \<Rightarrow> u
                              | Some p \<Rightarrow>
                                  \<lparr>duModel = (if duModel u = [] then duModel p else duModel u), duIn = duIn u + duIn p, duOut = duOut u + duOut p,
                                   duCacheWrite = duCacheWrite u + duCacheWrite p, duCacheRead = duCacheRead u + duCacheRead p,
                                   duCalls = duCalls p\<rparr>);
                u = (if length (duCalls u) < maxDeferredCallDetails then u\<lparr>duCalls := duCalls u @ [detail]\<rparr> else u)
            in (case usage_marshal E u of Some b \<Rightarrow> s_put E (UsagePrefix @ session) b w | None \<Rightarrow> w))"

definition deferUsage :: "'s sum_env \<Rightarrow> string \<Rightarrow> string \<Rightarrow> string \<Rightarrow> string \<Rightarrow> sink \<Rightarrow> 's sum_world \<Rightarrow> 's sum_world" where
  "deferUsage E session cmp path trigger snk w = deferUsageAs E session cmp path trigger snk False w"

text \<open>The ledger is what \<open>cheapmodel.ReplayUsage\<close> adds to the sink of the request.\<close>

definition takeDeferredUsage :: "'s sum_env \<Rightarrow> 's sum_world \<Rightarrow> 's sum_world" where
  "takeDeferredUsage E w =
     (if Session (sctx E) = [] then w
      else
        let key = UsagePrefix @ Session (sctx E) in
        case s_get E key w of
          (None, w) \<Rightarrow> w
        | (Some b, w) \<Rightarrow>
            if b = [] then w
            else
              let w = s_put E key ''{}'' w in
              (case usage_unmarshal E b of
                 None \<Rightarrow> w
               | Some u \<Rightarrow> if zero_usage u then w else w\<lparr>ledger := ledger w @ [u]\<rparr>))"

section \<open>Summaries in the background\<close>

definition defaultSummaryWait :: duration where "defaultSummaryWait = 120 * second"

definition maxConcurrentSummaries :: int where "maxConcurrentSummaries = 8"

definition summaryWait :: "Summarize \<Rightarrow> duration" where
  "summaryWait s = (if s_summaryWaitSeconds s > 0 then wrap64 (s_summaryWaitSeconds s * second) else defaultSummaryWait)"

text \<open>The registry of \<open>summaryFlight\<close>: claim, release and look.\<close>

definition begin_flight :: "string \<Rightarrow> summaryJob \<Rightarrow> 's sum_world \<Rightarrow> 's sum_world option" where
  "begin_flight conv j w =
     (if conv = [] \<or> map_of (jobs w) conv \<noteq> None then None else Some (w\<lparr>jobs := AList.update conv j (jobs w)\<rparr>))"

definition finish_flight :: "string \<Rightarrow> 's sum_world \<Rightarrow> 's sum_world" where
  "finish_flight conv w = w\<lparr>jobs := AList.delete conv (jobs w)\<rparr>"

definition peek_flight :: "string \<Rightarrow> 's sum_world \<Rightarrow> bool" where
  "peek_flight conv w \<longleftrightarrow> map_of (jobs w) conv \<noteq> None"

definition startAsyncSummary :: "'s sum_env \<Rightarrow> summaryJob \<Rightarrow> 's sum_world \<Rightarrow> string \<times> 's sum_world" where
  "startAsyncSummary E j w =
     (let conv = convKey (sctx E) in
      case begin_flight conv j w of
        None \<Rightarrow> (''summary_already_in_flight'', w)
      | Some w \<Rightarrow>
          if slots w \<ge> maxConcurrentSummaries
          then (''summary_concurrency_full'', (finish_flight conv w)\<lparr>asyncRefused := asyncRefused w + 1\<rparr>)
          else ([], w\<lparr>slots := slots w + 1, asyncStarted := asyncStarted w + 1, unresolved := unresolved w + 1\<rparr>))"

definition commitAsyncSummary ::
  "'s sum_env \<Rightarrow> markerMode \<Rightarrow> string \<Rightarrow> bytes \<Rightarrow> string \<Rightarrow> string \<Rightarrow> int \<Rightarrow> 's sum_world \<Rightarrow> 's sum_world" where
  "commitAsyncSummary E mode conv spanJSON coveredHash summary coveredCount w =
     (let key = (if mode = markerFull then hashKey (shost E) spanJSON else []);
          (stashed, w) = (if mode = markerFull then s_stash E key spanJSON w else (True, w))
      in if \<not> stashed then w
         else
           let cp = \<lparr>SummaryMsg = summaryWrapper summary key mode, CoveredCount = coveredCount,
                     CoveredHash = coveredHash, CpKey = key, Reserved = False\<rparr>;
               w = (case cp_marshal E cp of Some b \<Rightarrow> s_put E (sumKey conv) b w | None \<Rightarrow> w)
           in w\<lparr>asyncCommitted := asyncCommitted w + 1\<rparr>)"

text \<open>The goroutine of a job, from the model call to the deferred releases.\<close>

datatype job_end = JobPanics | JobReturns bool sink

definition run_job :: "'s sum_env \<Rightarrow> Summarize \<Rightarrow> string \<Rightarrow> summaryJob \<Rightarrow> job_end \<Rightarrow> 's sum_world \<Rightarrow> 's sum_world" where
  "run_job E s conv j how w =
     (case how of
        JobPanics \<Rightarrow> w\<lparr>asyncPanics := asyncPanics w + 1\<rparr>
      | JobReturns deadline snk \<Rightarrow>
          let w = deferUsage E (job_session j) ''summarize'' [] ''turn'' snk w in
          (case summarize_call (s_level s) (s_includeToolCalls s) (s_customPrompt s) (job_model j) (call_expired E)
                  (job_span j) (job_goal j) of
             Inl e \<Rightarrow> if deadline then w\<lparr>callTimeouts := callTimeouts w + 1\<rparr> else w\<lparr>callErrors := callErrors w + 1\<rparr>
           | Inr summary \<Rightarrow>
               if trim_space summary = [] then w
               else commitAsyncSummary E (job_mode j) conv (job_json j) (job_hash j) summary (job_count j) w))"

definition finish_job :: "'s sum_env \<Rightarrow> Summarize \<Rightarrow> string \<Rightarrow> job_end \<Rightarrow> 's sum_world \<Rightarrow> 's sum_world" where
  "finish_job E s conv how w =
     (case map_of (jobs w) conv of
        None \<Rightarrow> w
      | Some j \<Rightarrow>
          let w = run_job E s conv j how w
          in finish_flight conv (w\<lparr>unresolved := unresolved w - 1, slots := slots w - 1\<rparr>))"

section \<open>The synchronous path\<close>

definition summarizeInline ::
  "'s sum_env \<Rightarrow> Summarize \<Rightarrow> Report \<Rightarrow> message list \<Rightarrow> model_call \<Rightarrow> bool \<Rightarrow> nat \<Rightarrow> nat \<Rightarrow> nat \<Rightarrow> bool \<Rightarrow> 's sum_world \<Rightarrow> 's pass_result" where
  "summarizeInline E s rep msgs model deadline headCount start end stale w =
     (let mode = effectiveMode (shost E) (s_mode s);
          sp = take (end - start) (drop start msgs);
          payload = (if mode = markerFull then summaryStashJSON E start end sp else Inr [])
      in case payload of
           Inl e \<Rightarrow> (msgs, [], Some e, rep, w)
         | Inr spanJSON \<Rightarrow>
             let key = (if mode = markerFull then hashKey (shost E) spanJSON else []);
                 (room, w) = (if mode = markerFull then s_room E (int (length spanJSON)) w else (True, w))
             in if \<not> room then refuse E rep msgs headCount start stale w
                else case summarize_call (s_level s) (s_includeToolCalls s) (s_customPrompt s) model (call_expired E) sp (conversationGoal msgs) of
                       Inl e \<Rightarrow>
                         (msgs, [], Some e, rep,
                          if deadline then w\<lparr>callTimeouts := callTimeouts w + 1\<rparr> else w\<lparr>callErrors := callErrors w + 1\<rparr>)
                     | Inr summary \<Rightarrow>
                         if trim_space summary = [] then skip msgs (Gate ''summary_empty_reply'' rep) w
                         else
                           let (stashed, w) = (if mode = markerFull then s_stash E key spanJSON w else (True, w))
                           in if \<not> stashed then refuse E rep msgs headCount start stale w
                              else
                                let rep = (if mode = markerFull then rep else rep\<lparr>Irreversible := True\<rparr>);
                                    summaryText = summaryWrapper summary key mode;
                                    w = saveCheckpoint E \<lparr>SummaryMsg = summaryText, CoveredCount = int (end - start),
                                          CoveredHash = summaryCoveredHash E start end sp, CpKey = key, Reserved = False\<rparr> w
                                in (splice msgs headCount end summaryText, if key \<noteq> [] then [key] else [], None,
                                    Event EventFreshSummary rep, w))"

section \<open>The pass\<close>

definition phase_name :: "CachePhase \<Rightarrow> string" where
  "phase_name p =
     (case p of CachePhaseWarm \<Rightarrow> ''warm'' | CachePhasePreExpiry \<Rightarrow> ''pre_expiry'' | CachePhaseCold \<Rightarrow> ''cold''
      | CachePhaseUnknown \<Rightarrow> ''unknown'')"

definition summarize_Enabled :: "'s sum_env \<Rightarrow> bool" where
  "summarize_Enabled E \<longleftrightarrow> \<not> DisallowCountChange E"

text \<open>The scan of \<open>trimSpanForKeptVerbatim\<close> with the store reads of its closure.\<close>

fun first_kept :: "'s sum_env \<Rightarrow> message list \<Rightarrow> nat list \<Rightarrow> 's sum_world \<Rightarrow> nat option \<times> 's sum_world" where
  "first_kept E msgs [] w = (None, w)"
| "first_kept E msgs (i # is) w =
     (let txt = MessageText (msgs ! i) in
      case on_base (isKeptVerbatim (shost E) (contentKey (shost E) txt)) w of
        (True, w) \<Rightarrow> (Some i, w)
      | (False, w) \<Rightarrow> if restoredSpanGuard (shost E) txt then (Some i, w) else first_kept E msgs is w)"

definition trim_span :: "'s sum_env \<Rightarrow> message list \<Rightarrow> nat \<Rightarrow> nat \<Rightarrow> 's sum_world \<Rightarrow> nat \<times> 's sum_world" where
  "trim_span E msgs start end w =
     (case first_kept E msgs [start..<end] w of
        (None, w) \<Rightarrow> (end, w)
      | (Some i, w) \<Rightarrow> (trim_retreat msgs start i, w))"

text \<open>How a wait for a job ends, and what the other goroutines do to the world meanwhile.\<close>

datatype wait_end = JobDone | CapExpired | RequestGone

definition gates :: "'s sum_env \<Rightarrow> Summarize \<Rightarrow> message list \<Rightarrow> Report \<Rightarrow> bool \<times> Report" where
  "gates E s msgs rep =
     (let c = Some (sctx E);
          sized = Fires (count_tokens (henv (shost E))) (s_trigger s) msgs c;
          rep = (if sized then rep else Gate ''below_request_trigger'' rep);
          resolvable = FracResolvable (s_trigger s) c;
          rep = (if resolvable then rep else Gate ''window_not_exact'' rep);
          phase = cachePhase c (PreExpiry (s_trigger s));
          phased = CacheAllows (s_trigger s) c phase;
          rep = (if phased then rep else Gate (''cache_state_declined_'' @ phase_name phase) rep)
      in (sized \<and> resolvable \<and> phased, rep))"

definition reuse_result :: "string \<Rightarrow> message list \<times> string list \<Rightarrow> Report \<Rightarrow> 's sum_world \<Rightarrow> 's pass_result" where
  "reuse_result event r rep w =
     (case r of (out, keys) \<Rightarrow>
        (out, keys, None, Replay event (if keys = [] then rep\<lparr>Irreversible := True\<rparr> else rep), w))"

text \<open>From the model on: commission a summary, or make one at once without a session.\<close>

definition fresh_path ::
  "'s sum_env \<Rightarrow> Summarize \<Rightarrow> bool \<Rightarrow> Report \<Rightarrow> message list \<Rightarrow> model_call \<Rightarrow> nat \<Rightarrow> nat \<Rightarrow> nat \<Rightarrow> bool \<Rightarrow> 's sum_world \<Rightarrow> 's pass_result" where
  "fresh_path E s deadline rep msgs model headCount start end0 stale w =
     (let (end, w) = trim_span E msgs start end0 w;
          rep = (if end \<noteq> end0 then Gate GateKeptVerbatim rep else rep)
      in if end \<noteq> end0 \<and> end \<le> start then skip msgs (Gate ''summary_span_empty_after_expand_trim'' rep) w
         else
           let sp = take (end - start) (drop start msgs) in
           if MessagesTokens (count_tokens (henv (shost E))) sp < s_minTokens s
           then skip msgs (Gate ''summary_span_below_min_tokens'' rep) w
           else
             let full = (effectiveMode (shost E) (s_mode s) = markerFull) in
             case (if full then summaryStashJSON E start end sp else Inr []) of
               Inl e \<Rightarrow> (msgs, [], Some e, rep, w)
             | Inr spanJSON \<Rightarrow>
                 let (room, w) = (if full then s_room E (int (length spanJSON)) w else (True, w)) in
                 if \<not> room then refuse E rep msgs headCount start stale w
                 else if Session (sctx E) = [] then summarizeInline E s rep msgs model deadline headCount start end stale w
                 else
                   let coveredHash = (if full \<and> SummaryStashPayload E \<noteq> None
                                      then hashKey (shost E) (spanJSON @ '':'' @ SpanHash (span_digest E) sp)
                                      else summaryCoveredHash E start end sp);
                       job = \<lparr>job_mode = effectiveMode (shost E) (s_mode s), job_session = Session (sctx E), job_span = sp,
                              job_json = spanJSON, job_hash = coveredHash, job_goal = conversationGoal msgs,
                              job_count = int (end - start), job_model = model\<rparr>;
                       (why, w) = startAsyncSummary E job w;
                       rep = (if why \<noteq> [] then Gate why rep else Event EventSummaryStarted rep)
                   in if stale then replayStale E rep msgs headCount start EventGatedReplayedCheckpoint w
                      else skip msgs rep w)"

text \<open>A turn that finds a job of its thread in flight waits for it, then looks at the checkpoint again.\<close>

definition await_flight ::
  "'s sum_env \<Rightarrow> Summarize \<Rightarrow> wait_end \<Rightarrow> ('s sum_world \<Rightarrow> 's sum_world) \<Rightarrow> bool \<Rightarrow> Report \<Rightarrow> message list \<Rightarrow> nat \<Rightarrow> nat \<Rightarrow> nat
   \<Rightarrow> 's sum_world \<Rightarrow> (message list \<times> string list) option \<times> bool \<times> Report \<times> 's sum_world" where
  "await_flight E s waitEnd during stale rep msgs headCount start end w =
     (if \<not> peek_flight (convKey (sctx E)) w then (None, stale, rep, w)
      else
        let w = during w in
        if waitEnd = JobDone
        then (case tryReuse E s rep msgs headCount start end w of
                (r, nowStale, rep, w) \<Rightarrow> (r, if r = None then stale \<or> nowStale else stale, rep, w))
        else (None, stale, Gate ''summary_wait_timeout'' rep, w\<lparr>waitTimeouts := waitTimeouts w + 1\<rparr>))"

definition summarize_Offload ::
  "'s sum_env \<Rightarrow> Summarize \<Rightarrow> wait_end \<Rightarrow> ('s sum_world \<Rightarrow> 's sum_world) \<Rightarrow> bool \<Rightarrow> message list \<Rightarrow> Report \<Rightarrow> 's sum_world \<Rightarrow> 's pass_result" where
  "summarize_Offload E s waitEnd during deadline msgs rep w =
     (let (headCount, start, end) = summarizeSpan msgs (s_keepFirst s) (s_keepLast s) (WireGroup E);
          w = adoptParentCheckpoint E (takeDeferredUsage E w)
      in if wireGroupsStale (WireGroup E) msgs then skip msgs (Gate ''wire_groups_stale'' rep) w
         else if start < end \<and> (case AllowSummarySpan E of Some f \<Rightarrow> \<not> f start end | None \<Rightarrow> False)
         then skip msgs (Gate ''wire_span_unsafe'' rep) w
         else
           let (fires, rep) = gates E s msgs rep in
           if end \<le> start then skip msgs (Gate ''summary_span_empty'' rep) w
           else case tryReuse E s rep msgs headCount start end w of
                  (Some r, _, rep, w) \<Rightarrow> reuse_result EventReusedCheckpoint r rep w
                | (None, stale, rep, w) \<Rightarrow>
                    let model = fst (ForSource (models E) (s_modelSource s));
                        rep = (if model = None then Gate ''no_model'' rep else rep);
                        (awaited, stale, rep, w) = await_flight E s waitEnd during stale rep msgs headCount start end w
                    in case awaited of
                         Some r \<Rightarrow> reuse_result EventAwaitedCheckpoint r rep w
                       | None \<Rightarrow>
                           let side = sideRequest (sctx E);
                               rep = (if side then Gate ''side_request_read_only'' rep else rep)
                           in case model of
                                None \<Rightarrow> if stale then replayStale E rep msgs headCount start EventGatedReplayedCheckpoint w
                                         else skip msgs rep w
                              | Some mdl \<Rightarrow>
                                  if \<not> fires \<or> side
                                  then if stale then replayStale E rep msgs headCount start EventGatedReplayedCheckpoint w
                                       else skip msgs rep w
                                  else fresh_path E s deadline rep msgs mdl headCount start end stale w)"

section \<open>What a pass may leave\<close>

definition pass_sat ::
  "(message list \<Rightarrow> string list \<Rightarrow> string option \<Rightarrow> Report \<Rightarrow> 's sum_world \<Rightarrow> bool) \<Rightarrow> 's pass_result \<Rightarrow> bool" where
  "pass_sat Q r \<longleftrightarrow> (case r of (out, keys, err, rep, w) \<Rightarrow> Q out keys err rep w)"

text \<open>A predicate holds of a pass when it holds of every branch the pass is written with.\<close>

lemma sat_Let: "(\<And>x. x = t \<Longrightarrow> pass_sat Q (f x)) \<Longrightarrow> pass_sat Q (Let t f)"
  by simp

lemma sat_prod: "(\<And>x y. p = (x, y) \<Longrightarrow> pass_sat Q (f x y)) \<Longrightarrow> pass_sat Q (case p of (x, y) \<Rightarrow> f x y)"
  by (cases p) simp

lemma sat_if: "(c \<Longrightarrow> pass_sat Q x) \<Longrightarrow> (\<not> c \<Longrightarrow> pass_sat Q y) \<Longrightarrow> pass_sat Q (if c then x else y)"
  by simp

lemma sat_option:
  "(z = None \<Longrightarrow> pass_sat Q x) \<Longrightarrow> (\<And>v. z = Some v \<Longrightarrow> pass_sat Q (f v))
   \<Longrightarrow> pass_sat Q (case z of None \<Rightarrow> x | Some v \<Rightarrow> f v)"
  by (cases z) simp_all

lemma sat_sum:
  "(\<And>e. z = Inl e \<Longrightarrow> pass_sat Q (g e)) \<Longrightarrow> (\<And>v. z = Inr v \<Longrightarrow> pass_sat Q (f v))
   \<Longrightarrow> pass_sat Q (case z of Inl e \<Rightarrow> g e | Inr v \<Rightarrow> f v)"
  by (cases z) simp_all

lemmas sat_rules = sat_Let sat_prod sat_if sat_option sat_sum

text \<open>The transcript as it was, without keys, or one splice, reported with a key or as irreversible.\<close>

definition text_of :: "'s sum_env \<Rightarrow> string \<Rightarrow> bool" where
  "text_of E t \<longleftrightarrow>
     (\<exists>s k md. t = summaryWrapper s k md) \<or> (\<exists>b cp. cp_unmarshal E b = Some cp \<and> 0 < CoveredCount cp \<and> t = SummaryMsg cp)"

definition shape_ok :: "'s sum_env \<Rightarrow> nat \<Rightarrow> message list \<Rightarrow> message list \<Rightarrow> string list \<Rightarrow> string option \<Rightarrow> Report \<Rightarrow> 's sum_world \<Rightarrow> bool" where
  "shape_ok E h msgs out keys err rep w \<longleftrightarrow>
     out = msgs \<and> keys = []
     \<or> err = None \<and> (keys \<noteq> [] \<or> Irreversible rep) \<and> (\<exists>b t. h < b \<and> b \<le> length msgs \<and> text_of E t \<and> out = splice msgs h b t)"

abbreviation pass_shape :: "'s sum_env \<Rightarrow> nat \<Rightarrow> message list \<Rightarrow> 's pass_result \<Rightarrow> bool" where
  "pass_shape E h msgs \<equiv> pass_sat (shape_ok E h msgs)"

lemma pass_shape_kept [simp]: "pass_shape E h msgs (msgs, [], err, rep, w)" "pass_shape E h msgs (skip msgs rep w)"
  by (simp_all add: pass_sat_def shape_ok_def skip_def)

lemma advance_bounds:
  "b \<le> length msgs \<Longrightarrow> b \<le> advanceSpanBoundary msgs g b \<and> advanceSpanBoundary msgs g b \<le> length msgs"
  by (simp add: advanceSpanBoundary_def advance_loop_bounds)

lemma emitCheckpoint_splice:
  assumes "emitCheckpoint cp msgs h b g = (out, keys)" "h < b" "b \<le> length msgs"
  shows "\<exists>b'. h < b' \<and> b' \<le> length msgs \<and> out = splice msgs h b' (SummaryMsg cp)"
  using assms advance_bounds [OF assms(3), of g] by (auto simp: emitCheckpoint_def intro!: exI [of _ "advanceSpanBoundary msgs g b"])

lemma Event_Irreversible [simp]: "Irreversible (Event e r) = Irreversible r" "Irreversible (Replay e r) = Irreversible r"
  "Irreversible (Gate e r) = Irreversible r"
  by (simp_all add: Event_def Replay_def Gate_def)

lemma text_of_wrapper [simp]: "text_of E (summaryWrapper s k md)"
  unfolding text_of_def by blast

lemma loadCheckpoint_text: "loadCheckpoint E w = (Some cp, w') \<Longrightarrow> 0 < CoveredCount cp \<Longrightarrow> text_of E (SummaryMsg cp)"
  unfolding text_of_def by (auto simp: loadCheckpoint_def split: prod.splits option.splits)

lemma tryReuse_some:
  assumes "tryReuse E s rep msgs h h end w = (Some (out, keys), sf, rep', w')" "end \<le> length msgs"
  shows "\<exists>b t. h < b \<and> b \<le> length msgs \<and> text_of E t \<and> out = splice msgs h b t"
proof (cases "loadCheckpoint E w")
  case (Pair c w1)
  show ?thesis
  proof (cases c)
    case (Some cp)
    have "0 < CoveredCount cp \<and> h + nat (CoveredCount cp) \<le> end
      \<and> emitCheckpoint cp msgs h (h + nat (CoveredCount cp)) (WireGroup E) = (out, keys)"
      using assms(1) by (simp add: tryReuse_def Pair Some Let_def split: prod.splits if_splits)
    then show ?thesis
      using emitCheckpoint_splice [of cp msgs h _ "WireGroup E" out keys] assms(2) loadCheckpoint_text [OF Pair [unfolded Some]]
      by fastforce
  qed (use assms(1) in \<open>simp add: tryReuse_def Pair\<close>)
qed

lemma pass_shape_reuse:
  "tryReuse E s rep msgs h h end w = (Some r, sf, rep', w') \<Longrightarrow> end \<le> length msgs \<Longrightarrow> pass_shape E h msgs (reuse_result ev r rep2 w2)"
  using tryReuse_some [of E s rep msgs h "end" w "fst r" "snd r"]
  by (cases r) (auto simp: pass_sat_def shape_ok_def reuse_result_def)

lemma pass_shape_replay: "pass_shape E h msgs (replayStale E rep msgs h h ev w)"
proof (cases "loadCheckpoint E w")
  case (Pair c w1)
  show ?thesis
  proof (cases c)
    case (Some cp)
    let ?b = "h + nat (CoveredCount cp)"
    obtain rep2 w2 where r: "s_refresh E cp h ?b (take (?b - h) (drop h msgs)) rep w1 = (rep2, w2)"
      by (cases "s_refresh E cp h ?b (take (?b - h) (drop h msgs)) rep w1")
    obtain out keys where e: "emitCheckpoint cp msgs h ?b (WireGroup E) = (out, keys)"
      by (cases "emitCheckpoint cp msgs h ?b (WireGroup E)")
    show ?thesis
    proof (cases "0 < CoveredCount cp \<and> ?b \<le> length msgs")
      case True
      with emitCheckpoint_splice [OF e] loadCheckpoint_text [OF Pair [unfolded Some]] have "\<exists>b t. h < b \<and> b \<le> length msgs \<and> text_of E t \<and> out = splice msgs h b t" by fastforce
      with True show ?thesis
        by (simp add: replayStale_def Pair Some r [simplified] e Let_def skip_def) (simp add: pass_sat_def shape_ok_def)
    qed (auto simp: replayStale_def Pair Some Let_def not_le not_less)
  qed (simp add: replayStale_def Pair)
qed

lemma pass_shape_refuse: "pass_shape E h msgs (refuse E rep msgs h h stale w)"
  by (simp add: refuse_def Let_def pass_shape_replay)

lemma pass_shape_splice:
  "h < b \<Longrightarrow> b \<le> length msgs \<Longrightarrow> keys \<noteq> [] \<or> Irreversible rep
   \<Longrightarrow> text_of E t \<Longrightarrow> pass_shape E h msgs (splice msgs h b t, keys, None, rep, w)"
  unfolding pass_sat_def shape_ok_def by fastforce

lemma pass_shape_inline:
  assumes "h < end" "end \<le> length msgs" "hex_digest (henv (shost E))"
  shows "pass_shape E h msgs (summarizeInline E s rep msgs model dl h h end stale w)"
proof -
  have key: "hashKey (shost E) b \<noteq> []" for b
    using hashKey_valid [OF assms(3)] by (auto simp: valid_key_def)
  show ?thesis
    unfolding summarizeInline_def
    by (intro sat_rules pass_shape_splice assms(1,2) pass_shape_refuse pass_shape_kept) (simp_all add: key)
qed

lemma first_kept_bounds:
  "first_kept E msgs is w = (Some i, w') \<Longrightarrow> i \<in> set is"
proof (induction "is" arbitrary: w)
  case (Cons j "is")
  obtain b w2 where "on_base (isKeptVerbatim (shost E) (contentKey (shost E) (MessageText (msgs ! j)))) w = (b, w2)"
    by fastforce
  with Cons show ?case by (cases b) (auto simp: Let_def split: if_splits)
qed simp

lemma trim_span_bounds:
  assumes "trim_span E msgs start end w = (e, w')" "start \<le> end"
  shows "start \<le> e \<and> e \<le> end"
proof (cases "first_kept E msgs [start..<end] w")
  case (Pair z w1)
  show ?thesis
  proof (cases z)
    case (Some i)
    then have "start \<le> i" "i < end" using first_kept_bounds Pair by fastforce+
    moreover have "e = trim_retreat msgs start i" using assms(1) by (simp add: trim_span_def Pair Some)
    ultimately show ?thesis using trim_retreat_bounds [of start i msgs] by simp
  qed (use assms in \<open>simp add: trim_span_def Pair\<close>)
qed

lemma pass_shape_fresh:
  assumes "h < end" "end \<le> length msgs" "hex_digest (henv (shost E))"
  shows "pass_shape E h msgs (fresh_path E s dl rep msgs model h h end stale w)"
proof -
  obtain e w1 where t: "trim_span E msgs h end w = (e, w1)" by fastforce
  note b = trim_span_bounds [OF t]
  show ?thesis
  proof (cases "e \<noteq> end \<and> e \<le> h")
    case True
    then show ?thesis by (simp add: fresh_path_def t)
  next
    case False
    then have "h < e" "e \<le> length msgs" using b assms by auto
    note i = pass_shape_inline [OF this assms(3)]
    show ?thesis
      unfolding fresh_path_def t Let_def [of "(e, w1)"] prod.case
      by (intro sat_rules i pass_shape_refuse pass_shape_replay pass_shape_kept)
  qed
qed

lemma await_some:
  assumes "await_flight E s wt during stale rep msgs h start end w = (Some r, st', rep', w')"
  shows "\<exists>w1 rep1 sf w2. tryReuse E s rep msgs h start end w1 = (Some r, sf, rep1, w2)"
  using assms by (auto simp: await_flight_def Let_def split: if_splits prod.splits)

lemma pass_shape_await:
  "await_flight E s wt during stale rep msgs h h end w = (Some r, st', rep', w') \<Longrightarrow> end \<le> length msgs
   \<Longrightarrow> pass_shape E h msgs (reuse_result ev r rep2 w2)"
  using await_some [of E s wt during stale rep msgs h h "end" w r st' rep' w'] pass_shape_reuse by blast

lemma summarize_pass_shape:
  assumes "summarizeSpan msgs (s_keepFirst s) (s_keepLast s) (WireGroup E) = (h, start, end)" "hex_digest (henv (shost E))"
  shows "pass_shape E h msgs (summarize_Offload E s wt during dl msgs rep w)"
proof -
  note b = summarizeSpan_bounds [OF assms(1)]
  have s: "start = h" using b(1) by simp
  show ?thesis
  proof (cases "end \<le> start")
    case True
    then show ?thesis
      unfolding summarize_Offload_def assms(1) Let_def [of "(h, start, end)"] prod.case
      by (intro sat_rules pass_shape_kept) simp_all
  next
    case False
    then have e: "h < end" "end \<le> length msgs" using s b(3) by auto
    note fresh = pass_shape_fresh [OF e assms(2)]
    show ?thesis
      unfolding summarize_Offload_def assms(1) s Let_def [of "(h, h, end)"] prod.case
      by (intro sat_rules fresh pass_shape_replay pass_shape_kept)
        (use e(2) in \<open>auto elim!: pass_shape_reuse pass_shape_await [OF sym]\<close>)
  qed
qed


end
