(* ===== verification/Summarize_Flight.thy ===== *)
theory Summarize_Flight
  imports Summarize
begin

text \<open>
  Summaries in the background: a standing checkpoint is replayed whatever the gates and the model
  say, and over every sequence of turns and finished jobs, a waiting turn letting others run, the
  registry of jobs and the global slots stay in step. At the end, what one finished job leaves in
  the in-memory store.
\<close>

section \<open>What a pass leaves of the jobs\<close>

definition flight :: "'s sum_world \<Rightarrow> (string \<times> summaryJob) list \<times> int \<times> int \<times> int \<times> int \<times> int" where
  "flight w = (jobs w, slots w, unresolved w, asyncStarted w, asyncCommitted w, asyncPanics w)"

lemma flight_upd [simp]:
  "flight (w\<lparr>base := b\<rparr>) = flight w" "flight (w\<lparr>waitTimeouts := n\<rparr>) = flight w" "flight (w\<lparr>ledger := l\<rparr>) = flight w"
  "flight (w\<lparr>callTimeouts := n\<rparr>) = flight w" "flight (w\<lparr>callErrors := n\<rparr>) = flight w"
  by (simp_all add: flight_def)

lemma flight_on_base: "on_base f w = (x, w') \<Longrightarrow> flight w' = flight w"
  by (auto simp: on_base_def split: prod.splits)

lemma flight_put [simp]: "flight (s_put E k v w) = flight w"
  by (simp add: s_put_def)

lemma flight_get: "s_get E k w = (v, w') \<Longrightarrow> flight w' = flight w"
  unfolding s_get_def by (rule flight_on_base)

lemma flight_stash: "s_stash E k v w = (b, w') \<Longrightarrow> flight w' = flight w"
  unfolding s_stash_def by (rule flight_on_base)

lemma flight_room: "s_room E n w = (b, w') \<Longrightarrow> flight w' = flight w"
  unfolding s_room_def by (rule flight_on_base)

lemma flight_load: "loadCheckpoint E w = (c, w') \<Longrightarrow> flight w' = flight w"
  by (auto simp: loadCheckpoint_def split: prod.splits option.splits dest!: flight_get)

lemma flight_save [simp]: "flight (saveCheckpoint E cp w) = flight w"
  by (simp add: saveCheckpoint_def split: option.split)

lemma flight_adopt [simp]: "flight (adoptParentCheckpoint E w) = flight w"
  by (auto simp: adoptParentCheckpoint_def Let_def split: option.split prod.split bool.split dest!: flight_get flight_on_base)

lemma flight_take [simp]: "flight (takeDeferredUsage E w) = flight w"
  by (auto simp: takeDeferredUsage_def Let_def split: option.split prod.split dest!: flight_get)

lemma flight_defer [simp]: "flight (deferUsage E s c p t snk w) = flight w"
proof -
  obtain v w1 where g: "s_get E (UsagePrefix @ s) w = (v, w1)" by fastforce
  obtain n a b cw cr md where k: "snk = (n, a, b, cw, cr, md)" by (cases snk)
  show ?thesis
    unfolding deferUsage_def deferUsageAs_def g k prod.case Let_def
    using flight_get [OF g] by (simp split: option.split if_split)
qed

lemma flight_refresh: "s_refresh E cp a b sp rep w = (rep', w') \<Longrightarrow> flight w' = flight w"
  by (auto simp: s_refresh_def split: if_splits sum.splits prod.splits)

lemma flight_reuse: "tryReuse E s rep msgs h a e w = (r, sf, rep', w') \<Longrightarrow> flight w' = flight w"
  by (auto simp: tryReuse_def Let_def split: if_splits option.splits prod.splits dest!: flight_load flight_refresh)

lemma flight_first_kept: "first_kept E msgs is w = (i, w') \<Longrightarrow> flight w' = flight w"
proof (induction "is" arbitrary: w)
  case (Cons j "is")
  obtain b w2 where g: "on_base (isKeptVerbatim (shost E) (contentKey (shost E) (MessageText (msgs ! j)))) w = (b, w2)"
    by fastforce
  then have "flight w2 = flight w" by (rule flight_on_base)
  with Cons g show ?case by (cases b) (auto simp: Let_def split: if_splits)
qed simp

lemma flight_trim: "trim_span E msgs a e w = (e', w') \<Longrightarrow> flight w' = flight w"
  by (auto simp: trim_span_def split: prod.splits option.splits dest!: flight_first_kept)

section \<open>The registry and the slots\<close>

text \<open>
  One slot, one unresolved call and one registered job per thread, and no more commits and panics
  than calls that ended.
\<close>

definition flight_ok :: "'s sum_world \<Rightarrow> bool" where
  "flight_ok w \<longleftrightarrow>
     distinct (map fst (jobs w)) \<and> [] \<notin> fst ` set (jobs w)
     \<and> slots w = int (length (jobs w)) \<and> unresolved w = slots w \<and> slots w \<le> maxConcurrentSummaries
     \<and> asyncCommitted w + asyncPanics w \<le> asyncStarted w - unresolved w"

lemma flight_ok_cong: "flight w' = flight w \<Longrightarrow> flight_ok w' = flight_ok w"
  by (simp add: flight_ok_def flight_def)

abbreviation lands :: "'s pass_result \<Rightarrow> bool" where
  "lands \<equiv> pass_sat (\<lambda>_ _ _ _ w. flight_ok w)"

lemma lands_skip [simp]: "lands (skip msgs rep w) = flight_ok w" "lands (out, keys, err, rep, w) = flight_ok w"
  "lands (reuse_result ev r rep w) = flight_ok w"
  by (simp_all add: pass_sat_def skip_def reuse_result_def split: prod.split)

lemmas flight_moves = flight_load flight_refresh flight_reuse flight_trim flight_room flight_stash

lemmas flight_stays = flight_moves [THEN flight_ok_cong, THEN iffD2]

lemma flight_ok_upd [simp]:
  "flight_ok (w\<lparr>base := b\<rparr>) = flight_ok w" "flight_ok (w\<lparr>waitTimeouts := n\<rparr>) = flight_ok w"
  "flight_ok (w\<lparr>callTimeouts := n\<rparr>) = flight_ok w" "flight_ok (w\<lparr>callErrors := n\<rparr>) = flight_ok w"
  "flight_ok (saveCheckpoint E cp w) = flight_ok w" "flight_ok (adoptParentCheckpoint E w) = flight_ok w"
  "flight_ok (takeDeferredUsage E w) = flight_ok w" "flight_ok (deferUsage E s c p t snk w) = flight_ok w"
  by (rule flight_ok_cong, simp)+

lemma lands_replay: "flight_ok w \<Longrightarrow> lands (replayStale E rep msgs h a ev w)"
  unfolding replayStale_def
  by (intro sat_rules; unfold lands_skip) (assumption | erule flight_stays)+

lemma lands_refuse: "flight_ok w \<Longrightarrow> lands (refuse E rep msgs h a stale w)"
  by (simp add: refuse_def Let_def lands_replay)

text \<open>The two calls of the store that only full mode makes.\<close>

lemma flight_opt_room: "(r, w') = (if c then s_room E n w else (True, w)) \<Longrightarrow> flight w' = flight w"
  by (auto split: if_splits dest: flight_room [OF sym])

lemma flight_opt_stash: "(r, w') = (if c then s_stash E k v w else (True, w)) \<Longrightarrow> flight w' = flight w"
  by (auto split: if_splits dest: flight_stash [OF sym])

lemmas flight_opt = flight_opt_room [THEN flight_ok_cong, THEN iffD2] flight_opt_stash [THEN flight_ok_cong, THEN iffD2]

lemma lands_inline: "flight_ok w \<Longrightarrow> lands (summarizeInline E s rep msgs model dl h a e stale w)"
  unfolding summarizeInline_def
  by ((intro sat_rules lands_refuse; (unfold lands_skip flight_ok_upd)?), simp_all, (assumption | erule flight_opt)+)

lemma update_fresh: "k \<notin> fst ` set al \<Longrightarrow> AList.update k v al = al @ [(k, v)]"
  by (induction al) auto

lemma flight_start:
  assumes "startAsyncSummary E j w = (why, w')" "flight_ok w"
  shows "flight_ok w'"
proof (cases "convKey (sctx E) = [] \<or> map_of (jobs w) (convKey (sctx E)) \<noteq> None")
  case True
  then show ?thesis using assms by (auto simp: startAsyncSummary_def begin_flight_def Let_def split: option.splits)
next
  case False
  let ?k = "convKey (sctx E)"
  have new: "?k \<notin> fst ` set (jobs w)" "?k \<noteq> []" using False by (simp_all add: map_of_eq_None_iff)
  then have u: "AList.update ?k j (jobs w) = jobs w @ [(?k, j)]" "AList.delete ?k (AList.update ?k j (jobs w)) = jobs w"
    by (simp_all add: delete_update_same) (simp add: update_fresh)
  show ?thesis
    using assms False new u
    by (auto simp: startAsyncSummary_def begin_flight_def finish_flight_def Let_def flight_ok_def maxConcurrentSummaries_def split: if_splits)
qed


lemmas flight_steps = flight_stays flight_start flight_opt sym [THEN flight_trim, THEN flight_ok_cong, THEN iffD2]
  sym [THEN flight_start]

lemma lands_fresh: "flight_ok w \<Longrightarrow> lands (fresh_path E s dl rep msgs model h a e stale w)"
  unfolding fresh_path_def
  by ((intro sat_rules lands_refuse lands_replay lands_inline; (unfold lands_skip flight_ok_upd)?), simp_all, (assumption | erule flight_steps)+)

lemma lands_await:
  assumes "await_flight E s wt during stale rep msgs h a e w = (r, st', rep', w')" "flight_ok w"
    and during: "\<And>v. flight_ok v \<Longrightarrow> flight_ok (during v)"
  shows "flight_ok w'"
proof -
  have "flight_ok (during w)" by (rule during [OF assms(2)])
  with assms(1,2) show ?thesis
    by (auto simp: await_flight_def Let_def split: if_splits prod.splits dest: flight_reuse [THEN flight_ok_cong])
qed

lemma lands_Offload:
  assumes "flight_ok w" and during: "\<And>v. flight_ok v \<Longrightarrow> flight_ok (during v)"
  shows "lands (summarize_Offload E s wt during dl msgs rep w)"
  unfolding summarize_Offload_def
  by (insert assms(1), (intro sat_rules lands_refuse lands_replay lands_fresh; (unfold lands_skip flight_ok_upd)?), simp_all, (assumption | erule flight_steps | erule lands_await [OF sym, OF _ _ during] | simp only: flight_ok_upd)+)

section \<open>Turns and jobs in any order\<close>

text \<open>
  What happens to the world: a job ends, or a turn runs its pass, and while the turn waits for the job
  of its thread the events of the list happen.
\<close>

datatype 's sum_event =
    JobEnds "'s sum_env" Summarize string job_end
  | TurnRuns "'s sum_env" Summarize wait_end "'s sum_event list" bool "message list" Report

primrec happen :: "'s sum_event \<Rightarrow> 's sum_world \<Rightarrow> 's sum_world" where
  "happen (JobEnds E s conv how) = finish_job E s conv how"
| "happen (TurnRuns E s wt during dl msgs rep) =
     (\<lambda>w. case summarize_Offload E s wt (fold (\<lambda>f. f) (map happen during)) dl msgs rep w of (out, keys, err, rep, w) \<Rightarrow> w)"

definition fresh_world :: "'s world \<Rightarrow> 's sum_world" where
  "fresh_world b = \<lparr>base = b, jobs = [], slots = 0, asyncStarted = 0, asyncCommitted = 0, asyncRefused = 0, asyncPanics = 0,
     unresolved = 0, waitTimeouts = 0, callTimeouts = 0, callErrors = 0, ledger = []\<rparr>"

lemma flight_commit:
  "flight (commitAsyncSummary E md conv js h s n w) = flight w
   \<or> flight (commitAsyncSummary E md conv js h s n w) = flight (w\<lparr>asyncCommitted := asyncCommitted w + 1\<rparr>)"
proof -
  obtain b w1 where g: "(if md = markerFull then s_stash E (if md = markerFull then hashKey (shost E) js else []) js w else (True, w)) = (b, w1)"
    by fastforce
  then have "flight w1 = flight w" by (auto split: if_splits dest: flight_stash)
  then show ?thesis
    unfolding commitAsyncSummary_def Let_def g prod.case by (simp add: flight_def s_put_def split: option.split)
qed

lemma flight_run:
  "\<exists>a b. flight (run_job E s conv j how w) = flight (w\<lparr>asyncCommitted := asyncCommitted w + a, asyncPanics := asyncPanics w + b\<rparr>) \<and> a + b \<le> 1"
proof -
  have p: ?thesis
    if "flight (run_job E s conv j how w) = flight (w\<lparr>asyncCommitted := asyncCommitted w + a, asyncPanics := asyncPanics w + b\<rparr>)" "a + b \<le> 1"
    for a b using that by blast
  show ?thesis
  proof (cases how)
    case JobPanics
    then show ?thesis by (intro p [where a = 0 and b = 1]) (simp_all add: run_job_def flight_def)
  next
    case (JobReturns dl snk)
    let ?w = "deferUsage E (job_session j) ''summarize'' [] ''turn'' snk w"
    have f: "flight ?w = flight w" by simp
    show ?thesis
    proof (cases "run_job E s conv j how w = commitAsyncSummary E (job_mode j) conv (job_json j) (job_hash j)
        (case summarize_call (s_level s) (s_includeToolCalls s) (s_customPrompt s) (job_model j) (call_expired E) (job_span j) (job_goal j) of Inr x \<Rightarrow> x)
        (job_count j) ?w")
      case True
      from flight_commit [of E "job_mode j" conv "job_json j" "job_hash j" _ "job_count j" ?w]
      consider "flight (run_job E s conv j how w) = flight w"
        | "flight (run_job E s conv j how w) = flight (?w\<lparr>asyncCommitted := asyncCommitted ?w + 1\<rparr>)"
        unfolding True f by blast
      then show ?thesis
      proof cases
        case 1
        then show ?thesis by (intro p [where a = 0 and b = 0]) (simp_all add: flight_def)
      next
        case 2
        then show ?thesis using f by (intro p [where a = 1 and b = 0]) (simp_all add: flight_def)
      qed
    next
      case False
      have "flight (run_job E s conv j how w) = flight w"
        using False f by (simp add: run_job_def JobReturns Let_def flight_def split: sum.splits if_splits)
      then show ?thesis by (intro p [where a = 0 and b = 0]) (simp_all add: flight_def)
    qed
  qed
qed

lemma length_delete: "distinct (map fst al) \<Longrightarrow> map_of al k \<noteq> None \<Longrightarrow> length (AList.delete k al) = length al - 1"
proof -
  assume a: "distinct (map fst al)" "map_of al k \<noteq> None"
  then have "k \<in> set (map fst al)" by (simp add: map_of_eq_None_iff)
  then have "length (removeAll k (map fst al)) = length al - 1"
    using a(1) by (simp add: distinct_remove1_removeAll [symmetric] length_remove1)
  then show ?thesis by (simp add: delete_keys [symmetric])
qed

lemma flight_finish:
  assumes "flight_ok w"
  shows "flight_ok (finish_job E s conv how w)"
proof (cases "map_of (jobs w) conv")
  case (Some j)
  obtain a b where r: "flight (run_job E s conv j how w) = flight (w\<lparr>asyncCommitted := asyncCommitted w + a, asyncPanics := asyncPanics w + b\<rparr>)" "a + b \<le> 1"
    using flight_run by blast
  have d: "distinct (map fst (jobs w))" "map_of (jobs w) conv \<noteq> None" using assms Some by (auto simp: flight_ok_def)
  have "0 < length (jobs w)" using Some by auto
  moreover have "[] \<notin> fst ` set (AList.delete conv (jobs w))" using assms dom_delete_subset [of conv "jobs w"] by (auto simp: flight_ok_def)
  moreover have "distinct (map fst (AList.delete conv (jobs w)))" using d(1) by (rule distinct_delete)
  ultimately show ?thesis
    using assms r length_delete [OF d]
    by (simp add: finish_job_def Some Let_def finish_flight_def flight_ok_def flight_def of_nat_diff Suc_leI)
qed (use assms in \<open>simp add: finish_job_def\<close>)

lemma happen_ok: "flight_ok w \<Longrightarrow> flight_ok (happen e w)"
proof (induction e arbitrary: w)
  case (TurnRuns E s wt during dl msgs rep)
  have "flight_ok (fold (\<lambda>f. f) (map happen evs) v)" if "flight_ok v" "set evs \<subseteq> set during" for evs v
    using that by (induction evs arbitrary: v) (auto intro: TurnRuns.IH)
  then have "flight_ok (fold (\<lambda>f. f) (map happen during) v)" if "flight_ok v" for v using that by blast
  with TurnRuns.prems have "lands (summarize_Offload E s wt (fold (\<lambda>f. f) (map happen during)) dl msgs rep w)"
    by (intro lands_Offload)
  then show ?case by (simp add: pass_sat_def split: prod.splits)
qed (simp add: flight_finish)

text \<open>
  C10: summaries in the background stay bounded, and nothing is counted twice. Over every sequence of
  turns and finished jobs, whatever happens while a turn waits, there is at most one job for a thread
  and at most eight in all, every job holds exactly one slot, and the committed and panicked
  calls never exceed those that ended.
\<close>

theorem summary_flight_bounded:
  defines "reached evs b \<equiv> fold happen evs (fresh_world b)"
  shows "distinct (map fst (jobs (reached evs b))) \<and> length (jobs (reached evs b)) \<le> 8
    \<and> slots (reached evs b) = int (length (jobs (reached evs b))) \<and> unresolved (reached evs b) = int (length (jobs (reached evs b)))
    \<and> asyncCommitted (reached evs b) + asyncPanics (reached evs b) \<le> asyncStarted (reached evs b) - unresolved (reached evs b)"
proof -
  have "flight_ok (fold happen evs w)" if "flight_ok w" for w
    using that by (induction evs arbitrary: w) (simp_all add: happen_ok)
  moreover have "flight_ok (fresh_world b)" by (simp add: flight_ok_def fresh_world_def maxConcurrentSummaries_def)
  ultimately have "flight_ok (reached evs b)" unfolding reached_def by blast
  then show ?thesis by (simp add: flight_ok_def maxConcurrentSummaries_def)
qed

section \<open>A standing checkpoint\<close>

definition checkpoint0 :: sumCheckpoint where
  "checkpoint0 = \<lparr>SummaryMsg = ''sum'', CoveredCount = 2, CoveredHash = SpanHash (\<lambda>_. ''d'') (take 2 (drop 1 exchange)),
     CpKey = [], Reserved = False\<rparr>"

definition sum_env0 :: "Memory sum_env" where
  "sum_env0 = \<lparr>shost = host0, cp_marshal = (\<lambda>_. Some ''c''), cp_unmarshal = (\<lambda>b. if b = ''c'' then Some checkpoint0 else None),
     usage_marshal = (\<lambda>_. Some ''u''), usage_unmarshal = (\<lambda>_. None), span_marshal = (\<lambda>_. Inr ''[]''), SummaryStashPayload = None,
     AllowSummarySpan = None, WireGroup = None, DisallowCountChange = False, span_digest = (\<lambda>_. ''d''),
     models = \<lparr>Incoming = None, Static = None\<rparr>, call_expired = (\<lambda>_. False)\<rparr>"

definition summarize0 :: Summarize where
  "summarize0 = \<lparr>s_level = ''concise'', s_keepFirst = 1, s_customPrompt = [], s_keepLast = 2, s_minTokens = 1, s_resummarizeTokens = 10,
     s_includeToolCalls = True, s_modelSource = ''config'', s_trigger = trigger0, s_mode = markerFull, s_summaryWaitSeconds = 0\<rparr>"

definition world1 :: "Memory sum_world" where
  "world1 = fresh_world (world0\<lparr>st := Put 0 (sumKey (Key ''s'' [])) ''c'' (st world0)\<rparr>)"

definition job0 :: summaryJob where
  "job0 = \<lparr>job_mode = markerFull, job_session = ''s'', job_span = [], job_json = ''[]'', job_hash = ''d'', job_goal = [], job_count = 2,
     job_model = (\<lambda>_ _. Inr ''ok'')\<rparr>"




text \<open>
  A standing checkpoint is replayed whatever else is true of the turn. When the thread has a
  checkpoint whose covered messages are unchanged and the tail behind it is small, the pass forwards
  the head, that checkpoint's summary byte for byte and the tail, with the checkpoint's key, and
  commissions nothing: no trigger, phase, model, prompt setting or job in flight is asked.
\<close>

theorem standing_checkpoint_replayed:
  assumes "loadCheckpoint E (adoptParentCheckpoint E (takeDeferredUsage E w)) = (Some cp, w1)"
    and span: "summarizeSpan msgs (s_keepFirst s) (s_keepLast s) (WireGroup E) = (h, a, e)"
    and groups: "\<not> wireGroupsStale (WireGroup E) msgs" "AllowSummarySpan E = None"
    and covered: "CoveredCount cp = int n" "0 < n" "a + n \<le> e"
      "CoveredHash cp = summaryCoveredHash E a (a + n) (take n (drop a msgs))"
    and tail: "0 < s_resummarizeTokens s"
      "MessagesTokens (count_tokens (henv (shost E))) (take (e - (a + n)) (drop (a + n) msgs)) < s_resummarizeTokens s"
  shows "\<exists>rep' w'. summarize_Offload E s wt during dl msgs rep w =
      (splice msgs h (advanceSpanBoundary msgs (WireGroup E) (a + n)) (SummaryMsg cp), if CpKey cp \<noteq> [] then [CpKey cp] else [], None, rep', w')
    \<and> flight w' = flight w \<and> (CpKey cp = [] \<longrightarrow> Irreversible rep')"
proof -
  obtain fires rep1 where g: "gates E s msgs rep = (fires, rep1)" by fastforce
  obtain rep2 w2 where r: "s_refresh E cp a (a + n) (take n (drop a msgs)) rep1 w1 = (rep2, w2)" by fastforce
  have t: "tryReuse E s rep1 msgs h a e (adoptParentCheckpoint E (takeDeferredUsage E w)) =
      (Some (emitCheckpoint cp msgs h (a + n) (WireGroup E)), False, rep2, w2)"
    using assms(1) covered tail r by (simp add: tryReuse_def summaryCoveredHashMatches_def Let_def not_le)
  have "flight w2 = flight w" using flight_refresh [OF r] flight_load [OF assms(1)] by simp
  then show ?thesis
    using span groups covered(2,3) by (simp add: summarize_Offload_def g t reuse_result_def emitCheckpoint_def)
qed

theorem standing_checkpoint_replayed_witness:
  "\<exists>rep' w'. summarize_Offload sum_env0 summarize0 JobDone (\<lambda>w. w) False exchange (new_report ''summarize'' ModeSync) world1
    = (splice exchange 1 3 ''sum'', [], None, rep', w')"
proof -
  let ?r = "loadCheckpoint sum_env0 (adoptParentCheckpoint sum_env0 (takeDeferredUsage sum_env0 world1))"
  have "fst ?r = Some checkpoint0" by code_simp
  then have 1: "?r = (Some checkpoint0, snd ?r)" by (metis prod.collapse)
  have 2: "summarizeSpan exchange (s_keepFirst summarize0) (s_keepLast summarize0) (WireGroup sum_env0) = (1, 1, 3)" by code_simp
  have 3: "\<not> wireGroupsStale (WireGroup sum_env0) exchange" "AllowSummarySpan sum_env0 = None" by code_simp+
  have 4: "CoveredCount checkpoint0 = int 2" "CoveredHash checkpoint0 = summaryCoveredHash sum_env0 1 (1 + 2) (take 2 (drop 1 exchange))"
    by (code_simp, code_simp)
  have 5: "0 < s_resummarizeTokens summarize0"
    "MessagesTokens (count_tokens (henv (shost sum_env0))) (take (3 - (1 + 2)) (drop (1 + 2) exchange)) < s_resummarizeTokens summarize0" by code_simp+
  have "advanceSpanBoundary exchange (WireGroup sum_env0) (1 + 2) = 3" by code_simp
  with standing_checkpoint_replayed [OF 1 2 3 4(1) _ _ 4(2) 5, of JobDone "\<lambda>w. w" False "new_report ''summarize'' ModeSync"]
  show ?thesis by (auto simp: checkpoint0_def)
qed

section \<open>What a finished job leaves in the store\<close>

context decision_store
begin

lemma committed_full:
  assumes H: "hstore (shost E) = I" "hex_digest (henv (shost E))" "iPersists I" "ok (st (base w))"
    and c: "commitAsyncSummary E markerFull conv js hash summary n w = w'" "asyncCommitted w' \<noteq> asyncCommitted w"
    and codec: "\<And>cp. cp_marshal E cp \<noteq> None"
  shows "\<exists>b cp. fst (s_get E (sumKey conv) w') = Some b \<and> cp_marshal E cp = Some b
    \<and> SummaryMsg cp = summaryWrapper summary (CpKey cp) markerFull \<and> CoveredCount cp = n \<and> CoveredHash cp = hash
    \<and> CpKey cp \<in> set (ParseMarkers (SummaryMsg cp)) \<and> fst (s_get E (CpKey cp) w') = Some js"
proof -
  let ?H = "shost E" and ?k = "hashKey (shost E) js"
  have key: "valid_key ?k" "bare ?k" using hashKey_valid [OF H(2)] valid_key_bare by auto
  have sk: "\<not> bare (sumKey conv)" "local_key (sumKey conv)"
    by (simp_all add: sumKey_def SumPrefix_def bare_def has_prefix_def local_key_def hasAnyPrefix_iff globalPrefixes_def XResultPrefix_def SweepExpandPrefix_def)
  obtain b w1 where s: "s_stash E ?k js w = (b, w1)" by fastforce
  show ?thesis
  proof (cases b)
    case False
    then show ?thesis using c s flight_stash [OF s] by (auto simp: commitAsyncSummary_def flight_def)
  next
    case True
    obtain b1 st1 where p: "store_PutStash I (hnow ?H) ?k js (st (base w)) = (b1, st1)" by fastforce
    then have w1: "b1" "st (base w1) = st1" using s True H(1) by (auto simp: s_stash_def on_base_def w_stash_def)
    have ok: "ok st1" "holds (hnow ?H) ?k js st1"
      using stash_ok [OF H(4) key(2)] stash_holds [OF H(4) key(2)] p w1 by (metis fst_conv snd_conv)+
    define cp where "cp = \<lparr>SummaryMsg = summaryWrapper summary ?k markerFull, CoveredCount = n, CoveredHash = hash, CpKey = ?k, Reserved = False\<rparr>"
    obtain v where v: "cp_marshal E cp = Some v" using codec by blast
    have w': "st (base w') = iPut I (hnow ?H) (sumKey conv) v st1"
      using c(1) s True v w1 H(1) by (auto simp: commitAsyncSummary_def Let_def cp_def s_put_def w_put_def)
    have "fst (s_get E j w') = fst (iGet I (hnow ?H) j (st (base w')))" for j
      by (simp add: s_get_def on_base_def w_get_def H(1) split: prod.split)
    moreover have "fst (iGet I (hnow ?H) (sumKey conv) (st (base w'))) = Some v"
      unfolding w' by (rule put_get [OF ok(1) H(3) sk])
    moreover have "fst (iGet I (hnow ?H) ?k (st (base w'))) = Some js"
      unfolding w' by (rule holds_get [OF put_ok [OF ok(1) sk(1)] holds_put [OF ok(1) key(2) sk(1) ok(2)]])
    ultimately show ?thesis
      using v summaryWrapper_marked [OF key(1)] by (auto simp: cp_def intro!: exI [of _ v])
  qed
qed

lemma committed_resolves:
  assumes H: "hstore (shost E) = I" "hex_digest (henv (shost E))" "iPersists I" "ok (st (base w))"
    and c: "commitAsyncSummary E mode conv js hash summary n w = w'" "asyncCommitted w' \<noteq> asyncCommitted w"
    and codec: "\<And>cp. cp_marshal E cp \<noteq> None"
  shows "\<exists>b cp. fst (s_get E (sumKey conv) w') = Some b \<and> cp_marshal E cp = Some b
    \<and> SummaryMsg cp = summaryWrapper summary (CpKey cp) mode \<and> CoveredCount cp = n \<and> CoveredHash cp = hash
    \<and> (if mode = markerFull then CpKey cp \<in> set (ParseMarkers (SummaryMsg cp)) \<and> fst (s_get E (CpKey cp) w') = Some js
       else CpKey cp = [])"
proof (cases "mode = markerFull")
  case True
  with committed_full [OF H c(1) [unfolded True] c(2) codec] show ?thesis by simp
next
  case False
  define cp where "cp = \<lparr>SummaryMsg = summaryWrapper summary [] mode, CoveredCount = n, CoveredHash = hash, CpKey = [], Reserved = False\<rparr>"
  obtain v where v: "cp_marshal E cp = Some v" using codec by blast
  have sk: "\<not> bare (sumKey conv)" "local_key (sumKey conv)"
    by (simp_all add: sumKey_def SumPrefix_def bare_def has_prefix_def local_key_def hasAnyPrefix_iff globalPrefixes_def XResultPrefix_def SweepExpandPrefix_def)
  have w': "st (base w') = iPut I (hnow (shost E)) (sumKey conv) v (st (base w))"
    using c(1) False v H(1) by (auto simp: commitAsyncSummary_def Let_def cp_def s_put_def w_put_def)
  have "fst (s_get E (sumKey conv) w') = fst (iGet I (hnow (shost E)) (sumKey conv) (st (base w')))"
    by (simp add: s_get_def on_base_def w_get_def H(1) split: prod.split)
  also have "\<dots> = Some v" unfolding w' by (rule put_get [OF H(4) H(3) sk])
  finally show ?thesis using v False by (auto simp: cp_def intro!: exI [of _ v])
qed

lemma get_keeps: "hstore (shost E) = I \<Longrightarrow> ok (st (base w)) \<Longrightarrow> s_get E k w = (v, w') \<Longrightarrow> ok (st (base w'))"
  using get_ok [of "st (base w)" "hnow (shost E)" k] by (auto simp: s_get_def on_base_def w_get_def split: prod.splits)

lemma defer_keeps:
  assumes "hstore (shost E) = I" "ok (st (base w))"
  shows "ok (st (base (deferUsage E s c p t snk w)))"
proof -
  obtain v w1 where g: "s_get E (UsagePrefix @ s) w = (v, w1)" by fastforce
  obtain n a b cw cr md where k: "snk = (n, a, b, cw, cr, md)" by (cases snk)
  have "\<not> bare (UsagePrefix @ s)" by (simp add: UsagePrefix_def bare_def has_prefix_def)
  then have "ok (st (base (s_put E (UsagePrefix @ s) x w1)))" for x
    using get_keeps [OF assms g] put_ok assms(1) by (simp add: s_put_def w_put_def)
  then show ?thesis
    unfolding deferUsage_def deferUsageAs_def g k prod.case Let_def
    using assms(2) get_keeps [OF assms g] by (simp split: option.split if_split)
qed

lemma finished_resolves:
  assumes H: "hstore (shost E) = I" "hex_digest (henv (shost E))" "iPersists I" "ok (st (base w))"
    and j: "map_of (jobs w) conv = Some j" "asyncCommitted (finish_job E s conv how w) \<noteq> asyncCommitted w"
    and codec: "\<And>cp. cp_marshal E cp \<noteq> None"
  shows "\<exists>b cp summary. fst (s_get E (sumKey conv) (finish_job E s conv how w)) = Some b \<and> cp_marshal E cp = Some b
    \<and> summarize_call (s_level s) (s_includeToolCalls s) (s_customPrompt s) (job_model j) (call_expired E) (job_span j) (job_goal j) = Inr summary
    \<and> SummaryMsg cp = summaryWrapper summary (CpKey cp) (job_mode j) \<and> CoveredCount cp = job_count j \<and> CoveredHash cp = job_hash j
    \<and> (if job_mode j = markerFull
       then CpKey cp \<in> set (ParseMarkers (SummaryMsg cp)) \<and> fst (s_get E (CpKey cp) (finish_job E s conv how w)) = Some (job_json j)
       else CpKey cp = [])"
proof -
  define w2 where "w2 = run_job E s conv j how w"
  have fin: "fst (s_get E k (finish_job E s conv how w)) = fst (s_get E k w2)" "asyncCommitted (finish_job E s conv how w) = asyncCommitted w2" for k
    using j(1) by (auto simp: finish_job_def Let_def finish_flight_def w2_def s_get_def on_base_def split: prod.split)
  obtain dl snk summary where r: "how = JobReturns dl snk"
    and call: "summarize_call (s_level s) (s_includeToolCalls s) (s_customPrompt s) (job_model j) (call_expired E) (job_span j) (job_goal j) = Inr summary"
    and c: "commitAsyncSummary E (job_mode j) conv (job_json j) (job_hash j) summary (job_count j)
      (deferUsage E (job_session j) ''summarize'' [] ''turn'' snk w) = w2"
  proof (cases how)
    case (JobReturns dl snk)
    have "asyncCommitted (deferUsage E (job_session j) ''summarize'' [] ''turn'' snk w) = asyncCommitted w"
      using flight_defer [of E "job_session j" "''summarize''" "[]" "''turn''" snk w] by (simp add: flight_def)
    with JobReturns j fin(2) that show thesis
      by (auto simp: w2_def run_job_def Let_def split: sum.splits if_splits)
  qed (use j fin(2) in \<open>simp add: w2_def run_job_def\<close>)
  have "asyncCommitted w2 \<noteq> asyncCommitted (deferUsage E (job_session j) ''summarize'' [] ''turn'' snk w)"
    using j(2) fin(2) flight_defer [of E "job_session j" "''summarize''" "[]" "''turn''" snk w] by (simp add: flight_def)
  from committed_resolves [OF H(1-3) defer_keeps [OF H(1,4)] c this codec] call show ?thesis unfolding fin(1) by blast
qed

end

text \<open>
  C14: what a summary that landed leaves in the store. On the in-memory store, with a checkpoint
  encoder that does not fail, when a finished job counts as committed, the thread's record is the
  encoding of a checkpoint with the job's span and hash around the text the model answered. Under
  marker_mode full that text carries the marker of a key, and reading the key gives back the messages
  that were summarized; under the modes summary and off nothing is stashed, the checkpoint has no key,
  and the messages cannot be read back.
\<close>

theorem committed_summary_resolves:
  assumes "hstore (shost E) = memory_store" "hex_digest (henv (shost E))" "mem_ok (st (base w))"
    and "map_of (jobs w) conv = Some j" "asyncCommitted (finish_job E s conv how w) \<noteq> asyncCommitted w"
    and "\<And>cp. cp_marshal E cp \<noteq> None"
  shows "\<exists>b cp summary. fst (s_get E (sumKey conv) (finish_job E s conv how w)) = Some b \<and> cp_marshal E cp = Some b
    \<and> summarize_call (s_level s) (s_includeToolCalls s) (s_customPrompt s) (job_model j) (call_expired E) (job_span j) (job_goal j) = Inr summary
    \<and> SummaryMsg cp = summaryWrapper summary (CpKey cp) (job_mode j) \<and> CoveredCount cp = job_count j \<and> CoveredHash cp = job_hash j
    \<and> (if job_mode j = markerFull
       then CpKey cp \<in> set (ParseMarkers (SummaryMsg cp)) \<and> fst (s_get E (CpKey cp) (finish_job E s conv how w)) = Some (job_json j)
       else CpKey cp = [])"
  using mem_decisions.finished_resolves [OF assms(1,2) _ assms(3-6)] by (simp add: memory_store_def)

abbreviation world2 :: "Memory sum_world" where
  "world2 \<equiv> world1\<lparr>jobs := [(''s'', job0)]\<rparr>"

lemma commit_counts:
  "s_stash E (hashKey (shost E) js) js w = (True, w3) \<Longrightarrow>
   asyncCommitted (commitAsyncSummary E markerFull conv js h sm n w) = asyncCommitted w3 + 1"
  by (simp add: commitAsyncSummary_def Let_def s_put_def split: option.split)

lemma kept_counts:
  "asyncCommitted (snd (s_stash E k v w)) = asyncCommitted w" "asyncCommitted (deferUsage E s c p t snk w) = asyncCommitted w"
  using flight_stash [of E k v w] flight_defer [of E s c p t snk w] by (auto simp: flight_def prod_eq_iff)

lemma job0_commits: "asyncCommitted (finish_job sum_env0 summarize0 ''s'' (JobReturns False (1, 1, 1, 0, 0, [])) world2) = 1"
proof -
  let ?snk = "(1, 1, 1, 0, 0, []) :: sink" and ?sum = "ensureSummaryTags ''ok''"
  let ?w = "deferUsage sum_env0 ''s'' ''summarize'' [] ''turn'' ?snk world2"
  have call: "summarize_call l i c (job_model job0) ex sp g = Inr ?sum" for l i c ex sp g
    by (simp add: summarize_call_def job0_def)
  have "trim_space ?sum \<noteq> []" by code_simp
  then have run: "run_job sum_env0 summarize0 ''s'' job0 (JobReturns False ?snk) world2 = commitAsyncSummary sum_env0 markerFull ''s'' ''[]'' ''d'' ?sum 2 ?w"
    by (simp add: run_job_def call Let_def) (simp add: job0_def)
  let ?p = "s_stash sum_env0 (hashKey (shost sum_env0) ''[]'') ''[]'' ?w"
  have "fst ?p" by code_simp
  then have s: "?p = (True, snd ?p)" by (simp only: prod_eq_iff fst_conv snd_conv simp_thms)
  have "asyncCommitted (commitAsyncSummary sum_env0 markerFull ''s'' ''[]'' ''d'' ?sum 2 ?w) = 1"
    unfolding commit_counts [OF s] kept_counts by (simp add: world1_def fresh_world_def)
  moreover have "map_of (jobs world2) ''s'' = Some job0" by simp
  ultimately show ?thesis unfolding finish_job_def Let_def by (simp only: option.case run finish_flight_def) simp
qed

theorem committed_summary_resolves_witness:
  "\<exists>b cp. fst (s_get sum_env0 (sumKey ''s'') (finish_job sum_env0 summarize0 ''s'' (JobReturns False (1, 1, 1, 0, 0, [])) world2)) = Some b
    \<and> cp_marshal sum_env0 cp = Some b
    \<and> fst (s_get sum_env0 (CpKey cp) (finish_job sum_env0 summarize0 ''s'' (JobReturns False (1, 1, 1, 0, 0, [])) world2)) = Some ''[]''"
proof -
  have h: "hstore (shost sum_env0) = memory_store" "hex_digest (henv (shost sum_env0))" by (simp_all add: sum_env0_def)
  have "\<not> bare (sumKey k)" for k by (simp add: sumKey_def SumPrefix_def bare_def has_prefix_def)
  then have m: "mem_ok (st (base world2))" by (simp add: world1_def fresh_world_def mem_ok_Put)
  have j: "map_of (jobs world2) ''s'' = Some job0" by (simp add: job0_def)
  have c: "asyncCommitted (finish_job sum_env0 summarize0 ''s'' (JobReturns False (1, 1, 1, 0, 0, [])) world2) \<noteq> asyncCommitted world2"
    unfolding job0_commits by (simp add: world1_def fresh_world_def)
  have e: "cp_marshal sum_env0 cp \<noteq> None" for cp by (simp add: sum_env0_def)
  from committed_summary_resolves [OF h m j c e] show ?thesis by (auto simp: job0_def)
qed

end
