(* ===== verification/Keepalive_Policy.thy ===== *)
theory Keepalive_Policy
  imports Complex_Main Component_Core Thread_Tracker Go_Regexp
begin

text \<open>
  The pure half of \<open>src/keepalive\<close>: a tenant's policy and its schedules (\<open>types.go\<close>), the ping plan
  per wait (\<open>waitplan.go\<close>) with the classifier of \<open>src/internal/waitcause\<close>, the cache lifetimes and
  prices of \<open>src/internal/modelinfo\<close>, the tier and eligibility rules of \<open>keeper.go\<close>, \<open>ping.go\<close> and
  \<open>relay.go\<close>, the pre-expiry windows of \<open>substitute.go\<close>, and the body mask of \<open>mask.go\<close>.

  An instant is the number of nanoseconds since Go's zero time, so \<open>IsZero\<close> is \<open>= 0\<close>. Money is an
  exact rational where the code has a \<open>float64\<close>; \<open>math.Inf(1)\<close> is \<open>None\<close>. A Go slice that the code
  compares with \<open>nil\<close> is an option. The JSON reader gjson and \<open>url.Parse\<close> are arguments, as is the
  environment.
\<close>

named_theorems ka_defs \<open>definitions of the keep-alive policy\<close>

section \<open>Constants\<close>

definition minute :: duration where "minute = 60 * second"
definition hour :: duration where "hour = 60 * minute"

definition AnthropicCacheTTL5m :: duration where "AnthropicCacheTTL5m = 5 * minute"
definition AnthropicCacheTTL1h :: duration where "AnthropicCacheTTL1h = hour"
definition OpenAIMinimumCacheTTL :: duration where "OpenAIMinimumCacheTTL = 30 * minute"
definition OpenAIDefaultKeepAliveIdle :: duration where "OpenAIDefaultKeepAliveIdle = OpenAIMinimumCacheTTL - 2 * minute"
definition AnthropicDefaultKeepAliveIdle1h :: duration where "AnthropicDefaultKeepAliveIdle1h = 59 * minute"
definition AnthropicDefaultKeepAliveMaxPings1h :: int where "AnthropicDefaultKeepAliveMaxPings1h = 1"
definition AnthropicMaxKeepAliveMaxPings1h :: int where "AnthropicMaxKeepAliveMaxPings1h = 3"

definition MaxHold1h :: duration where
  "MaxHold1h = (AnthropicMaxKeepAliveMaxPings1h + 1) * AnthropicDefaultKeepAliveIdle1h"

definition tick :: duration where "tick = 2 * second"
definition DefaultMaxUSDPerPing :: rat where "DefaultMaxUSDPerPing = 1 / 2"
definition headTTLBytesPerToken :: int where "headTTLBytesPerToken = 4"
definition DefaultToolWaitMaxPings :: int where "DefaultToolWaitMaxPings = 8"
definition DefaultBackgroundExtraPings :: int where "DefaultBackgroundExtraPings = 3"
definition DefaultHumanExtraPings :: int where "DefaultHumanExtraPings = 1"
definition MaxWaitPings :: int where "MaxWaitPings = 11"
definition extraSlotMargin :: duration where "extraSlotMargin = 30 * second"
definition maxSubstituteWindow :: duration where "maxSubstituteWindow = 2 * DefaultPreExpiry + 2 * tick"

lemmas ka_time = minute_def hour_def second_def tick_def AnthropicCacheTTL5m_def AnthropicCacheTTL1h_def
  OpenAIMinimumCacheTTL_def OpenAIDefaultKeepAliveIdle_def AnthropicDefaultKeepAliveIdle1h_def
  AnthropicDefaultKeepAliveMaxPings1h_def AnthropicMaxKeepAliveMaxPings1h_def MaxHold1h_def
  extraSlotMargin_def maxSubstituteWindow_def DefaultPreExpiry_def

section \<open>Data\<close>

record Usage =
  FreshInput :: int
  CacheRead :: int
  CacheWrite :: int
  UOutput :: int
  CacheWrite1h :: int
  UStopReason :: string

record Price =
  inputRate :: rat
  outputRate :: rat
  readRate :: rat
  writeRate :: rat
  Write1hFrac :: rat

record Policy =
  KeepAlive :: bool
  pIdle :: duration
  MaxPings :: int
  Idle1h :: duration
  MaxPings1h :: int
  MaxUSDPerPing :: rat
  MinPrefixTokens :: int
  HeadTTL1h :: bool
  HeadTTLMinBytes :: int
  HeadTTLMinTokens :: int
  PredictorID :: string
  PredictorThreshold :: rat
  WaitPlan :: bool
  ToolWaitMaxPings :: int
  BackgroundExtraPings :: int
  HumanExtraPings :: int
  ManualHold :: bool

definition zeroPolicy :: Policy where
  "zeroPolicy =
     \<lparr>KeepAlive = False, pIdle = 0, MaxPings = 0, Idle1h = 0, MaxPings1h = 0, MaxUSDPerPing = 0,
      MinPrefixTokens = 0, HeadTTL1h = False, HeadTTLMinBytes = 0, HeadTTLMinTokens = 0, PredictorID = [],
      PredictorThreshold = 0, WaitPlan = False, ToolWaitMaxPings = 0, BackgroundExtraPings = 0,
      HumanExtraPings = 0, ManualHold = False\<rparr>"

section \<open>Policy\<close>

definition On :: "Policy \<Rightarrow> bool" where
  "On p \<longleftrightarrow> KeepAlive p \<and> pIdle p > 0 \<and> MaxPings p > 0"

definition ForOneHour :: "Policy \<Rightarrow> Policy" where
  "ForOneHour p =
     (if pIdle p \<ge> 300 * second then p\<lparr>MaxPings := min (MaxPings p) AnthropicMaxKeepAliveMaxPings1h\<rparr>
      else
        let p = p\<lparr>pIdle := Idle1h p, MaxPings := MaxPings1h p\<rparr>;
            p = (if pIdle p \<le> 0 then p\<lparr>pIdle := AnthropicDefaultKeepAliveIdle1h\<rparr> else p);
            p = (if MaxPings p \<le> 0 then p\<lparr>MaxPings := AnthropicDefaultKeepAliveMaxPings1h\<rparr> else p)
        in p\<lparr>MaxPings := min (MaxPings p) AnthropicMaxKeepAliveMaxPings1h\<rparr>)"

text \<open>\<open>None\<close> is no ceiling at all.\<close>

definition Ceiling :: "Policy \<Rightarrow> rat option" where
  "Ceiling p =
     (if MaxUSDPerPing p > 0 then Some (MaxUSDPerPing p)
      else if MaxUSDPerPing p < 0 then None
      else Some DefaultMaxUSDPerPing)"

definition exceeds :: "rat \<Rightarrow> rat option \<Rightarrow> bool" where
  "exceeds usd c = (case c of None \<Rightarrow> False | Some m \<Rightarrow> usd > m)"

definition HeadTTLGateBytes :: "Policy \<Rightarrow> int" where
  "HeadTTLGateBytes p =
     (if HeadTTLMinBytes p > 0 then HeadTTLMinBytes p else HeadTTLMinTokens p * headTTLBytesPerToken)"

text \<open>The operator's switch, from the value of \<open>CONTEXT_GURU_KEEPALIVE\<close>.\<close>

definition Disabled :: "string \<Rightarrow> bool" where
  "Disabled env = (let v = map to_lower (trim_space env) in v = ''off'' \<or> v = ''0'' \<or> v = ''false'')"

section \<open>What a thread waits for\<close>

definition WaitingOwnTool :: string where "WaitingOwnTool = ''own_tool''"
definition WaitingHuman :: string where "WaitingHuman = ''human''"
definition WaitingBackground :: string where "WaitingBackground = ''background''"
definition WaitingTeammate :: string where "WaitingTeammate = ''teammate''"
definition WaitingRetry :: string where "WaitingRetry = ''retry''"
definition WaitingDone :: string where "WaitingDone = ''done''"
definition WaitingUnknown :: string where "WaitingUnknown = ''unknown''"

lemmas waiting_defs = WaitingOwnTool_def WaitingHuman_def WaitingBackground_def WaitingTeammate_def
  WaitingRetry_def WaitingDone_def WaitingUnknown_def

definition defaultTerminalTools :: "string list" where "defaultTerminalTools = [''StructuredOutput'']"
definition handbackTools :: "string list" where "handbackTools = [''SubagentHandback'']"
definition askHumanTools :: "string list" where "askHumanTools = [''AskUserQuestion'', ''ExitPlanMode'']"

definition terminalSet :: "string list \<Rightarrow> string list" where
  "terminalSet xs = filter (\<lambda>n. n \<noteq> []) xs"

definition resolveTerminal :: "string list option \<Rightarrow> string list" where
  "resolveTerminal t = (case t of None \<Rightarrow> terminalSet defaultTerminalTools | Some xs \<Rightarrow> terminalSet xs)"

definition IsDone :: "string list \<Rightarrow> string list option \<Rightarrow> bool" where
  "IsDone names terminal = (names \<noteq> [] \<and> last names \<in> set (resolveTerminal terminal))"

definition ClassifyWaitingForTerminal ::
  "string list option \<Rightarrow> string list \<Rightarrow> string \<Rightarrow> bool \<Rightarrow> bool \<Rightarrow> int \<Rightarrow> int \<Rightarrow> string \<times> string" where
  "ClassifyWaitingForTerminal terminal names stopReason failed usageOK openBackground openTeammate =
     (if failed then (WaitingRetry, [])
      else
        let ts = resolveTerminal terminal in
        if ts \<noteq> [] \<and> names \<noteq> [] \<and> last names \<in> set ts then (WaitingDone, [])
        else
          let handback = (ts \<noteq> [] \<and> names \<noteq> [] \<and> last names \<in> set handbackTools);
              usageOK = (usageOK \<or> handback);
              names = (if handback then [] else names)
          in if names \<noteq> [] then
               (if list_ex (\<lambda>n. n \<in> set askHumanTools) names then (WaitingHuman, []) else (WaitingOwnTool, last names))
             else if \<not> usageOK \<and> stopReason = [] then (WaitingUnknown, [])
             else if openBackground > 0 then (WaitingBackground, [])
             else if openTeammate > 0 then (WaitingTeammate, [])
             else (WaitingHuman, []))"

definition ClassifyWaitingFor :: "string list \<Rightarrow> string \<Rightarrow> bool \<Rightarrow> bool \<Rightarrow> int \<Rightarrow> int \<Rightarrow> string \<times> string" where
  "ClassifyWaitingFor = ClassifyWaitingForTerminal None"

text \<open>An incomplete name list switches the terminal-tool rule off.\<close>

definition terminalFor :: "string list option \<Rightarrow> bool \<Rightarrow> string list option" where
  "terminalFor configured incomplete = (if incomplete then Some [] else configured)"

section \<open>The ping plan per wait\<close>

definition IsSubagentThread :: "string \<Rightarrow> bool" where
  "IsSubagentThread threadID = has_prefix threadID ''a:''"

definition WindowsApply :: "string \<Rightarrow> bool \<Rightarrow> bool" where
  "WindowsApply cause subagent =
     (if cause = WaitingOwnTool \<or> cause = WaitingBackground \<or> cause = WaitingTeammate then False
      else if cause = WaitingHuman then \<not> subagent
      else True)"

definition orDefault :: "int \<Rightarrow> int \<Rightarrow> int" where
  "orDefault v d = (if v \<le> 0 then d else v)"

definition WaitPings :: "Policy \<Rightarrow> string \<Rightarrow> bool \<Rightarrow> int" where
  "WaitPings p cause subagent =
     (let base = MaxPings p in
      if \<not> WaitPlan p then base
      else
        let n = (if cause = WaitingOwnTool then max base (orDefault (ToolWaitMaxPings p) DefaultToolWaitMaxPings)
                 else if cause = WaitingBackground
                 then (if \<not> subagent then base + orDefault (BackgroundExtraPings p) DefaultBackgroundExtraPings else base)
                 else if cause = WaitingHuman
                 then (if \<not> subagent then base + orDefault (HumanExtraPings p) DefaultHumanExtraPings else base)
                 else base)
        in min n (max base MaxWaitPings))"

definition ToolStopReasons :: "string list" where
  "ToolStopReasons = [''tool_use'', ''tool_calls'', ''function_call'']"

definition toolStop :: "string \<Rightarrow> bool" where
  "toolStop stopReason = (stopReason \<in> set ToolStopReasons)"

definition toolStopWait :: "string \<Rightarrow> bool \<Rightarrow> string \<Rightarrow> string" where
  "toolStopWait w noNames stopReason =
     (if noNames \<and> toolStop stopReason \<and> w \<noteq> WaitingDone \<and> w \<noteq> WaitingRetry then WaitingOwnTool else w)"

definition calledATool :: "string list \<Rightarrow> bool \<Rightarrow> string \<Rightarrow> bool" where
  "calledATool names incomplete stopReason \<longleftrightarrow> names \<noteq> [] \<or> incomplete \<or> toolStop stopReason"

record SpanFacts =
  spCause :: string
  spStopReason :: string
  spSubagent :: bool
  spToolSeen :: bool
  spOpenAI :: bool
  spOneHour :: bool

definition storedWait :: "string \<Rightarrow> string \<Rightarrow> string" where
  "storedWait cause stopReason = toolStopWait cause (cause \<noteq> WaitingHuman \<and> cause \<noteq> WaitingOwnTool) stopReason"

definition SpanPings :: "Policy \<Rightarrow> SpanFacts \<Rightarrow> int \<times> duration" where
  "SpanPings p s =
     (if \<not> WaitPlan p \<or> spOpenAI s \<or> (spCause s = [] \<and> spStopReason s = []) then (MaxPings p, pIdle p)
      else
        let w = storedWait (spCause s) (spStopReason s) in
        if w = WaitingDone \<or> w = WaitingRetry \<or> \<not> spToolSeen s then (0, pIdle p)
        else if spOneHour s then (let q = ForOneHour p in (MaxPings q, pIdle q))
        else if pIdle p \<ge> 300 * second then (MaxPings p, pIdle p)
        else (WaitPings p w (spSubagent s), pIdle p))"

section \<open>The predictor\<close>

datatype StopReasonCluster = ClusterStillWorking | ClusterLooksDoneIsnt | ClusterActuallyDone

definition stillWorkingReasons :: "string list" where
  "stillWorkingReasons = [''tool_use'', ''stop_sequence'', ''tool_calls'', ''length'', ''content_filter'']"

definition actuallyDoneReasons :: "string list" where
  "actuallyDoneReasons = [''end_turn'', ''max_tokens'', ''refusal'']"

definition ClusterOf :: "string \<Rightarrow> StopReasonCluster" where
  "ClusterOf stopReason =
     (if stopReason \<in> set stillWorkingReasons then ClusterStillWorking
      else if stopReason \<in> set actuallyDoneReasons then ClusterActuallyDone
      else ClusterLooksDoneIsnt)"

definition predictorFor :: "string \<Rightarrow> (string \<Rightarrow> rat) option" where
  "predictorFor i =
     (if i = ''stop-reason-gated''
      then Some (\<lambda>stopReason. if ClusterOf stopReason = ClusterActuallyDone then 1 else 0)
      else None)"

section \<open>Models, prices and lifetimes\<close>

text \<open>The provider names are constants of the bifrost package; a constructor stands for each one the code tests.\<close>

datatype ModelProvider = Anthropic | Bedrock | BedrockMantle | Vertex | OpenAI | OtherProvider string

definition CacheWrite1hFor :: "Price \<Rightarrow> rat" where
  "CacheWrite1hFor p = (if Write1hFrac p > 0 then inputRate p * Write1hFrac p else inputRate p * 2)"

definition price_Cost :: "Price \<Rightarrow> int \<Rightarrow> int \<Rightarrow> int \<Rightarrow> int \<Rightarrow> rat" where
  "price_Cost p fresh cacheRead cacheWrite out =
     of_int fresh * inputRate p + of_int cacheRead * readRate p + of_int cacheWrite * writeRate p
     + of_int out * outputRate p"

definition CostWithCacheWrite1h :: "Price \<Rightarrow> int \<Rightarrow> int \<Rightarrow> int \<Rightarrow> int \<Rightarrow> int \<Rightarrow> rat" where
  "CostWithCacheWrite1h p fresh cacheRead cacheWrite out cacheWrite1h =
     (let cost = price_Cost p fresh cacheRead cacheWrite out in
      if cacheWrite1h > 0
      then (let premium = CacheWrite1hFor p - writeRate p in if premium > 0 then cost + of_int cacheWrite1h * premium else cost)
      else cost)"

definition price_Zero :: "Price \<Rightarrow> bool" where
  "price_Zero p \<longleftrightarrow> inputRate p = 0 \<and> outputRate p = 0 \<and> readRate p = 0 \<and> writeRate p = 0"

definition stripVariant :: "string \<Rightarrow> string" where
  "stripVariant s =
     (if \<not> has_suffix s '']'' then s
      else case dropWhile (\<lambda>c. c \<noteq> CHR ''['') (rev s) of
             [] \<Rightarrow> s
           | _ # before \<Rightarrow> if before = [] then s else rev before)"

definition Normalize :: "string \<Rightarrow> string" where
  "Normalize model = stripVariant (map to_lower (trim_space model))"

definition Families :: "string list" where
  "Families = [''opus'', ''sonnet'', ''haiku'', ''fable'']"

definition Family :: "string \<Rightarrow> string" where
  "Family model = (case find (str_contains (Normalize model)) Families of Some f \<Rightarrow> f | None \<Rightarrow> [])"

definition digit_run :: "string \<Rightarrow> string \<times> string" where
  "digit_run s = (takeWhile is_digit s, dropWhile is_digit s)"

definition decimal :: "string \<Rightarrow> int" where
  "decimal ds = foldl (\<lambda>n d. wrap64 (n * 10 + (of_char d - 48))) 0 ds"

text \<open>What follows the last occurrence of \<open>sub\<close>, for \<open>strings.LastIndex\<close>.\<close>

fun after_last :: "string \<Rightarrow> string \<Rightarrow> string option" where
  "after_last sub [] = (if sub = [] then Some [] else None)"
| "after_last sub (c # cs) =
     (case after_last sub cs of
        Some r \<Rightarrow> Some r
      | None \<Rightarrow> if has_prefix (c # cs) sub then Some (drop (length sub) (c # cs)) else None)"

definition GPT56OrLater :: "string \<Rightarrow> bool" where
  "GPT56OrLater model =
     (case after_last ''gpt-'' (map to_lower model) of
        None \<Rightarrow> False
      | Some v \<Rightarrow>
          (case digit_run v of (ds, rest) \<Rightarrow>
             let major = decimal ds in
             if ds = [] \<or> major \<noteq> 5 then major > 5
             else case rest of
                    [] \<Rightarrow> False
                  | c # v \<Rightarrow>
                      if c \<noteq> CHR ''.'' then False
                      else (case digit_run v of (ds, _) \<Rightarrow> ds \<noteq> [] \<and> decimal ds \<ge> 6)))"

definition OpenAI30MinuteCache :: "ModelProvider \<Rightarrow> string \<Rightarrow> bool" where
  "OpenAI30MinuteCache provider model \<longleftrightarrow> provider = OpenAI \<and> GPT56OrLater model"

definition HonoursCacheControl :: "ModelProvider \<Rightarrow> bool" where
  "HonoursCacheControl provider = (provider \<in> set [Anthropic, Bedrock, BedrockMantle, Vertex])"

definition FixedCacheLifetime :: "ModelProvider \<Rightarrow> string \<Rightarrow> duration \<times> bool" where
  "FixedCacheLifetime provider model =
     (if OpenAI30MinuteCache provider model then (OpenAIMinimumCacheTTL, True) else (0, False))"

definition CacheLifetime :: "ModelProvider \<Rightarrow> string \<Rightarrow> bool \<Rightarrow> duration" where
  "CacheLifetime provider model oneHour =
     (case FixedCacheLifetime provider model of
        (d, True) \<Rightarrow> d
      | (_, False) \<Rightarrow> if oneHour then AnthropicCacheTTL1h else AnthropicCacheTTL5m)"

definition WireFor :: "string \<Rightarrow> string \<Rightarrow> string" where
  "WireFor provider api = (if api = ''responses'' \<or> api = ''/v1/responses'' then ''responses'' else provider)"

definition IsResponses :: "string \<Rightarrow> bool" where "IsResponses wire \<longleftrightarrow> wire = ''responses''"

definition eligible :: "ModelProvider \<Rightarrow> string \<Rightarrow> string \<Rightarrow> bool" where
  "eligible p model route =
     (if HonoursCacheControl p then True
      else if p = OpenAI then IsResponses (WireFor [] route) \<and> OpenAI30MinuteCache p model
      else False)"

definition pingOutputBudget :: "string \<Rightarrow> int" where
  "pingOutputBudget route = (if IsResponses (WireFor [] route) then 16 else 1)"

text \<open>
  \<open>urlHost\<close> stands for \<open>url.Parse\<close> followed by \<open>Hostname\<close> (\<open>None\<close> is a parse error), \<open>extra\<close> for the
  value of \<open>CONTEXT_GURU_KEEPALIVE_MODELS\<close>.
\<close>

definition relayHost :: "(string \<Rightarrow> string option) \<Rightarrow> string \<Rightarrow> string" where
  "relayHost urlHost base =
     (case urlHost (if str_contains base ''://'' then base else ''//'' @ base) of
        None \<Rightarrow> []
      | Some h \<Rightarrow> map to_lower h)"

definition claudeModel :: "string \<Rightarrow> string \<Rightarrow> bool" where
  "claudeModel extra model =
     (let m = map to_lower model in
      Family model \<noteq> [] \<or> str_contains m ''claude''
      \<or> list_ex (\<lambda>w. w \<noteq> [] \<and> str_contains m w) (map (\<lambda>w. map to_lower (trim_space w)) (split_on (CHR '','') extra)))"

definition relayServesClaude :: "(string \<Rightarrow> string option) \<Rightarrow> string \<Rightarrow> ModelProvider \<Rightarrow> string \<Rightarrow> string \<Rightarrow> bool" where
  "relayServesClaude urlHost extra p base model =
     (if p \<noteq> Anthropic then True
      else let h = relayHost urlHost base in
           if h = ''anthropic.com'' \<or> has_suffix h ''.anthropic.com'' then True else claudeModel extra model)"

section \<open>The cache tier of a thread\<close>

text \<open>\<open>walk\<close> counts the objects under a query result and those that ask for one hour.\<close>

fun walk :: "json \<Rightarrow> nat \<times> nat" where
  "walk (JArr xs) = fold (\<lambda>v (t, e). case walk v of (t', e') \<Rightarrow> (t + t', e + e')) xs (0, 0)"
| "walk (JObj kvs) = (1, if map_of kvs ''ttl'' = Some (JStr ''1h'') then 1 else 0)"
| "walk _ = (0, 0)"

definition breakpoint_paths :: "string list" where
  "breakpoint_paths =
     [''messages.#.content.#.cache_control'', ''messages.#.cache_control'', ''system.#.cache_control'',
      ''tools.#.cache_control'']"

text \<open>\<open>get body path\<close> is gjson's answer to a query.\<close>

definition AllBreakpointsAskExtendedTTL :: "(bytes \<Rightarrow> string \<Rightarrow> json) \<Rightarrow> bytes \<Rightarrow> bool" where
  "AllBreakpointsAskExtendedTTL get body =
     (let rs = map (\<lambda>p. walk (get body p)) breakpoint_paths;
          total = sum_list (map fst rs); extended = sum_list (map snd rs)
      in total > 0 \<and> total = extended)"

definition ResolveTier :: "(bytes \<Rightarrow> string \<Rightarrow> json) \<Rightarrow> bytes \<Rightarrow> Usage \<Rightarrow> bool \<Rightarrow> bool \<Rightarrow> bool" where
  "ResolveTier get body u usageOK prev =
     (if \<not> usageOK \<or> \<not> AllBreakpointsAskExtendedTTL get body then False
      else if CacheWrite u > 0 then CacheWrite1h u \<ge> CacheWrite u
      else prev)"

text \<open>gjson's \<open>Array\<close>, \<open>Get\<close> and \<open>String\<close>; an array or object as a string is only compared with names.\<close>

definition json_array :: "json \<Rightarrow> json list" where
  "json_array v = (case v of JArr xs \<Rightarrow> xs | JNull \<Rightarrow> [] | _ \<Rightarrow> [v])"

definition json_field :: "json \<Rightarrow> string \<Rightarrow> json" where
  "json_field v k = (case v of JObj kvs \<Rightarrow> (case map_of kvs k of Some x \<Rightarrow> x | None \<Rightarrow> JNull) | _ \<Rightarrow> JNull)"

definition json_text :: "json \<Rightarrow> string" where
  "json_text v = (case v of JStr s \<Rightarrow> s | JNum s \<Rightarrow> s | JBool b \<Rightarrow> if b then ''true'' else ''false'' | _ \<Rightarrow> [])"

fun text_turn :: "json list \<Rightarrow> bool" where
  "text_turn [] = True"
| "text_turn (m # older) =
     (let role = json_text (json_field m ''role'') in
      if role = ''system'' \<or> role = ''developer'' then text_turn older
      else if role \<noteq> ''user'' then True
      else let blocks = json_array (json_field m ''content'') in
           blocks = [] \<or> json_text (json_field (last blocks) ''type'') \<noteq> ''tool_result'')"

definition endsAtTextTurn :: "(bytes \<Rightarrow> string \<Rightarrow> json) \<Rightarrow> bytes \<Rightarrow> bool" where
  "endsAtTextTurn get body = text_turn (rev (json_array (get body ''messages'')))"

section \<open>The pre-expiry window of a substitute\<close>

definition cachePhaseAt :: "instant \<Rightarrow> instant \<Rightarrow> duration \<Rightarrow> duration \<Rightarrow> CachePhase" where
  "cachePhaseAt prevStartedAt now ttl preExpiry =
     (let remaining = ttl - (now - prevStartedAt) in
      if remaining \<le> 0 then CachePhaseCold
      else if remaining \<le> preExpiry then CachePhasePreExpiry
      else CachePhaseWarm)"

definition preExpiryFor :: "int \<Rightarrow> duration" where
  "preExpiryFor seconds = (if seconds > 0 then wrap64 (seconds * second) else DefaultPreExpiry)"

definition substituteWindow :: "int \<Rightarrow> duration \<Rightarrow> duration \<Rightarrow> duration" where
  "substituteWindow seconds ttl idle =
     (let w = preExpiryFor seconds in
      if seconds > 0 then w
      else let slack = min (ttl - idle + 2 * tick) maxSubstituteWindow in
           if slack > w then slack else w)"

definition extraSummaryWindow :: "duration \<Rightarrow> duration \<Rightarrow> duration \<Rightarrow> duration" where
  "extraSummaryWindow w ttl idle =
     (let extra = ttl - (idle - extraSlotMargin) + 2 * tick in if extra > w then extra else w)"

section \<open>The mask of a held body\<close>

fun xor_char :: "char \<Rightarrow> char \<Rightarrow> char" where
  "xor_char (Char a0 a1 a2 a3 a4 a5 a6 a7) (Char b0 b1 b2 b3 b4 b5 b6 b7) =
     Char (a0 \<noteq> b0) (a1 \<noteq> b1) (a2 \<noteq> b2) (a3 \<noteq> b3) (a4 \<noteq> b4) (a5 \<noteq> b5) (a6 \<noteq> b6) (a7 \<noteq> b7)"

fun mask_from :: "bytes \<Rightarrow> nat \<Rightarrow> bytes \<Rightarrow> bytes" where
  "mask_from mk i [] = []"
| "mask_from mk i (c # cs) = xor_char c (mk ! (i mod length mk)) # mask_from mk (Suc i) cs"

definition mask :: "bytes \<Rightarrow> bytes \<Rightarrow> bytes" where
  "mask mk b = mask_from mk 0 b"

definition zero_bytes :: "bytes \<Rightarrow> bytes" where
  "zero_bytes b = map (\<lambda>_. CHR 0x00) b"

lemma xor_char_self [simp]: "xor_char (xor_char a k) k = a"
  by (cases a; cases k) auto

lemma mask_from_mask [simp]: "mask_from mk i (mask_from mk i b) = b"
  by (induction b arbitrary: i) simp_all

lemma mask_mask [simp]: "mask mk (mask mk b) = b"
  by (simp add: mask_def)

lemma length_mask_from [simp]: "length (mask_from mk i b) = length b"
  by (induction b arbitrary: i) simp_all

lemma length_mask [simp]: "length (mask mk b) = length b"
  by (simp add: mask_def)

section \<open>Bounds of the schedules\<close>

lemma ForOneHour_pings: "MaxPings (ForOneHour p) \<le> AnthropicMaxKeepAliveMaxPings1h"
  by (simp add: ForOneHour_def Let_def)

lemma ForOneHour_KeepAlive [simp]: "KeepAlive (ForOneHour p) = KeepAlive p"
  by (simp add: ForOneHour_def Let_def)

lemma ForOneHour_manual [simp]: "ManualHold (ForOneHour p) = ManualHold p"
  by (simp add: ForOneHour_def Let_def)

lemma ForOneHour_on: "On p \<Longrightarrow> On (ForOneHour p)"
  by (cases "pIdle p \<ge> 300 * second"; cases "Idle1h p \<le> 0"; cases "MaxPings1h p \<le> 0")
     (simp_all add: On_def ForOneHour_def Let_def ka_time)

lemma ForOneHour_idem: "Idle1h p \<ge> 300 * second \<or> Idle1h p \<le> 0 \<Longrightarrow> ForOneHour (ForOneHour p) = ForOneHour p"
  by (cases "pIdle p \<ge> 300 * second"; cases "Idle1h p \<le> 0"; cases "MaxPings1h p \<le> 0")
     (auto simp: ForOneHour_def Let_def ka_time min_def)

lemma WaitPings_base: "MaxPings p \<ge> 0 \<Longrightarrow> WaitPings p cause sub \<ge> MaxPings p"
  by (auto simp: WaitPings_def Let_def orDefault_def DefaultBackgroundExtraPings_def DefaultHumanExtraPings_def)

lemma WaitPings_cap: "WaitPlan p \<Longrightarrow> WaitPings p cause sub \<le> max (MaxPings p) MaxWaitPings"
  by (simp add: WaitPings_def Let_def)

end
