(* ===== verification/Wait_Tracker.thy ===== *)
theory Wait_Tracker
  imports Keepalive_Policy
begin

text \<open>
  The tracker behind the wait plan (\<open>src/internal/waitcause/waitcause.go\<close>): what a request's body says
  about open background tasks and open teammate waits, the state each thread keeps of them, the retry
  rule and the cause of a wake-up. \<open>Keepalive_Policy\<close> holds the classifier that reads the counts. A
  request is given by the messages \<open>apply.NormalizeMessages\<close> made of it and the value of its
  \<open>previous_response_id\<close>; \<open>arg\<close> stands for gjson on the arguments of a tool call and \<open>pick\<close> for the
  entry a Go map yields first. The recovery of a panic is not modelled: the model has no panic.
\<close>

section \<open>Expressions with groups\<close>

text \<open>
  A part of an expression is skipped or captured. A lazy repetition of one class prefers the shortest
  run, which is the greedy order reversed.
\<close>

datatype part = Skip re | Grab re | LazySkip re | LazyGrab re

fun runs :: "part list \<Rightarrow> string \<Rightarrow> nat \<Rightarrow> (nat \<times> string list) list" where
  "runs [] s i = [(i, [])]"
| "runs (p # ps) s i =
     (let go = (\<lambda>grab j. map (\<lambda>(e, gs). (e, if grab then take (j - i) (drop i s) # gs else gs)) (runs ps s j)) in
      case p of
        Skip r \<Rightarrow> concat (map (go False) (ends r s i))
      | Grab r \<Rightarrow> concat (map (go True) (ends r s i))
      | LazySkip r \<Rightarrow> concat (map (go False) (rev (ends r s i)))
      | LazyGrab r \<Rightarrow> concat (map (go True) (rev (ends r s i))))"

definition find_sub :: "part list \<Rightarrow> string \<Rightarrow> nat \<Rightarrow> (nat \<times> string list) option" where
  "find_sub ps s i =
     (case find (\<lambda>j. runs ps s j \<noteq> []) [i..<length s + 1] of None \<Rightarrow> None | Some j \<Rightarrow> Some (hd (runs ps s j)))"

fun find_all_sub :: "part list \<Rightarrow> string \<Rightarrow> nat \<Rightarrow> nat \<Rightarrow> string list list" where
  "find_all_sub ps s i 0 = []"
| "find_all_sub ps s i (Suc n) =
     (case find_sub ps s i of None \<Rightarrow> [] | Some (e, gs) \<Rightarrow> gs # find_all_sub ps s (if e = i then i + 1 else e) n)"

definition FindAllStringSubmatch :: "part list \<Rightarrow> string \<Rightarrow> string list list" where
  "FindAllStringSubmatch ps s = find_all_sub ps s 0 (length s + 1)"

definition FindStringSubmatch :: "part list \<Rightarrow> string \<Rightarrow> string list option" where
  "FindStringSubmatch ps s = map_option snd (find_sub ps s 0)"

definition Not_in :: "string \<Rightarrow> re" where "Not_in cs = Cls (\<lambda>x. x \<notin> set cs)"
definition NonSpace :: re where "NonSpace = Cls (\<lambda>x. \<not> re_space x)"
definition AnyChar :: re where "AnyChar = Cls (\<lambda>_. True)"

section \<open>The markers\<close>

definition teammateMarkerRE :: "string \<Rightarrow> bool" where
  "teammateMarkerRE text \<longleftrightarrow> str_contains text ''<teammate-message'' \<or> str_contains text ''<cross-session-message''"

definition teammateIDFinishRE :: "part list" where
  "teammateIDFinishRE =
     [Skip (Lit ''<teammate-message''), Skip WordEdge, Skip (Star (Not_in ''>'')), Skip WordEdge,
      Skip (Lit ''teammate_id=''), Skip (Chr (CHR 0x22)), Grab (Plus (Not_in [CHR 0x22])), Skip (Chr (CHR 0x22))]"

definition crossSessionNameRE :: "part list" where
  "crossSessionNameRE =
     [Skip (Lit ''<cross-session-message''), Skip WordEdge, Skip (Star (Not_in ''>'')), Skip WordEdge,
      Skip (Lit ''from-name=''), Skip (Chr (CHR 0x22)), Grab (Plus (Not_in [CHR 0x22])), Skip (Chr (CHR 0x22))]"

definition taskNotifMarkerRE :: "string \<Rightarrow> bool" where
  "taskNotifMarkerRE text = str_contains text ''<task-notification>''"

definition taskNotifBlockRE :: "part list" where
  "taskNotifBlockRE = [Skip (Lit ''<task-notification>''), LazyGrab (Star AnyChar), Skip (Lit ''</task-notification>'')]"

definition taskIDInBlockRE :: "part list" where
  "taskIDInBlockRE = [Skip (Lit ''<task-id>''), Grab (Plus (Not_in ''<'')), Skip (Lit ''</task-id>'')]"

definition monitorEventRE :: "string \<Rightarrow> bool" where
  "monitorEventRE text = str_contains text ''<summary>Monitor event:''"

definition monitorExpiredRE :: "string \<Rightarrow> bool" where
  "monitorExpiredRE text = str_contains text ''Monitor expired''"

definition agentMessageFromRE :: "part list" where
  "agentMessageFromRE =
     [Skip (Lit ''<agent-message''), Skip (Plus Space), Skip (Lit ''from=''), Skip (Chr (CHR 0x22)),
      Grab (Plus (Not_in [CHR 0x22])), Skip (Chr (CHR 0x22))]"

definition bgBashStartRE :: "part list" where
  "bgBashStartRE =
     [Skip (Lit ''running in background with ID:''), Skip (Star Space), LazyGrab (Plus NonSpace), Skip (Lit ''.'')]"

definition monitorStartRE :: "part list" where
  "monitorStartRE =
     [Skip (Lit ''Monitor started (task''), Skip (Plus Space), LazyGrab (Plus NonSpace), Skip (Lit '',''),
      Skip (Star Space), Grab (Star (Not_in '')'')), Skip (Lit '')'')]"

definition monitorExpiresInRE :: "part list" where
  "monitorExpiresInRE = [Skip (Lit ''expires in''), Skip (Plus Space), LazyGrab (Plus (Not_in '';'')), Skip (Lit '';'')]"

definition monitorTimeoutMsRE :: "part list" where
  "monitorTimeoutMsRE = [Skip (Lit ''timeout''), Skip (Plus Space), Grab (Plus Digit), Skip (Lit ''ms'')]"

definition asyncAgentStartRE :: "part list" where
  "asyncAgentStartRE =
     [Skip (Lit ''Async agent launched successfully''), LazySkip (Star AnyChar), Skip (Lit ''agentId:''),
      Skip (Star Space), Grab (Plus NonSpace)]"

definition bgSkillStartRE :: "string \<Rightarrow> bool" where
  "bgSkillStartRE text = str_contains text ''launched (forked execution, running in the background)''"

definition systemMarkers :: "string list" where
  "systemMarkers =
     [''<system-reminder'', ''Base directory for this skill:'', ''<command-name>'', ''<local-command-stdout'']"

definition hasSystemMarker :: "string \<Rightarrow> bool" where
  "hasSystemMarker text = list_ex (str_contains text) systemMarkers"

section \<open>Durations\<close>

text \<open>\<open>strconv.Atoi\<close> on digits: out of range it answers the largest integer and an error.\<close>

definition atoi :: "string \<Rightarrow> int \<times> bool" where
  "atoi ds =
     (let v = foldl (\<lambda>n d. n * 10 + (of_char d - 48)) 0 ds in
      if v \<ge> 2 ^ 63 then (2 ^ 63 - 1, False) else (v, True))"

text \<open>One optional part \<open>(?:(\d+)\s*c)?\<close> and what is left; it is taken whenever it can be.\<close>

definition opt_part :: "char \<Rightarrow> string \<Rightarrow> string \<times> string" where
  "opt_part c s =
     (let (ds, r) = digit_run s in
      case dropWhile re_space r of
        x # rest \<Rightarrow> if ds \<noteq> [] \<and> x = c then (ds, rest) else ([], s)
      | [] \<Rightarrow> ([], s))"

definition parseHMS :: "string \<Rightarrow> duration \<times> bool" where
  "parseHMS s =
     (let s = trim_space s;
          (h, s) = opt_part (CHR ''h'') s; s = dropWhile re_space s;
          (mi, s) = opt_part (CHR ''m'') s; s = dropWhile re_space s;
          (sec, _) = opt_part (CHR ''s'') s;
          of_part = (\<lambda>ds unit. if ds = [] then 0 else wrap64 (fst (atoi ds) * unit))
      in if h = [] \<and> mi = [] \<and> sec = [] then (0, False)
         else (wrap64 (wrap64 (of_part h hour + of_part mi minute) + of_part sec second), True))"

definition parseMonitorDuration :: "string \<Rightarrow> duration" where
  "parseMonitorDuration detail =
     (let by_ms = (case FindStringSubmatch monitorTimeoutMsRE detail of
                     Some [ds] \<Rightarrow> if snd (atoi ds) then wrap64 (fst (atoi ds) * millisecond) else 0
                   | _ \<Rightarrow> 0)
      in case FindStringSubmatch monitorExpiresInRE detail of
           Some [d] \<Rightarrow> if snd (parseHMS d) then fst (parseHMS d) else by_ms
         | _ \<Rightarrow> by_ms)"

section \<open>What a body says\<close>

datatype blockKind = kindText | kindToolUse | kindToolResult

record waitBlock =
  wb_kind :: blockKind
  wb_text :: string
  wb_toolName :: string
  wb_toolUseID :: string
  wb_input :: string

definition wait_text_block :: "string \<Rightarrow> waitBlock" where
  "wait_text_block text = \<lparr>wb_kind = kindText, wb_text = text, wb_toolName = [], wb_toolUseID = [], wb_input = []\<rparr>"

definition tool_use_block :: "call \<Rightarrow> waitBlock" where
  "tool_use_block c =
     \<lparr>wb_kind = kindToolUse, wb_text = [], wb_toolName = (case fn_name c of Some n \<Rightarrow> n | None \<Rightarrow> []),
      wb_toolUseID = (case call_id c of Some i \<Rightarrow> i | None \<Rightarrow> []), wb_input = fn_args c\<rparr>"

definition blocksOf :: "message \<Rightarrow> waitBlock list" where
  "blocksOf m =
     (let out = (case asstMsg m of None \<Rightarrow> [] | Some calls \<Rightarrow> map tool_use_block calls) in
      case toolMsg m of
        Some (Some i) \<Rightarrow>
          out @ [\<lparr>wb_kind = kindToolResult, wb_text = MessageText m, wb_toolName = [], wb_toolUseID = i, wb_input = []\<rparr>]
      | _ \<Rightarrow> if MessageText m \<noteq> [] then out @ [wait_text_block (MessageText m)] else out)"

text \<open>The signals of a block, in the order the scan acts on them.\<close>

datatype signal =
    Opens string duration
  | OpensAnon string
  | Asks string
  | Replies string
  | Closes string string
  | ClosesAnon string

definition use_signals :: "(string \<Rightarrow> string \<Rightarrow> string) \<Rightarrow> waitBlock \<Rightarrow> signal list" where
  "use_signals arg b =
     (if wb_toolName b = ''SendMessage''
      then (let to = arg (wb_input b) ''to'' in [Asks (if to = [] then ''anon:'' @ wb_toolUseID b else to)])
      else if wb_toolName b = ''TaskStop''
      then (let i = arg (wb_input b) ''task_id'' in if i \<noteq> [] then [Closes ''taskstop'' i] else [])
      else [])"

definition result_signals :: "waitBlock \<Rightarrow> signal list" where
  "result_signals b =
     (case FindStringSubmatch monitorStartRE (wb_text b) of
        Some [i, detail] \<Rightarrow> [Opens i (parseMonitorDuration detail)]
      | _ \<Rightarrow>
          (case FindStringSubmatch bgBashStartRE (wb_text b) of
             Some [i] \<Rightarrow> [Opens i 0]
           | _ \<Rightarrow>
               (case FindStringSubmatch asyncAgentStartRE (wb_text b) of
                  Some [i] \<Rightarrow> [Opens i 0]
                | _ \<Rightarrow> if bgSkillStartRE (wb_text b) then [OpensAnon (wb_toolUseID b)] else [])))"

definition notif_signals :: "string \<Rightarrow> signal list" where
  "notif_signals inner =
     (if \<not> (\<not> monitorEventRE inner \<or> monitorExpiredRE inner) then []
      else case FindStringSubmatch taskIDInBlockRE inner of
             Some [i] \<Rightarrow> [Closes ''notif'' i]
           | _ \<Rightarrow> [ClosesAnon (take 200 (''notif-raw:'' @ inner))])"

definition text_signals :: "string \<Rightarrow> signal list" where
  "text_signals text =
     map (Replies \<circ> hd) (FindAllStringSubmatch teammateIDFinishRE text)
     @ map (Replies \<circ> hd) (FindAllStringSubmatch crossSessionNameRE text)
     @ map (Closes ''agentmsg'' \<circ> hd) (FindAllStringSubmatch agentMessageFromRE text)
     @ concat (map (notif_signals \<circ> hd) (FindAllStringSubmatch taskNotifBlockRE text))"

definition block_signals :: "(string \<Rightarrow> string \<Rightarrow> string) \<Rightarrow> waitBlock \<Rightarrow> signal list" where
  "block_signals arg b =
     (case wb_kind b of
        kindToolUse \<Rightarrow> use_signals arg b
      | kindToolResult \<Rightarrow> result_signals b
      | kindText \<Rightarrow> text_signals (wb_text b))"

section \<open>The state of a thread\<close>

definition teammateWaitCap :: duration where "teammateWaitCap = 56 * minute"
definition noExpiryCap :: duration where "noExpiryCap = teammateWaitCap"
definition waitMaxThreads :: nat where "waitMaxThreads = 20000"
definition waitStaleAfter :: duration where "waitStaleAfter = 2 * hour"
definition maxTrackedKeys :: nat where "maxTrackedKeys = 512"

record bgOpen =
  bg_dur :: duration
  bg_firstSeen :: instant

record waitThread =
  lastStatus :: int
  lastMsgCount :: nat
  openBackground :: "(string \<times> bgOpen) list"
  anonOrder :: "string list"
  openTeammates :: "(string \<times> instant) list"
  appliedCloses :: "string list"
  wt_last :: instant

definition newThreadState :: waitThread where
  "newThreadState =
     \<lparr>lastStatus = 0, lastMsgCount = 0, openBackground = [], anonOrder = [], openTeammates = [], appliedCloses = [],
      wt_last = 0\<rparr>"

text \<open>The key the range statement yields first; \<open>pick\<close> chooses among the keys of the map.\<close>

type_synonym picker = "string list \<Rightarrow> nat"

definition first_key :: "picker \<Rightarrow> string list \<Rightarrow> string" where
  "first_key pick ks = ks ! (pick ks mod length ks)"

definition removeFromAnonOrder :: "string \<Rightarrow> waitThread \<Rightarrow> waitThread" where
  "removeFromAnonOrder i ts = ts\<lparr>anonOrder := remove1 i (anonOrder ts)\<rparr>"

definition openBG :: "picker \<Rightarrow> instant \<Rightarrow> string \<Rightarrow> duration \<Rightarrow> waitThread \<Rightarrow> waitThread" where
  "openBG pick now i dur ts =
     (if map_of (openBackground ts) i \<noteq> None then ts
      else
        let ts = (if length (openBackground ts) \<ge> maxTrackedKeys
                  then (let v = first_key pick (map fst (openBackground ts)) in
                        removeFromAnonOrder v (ts\<lparr>openBackground := AList.delete v (openBackground ts)\<rparr>))
                  else ts)
        in ts\<lparr>openBackground := AList.update i \<lparr>bg_dur = dur, bg_firstSeen = now\<rparr> (openBackground ts)\<rparr>)"

definition openAnon :: "picker \<Rightarrow> instant \<Rightarrow> string \<Rightarrow> waitThread \<Rightarrow> waitThread" where
  "openAnon pick now toolUseID ts =
     (let key = ''anon:'' @ toolUseID in
      if map_of (openBackground ts) key \<noteq> None then ts
      else let ts = openBG pick now key 0 ts in ts\<lparr>anonOrder := anonOrder ts @ [key]\<rparr>)"

definition rememberApplied :: "picker \<Rightarrow> string \<Rightarrow> waitThread \<Rightarrow> waitThread" where
  "rememberApplied pick sig ts =
     (let ts = (if length (appliedCloses ts) \<ge> maxTrackedKeys
                then ts\<lparr>appliedCloses := remove1 (first_key pick (appliedCloses ts)) (appliedCloses ts)\<rparr> else ts)
      in ts\<lparr>appliedCloses := List.insert sig (appliedCloses ts)\<rparr>)"

definition closeOldestAnon :: "picker \<Rightarrow> string \<Rightarrow> waitThread \<Rightarrow> waitThread" where
  "closeOldestAnon pick sig ts =
     (if sig \<in> set (appliedCloses ts) then ts
      else
        let ts = rememberApplied pick sig ts in
        case anonOrder ts of
          [] \<Rightarrow> ts
        | k # ks \<Rightarrow> ts\<lparr>openBackground := AList.delete k (openBackground ts), anonOrder := ks\<rparr>)"

definition closeByID :: "picker \<Rightarrow> string \<Rightarrow> string \<Rightarrow> waitThread \<Rightarrow> waitThread" where
  "closeByID pick sigPrefix i ts =
     (if map_of (openBackground ts) i \<noteq> None then ts\<lparr>openBackground := AList.delete i (openBackground ts)\<rparr>
      else closeOldestAnon pick (sigPrefix @ '':'' @ i) ts)"

definition askTeammate :: "picker \<Rightarrow> instant \<Rightarrow> string \<Rightarrow> waitThread \<Rightarrow> waitThread" where
  "askTeammate pick now to ts =
     (if map_of (openTeammates ts) to \<noteq> None then ts
      else
        let ts = (if length (openTeammates ts) \<ge> maxTrackedKeys
                  then ts\<lparr>openTeammates := AList.delete (first_key pick (map fst (openTeammates ts))) (openTeammates ts)\<rparr>
                  else ts)
        in ts\<lparr>openTeammates := AList.update to now (openTeammates ts)\<rparr>)"

fun act :: "picker \<Rightarrow> instant \<Rightarrow> signal \<Rightarrow> waitThread \<Rightarrow> waitThread" where
  "act pick now (Opens i dur) ts = openBG pick now i dur ts"
| "act pick now (OpensAnon i) ts = openAnon pick now i ts"
| "act pick now (Asks to) ts = askTeammate pick now to ts"
| "act pick now (Replies n) ts = ts\<lparr>openTeammates := AList.delete n (openTeammates ts)\<rparr>"
| "act pick now (Closes p i) ts = closeByID pick p i ts"
| "act pick now (ClosesAnon sig) ts = closeOldestAnon pick sig ts"

definition body_signals :: "(string \<Rightarrow> string \<Rightarrow> string) \<Rightarrow> message list \<Rightarrow> signal list" where
  "body_signals arg entries = concat (map (\<lambda>e. concat (map (block_signals arg) (blocksOf e))) entries)"

definition scanOpenState ::
  "(string \<Rightarrow> string \<Rightarrow> string) \<Rightarrow> picker \<Rightarrow> message list \<Rightarrow> instant \<Rightarrow> waitThread \<Rightarrow> waitThread" where
  "scanOpenState arg pick entries now ts = fold (act pick now) (body_signals arg entries) ts"

definition bg_expiry :: "bgOpen \<Rightarrow> instant" where
  "bg_expiry b = bg_firstSeen b + (if bg_dur b > 0 then bg_dur b else noExpiryCap)"

definition countBackgroundLocked :: "instant \<Rightarrow> waitThread \<Rightarrow> (int \<times> int) \<times> waitThread" where
  "countBackgroundLocked now ts =
     (let gone = map fst (filter (\<lambda>(_, b). \<not> bg_expiry b > now) (openBackground ts));
          left = filter (\<lambda>(_, b). bg_expiry b > now) (openBackground ts);
          stated = map (bg_expiry \<circ> snd) (filter (\<lambda>(_, b). bg_dur b > 0) left);
          ms = (if stated = [] then 0 else Max (set stated) div millisecond)
      in ((int (length left), ms), fold removeFromAnonOrder gone (ts\<lparr>openBackground := left\<rparr>)))"

definition countTeammatesLocked :: "instant \<Rightarrow> waitThread \<Rightarrow> int \<times> waitThread" where
  "countTeammatesLocked now ts =
     (let left = filter (\<lambda>(_, t). \<not> now - t \<ge> teammateWaitCap) (openTeammates ts)
      in (int (length left), ts\<lparr>openTeammates := left\<rparr>))"

section \<open>The tracker\<close>

record waitTracker =
  wt_threads :: "(string \<times> waitThread) list"

definition newTracker :: waitTracker where "newTracker = \<lparr>wt_threads = []\<rparr>"

definition wait_Key :: "string \<Rightarrow> string \<Rightarrow> string \<Rightarrow> string" where
  "wait_Key tenant session threadID = tenant @ [CHR 0x00] @ session @ [CHR 0x00] @ threadID"

definition wait_prune :: "instant \<Rightarrow> waitTracker \<Rightarrow> waitTracker" where
  "wait_prune now t =
     (let left = filter (\<lambda>(_, ts). \<not> now - wt_last ts > waitStaleAfter) (wt_threads t)
      in t\<lparr>wt_threads := (if length left \<ge> waitMaxThreads then [] else left)\<rparr>)"

definition threadLocked :: "string \<Rightarrow> instant \<Rightarrow> waitTracker \<Rightarrow> waitThread \<times> waitTracker" where
  "threadLocked key now t =
     (case map_of (wt_threads t) key of
        Some ts \<Rightarrow> (ts, t)
      | None \<Rightarrow>
          (let t = (if length (wt_threads t) \<ge> waitMaxThreads then wait_prune now t else t)
           in (newThreadState, t\<lparr>wt_threads := AList.update key newThreadState (wt_threads t)\<rparr>)))"

definition set_thread :: "string \<Rightarrow> waitThread \<Rightarrow> waitTracker \<Rightarrow> waitTracker" where
  "set_thread key ts t = t\<lparr>wt_threads := AList.update key ts (wt_threads t)\<rparr>"

section \<open>What woke a thread\<close>

definition WakeToolResult :: string where "WakeToolResult = ''tool_result''"
definition WakeBackground :: string where "WakeBackground = ''background''"
definition WakeTeammate :: string where "WakeTeammate = ''teammate''"
definition WakeHuman :: string where "WakeHuman = ''human''"
definition WakeSystem :: string where "WakeSystem = ''system''"
definition WakeRetry :: string where "WakeRetry = ''retry''"
definition WakeUnknown :: string where "WakeUnknown = ''unknown''"

lemmas wake_defs = WakeToolResult_def WakeBackground_def WakeTeammate_def WakeHuman_def WakeSystem_def
  WakeRetry_def WakeUnknown_def

definition isNoiseEntry :: "message \<Rightarrow> bool" where "isNoiseEntry m \<longleftrightarrow> role m = RoleSystem"

definition lastSubstantiveIndex :: "message list \<Rightarrow> nat option" where
  "lastSubstantiveIndex entries = find (\<lambda>i. \<not> isNoiseEntry (entries ! i)) (rev [0..<length entries])"

text \<open>How the wake classifier reads a text: the first case that applies.\<close>

datatype text_kind = TeammateText | NotifText | SystemText | PlainText | BlankText

definition text_kind_of :: "string \<Rightarrow> text_kind" where
  "text_kind_of text =
     (if teammateMarkerRE text then TeammateText
      else if taskNotifMarkerRE text \<or> FindStringSubmatch agentMessageFromRE text \<noteq> None then NotifText
      else if hasSystemMarker text then SystemText
      else if trim_space text \<noteq> [] then PlainText
      else BlankText)"

definition asked_human :: "message \<Rightarrow> bool" where
  "asked_human m = list_ex (\<lambda>b. wb_kind b = kindToolUse \<and> wb_toolName b \<in> set askHumanTools) (blocksOf m)"

definition classifyWake :: "message list \<Rightarrow> string" where
  "classifyWake entries =
     (case lastSubstantiveIndex entries of
        None \<Rightarrow> WakeUnknown
      | Some idx \<Rightarrow>
          (let bs = blocksOf (entries ! idx);
               askedHuman = (case lastSubstantiveIndex (take idx entries) of
                               None \<Rightarrow> False | Some p \<Rightarrow> asked_human (entries ! p));
               has = (\<lambda>k. list_ex (\<lambda>b. wb_kind b = kindText \<and> text_kind_of (wb_text b) = k) bs);
               hasToolResult = list_ex (\<lambda>b. wb_kind b = kindToolResult) bs
           in if has TeammateText then WakeTeammate
              else if has NotifText then WakeBackground
              else if hasToolResult then (if askedHuman then WakeHuman else WakeToolResult)
              else if has PlainText then WakeHuman
              else if has SystemText then WakeSystem
              else WakeUnknown))"

section \<open>The operations\<close>

record Observation =
  WakeCause :: string
  OpenBackground :: int
  OpenTeammate :: int
  MonitorExpiryMs :: int
  MsgCount :: nat

definition noObservation :: Observation where
  "noObservation = \<lparr>WakeCause = [], OpenBackground = 0, OpenTeammate = 0, MonitorExpiryMs = 0, MsgCount = 0\<rparr>"

definition isRetry :: "waitThread \<Rightarrow> nat \<Rightarrow> bool" where
  "isRetry ts n \<longleftrightarrow> lastStatus ts \<noteq> 0 \<and> go_div (lastStatus ts) 100 \<noteq> 2 \<and> lastMsgCount ts = n"

definition observe ::
  "(string \<Rightarrow> string \<Rightarrow> string) \<Rightarrow> picker \<Rightarrow> instant \<Rightarrow> string \<Rightarrow> string \<Rightarrow> message list \<Rightarrow> waitTracker
   \<Rightarrow> Observation \<times> waitTracker" where
  "observe arg pick now key previous entries t =
     (if previous \<noteq> [] \<or> entries = [] then (noObservation, t)
      else
        let n = length entries; (ts, t) = threadLocked key now t; retry = isRetry ts n;
            ts = scanOpenState arg pick entries now (ts\<lparr>wt_last := now\<rparr>);
            ((bg, ms), ts) = countBackgroundLocked now ts;
            (tm, ts) = countTeammatesLocked now ts
        in (\<lparr>WakeCause = (if retry then WakeRetry else classifyWake entries), OpenBackground = bg, OpenTeammate = tm,
             MonitorExpiryMs = ms, MsgCount = n\<rparr>, set_thread key ts t))"

definition OpenCounts :: "instant \<Rightarrow> string \<Rightarrow> waitTracker \<Rightarrow> (int \<times> int) \<times> waitTracker" where
  "OpenCounts now key t =
     (case map_of (wt_threads t) key of
        None \<Rightarrow> ((0, 0), t)
      | Some ts \<Rightarrow>
          (let ((bg, _), ts) = countBackgroundLocked now ts; (tm, ts) = countTeammatesLocked now ts
           in ((bg, tm), set_thread key ts t)))"

definition RecordOutcome :: "instant \<Rightarrow> string \<Rightarrow> nat \<Rightarrow> int \<Rightarrow> waitTracker \<Rightarrow> waitTracker" where
  "RecordOutcome now key msgCount status t =
     (let (ts, t) = threadLocked key now t
      in set_thread key (ts\<lparr>lastStatus := status, lastMsgCount := msgCount, wt_last := now\<rparr>) t)"

end
