(* ===== verification/Keepalive_Keeper.thy ===== *)
theory Keepalive_Keeper
  imports Keepalive_Policy
begin

text \<open>
  The state of the keep-alive keeper of \<open>src/keepalive\<close> and every operation on it that does not send a
  ping: \<open>keeper.go\<close>, \<open>breaker.go\<close>, \<open>lifecycle.go\<close> and \<open>manualhold.go\<close>. The entries are objects on a
  heap, because a ping that is out keeps a pointer to its entry after the entry has left the map: the
  map \<open>k_live\<close> takes a thread to an address, \<open>k_obj\<close> an address to the entry. \<open>k_sub\<close> holds the counters
  of the substitutes by name. An operation that holds
  the keeper's lock throughout is one step. What the keeper asks of the host and of the substitute
  registry is logged in \<open>k_calls\<close>, in order. The store, the emitter, the agent and the preset of a
  request are carried by the code for the report of a ping only and are left out, and so are the log
  lines.
\<close>

named_theorems keeper_defs \<open>definitions of the keeper's operations\<close>

section \<open>State\<close>

type_synonym Ref = string
type_synonym header = "(string \<times> string) list"

record TKey =
  kTenant :: string
  kSession :: string
  kThread :: string

definition key_id :: "TKey \<Rightarrow> string" where
  "key_id k = kTenant k @ [CHR 0x00] @ Key (kSession k) (kThread k)"

record kaEntry =
  e_key :: TKey
  e_client :: string
  e_cred :: string
  e_touchAlias :: string
  e_refreshedAt :: instant
  e_startedAt :: instant
  e_body :: bytes
  e_endpoint :: string
  e_hdr :: "header option"
  e_held :: bool
  e_ref :: Ref
  e_provider :: ModelProvider
  e_model :: string
  e_route :: string
  e_pol :: Policy
  e_pings :: int
  e_turn :: int
  e_prefix :: int
  e_turnRead :: int
  e_stopReason :: string
  e_toolUseNames :: "string list"
  e_usageOK :: bool
  e_terminal :: "string list option"
  e_wait :: string
  e_noTool :: bool
  e_endsAtText :: bool
  e_extraAsked :: bool
  e_pingRunning :: bool
  e_pingUSD :: rat
  e_spent :: rat
  e_refreshed :: int
  e_stopped :: bool
  e_missed :: int
  e_retried :: bool
  e_tag :: string
  e_ttl1h :: bool
  e_manualOnly :: bool
  e_holdFor :: duration
  e_ceiling :: "rat option"
  e_timer :: "instant option"

record refusal =
  rf_key :: TKey
  rf_reason :: string
  rf_at :: instant

text \<open>What the keeper asks of its host, and of the registry of substitutes.\<close>

datatype keeper_call =
  CallHold Ref
| CallRelease Ref
| CallClearCandidate string
| CallTouch string instant
| CallDo Ref string bytes
| CallReport TKey int rat

record Keeper =
  k_live :: "(string \<times> nat) list"
  k_obj :: "nat \<Rightarrow> kaEntry"
  k_next :: nat
  k_bytes :: int
  k_routeFails :: "(string \<times> int) list"
  k_routeTripped :: "(string \<times> instant) list"
  k_credDead :: "(string \<times> instant) list"
  k_routeTrips :: int
  k_inflight :: "(string \<times> int) list"
  k_ended :: "(string \<times> (string \<times> instant) list) list"
  k_turns :: "(string \<times> int) list"
  k_tier1h :: "(string \<times> bool) list"
  k_toolSeen :: "(string \<times> bool) list"
  k_lastVary :: "(string \<times> int) list"
  k_reasons :: "(string \<times> refusal) list"
  k_manualAt :: "(string \<times> instant) list"
  k_pings :: int
  k_skipped :: int
  k_failed :: int
  k_wrote :: int
  k_missed :: int
  k_spentUSD :: rat
  k_sub :: "(string \<times> int) list"
  k_calls :: "keeper_call list"

text \<open>
  The host: its prices, the JSON queries, the environment, the open-task counts, the process's mask
  key, and the two registries of candidates as they stand at the call. \<open>h_rank\<close> is the order in
  which Go iterates over the map of entries: the map with \<open>n\<close> entries is visited by increasing rank.
\<close>

record khost =
  h_price :: "string \<Rightarrow> string \<Rightarrow> int \<Rightarrow> Price option"
  h_get :: "bytes \<Rightarrow> string \<Rightarrow> json"
  h_str :: "bytes \<Rightarrow> string \<Rightarrow> string"
  h_urlHost :: "string \<Rightarrow> string option"
  h_models :: string
  h_env :: string
  h_openTasks :: "string \<Rightarrow> string \<Rightarrow> string \<Rightarrow> int \<times> int"
  h_terminal :: "string list option"
  h_maskKey :: bytes
  h_hasSummary :: "string \<Rightarrow> bool"
  h_hasSweep :: "string \<Rightarrow> bool"
  h_rank :: "nat \<Rightarrow> string \<Rightarrow> nat"

definition MaxSessions :: int where "MaxSessions = 512"
definition MaxBytes :: int where "MaxBytes = 134217728"
definition MaxTurnKeys :: int where "MaxTurnKeys = 20000"
definition MaxBodyBytes :: int where "MaxBodyBytes = 8388608"
definition ManualHoldMax :: duration where "ManualHoldMax = 300 * second"
definition ManualHoldMax1h :: duration where "ManualHoldMax1h = AnthropicDefaultKeepAliveIdle1h"
definition ManualHoldMaxPerTenant :: int where "ManualHoldMaxPerTenant = 16"
definition ManualHoldMaxBytesPerTenant :: int where "ManualHoldMaxBytesPerTenant = 33554432"
definition routeFailLimit :: int where "routeFailLimit = 3"
definition routeTripFor :: duration where "routeTripFor = hour"
definition lifecycleTTL :: duration where "lifecycleTTL = 12 * hour"
definition maxEndedPerTenant :: int where "maxEndedPerTenant = 2000"
definition maxReasons :: int where "maxReasons = MaxTurnKeys"

definition ReasonNotOptedIn :: string where "ReasonNotOptedIn = ''not opted in''"
definition ReasonTooLarge :: string where "ReasonTooLarge = ''too large''"
definition ReasonExpired :: string where "ReasonExpired = ''expired''"
definition ReasonOverBudget :: string where "ReasonOverBudget = ''over budget''"
definition ReasonUnsupported :: string where "ReasonUnsupported = ''unsupported''"
definition ReasonPingsUsed :: string where "ReasonPingsUsed = ''pings used''"
definition ReasonStopped :: string where "ReasonStopped = ''stopped''"
definition ReasonBelowLimits :: string where "ReasonBelowLimits = ''below limits''"
definition ReasonDone :: string where "ReasonDone = ''done''"
definition ReasonNoEntry :: string where "ReasonNoEntry = ''no entry''"
definition ReasonUnavailable :: string where "ReasonUnavailable = ''unavailable''"

lemmas reason_defs = ReasonNotOptedIn_def ReasonTooLarge_def ReasonExpired_def ReasonOverBudget_def
  ReasonUnsupported_def ReasonPingsUsed_def ReasonStopped_def ReasonBelowLimits_def ReasonDone_def
  ReasonNoEntry_def ReasonUnavailable_def

text \<open>The zero value of an entry, for the addresses no entry has.\<close>

definition noEntry :: kaEntry where
  "noEntry =
     \<lparr>e_key = \<lparr>kTenant = [], kSession = [], kThread = []\<rparr>, e_client = [], e_cred = [], e_touchAlias = [],
      e_refreshedAt = 0, e_startedAt = 0, e_body = [], e_endpoint = [], e_hdr = None, e_held = False, e_ref = [],
      e_provider = OtherProvider [], e_model = [], e_route = [], e_pol = zeroPolicy, e_pings = 0, e_turn = 0,
      e_prefix = 0, e_turnRead = 0, e_stopReason = [], e_toolUseNames = [], e_usageOK = False, e_terminal = None,
      e_wait = [], e_noTool = False, e_endsAtText = False, e_extraAsked = False, e_pingRunning = False,
      e_pingUSD = 0, e_spent = 0, e_refreshed = 0, e_stopped = False, e_missed = 0, e_retried = False, e_tag = [],
      e_ttl1h = False, e_manualOnly = False, e_holdFor = 0, e_ceiling = None, e_timer = None\<rparr>"

definition New :: Keeper where
  "New =
     \<lparr>k_live = [], k_obj = (\<lambda>_. noEntry), k_next = 0, k_bytes = 0, k_routeFails = [], k_routeTripped = [],
      k_credDead = [], k_routeTrips = 0, k_inflight = [], k_ended = [], k_turns = [], k_tier1h = [], k_toolSeen = [],
      k_lastVary = [], k_reasons = [], k_manualAt = [], k_pings = 0, k_skipped = 0, k_failed = 0, k_wrote = 0,
      k_missed = 0, k_spentUSD = 0, k_sub = [], k_calls = []\<rparr>"

abbreviation e_tenant :: "kaEntry \<Rightarrow> string" where "e_tenant e \<equiv> kTenant (e_key e)"
abbreviation e_session :: "kaEntry \<Rightarrow> string" where "e_session e \<equiv> kSession (e_key e)"
abbreviation e_thread :: "kaEntry \<Rightarrow> string" where "e_thread e \<equiv> kThread (e_key e)"

text \<open>A Go map's read with the zero value for a missing key.\<close>

definition get_or :: "'b \<Rightarrow> (string \<times> 'b) list \<Rightarrow> string \<Rightarrow> 'b" where
  "get_or z m key = (case map_of m key of Some v \<Rightarrow> v | None \<Rightarrow> z)"

definition upd :: "nat \<Rightarrow> (kaEntry \<Rightarrow> kaEntry) \<Rightarrow> Keeper \<Rightarrow> Keeper" where
  "upd a f k = k\<lparr>k_obj := (k_obj k)(a := f (k_obj k a))\<rparr>"

definition logCall :: "keeper_call \<Rightarrow> Keeper \<Rightarrow> Keeper" where
  "logCall c k = k\<lparr>k_calls := k_calls k @ [c]\<rparr>"

definition skip1 :: "Keeper \<Rightarrow> Keeper" where
  "skip1 k = k\<lparr>k_skipped := k_skipped k + 1\<rparr>"

definition bump :: "string \<Rightarrow> Keeper \<Rightarrow> Keeper" where
  "bump n k = k\<lparr>k_sub := AList.update n (get_or 0 (k_sub k) n + 1) (k_sub k)\<rparr>"

text \<open>The entries in the order a Go loop visits them.\<close>

definition visit :: "khost \<Rightarrow> Keeper \<Rightarrow> (string \<times> nat) list" where
  "visit H k = sort_key (\<lambda>x. h_rank H (length (k_live k)) (fst x)) (k_live k)"

section \<open>Entries\<close>

definition isDone :: "kaEntry \<Rightarrow> bool" where
  "isDone e = IsDone (e_toolUseNames e) (e_terminal e)"

definition pingable :: "kaEntry \<Rightarrow> bool" where
  "pingable e =
     (if e_turn e < 1 \<or> e_prefix e < MinPrefixTokens (e_pol e) \<or> exceeds (e_pingUSD e) (Ceiling (e_pol e)) then False
      else if isDone e then False
      else if e_noTool e then False
      else if PredictorID (e_pol e) = [] then True
      else case predictorFor (PredictorID (e_pol e)) of
             None \<Rightarrow> False
           | Some p \<Rightarrow> p (e_stopReason e) \<ge> PredictorThreshold (e_pol e))"

definition due :: "kaEntry \<Rightarrow> instant \<Rightarrow> bool" where
  "due e now \<longleftrightarrow> \<not> e_stopped e \<and> \<not> e_manualOnly e \<and> On (e_pol e) \<and> e_pings e < MaxPings (e_pol e)
     \<and> now \<ge> e_startedAt e + pIdle (e_pol e)"

definition extraWaiting :: "kaEntry \<Rightarrow> bool" where
  "extraWaiting e \<longleftrightarrow> e_endsAtText e \<and> \<not> e_extraAsked e \<and> \<not> e_stopped e \<and> \<not> e_manualOnly e \<and> On (e_pol e)
     \<and> e_pings e \<ge> MaxPings (e_pol e) \<and> e_pings e > 0 \<and> \<not> e_pingRunning e"

definition extraSlot :: "kaEntry \<Rightarrow> instant" where
  "extraSlot e = e_startedAt e + max (pIdle (e_pol e) - extraSlotMargin) (2 * tick)"

definition extraDue :: "kaEntry \<Rightarrow> instant \<Rightarrow> bool" where
  "extraDue e now \<longleftrightarrow> extraWaiting e \<and> now \<ge> extraSlot e \<and> now < e_startedAt e + pIdle (e_pol e)"

definition hold :: "kaEntry \<Rightarrow> duration" where
  "hold e = wrap64 ((MaxPings (e_pol e) + 1) * pIdle (e_pol e))"

definition toolWait :: "kaEntry \<Rightarrow> bool" where
  "toolWait e \<longleftrightarrow> e_wait e = WaitingOwnTool"

definition manualExpired :: "kaEntry \<Rightarrow> instant \<Rightarrow> bool" where
  "manualExpired e now \<longleftrightarrow> e_manualOnly e \<and> now \<ge> e_startedAt e + e_holdFor e"

definition entryCeiling :: "kaEntry \<Rightarrow> rat option" where
  "entryCeiling e = (if e_manualOnly e then e_ceiling e else Ceiling (e_pol e))"

definition autoReleaseReason :: "kaEntry \<Rightarrow> string" where
  "autoReleaseReason e =
     (if e_stopped e then ReasonStopped
      else if MaxPings (e_pol e) > 0 \<and> e_pings e \<ge> MaxPings (e_pol e) then ReasonPingsUsed
      else ReasonBelowLimits)"

definition holdFor :: "bool \<Rightarrow> duration" where
  "holdFor ttl1h = (if ttl1h then ManualHoldMax1h else ManualHoldMax)"

definition clear_entry :: "kaEntry \<Rightarrow> kaEntry" where
  "clear_entry e = e\<lparr>e_body := [], e_hdr := None, e_timer := None\<rparr>"

definition PingHeaders :: "header \<Rightarrow> header" where
  "PingHeaders src =
     (''Content-Type'', ''application/json'')
     # map (\<lambda>n. (n, get_or [] src n))
         (filter (\<lambda>n. get_or [] src n \<noteq> []) [''Anthropic-Version'', ''Anthropic-Beta'', ''OpenAI-Organization'', ''OpenAI-Project''])"

section \<open>Letting go of an entry\<close>

definition releaseLocked :: "nat \<Rightarrow> Keeper \<Rightarrow> Keeper" where
  "releaseLocked a k =
     (let e = k_obj k a in
      if e_held e then logCall (CallRelease (e_ref e)) (upd a (\<lambda>e. e\<lparr>e_held := False, e_ref := []\<rparr>) k) else k)"

text \<open>The four lines every exit from the map shares.\<close>

definition let_go :: "string \<Rightarrow> nat \<Rightarrow> Keeper \<Rightarrow> Keeper" where
  "let_go key a k =
     (let k = k\<lparr>k_bytes := k_bytes k - int (length (e_body (k_obj k a)))\<rparr>;
          k = upd a clear_entry (releaseLocked a k)
      in k\<lparr>k_live := AList.delete key (k_live k)\<rparr>)"

definition clear_candidate :: "nat \<Rightarrow> Keeper \<Rightarrow> Keeper" where
  "clear_candidate a k = logCall (CallClearCandidate (Key (e_session (k_obj k a)) (e_thread (k_obj k a)))) k"

definition retireLocked :: "string \<Rightarrow> Keeper \<Rightarrow> Keeper" where
  "retireLocked key k =
     (case map_of (k_live k) key of
        None \<Rightarrow> k
      | Some a \<Rightarrow> clear_candidate a (let_go key a k))"

section \<open>Why a thread is not held\<close>

definition setReasonLocked :: "instant \<Rightarrow> TKey \<Rightarrow> string \<Rightarrow> Keeper \<Rightarrow> Keeper" where
  "setReasonLocked now key reason k =
     (let rs = k_reasons k;
          rs = (if int (length rs) \<ge> maxReasons
                then (let rs = filter (\<lambda>(_, r). rf_at r \<ge> now - 30 * minute) rs in
                      if int (length rs) \<ge> maxReasons then [] else rs)
                else rs)
      in k\<lparr>k_reasons := AList.update (key_id key) \<lparr>rf_key = key, rf_reason = reason, rf_at = now\<rparr> rs\<rparr>)"

definition clearReasonLocked :: "TKey \<Rightarrow> Keeper \<Rightarrow> Keeper" where
  "clearReasonLocked key k = k\<lparr>k_reasons := AList.delete (key_id key) (k_reasons k)\<rparr>"

definition dropReasonsLocked :: "string \<Rightarrow> string \<Rightarrow> Keeper \<Rightarrow> Keeper" where
  "dropReasonsLocked tenant session k =
     k\<lparr>k_reasons := filter (\<lambda>(_, r). \<not> (kTenant (rf_key r) = tenant \<and> (session = [] \<or> kSession (rf_key r) = session)))
                     (k_reasons k)\<rparr>"

section \<open>The route breaker and the dead credentials\<close>

definition routeKey :: "string \<Rightarrow> string \<Rightarrow> string \<Rightarrow> string \<Rightarrow> string" where
  "routeKey tenant endpoint route model = tenant @ [CHR 0x00] @ endpoint @ route @ [CHR 0x00] @ model"

definition credModelKey :: "string \<Rightarrow> string \<Rightarrow> string \<Rightarrow> string" where
  "credModelKey tenant cred model = tenant @ [CHR 0x00] @ cred @ [CHR 0x00] @ model"

definition credAllKey :: "string \<Rightarrow> string \<Rightarrow> string" where
  "credAllKey tenant cred = tenant @ [CHR 0x00] @ cred"

definition routeFailedLocked :: "string \<Rightarrow> instant \<Rightarrow> Keeper \<Rightarrow> bool \<times> Keeper" where
  "routeFailedLocked route now k =
     (let k = k\<lparr>k_routeTripped := filter (\<lambda>(_, until). now < until) (k_routeTripped k)\<rparr>;
          n = get_or 0 (k_routeFails k) route + 1
      in if n \<ge> routeFailLimit
         then (True, k\<lparr>k_routeFails := AList.delete route (k_routeFails k),
                       k_routeTripped := AList.update route (now + routeTripFor) (k_routeTripped k),
                       k_routeTrips := k_routeTrips k + 1\<rparr>)
         else (False, k\<lparr>k_routeFails := AList.update route n (k_routeFails k)\<rparr>))"

definition routeOKLocked :: "string \<Rightarrow> Keeper \<Rightarrow> Keeper" where
  "routeOKLocked route k = k\<lparr>k_routeFails := AList.delete route (k_routeFails k)\<rparr>"

definition routeIsTrippedLocked :: "string \<Rightarrow> instant \<Rightarrow> Keeper \<Rightarrow> bool" where
  "routeIsTrippedLocked route now k = (case map_of (k_routeTripped k) route of Some until \<Rightarrow> now < until | None \<Rightarrow> False)"

definition markCredDeadLocked :: "string \<Rightarrow> string \<Rightarrow> string \<Rightarrow> int \<Rightarrow> instant \<Rightarrow> Keeper \<Rightarrow> Keeper" where
  "markCredDeadLocked tenant cred model status now k =
     (let dead = filter (\<lambda>(_, until). now < until) (k_credDead k);
          key = (if status = 401 then credAllKey tenant cred else credModelKey tenant cred model)
      in k\<lparr>k_credDead := AList.update key (now + routeTripFor) dead\<rparr>)"

definition credIsDeadLocked :: "string \<Rightarrow> string \<Rightarrow> string \<Rightarrow> instant \<Rightarrow> Keeper \<Rightarrow> bool" where
  "credIsDeadLocked tenant cred model now k =
     (if cred = [] then False
      else list_ex (\<lambda>key. case map_of (k_credDead k) key of Some until \<Rightarrow> now < until | None \<Rightarrow> False)
             [credAllKey tenant cred, credModelKey tenant cred model])"

text \<open>The two checks every send repeats.\<close>

definition blocked :: "kaEntry \<Rightarrow> instant \<Rightarrow> Keeper \<Rightarrow> bool" where
  "blocked e now k \<longleftrightarrow>
     routeIsTrippedLocked (routeKey (e_tenant e) (e_endpoint e) (e_route e) (e_model e)) now k
     \<or> credIsDeadLocked (e_tenant e) (e_cred e) (e_model e) now k"

definition stoppedAndBlockedLocked :: "kaEntry \<Rightarrow> instant \<Rightarrow> Keeper \<Rightarrow> bool" where
  "stoppedAndBlockedLocked e now k \<longleftrightarrow> e_stopped e \<and> blocked e now k"

section \<open>Open requests\<close>

definition ArriveAt :: "TKey \<Rightarrow> Keeper \<Rightarrow> (int \<times> int \<times> string \<times> instant) \<times> Keeper" where
  "ArriveAt key k =
     (if kSession key = [] then ((0, 0, [], 0), k)
      else
        let i = key_id key;
            k = k\<lparr>k_inflight := AList.update i (get_or 0 (k_inflight k) i + 1) (k_inflight k)\<rparr>
        in case map_of (k_live k) i of
             None \<Rightarrow> ((0, 0, [], 0), k)
           | Some a \<Rightarrow>
               (let e = k_obj k a in ((e_pings e, e_refreshed e, e_tag e, e_refreshedAt e), let_go i a k)))"

definition departLocked :: "string \<Rightarrow> Keeper \<Rightarrow> Keeper" where
  "departLocked i k =
     (if get_or 0 (k_inflight k) i \<le> 1 then k\<lparr>k_inflight := AList.delete i (k_inflight k)\<rparr>
      else k\<lparr>k_inflight := AList.update i (get_or 0 (k_inflight k) i - 1) (k_inflight k)\<rparr>)"

definition Depart :: "TKey \<Rightarrow> Keeper \<Rightarrow> Keeper" where
  "Depart key k = (if kSession key = [] then k else departLocked (key_id key) k)"

section \<open>Eviction\<close>

fun worst_entry :: "Keeper \<Rightarrow> (string \<times> nat) list \<Rightarrow> (string \<times> nat) option \<Rightarrow> (string \<times> nat) option" where
  "worst_entry k [] w = w"
| "worst_entry k ((key, a) # rest) w =
     worst_entry k rest
       (case w of
          None \<Rightarrow> Some (key, a)
        | Some (_, b) \<Rightarrow>
            let e = k_obj k a; f = k_obj k b in
            if (e_manualOnly e \<and> \<not> e_manualOnly f)
               \<or> (e_manualOnly e = e_manualOnly f \<and> e_startedAt e > e_startedAt f)
            then Some (key, a) else w)"

lemma worst_entry_in: "worst_entry k xs w = Some x \<Longrightarrow> x \<in> set xs \<or> w = Some x"
  by (induction k xs w rule: worst_entry.induct) (auto simp: Let_def split: option.splits if_splits)

lemma set_visit [simp]: "set (visit H k) = set (k_live k)"
  by (simp add: visit_def)

lemma length_let_go:
  "(key, a) \<in> set (k_live k) \<Longrightarrow> length (k_live (let_go key a k)) < length (k_live k)"
  by (force simp: let_go_def Let_def upd_def releaseLocked_def logCall_def AList.delete_eq
      intro: length_filter_less)

function evictLocked :: "khost \<Rightarrow> Keeper \<Rightarrow> Keeper" where
  "evictLocked H k =
     (if int (length (k_live k)) > MaxSessions \<or> k_bytes k > MaxBytes
      then (case worst_entry k (visit H k) None of
              None \<Rightarrow> k
            | Some (key, a) \<Rightarrow> evictLocked H (skip1 (clear_candidate a (let_go key a k))))
      else k)"
  by auto
termination
  by (relation "measure (\<lambda>(H, k). length (k_live k))")
     (auto simp: skip1_def clear_candidate_def logCall_def dest!: worst_entry_in intro!: length_let_go)

declare evictLocked.simps [simp del]

lemma setReasonLocked_live [simp]: "k_live (setReasonLocked now key r k) = k_live k"
  by (simp add: setReasonLocked_def Let_def)

fun oldest_manual :: "string \<Rightarrow> Keeper \<Rightarrow> (string \<times> nat) list \<Rightarrow> int \<times> int \<times> (string \<times> nat) option \<Rightarrow> int \<times> int \<times> (string \<times> nat) option" where
  "oldest_manual tenant k [] acc = acc"
| "oldest_manual tenant k ((key, a) # rest) (n, bytes, old) =
     (let e = k_obj k a in
      if \<not> e_manualOnly e \<or> e_tenant e \<noteq> tenant then oldest_manual tenant k rest (n, bytes, old)
      else oldest_manual tenant k rest
             (n + 1, bytes + int (length (e_body e)),
              (case old of
                 None \<Rightarrow> Some (key, a)
               | Some (_, b) \<Rightarrow> if e_startedAt e < e_startedAt (k_obj k b) then Some (key, a) else old)))"

lemma oldest_manual_in:
  "oldest_manual tenant k xs (n, bs, old) = (n', bs', Some x) \<Longrightarrow> x \<in> set xs \<or> old = Some x"
  by (induction tenant k xs "(n, bs, old)" arbitrary: n bs old rule: oldest_manual.induct)
     (force simp: Let_def split: option.splits if_splits)+

function evictManualLocked :: "khost \<Rightarrow> instant \<Rightarrow> string \<Rightarrow> Keeper \<Rightarrow> Keeper" where
  "evictManualLocked H now tenant k =
     (case oldest_manual tenant k (visit H k) (0, 0, None) of
        (n, bytes, None) \<Rightarrow> k
      | (n, bytes, Some (key, a)) \<Rightarrow>
          if n \<le> ManualHoldMaxPerTenant \<and> bytes \<le> ManualHoldMaxBytesPerTenant then k
          else evictManualLocked H now tenant
                 (skip1 (clear_candidate a (let_go key a (setReasonLocked now (e_key (k_obj k a)) ReasonNoEntry k)))))"
  by auto
termination
  by (relation "measure (\<lambda>(H, now, tenant, k). length (k_live k))")
     (auto simp: skip1_def clear_candidate_def logCall_def dest!: oldest_manual_in [OF sym]
        intro!: length_let_go [of _ _ "setReasonLocked _ _ _ _", simplified])

declare evictManualLocked.simps [simp del]

section \<open>Retiring a session, a tenant, everything\<close>

definition drop_where :: "khost \<Rightarrow> (string \<Rightarrow> kaEntry \<Rightarrow> bool) \<Rightarrow> Keeper \<Rightarrow> Keeper" where
  "drop_where H P k =
     fold (\<lambda>(key, a) k. if P key (k_obj k a) then clear_candidate a (let_go key a k) else k) (visit H k) k"

text \<open>\<open>None\<close> is the zero cutoff: every thread of the session.\<close>

definition started_before :: "string \<Rightarrow> string \<Rightarrow> instant option \<Rightarrow> string \<Rightarrow> kaEntry \<Rightarrow> bool" where
  "started_before tenant session cutoff key e =
     (let base = key_id \<lparr>kTenant = tenant, kSession = session, kThread = []\<rparr>;
          own = (key = base \<or> has_prefix key (base @ [CHR 0x00])
                 \<or> (e_client e \<noteq> [] \<and> e_tenant e = tenant \<and> e_client e = session))
      in own \<and> (case cutoff of None \<Rightarrow> True | Some c \<Rightarrow> e_thread e = [] \<and> e_startedAt e < c))"

definition RetireSessionStartedBefore ::
  "khost \<Rightarrow> string \<Rightarrow> string \<Rightarrow> instant option \<Rightarrow> Keeper \<Rightarrow> int \<times> Keeper" where
  "RetireSessionStartedBefore H tenant session cutoff k =
     (let k' = drop_where H (started_before tenant session cutoff) k;
          n = int (length (k_live k)) - int (length (k_live k'))
      in (n, if cutoff = None then dropReasonsLocked tenant session k' else k'))"

definition RetireSession :: "khost \<Rightarrow> string \<Rightarrow> string \<Rightarrow> Keeper \<Rightarrow> Keeper" where
  "RetireSession H tenant session k = snd (RetireSessionStartedBefore H tenant session None k)"

definition without_prefix :: "string \<Rightarrow> (string \<times> 'b) list \<Rightarrow> (string \<times> 'b) list" where
  "without_prefix p m = filter (\<lambda>(key, _). \<not> has_prefix key p) m"

definition Forget :: "khost \<Rightarrow> string \<Rightarrow> Keeper \<Rightarrow> Keeper" where
  "Forget H tenantID k =
     (let p = tenantID @ [CHR 0x00];
          gone = filter (\<lambda>key. has_prefix key p) (map fst (k_live k));
          k = drop_where H (\<lambda>key _. has_prefix key p) k;
          k = k\<lparr>k_turns := filter (\<lambda>(key, _). key \<notin> set gone) (k_turns k),
                k_tier1h := filter (\<lambda>(key, _). key \<notin> set gone) (k_tier1h k),
                k_toolSeen := filter (\<lambda>(key, _). key \<notin> set gone) (k_toolSeen k),
                k_lastVary := without_prefix p (k_lastVary k),
                k_ended := AList.delete tenantID (k_ended k)\<rparr>;
          k = dropReasonsLocked tenantID [] k
      in k\<lparr>k_routeFails := without_prefix p (k_routeFails k), k_routeTripped := without_prefix p (k_routeTripped k),
           k_credDead := without_prefix p (k_credDead k), k_inflight := without_prefix p (k_inflight k)\<rparr>)"

definition Shutdown :: "khost \<Rightarrow> Keeper \<Rightarrow> Keeper" where
  "Shutdown H k =
     (drop_where H (\<lambda>_ _. True) k)\<lparr>k_bytes := 0, k_turns := [], k_tier1h := [], k_toolSeen := [], k_lastVary := []\<rparr>"

section \<open>Client lifecycle signals\<close>

fun oldest_mark :: "instant \<Rightarrow> (string \<times> instant) list \<Rightarrow> string \<times> instant \<Rightarrow> string \<times> instant" where
  "oldest_mark now [] w = w"
| "oldest_mark now ((kk, t) # rest) (oldK, oldT) =
     oldest_mark now rest
       (if now - t > lifecycleTTL then (oldK, oldT)
        else if oldK = [] \<or> t < oldT then (kk, t)
        else (oldK, oldT))"

definition markEndedLocked :: "khost \<Rightarrow> string \<Rightarrow> string \<Rightarrow> instant \<Rightarrow> Keeper \<Rightarrow> Keeper" where
  "markEndedLocked H tenant session now k =
     (let b = get_or [] (k_ended k) tenant;
          b = (if map_of b session = None \<and> int (length b) \<ge> maxEndedPerTenant
               then (let old = fst (oldest_mark now (sort_key (\<lambda>x. h_rank H (length b) (fst x)) b) ([], now));
                         b = filter (\<lambda>(_, t). \<not> now - t > lifecycleTTL) b
                     in if int (length b) \<ge> maxEndedPerTenant then AList.delete old b else b)
               else b)
      in k\<lparr>k_ended := AList.update tenant (AList.update session now b) (k_ended k)\<rparr>)"

definition MarkEnded :: "khost \<Rightarrow> string \<Rightarrow> string \<Rightarrow> instant \<Rightarrow> Keeper \<Rightarrow> Keeper" where
  "MarkEnded = markEndedLocked"

definition endedAfterLocked :: "string \<Rightarrow> string \<Rightarrow> instant \<Rightarrow> Keeper \<Rightarrow> bool" where
  "endedAfterLocked tenant session startedAt k =
     (case map_of (get_or [] (k_ended k) tenant) session of Some t \<Rightarrow> \<not> startedAt > t | None \<Rightarrow> False)"

section \<open>Recording a finished request\<close>

record KRecord =
  r_Key :: TKey
  r_StartedAt :: instant
  r_Body :: bytes
  r_TouchAlias :: string
  r_Provider :: ModelProvider
  r_Endpoint :: string
  r_Route :: string
  r_Status :: int
  r_Usage :: Usage
  r_Cred :: string
  r_Client :: string
  r_UsageOK :: bool
  r_ToolUseNames :: "string list"
  r_ToolUseIncomplete :: bool
  r_Policy :: Policy
  r_Tag :: string
  r_Header :: header
  r_Hold :: "Ref option"

definition projectedPingUSD :: "khost \<Rightarrow> string \<Rightarrow> int \<Rightarrow> string \<Rightarrow> string \<Rightarrow> rat" where
  "projectedPingUSD H model prefix route endpoint =
     (if model = [] \<or> prefix \<le> 0 then 0
      else case h_price H endpoint model prefix of
             None \<Rightarrow> 0
           | Some p \<Rightarrow>
               if price_Zero p then 0
               else of_int prefix * readRate p + of_int (pingOutputBudget route) * outputRate p)"

definition WaitingFor :: "khost \<Rightarrow> TKey \<Rightarrow> string list \<Rightarrow> bool \<Rightarrow> string \<Rightarrow> bool \<Rightarrow> string" where
  "WaitingFor H key names incomplete stopReason usageOK =
     (let (bg, tm) = h_openTasks H (kTenant key) (kSession key) (kThread key);
          (w, _) = ClassifyWaitingForTerminal (terminalFor (h_terminal H) incomplete) names stopReason False usageOK bg tm
      in toolStopWait w (names = []) stopReason)"

text \<open>The policy, the tier, whether the plan covers the thread, and what it waits for.\<close>

definition record_plan :: "khost \<Rightarrow> KRecord \<Rightarrow> bool \<Rightarrow> Policy \<times> bool \<times> bool \<times> string" where
  "record_plan H r prev1h =
     (let pol = r_Policy r; u = r_Usage r;
          ttl1h = (ResolveTier (h_get H) (r_Body r) u (r_UsageOK r) prev1h \<and> r_Provider r \<noteq> OpenAI);
          pol = (if ttl1h \<and> On pol then ForOneHour pol else pol);
          guard = (WaitPlan pol \<and> On pol \<and> r_Provider r \<noteq> OpenAI);
          planned = (guard \<and> \<not> ttl1h \<and> pIdle pol < 300 * second);
          wait = (if guard
                  then WaitingFor H (r_Key r) (r_ToolUseNames r) (r_ToolUseIncomplete r) (UStopReason u) (r_UsageOK r)
                  else []);
          pol = (if planned then pol\<lparr>MaxPings := WaitPings pol wait (IsSubagentThread (kThread (r_Key r)))\<rparr> else pol)
      in (pol, ttl1h, guard, wait))"

definition make_entry :: "khost \<Rightarrow> KRecord \<Rightarrow> Policy \<times> bool \<times> bool \<times> string \<Rightarrow> kaEntry" where
  "make_entry H r pl =
     (case pl of (pol, ttl1h, guard, wait) \<Rightarrow>
        let u = r_Usage r; model = h_str H (r_Body r) ''model''; prefix = CacheRead u + CacheWrite u in
        noEntry
          \<lparr>e_key := r_Key r, e_client := r_Client r, e_startedAt := r_StartedAt r, e_cred := r_Cred r,
           e_touchAlias := r_TouchAlias r, e_body := mask (h_maskKey H) (r_Body r), e_endpoint := r_Endpoint r,
           e_provider := r_Provider r, e_model := model, e_route := r_Route r, e_pol := pol, e_ttl1h := ttl1h,
           e_prefix := prefix, e_turnRead := CacheRead u, e_stopReason := UStopReason u, e_wait := wait,
           e_toolUseNames := r_ToolUseNames r, e_usageOK := r_UsageOK r,
           e_terminal := terminalFor (h_terminal H) (r_ToolUseIncomplete r),
           e_endsAtText := (r_Provider r \<noteq> OpenAI \<and> endsAtTextTurn (h_get H) (r_Body r)),
           e_pingUSD := projectedPingUSD H model prefix (r_Route r) (r_Endpoint r),
           e_hdr := Some (PingHeaders (r_Header r)), e_tag := r_Tag r, e_refreshedAt := r_StartedAt r\<rparr>)"

text \<open>The per-thread memory that outlives the entry, with its reset at \<open>MaxTurnKeys\<close>.\<close>

definition count_turn :: "KRecord \<Rightarrow> bool \<Rightarrow> Keeper \<Rightarrow> Keeper" where
  "count_turn r ttl1h k =
     (let key = key_id (r_Key r); u = r_Usage r;
          n = get_or 0 (k_turns k) key + 1;
          seen = (get_or False (k_toolSeen k) key \<or> calledATool (r_ToolUseNames r) (r_ToolUseIncomplete r) (UStopReason u));
          billed = (r_UsageOK r \<and> (CacheWrite u > 0 \<or> ttl1h));
          k = k\<lparr>k_turns := AList.update key n (k_turns k), k_toolSeen := AList.update key seen (k_toolSeen k),
                k_tier1h := (if billed then AList.update key ttl1h (k_tier1h k) else k_tier1h k)\<rparr>
      in if int (length (k_turns k)) > MaxTurnKeys
         then k\<lparr>k_turns := [(key, n)], k_toolSeen := [(key, seen)],
                k_tier1h := (if billed then [(key, ttl1h)] else []),
                k_lastVary := filter (\<lambda>(i, _). i = key \<or> i \<in> set (map fst (k_live k))) (k_lastVary k)\<rparr>
         else k)"

definition insert_entry :: "instant \<Rightarrow> Ref option \<Rightarrow> kaEntry \<Rightarrow> Keeper \<Rightarrow> Keeper" where
  "insert_entry now hold_ref e k =
     (let key = key_id (e_key e); a = k_next k;
          k = clearReasonLocked (e_key e) k;
          k = (upd a (\<lambda>_. e) k)\<lparr>k_next := Suc a, k_live := AList.update key a (k_live k),
                                k_bytes := k_bytes k + int (length (e_body e))\<rparr>;
          k = (case hold_ref of
                 None \<Rightarrow> k
               | Some ref \<Rightarrow> logCall (CallHold ref) (upd a (\<lambda>e. e\<lparr>e_ref := ref, e_held := True\<rparr>) k))
      in upd a (\<lambda>e. e\<lparr>e_timer := Some (now + (if e_manualOnly e then e_holdFor e else hold e))\<rparr>) k)"

definition place :: "khost \<Rightarrow> instant \<Rightarrow> Ref option \<Rightarrow> kaEntry \<Rightarrow> Keeper \<Rightarrow> Keeper" where
  "place H now hold_ref e k =
     (if e_manualOnly e
      then evictLocked H (evictManualLocked H now (e_tenant e) (insert_entry now hold_ref e k))
      else evictLocked H (insert_entry now hold_ref e k))"

definition admit :: "khost \<Rightarrow> instant \<Rightarrow> KRecord \<Rightarrow> kaEntry \<Rightarrow> Keeper \<Rightarrow> Keeper" where
  "admit H now r e k =
     (let key = key_id (r_Key r); pol = e_pol e;
          k = (case map_of (k_live k) key of None \<Rightarrow> k | Some prev \<Rightarrow> let_go key prev k)
      in if \<not> On pol \<or> \<not> pingable e
         then (if \<not> ManualHold pol
               then skip1 (setReasonLocked now (r_Key r)
                      (if On pol \<and> isDone e then ReasonDone
                       else if exceeds (e_pingUSD e) (Ceiling pol) then ReasonOverBudget
                       else ReasonBelowLimits) k)
               else if exceeds (e_pingUSD e) (Ceiling pol)
               then skip1 (setReasonLocked now (r_Key r) ReasonOverBudget k)
               else place H now (r_Hold r)
                      (e\<lparr>e_manualOnly := True, e_holdFor := holdFor (e_ttl1h e), e_ceiling := Ceiling pol,
                         e_pol := zeroPolicy\<lparr>ManualHold := True\<rparr>\<rparr>) k)
         else place H now (r_Hold r) e k)"

definition track :: "khost \<Rightarrow> instant \<Rightarrow> KRecord \<Rightarrow> Keeper \<Rightarrow> Keeper" where
  "track H now r k =
     (let key = key_id (r_Key r);
          (pol, ttl1h, guard, wait) = record_plan H r (get_or False (k_tier1h k) key);
          e = make_entry H r (pol, ttl1h, guard, wait);
          k = count_turn r ttl1h k;
          e = e\<lparr>e_turn := get_or 0 (k_turns k) key - 1, e_noTool := (guard \<and> \<not> get_or False (k_toolSeen k) key)\<rparr>
      in admit H now r e k)"

definition refuse_hold :: "instant \<Rightarrow> KRecord \<Rightarrow> string \<Rightarrow> Keeper \<Rightarrow> Keeper" where
  "refuse_hold now r reason k =
     (let k = (if ManualHold (r_Policy r) then setReasonLocked now (r_Key r) reason k else k)
      in retireLocked (key_id (r_Key r)) k)"

definition ended_for :: "KRecord \<Rightarrow> Keeper \<Rightarrow> bool" where
  "ended_for r k \<longleftrightarrow>
     endedAfterLocked (kTenant (r_Key r)) (kSession (r_Key r)) (r_StartedAt r) k
     \<or> (r_Client r \<noteq> [] \<and> endedAfterLocked (kTenant (r_Key r)) (r_Client r) (r_StartedAt r) k)"

definition record_body :: "khost \<Rightarrow> instant \<Rightarrow> KRecord \<Rightarrow> Keeper \<Rightarrow> Keeper" where
  "record_body H now r k =
     (let key = key_id (r_Key r); pol = r_Policy r; u = r_Usage r; tenant = kTenant (r_Key r);
          model = h_str H (r_Body r) ''model'';
          tripped = routeIsTrippedLocked (routeKey tenant (r_Endpoint r) (r_Route r) model) now k;
          dead = credIsDeadLocked tenant (r_Cred r) model now k
      in if r_Body r = [] \<or> r_StartedAt r = 0 then k
         else if r_Status r < 200 \<or> r_Status r \<ge> 300 then k
         else if ended_for r k then setReasonLocked now (r_Key r) ReasonNoEntry (retireLocked key k)
         else if Disabled (h_env H) then retireLocked key k
         else if \<not> On pol \<and> \<not> ManualHold pol
         then retireLocked key (setReasonLocked now (r_Key r) ReasonNotOptedIn k)
         else if tripped \<or> dead
         then (let k = retireLocked key k;
                   k = (if ManualHold pol then setReasonLocked now (r_Key r) ReasonUnavailable k else k)
               in if dead then skip1 k else k)
         else if int (length (r_Body r)) > MaxBodyBytes then skip1 (refuse_hold now r ReasonTooLarge k)
         else if \<not> eligible (r_Provider r) model (r_Route r)
                 \<or> \<not> relayServesClaude (h_urlHost H) (h_models H) (r_Provider r) (r_Endpoint r) model
         then refuse_hold now r ReasonUnsupported k
         else if r_UsageOK r \<and> CacheRead u = 0 \<and> CacheWrite u = 0 then refuse_hold now r ReasonNoEntry k
         else if h_str H (r_Body r) ''thinking.type'' = ''enabled'' then skip1 (refuse_hold now r ReasonUnsupported k)
         else track H now r k)"

definition Record :: "khost \<Rightarrow> instant \<Rightarrow> KRecord \<Rightarrow> Keeper \<Rightarrow> Keeper" where
  "Record H now r k =
     (if kSession (r_Key r) = [] then k else Depart (r_Key r) (record_body H now r k))"

end
