(* ===== verification/Keepalive_Sweep.thy ===== *)
theory Keepalive_Sweep
  imports Keepalive_Keeper
begin

text \<open>
  What moves the keeper without a request: the sweep (\<open>Sweep\<close> of \<open>keeper.go\<close>), which selects the due
  pings and releases what can do nothing more, the two deadline timers (\<open>expireAuto\<close>,
  \<open>expireManual\<close> of \<open>manualhold.go\<close>), and the views a host reads (\<open>Plans\<close>, \<open>PendingPings\<close>,
  \<open>LiveSessionKeys\<close>, \<open>PingStates\<close>). A ping is selected here as a job and sent in the next theory. The
  clock that \<open>setReasonLocked\<close> reads inside the sweep is the sweep's own instant.
\<close>

section \<open>The sweep\<close>

record pingJob =
  j_addr :: nat
  j_raw :: bytes
  j_hdr :: "header option"
  j_key :: TKey
  j_ref :: Ref
  j_route :: string
  j_provider :: ModelProvider
  j_model :: string
  j_touchAlias :: string
  j_ping :: int
  j_extra :: bool
  j_vary :: int
  j_prevStartedAt :: instant

definition job_for :: "khost \<Rightarrow> nat \<Rightarrow> kaEntry \<Rightarrow> int \<Rightarrow> bool \<Rightarrow> instant \<Rightarrow> pingJob" where
  "job_for H a e ping extra prev =
     \<lparr>j_addr = a, j_raw = mask (h_maskKey H) (e_body e), j_hdr = e_hdr e, j_key = e_key e, j_ref = e_ref e,
      j_route = e_route e, j_provider = e_provider e, j_model = e_model e, j_touchAlias = e_touchAlias e,
      j_ping = ping, j_extra = extra, j_vary = 0, j_prevStartedAt = prev\<rparr>"

definition extraReadyLocked :: "khost \<Rightarrow> kaEntry \<Rightarrow> instant \<Rightarrow> bool" where
  "extraReadyLocked H e now =
     (if \<not> extraDue e now then False
      else let tk = Key (e_session e) (e_thread e) in
           h_hasSummary H tk \<or> (\<not> toolWait e \<and> h_hasSweep H tk))"

definition sweep_entry :: "khost \<Rightarrow> instant \<Rightarrow> string \<times> nat \<Rightarrow> Keeper \<times> pingJob list \<Rightarrow> Keeper \<times> pingJob list" where
  "sweep_entry H now x s =
     (let (key, a) = x; (k, jobs) = s; e = k_obj k a in
      if e_manualOnly e
      then (if manualExpired e now
            then (clear_candidate a (let_go key a (setReasonLocked now (e_key e) ReasonExpired k)), jobs)
            else s)
      else if extraWaiting e \<and> pingable e \<and> get_or 0 (k_inflight k) key = 0 \<and> extraReadyLocked H e now
      then (if blocked e now k then (upd a (\<lambda>e. e\<lparr>e_stopped := True\<rparr>) k, jobs)
            else (upd a (\<lambda>e. e\<lparr>e_extraAsked := True\<rparr>) k,
                  jobs @ [job_for H a e (e_pings e + 1) True (e_startedAt e)]))
      else if e_stopped e \<or> e_pings e \<ge> MaxPings (e_pol e) \<or> \<not> pingable e
      then (if now \<ge> e_startedAt e + pIdle (e_pol e)
            then (let_go key a (setReasonLocked now (e_key e) (autoReleaseReason e) k), jobs)
            else s)
      else if \<not> due e now \<or> get_or 0 (k_inflight k) key > 0 then s
      else if blocked e now k then (upd a (\<lambda>e. e\<lparr>e_stopped := True\<rparr>) k, jobs)
      else (upd a (\<lambda>e. e\<lparr>e_startedAt := now, e_pings := e_pings e + 1, e_pingRunning := True\<rparr>) k,
            jobs @ [job_for H a e (e_pings e + 1) False (e_startedAt e)]))"

definition Sweep :: "khost \<Rightarrow> instant \<Rightarrow> Keeper \<Rightarrow> Keeper \<times> pingJob list" where
  "Sweep H now k = fold (sweep_entry H now) (visit H k) (k, [])"

section \<open>The deadline timers\<close>

definition expireAuto :: "instant \<Rightarrow> string \<Rightarrow> Keeper \<Rightarrow> Keeper" where
  "expireAuto now key k =
     (let k' = (case map_of (k_live k) key of
                  None \<Rightarrow> k
                | Some a \<Rightarrow> setReasonLocked now (e_key (k_obj k a)) (autoReleaseReason (k_obj k a)) k)
      in retireLocked key k')"

definition expireManual :: "instant \<Rightarrow> string \<Rightarrow> Keeper \<Rightarrow> Keeper" where
  "expireManual now key k =
     (case map_of (k_live k) key of
        None \<Rightarrow> k
      | Some a \<Rightarrow>
          if \<not> manualExpired (k_obj k a) now then k
          else retireLocked key (setReasonLocked now (e_key (k_obj k a)) ReasonExpired k))"

section \<open>The output-budget step\<close>

definition pingVary :: int where "pingVary = 8"

definition nextVaryLocked :: "string \<Rightarrow> Keeper \<Rightarrow> int \<times> Keeper" where
  "nextVaryLocked key k =
     (let v = (case map_of (k_lastVary k) key of Some v \<Rightarrow> (v + 1) mod pingVary | None \<Rightarrow> 0)
      in (v, k\<lparr>k_lastVary := AList.update key v (k_lastVary k)\<rparr>))"

section \<open>What a host reads\<close>

definition PendingPings :: "Keeper \<Rightarrow> int" where
  "PendingPings k =
     countp (\<lambda>(_, a). let e = k_obj k a in \<not> e_stopped e \<and> On (e_pol e) \<and> e_pings e < MaxPings (e_pol e)) (k_live k)"

definition LiveSessionKeys :: "khost \<Rightarrow> Keeper \<Rightarrow> string list" where
  "LiveSessionKeys H k =
     fold (\<lambda>(_, a) keys. let s = e_session (k_obj k a) in if s \<in> set keys then keys else keys @ [s]) (visit H k) []"

record Plan =
  pl_RefreshedAt :: instant
  pl_NextPing :: instant
  pl_PingsLeft :: int
  pl_Idle :: duration

definition planned_entry :: "string \<Rightarrow> bool \<Rightarrow> string \<Rightarrow> kaEntry \<Rightarrow> bool" where
  "planned_entry tenant all session e \<longleftrightarrow>
     \<not> (e_session e \<noteq> session \<or> (\<not> all \<and> e_tenant e \<noteq> tenant) \<or> e_stopped e \<or> \<not> On (e_pol e)
        \<or> e_pings e \<ge> MaxPings (e_pol e) \<or> \<not> pingable e)"

definition Plans :: "khost \<Rightarrow> string \<Rightarrow> bool \<Rightarrow> string \<Rightarrow> Keeper \<Rightarrow> (string \<times> Plan) list" where
  "Plans H tenant all session k =
     fold (\<lambda>(_, a) out.
             let e = k_obj k a in
             if \<not> planned_entry tenant all session e then out
             else AList.update (e_thread e)
                    \<lparr>pl_RefreshedAt = e_refreshedAt e, pl_NextPing = e_startedAt e + pIdle (e_pol e),
                     pl_PingsLeft = MaxPings (e_pol e) - e_pings e, pl_Idle = pIdle (e_pol e)\<rparr> out)
          (visit H k) []"

text \<open>\<open>None\<close> is pingable, \<open>Some\<close> carries the reason.\<close>

type_synonym PingState = "string option"

definition state_of :: "instant \<Rightarrow> Keeper \<Rightarrow> kaEntry \<Rightarrow> PingState" where
  "state_of now k e =
     (if stoppedAndBlockedLocked e now k then Some ReasonUnavailable
      else if manualExpired e now then Some ReasonExpired
      else None)"

definition PingStates :: "khost \<Rightarrow> instant \<Rightarrow> string \<Rightarrow> bool \<Rightarrow> string \<Rightarrow> Keeper \<Rightarrow> (string \<times> PingState) list" where
  "PingStates H now tenant all session k =
     (if session = [] then []
      else
        let out = fold (\<lambda>(_, a) out.
                          let e = k_obj k a in
                          if e_session e \<noteq> session \<or> (\<not> all \<and> e_tenant e \<noteq> tenant) then out
                          else AList.update (e_thread e) (state_of now k e) out)
                    (visit H k) []
        in fold (\<lambda>(_, r) out.
                   if kSession (rf_key r) \<noteq> session \<or> (\<not> all \<and> kTenant (rf_key r) \<noteq> tenant) then out
                   else if map_of out (kThread (rf_key r)) \<noteq> None then out
                   else AList.update (kThread (rf_key r)) (Some (rf_reason r)) out)
             (k_reasons k) out)"

definition state_For :: "(string \<times> PingState) list \<Rightarrow> string \<Rightarrow> PingState" where
  "state_For m thread = (case map_of m thread of Some s \<Rightarrow> s | None \<Rightarrow> Some ReasonNoEntry)"

end
