(* ===== verification/Keepalive_Ping.thy ===== *)
theory Keepalive_Ping
  imports Keepalive_Sweep
begin

text \<open>
  One ping of the keeper: the claim that names what may stand in for it
  (\<open>src/components/offload/ping_claim.go\<close>), the two substitutes (\<open>substitute.go\<close>), the ordinary ping
  with its outcome and its booking (\<open>fire\<close>, \<open>noteOutcome\<close>, \<open>giveBackFailedPing\<close> and \<open>record1\<close> of
  \<open>keeper.go\<close>), and the ping a user asks for (\<open>PingNow\<close> of \<open>manual.go\<close>). A function that takes the
  keeper's lock several times is a composition of steps, one for each time it holds the lock; the
  steps are the operations other goroutines interleave with.

  The host's answers are the fields of \<open>ping_env\<close>: the limiter, the clock, the JSON editor sjson, the
  transport, and the two substitute calls with what the registries offer them. A panic inside the
  sweep's question is not modelled.
\<close>

section \<open>The environment of one ping\<close>

record summary_info =
  si_CacheState :: string
  si_PreExpirySeconds :: int
  si_IsRefresh :: bool
  si_RefreshTailTokens :: int

record sub_result =
  sr_Model :: string
  sr_Usage :: Usage
  sr_Committed :: bool
  sr_Reason :: string

datatype PingChoice = PingPlain | PingNone | PingSummary | PingSweep

text \<open>
  \<open>pe_summary\<close> answers \<open>Inl\<close> with the reason no summary is offered, \<open>pe_sweep\<close> the number of batches the
  sweep planned. A transport error carries whether it was a deadline or a cancel.
\<close>

record ping_env =
  pe_spare1 :: bool
  pe_spare2 :: bool
  pe_now :: instant
  pe_end :: instant
  pe_setInt :: "bytes \<Rightarrow> string \<Rightarrow> int \<Rightarrow> bytes option"
  pe_setBool :: "bytes \<Rightarrow> string \<Rightarrow> bool \<Rightarrow> bytes option"
  pe_do :: "Ref \<Rightarrow> string \<Rightarrow> bytes \<Rightarrow> bool + (int \<times> bytes)"
  pe_getInt :: "bytes \<Rightarrow> string \<Rightarrow> int option"
  pe_inFlight :: "string \<Rightarrow> bool"
  pe_summary :: "string + summary_info"
  pe_askSummary :: sub_result
  pe_sweep :: "string + int"
  pe_askSweep :: "int \<Rightarrow> sub_result"

section \<open>Who may take the ping\<close>

record PingClaim =
  pc_Choice :: PingChoice
  pc_key :: string
  pc_held :: bool

definition Release_claim :: "PingClaim \<Rightarrow> string list \<Rightarrow> PingClaim \<times> string list" where
  "Release_claim c busy =
     (if \<not> pc_held c then (c, busy) else (c\<lparr>pc_held := False\<rparr>, removeAll (pc_key c) busy))"

definition ClaimPing ::
  "(string \<Rightarrow> bool) \<Rightarrow> (string \<Rightarrow> bool) \<Rightarrow> (string \<Rightarrow> bool) \<Rightarrow> string \<Rightarrow> string list \<Rightarrow> PingClaim \<times> string list" where
  "ClaimPing hasSummary hasSweep running key busy =
     (if key \<in> set busy then (\<lparr>pc_Choice = PingPlain, pc_key = [], pc_held = False\<rparr>, busy)
      else
        let busy = key # busy;
            choice = (if hasSummary key then PingSummary
                      else if hasSweep key then (if running key then PingPlain else PingSweep)
                      else PingNone);
            claim = \<lparr>pc_Choice = choice, pc_key = key, pc_held = True\<rparr>
        in if choice = PingPlain \<or> choice = PingNone then Release_claim claim busy else (claim, busy))"

section \<open>The ping's body and its answer\<close>

definition pingBodyN :: "ping_env \<Rightarrow> bytes \<Rightarrow> string \<Rightarrow> int \<Rightarrow> bytes option" where
  "pingBodyN E body route n =
     (let field = (if IsResponses (WireFor [] route) then ''max_output_tokens'' else ''max_tokens'');
          n = (if n < 0 then 0 else n)
      in case pe_setInt E body field (pingOutputBudget route + n mod pingVary) of
           None \<Rightarrow> None
         | Some out \<Rightarrow> pe_setBool E out ''stream'' False)"

text \<open>\<open>get path\<close> is the integer at a path of the answer, when there is one.\<close>

definition Parse_usage :: "(string \<Rightarrow> int option) \<Rightarrow> Usage" where
  "Parse_usage get =
     (let val = (\<lambda>p. case get p of Some n \<Rightarrow> n | None \<Rightarrow> 0);
          z = \<lparr>FreshInput = 0, CacheRead = 0, CacheWrite = 0, UOutput = 0, CacheWrite1h = 0, UStopReason = []\<rparr>
      in if get ''usage.input_tokens'' \<noteq> None then
           (let input = val ''usage.input_tokens'';
                z = z\<lparr>UOutput := val ''usage.output_tokens'',
                      CacheWrite1h := val ''usage.cache_creation.ephemeral_1h_input_tokens''\<rparr>
            in if get ''usage.input_tokens_details.cached_tokens'' \<noteq> None
                  \<or> get ''usage.input_tokens_details.cache_write_tokens'' \<noteq> None
               then (let rd = val ''usage.input_tokens_details.cached_tokens'';
                         wr = val ''usage.input_tokens_details.cache_write_tokens''
                     in z\<lparr>CacheRead := rd, CacheWrite := wr, FreshInput := max (input - rd - wr) 0\<rparr>)
               else z\<lparr>CacheRead := val ''usage.cache_read_input_tokens'', FreshInput := input,
                      CacheWrite := val ''usage.cache_creation_input_tokens''\<rparr>)
         else if get ''usage.prompt_tokens'' \<noteq> None then
           (let rd = val ''usage.prompt_tokens_details.cached_tokens'' in
            z\<lparr>UOutput := val ''usage.completion_tokens'', CacheRead := rd,
              FreshInput := max (val ''usage.prompt_tokens'' - rd) 0\<rparr>)
         else if get ''usage.output_tokens'' \<noteq> None then z\<lparr>UOutput := val ''usage.output_tokens''\<rparr>
         else z)"

definition PingUsage :: "khost \<Rightarrow> ping_env \<Rightarrow> bytes \<Rightarrow> Usage" where
  "PingUsage H E raw = (Parse_usage (pe_getInt E raw))\<lparr>UStopReason := h_str H raw ''stop_reason''\<rparr>"

section \<open>The outcome of a ping\<close>

definition markStopped :: "nat \<Rightarrow> Keeper \<Rightarrow> Keeper" where
  "markStopped a k = upd a (\<lambda>e. e\<lparr>e_stopped := True\<rparr>) k"

definition pingDone :: "pingJob \<Rightarrow> Keeper \<Rightarrow> Keeper" where
  "pingDone j k = (if j_extra j then k else upd (j_addr j) (\<lambda>e. e\<lparr>e_pingRunning := False\<rparr>) k)"

definition count_failed :: "Keeper \<Rightarrow> Keeper" where "count_failed k = k\<lparr>k_failed := k_failed k + 1\<rparr>"
definition count_wrote :: "Keeper \<Rightarrow> Keeper" where "count_wrote k = k\<lparr>k_wrote := k_wrote k + 1\<rparr>"
definition count_missed :: "Keeper \<Rightarrow> Keeper" where "count_missed k = k\<lparr>k_missed := k_missed k + 1\<rparr>"
definition count_ping :: "Keeper \<Rightarrow> Keeper" where "count_ping k = k\<lparr>k_pings := k_pings k + 1\<rparr>"

definition notePingMiss :: "nat \<Rightarrow> Keeper \<Rightarrow> bool \<times> Keeper" where
  "notePingMiss a k = (let k = upd a (\<lambda>e. e\<lparr>e_missed := e_missed e + 1\<rparr>) k in (e_missed (k_obj k a) = 1, k))"

definition notePingRead :: "nat \<Rightarrow> Keeper \<Rightarrow> Keeper" where
  "notePingRead a k = upd a (\<lambda>e. e\<lparr>e_missed := 0, e_retried := False\<rparr>) k"

definition job_route :: "pingJob \<Rightarrow> Keeper \<Rightarrow> string" where
  "job_route j k =
     (let e = k_obj k (j_addr j) in routeKey (kTenant (j_key j)) (e_endpoint e) (e_route e) (e_model e))"

definition routeFailed :: "pingJob \<Rightarrow> instant \<Rightarrow> Keeper \<Rightarrow> Keeper" where
  "routeFailed j now k = snd (routeFailedLocked (job_route j k) now k)"

datatype outcome = outcomeRead | outcomeMissed | outcomeTransient | outcomeFailed | outcomeFailedRecorded | outcomeStopped

definition noteOutcome :: "pingJob \<Rightarrow> instant \<Rightarrow> int \<Rightarrow> Usage \<Rightarrow> Keeper \<Rightarrow> outcome \<times> Keeper" where
  "noteOutcome j now status u k =
     (let a = j_addr j; e = k_obj k a in
      if (status = 401 \<or> status = 403) \<and> e_cred e \<noteq> []
      then (outcomeFailed,
            markCredDeadLocked (kTenant (j_key j)) (e_cred e) (e_model e) status now (markStopped a (count_failed k)))
      else if status = 429 \<or> status \<ge> 500 then (outcomeTransient, skip1 k)
      else if status \<ge> 400 then (outcomeFailed, routeFailed j now (markStopped a (count_failed k)))
      else if FreshInput u = 0 \<and> CacheRead u = 0 \<and> CacheWrite u = 0
      then (outcomeFailedRecorded, routeFailed j now (markStopped a (count_failed k)))
      else
        let k = routeOKLocked (job_route j k) k;
            (first, k) = (if CacheRead u = 0 then notePingMiss a k else (False, k))
        in if first then (outcomeMissed, count_missed k)
           else if CacheWrite u > CacheRead u \<or> CacheRead u = 0 then (outcomeStopped, markStopped a (count_wrote k))
           else (outcomeRead, notePingRead a k))"

definition cacheTTL :: "kaEntry \<Rightarrow> duration" where
  "cacheTTL e = CacheLifetime (e_provider e) (e_model e) (e_ttl1h e)"

definition giveBackFailedPing :: "pingJob \<Rightarrow> instant \<Rightarrow> Keeper \<Rightarrow> bool \<times> Keeper" where
  "giveBackFailedPing j now k =
     (let e = k_obj k (j_addr j) in
      if e_stopped e \<or> e_retried e \<or> e_pings e \<noteq> j_ping j then (False, k)
      else if \<not> now < e_refreshedAt e + cacheTTL e then (False, k)
      else (True, upd (j_addr j)
                    (\<lambda>e. e\<lparr>e_startedAt := j_prevStartedAt j, e_pings := e_pings e - 1, e_retried := True\<rparr>) k))"

section \<open>Booking\<close>

definition pingCost :: "khost \<Rightarrow> string \<Rightarrow> string \<Rightarrow> int \<Rightarrow> Usage \<Rightarrow> rat \<times> bool" where
  "pingCost H endpoint model prefix u =
     (if model = [] then (0, False)
      else case h_price H endpoint model prefix of
             None \<Rightarrow> (0, False)
           | Some p \<Rightarrow>
               if price_Zero p then (0, False)
               else (if CacheRead u > 0 \<or> CacheWrite u > 0 \<or> UOutput u > 0
                     then CostWithCacheWrite1h p (FreshInput u) (CacheRead u) (CacheWrite u) (UOutput u) (CacheWrite1h u)
                     else 0, True))"

definition touch :: "pingJob \<Rightarrow> instant \<Rightarrow> Keeper \<Rightarrow> Keeper" where
  "touch j ts k = logCall (CallTouch (j_touchAlias j) ts) k"

definition book :: "nat \<Rightarrow> rat \<Rightarrow> Usage \<Rightarrow> instant \<Rightarrow> Keeper \<Rightarrow> Keeper" where
  "book a cost u startedAt k =
     upd a (\<lambda>e. e\<lparr>e_spent := e_spent e + cost, e_refreshed := CacheRead u,
                  e_refreshedAt := (if CacheRead u > 0 then startedAt else e_refreshedAt e)\<rparr>) k"

definition addSpent :: "rat \<Rightarrow> Keeper \<Rightarrow> Keeper" where
  "addSpent cost k = k\<lparr>k_spentUSD := k_spentUSD k + cost\<rparr>"

definition record1 :: "khost \<Rightarrow> pingJob \<Rightarrow> Usage \<Rightarrow> int \<Rightarrow> instant \<Rightarrow> Keeper \<Rightarrow> rat \<times> Keeper" where
  "record1 H j u status startedAt k =
     (let e = k_obj k (j_addr j);
          k = (if status \<ge> 200 \<and> status < 300 \<and> CacheRead u > 0 then touch j startedAt k else k);
          cost = fst (pingCost H (e_endpoint e) (e_model e) (e_prefix e) u)
      in (cost, logCall (CallReport (j_key j) (j_ping j) cost) (addSpent cost (book (j_addr j) cost u startedAt k))))"

section \<open>The substitutes\<close>

definition summaryOutputBudgetGuess :: int where "summaryOutputBudgetGuess = 2000"
definition sweepOutputBudgetGuess :: int where "sweepOutputBudgetGuess = 4000"

definition projectedSummaryUSD :: "khost \<Rightarrow> string \<Rightarrow> string \<Rightarrow> int \<Rightarrow> rat" where
  "projectedSummaryUSD H model endpoint prefix =
     (if model = [] \<or> prefix \<le> 0 then 0
      else case h_price H endpoint model prefix of
             None \<Rightarrow> 0
           | Some p \<Rightarrow> if price_Zero p then 0
                       else of_int prefix * readRate p + of_int summaryOutputBudgetGuess * outputRate p)"

definition expectedRefreshSavingUSD :: "khost \<Rightarrow> string \<Rightarrow> string \<Rightarrow> int \<Rightarrow> int \<Rightarrow> rat" where
  "expectedRefreshSavingUSD H model endpoint prefix tailTokens =
     (if model = [] \<or> tailTokens \<le> 0 then 0
      else case h_price H endpoint model prefix of
             None \<Rightarrow> 0
           | Some p \<Rightarrow> if price_Zero p then 0 else of_int tailTokens * writeRate p)"

definition projectedSweepBatchesUSD :: "khost \<Rightarrow> string \<Rightarrow> string \<Rightarrow> int \<Rightarrow> int \<Rightarrow> rat" where
  "projectedSweepBatchesUSD H model endpoint prefix n =
     (if model = [] \<or> prefix \<le> 0 \<or> n < 1 then 0
      else case h_price H endpoint model prefix of
             None \<Rightarrow> 0
           | Some p \<Rightarrow> if price_Zero p then 0
                       else of_int n * (of_int prefix * readRate p + of_int sweepOutputBudgetGuess * outputRate p))"

definition affordableSweepBatches ::
  "khost \<Rightarrow> string \<Rightarrow> string \<Rightarrow> int \<Rightarrow> int \<Rightarrow> rat option \<Rightarrow> int" where
  "affordableSweepBatches H model endpoint prefix planned cap =
     (let planned = (if planned < 1 then 1 else planned);
          one = projectedSweepBatchesUSD H model endpoint prefix 1
      in if one \<le> 0 then planned
         else case cap of
                None \<Rightarrow> planned
              | Some c \<Rightarrow>
                  if \<not> c > 0 then 0
                  else (let n = \<lfloor>c / one\<rfloor>; n = (if n > planned then planned else n) in if n < 0 then 0 else n))"

definition recordSubstitutePing ::
  "khost \<Rightarrow> pingJob \<Rightarrow> string \<Rightarrow> Usage \<Rightarrow> instant \<Rightarrow> Keeper \<Rightarrow> rat \<times> Keeper" where
  "recordSubstitutePing H j model u startedAt k =
     (let e = k_obj k (j_addr j);
          model = (if model = [] then e_model e else model);
          k = (if CacheRead u > 0 then touch j startedAt k else k);
          cost = fst (pingCost H (e_endpoint e) model (e_prefix e) u)
      in (cost, logCall (CallReport (j_key j) (j_ping j) cost)
                  (count_ping (addSpent cost (book (j_addr j) cost u startedAt k)))))"

definition sweepAnswerUSD :: "khost \<Rightarrow> kaEntry \<Rightarrow> string \<Rightarrow> Usage \<Rightarrow> rat" where
  "sweepAnswerUSD H e model u =
     (let model = (if model = [] then e_model e else model) in
      if model = [] then 0
      else case h_price H (e_endpoint e) model (e_prefix e) of
             None \<Rightarrow> 0
           | Some p \<Rightarrow> if price_Zero p then 0
                       else CostWithCacheWrite1h p (FreshInput u) 0 (CacheWrite u) (UOutput u) (CacheWrite1h u))"

definition fireSummarySubstitute :: "khost \<Rightarrow> ping_env \<Rightarrow> pingJob \<Rightarrow> Keeper \<Rightarrow> bool \<times> Keeper" where
  "fireSummarySubstitute H E j k =
     (case pe_summary E of
        Inl reason \<Rightarrow>
          (False, bump (if reason = ''checkpoint_exists'' then ''checkpoint_exists'' else ''no_candidate'') k)
      | Inr info \<Rightarrow>
          (let e = k_obj k (j_addr j); idle = pIdle (e_pol e);
               ttl = CacheLifetime (e_provider e) (e_model e) (e_ttl1h e \<or> HeadTTL1h (e_pol e));
               window = substituteWindow (si_PreExpirySeconds info) ttl idle;
               window = (if j_extra j then extraSummaryWindow window ttl idle else window);
               phase = cachePhaseAt (j_prevStartedAt j) (pe_now E) ttl window;
               cost = projectedSummaryUSD H (e_model e) (e_endpoint e) (e_prefix e);
               saving = expectedRefreshSavingUSD H (e_model e) (e_endpoint e) (e_prefix e) (si_RefreshTailTokens info)
           in if si_CacheState info = CacheStatePreExpiry \<and> phase \<noteq> CachePhasePreExpiry
              then (False, bump ''phase_mismatch'' k)
              else if exceeds cost (Ceiling (e_pol e)) then (False, bump ''over_budget'' k)
              else if si_IsRefresh info \<and> saving < cost then (False, bump ''refresh_not_worth_it'' k)
              else
                let k = (if si_IsRefresh info then bump ''refresh_paid'' k else k);
                    res = pe_askSummary E
                in if \<not> sr_Committed res
                   then (False,
                         (if sr_Reason res = ''in_flight'' \<or> sr_Reason res = ''concurrency_full''
                          then bump (sr_Reason res) else id) (bump ''substitute_failed'' k))
                   else (True, bump ''substituted''
                                 (snd (recordSubstitutePing H j (sr_Model res) (sr_Usage res) (pe_now E) k)))))"

definition fireSweepSubstitute :: "khost \<Rightarrow> ping_env \<Rightarrow> pingJob \<Rightarrow> Keeper \<Rightarrow> bool \<times> Keeper" where
  "fireSweepSubstitute H E j k =
     (let e = k_obj k (j_addr j) in
      if toolWait e then (False, k)
      else case pe_sweep E of
             Inl _ \<Rightarrow> (False, k)
           | Inr batches \<Rightarrow>
               (let planned = (if batches < 1 then 1 else batches);
                    allowed = affordableSweepBatches H (e_model e) (e_endpoint e) (e_prefix e) planned (Ceiling (e_pol e))
                in if allowed < 1 then (False, bump ''sweep_over_budget'' k)
                   else
                     let k = (if allowed < planned then bump ''sweep_batches_lowered'' k else k);
                         res = pe_askSweep E (if allowed < planned then allowed else 0); u = sr_Usage res
                     in if \<not> sr_Committed res
                        then (False, if sr_Reason res = ''concurrency_full'' then k else bump ''sweep_ask_failed'' k)
                        else
                          let k = bump ''sweep_substituted'' (snd (recordSubstitutePing H j (sr_Model res) u (pe_now E) k))
                          in (True, if CacheWrite u > CacheRead u then markStopped (j_addr j) (count_wrote k) else k)))"

definition claim_of :: "khost \<Rightarrow> ping_env \<Rightarrow> pingJob \<Rightarrow> string list \<Rightarrow> PingClaim \<times> string list" where
  "claim_of H E j busy =
     ClaimPing (h_hasSummary H) (h_hasSweep H) (pe_inFlight E) (Key (kSession (j_key j)) (kThread (j_key j))) busy"

definition fireSubstitute :: "khost \<Rightarrow> ping_env \<Rightarrow> pingJob \<Rightarrow> Keeper \<times> string list \<Rightarrow> bool \<times> Keeper \<times> string list" where
  "fireSubstitute H E j s =
     (let (k, busy) = s; (claim, busy) = claim_of H E j busy; text = e_endsAtText (k_obj k (j_addr j));
          (took, k) =
            (case pc_Choice claim of
               PingSummary \<Rightarrow> if text then (False, k) else fireSummarySubstitute H E j k
             | PingSweep \<Rightarrow> if text then (False, k) else fireSweepSubstitute H E j k
             | PingNone \<Rightarrow>
                 if text then (False, k)
                 else (case fireSummarySubstitute H E j k of
                         (True, k) \<Rightarrow> (True, k)
                       | (False, k) \<Rightarrow> fireSweepSubstitute H E j k)
             | PingPlain \<Rightarrow> (False, k))
      in (took, k, snd (Release_claim claim busy)))"

definition fireExtra :: "khost \<Rightarrow> ping_env \<Rightarrow> pingJob \<Rightarrow> Keeper \<times> string list \<Rightarrow> Keeper \<times> string list" where
  "fireExtra H E j s =
     (let (k, busy) = s; (claim, busy) = claim_of H E j busy;
          k = (case pc_Choice claim of
                 PingSummary \<Rightarrow> (case fireSummarySubstitute H E j k of
                                   (True, k) \<Rightarrow> bump ''summary_extra_sent'' k
                                 | (False, k) \<Rightarrow> bump ''sweep_extra_skipped'' k)
               | PingSweep \<Rightarrow> (case fireSweepSubstitute H E j k of
                                 (True, k) \<Rightarrow> bump ''sweep_extra_asked'' k
                               | (False, k) \<Rightarrow> bump ''sweep_extra_skipped'' k)
               | _ \<Rightarrow> bump ''sweep_extra_skipped'' k)
      in (k, snd (Release_claim claim busy)))"

section \<open>One ping\<close>

text \<open>What follows the transport's answer.\<close>

definition after_answer :: "khost \<Rightarrow> ping_env \<Rightarrow> pingJob \<Rightarrow> bool + (int \<times> bytes) \<Rightarrow> Keeper \<Rightarrow> Keeper" where
  "after_answer H E j ans k =
     (case ans of
        Inl _ \<Rightarrow> snd (giveBackFailedPing j (pe_end E) (count_failed (count_ping k)))
      | Inr (status, raw) \<Rightarrow>
          (let u = PingUsage H E raw; (oc, k) = noteOutcome j (pe_end E) status u (count_ping k)
           in if oc = outcomeFailed then k else snd (record1 H j u status (pe_now E) k)))"

definition send_ping :: "khost \<Rightarrow> ping_env \<Rightarrow> pingJob \<Rightarrow> Keeper \<Rightarrow> Keeper" where
  "send_ping H E j k =
     (let (v, k) = nextVaryLocked (key_id (j_key j)) k; j = j\<lparr>j_vary := v\<rparr> in
      case pingBodyN E (j_raw j) (j_route j) v of
        None \<Rightarrow> skip1 (markStopped (j_addr j) k)
      | Some body \<Rightarrow>
          after_answer H E j (pe_do E (j_ref j) (j_route j) body) (logCall (CallDo (j_ref j) (j_route j) body) k))"

definition fire :: "khost \<Rightarrow> ping_env \<Rightarrow> pingJob \<Rightarrow> Keeper \<times> string list \<Rightarrow> Keeper \<times> string list" where
  "fire H E j s =
     (let (k, busy) =
            (if \<not> pe_spare1 E then (skip1 (fst s), snd s)
             else if j_extra j then fireExtra H E j s
             else case fireSubstitute H E j s of
                    (True, k, busy) \<Rightarrow> (k, busy)
                  | (False, k, busy) \<Rightarrow> if \<not> pe_spare2 E then (skip1 k, busy) else (send_ping H E j k, busy))
      in (pingDone j k, busy))"

section \<open>The ping a user asks for\<close>

datatype manual_error =
  ErrNotHeld | ErrBusy | ErrLimited | ErrTooCostly | TooSoonError duration | UpstreamError int | ErrTransport bool

record ManualRequest =
  mr_Key :: TKey
  mr_MinGap :: duration
  mr_RewriteUSD :: rat

record ManualResult =
  mres_Status :: int
  mres_Usage :: Usage
  mres_StartedAt :: instant
  mres_CostUSD :: rat
  mres_Priced :: bool
  mres_AvoidedUSD :: rat

definition manualAtMax :: int where "manualAtMax = 4096"

definition noteManualLocked :: "string \<Rightarrow> instant \<Rightarrow> duration \<Rightarrow> Keeper \<Rightarrow> Keeper" where
  "noteManualLocked i ts gap k =
     (let m = (if int (length (k_manualAt k)) \<ge> manualAtMax
               then filter (\<lambda>(_, t). \<not> ts - t \<ge> gap) (k_manualAt k) else k_manualAt k)
      in k\<lparr>k_manualAt := AList.update i ts m\<rparr>)"

definition unclaimManual :: "string \<Rightarrow> instant \<Rightarrow> Keeper \<Rightarrow> Keeper" where
  "unclaimManual i ts k =
     (if map_of (k_manualAt k) i = Some ts then k\<lparr>k_manualAt := AList.delete i (k_manualAt k)\<rparr> else k)"

text \<open>The checks under the lock, and the claim of the press.\<close>

definition press :: "khost \<Rightarrow> instant \<Rightarrow> ManualRequest \<Rightarrow> Keeper \<Rightarrow> (manual_error + pingJob) \<times> Keeper" where
  "press H now r k =
     (let i = key_id (mr_Key r) in
      if kSession (mr_Key r) = [] then (Inl ErrNotHeld, k)
      else case map_of (k_live k) i of
             None \<Rightarrow> (Inl ErrNotHeld, k)
           | Some a \<Rightarrow>
               (let e = k_obj k a in
                if manualExpired e now \<or> stoppedAndBlockedLocked e now k then (Inl ErrNotHeld, k)
                else if get_or 0 (k_inflight k) i > 0 then (Inl ErrBusy, k)
                else case (case map_of (k_manualAt k) i of
                             Some prev \<Rightarrow> if mr_MinGap r > 0 \<and> now - prev < mr_MinGap r then Some prev else None
                           | None \<Rightarrow> None) of
                       Some prev \<Rightarrow> (Inl (TooSoonError (mr_MinGap r - (now - prev))), k)
                     | None \<Rightarrow>
                         if exceeds (e_pingUSD e) (entryCeiling e) then (Inl ErrTooCostly, k)
                         else (Inr (job_for H a e 0 False 0), noteManualLocked i now (mr_MinGap r) k)))"

text \<open>A press that read the cache refreshes the entry; only an automatic entry's schedule restarts.\<close>

definition press_read :: "pingJob \<Rightarrow> instant \<Rightarrow> Keeper \<Rightarrow> Keeper" where
  "press_read j start k =
     upd (j_addr j)
       (\<lambda>e. e\<lparr>e_refreshedAt := start, e_startedAt := (if e_manualOnly e then e_startedAt e else start)\<rparr>)
       (touch j start k)"

definition press_answer ::
  "khost \<Rightarrow> ping_env \<Rightarrow> ManualRequest \<Rightarrow> pingJob \<Rightarrow> int \<times> bytes \<Rightarrow> Keeper \<Rightarrow> (ManualResult \<times> manual_error option) \<times> Keeper" where
  "press_answer H E r j ans k =
     (let (status, raw) = ans; u = PingUsage H E raw; e = k_obj k (j_addr j);
          res = \<lparr>mres_Status = status, mres_Usage = u, mres_StartedAt = pe_now E, mres_CostUSD = 0, mres_Priced = False,
                 mres_AvoidedUSD = 0\<rparr>
      in if status \<ge> 400 then ((res, Some (UpstreamError status)), k)
         else if FreshInput u = 0 \<and> CacheRead u = 0 \<and> CacheWrite u = 0 then ((res, Some (UpstreamError status)), k)
         else
           let (cost, priced) = pingCost H (e_endpoint e) (j_model j) (e_prefix e) u;
               res = res\<lparr>mres_CostUSD := cost, mres_Priced := priced,
                         mres_AvoidedUSD := (if CacheRead u > 0 then mr_RewriteUSD r else 0)\<rparr>;
               k = (if CacheRead u > 0 then press_read j (pe_now E) k else k);
               k = addSpent cost (upd (j_addr j) (\<lambda>e. e\<lparr>e_spent := e_spent e + cost\<rparr>) k)
           in ((res, None), logCall (CallReport (j_key j) 0 cost) k))"

definition noResult :: ManualResult where
  "noResult =
     \<lparr>mres_Status = 0, mres_Usage = \<lparr>FreshInput = 0, CacheRead = 0, CacheWrite = 0, UOutput = 0, CacheWrite1h = 0, UStopReason = []\<rparr>,
      mres_StartedAt = 0, mres_CostUSD = 0, mres_Priced = False, mres_AvoidedUSD = 0\<rparr>"

definition PingNow ::
  "khost \<Rightarrow> ping_env \<Rightarrow> instant \<Rightarrow> ManualRequest \<Rightarrow> Keeper \<Rightarrow> (ManualResult \<times> manual_error option) \<times> Keeper" where
  "PingNow H E now r k =
     (let i = key_id (mr_Key r) in
      case press H now r k of
        (Inl err, k) \<Rightarrow> ((noResult, Some err), k)
      | (Inr j, k) \<Rightarrow>
          if \<not> pe_spare1 E then ((noResult, Some ErrLimited), unclaimManual i now k)
          else
            let (v, k) = nextVaryLocked i k in
            case pingBodyN E (j_raw j) (j_route j) v of
              None \<Rightarrow> ((noResult, Some ErrNotHeld), unclaimManual i now k)
            | Some body \<Rightarrow>
                (let k = logCall (CallDo (j_ref j) (j_route j) body) k in
                 case pe_do E (j_ref j) (j_route j) body of
                   Inl deadline \<Rightarrow> ((noResult, Some (ErrTransport deadline)), if deadline then k else unclaimManual i now k)
                 | Inr ans \<Rightarrow> press_answer H E r j ans k))"

end
