(* ===== verification/Keepalive_Invariant.thy ===== *)
theory Keepalive_Invariant
  imports Keepalive_Ping
begin

text \<open>
  What every operation of the keeper keeps. A predicate on keepers is followed through the operations
  by a locale: it is enough that it survives a change outside the core of the state (the map, the held
  bodies and credentials, the byte count) and the loss of one entry, and for \<open>Record\<close> the placing of
  a new entry. The instances are the shape of the map with the custody of the credentials, the memory
  bounds, and each tenant's share of manual holds.
\<close>

section \<open>The core of the state\<close>

definition core :: "kaEntry \<Rightarrow> TKey \<times> bytes \<times> bool \<times> Ref \<times> bool \<times> Policy" where
  "core e = (e_key e, e_body e, e_held e, e_ref e, e_manualOnly e, e_pol e)"

fun custody_call :: "keeper_call \<Rightarrow> bool" where
  "custody_call (CallHold _) = True"
| "custody_call (CallRelease _) = True"
| "custody_call _ = False"

text \<open>
  How an operation that leaves the core alone may change an entry: it never lifts the count of pings
  past the policy's, and a stop or a sent extra request is not undone.
\<close>

definition evolves :: "kaEntry \<Rightarrow> kaEntry \<Rightarrow> bool" where
  "evolves e e' \<longleftrightarrow>
     core e' = core e \<and> e_pings e' \<le> max (e_pings e) (MaxPings (e_pol e))
     \<and> (e_stopped e \<longrightarrow> e_stopped e') \<and> (e_extraAsked e \<longrightarrow> e_extraAsked e')"

lemma evolves_refl [simp]: "evolves e e"
  by (simp add: evolves_def)

lemma evolves_trans: "evolves e e' \<Longrightarrow> evolves e' e'' \<Longrightarrow> evolves e e''"
  by (auto simp: evolves_def core_def)

definition same_core :: "Keeper \<Rightarrow> Keeper \<Rightarrow> bool" where
  "same_core k k' \<longleftrightarrow>
     k_live k' = k_live k \<and> k_bytes k' = k_bytes k \<and> k_next k' = k_next k
     \<and> filter custody_call (k_calls k') = filter custody_call (k_calls k)
     \<and> (\<forall>a. evolves (k_obj k a) (k_obj k' a))"

lemma same_core_refl [simp]: "same_core k k"
  by (simp add: same_core_def)

lemma same_core_trans: "same_core k k' \<Longrightarrow> same_core k' k'' \<Longrightarrow> same_core k k''"
  unfolding same_core_def by (metis evolves_trans)

lemma same_core_upd1: "evolves (k_obj k' a) (f (k_obj k' a)) \<Longrightarrow> same_core k k' \<Longrightarrow> same_core k (upd a f k')"
  using evolves_trans by (auto simp: same_core_def upd_def)

lemma same_core_upd: "(\<And>e. evolves e (f e)) \<Longrightarrow> same_core k k' \<Longrightarrow> same_core k (upd a f k')"
  by (rule same_core_upd1)

lemma same_core_log: "\<not> custody_call c \<Longrightarrow> same_core k k' \<Longrightarrow> same_core k (logCall c k')"
  by (simp add: same_core_def logCall_def)

lemma core_skip1: "same_core k k' \<Longrightarrow> same_core k (skip1 k')"
  by (simp add: same_core_def skip1_def)

lemma core_bump: "same_core k k' \<Longrightarrow> same_core k (bump n k')"
  by (simp add: same_core_def bump_def)

lemma core_setReason: "same_core k k' \<Longrightarrow> same_core k (setReasonLocked now key r k')"
  by (simp add: same_core_def setReasonLocked_def Let_def)

lemma core_clear_candidate: "same_core k k' \<Longrightarrow> same_core k (clear_candidate a k')"
  by (simp add: clear_candidate_def same_core_log)

lemma core_routeFailed: "same_core k k' \<Longrightarrow> same_core k (snd (routeFailedLocked route now k'))"
  by (simp add: same_core_def routeFailedLocked_def Let_def)

lemma core_routeOK: "same_core k k' \<Longrightarrow> same_core k (routeOKLocked route k')"
  by (simp add: same_core_def routeOKLocked_def)

lemma core_credDead: "same_core k k' \<Longrightarrow> same_core k (markCredDeadLocked t c m s now k')"
  by (simp add: same_core_def markCredDeadLocked_def Let_def)

lemma core_depart: "same_core k k' \<Longrightarrow> same_core k (Depart key k')"
  by (simp add: same_core_def Depart_def departLocked_def)

lemma core_dropReasons: "same_core k k' \<Longrightarrow> same_core k (dropReasonsLocked t s k')"
  by (simp add: same_core_def dropReasonsLocked_def)

lemma core_count_turn: "same_core k k' \<Longrightarrow> same_core k (count_turn r ttl k')"
  by (simp add: same_core_def count_turn_def Let_def)

lemma core_MarkEnded: "same_core k k' \<Longrightarrow> same_core k (MarkEnded H t s now k')"
  by (simp add: same_core_def MarkEnded_def markEndedLocked_def Let_def)

lemma core_nextVary: "same_core k k' \<Longrightarrow> same_core k (snd (nextVaryLocked key k'))"
  by (simp add: same_core_def nextVaryLocked_def Let_def)

lemma core_markStopped: "same_core k k' \<Longrightarrow> same_core k (markStopped a k')"
  by (simp add: markStopped_def same_core_upd evolves_def core_def)

lemma core_counters:
  "same_core k k' \<Longrightarrow> same_core k (count_failed k')"
  "same_core k k' \<Longrightarrow> same_core k (count_wrote k')"
  "same_core k k' \<Longrightarrow> same_core k (count_missed k')"
  "same_core k k' \<Longrightarrow> same_core k (count_ping k')"
  "same_core k k' \<Longrightarrow> same_core k (addSpent c k')"
  by (simp_all add: same_core_def count_failed_def count_wrote_def count_missed_def count_ping_def addSpent_def)

lemma core_pingDone: "same_core k k' \<Longrightarrow> same_core k (pingDone j k')"
  by (simp add: pingDone_def same_core_upd evolves_def core_def)

lemma core_notePing:
  "same_core k k' \<Longrightarrow> same_core k (snd (notePingMiss a k'))"
  "same_core k k' \<Longrightarrow> same_core k (notePingRead a k')"
  by (simp_all add: notePingMiss_def notePingRead_def Let_def same_core_upd evolves_def core_def)

lemma core_giveBack: "same_core k k' \<Longrightarrow> same_core k (snd (giveBackFailedPing j now k'))"
  by (simp add: giveBackFailedPing_def Let_def same_core_upd evolves_def core_def)

lemma core_book: "same_core k k' \<Longrightarrow> same_core k (book a c u t k')"
  by (simp add: book_def same_core_upd evolves_def core_def)

lemma core_touch: "same_core k k' \<Longrightarrow> same_core k (touch j t k')"
  by (simp add: touch_def same_core_log)

lemma core_noteManual:
  "same_core k k' \<Longrightarrow> same_core k (noteManualLocked i t g k')"
  "same_core k k' \<Longrightarrow> same_core k (unclaimManual i t k')"
  by (simp_all add: same_core_def noteManualLocked_def unclaimManual_def Let_def)

lemmas core_simple = core_skip1 core_bump core_setReason core_clear_candidate core_routeFailed core_routeOK
  core_credDead core_depart core_dropReasons core_count_turn core_MarkEnded core_nextVary core_markStopped
  core_counters core_pingDone core_notePing core_giveBack core_book core_touch core_noteManual

lemma core_routeFailed_job: "same_core k k' \<Longrightarrow> same_core k (routeFailed j now k')"
  by (simp add: routeFailed_def core_simple)

lemma core_noteOutcome: "same_core k k' \<Longrightarrow> same_core k (snd (noteOutcome j now status u k'))"
  by (simp add: noteOutcome_def Let_def core_simple core_routeFailed_job split: prod.split)
     (metis core_notePing(1) core_routeOK core_simple snd_conv)

lemma core_record1: "same_core k k' \<Longrightarrow> same_core k (snd (record1 H j u status t k'))"
  by (simp add: record1_def Let_def core_simple same_core_log)

lemma core_recordSubstitute: "same_core k k' \<Longrightarrow> same_core k (snd (recordSubstitutePing H j m u t k'))"
  by (simp add: recordSubstitutePing_def Let_def core_simple same_core_log)

lemma core_summary: "same_core k k' \<Longrightarrow> same_core k (snd (fireSummarySubstitute H E j k'))"
  by (cases "pe_summary E")
     (simp_all add: fireSummarySubstitute_def Let_def core_bump core_recordSubstitute)

lemma core_sweep: "same_core k k' \<Longrightarrow> same_core k (snd (fireSweepSubstitute H E j k'))"
  by (cases "pe_sweep E")
     (simp_all add: fireSweepSubstitute_def Let_def core_simple core_recordSubstitute)

lemma core_fireSubstitute: "same_core k (fst s) \<Longrightarrow> same_core k (fst (snd (fireSubstitute H E j s)))"
  using core_summary [of k "fst s" H E j] core_sweep [of k "fst s" H E j]
    core_sweep [of k "snd (fireSummarySubstitute H E j (fst s))" H E j]
  by (cases "fireSummarySubstitute H E j (fst s)"; cases "fst (fireSummarySubstitute H E j (fst s))")
     (auto simp: fireSubstitute_def Let_def split: prod.splits PingChoice.splits)

lemma core_fireExtra: "same_core k (fst s) \<Longrightarrow> same_core k (fst (fireExtra H E j s))"
  using core_summary [of k "fst s" H E j] core_sweep [of k "fst s" H E j]
  by (auto simp: fireExtra_def Let_def core_bump split: prod.splits PingChoice.splits bool.splits)

lemma core_after_answer: "same_core k k' \<Longrightarrow> same_core k (after_answer H E j ans k')"
proof (cases ans)
  case (Inr r)
  assume "same_core k k'"
  then have *: "same_core k (snd (noteOutcome j (pe_end E) s u (count_ping k')))" for s u
    by (simp add: core_noteOutcome core_counters)
  obtain s raw where r: "r = (s, raw)" by (cases r)
  show ?thesis using * [of s "PingUsage H E raw"] core_record1
    by (cases "noteOutcome j (pe_end E) s (PingUsage H E raw) (count_ping k')")
       (simp add: Inr r after_answer_def Let_def)
qed (simp add: after_answer_def core_simple)

lemma core_send_ping: "same_core k k' \<Longrightarrow> same_core k (send_ping H E j k')"
  using core_nextVary [of k k' "key_id (j_key j)"]
  by (cases "nextVaryLocked (key_id (j_key j)) k'")
     (auto simp: send_ping_def Let_def core_simple core_after_answer same_core_log split: option.split)

lemma core_fire: "same_core k (fst s) \<Longrightarrow> same_core k (fst (fire H E j s))"
  using core_fireSubstitute [of k s H E j] core_fireExtra [of k s H E j]
  by (auto simp: fire_def Let_def core_simple core_send_ping split: prod.splits bool.splits)

lemma core_press: "same_core k k' \<Longrightarrow> same_core k (snd (press H now r k'))"
  by (auto simp: press_def Let_def core_simple split: option.split)

lemma core_press_answer: "same_core k k' \<Longrightarrow> same_core k (snd (press_answer H E r j ans k'))"
  by (auto simp: press_answer_def press_read_def Let_def core_simple same_core_upd same_core_log evolves_def core_def split: prod.split)

lemma core_PingNow: "same_core k k' \<Longrightarrow> same_core k (snd (PingNow H E now r k'))"
proof -
  assume k: "same_core k k'"
  obtain res k1 where p: "press H now r k' = (res, k1)" by (cases "press H now r k'")
  then have k1: "same_core k k1" using core_press [OF k, of H now r] by simp
  obtain v k2 where v: "nextVaryLocked (key_id (mr_Key r)) k1 = (v, k2)" by (cases "nextVaryLocked (key_id (mr_Key r)) k1")
  then have k2: "same_core k k2" using core_nextVary [OF k1, of "key_id (mr_Key r)"] by simp
  show ?thesis using k1 k2
    by (cases res) (auto simp: PingNow_def Let_def p v core_simple core_press_answer same_core_log split: option.split sum.split)
qed

section \<open>A predicate through the operations\<close>

text \<open>Loops that let go of entries on the way: the tail of the map is still to be visited.\<close>

definition pending :: "(string \<times> nat) list \<Rightarrow> Keeper \<Rightarrow> bool" where
  "pending xs k \<longleftrightarrow> distinct (map fst xs) \<and> set xs \<subseteq> set (k_live k)"

lemma pending_visit: "distinct (map fst (k_live k)) \<Longrightarrow> pending (visit H k) k"
proof -
  assume d: "distinct (map fst (k_live k))"
  have m: "mset (map fst (visit H k)) = mset (map fst (k_live k))" by (simp add: visit_def)
  have "distinct (map fst (visit H k))" using mset_eq_imp_distinct_iff [OF m] d by blast
  then show ?thesis by (simp add: pending_def)
qed

lemma pending_let_go:
  "pending ((key, a) # xs) k \<Longrightarrow> k_live k' = k_live k \<Longrightarrow> pending xs (let_go key a k')"
  by (force simp: pending_def let_go_def Let_def upd_def releaseLocked_def logCall_def AList.delete_eq)

lemma pending_framed: "pending (x # xs) k \<Longrightarrow> same_core k k' \<Longrightarrow> pending xs k'"
  by (simp add: pending_def same_core_def)

lemma pending_head: "pending ((key, a) # xs) k \<Longrightarrow> (key, a) \<in> set (k_live k)"
  by (simp add: pending_def)

lemma same_core_Forget:
  "same_core (drop_where H (\<lambda>key _. has_prefix key (t @ [CHR 0x00])) k) (Forget H t k)"
  by (simp add: Forget_def Let_def same_core_def dropReasonsLocked_def)

locale keeper_core =
  fixes I :: "Keeper \<Rightarrow> bool"
  assumes frame: "I k \<Longrightarrow> same_core k k' \<Longrightarrow> I k'"
    and drop: "I k \<Longrightarrow> (key, a) \<in> set (k_live k) \<Longrightarrow> I (let_go key a k)"
begin

lemma drop_framed:
  assumes "I k" "same_core k k'" "(key, a) \<in> set (k_live k)"
  shows "I (let_go key a k')"
proof (rule drop)
  show "I k'" using assms frame by blast
  show "(key, a) \<in> set (k_live k')" using assms by (simp add: same_core_def)
qed

lemma I_retireLocked: "I k \<Longrightarrow> I (retireLocked key k)"
proof -
  assume k: "I k"
  show ?thesis
  proof (cases "map_of (k_live k) key")
    case (Some a)
    then have "I (let_go key a k)" using k drop map_of_SomeD by fast
    then show ?thesis using Some frame core_clear_candidate same_core_refl by (metis (no_types, lifting) option.simps(5) retireLocked_def)
  qed (simp add: retireLocked_def k)
qed

lemma I_evictLocked: "I k \<Longrightarrow> I (evictLocked H k)"
proof (induction H k rule: evictLocked.induct)
  case (1 H k)
  show ?case
  proof (cases "int (length (k_live k)) > MaxSessions \<or> k_bytes k > MaxBytes")
    case True
    show ?thesis
    proof (cases "worst_entry k (visit H k) None")
      case (Some x)
      obtain key a where x: "x = (key, a)" by (cases x)
      have "(key, a) \<in> set (k_live k)" using worst_entry_in [OF Some] x by simp
      then have "I (let_go key a k)" using "1.prems" drop by blast
      then have "I (skip1 (clear_candidate a (let_go key a k)))"
        using frame core_skip1 core_clear_candidate same_core_refl by blast
      then show ?thesis using "1.IH" True Some x by (simp add: evictLocked.simps [of H k])
    qed (simp add: evictLocked.simps "1.prems")
  qed (simp add: evictLocked.simps "1.prems")
qed

lemma I_evictManualLocked: "I k \<Longrightarrow> I (evictManualLocked H now tenant k)"
proof (induction H now tenant k rule: evictManualLocked.induct)
  case (1 H now tenant k)
  obtain n bs old where o: "oldest_manual tenant k (visit H k) (0, 0, None) = (n, bs, old)"
    by (cases "oldest_manual tenant k (visit H k) (0, 0, None)") auto
  show ?case
  proof (cases old)
    case (Some x)
    obtain key a where x: "x = (key, a)" by (cases x)
    let ?k = "let_go key a (setReasonLocked now (e_key (k_obj k a)) ReasonNoEntry k)"
    have "(key, a) \<in> set (k_live k)" using oldest_manual_in [OF o [unfolded Some x]] by simp
    then have "I ?k" using "1.prems" drop_framed core_setReason same_core_refl by blast
    then have "I (skip1 (clear_candidate a ?k))" using frame core_skip1 core_clear_candidate same_core_refl by blast
    then show ?thesis using "1.IH" "1.prems" o Some x by (simp add: evictManualLocked.simps [of H now tenant k])
  qed (simp add: evictManualLocked.simps o "1.prems")
qed

lemma I_ArriveAt: "I k \<Longrightarrow> I (snd (ArriveAt key k))"
proof -
  assume k: "I k"
  let ?i = "key_id key"
  let ?k = "k\<lparr>k_inflight := AList.update ?i (get_or 0 (k_inflight k) ?i + 1) (k_inflight k)\<rparr>"
  have c: "same_core k ?k" by (simp add: same_core_def)
  have "map_of (k_live k) ?i = Some a \<Longrightarrow> I (let_go ?i a ?k)" for a
    using k c drop_framed map_of_SomeD by fast
  then show ?thesis using k frame [OF k c] by (auto simp: ArriveAt_def Let_def split: option.split)
qed

lemma I_drop_loop:
  "I k \<Longrightarrow> pending xs k \<Longrightarrow>
   I (fold (\<lambda>(key, a) k. if P key (k_obj k a) then clear_candidate a (let_go key a k) else k) xs k)"
proof (induction xs arbitrary: k)
  case (Cons x xs)
  obtain key a where x: "x = (key, a)" by (cases x)
  show ?case
  proof (cases "P key (k_obj k a)")
    case True
    let ?k = "clear_candidate a (let_go key a k)"
    have "I (let_go key a k)" using Cons.prems x drop pending_head by blast
    then have "I ?k" using frame core_clear_candidate same_core_refl by blast
    moreover have "pending xs ?k"
      using Cons.prems x pending_let_go [of key a xs k k] by (simp add: pending_def clear_candidate_def logCall_def)
    ultimately show ?thesis using Cons.IH x True by simp
  next
    case False
    then show ?thesis using Cons x pending_framed [OF _ same_core_refl] by simp
  qed
qed simp

lemma I_drop_where: "I k \<Longrightarrow> distinct (map fst (k_live k)) \<Longrightarrow> I (drop_where H P k)"
  by (simp add: drop_where_def I_drop_loop pending_visit)

lemma I_RetireSessionStartedBefore:
  "I k \<Longrightarrow> distinct (map fst (k_live k)) \<Longrightarrow> I (snd (RetireSessionStartedBefore H tenant session cutoff k))"
  using I_drop_where frame [OF _ core_dropReasons [OF same_core_refl]] by (simp add: RetireSessionStartedBefore_def Let_def)

lemma I_Forget: "I k \<Longrightarrow> distinct (map fst (k_live k)) \<Longrightarrow> I (Forget H t k)"
  using I_drop_where frame same_core_Forget by blast

lemma I_expireAuto: "I k \<Longrightarrow> I (expireAuto now key k)"
proof -
  assume "I k"
  then have "I (case map_of (k_live k) key of
                  None \<Rightarrow> k
                | Some a \<Rightarrow> setReasonLocked now (e_key (k_obj k a)) (autoReleaseReason (k_obj k a)) k)"
    using frame core_setReason same_core_refl by (auto split: option.split)
  then show ?thesis by (simp add: expireAuto_def Let_def I_retireLocked)
qed

lemma I_expireManual: "I k \<Longrightarrow> I (expireManual now key k)"
  using frame [OF _ core_setReason [OF same_core_refl]] I_retireLocked
  by (auto simp: expireManual_def split: option.split)

lemma I_sweep_entry:
  assumes "I k" "pending ((key, a) # xs) k"
  shows "I (fst (sweep_entry H now (key, a) (k, jobs))) \<and> pending xs (fst (sweep_entry H now (key, a) (k, jobs)))"
proof -
  let ?r = "\<lambda>reason. setReasonLocked now (e_key (k_obj k a)) reason k"
  have gone: "I (let_go key a (?r reason)) \<and> pending xs (let_go key a (?r reason))" for reason
    using assms drop_framed core_setReason same_core_refl pending_head pending_let_go setReasonLocked_live by metis
  then have gone2: "I (clear_candidate a (let_go key a (?r reason))) \<and> pending xs (clear_candidate a (let_go key a (?r reason)))"
    for reason using frame core_clear_candidate same_core_refl
    by (simp add: pending_def clear_candidate_def logCall_def) (metis clear_candidate_def core_clear_candidate logCall_def same_core_refl)
  have stay: "I k' \<and> pending xs k'" if "same_core k k'" for k'
    using assms that frame pending_framed by blast
  have u: "same_core k (upd a (\<lambda>e. e\<lparr>e_stopped := True\<rparr>) k)" "same_core k (upd a (\<lambda>e. e\<lparr>e_extraAsked := True\<rparr>) k)"
    by (auto intro!: same_core_upd simp: evolves_def core_def)
  have p: "same_core k (upd a (\<lambda>e. e\<lparr>e_startedAt := now, e_pings := e_pings e + 1, e_pingRunning := True\<rparr>) k)"
    if "due (k_obj k a) now"
    using that by (intro same_core_upd1) (auto simp: evolves_def core_def due_def)
  show ?thesis using gone gone2 stay u p same_core_refl [of k] unfolding sweep_entry_def Let_def by auto
qed

lemma I_sweep_loop: "I k \<Longrightarrow> pending xs k \<Longrightarrow> I (fst (fold (sweep_entry H now) xs (k, jobs)))"
proof (induction xs arbitrary: k jobs)
  case (Cons x xs)
  obtain key a where x: "x = (key, a)" by (cases x)
  show ?case using I_sweep_entry [of k key a xs H now jobs] Cons x
    by (cases "sweep_entry H now (key, a) (k, jobs)") simp
qed simp

lemma I_Sweep: "I k \<Longrightarrow> distinct (map fst (k_live k)) \<Longrightarrow> I (fst (Sweep H now k))"
  by (simp add: Sweep_def I_sweep_loop pending_visit)

end

section \<open>Runs of the keeper\<close>

text \<open>
  The parts of a ping that other goroutines can come between: each holds the lock once, or is one
  atomic counter, or a call to the host.
\<close>

inductive ping_part :: "khost \<Rightarrow> Keeper \<Rightarrow> Keeper \<Rightarrow> bool" for H where
  part_skip: "ping_part H k (skip1 k)"
| part_count: "ping_part H k (bump n k)"
| part_stop: "ping_part H k (markStopped a k)"
| part_step: "ping_part H k (snd (nextVaryLocked key k))"
| part_send: "ping_part H k (logCall (CallDo ref route body) k)"
| part_give_back: "ping_part H k (snd (giveBackFailedPing j now k))"
| part_outcome: "ping_part H k (snd (noteOutcome j now status u k))"
| part_row: "ping_part H k (snd (record1 H j u status t k))"
| part_substitute: "ping_part H k (snd (recordSubstitutePing H j m u t k))"
| part_done: "ping_part H k (pingDone j k)"
| part_press: "ping_part H k (snd (press H now r k))"
| part_unclaim: "ping_part H k (unclaimManual i now k)"
| part_answer: "ping_part H k (snd (press_answer H E r j ans k))"

inductive kstep :: "Keeper \<Rightarrow> Keeper \<Rightarrow> bool" where
  arrive: "kstep k (snd (ArriveAt key k))"
| depart: "kstep k (Depart key k)"
| recorded: "kstep k (Record H now r k)"
| retire: "kstep k (snd (RetireSessionStartedBefore H tenant session cutoff k))"
| forget: "kstep k (Forget H tenant k)"
| shutdown: "kstep k (Shutdown H k)"
| mark_ended: "kstep k (MarkEnded H tenant session now k)"
| sweep: "kstep k (fst (Sweep H now k))"
| expire_auto: "kstep k (expireAuto now key k)"
| expire_manual: "kstep k (expireManual now key k)"
| ping: "kstep k (fst (fire H E j (k, busy)))"
| manual: "kstep k (snd (PingNow H E now r k))"
| part: "ping_part H k k' \<Longrightarrow> kstep k k'"

lemma ping_part_core: "ping_part H k k' \<Longrightarrow> same_core k k'"
  by (induction rule: ping_part.induct)
     (simp_all add: core_simple same_core_log core_noteOutcome core_record1 core_recordSubstitute core_press core_press_answer)

text \<open>
  A manual entry has no schedule, an automatic one has a policy that is on; neither is pinged past it.
\<close>

definition entry_typed :: "kaEntry \<Rightarrow> bool" where
  "entry_typed e \<longleftrightarrow>
     (if e_manualOnly e then e_pol e = zeroPolicy\<lparr>ManualHold := True\<rparr> else On (e_pol e))
     \<and> e_pings e \<le> max 0 (MaxPings (e_pol e))"

text \<open>What \<open>Record\<close> builds, and what it hands over to be placed.\<close>

definition entry_raw :: "kaEntry \<Rightarrow> bool" where
  "entry_raw e \<longleftrightarrow>
     \<not> e_held e \<and> e_body e \<noteq> [] \<and> int (length (e_body e)) \<le> MaxBodyBytes \<and> e_pings e = 0 \<and> \<not> e_manualOnly e"

definition entry_ok :: "kaEntry \<Rightarrow> bool" where
  "entry_ok e \<longleftrightarrow>
     \<not> e_held e \<and> e_body e \<noteq> [] \<and> int (length (e_body e)) \<le> MaxBodyBytes \<and> e_pings e = 0 \<and> entry_typed e"

lemma let_go_live [simp]: "k_live (let_go key a k) = AList.delete key (k_live k)"
  by (simp add: let_go_def Let_def upd_def releaseLocked_def logCall_def)

text \<open>A loop that drops by the key leaves the other entries in the map.\<close>

lemma drop_loop_live:
  "distinct (map fst (k_live k)) \<Longrightarrow> pending xs k \<Longrightarrow>
   k_live (fold (\<lambda>(key, a) k. if P key then clear_candidate a (let_go key a k) else k) xs k)
   = filter (\<lambda>x. \<not> (fst x \<in> fst ` set xs \<and> P (fst x))) (k_live k)"
proof (induction xs arbitrary: k)
  case (Cons x xs)
  obtain key a where x: "x = (key, a)" by (cases x)
  let ?k = "clear_candidate a (let_go key a k)"
  have l: "k_live ?k = AList.delete key (k_live k)" by (simp add: clear_candidate_def logCall_def)
  have d: "distinct (map fst (k_live ?k))" using Cons.prems(1) by (simp add: l distinct_delete)
  show ?case
  proof (cases "P key")
    case True
    have "pending xs ?k" using Cons.prems(2) x pending_let_go [of key a xs k k]
      by (simp add: pending_def clear_candidate_def logCall_def)
    from Cons.IH [OF d this] show ?thesis using True x l by (auto simp: AList.delete_eq intro!: filter_cong)
  next
    case False
    have "pending xs k" using Cons.prems(2) by (simp add: pending_def)
    from Cons.IH [OF Cons.prems(1) this] show ?thesis using False x by (auto intro!: filter_cong)
  qed
qed simp

lemma drop_where_live:
  "distinct (map fst (k_live k)) \<Longrightarrow>
   k_live (drop_where H (\<lambda>key _. P key) k) = filter (\<lambda>x. \<not> P (fst x)) (k_live k)"
  using drop_loop_live [of k "visit H k" P] pending_visit [of k H]
  by (auto simp: drop_where_def intro!: filter_cong)

lemma drop_all_live: "distinct (map fst (k_live k)) \<Longrightarrow> k_live (drop_where H (\<lambda>_ _. True) k) = []"
  using drop_where_live [of k H "\<lambda>_. True"] by simp

locale keeper_pred = keeper_core +
  assumes distinct_keys: "I k \<Longrightarrow> distinct (map fst (k_live k))"
    and place: "I k \<Longrightarrow> map_of (k_live k) (key_id (e_key e)) = None \<Longrightarrow> entry_ok e \<Longrightarrow> I (place H now ref e k)"
    and no_bytes: "I k \<Longrightarrow> k_live k = [] \<Longrightarrow> I (k\<lparr>k_bytes := 0\<rparr>)"
begin

lemma I_Shutdown: "I k \<Longrightarrow> I (Shutdown H k)"
proof -
  assume k: "I k"
  let ?k = "drop_where H (\<lambda>_ _. True) k"
  have "I ?k" using I_drop_where k distinct_keys by blast
  then have "I (?k\<lparr>k_bytes := 0\<rparr>)" using no_bytes drop_all_live distinct_keys k by blast
  then show ?thesis by (rule frame) (simp add: Shutdown_def same_core_def)
qed

lemma I_admit: "I k \<Longrightarrow> e_key e = r_Key r \<Longrightarrow> entry_raw e \<Longrightarrow> I (admit H now r e k)"
proof -
  assume k: "I k" and e: "e_key e = r_Key r" "entry_raw e"
  let ?key = "key_id (r_Key r)"
  let ?k = "case map_of (k_live k) ?key of None \<Rightarrow> k | Some prev \<Rightarrow> let_go ?key prev k"
  let ?m = "e\<lparr>e_manualOnly := True, e_holdFor := holdFor (e_ttl1h e), e_ceiling := Ceiling (e_pol e),
              e_pol := zeroPolicy\<lparr>ManualHold := True\<rparr>\<rparr>"
  have k': "I ?k" using k drop map_of_SomeD by (auto split: option.split) fastforce
  have "map_of (k_live ?k) ?key = None" by (auto simp: map_of_eq_None_iff AList.delete_eq split: option.split)
  then have p: "I (place H now ref e' ?k)" if "e_key e' = r_Key r" "entry_ok e'" for e' ref
    using place [OF k'] that by simp
  have "I (skip1 (setReasonLocked now (r_Key r) reason ?k))" for reason
    by (rule frame [OF k']) (simp add: core_simple)
  moreover have "entry_ok ?m" using e(2) by (simp add: entry_ok_def entry_raw_def entry_typed_def)
  moreover have "On (e_pol e) \<Longrightarrow> entry_ok e" using e(2) by (simp add: entry_ok_def entry_raw_def entry_typed_def)
  ultimately show ?thesis using p [of e] p [of ?m] e(1) by (simp add: admit_def Let_def)
qed

lemma I_track:
  assumes "I k" "r_Body r \<noteq> []" "int (length (r_Body r)) \<le> MaxBodyBytes"
  shows "I (track H now r k)"
proof -
  obtain pol ttl guard wait where p: "record_plan H r (get_or False (k_tier1h k) (key_id (r_Key r))) = (pol, ttl, guard, wait)"
    by (cases "record_plan H r (get_or False (k_tier1h k) (key_id (r_Key r)))")
  have "I (count_turn r ttl k)" by (rule frame [OF assms(1)]) (simp add: core_simple)
  moreover have "entry_raw (make_entry H r (pol, ttl, guard, wait)\<lparr>e_turn := n, e_noTool := b\<rparr>)" for n b
    using assms by (auto simp: entry_raw_def make_entry_def Let_def noEntry_def mask_def elim: mask_from.elims)
  ultimately show ?thesis
    by (simp add: track_def p Let_def I_admit make_entry_def)
qed

lemma I_record_body: "I k \<Longrightarrow> I (record_body H now r k)"
proof -
  assume k: "I k"
  have c: "I (skip1 k')" "I (setReasonLocked now (r_Key r) reason k')" if "I k'" for k' reason
    by (rule frame [OF that], simp add: core_simple)+
  have f: "I (refuse_hold now r reason k)" for reason
    using k c I_retireLocked by (simp add: refuse_hold_def)
  show ?thesis using k c f I_retireLocked I_track unfolding record_body_def Let_def by auto
qed

lemma I_Record: "I k \<Longrightarrow> I (Record H now r k)"
  using I_record_body frame [OF _ core_depart [OF same_core_refl]] by (simp add: Record_def)

lemma I_kstep: "kstep k k' \<Longrightarrow> I k \<Longrightarrow> I k'"
proof (induction rule: kstep.induct)
  case (depart k key) then show ?case using frame core_depart same_core_refl by blast
next
  case (mark_ended k H tenant session now) then show ?case using frame core_MarkEnded same_core_refl by blast
next
  case (ping k H E j busy) then show ?case using frame core_fire [of k "(k, busy)"] by simp
next
  case (manual k H E now r) then show ?case using frame core_PingNow same_core_refl by blast
next
  case (part H k k') then show ?case using frame ping_part_core by blast
qed (simp_all add: I_ArriveAt I_Record I_RetireSessionStartedBefore I_Forget I_Shutdown I_Sweep I_expireAuto
       I_expireManual distinct_keys)

lemma I_run: "kstep\<^sup>*\<^sup>* k k' \<Longrightarrow> I k \<Longrightarrow> I k'"
  by (induction rule: rtranclp_induct) (blast dest: I_kstep)+

end

end
