(* ===== verification/Keepalive_Custody.thy ===== *)
theory Keepalive_Custody
  imports Keepalive_Invariant
begin

text \<open>
  The credentials and the memory of the keeper. The host's custody of credentials is an abstract
  vault: a hold puts a reference in, a release takes one out and is refused when it is not there. Every
  run of the keeper is a run of that vault, and what is in the vault is what the live entries hold. The
  held bodies stay within the two global bounds, and each tenant's manual holds within its caps.
\<close>

section \<open>The vault\<close>

definition vault_step :: "keeper_call \<Rightarrow> Ref multiset \<Rightarrow> Ref multiset option" where
  "vault_step c V =
     (case c of
        CallHold r \<Rightarrow> Some (add_mset r V)
      | CallRelease r \<Rightarrow> if r \<in># V then Some (V - {#r#}) else None
      | _ \<Rightarrow> Some V)"

fun vault_from :: "Ref multiset \<Rightarrow> keeper_call list \<Rightarrow> Ref multiset option" where
  "vault_from V [] = Some V"
| "vault_from V (c # cs) = (case vault_step c V of None \<Rightarrow> None | Some V' \<Rightarrow> vault_from V' cs)"

definition vault :: "keeper_call list \<Rightarrow> Ref multiset option" where
  "vault cs = vault_from {#} cs"

lemma vault_from_append:
  "vault_from V (cs @ ds) = (case vault_from V cs of None \<Rightarrow> None | Some V' \<Rightarrow> vault_from V' ds)"
  by (induction cs arbitrary: V) (auto split: option.split)

lemma vault_from_custody: "vault_from V (filter custody_call cs) = vault_from V cs"
proof (induction cs arbitrary: V)
  case (Cons c cs)
  then show ?case by (cases c) (auto simp: vault_step_def split: option.split)
qed simp

lemma vault_snoc: "vault cs = Some V \<Longrightarrow> vault (cs @ [c]) = vault_step c V"
  by (auto simp: vault_def vault_from_append split: option.split)

definition held_by :: "(nat \<Rightarrow> kaEntry) \<Rightarrow> (string \<times> nat) list \<Rightarrow> Ref multiset" where
  "held_by ob xs = mset (map (\<lambda>x. e_ref (ob (snd x))) (filter (\<lambda>x. e_held (ob (snd x))) xs))"

definition held_refs :: "Keeper \<Rightarrow> Ref multiset" where
  "held_refs k = held_by (k_obj k) (k_live k)"

section \<open>The shape of the map\<close>

definition body_size :: "(nat \<Rightarrow> kaEntry) \<Rightarrow> (string \<times> nat) list \<Rightarrow> int" where
  "body_size ob xs = (\<Sum>x\<leftarrow>xs. int (length (e_body (ob (snd x)))))"

definition slot_ok :: "nat \<Rightarrow> (nat \<Rightarrow> kaEntry) \<Rightarrow> string \<times> nat \<Rightarrow> bool" where
  "slot_ok n ob x \<longleftrightarrow>
     snd x < n \<and> fst x = key_id (e_key (ob (snd x))) \<and> e_body (ob (snd x)) \<noteq> []
     \<and> int (length (e_body (ob (snd x)))) \<le> MaxBodyBytes"

definition map_ok :: "Keeper \<Rightarrow> bool" where
  "map_ok k \<longleftrightarrow>
     distinct (map fst (k_live k)) \<and> distinct (map snd (k_live k))
     \<and> (\<forall>x \<in> set (k_live k). slot_ok (k_next k) (k_obj k) x)
     \<and> k_bytes k = body_size (k_obj k) (k_live k)"

definition keeper_ok :: "Keeper \<Rightarrow> bool" where
  "keeper_ok k \<longleftrightarrow> map_ok k \<and> vault (k_calls k) = Some (held_refs k)"

lemma same_coreD:
  assumes "same_core k k'"
  shows "k_live k' = k_live k" "k_bytes k' = k_bytes k" "k_next k' = k_next k"
    "e_key (k_obj k' a) = e_key (k_obj k a)" "e_body (k_obj k' a) = e_body (k_obj k a)"
    "e_held (k_obj k' a) = e_held (k_obj k a)" "e_ref (k_obj k' a) = e_ref (k_obj k a)"
    "e_manualOnly (k_obj k' a) = e_manualOnly (k_obj k a)"
    "vault (k_calls k') = vault (k_calls k)"
proof -
  have "core (k_obj k' a) = core (k_obj k a)" using assms by (simp add: same_core_def evolves_def)
  then show "e_key (k_obj k' a) = e_key (k_obj k a)" "e_body (k_obj k' a) = e_body (k_obj k a)"
    "e_held (k_obj k' a) = e_held (k_obj k a)" "e_ref (k_obj k' a) = e_ref (k_obj k a)"
    "e_manualOnly (k_obj k' a) = e_manualOnly (k_obj k a)" by (simp_all add: core_def)
  show "vault (k_calls k') = vault (k_calls k)"
    using assms vault_from_custody [of "{#}" "k_calls k"] vault_from_custody [of "{#}" "k_calls k'"]
    by (simp add: same_core_def vault_def)
qed (use assms in \<open>simp_all add: same_core_def\<close>)

lemma map_ok_frame: "map_ok k \<Longrightarrow> same_core k k' \<Longrightarrow> map_ok k'"
proof -
  assume m: "map_ok k" and c: "same_core k k'"
  note d = same_coreD(1-5) [OF c]
  show ?thesis using m unfolding map_ok_def slot_ok_def body_size_def d .
qed

lemma held_refs_frame: "same_core k k' \<Longrightarrow> held_refs k' = held_refs k"
proof -
  assume c: "same_core k k'"
  note d = same_coreD(1,6,7) [OF c]
  show ?thesis unfolding held_refs_def held_by_def d ..
qed

lemma keeper_ok_frame: "keeper_ok k \<Longrightarrow> same_core k k' \<Longrightarrow> keeper_ok k'"
  unfolding keeper_ok_def using map_ok_frame [of k k'] held_refs_frame [of k k'] same_coreD(9) [of k k'] by argo

text \<open>The map splits around an entry, and no other slot has its address.\<close>

lemma live_split:
  assumes "map_ok k" "(key, a) \<in> set (k_live k)"
  obtains xs ys where "k_live k = xs @ (key, a) # ys" "AList.delete key (k_live k) = xs @ ys"
    "\<And>x. x \<in> set (xs @ ys) \<Longrightarrow> snd x \<noteq> a"
proof -
  obtain xs ys where l: "k_live k = xs @ (key, a) # ys" using split_list [OF assms(2)] by blast
  have "distinct (map fst (xs @ (key, a) # ys))" "distinct (map snd (xs @ (key, a) # ys))"
    using assms(1) l by (simp_all add: map_ok_def)
  then have k: "key \<notin> fst ` set (xs @ ys)" and a: "a \<notin> snd ` set (xs @ ys)" by auto
  show thesis
  proof (rule that [OF l])
    show "AList.delete key (k_live k) = xs @ ys"
    proof -
      have "filter (\<lambda>(k', _). key \<noteq> k') zs = zs" if "set zs \<subseteq> set (xs @ ys)" for zs
        using k that by (force simp: filter_id_conv)
      then show ?thesis by (simp add: l AList.delete_eq)
    qed
    show "snd x \<noteq> a" if "x \<in> set (xs @ ys)" for x
      using that a by (metis image_eqI)
  qed
qed

lemma let_go_other [simp]: "b \<noteq> a \<Longrightarrow> k_obj (let_go key a k) b = k_obj k b"
  by (simp add: let_go_def Let_def upd_def releaseLocked_def logCall_def)

lemma let_go_rest [simp]:
  "k_next (let_go key a k) = k_next k"
  "k_bytes (let_go key a k) = k_bytes k - int (length (e_body (k_obj k a)))"
  "k_calls (let_go key a k) = k_calls k @ (if e_held (k_obj k a) then [CallRelease (e_ref (k_obj k a))] else [])"
  by (simp_all add: let_go_def Let_def upd_def releaseLocked_def logCall_def)

lemma map_ok_drop:
  assumes "map_ok k" "(key, a) \<in> set (k_live k)"
  shows "map_ok (let_go key a k)"
proof -
  obtain xs ys where s: "k_live k = xs @ (key, a) # ys" "AList.delete key (k_live k) = xs @ ys"
    "\<And>x. x \<in> set (xs @ ys) \<Longrightarrow> snd x \<noteq> a" using live_split [OF assms] by blast
  have "body_size (k_obj (let_go key a k)) (xs @ ys) = body_size (k_obj k) (xs @ ys)"
    unfolding body_size_def using s(3) by (intro arg_cong [where f = sum_list] map_cong) auto
  moreover have "\<forall>x \<in> set (xs @ ys). slot_ok (k_next k) (k_obj (let_go key a k)) x"
    using assms(1) s(3) by (auto simp: map_ok_def slot_ok_def s(1))
  ultimately show ?thesis using assms(1) by (simp add: map_ok_def s(2)) (simp add: s(1) body_size_def)
qed

lemma keeper_ok_drop:
  assumes "keeper_ok k" "(key, a) \<in> set (k_live k)"
  shows "keeper_ok (let_go key a k)"
proof -
  have m: "map_ok k" and v: "vault (k_calls k) = Some (held_refs k)" using assms(1) by (simp_all add: keeper_ok_def)
  obtain xs ys where s: "k_live k = xs @ (key, a) # ys" "AList.delete key (k_live k) = xs @ ys"
    "\<And>x. x \<in> set (xs @ ys) \<Longrightarrow> snd x \<noteq> a" using live_split [OF m assms(2)] by blast
  have "held_by (k_obj (let_go key a k)) (xs @ ys) = held_by (k_obj k) (xs @ ys)"
    unfolding held_by_def using s(3)
    by (intro arg_cong [where f = mset] map_cong filter_cong) force+
  then have "held_refs k = (if e_held (k_obj k a) then {#e_ref (k_obj k a)#} else {#}) + held_refs (let_go key a k)"
    by (simp add: held_refs_def s(2)) (simp add: s(1) held_by_def)
  then have "vault (k_calls (let_go key a k)) = Some (held_refs (let_go key a k))"
    using v vault_snoc [OF v] by (simp add: vault_step_def)
  then show ?thesis using map_ok_drop [OF m assms(2)] by (simp add: keeper_ok_def)
qed

section \<open>Placing an entry\<close>

lemma insert_entry_rest:
  "k_live (insert_entry now ref e k) = AList.update (key_id (e_key e)) (k_next k) (k_live k)"
  "k_next (insert_entry now ref e k) = Suc (k_next k)"
  "k_bytes (insert_entry now ref e k) = k_bytes k + int (length (e_body e))"
  "k_calls (insert_entry now ref e k) = k_calls k @ (case ref of None \<Rightarrow> [] | Some r \<Rightarrow> [CallHold r])"
  "b \<noteq> k_next k \<Longrightarrow> k_obj (insert_entry now ref e k) b = k_obj k b"
  by (simp_all add: insert_entry_def Let_def upd_def logCall_def clearReasonLocked_def split: option.split)

lemma insert_entry_new:
  "core (k_obj (insert_entry now ref e k) (k_next k)) =
   core (case ref of None \<Rightarrow> e | Some r \<Rightarrow> e\<lparr>e_ref := r, e_held := True\<rparr>)"
  by (simp add: insert_entry_def Let_def upd_def logCall_def clearReasonLocked_def core_def split: option.split)

lemma insert_entry_new_field [simp]:
  "e_key (k_obj (insert_entry now ref e k) (k_next k)) = e_key e"
  "e_body (k_obj (insert_entry now ref e k) (k_next k)) = e_body e"
  "e_held (k_obj (insert_entry now ref e k) (k_next k)) = (case ref of None \<Rightarrow> e_held e | Some r \<Rightarrow> True)"
  "e_ref (k_obj (insert_entry now ref e k) (k_next k)) = (case ref of None \<Rightarrow> e_ref e | Some r \<Rightarrow> r)"
  "e_manualOnly (k_obj (insert_entry now ref e k) (k_next k)) = e_manualOnly e"
  using insert_entry_new [of now ref e k] by (auto simp: core_def split: option.splits)

lemma update_new: "map_of m key = None \<Longrightarrow> AList.update key v m = m @ [(key, v)]"
  by (induction m) (auto split: if_splits)

lemma map_ok_insert:
  assumes "map_ok k" "map_of (k_live k) (key_id (e_key e)) = None" "entry_ok e"
  shows "map_ok (insert_entry now ref e k)"
proof -
  have old: "snd x < k_next k" if "x \<in> set (k_live k)" for x
    using assms(1) that by (auto simp: map_ok_def slot_ok_def)
  then have size: "body_size (k_obj (insert_entry now ref e k)) (k_live k) = body_size (k_obj k) (k_live k)"
    unfolding body_size_def by (intro arg_cong [where f = sum_list] map_cong) (force simp: insert_entry_rest)+
  have slots: "slot_ok (Suc (k_next k)) (k_obj (insert_entry now ref e k)) x" if "x \<in> set (k_live k)" for x
    using assms(1) that old [OF that] by (auto simp: map_ok_def slot_ok_def insert_entry_rest)
  have "key_id (e_key e) \<notin> fst ` set (k_live k)" using assms(2) by (simp add: map_of_eq_None_iff)
  moreover have "k_next k \<notin> snd ` set (k_live k)" using old by force
  ultimately show ?thesis using assms size slots
    by (auto simp: map_ok_def insert_entry_rest update_new body_size_def slot_ok_def [of "Suc (k_next k)" _ "(_, k_next k)"] entry_ok_def)
qed

lemma keeper_ok_insert:
  assumes "keeper_ok k" "map_of (k_live k) (key_id (e_key e)) = None" "entry_ok e"
  shows "keeper_ok (insert_entry now ref e k)"
proof -
  have m: "map_ok k" and v: "vault (k_calls k) = Some (held_refs k)" using assms(1) by (simp_all add: keeper_ok_def)
  have old: "snd x \<noteq> k_next k" if "x \<in> set (k_live k)" for x
    using m that by (auto simp: map_ok_def slot_ok_def)
  then have "held_by (k_obj (insert_entry now ref e k)) (k_live k) = held_by (k_obj k) (k_live k)"
    unfolding held_by_def by (intro arg_cong [where f = mset] map_cong filter_cong) (force simp: insert_entry_rest)+
  then have "held_refs (insert_entry now ref e k) = held_refs k + (case ref of None \<Rightarrow> {#} | Some r \<Rightarrow> {#r#})"
    using assms(2,3) by (auto simp: held_refs_def insert_entry_rest update_new held_by_def entry_ok_def split: option.split)
  then have "vault (k_calls (insert_entry now ref e k)) = Some (held_refs (insert_entry now ref e k))"
    using v vault_snoc [OF v] by (auto simp: insert_entry_rest vault_step_def split: option.split)
  then show ?thesis using map_ok_insert [OF m assms(2,3)] by (simp add: keeper_ok_def)
qed

lemma nul_split: "a @ CHR 0x00 # x = b @ CHR 0x00 # y \<Longrightarrow> CHR 0x00 \<notin> set a \<Longrightarrow> CHR 0x00 \<notin> set b \<Longrightarrow> a = b"
  by (induction a arbitrary: b) (auto simp: Cons_eq_append_conv append_eq_Cons_conv)

section \<open>The instance\<close>

interpretation shape: keeper_core map_ok
  by unfold_locales (fact map_ok_frame map_ok_drop)+

interpretation ok: keeper_core keeper_ok
  by unfold_locales (fact keeper_ok_frame keeper_ok_drop)+

lemma keeper_ok_place:
  assumes "keeper_ok k" "map_of (k_live k) (key_id (e_key e)) = None" "entry_ok e"
  shows "keeper_ok (place H now ref e k)"
  using keeper_ok_insert [OF assms] by (simp add: place_def ok.I_evictLocked ok.I_evictManualLocked)

interpretation custody: keeper_pred keeper_ok
proof unfold_locales
  fix k assume k: "keeper_ok k"
  then show "distinct (map fst (k_live k))" by (simp add: keeper_ok_def map_ok_def)
  show "keeper_ok (place H now ref e k)" if "map_of (k_live k) (key_id (e_key e)) = None" "entry_ok e" for H now ref e
    using keeper_ok_place [OF k that] .
  show "keeper_ok (k\<lparr>k_bytes := 0\<rparr>)" if "k_live k = []"
    using k that by (simp add: keeper_ok_def map_ok_def body_size_def held_refs_def held_by_def)
qed

lemma keeper_ok_New: "keeper_ok New"
  by (simp add: keeper_ok_def map_ok_def New_def body_size_def held_refs_def held_by_def vault_def)

section \<open>A host and a request for the witnesses\<close>

definition sample_host :: khost where
  "sample_host =
     \<lparr>h_price = (\<lambda>_ _ _. None), h_get = (\<lambda>_ _. JNull), h_str = (\<lambda>_ _. []), h_urlHost = (\<lambda>_. None), h_models = [],
      h_env = [], h_openTasks = (\<lambda>_ _ _. (0, 0)), h_terminal = None, h_maskKey = ''key'',
      h_hasSummary = (\<lambda>_. False), h_hasSweep = (\<lambda>_. False), h_rank = (\<lambda>_ _. 0)\<rparr>"

text \<open>A request on Bedrock that read the cache; \<open>p\<close> is its policy, \<open>t\<close> its tenant.\<close>

definition sample_record :: "string \<Rightarrow> Policy \<Rightarrow> KRecord" where
  "sample_record t p =
     \<lparr>r_Key = \<lparr>kTenant = t, kSession = ''s'', kThread = []\<rparr>, r_StartedAt = 5, r_Body = ''body'', r_TouchAlias = [],
      r_Provider = Bedrock, r_Endpoint = [], r_Route = [], r_Status = 200,
      r_Usage = \<lparr>FreshInput = 1, CacheRead = 10, CacheWrite = 0, UOutput = 1, CacheWrite1h = 0, UStopReason = ''end_turn''\<rparr>,
      r_Cred = ''c'', r_Client = [], r_UsageOK = True, r_ToolUseNames = [], r_ToolUseIncomplete = False,
      r_Policy = p, r_Tag = [], r_Header = [], r_Hold = Some ''ref''\<rparr>"

definition sample_manual :: Policy where "sample_manual = zeroPolicy\<lparr>ManualHold := True\<rparr>"

definition sample_auto :: Policy where
  "sample_auto = zeroPolicy\<lparr>KeepAlive := True, pIdle := 240 * second, MaxPings := 2\<rparr>"

definition sample_held :: Keeper where
  "sample_held = Record sample_host 9 (sample_record ''u'' sample_manual) (Record sample_host 7 (sample_record ''t'' sample_manual) New)"

lemma sample_held_run: "kstep\<^sup>*\<^sup>* New sample_held"
  unfolding sample_held_def by (rule rtranclp.intros(2) [OF r_into_rtranclp], rule recorded, rule recorded)

section \<open>Custody over every run\<close>

text \<open>
  C1: the keeper refines the vault of the host. Over every interleaving of requests, recordings,
  sweeps, pings and their parts, timers, lifecycle signals, Forget and Shutdown, the calls it makes
  are accepted by the vault: no reference is released that is not held, none twice. The vault then
  holds exactly the references of the entries that are live.
\<close>
theorem custody_refines_vault:
  assumes "kstep\<^sup>*\<^sup>* New k"
  shows "vault (k_calls k) = Some (held_refs k)"
  using custody.I_run [OF assms keeper_ok_New] by (simp add: keeper_ok_def)

theorem custody_refines_vault_witness:
  "k_calls sample_held = [CallHold ''ref'', CallHold ''ref''] \<and> vault (k_calls sample_held) = Some (held_refs sample_held)"
proof
  show "k_calls sample_held = [CallHold ''ref'', CallHold ''ref'']" by code_simp
qed (rule custody_refines_vault [OF sample_held_run])

text \<open>
  C22: Forget and Shutdown end custody. After Forget no entry of the tenant is live, whatever threads,
  sessions and client aliases it had, the entries of other tenants stay in the map, and the vault holds
  only what live entries hold; after Shutdown nothing is live and the vault is empty.
\<close>
theorem Forget_releases_tenant:
  assumes "kstep\<^sup>*\<^sup>* New k"
  shows "(\<forall>(key, a) \<in> set (k_live (Forget H t k)). e_tenant (k_obj (Forget H t k) a) \<noteq> t)
    \<and> (\<forall>(key, a) \<in> set (k_live k). CHR 0x00 \<notin> set t \<and> CHR 0x00 \<notin> set (e_tenant (k_obj k a)) \<and> e_tenant (k_obj k a) \<noteq> t
         \<longrightarrow> (key, a) \<in> set (k_live (Forget H t k)))
    \<and> vault (k_calls (Forget H t k)) = Some (held_refs (Forget H t k))
    \<and> k_live (Shutdown H k) = [] \<and> vault (k_calls (Shutdown H k)) = Some {#}"
proof -
  let ?p = "t @ [CHR 0x00]" and ?f = "Forget H t k"
  have k: "keeper_ok k" using custody.I_run [OF assms keeper_ok_New] .
  then have d: "distinct (map fst (k_live k))" by (simp add: keeper_ok_def map_ok_def)
  have f: "keeper_ok ?f" using ok.I_Forget [OF k d] .
  have live: "k_live ?f = filter (\<lambda>x. \<not> has_prefix (fst x) ?p) (k_live k)"
    using same_core_Forget [of H t k] drop_where_live [OF d, of H "\<lambda>key. has_prefix key ?p"] by (simp add: same_core_def)
  have tenant: "key = e_tenant (k_obj k' a) @ [CHR 0x00] @ Key (e_session (k_obj k' a)) (e_thread (k_obj k' a))"
    if "keeper_ok k'" "(key, a) \<in> set (k_live k')" for k' key a
    using that by (auto simp: keeper_ok_def map_ok_def slot_ok_def key_id_def)
  have "e_tenant (k_obj ?f a) \<noteq> t" if "(key, a) \<in> set (k_live ?f)" for key a
    using tenant [OF f that] that by (auto simp: live has_prefix_iff)
  moreover have "(key, a) \<in> set (k_live ?f)"
    if m: "(key, a) \<in> set (k_live k)" and n: "CHR 0x00 \<notin> set t" "CHR 0x00 \<notin> set (e_tenant (k_obj k a))" "e_tenant (k_obj k a) \<noteq> t"
    for key a
    using tenant [OF k m] m n by (auto simp: live has_prefix_iff dest!: nul_split)
  moreover have s: "keeper_ok (Shutdown H k)" using custody.I_Shutdown [OF k] .
  moreover have "k_live (Shutdown H k) = []" by (simp add: Shutdown_def drop_all_live [OF d])
  ultimately show ?thesis using f by (auto simp: keeper_ok_def held_refs_def held_by_def)
qed

theorem Forget_releases_tenant_witness:
  "vault (k_calls (Shutdown sample_host sample_held)) = Some {#}
   \<and> map fst (k_live (Forget sample_host ''t'' sample_held)) = [''u'' @ [CHR 0x00] @ ''s'']"
proof
  show "vault (k_calls (Shutdown sample_host sample_held)) = Some {#}"
    using Forget_releases_tenant [OF sample_held_run, of sample_host "''t''"] by simp
qed code_simp

end
