(* ===== verification/Keepalive_Bounds.thy ===== *)
theory Keepalive_Bounds
  imports Keepalive_Custody
begin

text \<open>
  The memory of the keeper: at most \<open>MaxSessions\<close> entries and \<open>MaxBytes\<close> of bodies in all, at most
  \<open>ManualHoldMaxPerTenant\<close> entries and \<open>ManualHoldMaxBytesPerTenant\<close> of bodies in one tenant's manual
  holds, and the pings of an entry within its policy. The eviction loops end with the bounds met.
\<close>

section \<open>The two global bounds\<close>

definition in_bounds :: "Keeper \<Rightarrow> bool" where
  "in_bounds k \<longleftrightarrow> int (length (k_live k)) \<le> MaxSessions \<and> k_bytes k \<le> MaxBytes"

lemma worst_entry_None: "worst_entry k xs w = None \<longleftrightarrow> xs = [] \<and> w = None"
  by (induction k xs w rule: worst_entry.induct) (auto simp: Let_def split: option.splits)

text \<open>The order of eviction: manual holds first, then the latest start.\<close>

definition goes_before :: "kaEntry \<Rightarrow> kaEntry \<Rightarrow> bool" where
  "goes_before e f \<longleftrightarrow>
     (e_manualOnly f \<longrightarrow> e_manualOnly e) \<and> (e_manualOnly f = e_manualOnly e \<longrightarrow> e_startedAt f \<le> e_startedAt e)"

lemma goes_before_trans: "goes_before e f \<Longrightarrow> goes_before f g \<Longrightarrow> goes_before e g"
  by (auto simp: goes_before_def)

lemma worst_entry_goes_first:
  "worst_entry k xs w = Some (key, a) \<Longrightarrow>
   (\<forall>x \<in> set xs. goes_before (k_obj k a) (k_obj k (snd x)))
   \<and> (case w of None \<Rightarrow> True | Some (_, b) \<Rightarrow> goes_before (k_obj k a) (k_obj k b))"
proof (induction k xs w arbitrary: key a rule: worst_entry.induct)
  case (2 k k' b rest w)
  let ?w = "case w of None \<Rightarrow> Some (k', b)
    | Some (_, c) \<Rightarrow>
        let e = k_obj k b; f = k_obj k c in
        if (e_manualOnly e \<and> \<not> e_manualOnly f) \<or> (e_manualOnly e = e_manualOnly f \<and> e_startedAt e > e_startedAt f)
        then Some (k', b) else w"
  have "?w \<noteq> None" by (simp add: Let_def split: option.split)
  then obtain v c where w: "?w = Some (v, c)" by auto
  with "2.prems" "2.IH" have IH: "\<forall>x \<in> set rest. goes_before (k_obj k a) (k_obj k (snd x))" "goes_before (k_obj k a) (k_obj k c)"
    by simp_all
  have b: "goes_before (k_obj k c) (k_obj k b)"
    using w by (cases w) (auto simp: goes_before_def Let_def split: if_splits)
  have "goes_before (k_obj k a) (k_obj k d)" if "w = Some (key', d)" for key' d
  proof -
    have "goes_before (k_obj k c) (k_obj k d)" using w that by (auto simp: goes_before_def Let_def split: if_splits)
    then show ?thesis using IH(2) goes_before_trans by blast
  qed
  moreover have "goes_before (k_obj k a) (k_obj k b)" using IH(2) b goes_before_trans by blast
  ultimately show ?case using IH(1) by (simp split: option.split)
qed (auto simp: goes_before_def)

lemma sum_list_visit: "sum_list (map f (filter P (visit H k))) = (sum_list (map f (filter P (k_live k))) :: int)"
  by (metis (no_types) filter_sort mset_map mset_sort sum_mset_sum_list visit_def)

lemma body_size_nonneg: "0 \<le> body_size ob xs"
  by (induction xs) (simp_all add: body_size_def)

text \<open>One round of the loop.\<close>

definition evict_round :: "string \<Rightarrow> nat \<Rightarrow> Keeper \<Rightarrow> Keeper" where
  "evict_round key a k = skip1 (clear_candidate a (let_go key a k))"

lemma evict_round_ok: "map_ok k \<Longrightarrow> (key, a) \<in> set (k_live k) \<Longrightarrow> map_ok (evict_round key a k)"
  unfolding evict_round_def by (rule map_ok_frame [OF map_ok_drop]) (auto simp: core_simple)

lemma evict_round_live [simp]: "k_live (evict_round key a k) = AList.delete key (k_live k)"
  by (simp add: evict_round_def skip1_def clear_candidate_def logCall_def)

lemma evict_round_skipped [simp]: "k_skipped (evict_round key a k) = k_skipped k + 1"
  by (simp add: evict_round_def skip1_def clear_candidate_def logCall_def let_go_def Let_def upd_def releaseLocked_def)

lemma evict_round_other [simp]: "b \<noteq> a \<Longrightarrow> k_obj (evict_round key a k) b = k_obj k b"
  by (simp add: evict_round_def skip1_def clear_candidate_def logCall_def)

lemma length_live_delete: "map_ok k \<Longrightarrow> (key, a) \<in> set (k_live k) \<Longrightarrow> length (k_live k) = Suc (length (AList.delete key (k_live k)))"
proof -
  assume k: "map_ok k" "(key, a) \<in> set (k_live k)"
  obtain xs ys where s: "k_live k = xs @ (key, a) # ys" "AList.delete key (k_live k) = xs @ ys"
    using live_split [OF k] by blast
  have "length (k_live k) = Suc (length (xs @ ys))" by (simp add: s(1))
  then show ?thesis by (simp add: s(2))
qed

lemma evictLocked_step:
  assumes "map_ok k" "\<not> in_bounds k"
  obtains key a where "(key, a) \<in> set (k_live k)" "evictLocked H k = evictLocked H (evict_round key a k)"
    "\<And>x. x \<in> set (k_live k) \<Longrightarrow> goes_before (k_obj k a) (k_obj k (snd x))"
proof -
  have "k_live k \<noteq> []" using assms by (auto simp: in_bounds_def map_ok_def body_size_def MaxSessions_def MaxBytes_def)
  then have "visit H k \<noteq> []" using set_visit by (metis set_empty)
  then obtain key a where w: "worst_entry k (visit H k) None = Some (key, a)"
    using worst_entry_None [of k "visit H k" None] by (cases "worst_entry k (visit H k) None") auto
  show thesis
  proof (rule that)
    show "(key, a) \<in> set (k_live k)" using worst_entry_in [OF w] by simp
    show "evictLocked H k = evictLocked H (evict_round key a k)"
      using assms(2) w by (simp add: evictLocked.simps [of H k] in_bounds_def evict_round_def not_le)
    show "goes_before (k_obj k a) (k_obj k (snd x))" if "x \<in> set (k_live k)" for x
      using worst_entry_goes_first [OF w] that by simp
  qed
qed

lemma evictLocked_stop: "in_bounds k \<Longrightarrow> evictLocked H k = k"
  by (simp add: evictLocked.simps [of H k] in_bounds_def not_less)

text \<open>
  C21: the eviction loop ends, with both bounds met. It takes one round for each entry it lets go,
  it does nothing when the bounds hold, and it touches no automatic entry while a manual hold is left
  of any tenant.
\<close>
theorem evictLocked_ends:
  assumes "map_ok k"
  shows "in_bounds (evictLocked H k) \<and> set (k_live (evictLocked H k)) \<subseteq> set (k_live k)
    \<and> k_skipped (evictLocked H k) - k_skipped k = int (length (k_live k)) - int (length (k_live (evictLocked H k)))
    \<and> (in_bounds k \<longrightarrow> evictLocked H k = k)
    \<and> ((\<exists>x \<in> set (k_live k) - set (k_live (evictLocked H k)). \<not> e_manualOnly (k_obj k (snd x)))
        \<longrightarrow> (\<forall>x \<in> set (k_live (evictLocked H k)). \<not> e_manualOnly (k_obj k (snd x))))"
  using assms
proof (induction "length (k_live k)" arbitrary: k)
  case 0
  then have "in_bounds k" by (simp add: in_bounds_def map_ok_def body_size_def MaxSessions_def MaxBytes_def)
  then show ?case by (simp add: evictLocked_stop)
next
  case (Suc n)
  show ?case
  proof (cases "in_bounds k")
    case True
    then show ?thesis by (simp add: evictLocked_stop)
  next
    case False
    obtain key a where e: "(key, a) \<in> set (k_live k)" "evictLocked H k = evictLocked H (evict_round key a k)"
      "\<And>x. x \<in> set (k_live k) \<Longrightarrow> goes_before (k_obj k a) (k_obj k (snd x))"
      using evictLocked_step [OF Suc.prems False] by blast
    let ?k = "evict_round key a k"
    obtain xs ys where s: "k_live k = xs @ (key, a) # ys" "AList.delete key (k_live k) = xs @ ys"
      "\<And>x. x \<in> set (xs @ ys) \<Longrightarrow> snd x \<noteq> a" using live_split [OF Suc.prems e(1)] by blast
    have len: "n = length (k_live ?k)" using Suc.hyps(2) length_live_delete [OF Suc.prems e(1)] by simp
    note IH = Suc.hyps(1) [OF len evict_round_ok [OF Suc.prems e(1)]]
    have live: "set (k_live (evictLocked H ?k)) \<subseteq> set (xs @ ys)" using IH by (simp add: s(2))
    have obj: "k_obj ?k (snd x) = k_obj k (snd x)" if "x \<in> set (xs @ ys)" for x using s(3) [OF that] by simp
    have manual: "\<forall>x \<in> set (k_live (evictLocked H ?k)). \<not> e_manualOnly (k_obj k (snd x))"
      if "x \<in> set (k_live k) - set (k_live (evictLocked H ?k))" "\<not> e_manualOnly (k_obj k (snd x))" for x
    proof (cases "x = (key, a)")
      case True
      then show ?thesis using e(3) that(2) live s(1) by (auto simp: goes_before_def)
    next
      case False
      then have x: "x \<in> set (xs @ ys)" using that(1) s(1) by auto
      then have "x \<in> set (k_live ?k) - set (k_live (evictLocked H ?k))" "\<not> e_manualOnly (k_obj ?k (snd x))"
        using that obj [OF x] by (auto simp: s(2))
      with IH have "\<forall>x \<in> set (k_live (evictLocked H ?k)). \<not> e_manualOnly (k_obj ?k (snd x))" by blast
      then show ?thesis using live obj by (metis subsetD)
    qed
    have "set (xs @ ys) \<subseteq> set (k_live k)" by (auto simp: s(1))
    then show ?thesis using IH False manual live Suc.hyps(2) len unfolding e(2) by (simp add: s(2)) blast
  qed
qed

theorem evictLocked_ends_witness:
  "in_bounds (evictLocked sample_host sample_held) \<and> evictLocked sample_host sample_held = sample_held"
proof -
  have "keeper_ok sample_held" using custody.I_run [OF sample_held_run keeper_ok_New] .
  then have m: "map_ok sample_held" by (simp add: keeper_ok_def)
  have "in_bounds sample_held" by code_simp
  then show ?thesis using evictLocked_ends [OF m, of sample_host] by blast
qed

section \<open>The manual holds of a tenant\<close>

definition manual_of :: "string \<Rightarrow> Keeper \<Rightarrow> (string \<times> nat) list \<Rightarrow> (string \<times> nat) list" where
  "manual_of t k xs = filter (\<lambda>x. e_manualOnly (k_obj k (snd x)) \<and> e_tenant (k_obj k (snd x)) = t) xs"

definition caps :: "string \<Rightarrow> Keeper \<Rightarrow> bool" where
  "caps t k \<longleftrightarrow>
     int (length (manual_of t k (k_live k))) \<le> ManualHoldMaxPerTenant
     \<and> body_size (k_obj k) (manual_of t k (k_live k)) \<le> ManualHoldMaxBytesPerTenant"

lemma oldest_manual_sum:
  "oldest_manual t k xs (n, bs, old) = (n', bs', old') \<Longrightarrow>
   n' = n + int (length (manual_of t k xs)) \<and> bs' = bs + body_size (k_obj k) (manual_of t k xs)
   \<and> (old' = None \<longleftrightarrow> old = None \<and> manual_of t k xs = [])"
proof (induction xs arbitrary: n bs old)
  case (Cons x xs)
  obtain key a where x: "x = (key, a)" by (cases x)
  let ?e = "k_obj k a"
  show ?case
  proof (cases "e_manualOnly ?e \<and> e_tenant ?e = t")
    case True
    let ?old = "case old of None \<Rightarrow> Some (key, a)
      | Some (_, b) \<Rightarrow> if e_startedAt ?e < e_startedAt (k_obj k b) then Some (key, a) else old"
    have "oldest_manual t k xs (n + 1, bs + int (length (e_body ?e)), ?old) = (n', bs', old')"
      using Cons.prems True by (simp add: x Let_def)
    from Cons.IH [OF this]
    have "n' = n + 1 + int (length (manual_of t k xs))" "old' = None \<longleftrightarrow> ?old = None \<and> manual_of t k xs = []"
      "bs' = bs + int (length (e_body ?e)) + body_size (k_obj k) (manual_of t k xs)"
      by simp_all
    moreover have "?old \<noteq> None" by (simp split: option.split)
    moreover have "manual_of t k (x # xs) = x # manual_of t k xs" using True by (simp add: x manual_of_def)
    ultimately show ?thesis by (simp add: x body_size_def)
  next
    case False
    then have "oldest_manual t k xs (n, bs, old) = (n', bs', old')" using Cons.prems by (auto simp: x Let_def)
    moreover have "manual_of t k (x # xs) = manual_of t k xs" using False by (auto simp: x manual_of_def)
    ultimately show ?thesis using Cons.IH by simp
  qed
qed (simp add: manual_of_def body_size_def)

lemma manual_of_visit:
  "length (manual_of t k (visit H k)) = length (manual_of t k (k_live k))"
  "body_size (k_obj k) (manual_of t k (visit H k)) = body_size (k_obj k) (manual_of t k (k_live k))"
  using sum_list_visit [of "\<lambda>x. int (length (e_body (k_obj k (snd x))))" _ H k]
  by (simp_all add: manual_of_def body_size_def visit_def filter_sort)

definition caps_in :: "string set \<Rightarrow> Keeper \<Rightarrow> bool" where
  "caps_in T k \<longleftrightarrow> map_ok k \<and> (\<forall>t \<in> T. caps t k)"

lemma caps_in_frame: "caps_in T k \<Longrightarrow> same_core k k' \<Longrightarrow> caps_in T k'"
proof -
  assume c: "caps_in T k" "same_core k k'"
  note d = same_coreD(1,4,5,8) [OF c(2)]
  have "map_ok k'" using c map_ok_frame by (auto simp: caps_in_def)
  then show ?thesis using c(1) unfolding caps_in_def caps_def manual_of_def body_size_def d by blast
qed

lemma manual_of_drop:
  assumes "map_ok k" "(key, a) \<in> set (k_live k)"
  shows "int (length (manual_of t (let_go key a k) (k_live (let_go key a k)))) \<le> int (length (manual_of t k (k_live k)))
    \<and> body_size (k_obj (let_go key a k)) (manual_of t (let_go key a k) (k_live (let_go key a k)))
      \<le> body_size (k_obj k) (manual_of t k (k_live k))"
proof -
  obtain xs ys where s: "k_live k = xs @ (key, a) # ys" "AList.delete key (k_live k) = xs @ ys"
    "\<And>x. x \<in> set (xs @ ys) \<Longrightarrow> snd x \<noteq> a" using live_split [OF assms] by blast
  have m: "manual_of t (let_go key a k) (xs @ ys) = manual_of t k (xs @ ys)"
    unfolding manual_of_def using s(3) by (intro filter_cong) auto
  have b: "body_size (k_obj (let_go key a k)) (manual_of t k (xs @ ys)) = body_size (k_obj k) (manual_of t k (xs @ ys))"
    unfolding body_size_def manual_of_def using s(3) by (intro arg_cong [where f = sum_list] map_cong) force+
  show ?thesis by (simp add: s(2) m b) (simp add: s(1) manual_of_def body_size_def)
qed

lemma caps_in_drop: "caps_in T k \<Longrightarrow> (key, a) \<in> set (k_live k) \<Longrightarrow> caps_in T (let_go key a k)"
proof -
  assume c: "caps_in T k" and m: "(key, a) \<in> set (k_live k)"
  then have k: "map_ok k" by (simp add: caps_in_def)
  have "caps t (let_go key a k)" if "t \<in> T" for t
  proof -
    have "caps t k" using c that by (simp add: caps_in_def)
    then show ?thesis using manual_of_drop [OF k m, of t] unfolding caps_def by linarith
  qed
  then show ?thesis using map_ok_drop [OF k m] by (simp add: caps_in_def)
qed

interpretation caps: keeper_core "caps_in T" for T
  by unfold_locales (fact caps_in_frame caps_in_drop)+

lemma manual_of_insert:
  assumes "map_ok k" "map_of (k_live k) (key_id (e_key e)) = None" "entry_ok e"
  shows "manual_of t (insert_entry now ref e k) (k_live (insert_entry now ref e k)) =
    manual_of t k (k_live k) @ (if e_manualOnly e \<and> e_tenant e = t then [(key_id (e_key e), k_next k)] else [])"
    "body_size (k_obj (insert_entry now ref e k)) (manual_of t k (k_live k)) = body_size (k_obj k) (manual_of t k (k_live k))"
proof -
  have old: "snd x \<noteq> k_next k" if "x \<in> set (k_live k)" for x using assms(1) that by (auto simp: map_ok_def slot_ok_def)
  then have "manual_of t (insert_entry now ref e k) (k_live k) = manual_of t k (k_live k)"
    unfolding manual_of_def by (intro filter_cong) (force simp: insert_entry_rest)+
  then show "manual_of t (insert_entry now ref e k) (k_live (insert_entry now ref e k)) =
    manual_of t k (k_live k) @ (if e_manualOnly e \<and> e_tenant e = t then [(key_id (e_key e), k_next k)] else [])"
    using assms(2) by (simp add: insert_entry_rest update_new) (simp add: manual_of_def)
  show "body_size (k_obj (insert_entry now ref e k)) (manual_of t k (k_live k)) = body_size (k_obj k) (manual_of t k (k_live k))"
    unfolding body_size_def manual_of_def using old by (intro arg_cong [where f = sum_list] map_cong) (force simp: insert_entry_rest)+
qed

lemma caps_in_insert_other:
  assumes "caps_in T k" "map_of (k_live k) (key_id (e_key e)) = None" "entry_ok e" "e_manualOnly e \<Longrightarrow> e_tenant e \<notin> T"
  shows "caps_in T (insert_entry now ref e k)"
proof -
  have m: "map_ok k" using assms(1) by (simp add: caps_in_def)
  show ?thesis
    using assms map_ok_insert [OF m assms(2,3)] manual_of_insert [OF m assms(2,3)] by (auto simp: caps_in_def caps_def)
qed

lemma evictManualLocked_caps: "map_ok k \<Longrightarrow> caps t (evictManualLocked H now t k)"
proof (induction H now t k rule: evictManualLocked.induct)
  case (1 H now t k)
  obtain n bs old where o: "oldest_manual t k (visit H k) (0, 0, None) = (n, bs, old)"
    by (cases "oldest_manual t k (visit H k) (0, 0, None)") auto
  have sum: "n = int (length (manual_of t k (k_live k)))" "bs = body_size (k_obj k) (manual_of t k (k_live k))"
    "old = None \<longleftrightarrow> manual_of t k (visit H k) = []"
    using oldest_manual_sum [OF o] manual_of_visit by auto
  show ?case
  proof (cases old)
    case None
    then have "manual_of t k (k_live k) = []" using sum(3) manual_of_visit(1) [of t k H] by (metis length_0_conv)
    then show ?thesis using None o
      by (simp add: evictManualLocked.simps [of H now t k] caps_def body_size_def ManualHoldMaxPerTenant_def ManualHoldMaxBytesPerTenant_def)
  next
    case (Some x)
    obtain key a where x: "x = (key, a)" by (cases x)
    let ?r = "setReasonLocked now (e_key (k_obj k a)) ReasonNoEntry k"
    have c: "same_core k ?r" by (simp add: core_simple)
    have "(key, a) \<in> set (k_live k)" using oldest_manual_in [OF o [unfolded Some x]] by simp
    then have "map_ok (skip1 (clear_candidate a (let_go key a ?r)))"
      using map_ok_frame [OF "1.prems" c] evict_round_ok [of ?r key a] by (simp add: evict_round_def)
    then show ?thesis using "1.IH" o Some x sum
      by (simp add: evictManualLocked.simps [of H now t k] caps_def)
  qed
qed

section \<open>Every run\<close>

definition bounded_ok :: "Keeper \<Rightarrow> bool" where
  "bounded_ok k \<longleftrightarrow> in_bounds k \<and> caps_in UNIV k"

lemma in_bounds_drop:
  assumes "map_ok k" "in_bounds k" "(key, a) \<in> set (k_live k)" shows "in_bounds (let_go key a k)"
  using assms(2) length_live_delete [OF assms(1,3)] by (simp add: in_bounds_def)

lemma caps_in_place:
  assumes "caps_in UNIV k" "map_of (k_live k) (key_id (e_key e)) = None" "entry_ok e"
  shows "caps_in UNIV (place H now ref e k)"
proof (cases "e_manualOnly e")
  case True
  let ?i = "insert_entry now ref e k"
  let ?m = "evictManualLocked H now (e_tenant e) ?i"
  have k: "map_ok k" using assms(1) by (simp add: caps_in_def)
  have "caps_in (- {e_tenant e}) k" using assms(1) by (simp add: caps_in_def)
  then have "caps_in (- {e_tenant e}) ?i" using caps_in_insert_other assms(2,3) by simp
  then have others: "caps_in (- {e_tenant e}) ?m" by (rule caps.I_evictManualLocked)
  have "caps (e_tenant e) ?m" using evictManualLocked_caps map_ok_insert [OF k assms(2,3)] by blast
  with others have "caps_in UNIV ?m" by (auto simp: caps_in_def)
  then show ?thesis using True caps.I_evictLocked by (simp add: place_def)
next
  case False
  then have "caps_in UNIV (insert_entry now ref e k)" using caps_in_insert_other assms by blast
  then show ?thesis using False caps.I_evictLocked by (simp add: place_def)
qed

interpretation bounded: keeper_core bounded_ok
proof unfold_locales
  show "bounded_ok k'" if "bounded_ok k" "same_core k k'" for k k'
    using that caps_in_frame [OF _ that(2)] same_coreD(1,2) [OF that(2)] by (simp add: bounded_ok_def in_bounds_def)
  show "bounded_ok (let_go key a k)" if "bounded_ok k" "(key, a) \<in> set (k_live k)" for k key a
    using that caps_in_drop [of UNIV k key a] in_bounds_drop [of k key a] by (auto simp: bounded_ok_def caps_in_def)
qed

lemma place_in_bounds:
  assumes "map_ok k" "map_of (k_live k) (key_id (e_key e)) = None" "entry_ok e"
  shows "in_bounds (place H now ref e k)"
proof -
  have "map_ok (insert_entry now ref e k)" using map_ok_insert assms by blast
  then show ?thesis using evictLocked_ends shape.I_evictManualLocked by (simp add: place_def)
qed

interpretation bounds: keeper_pred bounded_ok
proof unfold_locales
  fix k assume k: "bounded_ok k"
  then show "distinct (map fst (k_live k))" by (simp add: bounded_ok_def caps_in_def map_ok_def)
  show "bounded_ok (place H now ref e k)" if "map_of (k_live k) (key_id (e_key e)) = None" "entry_ok e" for H now ref e
    using k that caps_in_place place_in_bounds by (simp add: bounded_ok_def caps_in_def)
  show "bounded_ok (k\<lparr>k_bytes := 0\<rparr>)" if "k_live k = []"
    using k that by (auto simp: bounded_ok_def in_bounds_def caps_in_def caps_def map_ok_def MaxBytes_def body_size_def manual_of_def)
qed

lemma bounded_ok_New: "bounded_ok New"
  by (simp add: bounded_ok_def in_bounds_def caps_in_def caps_def manual_of_def map_ok_def New_def body_size_def
      MaxSessions_def MaxBytes_def ManualHoldMaxPerTenant_def ManualHoldMaxBytesPerTenant_def)

text \<open>
  C13: over every run the keeper holds at most 512 entries and 128 MiB of bodies, its byte count is the
  exact sum of the bodies held, no body is over 8 MiB, and no tenant has more than 16 manual holds or
  32 MiB in them.
\<close>
theorem keeper_memory_bounded:
  assumes "kstep\<^sup>*\<^sup>* New k"
  shows "int (length (k_live k)) \<le> 512 \<and> k_bytes k \<le> 2 ^ 27
    \<and> k_bytes k = (\<Sum>x\<leftarrow>k_live k. int (length (e_body (k_obj k (snd x)))))
    \<and> (\<forall>x \<in> set (k_live k). int (length (e_body (k_obj k (snd x)))) \<le> 2 ^ 23)
    \<and> int (length (manual_of t k (k_live k))) \<le> 16
    \<and> (\<Sum>x\<leftarrow>manual_of t k (k_live k). int (length (e_body (k_obj k (snd x))))) \<le> 2 ^ 25"
proof -
  have "bounded_ok k" using bounds.I_run [OF assms bounded_ok_New] .
  then show ?thesis
    by (auto simp: bounded_ok_def in_bounds_def caps_in_def caps_def map_ok_def body_size_def slot_ok_def MaxSessions_def
        MaxBytes_def MaxBodyBytes_def ManualHoldMaxPerTenant_def ManualHoldMaxBytesPerTenant_def)
qed

theorem keeper_memory_bounded_witness:
  "k_bytes sample_held = 8 \<and> length (manual_of ''t'' sample_held (k_live sample_held)) = 1
   \<and> int (length (k_live sample_held)) \<le> 512"
proof (intro conjI)
  show "k_bytes sample_held = 8" by code_simp
  show "length (manual_of ''t'' sample_held (k_live sample_held)) = 1" by code_simp
  show "int (length (k_live sample_held)) \<le> 512" using keeper_memory_bounded [OF sample_held_run] by blast
qed

end
