(* ===== verification/Keepalive_Schedule.thy ===== *)
theory Keepalive_Schedule
  imports Keepalive_Bounds
begin

text \<open>
  What the sweep sends: a declarative description of the jobs it selects, the bytes and the credential
  a job carries from the recorded request, the stamp it leaves on the entry, and its return when the
  ping fails in transport.
\<close>

section \<open>The entries of the map are typed\<close>

definition typed_ok :: "Keeper \<Rightarrow> bool" where
  "typed_ok k \<longleftrightarrow> map_ok k \<and> (\<forall>x \<in> set (k_live k). entry_typed (k_obj k (snd x)))"

lemma entry_typed_evolves: "entry_typed e \<Longrightarrow> evolves e e' \<Longrightarrow> entry_typed e'"
  by (auto simp: entry_typed_def evolves_def core_def)

lemma typed_ok_frame: "typed_ok k \<Longrightarrow> same_core k k' \<Longrightarrow> typed_ok k'"
  using map_ok_frame entry_typed_evolves by (fastforce simp: typed_ok_def same_core_def)

lemma typed_ok_drop:
  assumes "typed_ok k" "(key, a) \<in> set (k_live k)" shows "typed_ok (let_go key a k)"
proof -
  have k: "map_ok k" using assms(1) by (simp add: typed_ok_def)
  obtain xs ys where s: "k_live k = xs @ (key, a) # ys" "AList.delete key (k_live k) = xs @ ys"
    "\<And>x. x \<in> set (xs @ ys) \<Longrightarrow> snd x \<noteq> a" using live_split [OF k assms(2)] by blast
  have "entry_typed (k_obj (let_go key a k) (snd x))" if "x \<in> set (xs @ ys)" for x
    using assms(1) s(3) [OF that] that by (auto simp: typed_ok_def s(1))
  then show ?thesis using map_ok_drop [OF k assms(2)] by (simp add: typed_ok_def s(2))
qed

interpretation typing: keeper_core typed_ok
  by unfold_locales (fact typed_ok_frame typed_ok_drop)+

lemma typed_ok_insert:
  assumes "typed_ok k" "map_of (k_live k) (key_id (e_key e)) = None" "entry_ok e"
  shows "typed_ok (insert_entry now ref e k)"
proof -
  have k: "map_ok k" using assms(1) by (simp add: typed_ok_def)
  have "entry_typed (k_obj (insert_entry now ref e k) (k_next k))"
    using assms(3) by (simp add: entry_ok_def entry_typed_def insert_entry_def Let_def upd_def logCall_def clearReasonLocked_def split: option.split)
  moreover have "entry_typed (k_obj (insert_entry now ref e k) (snd x))" if "x \<in> set (k_live k)" for x
  proof -
    have "snd x \<noteq> k_next k" using k that by (auto simp: map_ok_def slot_ok_def)
    then show ?thesis using assms(1) that by (simp add: typed_ok_def insert_entry_rest)
  qed
  ultimately show ?thesis
    using map_ok_insert [OF k assms(2,3)] assms(2) by (simp add: typed_ok_def insert_entry_rest update_new)
qed

interpretation typed: keeper_pred typed_ok
proof unfold_locales
  fix k assume k: "typed_ok k"
  then show "distinct (map fst (k_live k))" by (simp add: typed_ok_def map_ok_def)
  show "typed_ok (place H now ref e k)" if "map_of (k_live k) (key_id (e_key e)) = None" "entry_ok e" for H now ref e
    using typed_ok_insert [OF k that] by (simp add: place_def typing.I_evictLocked typing.I_evictManualLocked)
  show "typed_ok (k\<lparr>k_bytes := 0\<rparr>)" if "k_live k = []"
    using k that by (simp add: typed_ok_def map_ok_def body_size_def)
qed

lemma typed_ok_New: "typed_ok New"
  by (simp add: typed_ok_def map_ok_def New_def body_size_def)

text \<open>
  C23: over every run the map is well typed. A slot is keyed by its entry's own tenant, session and
  thread and has an address of its own; an entry is either a manual hold, with no schedule at all, or
  an automatic one whose policy is on; and no entry has been pinged more often than its policy allows.
\<close>
theorem keeper_map_typed:
  assumes "kstep\<^sup>*\<^sup>* New k"
  shows "distinct (map fst (k_live k)) \<and> distinct (map snd (k_live k))
    \<and> (\<forall>(key, a) \<in> set (k_live k).
         let e = k_obj k a in
         key = key_id (e_key e) \<and> e_body e \<noteq> []
         \<and> (if e_manualOnly e then e_pol e = zeroPolicy\<lparr>ManualHold := True\<rparr> else On (e_pol e))
         \<and> e_pings e \<le> max 0 (MaxPings (e_pol e)))"
proof -
  have "typed_ok k" using typed.I_run [OF assms typed_ok_New] .
  then show ?thesis by (auto simp: typed_ok_def map_ok_def slot_ok_def entry_typed_def Let_def)
qed

theorem keeper_map_typed_witness:
  "map snd (k_live sample_held) = [0, 1] \<and> distinct (map fst (k_live sample_held))"
proof
  show "map snd (k_live sample_held) = [0, 1]" by code_simp
  show "distinct (map fst (k_live sample_held))" using keeper_map_typed [OF sample_held_run] by blast
qed

section \<open>What the sweep selects\<close>

definition plain_due :: "instant \<Rightarrow> Keeper \<Rightarrow> string \<Rightarrow> kaEntry \<Rightarrow> bool" where
  "plain_due now k key e \<longleftrightarrow>
     \<not> e_manualOnly e \<and> \<not> e_stopped e \<and> On (e_pol e) \<and> e_pings e < MaxPings (e_pol e) \<and> pingable e
     \<and> now \<ge> e_startedAt e + pIdle (e_pol e) \<and> \<not> get_or 0 (k_inflight k) key > 0 \<and> \<not> blocked e now k"

definition extra_due :: "khost \<Rightarrow> instant \<Rightarrow> Keeper \<Rightarrow> string \<Rightarrow> kaEntry \<Rightarrow> bool" where
  "extra_due H now k key e \<longleftrightarrow>
     extraReadyLocked H e now \<and> pingable e \<and> get_or 0 (k_inflight k) key = 0 \<and> \<not> blocked e now k"

definition sweep_jobs :: "khost \<Rightarrow> instant \<Rightarrow> Keeper \<Rightarrow> string \<times> nat \<Rightarrow> pingJob list" where
  "sweep_jobs H now k x =
     (let e = k_obj k (snd x) in
      if plain_due now k (fst x) e then [job_for H (snd x) e (e_pings e + 1) False (e_startedAt e)]
      else if extra_due H now k (fst x) e then [job_for H (snd x) e (e_pings e + 1) True (e_startedAt e)]
      else [])"

text \<open>What one iteration of the sweep reads, and what it leaves for the others.\<close>

definition agree :: "nat set \<Rightarrow> Keeper \<Rightarrow> Keeper \<Rightarrow> bool" where
  "agree A k k' \<longleftrightarrow>
     k_inflight k' = k_inflight k \<and> k_routeTripped k' = k_routeTripped k \<and> k_credDead k' = k_credDead k
     \<and> (\<forall>a \<in> A. k_obj k' a = k_obj k a)"

lemma agree_blocked: "agree A k k' \<Longrightarrow> blocked e now k' = blocked e now k"
  by (simp add: agree_def blocked_def routeIsTrippedLocked_def credIsDeadLocked_def)

lemma extraReady_waiting: "extraReadyLocked H e now \<Longrightarrow> extraWaiting e \<and> \<not> e_manualOnly e \<and> e_pings e \<ge> MaxPings (e_pol e)"
  by (auto simp: extraReadyLocked_def extraDue_def extraWaiting_def split: if_splits)

lemma sweep_entry_jobs:
  "snd (sweep_entry H now (key, a) (k, jobs)) = jobs @ sweep_jobs H now k (key, a)"
proof (cases "e_manualOnly (k_obj k a)")
  case True
  then show ?thesis using extraReady_waiting [of H "k_obj k a" now]
    by (simp add: sweep_entry_def sweep_jobs_def plain_due_def extra_due_def Let_def) blast
next
  case False
  let ?e = "k_obj k a"
  let ?x = "extraWaiting ?e \<and> pingable ?e \<and> get_or 0 (k_inflight k) key = 0 \<and> extraReadyLocked H ?e now"
  show ?thesis
  proof (cases ?x)
    case True
    then have "\<not> plain_due now k key ?e" "extra_due H now k key ?e \<longleftrightarrow> \<not> blocked ?e now k"
      by (auto simp: plain_due_def extra_due_def extraWaiting_def)
    with True False show ?thesis by (simp add: sweep_entry_def sweep_jobs_def Let_def)
  next
    case no: False
    then have "\<not> extra_due H now k key ?e" using extraReady_waiting [of H ?e now] by (auto simp: extra_due_def)
    moreover have "plain_due now k key ?e \<longleftrightarrow>
        \<not> (e_stopped ?e \<or> e_pings ?e \<ge> MaxPings (e_pol ?e) \<or> \<not> pingable ?e)
        \<and> \<not> (\<not> due ?e now \<or> get_or 0 (k_inflight k) key > 0) \<and> \<not> blocked ?e now k"
      using False by (auto simp: plain_due_def due_def)
    ultimately show ?thesis using False no by (simp add: sweep_entry_def sweep_jobs_def Let_def) blast
  qed
qed

lemma sweep_jobs_agree: "agree A k k' \<Longrightarrow> snd x \<in> A \<Longrightarrow> sweep_jobs H now k' x = sweep_jobs H now k x"
  using agree_blocked [of A k k'] by (simp add: sweep_jobs_def plain_due_def extra_due_def agree_def Let_def)

lemma let_go_maps [simp]:
  "k_inflight (let_go key a k) = k_inflight k" "k_routeTripped (let_go key a k) = k_routeTripped k"
  "k_credDead (let_go key a k) = k_credDead k" "k_lastVary (let_go key a k) = k_lastVary k"
  by (simp_all add: let_go_def Let_def upd_def releaseLocked_def logCall_def)

lemma setReason_maps [simp]:
  "k_inflight (setReasonLocked now key r k) = k_inflight k" "k_routeTripped (setReasonLocked now key r k) = k_routeTripped k"
  "k_credDead (setReasonLocked now key r k) = k_credDead k" "k_obj (setReasonLocked now key r k) = k_obj k"
  by (simp_all add: setReasonLocked_def Let_def)

lemma agree_intros:
  "a \<notin> A \<Longrightarrow> agree A k k' \<Longrightarrow> agree A k (upd a f k')"
  "a \<notin> A \<Longrightarrow> agree A k k' \<Longrightarrow> agree A k (let_go key a k')"
  "agree A k k' \<Longrightarrow> agree A k (clear_candidate b k')"
  "agree A k k' \<Longrightarrow> agree A k (setReasonLocked now tk r k')"
  by (simp_all add: agree_def upd_def clear_candidate_def logCall_def) (metis let_go_other)+

lemma sweep_entry_agree: "a \<notin> A \<Longrightarrow> agree A k k' \<Longrightarrow> agree A k (fst (sweep_entry H now (key, a) (k', jobs)))"
  by (simp add: sweep_entry_def Let_def agree_intros)

lemma sweep_loop_jobs:
  "distinct (map snd xs) \<Longrightarrow> agree (snd ` set xs) k k' \<Longrightarrow>
   snd (fold (sweep_entry H now) xs (k', jobs)) = jobs @ concat (map (sweep_jobs H now k) xs)"
proof (induction xs arbitrary: k' jobs)
  case (Cons x xs)
  obtain key a where x: "x = (key, a)" by (cases x)
  obtain k1 js where s: "sweep_entry H now (key, a) (k', jobs) = (k1, js)" by (cases "sweep_entry H now (key, a) (k', jobs)")
  have js: "js = jobs @ sweep_jobs H now k x"
    using sweep_entry_jobs [of H now key a k' jobs] sweep_jobs_agree [OF Cons.prems(2), of x] s x by simp
  have "agree (snd ` set xs) k k'" using Cons.prems(2) by (simp add: agree_def)
  then have "agree (snd ` set xs) k k1"
    using sweep_entry_agree [of a "snd ` set xs" k k' H now key jobs] Cons.prems(1) s x by auto
  then show ?case using Cons.IH [of k1 js] Cons.prems(1) s x js by simp
qed simp

lemma distinct_visit: "map_ok k \<Longrightarrow> distinct (map snd (visit H k))"
proof -
  assume k: "map_ok k"
  have m: "mset (map snd (visit H k)) = mset (map snd (k_live k))" by (simp add: visit_def)
  show ?thesis using mset_eq_imp_distinct_iff [OF m] k by (simp add: map_ok_def)
qed

lemma Sweep_jobs: "map_ok k \<Longrightarrow> snd (Sweep H now k) = concat (map (sweep_jobs H now k) (visit H k))"
  using sweep_loop_jobs [OF distinct_visit [of k H], of k k H now "[]"] by (simp add: Sweep_def agree_def)

text \<open>
  C11: a sweep sends exactly the jobs of the description. A planned ping goes to an automatic entry
  that is not stopped, has pings left, passes the gates, has been idle for its interval, has no open
  request on its thread and no tripped route or dead credential; the extra request goes to a text-turn
  entry in its slot under the same guards. Each job carries the held bytes unmasked, and one entry
  gets one job at most.
\<close>
theorem Sweep_sends_exactly:
  assumes "kstep\<^sup>*\<^sup>* New k"
  shows "snd (Sweep H now k) = concat (map (sweep_jobs H now k) (visit H k))
    \<and> distinct (map j_addr (snd (Sweep H now k)))
    \<and> (\<forall>j \<in> set (snd (Sweep H now k)).
         let e = k_obj k (j_addr j) in
         \<not> e_manualOnly e \<and> \<not> e_stopped e \<and> pingable e \<and> \<not> blocked e now k
         \<and> \<not> get_or 0 (k_inflight k) (key_id (e_key e)) > 0
         \<and> j_raw j = mask (h_maskKey H) (e_body e)
         \<and> (j_extra j \<or> j_ping j \<le> MaxPings (e_pol e)))"
proof -
  have k: "map_ok k" using custody.I_run [OF assms keeper_ok_New] by (simp add: keeper_ok_def)
  note eq = Sweep_jobs [OF k, of H now]
  have one: "map j_addr (sweep_jobs H now k x) = [] \<or> map j_addr (sweep_jobs H now k x) = [snd x]" for x
    by (simp add: sweep_jobs_def Let_def job_for_def)
  have "distinct (map j_addr (concat (map (sweep_jobs H now k) xs))) \<and>
    j_addr ` set (concat (map (sweep_jobs H now k) xs)) \<subseteq> snd ` set xs" if "distinct (map snd xs)" for xs
    using that
  proof (induction xs)
    case (Cons x xs)
    then have IH: "distinct (map j_addr (concat (map (sweep_jobs H now k) xs)))"
      "j_addr ` set (concat (map (sweep_jobs H now k) xs)) \<subseteq> snd ` set xs" "snd x \<notin> snd ` set xs" by auto
    consider "sweep_jobs H now k x = []" | z where "sweep_jobs H now k x = [z]" "j_addr z = snd x"
      using one [of x] by (auto simp: map_eq_Cons_conv)
    then show ?case
    proof cases
      case (2 z)
      have "j_addr z \<notin> j_addr ` set (concat (map (sweep_jobs H now k) xs))" using IH(2,3) 2(2) by auto
      then show ?thesis using IH(1,2) 2 by (simp only: list.map concat.simps map_append append_Cons append_Nil distinct.simps set_append list.set image_insert set_map) auto
    qed (use IH in auto)
  qed simp
  moreover have "let e = k_obj k (j_addr j) in
         \<not> e_manualOnly e \<and> \<not> e_stopped e \<and> pingable e \<and> \<not> blocked e now k
         \<and> \<not> get_or 0 (k_inflight k) (key_id (e_key e)) > 0
         \<and> j_raw j = mask (h_maskKey H) (e_body e) \<and> (j_extra j \<or> j_ping j \<le> MaxPings (e_pol e))"
    if "x \<in> set (k_live k)" "j \<in> set (sweep_jobs H now k x)" for x j
  proof -
    have "fst x = key_id (e_key (k_obj k (snd x)))" using k that(1) by (auto simp: map_ok_def slot_ok_def)
    then show ?thesis using that(2) extraReady_waiting [of H "k_obj k (snd x)" now]
      by (auto simp: sweep_jobs_def plain_due_def extra_due_def extraWaiting_def job_for_def Let_def split: if_splits)
  qed
  ultimately show ?thesis using distinct_visit [OF k] unfolding eq by (simp only: set_concat set_map set_visit) blast
qed

text \<open>Two turns of one thread; the second is tracked for the schedule.\<close>

definition sample_tracked :: Keeper where
  "sample_tracked =
     Record sample_host 9 (sample_record ''t'' sample_auto) (Record sample_host 7 (sample_record ''t'' sample_auto) New)"

lemma sample_tracked_run: "kstep\<^sup>*\<^sup>* New sample_tracked"
  unfolding sample_tracked_def by (rule rtranclp.intros(2) [OF r_into_rtranclp], rule recorded, rule recorded)

theorem Sweep_sends_exactly_witness:
  "map j_raw (snd (Sweep sample_host (5 + 240 * second) sample_tracked)) = [''body'']
   \<and> snd (Sweep sample_host (4 + 240 * second) sample_tracked) = []
   \<and> distinct (map j_addr (snd (Sweep sample_host (5 + 240 * second) sample_tracked)))"
proof (intro conjI)
  show "map j_raw (snd (Sweep sample_host (5 + 240 * second) sample_tracked)) = [''body'']" by code_simp
  show "snd (Sweep sample_host (4 + 240 * second) sample_tracked) = []" by code_simp
  show "distinct (map j_addr (snd (Sweep sample_host (5 + 240 * second) sample_tracked)))"
    using Sweep_sends_exactly [OF sample_tracked_run] by blast
qed

section \<open>From the recorded request to the ping\<close>

text \<open>The eviction loops leave the entries that stay as they are.\<close>

definition kept :: "Keeper \<Rightarrow> Keeper \<Rightarrow> bool" where
  "kept k0 k \<longleftrightarrow>
     map_ok k \<and> set (k_live k) \<subseteq> set (k_live k0) \<and> (\<forall>x \<in> set (k_live k). k_obj k (snd x) = k_obj k0 (snd x))"

lemma kept_round:
  assumes "kept k0 k" "(key, a) \<in> set (k_live k)" shows "kept k0 (evict_round key a k)"
proof -
  have k: "map_ok k" using assms(1) by (simp add: kept_def)
  obtain xs ys where s: "k_live k = xs @ (key, a) # ys" "AList.delete key (k_live k) = xs @ ys"
    "\<And>x. x \<in> set (xs @ ys) \<Longrightarrow> snd x \<noteq> a" using live_split [OF k assms(2)] by blast
  have "k_obj (evict_round key a k) (snd x) = k_obj k0 (snd x)" if "x \<in> set (xs @ ys)" for x
    using assms(1) s(3) [OF that] that by (auto simp: kept_def s(1))
  moreover have "set (xs @ ys) \<subseteq> set (k_live k0)" using assms(1) by (auto simp: kept_def s(1))
  ultimately show ?thesis using evict_round_ok [OF k assms(2)] by (simp add: kept_def s(2))
qed

lemma kept_evictLocked: "kept k0 k \<Longrightarrow> kept k0 (evictLocked H k)"
proof (induction "length (k_live k)" arbitrary: k rule: less_induct)
  case less
  have k: "map_ok k" using less.prems by (simp add: kept_def)
  show ?case
  proof (cases "in_bounds k")
    case False
    obtain key a where e: "(key, a) \<in> set (k_live k)" "evictLocked H k = evictLocked H (evict_round key a k)"
      using evictLocked_step [OF k False] by blast
    then show ?thesis using less.hyps [OF _ kept_round [OF less.prems e(1)]] length_live_delete [OF k e(1)] by simp
  qed (simp add: evictLocked_stop less.prems)
qed

lemma kept_evictManualLocked: "kept k0 k \<Longrightarrow> kept k0 (evictManualLocked H now t k)"
proof (induction H now t k rule: evictManualLocked.induct)
  case (1 H now t k)
  obtain n bs old where o: "oldest_manual t k (visit H k) (0, 0, None) = (n, bs, old)"
    by (cases "oldest_manual t k (visit H k) (0, 0, None)") auto
  show ?case
  proof (cases old)
    case (Some x)
    obtain key a where x: "x = (key, a)" by (cases x)
    let ?r = "setReasonLocked now (e_key (k_obj k a)) ReasonNoEntry k"
    have "map_ok ?r" using "1.prems" map_ok_frame [of k ?r] by (simp add: kept_def core_simple)
    then have "kept k0 ?r" using "1.prems" by (simp add: kept_def)
    moreover have "(key, a) \<in> set (k_live ?r)" using oldest_manual_in [OF o [unfolded Some x]] by simp
    ultimately have "kept k0 (skip1 (clear_candidate a (let_go key a ?r)))"
      using kept_round unfolding evict_round_def by blast
    then show ?thesis using "1.IH" "1.prems" o Some x by (simp add: evictManualLocked.simps [of H now t k])
  qed (simp add: evictManualLocked.simps o "1.prems")
qed

lemma place_entry:
  assumes "map_ok k" "map_of (k_live k) (key_id (e_key e)) = None" "entry_ok e"
    "map_of (k_live (place H now ref e k)) (key_id (e_key e)) = Some a"
  shows "a = k_next k \<and> k_obj (place H now ref e k) a = k_obj (insert_entry now ref e k) (k_next k)"
proof -
  let ?i = "insert_entry now ref e k"
  have i: "map_ok ?i" using map_ok_insert assms(1-3) by blast
  then have "kept ?i ?i" by (simp add: kept_def)
  then have "kept ?i (place H now ref e k)"
    unfolding place_def using kept_evictLocked kept_evictManualLocked by (cases "e_manualOnly e") simp_all
  moreover have m: "(key_id (e_key e), a) \<in> set (k_live (place H now ref e k))" using assms(4) map_of_SomeD by fast
  ultimately have "(key_id (e_key e), a) \<in> set (k_live ?i)" "k_obj (place H now ref e k) a = k_obj ?i a"
    by (auto simp: kept_def)
  then have "map_of (k_live ?i) (key_id (e_key e)) = Some a" using i by (simp add: map_ok_def)
  then have "a = k_next k" by (simp add: insert_entry_rest update_conv')
  then show ?thesis using \<open>k_obj (place H now ref e k) a = k_obj ?i a\<close> by simp
qed

lemma retire_None: "map_of (k_live k) key = None \<Longrightarrow> retireLocked key k = k"
  by (simp add: retireLocked_def)

lemma refuse_live: "k_live (if b then setReasonLocked now key r k else k) = k_live k"
  by simp

lemma k_live_core: "same_core k k' \<Longrightarrow> k_live k' = k_live k"
  by (simp add: same_core_def)

lemma skip1_live [simp]: "k_live (skip1 k) = k_live k"
  by (simp add: skip1_def)

lemma refuse_hold_None: "map_of (k_live k) (key_id (r_Key r)) = None \<Longrightarrow> k_live (refuse_hold now r reason k) = k_live k"
  by (simp add: refuse_hold_def Let_def retireLocked_def)

text \<open>What an entry keeps of the request that made it.\<close>

definition made_from :: "khost \<Rightarrow> KRecord \<Rightarrow> kaEntry \<Rightarrow> bool" where
  "made_from H r e \<longleftrightarrow>
     e_key e = r_Key r \<and> e_body e = mask (h_maskKey H) (r_Body r) \<and> e_startedAt e = r_StartedAt r
     \<and> e_refreshedAt e = r_StartedAt r \<and> e_pings e = 0 \<and> \<not> e_stopped e \<and> \<not> e_retried e \<and> \<not> e_pingRunning e
     \<and> e_route e = r_Route r \<and> e_cred e = r_Cred r \<and> e_hdr e = Some (PingHeaders (r_Header r))
     \<and> (case r_Hold r of None \<Rightarrow> \<not> e_held e | Some ref \<Rightarrow> e_held e \<and> e_ref e = ref)"

lemma insert_made_from:
  assumes "made_from H (r\<lparr>r_Hold := None\<rparr>) e"
  shows "made_from H r (k_obj (insert_entry now (r_Hold r) e k) (k_next k))"
  using assms by (auto simp: made_from_def insert_entry_def Let_def upd_def logCall_def clearReasonLocked_def split: option.splits)

lemma if_intro: "(c \<Longrightarrow> P x) \<Longrightarrow> (\<not> c \<Longrightarrow> P y) \<Longrightarrow> P (if c then x else y)"
  by simp

text \<open>Only the last branch of \<open>Record\<close> can track a thread.\<close>

definition tracks :: "khost \<Rightarrow> instant \<Rightarrow> KRecord \<Rightarrow> Keeper \<Rightarrow> Keeper \<Rightarrow> bool" where
  "tracks H now r k k' \<longleftrightarrow>
     k_live k' = k_live k \<or> (k' = track H now r k \<and> r_Body r \<noteq> [] \<and> int (length (r_Body r)) \<le> MaxBodyBytes)"

lemma record_body_tracks:
  assumes "map_of (k_live k) (key_id (r_Key r)) = None" shows "tracks H now r k (record_body H now r k)"
proof -
  note same = refuse_hold_None [OF assms] retire_None [OF assms]
  have n: "map_of (k_live (setReasonLocked now key reason k)) (key_id (r_Key r)) = None" for key reason using assms by simp
  show ?thesis unfolding record_body_def Let_def
    by (rule if_intro [of _ "tracks H now r k"])+ (simp_all add: tracks_def same retire_None [OF n])
qed

lemma record_makes_entry:
  assumes "map_ok k" "map_of (k_live k) (key_id (r_Key r)) = None"
    "map_of (k_live (Record H now r k)) (key_id (r_Key r)) = Some a"
  shows "made_from H r (k_obj (Record H now r k) a)"
proof -
  let ?key = "key_id (r_Key r)"
  have s: "kSession (r_Key r) \<noteq> []" using assms(2,3) by (auto simp: Record_def)
  let ?b = "record_body H now r k"
  have dep: "k_live (Record H now r k) = k_live ?b" "k_obj (Record H now r k) = k_obj ?b"
    using s by (simp_all add: Record_def Depart_def departLocked_def)
  have "map_of (k_live ?b) ?key = Some a" using assms(3) dep by simp
  then have tr: "?b = track H now r k" "r_Body r \<noteq> []" "int (length (r_Body r)) \<le> MaxBodyBytes"
    using assms(2) record_body_tracks [OF assms(2), of H now] by (auto simp: tracks_def)
  obtain pol ttl guard wait where p: "record_plan H r (get_or False (k_tier1h k) ?key) = (pol, ttl, guard, wait)"
    by (cases "record_plan H r (get_or False (k_tier1h k) ?key)")
  let ?k = "count_turn r ttl k"
  define e where "e = make_entry H r (pol, ttl, guard, wait)
    \<lparr>e_turn := get_or 0 (k_turns ?k) ?key - 1, e_noTool := (guard \<and> \<not> get_or False (k_toolSeen ?k) ?key)\<rparr>"
  have c: "same_core k ?k" by (simp add: core_simple)
  have k': "map_ok ?k" "map_of (k_live ?k) ?key = None" using map_ok_frame [OF assms(1) c] k_live_core [OF c] assms(2) by simp_all
  have e: "entry_raw e" "made_from H (r\<lparr>r_Hold := None\<rparr>) e" "e_key e = r_Key r"
    using tr(2,3) by (auto simp: e_def entry_raw_def make_entry_def made_from_def Let_def noEntry_def mask_def elim: mask_from.elims)
  let ?m = "e\<lparr>e_manualOnly := True, e_holdFor := holdFor (e_ttl1h e), e_ceiling := Ceiling (e_pol e),
              e_pol := zeroPolicy\<lparr>ManualHold := True\<rparr>\<rparr>"
  have b: "?b = admit H now r e ?k" using tr(1) p by (simp add: track_def Let_def e_def)
  have "\<exists>f. ?b = place H now (r_Hold r) f ?k \<and> entry_ok f \<and> e_key f = r_Key r \<and> made_from H (r\<lparr>r_Hold := None\<rparr>) f"
  proof -
    have "entry_ok ?m" "made_from H (r\<lparr>r_Hold := None\<rparr>) ?m" "e_key ?m = r_Key r"
      using e by (simp_all add: entry_ok_def entry_raw_def entry_typed_def made_from_def)
    moreover have "On (e_pol e) \<Longrightarrow> entry_ok e" using e(1) by (simp add: entry_ok_def entry_raw_def entry_typed_def)
    moreover have "?b = place H now (r_Hold r) ?m ?k \<or> ?b = place H now (r_Hold r) e ?k \<and> On (e_pol e)"
      using \<open>map_of (k_live ?b) ?key = Some a\<close> k'(2) unfolding b by (auto simp: admit_def Let_def split: if_splits)
    ultimately show ?thesis using e by blast
  qed
  then obtain f where f: "?b = place H now (r_Hold r) f ?k" "entry_ok f" "e_key f = r_Key r" "made_from H (r\<lparr>r_Hold := None\<rparr>) f"
    by blast
  have "k_obj ?b a = k_obj (insert_entry now (r_Hold r) f ?k) (k_next ?k)"
    using place_entry [OF k'(1) k'(2) [folded f(3)] f(2) \<open>map_of (k_live ?b) ?key = Some a\<close> [unfolded f(1), folded f(3)]]
    unfolding f(1) by blast
  then show ?thesis using insert_made_from [OF f(4)] dep by simp
qed

lemma On_not_manual: "typed_ok k \<Longrightarrow> (key, a) \<in> set (k_live k) \<Longrightarrow> On (e_pol (k_obj k a)) \<Longrightarrow> \<not> e_manualOnly (k_obj k a)"
  by (auto simp: typed_ok_def entry_typed_def On_def zeroPolicy_def)

lemma sweep_job_in:
  assumes "kstep\<^sup>*\<^sup>* New k" "map_of (k_live k) key = Some a" "plain_due now k key (k_obj k a)"
  shows "job_for H a (k_obj k a) (e_pings (k_obj k a) + 1) False (e_startedAt (k_obj k a)) \<in> set (snd (Sweep H now k))"
proof -
  have "map_ok k" using custody.I_run [OF assms(1) keeper_ok_New] by (simp add: keeper_ok_def)
  have "(key, a) \<in> set (visit H k)" using assms(2) map_of_SomeD by fastforce
  moreover have "job_for H a (k_obj k a) (e_pings (k_obj k a) + 1) False (e_startedAt (k_obj k a)) \<in> set (sweep_jobs H now k (key, a))"
    using assms(3) by (simp add: sweep_jobs_def Let_def)
  moreover have "snd (Sweep H now k) = concat (map (sweep_jobs H now k) (visit H k))"
    using Sweep_jobs [OF \<open>map_ok k\<close>] .
  ultimately show ?thesis by (auto simp del: set_visit)
qed

text \<open>
  A ping resends the recorded request. When a finished request is recorded on a thread with no
  entry and the thread is then tracked, the bytes kept are masked, and the first sweep that finds the
  thread idle for its interval, with no open request and nothing blocked, sends the exact recorded
  body with the reference the host issued for it.
\<close>
theorem recorded_body_resent:
  assumes "kstep\<^sup>*\<^sup>* New k" "map_of (k_live k) (key_id (r_Key r)) = None"
    "k' = Record H now r k" "map_of (k_live k') (key_id (r_Key r)) = Some a"
    "On (e_pol (k_obj k' a))" "pingable (k_obj k' a)" "r_Hold r = Some ref"
    "t \<ge> r_StartedAt r + pIdle (e_pol (k_obj k' a))"
    "\<not> get_or 0 (k_inflight k') (key_id (r_Key r)) > 0" "\<not> blocked (k_obj k' a) t k'"
  shows "e_body (k_obj k' a) = mask (h_maskKey H) (r_Body r)
    \<and> (\<exists>j \<in> set (snd (Sweep H t k')). j_raw j = r_Body r \<and> j_ref j = ref \<and> j_ping j = 1 \<and> j_route j = r_Route r
         \<and> j_key j = r_Key r \<and> \<not> j_extra j)"
proof -
  let ?e = "k_obj k' a"
  have run: "kstep\<^sup>*\<^sup>* New k'" using assms(1,3) rtranclp.rtrancl_into_rtrancl [of kstep] recorded by metis
  have "map_ok k" using custody.I_run [OF assms(1) keeper_ok_New] by (simp add: keeper_ok_def)
  then have m: "made_from H r ?e" using record_makes_entry assms(2-4) by blast
  have "typed_ok k'" using typed.I_run [OF run typed_ok_New] .
  then have "\<not> e_manualOnly ?e" using On_not_manual assms(4,5) map_of_SomeD by fast
  then have "plain_due t k' (key_id (r_Key r)) ?e"
    using m assms(5,6,8-10) by (auto simp: plain_due_def made_from_def On_def)
  then have "job_for H a ?e (e_pings ?e + 1) False (e_startedAt ?e) \<in> set (snd (Sweep H t k'))"
    using sweep_job_in [OF run assms(4)] by blast
  moreover have "j_raw (job_for H a ?e n x p) = r_Body r" for n x p using m by (simp add: job_for_def made_from_def)
  ultimately show ?thesis using m assms(7)
    by (intro conjI bexI [where x = "job_for H a ?e (e_pings ?e + 1) False (e_startedAt ?e)"])
       (auto simp: made_from_def job_for_def)
qed

definition sample_first :: Keeper where
  "sample_first = Record sample_host 7 (sample_record ''t'' sample_auto) New"

theorem recorded_body_resent_witness:
  "\<exists>j \<in> set (snd (Sweep sample_host (6 + 240 * second) sample_tracked)). j_raw j = ''body'' \<and> j_ref j = ''ref''"
proof -
  let ?r = "sample_record ''t'' sample_auto"
  have "kstep\<^sup>*\<^sup>* New sample_first" unfolding sample_first_def by (rule r_into_rtranclp, rule recorded)
  moreover have "map_of (k_live sample_first) (key_id (r_Key ?r)) = None" by code_simp
  moreover have "sample_tracked = Record sample_host 9 ?r sample_first" by (simp add: sample_tracked_def sample_first_def)
  moreover have "map_of (k_live sample_tracked) (key_id (r_Key ?r)) = Some 0" by code_simp
  moreover have "On (e_pol (k_obj sample_tracked 0))" by code_simp
  moreover have "pingable (k_obj sample_tracked 0)" by code_simp
  moreover have "r_Hold ?r = Some ''ref''" by (simp add: sample_record_def)
  moreover have "6 + 240 * second \<ge> r_StartedAt ?r + pIdle (e_pol (k_obj sample_tracked 0))" by code_simp
  moreover have "\<not> get_or 0 (k_inflight sample_tracked) (key_id (r_Key ?r)) > 0" by code_simp
  moreover have "\<not> blocked (k_obj sample_tracked 0) (6 + 240 * second) sample_tracked" by code_simp
  ultimately have "\<exists>j \<in> set (snd (Sweep sample_host (6 + 240 * second) sample_tracked)). j_raw j = r_Body ?r \<and> j_ref j = ''ref''"
    using recorded_body_resent [of sample_first ?r sample_tracked sample_host 9 0 "''ref''" "6 + 240 * second"] by blast
  then show ?thesis by (simp add: sample_record_def)
qed

end
