(* ===== verification/Keepalive_Outcome.thy ===== *)
theory Keepalive_Outcome
  imports Keepalive_Schedule
begin

text \<open>
  What follows a ping: the stamp the sweep leaves on the entry and its return when the ping fails in
  transport (\<open>giveBackFailedPing\<close>), the run of answers after which a thread is given up
  (\<open>noteOutcome\<close>), the agreement of the state a host reads with the press a user makes (\<open>PingStates\<close>,
  \<open>PingNow\<close>), and the agreement of the schedule a dashboard replays with the keeper's own
  (\<open>SpanPings\<close> of \<open>waitplan.go\<close>).
\<close>

section \<open>The stamp of a sweep\<close>

text \<open>What the iterations over other threads leave of one slot.\<close>

definition spared :: "string \<Rightarrow> nat \<Rightarrow> Keeper \<Rightarrow> Keeper \<Rightarrow> bool" where
  "spared key a k k' \<longleftrightarrow> agree {a} k k' \<and> map_of (k_live k') key = map_of (k_live k) key"

lemma sweep_entry_live:
  "b \<noteq> key \<Longrightarrow> map_of (k_live (fst (sweep_entry H now (b, a) (k, jobs)))) key = map_of (k_live k) key"
  by (simp add: sweep_entry_def Let_def clear_candidate_def logCall_def upd_def AList.delete_conv')

lemma sweep_loop_spared:
  "key \<notin> fst ` set xs \<Longrightarrow> a \<notin> snd ` set xs \<Longrightarrow> spared key a k k' \<Longrightarrow>
   spared key a k (fst (fold (sweep_entry H now) xs (k', jobs)))"
proof (induction xs arbitrary: k' jobs)
  case (Cons x xs)
  obtain b c where x: "x = (b, c)" by (cases x)
  obtain k1 js where s: "sweep_entry H now (b, c) (k', jobs) = (k1, js)" by (cases "sweep_entry H now (b, c) (k', jobs)")
  have "spared key a k k1"
    using sweep_entry_agree [of c "{a}" k k' H now b jobs] sweep_entry_live [of b key H now c k' jobs] Cons.prems x s
    by (auto simp: spared_def)
  then show ?case using Cons.IH [of k1 js] Cons.prems x s by simp
qed simp

definition stamped :: "instant \<Rightarrow> kaEntry \<Rightarrow> kaEntry" where
  "stamped now e = e\<lparr>e_startedAt := now, e_pings := e_pings e + 1, e_pingRunning := True\<rparr>"

lemma sweep_entry_plain:
  "plain_due now k key (k_obj k a) \<Longrightarrow> fst (sweep_entry H now (key, a) (k, jobs)) = upd a (stamped now) k"
  by (simp add: sweep_entry_def plain_due_def due_def extraWaiting_def Let_def stamped_def [abs_def])

lemma plain_due_spared:
  "spared key a k k' \<Longrightarrow> plain_due now k key (k_obj k a) \<Longrightarrow> plain_due now k' key (k_obj k' a)"
  using agree_blocked [of "{a}" k k'] by (simp add: spared_def plain_due_def agree_def)

lemma spared_trans: "spared key a k k' \<Longrightarrow> spared key a k' k'' \<Longrightarrow> spared key a k k''"
  by (simp add: spared_def agree_def)

lemma Sweep_stamps:
  assumes "map_ok k" "map_of (k_live k) key = Some a" "plain_due t k key (k_obj k a)"
  shows "spared key a (upd a (stamped t) k) (fst (Sweep H t k))"
proof -
  have m: "(key, a) \<in> set (visit H k)" using assms(2) map_of_SomeD by fastforce
  then obtain ys zs where v: "visit H k = ys @ (key, a) # zs" by (blast dest: split_list)
  have "mset (map fst (visit H k)) = mset (map fst (k_live k))" by (simp add: visit_def)
  then have "distinct (map fst (visit H k))" using assms(1) mset_eq_imp_distinct_iff map_ok_def by blast
  then have n: "key \<notin> fst ` set ys" "a \<notin> snd ` set ys" "key \<notin> fst ` set zs" "a \<notin> snd ` set zs"
    using distinct_visit [OF assms(1), of H] v by auto
  obtain k1 js where s1: "fold (sweep_entry H t) ys (k, []) = (k1, js)" by (cases "fold (sweep_entry H t) ys (k, [])")
  have k1: "spared key a k k1"
    using sweep_loop_spared [OF n(1,2), of k k H t "[]"] s1 by (simp add: spared_def agree_def)
  obtain k2 js2 where s2: "sweep_entry H t (key, a) (k1, js) = (k2, js2)" by (cases "sweep_entry H t (key, a) (k1, js)")
  have "k2 = upd a (stamped t) k1"
    using sweep_entry_plain [OF plain_due_spared [OF k1 assms(3)], of H js] s2 by simp
  then have "spared key a (upd a (stamped t) k) k2" using k1 by (simp add: spared_def agree_def upd_def)
  moreover have "spared key a k2 (fst (fold (sweep_entry H t) zs (k2, js2)))"
    by (rule sweep_loop_spared [OF n(3,4)]) (simp add: spared_def agree_def)
  ultimately show ?thesis using spared_trans s1 s2 v by (fastforce simp: Sweep_def)
qed

section \<open>A ping that fails in transport\<close>

text \<open>A substitute that declines has only counted why.\<close>

definition only_counted :: "Keeper \<Rightarrow> Keeper \<Rightarrow> bool" where
  "only_counted k k' \<longleftrightarrow> (\<exists>s. k' = k\<lparr>k_sub := s\<rparr>)"

lemma only_counted_refl: "only_counted k k"
  unfolding only_counted_def by (rule exI [of _ "k_sub k"]) simp

lemma only_counted_bump: "only_counted k k' \<Longrightarrow> only_counted k (bump n k')"
  by (auto simp: only_counted_def bump_def)

lemma only_counted_trans: "only_counted k k1 \<Longrightarrow> only_counted k1 k2 \<Longrightarrow> only_counted k k2"
  by (auto simp: only_counted_def)

lemmas counted_intros = only_counted_refl only_counted_bump

lemma summary_declines: "fireSummarySubstitute H E j k = (False, k') \<Longrightarrow> only_counted k k'"
  by (auto simp: fireSummarySubstitute_def Let_def intro!: counted_intros split: sum.splits if_splits)

lemma sweep_declines: "fireSweepSubstitute H E j k = (False, k') \<Longrightarrow> only_counted k k'"
  by (auto simp: fireSweepSubstitute_def Let_def intro!: counted_intros split: sum.splits if_splits)

lemma both_decline:
  assumes "(case fireSummarySubstitute H E j k of (True, k) \<Rightarrow> (True, k) | (False, k) \<Rightarrow> fireSweepSubstitute H E j k) = (False, k')"
  shows "only_counted k k'"
proof -
  obtain k1 where "fireSummarySubstitute H E j k = (False, k1)" "fireSweepSubstitute H E j k1 = (False, k')"
    using assms by (auto split: prod.splits bool.splits)
  then show ?thesis using summary_declines sweep_declines only_counted_trans by blast
qed

lemma substitute_declines:
  assumes "fireSubstitute H E j (k, busy) = (False, k', busy')" shows "only_counted k k'"
proof -
  obtain claim b where c: "claim_of H E j busy = (claim, b)" by (cases "claim_of H E j busy")
  show ?thesis
  proof (cases "e_endsAtText (k_obj k (j_addr j))")
    case True
    then show ?thesis using assms c only_counted_refl by (cases "pc_Choice claim") (simp_all add: fireSubstitute_def Let_def)
  next
    case False
    show ?thesis
    proof (cases "pc_Choice claim")
      case PingPlain
      then show ?thesis using assms c only_counted_refl by (simp add: fireSubstitute_def Let_def)
    next
      case PingNone
      then show ?thesis using assms c False by (intro both_decline [of H E j]) (simp add: fireSubstitute_def Let_def split: prod.splits)
    next
      case PingSummary
      then show ?thesis using assms c False by (auto simp: fireSubstitute_def Let_def intro!: summary_declines split: prod.splits)
    next
      case PingSweep
      then show ?thesis using assms c False by (auto simp: fireSubstitute_def Let_def intro!: sweep_declines split: prod.splits)
    qed
  qed
qed

lemma blocked_later: "blocked e t' k \<Longrightarrow> t \<le> t' \<Longrightarrow> blocked e t k"
  by (auto simp: blocked_def routeIsTrippedLocked_def credIsDeadLocked_def split: option.splits if_splits)

text \<open>The fields of the keeper a plain ping reads and never writes when it fails.\<close>

lemma giveBack_maps [simp]:
  "k_live (snd (giveBackFailedPing j now k)) = k_live k" "k_inflight (snd (giveBackFailedPing j now k)) = k_inflight k"
  "k_routeTripped (snd (giveBackFailedPing j now k)) = k_routeTripped k"
  "k_credDead (snd (giveBackFailedPing j now k)) = k_credDead k"
  by (simp_all add: giveBackFailedPing_def Let_def upd_def)

lemma giveBack_entry:
  "k_obj k (j_addr j) = stamped t e \<Longrightarrow> \<not> e_stopped e \<Longrightarrow> \<not> e_retried e \<Longrightarrow> j_ping j = e_pings e + 1 \<Longrightarrow>
   now < e_refreshedAt e + cacheTTL e \<Longrightarrow>
   k_obj (snd (giveBackFailedPing j now k)) (j_addr j)
   = e\<lparr>e_startedAt := j_prevStartedAt j, e_retried := True, e_pingRunning := True\<rparr>"
  by (simp add: giveBackFailedPing_def Let_def upd_def stamped_def cacheTTL_def)

lemma failed_fire:
  assumes "\<not> j_extra j" "pe_spare1 E" "pe_spare2 E" "\<not> fst (fireSubstitute H E j (k, busy))"
    "\<forall>v. pingBodyN E (j_raw j) (j_route j) v \<noteq> None" "\<forall>body. \<exists>d. pe_do E (j_ref j) (j_route j) body = Inl d"
    "k_obj k (j_addr j) = stamped t e" "\<not> e_stopped e" "\<not> e_retried e" "j_ping j = e_pings e + 1"
    "j_prevStartedAt j = e_startedAt e" "pe_end E < e_refreshedAt e + cacheTTL e"
    "k2 = fst (fire H E j (k, busy))"
  shows "k_obj k2 (j_addr j) = e\<lparr>e_retried := True, e_pingRunning := False\<rparr> \<and> k_live k2 = k_live k
    \<and> k_inflight k2 = k_inflight k \<and> k_routeTripped k2 = k_routeTripped k \<and> k_credDead k2 = k_credDead k"
proof -
  obtain k1 busy1 where s: "fireSubstitute H E j (k, busy) = (False, k1, busy1)"
    using assms(4) by (metis prod.collapse)
  obtain sub where k1: "k1 = k\<lparr>k_sub := sub\<rparr>" using substitute_declines [OF s] by (auto simp: only_counted_def)
  obtain v k3 where v: "nextVaryLocked (key_id (j_key j)) k1 = (v, k3)" by (cases "nextVaryLocked (key_id (j_key j)) k1")
  obtain body d where b: "pingBodyN E (j_raw j) (j_route j) v = Some body" "pe_do E (j_ref j) (j_route j) body = Inl d"
    using assms(5,6) by blast
  have k3: "k3 = k1\<lparr>k_lastVary := k_lastVary k3\<rparr>" using v by (auto simp: nextVaryLocked_def Let_def split: option.splits)
  let ?j = "j\<lparr>j_vary := v\<rparr>"
  let ?k4 = "count_failed (count_ping (logCall (CallDo (j_ref j) (j_route j) body) k3))"
  have k2: "k2 = pingDone j (snd (giveBackFailedPing ?j (pe_end E) ?k4))"
    using assms(1-3,13) s v b by (simp add: fire_def send_ping_def after_answer_def)
  have "k_obj ?k4 = k_obj k3" "k_live ?k4 = k_live k3" "k_inflight ?k4 = k_inflight k3"
    "k_routeTripped ?k4 = k_routeTripped k3" "k_credDead ?k4 = k_credDead k3"
    by (simp_all add: count_failed_def count_ping_def logCall_def)
  moreover have "k_obj k3 = k_obj k" "k_live k3 = k_live k" "k_inflight k3 = k_inflight k"
    "k_routeTripped k3 = k_routeTripped k" "k_credDead k3 = k_credDead k"
    by (subst k3, simp add: k1)+
  ultimately have f: "k_obj ?k4 = k_obj k" "k_live ?k4 = k_live k" "k_inflight ?k4 = k_inflight k"
    "k_routeTripped ?k4 = k_routeTripped k" "k_credDead ?k4 = k_credDead k" by simp_all
  have "k_obj (snd (giveBackFailedPing ?j (pe_end E) ?k4)) (j_addr ?j)
    = e\<lparr>e_startedAt := j_prevStartedAt ?j, e_retried := True, e_pingRunning := True\<rparr>"
    by (rule giveBack_entry [of _ _ t]) (use assms f in simp_all)
  then show ?thesis using assms(1,11) f by (simp add: k2 pingDone_def upd_def)
qed

text \<open>
  C24: a ping that fails in transport is sent again, once. When the sweep sent the planned ping of a
  thread, no substitute took it and the transport failed while the cache entry was still alive, the
  entry is as it was before the sweep but for the mark that it was retried; the next sweep, at any
  later time, sends the very same job, with the same bytes, credential and ping number; and a second
  failure is not given back.
\<close>
theorem failed_ping_retried_once:
  assumes "kstep\<^sup>*\<^sup>* New k" "map_of (k_live k) key = Some a" "plain_due t k key (k_obj k a)"
    "\<not> e_retried (k_obj k a)"
    "j = job_for H a (k_obj k a) (e_pings (k_obj k a) + 1) False (e_startedAt (k_obj k a))"
    "pe_spare1 E" "pe_spare2 E" "\<not> fst (fireSubstitute H E j (fst (Sweep H t k), busy))"
    "\<forall>v. pingBodyN E (j_raw j) (j_route j) v \<noteq> None" "\<forall>body. \<exists>d. pe_do E (j_ref j) (j_route j) body = Inl d"
    "pe_end E < e_refreshedAt (k_obj k a) + cacheTTL (k_obj k a)" "t \<le> t'"
    "k2 = fst (fire H E j (fst (Sweep H t k), busy))"
  shows "j \<in> set (snd (Sweep H t k))
    \<and> k_obj k2 a = (k_obj k a)\<lparr>e_retried := True, e_pingRunning := False\<rparr>
    \<and> j \<in> set (snd (Sweep H t' k2))
    \<and> \<not> fst (giveBackFailedPing j u (fst (Sweep H t' k2)))"
proof -
  let ?e = "k_obj k a"
  let ?k1 = "fst (Sweep H t k)"
  have m: "map_ok k" using custody.I_run [OF assms(1) keeper_ok_New] by (simp add: keeper_ok_def)
  have j: "\<not> j_extra j" "j_addr j = a" "j_ping j = e_pings ?e + 1" "j_prevStartedAt j = e_startedAt ?e"
    by (simp_all add: assms(5) job_for_def)
  note st = Sweep_stamps [OF m assms(2,3), of H]
  have k1: "k_obj ?k1 a = stamped t ?e" "map_of (k_live ?k1) key = Some a" "k_inflight ?k1 = k_inflight k"
    "k_routeTripped ?k1 = k_routeTripped k" "k_credDead ?k1 = k_credDead k"
    using st assms(2) by (simp_all add: spared_def agree_def upd_def)
  have "\<not> e_stopped ?e" using assms(3) by (simp add: plain_due_def)
  moreover have "k_obj ?k1 (j_addr j) = stamped t ?e" using k1(1) j(2) by simp
  ultimately have f: "k_obj k2 (j_addr j) = ?e\<lparr>e_retried := True, e_pingRunning := False\<rparr> \<and> k_live k2 = k_live ?k1
    \<and> k_inflight k2 = k_inflight ?k1 \<and> k_routeTripped k2 = k_routeTripped ?k1 \<and> k_credDead k2 = k_credDead ?k1"
    using failed_fire [OF j(1) assms(6-10) _ _ assms(4) j(3,4) assms(11,13)] by blast
  have e2: "k_obj k2 a = ?e\<lparr>e_retried := True, e_pingRunning := False\<rparr>" "map_of (k_live k2) key = Some a"
    using f j(2) k1(2) by simp_all
  have "blocked (k_obj k2 a) t' k2 = blocked ?e t' k" using f k1(4,5) e2(1)
    by (simp add: blocked_def routeIsTrippedLocked_def credIsDeadLocked_def)
  moreover have "\<not> blocked ?e t' k" using assms(3,12) blocked_later by (auto simp: plain_due_def)
  moreover have "pingable (k_obj k2 a) = pingable ?e" unfolding e2(1) by (simp add: pingable_def isDone_def split: option.split)
  ultimately have due: "plain_due t' k2 key (k_obj k2 a)"
    using assms(3,12) f k1(3) e2(1) by (simp add: plain_due_def)
  have run: "kstep\<^sup>*\<^sup>* New k2"
    using assms(1,13) rtranclp.rtrancl_into_rtrancl [of kstep] sweep [of k H t] ping [of ?k1 H E j busy] by metis
  have m2: "map_ok k2" using custody.I_run [OF run keeper_ok_New] by (simp add: keeper_ok_def)
  have same: "job_for H a (k_obj k2 a) (e_pings (k_obj k2 a) + 1) False (e_startedAt (k_obj k2 a)) = j"
    using e2(1) by (simp add: assms(5) job_for_def)
  have "k_obj (fst (Sweep H t' k2)) a = stamped t' (k_obj k2 a)"
    using Sweep_stamps [OF m2 e2(2) due, of H] by (simp add: spared_def agree_def upd_def)
  then have "\<not> fst (giveBackFailedPing j u (fst (Sweep H t' k2)))"
    using e2(1) j(2) by (simp add: giveBackFailedPing_def Let_def stamped_def)
  then show ?thesis
    using sweep_job_in [OF assms(1-3), of H] sweep_job_in [OF run e2(2) due, of H] same e2(1) assms(5) by simp
qed

text \<open>A network that is down: no substitute is offered and the transport answers nothing.\<close>

definition sample_down :: ping_env where
  "sample_down =
     \<lparr>pe_spare1 = True, pe_spare2 = True, pe_now = 6 + 240 * second, pe_end = 7 + 240 * second,
      pe_setInt = (\<lambda>b _ _. Some b), pe_setBool = (\<lambda>b _ _. Some b), pe_do = (\<lambda>_ _ _. Inl False),
      pe_getInt = (\<lambda>_ _. None), pe_inFlight = (\<lambda>_. False), pe_summary = Inl [],
      pe_askSummary = \<lparr>sr_Model = [], sr_Usage = r_Usage (sample_record [] zeroPolicy), sr_Committed = False, sr_Reason = []\<rparr>,
      pe_sweep = Inl [],
      pe_askSweep = (\<lambda>_. \<lparr>sr_Model = [], sr_Usage = r_Usage (sample_record [] zeroPolicy), sr_Committed = False, sr_Reason = []\<rparr>)\<rparr>"

definition sample_job :: pingJob where
  "sample_job = job_for sample_host 0 (k_obj sample_tracked 0) 1 False 5"

theorem failed_ping_retried_once_witness:
  "sample_job \<in> set (snd (Sweep sample_host (9 + 240 * second)
     (fst (fire sample_host sample_down sample_job (fst (Sweep sample_host (6 + 240 * second) sample_tracked), [])))))"
proof -
  let ?t = "6 + 240 * second"
  have key: "map_of (k_live sample_tracked) (key_id (r_Key (sample_record ''t'' sample_auto))) = Some 0" by code_simp
  have due: "plain_due ?t sample_tracked (key_id (r_Key (sample_record ''t'' sample_auto))) (k_obj sample_tracked 0)" by code_simp
  have new: "\<not> e_retried (k_obj sample_tracked 0)" by code_simp
  have pings: "e_pings (k_obj sample_tracked 0) + 1 = 1" by code_simp
  have start: "e_startedAt (k_obj sample_tracked 0) = 5" by code_simp
  have job: "sample_job = job_for sample_host 0 (k_obj sample_tracked 0) (e_pings (k_obj sample_tracked 0) + 1) False
    (e_startedAt (k_obj sample_tracked 0))" unfolding sample_job_def pings start ..
  have spare: "pe_spare1 sample_down" "pe_spare2 sample_down" by (simp_all add: sample_down_def)
  have none: "\<not> fst (fireSubstitute sample_host sample_down sample_job (fst (Sweep sample_host ?t sample_tracked), []))"
    by code_simp
  have body: "\<forall>v. pingBodyN sample_down (j_raw sample_job) (j_route sample_job) v \<noteq> None"
    by (simp add: pingBodyN_def sample_down_def)
  have down: "\<forall>body. \<exists>d. pe_do sample_down (j_ref sample_job) (j_route sample_job) body = Inl d"
    by (intro allI exI [of _ False]) (simp add: sample_down_def)
  have alive: "pe_end sample_down < e_refreshedAt (k_obj sample_tracked 0) + cacheTTL (k_obj sample_tracked 0)" by code_simp
  have le: "?t \<le> 9 + 240 * second" by simp
  show ?thesis
    using failed_ping_retried_once [OF sample_tracked_run key due new job spare none body down alive le refl] by blast
qed

section \<open>The answers after which a thread is given up\<close>

type_synonym answer = "int \<times> Usage"

definition transient :: "answer \<Rightarrow> bool" where
  "transient x \<longleftrightarrow> fst x = 429 \<or> fst x \<ge> 500"

definition refused :: "answer \<Rightarrow> bool" where
  "refused x \<longleftrightarrow> fst x \<ge> 400 \<and> \<not> transient x"

definition unusable :: "answer \<Rightarrow> bool" where
  "unusable x \<longleftrightarrow> fst x < 400 \<and> FreshInput (snd x) = 0 \<and> CacheRead (snd x) = 0 \<and> CacheWrite (snd x) = 0"

definition missed :: "answer \<Rightarrow> bool" where
  "missed x \<longleftrightarrow> fst x < 400 \<and> CacheRead (snd x) = 0 \<and> \<not> unusable x"

definition overwrote :: "answer \<Rightarrow> bool" where
  "overwrote x \<longleftrightarrow> fst x < 400 \<and> CacheRead (snd x) \<noteq> 0 \<and> CacheWrite (snd x) > CacheRead (snd x)"

text \<open>A miss is open while only transient answers have come since.\<close>

definition open_miss :: "answer list \<Rightarrow> bool" where
  "open_miss xs \<longleftrightarrow> (\<exists>us m vs. xs = us @ m # vs \<and> missed m \<and> (\<forall>v \<in> set vs. transient v))"

definition gives_up :: "answer list \<Rightarrow> bool" where
  "gives_up xs \<longleftrightarrow>
     (\<exists>us x vs. xs = us @ x # vs \<and> (refused x \<or> unusable x \<or> overwrote x \<or> missed x \<and> open_miss us))"

definition answered :: "pingJob \<Rightarrow> (instant \<times> answer) list \<Rightarrow> Keeper \<Rightarrow> Keeper" where
  "answered j xs k = fold (\<lambda>(now, status, u) k. snd (noteOutcome j now status u k)) xs k"

lemma answer_cases: "transient x \<or> refused x \<or> unusable x \<or> missed x \<or> overwrote x \<or>
    (fst x < 400 \<and> CacheRead (snd x) \<noteq> 0 \<and> \<not> CacheWrite (snd x) > CacheRead (snd x))"
  by (auto simp: transient_def refused_def unusable_def missed_def overwrote_def)

lemmas answer_defs = transient_def refused_def unusable_def missed_def overwrote_def

lemma ex_snoc:
  "(\<exists>us y vs. xs @ [x] = us @ y # vs \<and> P us y vs) \<longleftrightarrow> P xs x [] \<or> (\<exists>us y vs. xs = us @ y # vs \<and> P us y (vs @ [x]))"
proof -
  have "xs @ [x] = us @ y # vs \<longleftrightarrow> (vs = [] \<and> us = xs \<and> y = x) \<or> (\<exists>ws. vs = ws @ [x] \<and> xs = us @ y # ws)" for us y vs
    by (cases vs rule: rev_cases) auto
  then have "(\<exists>us y vs. xs @ [x] = us @ y # vs \<and> P us y vs) \<longleftrightarrow>
      (\<exists>us y vs. (vs = [] \<and> us = xs \<and> y = x \<or> (\<exists>ws. vs = ws @ [x] \<and> xs = us @ y # ws)) \<and> P us y vs)" by simp
  then show ?thesis by simp metis
qed

lemma open_miss_snoc: "open_miss (xs @ [x]) \<longleftrightarrow> missed x \<or> (transient x \<and> open_miss xs)"
  unfolding open_miss_def ex_snoc by auto

lemma gives_up_snoc:
  "gives_up (xs @ [x]) \<longleftrightarrow> gives_up xs \<or> refused x \<or> unusable x \<or> overwrote x \<or> missed x \<and> open_miss xs"
  unfolding gives_up_def ex_snoc by blast

lemma open_miss_Nil [simp]: "\<not> open_miss []" by (simp add: open_miss_def)

lemma gives_up_Nil [simp]: "\<not> gives_up []" by (simp add: gives_up_def)

text \<open>One answer, seen from its entry.\<close>

lemma noteOutcome_entry:
  "k_obj (snd (noteOutcome j now status u k)) (j_addr j) =
     (let e = k_obj k (j_addr j); x = (status, u) in
      if transient x then e
      else if refused x \<or> unusable x then e\<lparr>e_stopped := True\<rparr>
      else if missed x then (if e_missed e = 0 then e\<lparr>e_missed := 1\<rparr> else e\<lparr>e_missed := e_missed e + 1, e_stopped := True\<rparr>)
      else if overwrote x then e\<lparr>e_stopped := True\<rparr>
      else e\<lparr>e_missed := 0, e_retried := False\<rparr>)"
proof -
  have f: "k_obj (markCredDeadLocked t c m s n k') = k_obj k'" "k_obj (routeFailed j n k') = k_obj k'"
    "k_obj (count_failed k') = k_obj k'" "k_obj (count_missed k') = k_obj k'" "k_obj (count_wrote k') = k_obj k'"
    "k_obj (routeOKLocked r k') = k_obj k'" "k_obj (skip1 k') = k_obj k'"
    "k_obj (markStopped a k') = (k_obj k')(a := (k_obj k' a)\<lparr>e_stopped := True\<rparr>)"
    "k_obj (notePingRead a k') = (k_obj k')(a := (k_obj k' a)\<lparr>e_missed := 0, e_retried := False\<rparr>)"
    "notePingMiss a k' = (e_missed (k_obj k' a) = 0, upd a (\<lambda>e. e\<lparr>e_missed := e_missed e + 1\<rparr>) k')" for t c m s n k' r a
    by (simp_all add: markCredDeadLocked_def routeFailed_def routeFailedLocked_def count_failed_def count_missed_def
        count_wrote_def routeOKLocked_def skip1_def markStopped_def notePingRead_def notePingMiss_def upd_def Let_def)
  let ?cred = "(status = 401 \<or> status = 403) \<and> e_cred (k_obj k (j_addr j)) \<noteq> []"
  consider ?cred | "\<not> ?cred" "status = 429 \<or> status \<ge> 500" | "\<not> ?cred" "\<not> (status = 429 \<or> status \<ge> 500)" "status \<ge> 400"
    | "status < 400" "FreshInput u = 0 \<and> CacheRead u = 0 \<and> CacheWrite u = 0"
    | "status < 400" "\<not> (FreshInput u = 0 \<and> CacheRead u = 0 \<and> CacheWrite u = 0)" "CacheRead u = 0"
    | "status < 400" "CacheRead u \<noteq> 0" by fastforce
  then show ?thesis
  proof cases
    case 1
    then have "refused (status, u)" "\<not> transient (status, u)" by (auto simp: answer_defs)
    with 1 show ?thesis by (simp add: noteOutcome_def f Let_def)
  next
    case 2
    then have "transient (status, u)" by (simp add: transient_def)
    with 2 show ?thesis by (auto simp: noteOutcome_def f Let_def)
  next
    case 3
    then have "refused (status, u)" "\<not> transient (status, u)" by (simp_all add: answer_defs)
    with 3 show ?thesis by (simp add: noteOutcome_def f Let_def)
  next
    case 4
    then have "unusable (status, u)" "\<not> transient (status, u)" by (simp_all add: answer_defs)
    with 4 show ?thesis by (simp add: noteOutcome_def f Let_def)
  next
    case 5
    then have "missed (status, u)" "\<not> transient (status, u)" "\<not> refused (status, u)" "\<not> unusable (status, u)"
      by (simp_all add: answer_defs)
    with 5 show ?thesis by (auto simp: noteOutcome_def f Let_def upd_def)
  next
    case 6
    then have "\<not> missed (status, u)" "\<not> transient (status, u)" "\<not> refused (status, u)" "\<not> unusable (status, u)"
      "overwrote (status, u) \<longleftrightarrow> CacheWrite u > CacheRead u" by (simp_all add: answer_defs)
    with 6 show ?thesis by (auto simp: noteOutcome_def f Let_def upd_def)
  qed
qed

text \<open>
  C25: a thread is given up exactly when it must be. However many answers the pings of an entry get, at
  whatever times, the entry is stopped at the end if and only if one answer refused the ping, was
  unusable, wrote more than it read, or was a second miss with nothing but transient errors since the
  first. Rate limits and server errors alone never stop a thread, and one miss does not either.
\<close>
theorem given_up_exactly:
  assumes "\<not> e_stopped (k_obj k (j_addr j))" "e_missed (k_obj k (j_addr j)) = 0"
  shows "e_stopped (k_obj (answered j xs k) (j_addr j)) \<longleftrightarrow> gives_up (map snd xs)"
proof -
  let ?e = "\<lambda>xs. k_obj (answered j xs k) (j_addr j)"
  have "e_stopped (?e xs) = gives_up (map snd xs)
    \<and> (\<not> gives_up (map snd xs) \<longrightarrow> e_missed (?e xs) = (if open_miss (map snd xs) then 1 else 0))"
  proof (induction xs rule: rev_induct)
    case Nil
    then show ?case using assms by (simp add: answered_def)
  next
    case (snoc x xs)
    obtain now status u where x: "x = (now, status, u)" by (cases x)
    let ?x = "(status, u)"
    have e: "?e (xs @ [x]) = k_obj (snd (noteOutcome j now status u (answered j xs k))) (j_addr j)"
      by (simp add: answered_def x)
    have m: "map snd (xs @ [x]) = map snd xs @ [?x]" by (simp add: x)
    show ?case unfolding m gives_up_snoc open_miss_snoc e noteOutcome_entry Let_def
      using snoc.IH answer_cases [of ?x] by (auto simp: answer_defs)
  qed
  then show ?thesis by blast
qed

definition sample_reply :: pingJob where
  "sample_reply = job_for sample_host 0 noEntry 1 False 5"

definition sample_answers :: "(instant \<times> answer) list" where
  "sample_answers =
     map (\<lambda>(s, r). (10, s, \<lparr>FreshInput = 1, CacheRead = r, CacheWrite = 0, UOutput = 1, CacheWrite1h = 0, UStopReason = []\<rparr>))
       [(200, 0), (429, 0), (200, 7), (500, 0), (200, 0), (503, 0)]"

theorem given_up_exactly_witness:
  "\<not> gives_up (map snd sample_answers) \<and> gives_up (map snd (sample_answers @ [hd sample_answers]))"
proof
  have e: "\<not> e_stopped (k_obj New (j_addr sample_reply))" "e_missed (k_obj New (j_addr sample_reply)) = 0"
    by code_simp+
  have "\<not> e_stopped (k_obj (answered sample_reply sample_answers New) (j_addr sample_reply))" by code_simp
  then show "\<not> gives_up (map snd sample_answers)" using given_up_exactly [OF e] by simp
  have "e_stopped (k_obj (answered sample_reply (sample_answers @ [hd sample_answers]) New) (j_addr sample_reply))"
    by code_simp
  then show "gives_up (map snd (sample_answers @ [hd sample_answers]))" using given_up_exactly [OF e] by simp
qed

section \<open>The state a host shows and the press it allows\<close>

lemma fold_states:
  "map_of (fold (\<lambda>(_, a) out. if skip a then out else AList.update (f a) (g a) out) xs out) th =
     (case find (\<lambda>x. \<not> skip (snd x) \<and> f (snd x) = th) (rev xs) of
        Some x \<Rightarrow> Some (g (snd x)) | None \<Rightarrow> map_of out th)"
proof (induction xs rule: rev_induct)
  case (snoc x xs)
  then show ?case by (cases x) (simp add: AList.update_conv')
qed simp

lemma fold_reasons:
  "map_of (fold (\<lambda>(_, r) out. if skip r then out else if map_of out (f r) \<noteq> None then out
                              else AList.update (f r) (Some (g r)) out) xs out) th = Some None
   \<longleftrightarrow> map_of out th = Some None"
  by (induction xs arbitrary: out) (auto simp: AList.update_conv' split: prod.split)

text \<open>
  The state a host shows for a thread is the answer a press gets. For a thread whose slot holds its
  own entry, the state is the pingable one exactly when PingNow does not refuse the press as not held;
  whatever reasons are remembered, for this thread or for others.
\<close>
theorem shown_state_is_press:
  assumes "kstep\<^sup>*\<^sup>* New k" "session \<noteq> []" "mr_Key r = \<lparr>kTenant = tenant, kSession = session, kThread = th\<rparr>"
    "\<And>a. map_of (k_live k) (key_id (mr_Key r)) = Some a \<Longrightarrow> e_key (k_obj k a) = mr_Key r"
  shows "state_For (PingStates H now tenant False session k) th = None \<longleftrightarrow> fst (press H now r k) \<noteq> Inl ErrNotHeld"
proof -
  let ?i = "key_id (mr_Key r)"
  let ?skip = "\<lambda>a. e_session (k_obj k a) \<noteq> session \<or> e_tenant (k_obj k a) \<noteq> tenant"
  let ?hit = "\<lambda>x. \<not> ?skip (snd x) \<and> e_thread (k_obj k (snd x)) = th"
  have m: "map_ok k" using custody.I_run [OF assms(1) keeper_ok_New] by (simp add: keeper_ok_def)
  have own: "x = (?i, a)" if "map_of (k_live k) ?i = Some a" "x \<in> set (k_live k)" "?hit x" for x a
  proof -
    have "e_key (k_obj k (snd x)) = mr_Key r" using that(3) assms(3) by (cases "e_key (k_obj k (snd x))") simp
    then have "fst x = ?i" using m that(2) by (auto simp: map_ok_def slot_ok_def)
    then show ?thesis using that(1,2) m by (cases x) (auto simp: map_ok_def dest: map_of_is_SomeI)
  qed
  have none: "map_of (k_live k) ?i \<noteq> None" if "x \<in> set (k_live k)" "?hit x" for x
  proof -
    have "e_key (k_obj k (snd x)) = mr_Key r" using that(2) assms(3) by (cases "e_key (k_obj k (snd x))") simp
    then have "fst x = ?i" using m that(1) by (auto simp: map_ok_def slot_ok_def)
    then have "?i \<in> fst ` set (k_live k)" using that(1) by (metis imageI)
    then show ?thesis by (simp add: map_of_eq_None_iff)
  qed
  have "find ?hit (rev (visit H k)) = map_option (Pair ?i) (map_of (k_live k) ?i)"
  proof (cases "map_of (k_live k) ?i")
    case None
    then have "\<forall>x \<in> set (visit H k). \<not> ?hit x" using none set_visit by blast
    then have "find ?hit (rev (visit H k)) = None" unfolding find_None_iff set_rev by blast
    then show ?thesis using None by simp
  next
    case (Some a)
    have h: "(?i, a) \<in> set (rev (visit H k))" "?hit (?i, a)" using assms(3,4) Some map_of_SomeD [OF Some] by simp_all
    then obtain y where y: "find ?hit (rev (visit H k)) = Some y" by (cases "find ?hit (rev (visit H k))") (auto simp: find_None_iff)
    then have "?hit y" "y \<in> set (visit H k)" unfolding find_Some_iff using nth_mem [of _ "rev (visit H k)"] by force+
    then have "y = (?i, a)" using own [OF Some, of y] by simp
    then show ?thesis using y Some by simp
  qed
  note found = this
  let ?out = "fold (\<lambda>(_, a) out. if ?skip a then out else AList.update (e_thread (k_obj k a)) (state_of now k (k_obj k a)) out)
                (visit H k) []"
  let ?skipr = "\<lambda>r. kSession (rf_key r) \<noteq> session \<or> kTenant (rf_key r) \<noteq> tenant"
  have "PingStates H now tenant False session k =
      fold (\<lambda>(_, r) out. if ?skipr r then out else if map_of out (kThread (rf_key r)) \<noteq> None then out
                          else AList.update (kThread (rf_key r)) (Some (rf_reason r)) out) (k_reasons k) ?out"
    using assms(2) by (simp add: PingStates_def Let_def)
  moreover have "state_For m th = None \<longleftrightarrow> map_of m th = Some None" for m by (simp add: state_For_def split: option.split)
  ultimately have "state_For (PingStates H now tenant False session k) th = None \<longleftrightarrow> map_of ?out th = Some None"
    by (simp only: fold_reasons [of ?skipr "\<lambda>r. kThread (rf_key r)" rf_reason])
  also have "\<dots> \<longleftrightarrow> (case map_of (k_live k) ?i of None \<Rightarrow> False | Some a \<Rightarrow> state_of now k (k_obj k a) = None)"
    unfolding fold_states found by (simp split: option.split)
  also have "\<dots> \<longleftrightarrow> fst (press H now r k) \<noteq> Inl ErrNotHeld"
    using assms(2,3) by (auto simp: press_def state_of_def Let_def split: option.splits)
  finally show ?thesis .
qed

definition sample_press :: ManualRequest where
  "sample_press = \<lparr>mr_Key = r_Key (sample_record ''t'' sample_auto), mr_MinGap = 30 * second, mr_RewriteUSD = 0\<rparr>"

theorem shown_state_is_press_witness:
  "state_For (PingStates sample_host 10 ''t'' False ''s'' sample_tracked) [] = None"
proof -
  have i: "mr_Key sample_press = \<lparr>kTenant = ''t'', kSession = ''s'', kThread = []\<rparr>"
    by (simp add: sample_press_def sample_record_def)
  have one: "map_of (k_live sample_tracked) (key_id (mr_Key sample_press)) = Some 0" by code_simp
  have "e_key (k_obj sample_tracked 0) = mr_Key sample_press" by code_simp
  then have "e_key (k_obj sample_tracked a) = mr_Key sample_press"
    if "map_of (k_live sample_tracked) (key_id (mr_Key sample_press)) = Some a" for a using that one by simp
  moreover have "fst (press sample_host 10 sample_press sample_tracked) \<noteq> Inl ErrNotHeld" by code_simp
  ultimately show ?thesis using shown_state_is_press [OF sample_tracked_run _ i, of sample_host 10] by simp
qed

section \<open>The schedule a dashboard replays\<close>

lemma ForOneHour_WaitPlan [simp]: "WaitPlan (ForOneHour p) = WaitPlan p"
  by (simp add: ForOneHour_def Let_def)

lemma classified:
  assumes "ClassifyWaitingForTerminal ts names sr False usageOK bg tm = (w, l)"
  shows "w \<noteq> WaitingRetry" "w \<noteq> []" "w = WaitingDone \<longleftrightarrow> IsDone names ts"
  using assms
  by (auto simp: ClassifyWaitingForTerminal_def IsDone_def waiting_defs Let_def split: if_splits)

text \<open>The gates of a ping that are about its worth: a turn seen, a prefix long enough, a price within the ceiling, a predictor.\<close>

definition worth_pinging :: "kaEntry \<Rightarrow> bool" where
  "worth_pinging e \<longleftrightarrow> 1 \<le> e_turn e \<and> MinPrefixTokens (e_pol e) \<le> e_prefix e \<and> \<not> exceeds (e_pingUSD e) (Ceiling (e_pol e))
     \<and> (PredictorID (e_pol e) = []
        \<or> (\<exists>p. predictorFor (PredictorID (e_pol e)) = Some p \<and> PredictorThreshold (e_pol e) \<le> p (e_stopReason e)))"

lemma pingable_iff: "pingable e \<longleftrightarrow> worth_pinging e \<and> \<not> isDone e \<and> \<not> e_noTool e"
  by (auto simp: pingable_def worth_pinging_def split: option.split)


definition sample_tool_turn :: KRecord where
  "sample_tool_turn =
     (sample_record ''t'' (sample_auto\<lparr>WaitPlan := True\<rparr>))
       \<lparr>r_ToolUseNames := [''Bash''],
        r_Usage := (r_Usage (sample_record ''t'' sample_auto))\<lparr>UStopReason := ''tool_use''\<rparr>\<rparr>"


end
