(* ===== verification/Wait_Counts.thy ===== *)
theory Wait_Counts
  imports Wait_Tracker Keepalive_Outcome
begin

text \<open>
  What the wait tracker keeps: the bounds of its maps, that reading a resent transcript again is the
  same as reading only what is new, what the causes mean, and the counts it hands to the keeper's plan.
  The last section shows two ways in which a finished wait is counted as open again.
\<close>

section \<open>Bounds\<close>

definition few_keys :: "(string \<times> 'v) list \<Rightarrow> bool" where
  "few_keys m \<longleftrightarrow> distinct (map fst m) \<and> length m \<le> maxTrackedKeys"

definition wait_thread_ok :: "waitThread \<Rightarrow> bool" where
  "wait_thread_ok ts \<longleftrightarrow> few_keys (openBackground ts) \<and> few_keys (openTeammates ts)
     \<and> distinct (appliedCloses ts) \<and> length (appliedCloses ts) \<le> maxTrackedKeys"

definition wait_ok :: "waitTracker \<Rightarrow> bool" where
  "wait_ok t \<longleftrightarrow> distinct (map fst (wt_threads t)) \<and> length (wt_threads t) \<le> waitMaxThreads
     \<and> (\<forall>x \<in> set (wt_threads t). wait_thread_ok (snd x))"

lemma first_key_in: "ks \<noteq> [] \<Longrightarrow> first_key pick ks \<in> set ks"
  by (simp add: first_key_def)

lemma few_keys_delete: "few_keys m \<Longrightarrow> few_keys (AList.delete k m)"
  using AList.length_delete_le [of k m] by (auto simp: few_keys_def intro: AList.distinct_delete le_trans)

lemma few_keys_filter: "few_keys m \<Longrightarrow> few_keys (filter P m)"
  by (simp add: few_keys_def distinct_map_filter) (meson length_filter_le le_trans)

lemma length_update_le: "length (AList.update k v m) \<le> Suc (length m)"
  by (simp add: update_length)

lemma in_update: "x \<in> set (AList.update k v m) \<Longrightarrow> x = (k, v) \<or> x \<in> set m"
  by (induction m) (auto split: if_splits)

lemma length_delete_less: "k \<in> set (map fst m) \<Longrightarrow> length (AList.delete k m) < length m"
  by (induction m) (auto simp: AList.delete_eq le_imp_less_Suc)

text \<open>An insertion that evicts one key when the map is full.\<close>

lemma few_keys_insert:
  assumes "few_keys m"
  shows "few_keys (AList.update i v (if length m \<ge> maxTrackedKeys then AList.delete (first_key pick (map fst m)) m else m))"
proof (cases "length m \<ge> maxTrackedKeys")
  case True
  have "m \<noteq> []" using True by (auto simp: maxTrackedKeys_def)
  then have "first_key pick (map fst m) \<in> set (map fst m)" by (intro first_key_in) simp
  then have "length (AList.delete (first_key pick (map fst m)) m) < maxTrackedKeys"
    using length_delete_less [of _ m] assms by (fastforce simp: few_keys_def)
  then show ?thesis using True assms length_update_le [of i v "AList.delete (first_key pick (map fst m)) m"]
    by (auto simp: few_keys_def intro: AList.distinct_update AList.distinct_delete)
next
  case False
  then show ?thesis using assms length_update_le [of i v m] by (auto simp: few_keys_def intro: AList.distinct_update)
qed

lemma ok_removeFromAnonOrder [simp]: "wait_thread_ok (removeFromAnonOrder i ts) = wait_thread_ok ts"
  by (simp add: removeFromAnonOrder_def wait_thread_ok_def)

lemma ok_openBG: "wait_thread_ok ts \<Longrightarrow> wait_thread_ok (openBG pick now i dur ts)"
  using few_keys_insert [of "openBackground ts" i "\<lparr>bg_dur = dur, bg_firstSeen = now\<rparr>" pick]
  by (auto simp: openBG_def Let_def wait_thread_ok_def removeFromAnonOrder_def)

lemma ok_openAnon: "wait_thread_ok ts \<Longrightarrow> wait_thread_ok (openAnon pick now i ts)"
  using ok_openBG [of ts pick now "''anon:'' @ i" 0] by (simp add: openAnon_def Let_def wait_thread_ok_def)

lemma ok_rememberApplied: "wait_thread_ok ts \<Longrightarrow> wait_thread_ok (rememberApplied pick sig ts)"
proof -
  assume ts: "wait_thread_ok ts"
  let ?a = "appliedCloses ts"
  have "length (remove1 (first_key pick ?a) ?a) < maxTrackedKeys" if "length ?a \<ge> maxTrackedKeys"
  proof -
    have "?a \<noteq> []" using that by (auto simp: maxTrackedKeys_def)
    then have "first_key pick ?a \<in> set ?a" by (rule first_key_in)
    then have "length (remove1 (first_key pick ?a) ?a) = length ?a - 1" by (simp add: length_remove1)
    then show ?thesis using ts that by (auto simp: wait_thread_ok_def maxTrackedKeys_def)
  qed
  then show ?thesis using ts by (auto simp: rememberApplied_def Let_def wait_thread_ok_def List.insert_def)
qed

lemma ok_closeOldestAnon: "wait_thread_ok ts \<Longrightarrow> wait_thread_ok (closeOldestAnon pick sig ts)"
  using ok_rememberApplied [of ts pick sig]
  by (auto simp: closeOldestAnon_def Let_def wait_thread_ok_def few_keys_delete split: list.split)

lemma ok_closeByID: "wait_thread_ok ts \<Longrightarrow> wait_thread_ok (closeByID pick p i ts)"
  by (auto simp: closeByID_def ok_closeOldestAnon) (simp add: wait_thread_ok_def few_keys_delete)

lemma ok_askTeammate: "wait_thread_ok ts \<Longrightarrow> wait_thread_ok (askTeammate pick now to ts)"
  using few_keys_insert [of "openTeammates ts" to now pick] by (auto simp: askTeammate_def Let_def wait_thread_ok_def)

lemma ok_act: "wait_thread_ok ts \<Longrightarrow> wait_thread_ok (act pick now s ts)"
  by (cases s) (simp_all add: ok_openBG ok_openAnon ok_askTeammate ok_closeByID ok_closeOldestAnon,
      simp add: wait_thread_ok_def few_keys_delete)

lemma ok_scan: "wait_thread_ok ts \<Longrightarrow> wait_thread_ok (scanOpenState arg pick entries now ts)"
proof -
  have "wait_thread_ok ts \<Longrightarrow> wait_thread_ok (fold (act pick now) ss ts)" for ss
    by (induction ss arbitrary: ts) (simp_all add: ok_act)
  then show "wait_thread_ok ts \<Longrightarrow> ?thesis" by (simp add: scanOpenState_def)
qed

lemma ok_countBackground: "wait_thread_ok ts \<Longrightarrow> wait_thread_ok (snd (countBackgroundLocked now ts))"
proof -
  have f: "wait_thread_ok (fold removeFromAnonOrder ks ts') = wait_thread_ok ts'" for ks ts'
    by (induction ks arbitrary: ts') simp_all
  show "wait_thread_ok ts \<Longrightarrow> ?thesis" by (simp add: countBackgroundLocked_def Let_def f) (simp add: wait_thread_ok_def few_keys_filter)
qed

lemma ok_countTeammates: "wait_thread_ok ts \<Longrightarrow> wait_thread_ok (snd (countTeammatesLocked now ts))"
  by (simp add: countTeammatesLocked_def Let_def) (simp add: wait_thread_ok_def few_keys_filter)

lemma ok_new: "wait_thread_ok newThreadState"
  by (simp add: newThreadState_def wait_thread_ok_def few_keys_def)

lemma threadLocked_ok:
  assumes "wait_ok t" "threadLocked key now t = (ts, t')"
  shows "wait_ok t' \<and> wait_thread_ok ts \<and> key \<in> fst ` set (wt_threads t')"
proof (cases "map_of (wt_threads t) key")
  case (Some x)
  then show ?thesis using assms map_of_SomeD [OF Some] by (auto simp: threadLocked_def wait_ok_def intro!: image_eqI)
next
  case None
  let ?p = "if length (wt_threads t) \<ge> waitMaxThreads then wait_prune now t else t"
  have p: "wait_ok ?p" "length (wt_threads ?p) < waitMaxThreads"
    using assms(1) by (auto simp: wait_ok_def wait_prune_def Let_def distinct_map_filter waitMaxThreads_def)
  have "t' = ?p\<lparr>wt_threads := AList.update key newThreadState (wt_threads ?p)\<rparr>" "ts = newThreadState"
    using assms(2) None by (auto simp: threadLocked_def Let_def)
  moreover have "wait_thread_ok (snd x)" if "x \<in> set (AList.update key newThreadState (wt_threads ?p))" for x
    using p(1) ok_new in_update [OF that] by (auto simp: wait_ok_def)
  ultimately show ?thesis using p length_update_le [of key newThreadState "wt_threads ?p"] ok_new
    by (auto simp: wait_ok_def dom_update AList.distinct_update simp del: if_split_asm)
qed

section \<open>Every run\<close>

datatype wait_event =
    Observed instant string string "message list"
  | Counted instant string
  | Outcome_of instant string nat int

fun wait_step :: "(string \<Rightarrow> string \<Rightarrow> string) \<Rightarrow> picker \<Rightarrow> wait_event \<Rightarrow> waitTracker \<Rightarrow> waitTracker" where
  "wait_step arg pick (Observed now key previous entries) t = snd (observe arg pick now key previous entries t)"
| "wait_step arg pick (Counted now key) t = snd (OpenCounts now key t)"
| "wait_step arg pick (Outcome_of now key n status) t = RecordOutcome now key n status t"

lemma set_thread_ok:
  assumes "wait_ok t" "wait_thread_ok ts" "key \<in> fst ` set (wt_threads t)"
  shows "wait_ok (set_thread key ts t)"
proof -
  have "wait_thread_ok (snd x)" if "x \<in> set (AList.update key ts (wt_threads t))" for x
    using assms(1,2) in_update [OF that] by (auto simp: wait_ok_def)
  then show ?thesis using assms(1,3) by (simp add: wait_ok_def set_thread_def update_length AList.distinct_update)
qed

text \<open>What both readers do with a thread.\<close>

lemma counted_ok:
  assumes "wait_thread_ok ts" "countBackgroundLocked now ts = (c, ts1)" "countTeammatesLocked now ts1 = (n, ts2)"
  shows "wait_thread_ok ts2"
  using ok_countTeammates [OF ok_countBackground [OF assms(1), of now], of now] assms(2,3) by simp

lemma observe_ok: "wait_ok t \<Longrightarrow> wait_ok (snd (observe arg pick now key previous entries t))"
proof (cases "previous \<noteq> [] \<or> entries = []")
  case False
  assume t: "wait_ok t"
  obtain ts t' where l: "threadLocked key now t = (ts, t')" by (cases "threadLocked key now t")
  note ok = threadLocked_ok [OF t l]
  let ?s = "scanOpenState arg pick entries now (ts\<lparr>wt_last := now\<rparr>)"
  have s: "wait_thread_ok ?s" using ok by (intro ok_scan) (simp add: wait_thread_ok_def)
  obtain bg ms s1 where c: "countBackgroundLocked now ?s = ((bg, ms), s1)" by (metis surj_pair)
  obtain tm s2 where d: "countTeammatesLocked now s1 = (tm, s2)" by (cases "countTeammatesLocked now s1")
  have "snd (observe arg pick now key previous entries t) = set_thread key s2 t'"
    using False l c d by (simp add: observe_def Let_def)
  then show ?thesis using set_thread_ok counted_ok [OF s c d] ok by simp
qed (simp add: observe_def)

lemma OpenCounts_ok: "wait_ok t \<Longrightarrow> wait_ok (snd (OpenCounts now key t))"
proof (cases "map_of (wt_threads t) key")
  case (Some ts)
  assume t: "wait_ok t"
  have ts: "wait_thread_ok ts" "key \<in> fst ` set (wt_threads t)"
    using t map_of_SomeD [OF Some] by (force simp: wait_ok_def)+
  obtain bg ms s1 where c: "countBackgroundLocked now ts = ((bg, ms), s1)" by (metis surj_pair)
  obtain tm s2 where d: "countTeammatesLocked now s1 = (tm, s2)" by (cases "countTeammatesLocked now s1")
  have "snd (OpenCounts now key t) = set_thread key s2 t" using Some c d by (simp add: OpenCounts_def)
  then show ?thesis using set_thread_ok [OF t counted_ok [OF ts(1) c d] ts(2)] by simp
qed (simp add: OpenCounts_def)

lemma RecordOutcome_ok: "wait_ok t \<Longrightarrow> wait_ok (RecordOutcome now key n status t)"
proof -
  assume t: "wait_ok t"
  obtain ts t' where l: "threadLocked key now t = (ts, t')" by (cases "threadLocked key now t")
  note ok = threadLocked_ok [OF t l]
  have "wait_thread_ok (ts\<lparr>lastStatus := status, lastMsgCount := n, wt_last := now\<rparr>)" using ok by (simp add: wait_thread_ok_def)
  then show ?thesis using ok l by (simp add: RecordOutcome_def set_thread_ok)
qed

text \<open>
  The tracker is bounded. From a new tracker, whatever requests, reads and outcomes come in
  whatever order, it keeps at most 20000 threads, each once, and each thread at most 512 open tasks, 512
  open teammate waits and 512 remembered closes, whichever entries the full maps give up.
\<close>
theorem wait_tracker_bounded:
  "let t = fold (wait_step arg pick) es newTracker in
   distinct (map fst (wt_threads t)) \<and> length (wt_threads t) \<le> 20000
   \<and> (\<forall>(_, ts) \<in> set (wt_threads t). length (openBackground ts) \<le> 512 \<and> length (openTeammates ts) \<le> 512
        \<and> length (appliedCloses ts) \<le> 512)"
proof -
  have step: "wait_ok t \<Longrightarrow> wait_ok (wait_step arg pick e t)" for e t
    by (cases e) (simp_all add: observe_ok OpenCounts_ok RecordOutcome_ok)
  have "wait_ok t \<Longrightarrow> wait_ok (fold (wait_step arg pick) es t)" for t
    by (induction es arbitrary: t) (simp_all add: step)
  moreover have "wait_ok newTracker" by (simp add: wait_ok_def newTracker_def)
  ultimately have "wait_ok (fold (wait_step arg pick) es newTracker)" by blast
  then show ?thesis by (auto simp: wait_ok_def wait_thread_ok_def few_keys_def waitMaxThreads_def maxTrackedKeys_def Let_def)
qed

section \<open>A resent transcript\<close>

text \<open>What a signal about named tasks does to the set of open ones.\<close>

fun open_after :: "signal \<Rightarrow> string set \<Rightarrow> string set" where
  "open_after (Opens i _) K = insert i K"
| "open_after (Closes _ i) K = K - {i}"
| "open_after _ K = K"

fun opened_id :: "signal \<Rightarrow> string set" where
  "opened_id (Opens i _) = {i}"
| "opened_id _ = {}"

definition bg_ids :: "waitThread \<Rightarrow> string set" where
  "bg_ids ts = fst ` set (openBackground ts)"

text \<open>Only named tasks, and never so many that the map would have to give one up.\<close>

definition named_only :: "string set \<Rightarrow> signal list \<Rightarrow> bool" where
  "named_only K ss \<longleftrightarrow> finite K \<and> card K \<le> maxTrackedKeys \<and> (\<forall>s \<in> set ss. opened_id s \<subseteq> K \<and> \<not> (\<exists>i. s = OpensAnon i))"

lemma bg_ids_simps [simp]:
  "bg_ids (ts\<lparr>openTeammates := x\<rparr>) = bg_ids ts" "bg_ids (ts\<lparr>appliedCloses := y\<rparr>) = bg_ids ts"
  by (simp_all add: bg_ids_def)

lemma closeOldest_none: "anonOrder ts = [] \<Longrightarrow> bg_ids (closeOldestAnon pick sig ts) = bg_ids ts \<and> anonOrder (closeOldestAnon pick sig ts) = []"
  by (simp add: closeOldestAnon_def rememberApplied_def Let_def)

lemma act_named:
  assumes "anonOrder ts = []" "\<not> (\<exists>i. s = OpensAnon i)" "length (openBackground ts) < maxTrackedKeys \<or> opened_id s \<subseteq> bg_ids ts"
  shows "bg_ids (act pick now s ts) = open_after s (bg_ids ts) \<and> anonOrder (act pick now s ts) = []"
proof (cases s)
  case (Opens i dur)
  then show ?thesis using assms by (auto simp: openBG_def Let_def bg_ids_def map_of_eq_None_iff dom_update)
next
  case (Closes p i)
  have "bg_ids (ts\<lparr>openBackground := AList.delete i (openBackground ts)\<rparr>) = bg_ids ts - {i}"
    by (auto simp: bg_ids_def AList.delete_eq image_iff)
  moreover have "i \<notin> bg_ids ts" if "map_of (openBackground ts) i = None" using that by (simp add: bg_ids_def map_of_eq_None_iff)
  ultimately show ?thesis using Closes assms(1) closeOldest_none [OF assms(1)] by (auto simp: closeByID_def)
next
  case (Asks to)
  then show ?thesis using assms(1) by (simp add: askTeammate_def Let_def)
qed (use assms closeOldest_none in auto)

lemma scan_named:
  "anonOrder ts = [] \<Longrightarrow> wait_thread_ok ts \<Longrightarrow> bg_ids ts \<subseteq> K \<Longrightarrow> named_only K ss \<Longrightarrow>
   bg_ids (fold (act pick now) ss ts) = fold open_after ss (bg_ids ts) \<and> anonOrder (fold (act pick now) ss ts) = []
   \<and> bg_ids (fold (act pick now) ss ts) \<subseteq> K"
proof (induction ss arbitrary: ts)
  case (Cons s ss)
  have K: "finite K" "card K \<le> maxTrackedKeys" "opened_id s \<subseteq> K" "\<not> (\<exists>i. s = OpensAnon i)" "named_only K ss"
    using Cons.prems(4) by (auto simp: named_only_def)
  have "length (openBackground ts) < maxTrackedKeys \<or> opened_id s \<subseteq> bg_ids ts"
  proof (rule disjCI)
    assume "\<not> opened_id s \<subseteq> bg_ids ts"
    then have "bg_ids ts \<subset> K" using Cons.prems(3) K(3) by auto
    then have "card (bg_ids ts) < card K" using K(1) psubset_card_mono by blast
    moreover have "card (bg_ids ts) = length (openBackground ts)"
      using Cons.prems(2) distinct_card [of "map fst (openBackground ts)"] by (simp add: bg_ids_def wait_thread_ok_def few_keys_def)
    ultimately show "length (openBackground ts) < maxTrackedKeys" using K(2) by simp
  qed
  then have a: "bg_ids (act pick now s ts) = open_after s (bg_ids ts)" "anonOrder (act pick now s ts) = []"
    using act_named [OF Cons.prems(1) K(4)] by blast+
  have "bg_ids (act pick now s ts) \<subseteq> K" unfolding a(1) using Cons.prems(3) K(3) by (cases s) auto
  from Cons.IH [OF a(2) ok_act [OF Cons.prems(2)] this K(5)] a(1) show ?case by auto
qed simp

text \<open>Membership after a list of signals is decided by the last signal about the task.\<close>

fun says :: "string \<Rightarrow> signal \<Rightarrow> bool option" where
  "says x (Opens i _) = (if i = x then Some True else None)"
| "says x (Closes _ i) = (if i = x then Some False else None)"
| "says x _ = None"

definition verdict :: "string \<Rightarrow> signal list \<Rightarrow> bool option" where
  "verdict x ss = (case find (\<lambda>s. says x s \<noteq> None) (rev ss) of None \<Rightarrow> None | Some s \<Rightarrow> says x s)"

lemma fold_open_after: "x \<in> fold open_after ss K \<longleftrightarrow> (case verdict x ss of None \<Rightarrow> x \<in> K | Some b \<Rightarrow> b)"
proof (induction ss rule: rev_induct)
  case (snoc s ss)
  then show ?case by (cases s) (auto simp: verdict_def split: option.splits)
qed (simp add: verdict_def)

lemma fold_open_twice: "fold open_after ss (fold open_after ss K) = fold open_after ss K"
  by (auto simp: fold_open_after split: option.splits)


text \<open>A background command, its notice, and the two messages of a transcript that carry them.\<close>

definition sample_started :: message where
  "sample_started =
     \<lparr>role = RoleTool, name = None,
      content = Some \<lparr>contentStr = Some ''Command running in background with ID: b1. Output follows'', contentBlocks = None\<rparr>,
      toolMsg = Some (Some ''toolu_1''), asstMsg = None\<rparr>"

definition sample_notice :: message where
  "sample_notice =
     \<lparr>role = RoleUser, name = None,
      content = Some \<lparr>contentStr = Some ''<task-notification><task-id>b1</task-id></task-notification>'', contentBlocks = None\<rparr>,
      toolMsg = None, asstMsg = None\<rparr>"

definition no_args :: "string \<Rightarrow> string \<Rightarrow> string" where "no_args input path = []"

definition first_pick :: picker where "first_pick ks = 0"


section \<open>What the wake cause means\<close>

lemma lastSubstantive_some:
  "lastSubstantiveIndex es = Some i \<Longrightarrow> i < length es \<and> \<not> isNoiseEntry (es ! i) \<and> (\<forall>j. i < j \<longrightarrow> j < length es \<longrightarrow> isNoiseEntry (es ! j))"
proof (induction es rule: rev_induct)
  case (snoc e es)
  have eq: "find (\<lambda>j. \<not> isNoiseEntry ((es @ [e]) ! j)) (rev [0..<length es]) = find (\<lambda>j. \<not> isNoiseEntry (es ! j)) (rev [0..<length es])"
    by (rule find_cong) (auto simp: nth_append)
  show ?case
  proof (cases "isNoiseEntry e")
    case True
    then show ?thesis using snoc eq by (auto simp: lastSubstantiveIndex_def nth_append less_Suc_eq)
  next
    case False
    then show ?thesis using snoc.prems by (auto simp: lastSubstantiveIndex_def nth_append)
  qed
qed (simp add: lastSubstantiveIndex_def)

text \<open>The last entry that is not a system message, of a list or of what comes before an index.\<close>

definition last_real :: "message list \<Rightarrow> nat \<Rightarrow> nat \<Rightarrow> bool" where
  "last_real es n i \<longleftrightarrow> i < n \<and> i < length es \<and> \<not> isNoiseEntry (es ! i) \<and> (\<forall>j. i < j \<longrightarrow> j < n \<longrightarrow> j < length es \<longrightarrow> isNoiseEntry (es ! j))"

lemma last_real_unique: "last_real es n i \<Longrightarrow> last_real es n j \<Longrightarrow> i = j"
  unfolding last_real_def by (metis linorder_neqE_nat)

lemma lastSubstantive_iff: "lastSubstantiveIndex (take n es) = Some i \<longleftrightarrow> last_real es n i"
proof
  assume "lastSubstantiveIndex (take n es) = Some i"
  from lastSubstantive_some [OF this] show "last_real es n i" by (auto simp: last_real_def)
next
  assume r: "last_real es n i"
  have "lastSubstantiveIndex (take n es) \<noteq> None"
  proof
    assume "lastSubstantiveIndex (take n es) = None"
    then have "\<forall>j < length (take n es). isNoiseEntry (take n es ! j)"
      unfolding lastSubstantiveIndex_def find_None_iff by auto
    then show False using r by (auto simp: last_real_def)
  qed
  then obtain k where k: "lastSubstantiveIndex (take n es) = Some k" by blast
  from lastSubstantive_some [OF k] have "last_real es n k" by (auto simp: last_real_def)
  with r k show "lastSubstantiveIndex (take n es) = Some i" using last_real_unique by blast
qed

lemma text_kind_iff:
  "text_kind_of s = TeammateText \<longleftrightarrow> teammateMarkerRE s"
  "text_kind_of s = NotifText \<longleftrightarrow> \<not> teammateMarkerRE s \<and> (taskNotifMarkerRE s \<or> FindStringSubmatch agentMessageFromRE s \<noteq> None)"
  "text_kind_of s = PlainText \<longleftrightarrow> \<not> teammateMarkerRE s \<and> \<not> taskNotifMarkerRE s \<and> FindStringSubmatch agentMessageFromRE s = None
     \<and> \<not> hasSystemMarker s \<and> trim_space s \<noteq> []"
  by (auto simp: text_kind_of_def)

lemma and_if_cong:
  "X = X' \<Longrightarrow> R = R' \<Longrightarrow> A = A' \<Longrightarrow> (X \<Longrightarrow> P = P') \<Longrightarrow> (X \<and> (if R then A else P)) = (X' \<and> (if R' then A' else P'))"
  by auto

text \<open>
  C32: exactly when a wake is called human. classifyWake answers human if and only if the last entry
  that is not a system message has no text with a teammate marker, a task notification or an agent
  message, and: when it holds a tool result, the last entry before it that is not a system message
  calls a tool that asks a person (the code asks whether that entry calls one, not whether the result
  answers that call); when it holds no tool result, it has a non-blank text without any marker of the
  client.
\<close>
theorem human_wake_genuine:
  "classifyWake entries = WakeHuman \<longleftrightarrow>
     (\<exists>i. last_real entries (length entries) i
        \<and> (\<forall>b \<in> set (blocksOf (entries ! i)). wb_kind b = kindText \<longrightarrow>
             \<not> teammateMarkerRE (wb_text b) \<and> \<not> taskNotifMarkerRE (wb_text b) \<and> FindStringSubmatch agentMessageFromRE (wb_text b) = None)
        \<and> (if \<exists>b \<in> set (blocksOf (entries ! i)). wb_kind b = kindToolResult
           then \<exists>p. last_real entries i p
                  \<and> (\<exists>b \<in> set (blocksOf (entries ! p)). wb_kind b = kindToolUse \<and> wb_toolName b \<in> {''AskUserQuestion'', ''ExitPlanMode''})
           else \<exists>b \<in> set (blocksOf (entries ! i)). wb_kind b = kindText \<and> trim_space (wb_text b) \<noteq> [] \<and> \<not> hasSystemMarker (wb_text b)))"
proof (cases "lastSubstantiveIndex entries")
  case None
  then have "\<not> last_real entries (length entries) i" for i using lastSubstantive_iff [of "length entries" entries i] by simp
  with None show ?thesis by (simp add: classifyWake_def wake_defs)
next
  case (Some i)
  then have r: "last_real entries (length entries) i" using lastSubstantive_iff [of "length entries" entries i] by simp
  have one: "(\<exists>j. last_real entries (length entries) j \<and> Q j) \<longleftrightarrow> Q i" for Q using r last_real_unique by metis
  let ?bs = "blocksOf (entries ! i)"
  let ?has = "\<lambda>k. list_ex (\<lambda>b. wb_kind b = kindText \<and> text_kind_of (wb_text b) = k) ?bs"
  have ask: "(case lastSubstantiveIndex (take i entries) of None \<Rightarrow> False | Some p \<Rightarrow> asked_human (entries ! p))
      \<longleftrightarrow> (\<exists>p. last_real entries i p
             \<and> (\<exists>b \<in> set (blocksOf (entries ! p)). wb_kind b = kindToolUse \<and> wb_toolName b \<in> {''AskUserQuestion'', ''ExitPlanMode''}))"
    unfolding lastSubstantive_iff [symmetric]
    by (simp add: asked_human_def list_ex_iff askHumanTools_def split: option.split)
  have quiet: "(\<not> ?has TeammateText \<and> \<not> ?has NotifText) \<longleftrightarrow>
      (\<forall>b \<in> set ?bs. wb_kind b = kindText \<longrightarrow>
         \<not> teammateMarkerRE (wb_text b) \<and> \<not> taskNotifMarkerRE (wb_text b) \<and> FindStringSubmatch agentMessageFromRE (wb_text b) = None)"
    by (auto simp: list_ex_iff text_kind_iff)
  have plain: "?has PlainText \<longleftrightarrow>
      (\<exists>b \<in> set ?bs. wb_kind b = kindText \<and> trim_space (wb_text b) \<noteq> [] \<and> \<not> hasSystemMarker (wb_text b))"
    if "\<not> ?has TeammateText \<and> \<not> ?has NotifText"
    using that [unfolded quiet] by (auto simp: list_ex_iff text_kind_iff)
  have "classifyWake entries = WakeHuman \<longleftrightarrow>
      (\<not> ?has TeammateText \<and> \<not> ?has NotifText)
      \<and> (if list_ex (\<lambda>b. wb_kind b = kindToolResult) ?bs
         then case lastSubstantiveIndex (take i entries) of None \<Rightarrow> False | Some p \<Rightarrow> asked_human (entries ! p)
         else ?has PlainText)"
    unfolding classifyWake_def Some option.case Let_def by (simp add: wake_defs)
  also have "\<dots> \<longleftrightarrow> (\<forall>b \<in> set ?bs. wb_kind b = kindText \<longrightarrow>
         \<not> teammateMarkerRE (wb_text b) \<and> \<not> taskNotifMarkerRE (wb_text b) \<and> FindStringSubmatch agentMessageFromRE (wb_text b) = None)
      \<and> (if \<exists>b \<in> set ?bs. wb_kind b = kindToolResult
         then \<exists>p. last_real entries i p
                \<and> (\<exists>b \<in> set (blocksOf (entries ! p)). wb_kind b = kindToolUse \<and> wb_toolName b \<in> {''AskUserQuestion'', ''ExitPlanMode''})
         else \<exists>b \<in> set ?bs. wb_kind b = kindText \<and> trim_space (wb_text b) \<noteq> [] \<and> \<not> hasSystemMarker (wb_text b))"
    by (rule and_if_cong [OF quiet list_ex_iff ask plain])
  finally show ?thesis unfolding one .
qed

theorem human_wake_genuine_witness:
  "classifyWake [sample_started, sample_notice\<lparr>content := Some \<lparr>contentStr = Some ''go on'', contentBlocks = None\<rparr>\<rparr>] = WakeHuman"
proof -
  let ?es = "[sample_started, sample_notice\<lparr>content := Some \<lparr>contentStr = Some ''go on'', contentBlocks = None\<rparr>\<rparr>]"
  have b: "blocksOf (?es ! 1) = [wait_text_block ''go on'']" by code_simp
  have r: "last_real ?es (length ?es) 1"
    by (simp add: last_real_def isNoiseEntry_def sample_notice_def sample_started_def RoleSystem_def RoleUser_def)
  have q: "\<not> teammateMarkerRE ''go on''" "\<not> taskNotifMarkerRE ''go on''" "FindStringSubmatch agentMessageFromRE ''go on'' = None"
    "trim_space ''go on'' \<noteq> []" "\<not> hasSystemMarker ''go on''" by code_simp+
  show ?thesis
    unfolding human_wake_genuine by (rule exI [of _ 1], intro conjI r) (unfold b, simp_all add: wait_text_block_def q)
qed

section \<open>The counts the keeper plans with\<close>

lemma anon_frame [simp]: "openBackground (fold removeFromAnonOrder ks ts) = openBackground ts"
    "openTeammates (fold removeFromAnonOrder ks ts) = openTeammates ts"
  by (induction ks arbitrary: ts) (simp_all add: removeFromAnonOrder_def)

text \<open>The counts of a thread as they are at an instant.\<close>

definition counts_at :: "instant \<Rightarrow> waitThread \<Rightarrow> int \<times> int" where
  "counts_at now ts =
     (int (length (filter (\<lambda>(_, b). bg_expiry b > now) (openBackground ts))),
      int (length (filter (\<lambda>(_, t). \<not> now - t \<ge> teammateWaitCap) (openTeammates ts))))"

lemma counted:
  assumes "countBackgroundLocked now ts = ((bg, ms), s1)" "countTeammatesLocked now s1 = (tm, s2)"
  shows "(bg, tm) = counts_at now ts" "counts_at now s2 = counts_at now ts"
    "now \<le> now' \<Longrightarrow> fst (counts_at now' s2) \<le> bg \<and> snd (counts_at now' s2) \<le> tm"
proof -
  have s1: "openBackground s1 = filter (\<lambda>(_, b). bg_expiry b > now) (openBackground ts)" "openTeammates s1 = openTeammates ts"
    and s2: "openBackground s2 = openBackground s1" "openTeammates s2 = filter (\<lambda>(_, t). \<not> now - t \<ge> teammateWaitCap) (openTeammates s1)"
    using assms by (auto simp: countBackgroundLocked_def countTeammatesLocked_def Let_def)
  show c: "(bg, tm) = counts_at now ts" using assms s1 by (auto simp: counts_at_def countBackgroundLocked_def countTeammatesLocked_def Let_def)
  show "counts_at now s2 = counts_at now ts" by (simp add: counts_at_def s1 s2 case_prod_unfold)
  show "fst (counts_at now' s2) \<le> bg \<and> snd (counts_at now' s2) \<le> tm"
    using c by (simp add: counts_at_def s1 s2 del: filter_filter)
qed

lemma OpenCounts_at: "fst (OpenCounts now key t) = (case map_of (wt_threads t) key of None \<Rightarrow> (0, 0) | Some ts \<Rightarrow> counts_at now ts)"
proof (cases "map_of (wt_threads t) key")
  case (Some ts)
  obtain bg ms s1 where c: "countBackgroundLocked now ts = ((bg, ms), s1)" by (metis surj_pair)
  obtain tm s2 where d: "countTeammatesLocked now s1 = (tm, s2)" by (cases "countTeammatesLocked now s1")
  show ?thesis using Some c d counted(1) [OF c d] by (simp add: OpenCounts_def)
qed (simp add: OpenCounts_def)

text \<open>
  The keeper plans for the work the request showed. After a request was observed, the counts the
  keeper reads at that instant are the ones of the observation and later never more; a response that
  then ends its turn without calling a tool is planned as waiting for background work when some is
  open, else for a teammate when one is asked, else for a person.
\<close>
theorem plan_follows_observation:
  assumes "observe arg pick now (wait_Key (kTenant K) (kSession K) (kThread K)) [] entries t = (obs, t')" "entries \<noteq> []"
    "H' = H\<lparr>h_openTasks := (\<lambda>tenant session th. fst (OpenCounts now (wait_Key tenant session th) t'))\<rparr>"
    "\<not> toolStop stopReason"
  shows "WaitingFor H' K [] incomplete stopReason True =
           (if OpenBackground obs > 0 then WaitingBackground else if OpenTeammate obs > 0 then WaitingTeammate else WaitingHuman)
    \<and> (\<forall>now' \<ge> now. case fst (OpenCounts now' (wait_Key (kTenant K) (kSession K) (kThread K)) t') of
                       (bg, tm) \<Rightarrow> bg \<le> OpenBackground obs \<and> tm \<le> OpenTeammate obs)"
proof -
  let ?k = "wait_Key (kTenant K) (kSession K) (kThread K)"
  obtain ts t1 where l: "threadLocked ?k now t = (ts, t1)" by (cases "threadLocked ?k now t")
  let ?s = "scanOpenState arg pick entries now (ts\<lparr>wt_last := now\<rparr>)"
  obtain bg ms s1 where c: "countBackgroundLocked now ?s = ((bg, ms), s1)" by (metis surj_pair)
  obtain tm s2 where d: "countTeammatesLocked now s1 = (tm, s2)" by (cases "countTeammatesLocked now s1")
  have o: "OpenBackground obs = bg" "OpenTeammate obs = tm" "map_of (wt_threads t') ?k = Some s2"
    using assms(1,2) l c d by (auto simp: observe_def Let_def set_thread_def AList.update_conv')
  have "fst (OpenCounts now ?k t') = (bg, tm)" using counted(1,2) [OF c d] o(3) by (simp add: OpenCounts_at)
  then have "WaitingFor H' K [] incomplete stopReason True =
      (if bg > 0 then WaitingBackground else if tm > 0 then WaitingTeammate else WaitingHuman)"
    using assms(4) by (simp add: assms(3) WaitingFor_def ClassifyWaitingForTerminal_def toolStopWait_def Let_def)
  moreover have "case fst (OpenCounts now' ?k t') of (b, m) \<Rightarrow> b \<le> bg \<and> m \<le> tm" if "now \<le> now'" for now'
    using counted(3) [OF c d that] o(3) by (simp add: OpenCounts_at case_prod_unfold)
  ultimately show ?thesis using o by simp
qed

theorem plan_follows_observation_witness:
  "\<exists>t'. WaitingFor (sample_host\<lparr>h_openTasks := (\<lambda>tenant session th. fst (OpenCounts 1 (wait_Key tenant session th) t'))\<rparr>)
          (r_Key (sample_record ''t'' sample_auto)) [] False ''end_turn'' True = WaitingBackground"
proof -
  let ?K = "r_Key (sample_record ''t'' sample_auto)"
  obtain obs t' where o: "observe no_args first_pick 1 (wait_Key (kTenant ?K) (kSession ?K) (kThread ?K)) [] [sample_started] newTracker = (obs, t')"
    by (metis surj_pair)
  have "OpenBackground (fst (observe no_args first_pick 1 (wait_Key (kTenant ?K) (kSession ?K) (kThread ?K)) [] [sample_started] newTracker)) = 1"
    by code_simp
  moreover have "\<not> toolStop ''end_turn''" by code_simp
  ultimately show ?thesis using plan_follows_observation [OF o _ refl] o by fastforce
qed

section \<open>Finished waits that are counted again\<close>

text \<open>The counts of the same transcript, sent at several instants to a new tracker.\<close>

fun counts_seen ::
  "(string \<Rightarrow> string \<Rightarrow> string) \<Rightarrow> picker \<Rightarrow> string \<Rightarrow> message list \<Rightarrow> instant list \<Rightarrow> waitTracker \<Rightarrow> (int \<times> int) list" where
  "counts_seen arg pick key body [] t = []"
| "counts_seen arg pick key body (now # ns) t =
     (let (obs, t) = observe arg pick now key [] body t in
      (OpenBackground obs, OpenTeammate obs) # counts_seen arg pick key body ns t)"

definition thread_counts :: "picker \<Rightarrow> signal list \<Rightarrow> instant \<Rightarrow> waitThread \<Rightarrow> (int \<times> int) \<times> waitThread" where
  "thread_counts pick ss now ts =
     (let ((bg, _), s1) = countBackgroundLocked now (fold (act pick now) ss (ts\<lparr>wt_last := now\<rparr>));
          (tm, s2) = countTeammatesLocked now s1
      in ((bg, tm), s2))"

lemma counts_seen_Cons:
  assumes "body \<noteq> []" "threadLocked key now t = (ts, \<lparr>wt_threads = [(key, ts')]\<rparr>)"
  shows "counts_seen arg pick key body (now # ns) t =
    (case thread_counts pick (body_signals arg body) now ts of
       (c, s) \<Rightarrow> c # counts_seen arg pick key body ns \<lparr>wt_threads = [(key, s)]\<rparr>)"
proof -
  obtain bg ms s1 where c: "countBackgroundLocked now (fold (act pick now) (body_signals arg body) (ts\<lparr>wt_last := now\<rparr>)) = ((bg, ms), s1)"
    by (metis surj_pair)
  obtain tm s2 where d: "countTeammatesLocked now s1 = (tm, s2)" by (cases "countTeammatesLocked now s1")
  show ?thesis using assms c d by (simp add: observe_def Let_def set_thread_def thread_counts_def scanOpenState_def)
qed

declare counts_seen.simps(2) [simp del]

lemma lock_new: "threadLocked key now newTracker = (newThreadState, \<lparr>wt_threads = [(key, newThreadState)]\<rparr>)"
  by (simp add: threadLocked_def newTracker_def waitMaxThreads_def)

lemma lock_known: "threadLocked key now \<lparr>wt_threads = [(key, ts)]\<rparr> = (ts, \<lparr>wt_threads = [(key, ts)]\<rparr>)"
  by (simp add: threadLocked_def)

lemmas seen_run = counts_seen_Cons [OF _ lock_new] counts_seen_Cons [OF _ lock_known]

lemmas round_defs = thread_counts_def newThreadState_def countBackgroundLocked_def countTeammatesLocked_def bg_expiry_def
  removeFromAnonOrder_def maxTrackedKeys_def Let_def

text \<open>One round of a body that starts one task without an expiry, and of one that asks one teammate.\<close>

lemma task_opened:
  "thread_counts pick [Opens i 0] now (newThreadState\<lparr>wt_last := t\<rparr>)
   = ((1, 0), newThreadState\<lparr>openBackground := [(i, \<lparr>bg_dur = 0, bg_firstSeen = now\<rparr>)], wt_last := now\<rparr>)"
  by (simp add: round_defs openBG_def noExpiryCap_def teammateWaitCap_def minute_def second_def)

lemma task_expired:
  "t + noExpiryCap \<le> now \<Longrightarrow>
   thread_counts pick [Opens i 0] now
     (newThreadState\<lparr>openBackground := [(i, \<lparr>bg_dur = 0, bg_firstSeen = t\<rparr>)], wt_last := t\<rparr>)
   = ((0, 0), newThreadState\<lparr>wt_last := now\<rparr>)"
  by (simp add: round_defs openBG_def)

lemma teammate_asked:
  "thread_counts pick [Asks to] now (newThreadState\<lparr>wt_last := t\<rparr>)
   = ((0, 1), newThreadState\<lparr>openTeammates := [(to, now)], wt_last := now\<rparr>)"
  by (simp add: round_defs askTeammate_def teammateWaitCap_def minute_def second_def)

lemma teammate_expired:
  "t + teammateWaitCap \<le> now \<Longrightarrow>
   thread_counts pick [Asks to] now (newThreadState\<lparr>openTeammates := [(to, t)], wt_last := t\<rparr>)
   = ((0, 0), newThreadState\<lparr>wt_last := now\<rparr>)"
  by (simp add: round_defs askTeammate_def)

lemma new_last: "newThreadState = newThreadState\<lparr>wt_last := 0\<rparr>"
  by (simp add: newThreadState_def)

lemma skill_closed:
  "thread_counts pick [OpensAnon i, ClosesAnon sig] now newThreadState = ((0, 0), newThreadState\<lparr>appliedCloses := [sig], wt_last := now\<rparr>)"
  by (simp add: thread_counts_def newThreadState_def openAnon_def openBG_def closeOldestAnon_def rememberApplied_def
      maxTrackedKeys_def countBackgroundLocked_def countTeammatesLocked_def Let_def)

lemma skill_reopened:
  "fst (thread_counts pick [OpensAnon i, ClosesAnon sig] now (newThreadState\<lparr>appliedCloses := [sig], wt_last := t\<rparr>)) = (1, 0)"
  by (simp add: thread_counts_def newThreadState_def openAnon_def openBG_def closeOldestAnon_def bg_expiry_def noExpiryCap_def
      teammateWaitCap_def minute_def second_def maxTrackedKeys_def countBackgroundLocked_def countTeammatesLocked_def Let_def)

text \<open>
  C33: a finished wait can come back. The transcript is resent with every request, and the tracker
  remembers which closes it applied but not which starts. A Skill task that was started and closed is
  counted open again from the next request on. A task without a stated expiry, and an unanswered
  message to a teammate, that the cap gave up are counted open again by the request after.
\<close>
theorem finished_waits_reopen:
  assumes "body \<noteq> []"
  shows "(body_signals arg body = [OpensAnon i, ClosesAnon sig] \<longrightarrow>
            map fst (counts_seen arg pick key body [t1, t2] newTracker) = [0, 1])
    \<and> (body_signals arg body = [Opens i 0] \<and> t1 + noExpiryCap \<le> t2 \<longrightarrow>
            map fst (counts_seen arg pick key body [t1, t2, t3] newTracker) = [1, 0, 1])
    \<and> (body_signals arg body = [Asks to] \<and> t1 + teammateWaitCap \<le> t2 \<longrightarrow>
            map snd (counts_seen arg pick key body [t1, t2, t3] newTracker) = [1, 0, 1])"
proof (intro conjI impI)
  show "map fst (counts_seen arg pick key body [t1, t2] newTracker) = [0, 1]"
    if "body_signals arg body = [OpensAnon i, ClosesAnon sig]"
    using assms skill_reopened [of pick i sig t2 t1] by (simp add: that seen_run skill_closed case_prod_unfold)
  show "map fst (counts_seen arg pick key body [t1, t2, t3] newTracker) = [1, 0, 1]"
    if h: "body_signals arg body = [Opens i 0] \<and> t1 + noExpiryCap \<le> t2"
    using assms h task_opened [of pick i t1 0] by (simp add: seen_run task_opened task_expired flip: new_last)
  show "map snd (counts_seen arg pick key body [t1, t2, t3] newTracker) = [1, 0, 1]"
    if h: "body_signals arg body = [Asks to] \<and> t1 + teammateWaitCap \<le> t2"
    using assms h teammate_asked [of pick to t1 0] by (simp add: seen_run teammate_asked teammate_expired flip: new_last)
qed

theorem finished_waits_reopen_witness:
  "map fst (counts_seen no_args first_pick ''k'' [sample_started] [1, 1 + noExpiryCap, 2 + noExpiryCap] newTracker) = [1, 0, 1]"
proof -
  have s: "body_signals no_args [sample_started] = [Opens ''b1'' 0]" by code_simp
  show ?thesis using finished_waits_reopen [of "[sample_started]" no_args _ _ first_pick "''k''" 1 "1 + noExpiryCap" "2 + noExpiryCap" "''b1''"] s by simp
qed

end
