(* ===== verification/Tenant_LRU.thy ===== *)
theory Tenant_LRU
  imports Go_Prelude "HOL-Library.AList"
begin

text \<open>
  The bounded map of \<open>src/proxy/tenancy.go\<close> (type \<open>lru\<close>) that the tenancy cache and the rate windows
  share. The list is \<open>lru_list\<close> with the front first; \<open>index\<close> finds the element of a key, which is what
  looking the key up in the list does while its keys are distinct. \<open>onEvict\<close> is the second result of
  \<open>lru_put\<close>: the entries it was called with. The contract a client relies on is the locale
  \<open>bounded_cache\<close>.
\<close>

record 'v lru =
  lru_max :: int
  lru_list :: "(string \<times> 'v) list"
  keep_hook :: "('v \<Rightarrow> bool) option"

definition newLRU :: "int \<Rightarrow> 'v lru" where
  "newLRU bnd = \<lparr>lru_max = (if bnd \<le> 0 then 1 else bnd), lru_list = [], keep_hook = None\<rparr>"

definition lru_get :: "string \<Rightarrow> 'v lru \<Rightarrow> 'v option \<times> 'v lru" where
  "lru_get k c =
     (case map_of (lru_list c) k of
        None \<Rightarrow> (None, c)
      | Some v \<Rightarrow> (Some v, c\<lparr>lru_list := (k, v) # AList.delete k (lru_list c)\<rparr>))"

text \<open>The walk of \<open>victim\<close> goes from the back and stops before the front.\<close>

definition victim :: "'v lru \<Rightarrow> string \<times> 'v" where
  "victim c =
     (case keep_hook c of
        None \<Rightarrow> last (lru_list c)
      | Some kept \<Rightarrow>
          (case find (\<lambda>(k, v). \<not> kept v) (rev (tl (lru_list c))) of
             Some e \<Rightarrow> e
           | None \<Rightarrow> last (lru_list c)))"

lemma victim_in: "lru_list c \<noteq> [] \<Longrightarrow> victim c \<in> set (lru_list c)"
  by (cases "lru_list c") (auto simp: victim_def split: option.splits dest!: find_Some_set)

function evict_over :: "'v lru \<Rightarrow> (string \<times> 'v) list \<Rightarrow> 'v lru \<times> (string \<times> 'v) list" where
  "evict_over c gone =
     (if int (length (lru_list c)) > lru_max c \<and> lru_list c \<noteq> []
      then let e = victim c in evict_over (c\<lparr>lru_list := AList.delete (fst e) (lru_list c)\<rparr>) (gone @ [e])
      else (c, gone))"
  by pat_completeness auto
termination
proof (relation "measure (\<lambda>(c, gone). length (lru_list c))")
  fix c :: "'v lru" and gone e
  assume "int (length (lru_list c)) > lru_max c \<and> lru_list c \<noteq> []" "e = victim c"
  then have "e \<in> set (lru_list c)" using victim_in by blast
  then have "length (filter (\<lambda>(k', _). fst e \<noteq> k') (lru_list c)) < length (lru_list c)"
    by (intro length_filter_less [of e]) auto
  then show "((c\<lparr>lru_list := AList.delete (fst e) (lru_list c)\<rparr>, gone @ [e]), c, gone) \<in> measure (\<lambda>(c, gone). length (lru_list c))"
    by (simp add: AList.delete_eq case_prod_beta)
qed simp

declare evict_over.simps [simp del]

definition lru_put :: "string \<Rightarrow> 'v \<Rightarrow> 'v lru \<Rightarrow> 'v lru \<times> (string \<times> 'v) list" where
  "lru_put k v c =
     (if map_of (lru_list c) k \<noteq> None then (c\<lparr>lru_list := (k, v) # AList.delete k (lru_list c)\<rparr>, [])
      else evict_over (c\<lparr>lru_list := (k, v) # lru_list c\<rparr>) [])"

definition lru_remove :: "string \<Rightarrow> 'v lru \<Rightarrow> 'v lru" where
  "lru_remove k c = c\<lparr>lru_list := AList.delete k (lru_list c)\<rparr>"

text \<open>The entries in the order \<open>each\<close> visits them.\<close>

definition lru_each :: "'v lru \<Rightarrow> (string \<times> 'v) list" where
  "lru_each c = lru_list c"

section \<open>What the map keeps\<close>

definition lru_ok :: "'v lru \<Rightarrow> bool" where
  "lru_ok c \<longleftrightarrow> distinct (map fst (lru_list c)) \<and> 1 \<le> lru_max c \<and> int (length (lru_list c)) \<le> lru_max c"

definition lru_look :: "'v lru \<Rightarrow> string \<rightharpoonup> 'v" where
  "lru_look c = map_of (lru_list c)"

lemma lru_ok_new [simp]: "lru_ok (newLRU bnd)" and lru_look_new [simp]: "lru_look (newLRU bnd) = Map.empty"
  by (simp_all add: lru_ok_def lru_look_def newLRU_def)

lemma length_delete_le: "length (AList.delete k xs) \<le> length xs"
  by (simp add: AList.delete_eq)

lemma map_of_front: "(map_of ((k, v) # AList.delete k xs)) = (map_of xs)(k \<mapsto> v)"
  by (auto simp: AList.delete_conv' fun_eq_iff)

lemma distinct_delete: "distinct (map fst xs) \<Longrightarrow> distinct (map fst (AList.delete k xs))"
  by (rule AList.distinct_delete)

lemma move_front_ok:
  assumes "distinct (map fst xs)" "map_of xs k \<noteq> None"
  shows "distinct (map fst ((k, v) # AList.delete k xs)) \<and> length ((k, v) # AList.delete k xs) \<le> length xs"
proof -
  obtain u where u: "(k, u) \<in> set xs" using assms(2) by (auto dest: map_of_SomeD)
  then have "length (filter (\<lambda>(k', _). k \<noteq> k') xs) < length xs" by (intro length_filter_less [of "(k, u)"]) auto
  moreover have "k \<notin> fst ` set (AList.delete k xs)" by (auto simp: AList.delete_eq)
  ultimately show ?thesis using AList.distinct_delete [OF assms(1), of k] by (simp add: AList.delete_eq case_prod_beta)
qed

lemma lru_get_value: "fst (lru_get k c) = lru_look c k"
  by (simp add: lru_get_def lru_look_def split: option.splits)

lemma lru_get_look: "lru_look (snd (lru_get k c)) = lru_look c"
  by (auto simp: lru_get_def lru_look_def AList.delete_conv' fun_eq_iff split: option.splits)

lemma lru_get_ok: "lru_ok c \<Longrightarrow> lru_ok (snd (lru_get k c))"
  using move_front_ok [of "lru_list c" k]
  by (fastforce simp: lru_get_def lru_ok_def split: option.splits)

text \<open>At most one entry is over the bound, and it is the victim.\<close>

lemma evict_one:
  assumes d: "distinct (map fst (lru_list c))" and m: "1 \<le> lru_max c" and n: "int (length (lru_list c)) = lru_max c + 1"
  shows "evict_over c gone = (c\<lparr>lru_list := AList.delete (fst (victim c)) (lru_list c)\<rparr>, gone @ [victim c])"
proof -
  have ne: "lru_list c \<noteq> []" using m n by auto
  let ?e = "victim c" and ?c = "c\<lparr>lru_list := AList.delete (fst (victim c)) (lru_list c)\<rparr>"
  have "?e \<in> set (lru_list c)" by (rule victim_in [OF ne])
  then have "map_of (lru_list c) (fst ?e) \<noteq> None" by (metis d map_of_eq_Some_iff option.discI prod.collapse)
  from move_front_ok [OF d this, of "snd ?e"] have "length (lru_list ?c) < length (lru_list c)" by auto
  then have "\<not> int (length (lru_list ?c)) > lru_max ?c" using n by simp
  then have "evict_over ?c (gone @ [?e]) = (?c, gone @ [?e])" by (subst evict_over.simps) simp
  then show ?thesis using n ne by (subst evict_over.simps) (simp add: Let_def)
qed

lemma evict_none: "int (length (lru_list c)) \<le> lru_max c \<Longrightarrow> evict_over c gone = (c, gone)"
  by (subst evict_over.simps) simp

text \<open>The three cases of \<open>put\<close>: the key is there, there is room, one entry goes.\<close>

lemma lru_put_known:
  "lru_look c k \<noteq> None \<Longrightarrow> lru_put k v c = (c\<lparr>lru_list := (k, v) # AList.delete k (lru_list c)\<rparr>, [])"
  by (simp add: lru_put_def lru_look_def)

lemma lru_put_room:
  "lru_look c k = None \<Longrightarrow> int (length (lru_list c)) < lru_max c \<Longrightarrow> lru_put k v c = (c\<lparr>lru_list := (k, v) # lru_list c\<rparr>, [])"
  by (simp add: lru_put_def lru_look_def evict_none)

lemma lru_put_full:
  assumes "lru_ok c" "lru_look c k = None" "int (length (lru_list c)) = lru_max c"
  shows "lru_put k v c = (c\<lparr>lru_list := AList.delete (fst (victim (c\<lparr>lru_list := (k, v) # lru_list c\<rparr>))) ((k, v) # lru_list c)\<rparr>,
                          [victim (c\<lparr>lru_list := (k, v) # lru_list c\<rparr>)])"
proof -
  have "k \<notin> fst ` set (lru_list c)" using assms(2) by (simp add: lru_look_def map_of_eq_None_iff)
  then show ?thesis using assms evict_one [of "c\<lparr>lru_list := (k, v) # lru_list c\<rparr>" "[]"]
    by (simp add: lru_put_def lru_look_def lru_ok_def)
qed

text \<open>The entry just inserted is never the victim.\<close>

lemma victim_not_front:
  assumes "lru_ok c" "lru_look c k = None" "int (length (lru_list c)) = lru_max c"
  shows "victim (c\<lparr>lru_list := (k, v) # lru_list c\<rparr>) \<in> set (lru_list c)" "fst (victim (c\<lparr>lru_list := (k, v) # lru_list c\<rparr>)) \<noteq> k"
proof -
  have ne: "lru_list c \<noteq> []" using assms(1,3) by (auto simp: lru_ok_def)
  then show v: "victim (c\<lparr>lru_list := (k, v) # lru_list c\<rparr>) \<in> set (lru_list c)"
    by (auto simp: victim_def split: option.splits dest!: find_Some_set)
  have "k \<notin> fst ` set (lru_list c)" using assms(2) by (simp add: lru_look_def map_of_eq_None_iff)
  then show "fst (victim (c\<lparr>lru_list := (k, v) # lru_list c\<rparr>)) \<noteq> k" using v by force
qed

lemma lru_cases:
  assumes "lru_ok c"
  obtains "lru_look c k \<noteq> None"
    | "lru_look c k = None" "int (length (lru_list c)) < lru_max c"
    | "lru_look c k = None" "int (length (lru_list c)) = lru_max c"
  using assms by (force simp: lru_ok_def)

lemma lru_put_ok:
  assumes ok: "lru_ok c"
  shows "lru_ok (fst (lru_put k v c))"
proof (cases rule: lru_cases [OF ok, of k])
  case 1
  then show ?thesis using ok move_front_ok [of "lru_list c" k v] by (auto simp: lru_put_known lru_ok_def lru_look_def)
next
  case 2
  then show ?thesis using ok by (simp add: lru_put_room lru_ok_def lru_look_def map_of_eq_None_iff)
next
  case 3
  let ?c = "c\<lparr>lru_list := (k, v) # lru_list c\<rparr>"
  have d: "distinct (map fst (lru_list ?c))" using ok 3 by (simp add: lru_ok_def lru_look_def map_of_eq_None_iff)
  have "victim ?c \<in> set (lru_list ?c)" by (rule victim_in) simp
  then have "map_of (lru_list ?c) (fst (victim ?c)) \<noteq> None" by (metis d map_of_eq_Some_iff option.discI prod.collapse)
  from move_front_ok [OF d this] show ?thesis
    using ok 3(2) d by (auto simp: lru_put_full [OF ok 3] lru_ok_def intro: AList.distinct_delete)
qed

lemma lru_put_same: "lru_ok c \<Longrightarrow> lru_look (fst (lru_put k v c)) k = Some v"
proof -
  assume ok: "lru_ok c"
  show ?thesis
  proof (cases rule: lru_cases [OF ok, of k])
    case 3
    show ?thesis using victim_not_front(2) [OF ok 3, of v]
      by (simp add: lru_put_full [OF ok 3] lru_look_def AList.delete_conv')
  qed (simp_all add: lru_put_known lru_put_room, simp_all add: lru_look_def)
qed

lemma lru_put_other:
  assumes ok: "lru_ok c" and "j \<noteq> k"
  shows "lru_look (fst (lru_put k v c)) j = lru_look c j \<or> lru_look (fst (lru_put k v c)) j = None"
proof (cases rule: lru_cases [OF ok, of k])
  case 3
  then show ?thesis using \<open>j \<noteq> k\<close> by (simp add: lru_put_full [OF ok 3]) (simp add: lru_look_def AList.delete_conv')
qed (use \<open>j \<noteq> k\<close> in \<open>simp_all add: lru_put_known lru_put_room\<close>,
     use \<open>j \<noteq> k\<close> in \<open>simp_all add: lru_look_def AList.delete_conv'\<close>)

lemma evict_over_hook: "keep_hook (fst (evict_over c gone)) = keep_hook c"
  by (induction c gone rule: evict_over.induct) (subst evict_over.simps, simp add: Let_def)

lemma lru_hooks [simp]:
  "keep_hook (fst (lru_put k v c)) = keep_hook c"
  "keep_hook (snd (lru_get k c)) = keep_hook c"
  by (simp_all add: lru_put_def evict_over_hook lru_get_def split: option.splits)

text \<open>The keys are counted by the domain of the lookup.\<close>

lemma card_look: "lru_ok c \<Longrightarrow> card (dom (lru_look c)) = length (lru_list c)"
  by (metis dom_map_of_conv_image_fst distinct_card length_map list.set_map lru_look_def lru_ok_def)

lemma lru_put_spare:
  assumes ok: "lru_ok c" and n: "int (card (insert k (dom (lru_look c)))) \<le> lru_max c"
  shows "lru_look (fst (lru_put k v c)) = (lru_look c)(k \<mapsto> v)"
proof (cases "lru_look c k = None")
  case True
  then have "card (insert k (dom (lru_look c))) = Suc (length (lru_list c))"
    by (simp add: card_look [OF ok, symmetric] domIff finite_dom_map_of lru_look_def)
  with n True show ?thesis by (subst lru_put_room) (auto simp: lru_look_def)
next
  case False
  then show ?thesis by (simp add: lru_put_known) (auto simp: lru_look_def AList.delete_conv')
qed

section \<open>The contract\<close>

locale bounded_cache =
  fixes look :: "'c \<Rightarrow> string \<rightharpoonup> 'v"
    and get :: "string \<Rightarrow> 'c \<Rightarrow> 'v option \<times> 'c"
    and put :: "string \<Rightarrow> 'v \<Rightarrow> 'c \<Rightarrow> 'c \<times> (string \<times> 'v) list"
    and ok :: "'c \<Rightarrow> bool"
    and bound :: "'c \<Rightarrow> int"
  assumes get_value: "fst (get k c) = look c k"
    and get_look: "look (snd (get k c)) = look c"
    and get_ok: "ok c \<Longrightarrow> ok (snd (get k c))"
    and get_bound: "bound (snd (get k c)) = bound c"
    and put_same: "ok c \<Longrightarrow> look (fst (put k v c)) k = Some v"
    and put_other: "ok c \<Longrightarrow> j \<noteq> k \<Longrightarrow> look (fst (put k v c)) j = look c j \<or> look (fst (put k v c)) j = None"
    and put_spare: "ok c \<Longrightarrow> int (card (insert k (dom (look c)))) \<le> bound c \<Longrightarrow> look (fst (put k v c)) = (look c)(k \<mapsto> v)"
    and put_ok: "ok c \<Longrightarrow> ok (fst (put k v c))"
    and put_bound: "bound (fst (put k v c)) = bound c"
begin

text \<open>A client fetches a value or inserts a new one, and from then on finds it.\<close>

lemma get_miss: "get k c = (None, c') \<Longrightarrow> look c k = None \<and> look c' = look c"
  using get_value [of k c] get_look [of k c] by simp

lemma get_hit: "get k c = (Some v, c') \<Longrightarrow> look c k = Some v \<and> look c' = look c"
  using get_value [of k c] get_look [of k c] by simp

lemma get_keeps: "get k c = (r, c') \<Longrightarrow> ok c \<Longrightarrow> ok c' \<and> bound c' = bound c"
  using get_ok [of c k] get_bound [of k c] by simp

lemma put_keeps: "put k v c = (c', gone) \<Longrightarrow> ok c \<Longrightarrow> ok c' \<and> bound c' = bound c \<and> look c' k = Some v"
  using put_ok [of c k v] put_bound [of k v c] put_same [of c k v] by simp

lemma put_Some:
  assumes "ok c" "look (fst (put k v c)) j = Some w"
  shows "(if j = k then w = v else look c j = Some w)"
  using assms put_same [of c k v] put_other [of c j k v] by auto

lemma put_values:
  assumes "ok c" "\<And>j w. look c j = Some w \<Longrightarrow> P w" "P v"
  shows "look (fst (put k v c)) j = Some w \<Longrightarrow> P w"
  using put_Some [OF assms(1), of k v j w] assms(2,3) by (auto split: if_splits)

end

interpretation lru: bounded_cache lru_look lru_get lru_put lru_ok lru_max
proof
  show "lru_max (snd (lru_get k c)) = lru_max c" for k and c :: "'a lru"
    by (simp add: lru_get_def split: option.splits)
  have "lru_max (fst (evict_over c g)) = lru_max c" for c :: "'a lru" and g
    by (induction c g rule: evict_over.induct) (subst evict_over.simps, simp add: Let_def)
  then show "lru_max (fst (lru_put k v c)) = lru_max c" for k v and c :: "'a lru"
    by (simp add: lru_put_def)
qed (auto simp: lru_get_value lru_get_look lru_get_ok lru_put_same lru_put_spare lru_put_ok dest: lru_put_other)

text \<open>A protected entry goes only when every entry but the new one is protected.\<close>

lemma kept_evicted_last:
  assumes ok: "lru_ok c" and k: "keep_hook c = Some kept" and put: "lru_put k v c = (c', gone)"
    and e: "e \<in> set gone" "kept (snd e)"
  shows "list_all (kept \<circ> snd) (lru_list c)"
proof (cases rule: lru_cases [OF ok, of k])
  case 3
  have g: "gone = [victim (c\<lparr>lru_list := (k, v) # lru_list c\<rparr>)]" using put lru_put_full [OF ok 3] by simp
  let ?c = "c\<lparr>lru_list := (k, v) # lru_list c\<rparr>"
  show ?thesis
  proof (cases "find (\<lambda>(k, v). \<not> kept v) (rev (lru_list c))")
    case None
    then show ?thesis by (auto simp: find_None_iff list_all_iff)
  next
    case (Some x)
    then have "victim ?c = x" "\<not> kept (snd x)" using find_Some_set [OF Some] by (auto simp: victim_def k)
    then show ?thesis using e g by simp
  qed
qed (use put e in \<open>auto simp: lru_put_known lru_put_room\<close>)

end
