(* ===== verification/Request_Limits.thy ===== *)
theory Request_Limits
  imports Complex_Main Tenant_LRU "HOL-Library.Multiset"
begin

text \<open>
  The limits of one tenant (\<open>src/proxy/limits.go\<close>): a fixed window of requests per minute and a counting
  semaphore of requests in flight, for the agent's requests (\<open>Acquire\<close>) and for the proxy's own pings
  (\<open>AcquireSpare\<close>), the process-wide semaphore of compaction calls, and the hourly window of deliberate
  acts (\<open>AllowAction\<close>).

  A \<open>tenantLimiter\<close> is shared by the calls that hold a slot of it, also after the bounded map has dropped
  it, so the limiters live in \<open>objs\<close> and the map holds their index. A channel is its capacity and the
  number of values in it. Each \<open>mu.Lock\<close> section and each channel operation is one step of \<open>call_step\<close>,
  and \<open>limit_run\<close> interleaves the steps of all calls. The reserved share is an exact rational where the
  code has a \<open>float64\<close>; an instant counts nanoseconds since Go's zero time.
\<close>

definition minute :: duration where "minute = 60 * second"
definition hour :: duration where "hour = 3600 * second"

text \<open>\<open>Time.Truncate\<close>.\<close>

definition truncate_to :: "duration \<Rightarrow> instant \<Rightarrow> instant" where
  "truncate_to d t = t - t mod d"

record Limits =
  RequestsPerMinute :: int
  Concurrent :: int
  CheapModelConcurrent :: int

record tenantLimiter =
  windowStart :: instant
  tcount :: int
  inFlight :: "(int \<times> int) option"

record hourly =
  h_windowStart :: instant
  h_count :: int

datatype refusalReason = refuseRateLimit | refuseConcurrency

record Limiter =
  lim :: Limits
  perTenant :: bool
  tenants :: "nat lru"
  objs :: "tenantLimiter list"
  cheapSem :: "(int \<times> int) option"
  actions :: "hourly lru option"
  refusals :: "(refusalReason \<times> string) list"

definition maxLimiterKeys :: int where "maxLimiterKeys = 10000"

definition newLimiter :: "Limits \<Rightarrow> bool \<Rightarrow> Limiter" where
  "newLimiter l per =
     \<lparr>lim = l, perTenant = per, tenants = newLRU maxLimiterKeys, objs = [],
      cheapSem = (if CheapModelConcurrent l > 0 then Some (CheapModelConcurrent l, 0) else None),
      actions = None, refusals = []\<rparr>"

definition NewLimiter :: "Limits \<Rightarrow> Limiter" where "NewLimiter l = newLimiter l True"
definition newAnonLimiter :: "Limits \<Rightarrow> Limiter" where "newAnonLimiter l = newLimiter l False"

definition limit_refused :: "refusalReason \<Rightarrow> string \<Rightarrow> Limiter \<Rightarrow> Limiter" where
  "limit_refused reason key l = l\<lparr>refusals := refusals l @ [(reason, if perTenant l then key else [])]\<rparr>"

definition fresh_limiter :: "instant \<Rightarrow> Limiter \<Rightarrow> tenantLimiter" where
  "fresh_limiter now l =
     \<lparr>windowStart = truncate_to minute now, tcount = 0,
      inFlight = (if Concurrent (lim l) > 0 then Some (Concurrent (lim l), 0) else None)\<rparr>"

definition forTenant :: "instant \<Rightarrow> string \<Rightarrow> Limiter \<Rightarrow> nat \<times> Limiter" where
  "forTenant now tid l =
     (case lru_get tid (tenants l) of
        (Some a, c) \<Rightarrow> (a, l\<lparr>tenants := c\<rparr>)
      | (None, c) \<Rightarrow>
          (length (objs l),
           l\<lparr>objs := objs l @ [fresh_limiter now l], tenants := fst (lru_put tid (length (objs l)) c)\<rparr>))"

section \<open>One tenant's counters\<close>

definition roll :: "instant \<Rightarrow> tenantLimiter \<Rightarrow> tenantLimiter" where
  "roll now t =
     (let w = truncate_to minute now
      in if w > windowStart t then t\<lparr>windowStart := w, tcount := 0\<rparr> else t)"

text \<open>The section of the rate window, for a bound that is the whole limit or what a ping may use of it.\<close>

definition rate_section :: "int \<Rightarrow> instant \<Rightarrow> tenantLimiter \<Rightarrow> bool \<times> tenantLimiter" where
  "rate_section bound now t =
     (let t = roll now t
      in if tcount t \<ge> bound then (False, t) else (True, t\<lparr>tcount := tcount t + 1\<rparr>))"

text \<open>The send without blocking, and the receive of \<open>release\<close>.\<close>

definition take_slot :: "tenantLimiter \<Rightarrow> tenantLimiter option" where
  "take_slot t =
     (case inFlight t of
        Some (cap, n) \<Rightarrow> if n < cap then Some (t\<lparr>inFlight := Some (cap, n + 1)\<rparr>) else None
      | None \<Rightarrow> None)"

definition give_back :: "tenantLimiter \<Rightarrow> tenantLimiter" where
  "give_back t = t\<lparr>inFlight := map_option (\<lambda>(cap, n). (cap, n - 1)) (inFlight t)\<rparr>"

definition reserved :: "int \<Rightarrow> rat \<Rightarrow> int" where
  "reserved limit fr =
     (if fr \<le> 0 then limit
      else let n = limit - \<lceil>of_int limit * fr\<rceil> in if n < 0 then 0 else n)"

definition spare_slot :: "rat \<Rightarrow> tenantLimiter \<Rightarrow> tenantLimiter option" where
  "spare_slot fr t =
     (case inFlight t of
        Some (cap, n) \<Rightarrow> if n \<ge> reserved cap fr then None else take_slot t
      | None \<Rightarrow> None)"

section \<open>Calls\<close>

text \<open>The limit hit and, for the rate, the seconds until the window ends.\<close>

datatype acquire_error = RateLimited int int | ConcurrencyLimited int | NoSpare

definition retry_in :: "instant \<Rightarrow> tenantLimiter \<Rightarrow> int" where
  "retry_in until t = go_div (windowStart t + minute - until) second + 1"

definition unlimited :: "Limiter \<Rightarrow> bool" where
  "unlimited l \<longleftrightarrow> RequestsPerMinute (lim l) \<le> 0 \<and> Concurrent (lim l) \<le> 0"

text \<open>
  \<open>Acquire\<close> of a nil or an unlimited limiter takes nothing. The result \<open>Inr (Some a)\<close> holds a slot of the
  limiter at \<open>a\<close>. The clock is read in \<open>forTenant\<close>, for the window and for the message.
\<close>

definition Acquire :: "instant \<Rightarrow> instant \<Rightarrow> string \<Rightarrow> Limiter option \<Rightarrow> (acquire_error + nat option) \<times> Limiter option" where
  "Acquire now until tid L =
     (case L of
        None \<Rightarrow> (Inr None, None)
      | Some l \<Rightarrow>
          if unlimited l then (Inr None, Some l)
          else
            (let (a, l) = forTenant now tid l;
                 limit = RequestsPerMinute (lim l);
                 (pass, t) = (if limit > 0 then rate_section limit now (objs l ! a) else (True, objs l ! a));
                 l = l\<lparr>objs := (objs l)[a := t]\<rparr>
             in if \<not> pass then (Inl (RateLimited limit (retry_in until t)), Some (limit_refused refuseRateLimit tid l))
                else if inFlight t = None then (Inr None, Some l)
                else (case take_slot t of
                        Some t \<Rightarrow> (Inr (Some a), Some (l\<lparr>objs := (objs l)[a := t]\<rparr>))
                      | None \<Rightarrow> (Inl (ConcurrencyLimited (Concurrent (lim l))), Some (limit_refused refuseConcurrency tid l)))))"

definition AcquireSpare :: "instant \<Rightarrow> string \<Rightarrow> rat \<Rightarrow> Limiter option \<Rightarrow> (acquire_error + nat option) \<times> Limiter option" where
  "AcquireSpare now tid fr L =
     (case L of
        None \<Rightarrow> (Inr None, None)
      | Some l \<Rightarrow>
          if unlimited l then (Inr None, Some l)
          else
            (let (a, l) = forTenant now tid l;
                 t = objs l ! a;
                 limit = RequestsPerMinute (lim l);
                 slot = (if inFlight t = None then Some t else spare_slot fr t)
             in case slot of
                  None \<Rightarrow> (Inl NoSpare, Some l)
                | Some t' \<Rightarrow>
                    if limit > 0
                    then (let (pass, t'') = rate_section (reserved limit fr) now t'
                          in if pass then (Inr (if inFlight t = None then None else Some a), Some (l\<lparr>objs := (objs l)[a := t'']\<rparr>))
                             else (Inl NoSpare,
                                   Some (l\<lparr>objs := (objs l)[a := (if inFlight t = None then t'' else give_back t'')]\<rparr>)))
                    else (Inr (if inFlight t = None then None else Some a), Some (l\<lparr>objs := (objs l)[a := t']\<rparr>))))"

definition Release :: "nat option \<Rightarrow> Limiter \<Rightarrow> Limiter" where
  "Release r l = (case r of None \<Rightarrow> l | Some a \<Rightarrow> l\<lparr>objs := (objs l)[a := give_back (objs l ! a)]\<rparr>)"

text \<open>
  A compaction call waits for a slot of the process or for its own deadline: \<open>None\<close> is still waiting.
  When both are ready \<open>select\<close> chooses, which is the argument \<open>pick\<close>.
\<close>

definition AcquireCheapModel :: "bool \<Rightarrow> bool \<Rightarrow> Limiter option \<Rightarrow> (bool \<times> Limiter option) option" where
  "AcquireCheapModel pick finished L =
     (case L of
        None \<Rightarrow> Some (True, None)
      | Some l \<Rightarrow>
          (case cheapSem l of
             None \<Rightarrow> Some (True, Some l)
           | Some (cap, n) \<Rightarrow>
               if n < cap \<and> (\<not> finished \<or> pick) then Some (True, Some (l\<lparr>cheapSem := Some (cap, n + 1)\<rparr>))
               else if finished then Some (False, Some l)
               else None))"

text \<open>The limit and the seconds until the hour ends are in the refusal.\<close>

definition AllowAction :: "instant \<Rightarrow> instant \<Rightarrow> string \<Rightarrow> int \<Rightarrow> Limiter option \<Rightarrow> acquire_error option \<times> Limiter option" where
  "AllowAction now until key perHour L =
     (case L of
        None \<Rightarrow> (None, None)
      | Some l \<Rightarrow>
          if perHour \<le> 0 then (None, Some l)
          else
            (let acts = (case actions l of None \<Rightarrow> newLRU maxLimiterKeys | Some c \<Rightarrow> c);
                 (found, c) = lru_get key acts;
                 h = (case found of Some h \<Rightarrow> h | None \<Rightarrow> \<lparr>h_windowStart = 0, h_count = 0\<rparr>);
                 w = truncate_to hour now;
                 h = (if w > h_windowStart h then h\<lparr>h_windowStart := w, h_count := 0\<rparr> else h);
                 over = h_count h \<ge> perHour;
                 h = (if over then h else h\<lparr>h_count := h_count h + 1\<rparr>);
                 l = l\<lparr>actions := Some (fst (lru_put key h c))\<rparr>
             in (if over then Some (RateLimited perHour (go_div (h_windowStart h + hour - until) second + 1)) else None,
                 Some l)))"

section \<open>Interleaved calls\<close>

text \<open>
  Where a call stands between two steps: before the rate window, before its slot, before a ping's slot,
  before a ping's window (holding a slot or not), a refused ping about to hand its slot back, and a call
  that is admitted and holds a slot.
\<close>

datatype call =
    AtRate string nat
  | AtSlot string nat
  | AtSpareSlot string nat
  | AtSpareRate string nat bool
  | AtGiveBack string nat
  | Holding string nat bool

datatype outcome = Continue call | Refuse acquire_error | Pass

definition upd :: "nat \<Rightarrow> tenantLimiter \<Rightarrow> Limiter \<Rightarrow> Limiter" where
  "upd a t l = l\<lparr>objs := (objs l)[a := t]\<rparr>"

fun call_step :: "rat \<Rightarrow> instant \<Rightarrow> instant \<Rightarrow> call \<Rightarrow> Limiter \<Rightarrow> outcome \<times> Limiter" where
  "call_step fr now until (AtRate tid a) l =
     (let limit = RequestsPerMinute (lim l)
      in if limit > 0
         then (let (pass, t) = rate_section limit now (objs l ! a)
               in if pass then (Continue (AtSlot tid a), upd a t l)
                  else (Refuse (RateLimited limit (retry_in until t)), limit_refused refuseRateLimit tid (upd a t l)))
         else (Continue (AtSlot tid a), l))"
| "call_step fr now until (AtSlot tid a) l =
     (if inFlight (objs l ! a) = None then (Pass, l)
      else (case take_slot (objs l ! a) of
              Some t \<Rightarrow> (Continue (Holding tid a False), upd a t l)
            | None \<Rightarrow> (Refuse (ConcurrencyLimited (Concurrent (lim l))), limit_refused refuseConcurrency tid l)))"
| "call_step fr now until (AtSpareSlot tid a) l =
     (if inFlight (objs l ! a) = None then (Continue (AtSpareRate tid a False), l)
      else (case spare_slot fr (objs l ! a) of
              Some t \<Rightarrow> (Continue (AtSpareRate tid a True), upd a t l)
            | None \<Rightarrow> (Refuse NoSpare, l)))"
| "call_step fr now until (AtSpareRate tid a took) l =
     (let limit = RequestsPerMinute (lim l); admitted = (if took then Continue (Holding tid a True) else Pass)
      in if limit > 0
         then (let (pass, t) = rate_section (reserved limit fr) now (objs l ! a)
               in if pass then (admitted, upd a t l)
                  else (if took then Continue (AtGiveBack tid a) else Refuse NoSpare, upd a t l))
         else (admitted, l))"
| "call_step fr now until (AtGiveBack tid a) l = (Refuse NoSpare, upd a (give_back (objs l ! a)) l)"
| "call_step fr now until (Holding tid a ping) l = (Pass, upd a (give_back (objs l ! a)) l)"

fun rest_of :: "outcome \<Rightarrow> call multiset" where
  "rest_of (Continue c) = {#c#}"
| "rest_of (Refuse e) = {#}"
| "rest_of Pass = {#}"

text \<open>The tenants that called, the limiter, and the calls in progress.\<close>

inductive limit_run :: "Limits \<Rightarrow> rat \<Rightarrow> string list \<Rightarrow> Limiter \<Rightarrow> call multiset \<Rightarrow> bool"
  for lims :: Limits and fr :: rat where
  start: "limit_run lims fr [] (newLimiter lims per) {#}"
| request: "limit_run lims fr ids l C \<Longrightarrow> \<not> unlimited l \<Longrightarrow> forTenant now tid l = (a, l') \<Longrightarrow>
            limit_run lims fr (tid # ids) l' (add_mset (AtRate tid a) C)"
| ping: "limit_run lims fr ids l C \<Longrightarrow> \<not> unlimited l \<Longrightarrow> forTenant now tid l = (a, l') \<Longrightarrow>
         limit_run lims fr (tid # ids) l' (add_mset (AtSpareSlot tid a) C)"
| step: "limit_run lims fr ids l (add_mset c C) \<Longrightarrow> call_step fr now until c l = (r, l') \<Longrightarrow>
         limit_run lims fr ids l' (rest_of r + C)"

end
