(* ===== verification/Limit_Bounds.thy ===== *)
theory Limit_Bounds
  imports Request_Limits
begin

text \<open>
  What the limits guarantee over every interleaving of calls: a tenant never has more requests in flight
  than its bound, and its pings never more than the share they may use, as long as no more tenants call
  than the bounded map holds; what happens with one tenant more; and that a ping, admitted or skipped,
  never takes a place from a request of the agent.
\<close>

section \<open>Counting the slots\<close>

fun at_obj :: "call \<Rightarrow> nat" where
  "at_obj (AtRate tid a) = a"
| "at_obj (AtSlot tid a) = a"
| "at_obj (AtSpareSlot tid a) = a"
| "at_obj (AtSpareRate tid a took) = a"
| "at_obj (AtGiveBack tid a) = a"
| "at_obj (Holding tid a png) = a"

fun caller :: "call \<Rightarrow> string" where
  "caller (AtRate tid a) = tid"
| "caller (AtSlot tid a) = tid"
| "caller (AtSpareSlot tid a) = tid"
| "caller (AtSpareRate tid a took) = tid"
| "caller (AtGiveBack tid a) = tid"
| "caller (Holding tid a png) = tid"

text \<open>Whether a call has a slot now, and whether it has it as a ping.\<close>

fun has_slot :: "call \<Rightarrow> bool" where
  "has_slot (AtSpareRate tid a took) = took"
| "has_slot (AtGiveBack tid a) = True"
| "has_slot (Holding tid a png) = True"
| "has_slot c = False"

fun as_ping :: "call \<Rightarrow> bool" where
  "as_ping (Holding tid a png) = png"
| "as_ping c = True"

definition slots :: "nat \<Rightarrow> call multiset \<Rightarrow> int" where
  "slots a C = int (size (filter_mset (\<lambda>c. at_obj c = a \<and> has_slot c) C))"

definition ping_slots :: "nat \<Rightarrow> call multiset \<Rightarrow> int" where
  "ping_slots a C = int (size (filter_mset (\<lambda>c. at_obj c = a \<and> has_slot c \<and> as_ping c) C))"

lemma slots_empty [simp]: "slots a {#} = 0" "ping_slots a {#} = 0"
  by (simp_all add: slots_def ping_slots_def)

lemma slots_add [simp]:
  "slots a (add_mset c C) = (if at_obj c = a \<and> has_slot c then 1 else 0) + slots a C"
  "ping_slots a (add_mset c C) = (if at_obj c = a \<and> has_slot c \<and> as_ping c then 1 else 0) + ping_slots a C"
  by (simp_all add: slots_def ping_slots_def)

lemma ping_slots_le: "0 \<le> ping_slots a C" "ping_slots a C \<le> slots a C"
proof -
  have "filter_mset (\<lambda>c. at_obj c = a \<and> has_slot c \<and> as_ping c) C \<subseteq># filter_mset (\<lambda>c. at_obj c = a \<and> has_slot c) C"
    by (rule filter_mset_mono_strong) auto
  then show "ping_slots a C \<le> slots a C" by (simp add: slots_def ping_slots_def size_mset_mono)
qed (simp add: ping_slots_def)

lemma slots_nonneg: "0 \<le> slots a C"
  by (simp add: slots_def)

lemma slots_fresh: "(\<And>c. c \<in># C \<Longrightarrow> at_obj c < n) \<Longrightarrow> n \<le> a \<Longrightarrow> slots a C = 0 \<and> ping_slots a C = 0"
proof -
  assume b: "\<And>c. c \<in># C \<Longrightarrow> at_obj c < n" "n \<le> a"
  have "\<not> (at_obj c = a \<and> has_slot c)" if "c \<in># C" for c using b(1) [OF that] b(2) by auto
  then have "filter_mset (\<lambda>c. at_obj c = a \<and> has_slot c) C = filter_mset (\<lambda>c. False) C"
    by (intro filter_mset_cong) auto
  then have "slots a C = 0" by (simp add: slots_def)
  then show ?thesis using ping_slots_le [of a C] by simp
qed

section \<open>The invariant\<close>

definition obj_ok :: "Limits \<Rightarrow> rat \<Rightarrow> call multiset \<Rightarrow> nat \<Rightarrow> tenantLimiter \<Rightarrow> bool" where
  "obj_ok lims fr C a t \<longleftrightarrow>
     (if Concurrent lims > 0
      then inFlight t = Some (Concurrent lims, slots a C) \<and> slots a C \<le> Concurrent lims
           \<and> ping_slots a C \<le> reserved (Concurrent lims) fr
      else inFlight t = None) \<and>
     (RequestsPerMinute lims > 0 \<longrightarrow> 0 \<le> tcount t \<and> tcount t \<le> RequestsPerMinute lims)"

definition limits_ok :: "Limits \<Rightarrow> rat \<Rightarrow> Limiter \<Rightarrow> call multiset \<Rightarrow> bool" where
  "limits_ok lims fr l C \<longleftrightarrow>
     lim l = lims \<and> lru_ok (tenants l) \<and> lru_max (tenants l) = maxLimiterKeys \<and>
     (\<forall>tid a. lru_look (tenants l) tid = Some a \<longrightarrow> a < length (objs l)) \<and>
     (\<forall>c. c \<in># C \<longrightarrow> at_obj c < length (objs l)) \<and>
     (\<forall>a < length (objs l). obj_ok lims fr C a (objs l ! a))"

lemma reserved_bounds: "0 \<le> limit \<Longrightarrow> 0 \<le> reserved limit fr \<and> reserved limit fr \<le> limit"
proof (cases "fr \<le> 0")
  case False
  assume "0 \<le> limit"
  then have "0 \<le> of_int limit * fr" using False by simp
  then have "0 \<le> \<lceil>of_int limit * fr\<rceil>" by (metis ceiling_mono ceiling_zero)
  then show ?thesis using \<open>0 \<le> limit\<close> by (simp add: reserved_def Let_def)
qed (simp add: reserved_def)

lemma reserved_less:
  assumes "0 < limit" "0 < fr"
  shows "reserved limit fr < limit"
proof -
  have "0 < of_int limit * fr" using assms by simp
  then have "0 < \<lceil>of_int limit * fr\<rceil>" by (simp add: zero_less_ceiling)
  then show ?thesis using assms by (auto simp: reserved_def Let_def)
qed

lemma obj_ok_new: "slots a C = 0 \<Longrightarrow> ping_slots a C = 0 \<Longrightarrow> obj_ok (lim l) fr C a (fresh_limiter now l)"
  using reserved_bounds [of "Concurrent (lim l)" fr] by (auto simp: obj_ok_def fresh_limiter_def)

lemma forTenant_ok:
  assumes ok: "limits_ok lims fr l C" and ft: "forTenant now tid l = (a, l')"
  shows "limits_ok lims fr l' C \<and> a < length (objs l') \<and> lru_look (tenants l') tid = Some a"
proof -
  obtain r c where g: "lru_get tid (tenants l) = (r, c)" by fastforce
  have c: "lru_ok c" "lru_max c = maxLimiterKeys" using lru.get_keeps [OF g] ok by (simp_all add: limits_ok_def)
  show ?thesis
  proof (cases r)
    case (Some b)
    then have "lru_look (tenants l) tid = Some b" "lru_look c = lru_look (tenants l)" using lru.get_hit g by metis+
    then show ?thesis using ok ft g c Some by (auto simp: forTenant_def limits_ok_def)
  next
    case None
    let ?n = "length (objs l)"
    have look: "lru_look c = lru_look (tenants l)" using lru.get_miss g None by metis
    obtain c' gone where p: "lru_put tid ?n c = (c', gone)" by fastforce
    have r: "a = ?n" "l' = l\<lparr>objs := objs l @ [fresh_limiter now l], tenants := c'\<rparr>"
      using ft g None p by (simp_all add: forTenant_def)
    have k: "lru_ok c' \<and> lru_max c' = lru_max c \<and> lru_look c' tid = Some ?n" by (rule lru.put_keeps [OF p c(1)])
    have "b < Suc ?n" if "lru_look c' j = Some b" for j b
      using lru.put_values [OF c(1), of "\<lambda>b. b < Suc ?n" ?n tid j b] that p look ok
      by (auto simp: limits_ok_def intro: less_SucI)
    moreover have "slots ?n C = 0 \<and> ping_slots ?n C = 0"
      using ok by (intro slots_fresh [of _ ?n]) (auto simp: limits_ok_def)
    then have "obj_ok lims fr C ?n (fresh_limiter now l)" using ok obj_ok_new [of ?n C l] by (simp add: limits_ok_def)
    ultimately show ?thesis using ok c k by (auto simp: r limits_ok_def nth_append less_Suc_eq)
  qed
qed

section \<open>One step\<close>

lemma rate_section_slot: "rate_section b now t = (pass, t') \<Longrightarrow> inFlight t' = inFlight t"
  by (auto simp: rate_section_def roll_def Let_def split: if_splits)

lemma rate_section_ok:
  assumes "rate_section b now t = (pass, t')" "obj_ok lims fr C a t" "0 \<le> b" "b \<le> RequestsPerMinute lims"
  shows "obj_ok lims fr C a t'"
  using assms by (auto simp: obj_ok_def rate_section_def roll_def Let_def split: if_splits)

text \<open>A step works on its own limiter only, and does for that limiter what the counts say.\<close>

lemma call_step_shape:
  assumes "call_step fr now until c l = (r, l')"
  shows "\<exists>t rf. l' = l\<lparr>objs := (objs l)[at_obj c := t], refusals := rf\<rparr>"
proof (cases c)
  case (AtRate tid a)
  with assms show ?thesis
    by (auto simp: Let_def upd_def limit_refused_def split: if_splits prod.splits) (metis Limiter.surjective Limiter.update_convs(4,7) list_update_id)+
qed (use assms in \<open>auto simp: Let_def upd_def limit_refused_def split: if_splits prod.splits option.splits\<close>,
     (metis Limiter.surjective Limiter.update_convs(4,7) list_update_id)+)

lemma call_step_next: "call_step fr now until c l = (Continue c', l') \<Longrightarrow> at_obj c' = at_obj c \<and> caller c' = caller c"
  by (cases c) (auto simp: Let_def split: if_splits prod.splits option.splits)

text \<open>The invariant of one limiter depends on the calls only through the two counts.\<close>

lemma obj_ok_counts:
  "obj_ok lims fr C a t \<Longrightarrow> slots a C' = slots a C \<Longrightarrow> ping_slots a C' = ping_slots a C \<Longrightarrow> obj_ok lims fr C' a t"
  by (simp add: obj_ok_def)

lemma obj_ok_idle [simp]: "\<not> has_slot c \<Longrightarrow> obj_ok lims fr (add_mset c C) a t = obj_ok lims fr C a t"
  by (simp add: obj_ok_def)

lemma obj_ok_ping [simp]:
  "obj_ok lims fr (add_mset (Holding tid b True) C) a t = obj_ok lims fr (add_mset (AtSpareRate tid b True) C) a t"
  "obj_ok lims fr (add_mset (AtGiveBack tid b) C) a t = obj_ok lims fr (add_mset (AtSpareRate tid b True) C) a t"
  by (simp_all add: obj_ok_def)

lemma call_step_obj:
  assumes st: "call_step fr now until c l = (r, l')" and a: "a = at_obj c" "a < length (objs l)"
    and ok: "obj_ok (lim l) fr (add_mset c C) a (objs l ! a)"
  shows "obj_ok (lim l) fr (rest_of r + C) a (objs l' ! a)"
proof (cases c)
  case (AtRate tid b)
  obtain pass t where rs: "rate_section (RequestsPerMinute (lim l)) now (objs l ! b) = (pass, t)" by fastforce
  have "obj_ok (lim l) fr (add_mset c C) b t" if "RequestsPerMinute (lim l) > 0"
    using rate_section_ok [OF rs] ok that a AtRate by simp
  then show ?thesis using st a ok rs AtRate
    by (auto simp: Let_def upd_def limit_refused_def split: if_splits elim: obj_ok_counts)
next
  case (AtSlot tid b)
  then show ?thesis using st a ok
    by (auto simp: obj_ok_def Let_def upd_def limit_refused_def take_slot_def split: if_splits prod.splits)
next
  case (AtSpareSlot tid b)
  then show ?thesis using st a ok ping_slots_le [of b C]
    by (auto simp: obj_ok_def Let_def upd_def spare_slot_def take_slot_def split: if_splits prod.splits)
next
  case (AtSpareRate tid b took)
  obtain pass t where rs: "rate_section (reserved (RequestsPerMinute (lim l)) fr) now (objs l ! b) = (pass, t)" by fastforce
  have "obj_ok (lim l) fr (add_mset c C) b t" if "RequestsPerMinute (lim l) > 0"
    using rate_section_ok [OF rs] ok that a AtSpareRate reserved_bounds [of "RequestsPerMinute (lim l)" fr] by simp
  then show ?thesis using st a ok rs AtSpareRate
    by (auto simp: Let_def upd_def split: if_splits elim: obj_ok_counts)
next
  case (AtGiveBack tid b)
  then show ?thesis using st a ok by (auto simp: obj_ok_def upd_def give_back_def)
next
  case (Holding tid b png)
  then show ?thesis using st a ok by (auto simp: obj_ok_def upd_def give_back_def split: if_splits)
qed

section \<open>Every interleaving\<close>

lemma call_step_ok:
  assumes ok: "limits_ok lims fr l (add_mset c C)" and st: "call_step fr now until c l = (r, l')"
  shows "limits_ok lims fr l' (rest_of r + C)"
proof -
  obtain t rf where l': "l' = l\<lparr>objs := (objs l)[at_obj c := t], refusals := rf\<rparr>" using call_step_shape [OF st] by auto
  have a: "at_obj c < length (objs l)" using ok by (simp add: limits_ok_def)
  have rest: "at_obj d = at_obj c" if "d \<in># rest_of r" for d
    using that st by (cases r) (auto dest: call_step_next)
  have other: "slots b (rest_of r + C) = slots b C \<and> ping_slots b (rest_of r + C) = ping_slots b C" if "b \<noteq> at_obj c" for b
    using that rest by (cases r) auto
  have "obj_ok lims fr (rest_of r + C) b (objs l' ! b)" if "b < length (objs l)" for b
  proof (cases "b = at_obj c")
    case True
    then show ?thesis using call_step_obj [OF st True] ok that by (auto simp: limits_ok_def)
  next
    case False
    have "obj_ok lims fr (add_mset c C) b (objs l' ! b)" using ok that False by (simp add: l' limits_ok_def)
    then show ?thesis by (rule obj_ok_counts) (use other [OF False] False in auto)
  qed
  then show ?thesis using ok rest a by (auto simp: l' limits_ok_def)
qed

lemma limits_ok_add:
  assumes "limits_ok lims fr l C" "at_obj c < length (objs l)" "\<not> has_slot c"
  shows "limits_ok lims fr l (add_mset c C)"
  using assms by (auto simp: limits_ok_def intro: obj_ok_counts)

lemma limit_run_ok: "limit_run lims fr ids l C \<Longrightarrow> limits_ok lims fr l C"
proof (induction rule: limit_run.induct)
  case (start per)
  then show ?case by (simp add: limits_ok_def newLimiter_def) (simp add: newLRU_def maxLimiterKeys_def)
next
  case (request ids l C now tid a l')
  then show ?case using forTenant_ok [OF request.IH request.hyps(3)] by (simp add: limits_ok_add)
next
  case (ping ids l C now tid a l')
  then show ?case using forTenant_ok [OF ping.IH ping.hyps(3)] by (simp add: limits_ok_add)
next
  case (step ids l c C now until r l')
  then show ?case by (blast intro: call_step_ok)
qed

text \<open>While all callers fit into the map, all calls of a tenant work on one limiter.\<close>

definition settled :: "string list \<Rightarrow> Limiter \<Rightarrow> call multiset \<Rightarrow> bool" where
  "settled ids l C \<longleftrightarrow>
     dom (lru_look (tenants l)) = set ids \<and> (\<forall>c. c \<in># C \<longrightarrow> lru_look (tenants l) (caller c) = Some (at_obj c))"

lemma forTenant_settled:
  assumes ok: "limits_ok lims fr l C" and s: "settled ids l C" and ft: "forTenant now tid l = (a, l')"
    and n: "int (card (insert tid (set ids))) \<le> maxLimiterKeys"
  shows "settled (tid # ids) l' C \<and> lru_look (tenants l') tid = Some a"
proof -
  obtain r c where g: "lru_get tid (tenants l) = (r, c)" by fastforce
  have c: "lru_ok c" "lru_max c = maxLimiterKeys" using lru.get_keeps [OF g] ok by (simp_all add: limits_ok_def)
  show ?thesis
  proof (cases r)
    case (Some b)
    then have b: "lru_look (tenants l) tid = Some b" "lru_look c = lru_look (tenants l)" using lru.get_hit g by metis+
    then have "insert tid (set ids) = set ids" using s by (metis domI insert_absorb settled_def)
    moreover have "a = b" "l' = l\<lparr>tenants := c\<rparr>" using ft g Some by (simp_all add: forTenant_def)
    ultimately show ?thesis using s b by (simp add: settled_def)
  next
    case None
    have look: "lru_look (tenants l) tid = None" "lru_look c = lru_look (tenants l)" using lru.get_miss g None by metis+
    have "lru_look (fst (lru_put tid (length (objs l)) c)) = (lru_look c)(tid \<mapsto> length (objs l))"
      using n s c by (intro lru.put_spare) (simp_all add: look settled_def)
    moreover have "a = length (objs l)" "tenants l' = fst (lru_put tid (length (objs l)) c)"
      using ft g None by (auto simp: forTenant_def)
    moreover have "caller c \<noteq> tid" if "c \<in># C" for c using s look(1) that by (auto simp: settled_def)
    ultimately show ?thesis using s look by (simp add: settled_def)
  qed
qed

lemma limit_run_settled:
  "limit_run lims fr ids l C \<Longrightarrow> int (card (set ids)) \<le> maxLimiterKeys \<Longrightarrow> settled ids l C"
proof (induction rule: limit_run.induct)
  case (start per)
  then show ?case by (simp add: settled_def newLimiter_def)
next
  case (request ids l C now tid a l')
  have "int (card (set ids)) \<le> maxLimiterKeys" using request.prems by (auto simp: card_insert_if split: if_splits)
  then show ?case using forTenant_settled [OF limit_run_ok [OF request.hyps(1)] _ request.hyps(3)] request
    by (auto simp: settled_def)
next
  case (ping ids l C now tid a l')
  have "int (card (set ids)) \<le> maxLimiterKeys" using ping.prems by (auto simp: card_insert_if split: if_splits)
  then show ?case using forTenant_settled [OF limit_run_ok [OF ping.hyps(1)] _ ping.hyps(3)] ping
    by (auto simp: settled_def)
next
  case (step ids l c C now until r l')
  obtain t rf where "l' = l\<lparr>objs := (objs l)[at_obj c := t], refusals := rf\<rparr>" using call_step_shape [OF step.hyps(2)] by auto
  then show ?case using step by (cases r) (auto simp: settled_def dest: call_step_next)
qed

text \<open>The requests of a tenant that hold a slot, and its pings among them.\<close>

definition busy :: "string \<Rightarrow> call multiset \<Rightarrow> int" where
  "busy tid C = int (size (filter_mset (\<lambda>c. caller c = tid \<and> has_slot c) C))"

definition pinging :: "string \<Rightarrow> call multiset \<Rightarrow> int" where
  "pinging tid C = int (size (filter_mset (\<lambda>c. caller c = tid \<and> has_slot c \<and> as_ping c) C))"

lemma settled_busy:
  assumes "settled ids l C" "lru_look (tenants l) tid = Some a"
  shows "busy tid C \<le> slots a C \<and> pinging tid C \<le> ping_slots a C"
proof -
  have "filter_mset (\<lambda>c. caller c = tid \<and> has_slot c) C \<subseteq># filter_mset (\<lambda>c. at_obj c = a \<and> has_slot c) C"
    "filter_mset (\<lambda>c. caller c = tid \<and> has_slot c \<and> as_ping c) C \<subseteq># filter_mset (\<lambda>c. at_obj c = a \<and> has_slot c \<and> as_ping c) C"
    using assms by (auto intro!: filter_mset_mono_strong simp: settled_def)
  then show ?thesis by (simp add: busy_def pinging_def slots_def ping_slots_def size_mset_mono)
qed

lemma unknown_busy:
  assumes "settled ids l C" "lru_look (tenants l) tid = None"
  shows "busy tid C = 0 \<and> pinging tid C = 0"
proof -
  have "filter_mset (\<lambda>c. caller c = tid \<and> has_slot c) C = filter_mset (\<lambda>c. False) C"
    "filter_mset (\<lambda>c. caller c = tid \<and> has_slot c \<and> as_ping c) C = filter_mset (\<lambda>c. False) C"
    using assms by (auto intro!: filter_mset_cong simp: settled_def)
  then show ?thesis by (simp add: busy_def pinging_def)
qed

text \<open>
  C34: In every interleaving of requests and pings, with no more tenants than the map holds, a tenant
  never has more than \<open>Concurrent\<close> requests in flight, its pings never take more than the share they may
  use, and that share is less than the bound when a part of it is reserved.
\<close>

theorem tenant_slots_bounded:
  assumes run: "limit_run lims fr ids l C" and few: "int (card (set ids)) \<le> maxLimiterKeys"
    and conc: "0 < Concurrent lims"
  shows "busy tid C \<le> Concurrent lims \<and> pinging tid C \<le> reserved (Concurrent lims) fr \<and>
    (0 < fr \<longrightarrow> reserved (Concurrent lims) fr < Concurrent lims)"
proof (cases "lru_look (tenants l) tid")
  case None
  then show ?thesis using unknown_busy [OF limit_run_settled [OF run few]] reserved_bounds [of "Concurrent lims" fr]
      conc reserved_less by simp
next
  case (Some a)
  have ok: "limits_ok lims fr l C" by (rule limit_run_ok [OF run])
  then have "obj_ok lims fr C a (objs l ! a)" using Some by (simp add: limits_ok_def)
  then show ?thesis using settled_busy [OF limit_run_settled [OF run few] Some] conc reserved_less
    by (auto simp: obj_ok_def)
qed

section \<open>Pings and requests\<close>

text \<open>The answer of \<open>Acquire\<close> is read off the tenant's counters, and only after the window is rolled.\<close>

definition verdict :: "Limits \<Rightarrow> instant \<Rightarrow> instant \<Rightarrow> nat \<Rightarrow> tenantLimiter \<Rightarrow> acquire_error + nat option" where
  "verdict lims now until a t =
     (if RequestsPerMinute lims > 0 \<and> tcount (roll now t) \<ge> RequestsPerMinute lims
      then Inl (RateLimited (RequestsPerMinute lims) (retry_in until (roll now t)))
      else (case inFlight t of
              None \<Rightarrow> Inr None
            | Some (cap, n) \<Rightarrow> if n < cap then Inr (Some a) else Inl (ConcurrencyLimited (Concurrent lims))))"

lemma forTenant_lim: "forTenant now tid l = (a, l') \<Longrightarrow> lim l' = lim l \<and> unlimited l' = unlimited l"
  by (auto simp: forTenant_def unlimited_def split: option.splits prod.splits)

lemma retry_in_count [simp]: "retry_in until (t\<lparr>tcount := n\<rparr>) = retry_in until t"
  by (simp add: retry_in_def)

lemma Acquire_verdict:
  assumes "\<not> unlimited l" "forTenant now tid l = (a, l1)" "a < length (objs l1)"
  shows "fst (Acquire now until tid (Some l)) = verdict (lim l) now until a (objs l1 ! a)"
proof -
  have fl: "inFlight (roll now t) = inFlight t" for t by (simp add: roll_def Let_def)
  show ?thesis using assms forTenant_lim [OF assms(2)]
    by (auto simp: Acquire_def Let_def verdict_def rate_section_def take_slot_def fl
        split: prod.splits option.splits if_splits)
qed

lemma verdict_rolled: "roll now t = roll now t' \<Longrightarrow> inFlight t = inFlight t' \<Longrightarrow> verdict lims now until a t = verdict lims now until a t'"
  by (simp add: verdict_def)

lemma truncate_mono: "0 < d \<Longrightarrow> s \<le> t \<Longrightarrow> truncate_to d s \<le> truncate_to d t"
  by (metis minus_mod_eq_mult_div mult_left_mono order_less_imp_le truncate_to_def zdiv_mono1)

lemma minute_pos [simp]: "0 < minute"
  by (simp add: minute_def second_def)

lemma roll_roll: "now \<le> later \<Longrightarrow> roll later (roll now t) = roll later t"
  using truncate_mono [OF minute_pos, of now later] by (auto simp: roll_def Let_def)

lemma roll_fresh: "now \<le> later \<Longrightarrow> roll later (fresh_limiter now l) = roll later (fresh_limiter later l)"
  using truncate_mono [OF minute_pos, of now later] by (auto simp: roll_def fresh_limiter_def Let_def)

text \<open>A second lookup finds the same limiter, whatever has been written into it.\<close>

lemma forTenant_again:
  assumes "lru_look (tenants l1) tid = Some a" "tenants l2 = tenants l1"
  shows "\<exists>c. forTenant now tid l2 = (a, l2\<lparr>tenants := c\<rparr>)"
proof -
  obtain r c where g: "lru_get tid (tenants l2) = (r, c)" by fastforce
  then have "r = Some a" using lru.get_value [of tid "tenants l2"] assms by simp
  then show ?thesis using g by (auto simp: forTenant_def)
qed

lemma forTenant_same:
  assumes "forTenant now tid l = (a, l1)" "forTenant later tid l = (a', l1')"
  shows "a' = a \<and> length (objs l1') = length (objs l1) \<and>
    (objs l1' ! a = objs l1 ! a \<or> objs l1 ! a = fresh_limiter now l \<and> objs l1' ! a = fresh_limiter later l)"
  using assms by (auto simp: forTenant_def split: option.splits prod.splits)

text \<open>What a ping leaves behind in its tenant's limiter.\<close>

definition skipped_from :: "instant \<Rightarrow> tenantLimiter \<Rightarrow> tenantLimiter \<Rightarrow> bool" where
  "skipped_from now t t' \<longleftrightarrow> inFlight t' = inFlight t \<and> (t' = t \<or> t' = roll now t)"

lemma AcquireSpare_cases:
  assumes "\<not> unlimited l" "AcquireSpare now tid fr (Some l) = (res, L)" "forTenant now tid l = (a, l1)" "a < length (objs l1)"
  shows "\<exists>t'. L = Some (l1\<lparr>objs := (objs l1)[a := t']\<rparr>) \<and>
    (case res of
       Inl e \<Rightarrow> skipped_from now (objs l1 ! a) t'
     | Inr r \<Rightarrow> (RequestsPerMinute (lim l) > 0 \<longrightarrow> tcount t' \<le> reserved (RequestsPerMinute (lim l)) fr) \<and>
         (\<forall>cap n. inFlight t' = Some (cap, n) \<longrightarrow> n \<le> reserved cap fr \<and> (\<exists>m. inFlight (objs l1 ! a) = Some (cap, m))))"
proof -
  let ?t = "objs l1 ! a" and ?R = "RequestsPerMinute (lim l)"
  define slot where "slot = (if inFlight ?t = None then Some ?t else spare_slot fr ?t)"
  have lim: "lim l1 = lim l" using forTenant_lim [OF assms(3)] by simp
  show ?thesis
  proof (cases slot)
    case None
    then have "res = Inl NoSpare" "L = Some l1"
      using assms by (auto simp: AcquireSpare_def Let_def slot_def split: if_splits)
    then show ?thesis by (intro exI [of _ ?t]) (simp add: skipped_from_def)
  next
    case (Some t')
    have t': "(inFlight ?t = None \<and> t' = ?t) \<or> (\<exists>cap n. inFlight ?t = Some (cap, n) \<and> n < reserved cap fr \<and> t' = ?t\<lparr>inFlight := Some (cap, n + 1)\<rparr>)"
      using Some by (auto simp: slot_def spare_slot_def take_slot_def split: if_splits option.splits)
    obtain pass t'' where rs: "rate_section (reserved ?R fr) now t' = (pass, t'')" by fastforce
    have res: "(res, L) =
       (if ?R > 0
        then if pass then (Inr (if inFlight ?t = None then None else Some a), Some (l1\<lparr>objs := (objs l1)[a := t'']\<rparr>))
             else (Inl NoSpare, Some (l1\<lparr>objs := (objs l1)[a := (if inFlight ?t = None then t'' else give_back t'')]\<rparr>))
        else (Inr (if inFlight ?t = None then None else Some a), Some (l1\<lparr>objs := (objs l1)[a := t']\<rparr>)))"
      using assms(1-3) Some rs by (simp add: AcquireSpare_def Let_def slot_def lim split: if_splits)
    consider "?R \<le> 0" | "?R > 0" pass | "?R > 0" "\<not> pass" by fastforce
    then show ?thesis
    proof cases
      case 1
      then show ?thesis using res t' by (intro exI [of _ t']) auto
    next
      case 2
      then show ?thesis using res t' rs
        by (intro exI [of _ t'']) (auto simp: rate_section_def roll_def Let_def split: if_splits)
    next
      case 3
      then show ?thesis using res t' rs
        by (intro exI [of _ "if inFlight ?t = None then t'' else give_back t''"])
          (auto simp: rate_section_def roll_def give_back_def skipped_from_def Let_def split: if_splits)
    qed
  qed
qed

text \<open>A ping that was skipped leaves the verdict on every later request as it was; one that was admitted leaves room.\<close>

lemma skipped_same_verdict:
  assumes unl: "\<not> unlimited l" and lims: "lim l = lims" and ft: "forTenant now tid l = (a, l1)" and a: "a < length (objs l1)"
    and sk: "skipped_from now (objs l1 ! a) t'" and le: "now \<le> later"
  shows "fst (Acquire later until tid (Some l)) = verdict lims later until a t'"
proof -
  obtain a' l1' where ft': "forTenant later tid l = (a', l1')" by fastforce
  have same: "a' = a" "length (objs l1') = length (objs l1)"
    "objs l1' ! a = objs l1 ! a \<or> objs l1 ! a = fresh_limiter now l \<and> objs l1' ! a = fresh_limiter later l"
    using forTenant_same [OF ft ft'] by auto
  have "fst (Acquire later until tid (Some l)) = verdict lims later until a (objs l1' ! a)"
    using Acquire_verdict [OF unl ft'] same a lims by simp
  also have "\<dots> = verdict lims later until a t'"
  proof (rule verdict_rolled)
    show "roll later (objs l1' ! a) = roll later t'"
      using sk same(3) roll_roll [OF le] roll_fresh [OF le, of l] by (auto simp: skipped_from_def)
    show "inFlight (objs l1' ! a) = inFlight t'" using sk same(3) by (auto simp: skipped_from_def fresh_limiter_def)
  qed
  finally show ?thesis .
qed

lemma admitted_leaves_room:
  assumes o: "obj_ok lims fr C a t" and fr: "0 < fr"
    and rate: "RequestsPerMinute lims > 0 \<longrightarrow> tcount t' \<le> reserved (RequestsPerMinute lims) fr"
    and slots: "\<forall>cap n. inFlight t' = Some (cap, n) \<longrightarrow> n \<le> reserved cap fr \<and> (\<exists>m. inFlight t = Some (cap, m))"
  shows "\<exists>r. verdict lims later until a t' = Inr r"
proof -
  have "tcount (roll later t') < RequestsPerMinute lims" if "RequestsPerMinute lims > 0"
    using that rate reserved_less [OF that fr] by (auto simp: roll_def Let_def)
  moreover have "n < cap" if "inFlight t' = Some (cap, n)" for cap n
  proof -
    have n: "n \<le> reserved cap fr" "\<exists>m. inFlight t = Some (cap, m)" using that slots by auto
    then have "0 < cap" using o by (auto simp: obj_ok_def split: if_splits)
    then show ?thesis using n(1) reserved_less fr by fastforce
  qed
  ultimately show ?thesis by (auto simp: verdict_def split: option.splits)
qed


section \<open>A call without interruption\<close>

text \<open>\<open>Acquire\<close>, \<open>AcquireSpare\<close> and \<open>Release\<close> are runs of the steps of one call.\<close>

definition held_call :: "string \<Rightarrow> bool \<Rightarrow> acquire_error + nat option \<Rightarrow> call multiset" where
  "held_call tid png res = (case res of Inr (Some a) \<Rightarrow> {#Holding tid a png#} | _ \<Rightarrow> {#})"

lemma Acquire_runs:
  assumes run: "limit_run lims fr ids l C" and unl: "\<not> unlimited l"
    and acq: "Acquire now until tid (Some l) = (res, Some l')"
  shows "limit_run lims fr (tid # ids) l' (held_call tid False res + C)"
proof -
  obtain a l1 where ft: "forTenant now tid l = (a, l1)" by fastforce
  have a: "a < length (objs l1)" using forTenant_ok [OF limit_run_ok [OF run] ft] by simp
  have 0: "limit_run lims fr (tid # ids) l1 (add_mset (AtRate tid a) C)" by (rule limit_run.request [OF run unl ft])
  obtain pass t where rs: "rate_section (RequestsPerMinute (lim l1)) now (objs l1 ! a) = (pass, t)" by fastforce
  obtain r1 l2 where s1: "call_step fr now until (AtRate tid a) l1 = (r1, l2)" by fastforce
  have 1: "limit_run lims fr (tid # ids) l2 (rest_of r1 + C)" by (rule limit_run.step [OF 0 s1])
  show ?thesis
  proof (cases r1)
    case (Continue c)
    then have c: "c = AtSlot tid a" using s1 by (auto simp: Let_def split: if_splits prod.splits)
    obtain r2 l3 where s2: "call_step fr now until (AtSlot tid a) l2 = (r2, l3)" by fastforce
    have 2: "limit_run lims fr (tid # ids) l3 (rest_of r2 + C)" using limit_run.step [OF _ s2] 1 Continue c by simp
    have "l3 = l' \<and> rest_of r2 = held_call tid False res"
      using acq unl ft a s1 s2 rs Continue c
      by (auto simp: Acquire_def Let_def upd_def limit_refused_def held_call_def split: if_splits option.splits)
    then show ?thesis using 2 by simp
  next
    case (Refuse e)
    then have "l2 = l' \<and> held_call tid False res = {#}"
      using acq unl ft a s1 rs by (auto simp: Acquire_def Let_def upd_def held_call_def split: if_splits)
    then show ?thesis using 1 Refuse by simp
  next
    case Pass
    then show ?thesis using s1 by (auto simp: Let_def split: if_splits prod.splits)
  qed
qed

lemma Release_runs:
  assumes "limit_run lims fr ids l (add_mset (Holding tid a png) C)"
  shows "limit_run lims fr ids (Release (Some a) l) C"
proof -
  have "call_step fr now until (Holding tid a png) l = (Pass, Release (Some a) l)" for now until
    by (simp add: Release_def upd_def)
  from limit_run.step [OF assms this] show ?thesis by simp
qed

section \<open>One tenant more than the map holds\<close>

definition arrives :: "instant \<Rightarrow> string \<Rightarrow> Limiter \<Rightarrow> Limiter" where
  "arrives now tid l = snd (forTenant now tid l)"

lemma delete_last: "distinct (map fst (xs @ [x])) \<Longrightarrow> AList.delete (fst x) (xs @ [x]) = xs"
  by (auto simp: AList.delete_eq case_prod_beta filter_id_conv)

lemma map_fst_delete: "k \<notin> fst ` set xs \<Longrightarrow> AList.delete k xs = xs"
  by (auto simp: AList.delete_eq case_prod_beta filter_id_conv)

lemma map_fst_delete_eq: "map fst (AList.delete k xs) = filter (\<lambda>j. k \<noteq> j) (map fst xs)"
  by (induction xs) auto

lemma lru_put_keys:
  assumes ok: "lru_ok c" and new: "lru_look c k = None" and hook: "keep_hook c = None"
  shows "map fst (lru_list (fst (lru_put k v c))) =
    (if int (length (lru_list c)) < lru_max c then k # map fst (lru_list c) else k # butlast (map fst (lru_list c)))"
proof (cases rule: lru_cases [OF ok, of k])
  case 3
  have ne: "lru_list c \<noteq> []" using ok 3(2) by (auto simp: lru_ok_def)
  then obtain xs x where xs: "lru_list c = xs @ [x]" by (cases "lru_list c" rule: rev_cases) auto
  have "k \<notin> fst ` set (lru_list c)" using new by (simp add: lru_look_def map_of_eq_None_iff)
  then have d: "distinct (map fst (((k, v) # xs) @ [x]))" using ok xs by (auto simp: lru_ok_def)
  have "victim (c\<lparr>lru_list := (k, v) # lru_list c\<rparr>) = x" using hook xs by (simp add: victim_def)
  then show ?thesis using lru_put_full [OF ok 3, of v] delete_last [OF d] 3(2) xs by simp
qed (use new in \<open>simp_all add: lru_put_room\<close>)

lemma lru_get_keys:
  assumes "lru_look c k = Some v"
  shows "map fst (lru_list (snd (lru_get k c))) = k # filter (\<lambda>j. k \<noteq> j) (map fst (lru_list c))"
  using assms by (simp add: lru_get_def lru_look_def map_fst_delete_eq)

definition in_order :: "string list \<Rightarrow> Limiter \<Rightarrow> bool" where
  "in_order xs l \<longleftrightarrow> (\<exists>rest. map fst (lru_list (tenants l)) = rev xs @ rest)"

lemma forTenant_hook: "forTenant now tid l = (a, l') \<Longrightarrow> keep_hook (tenants l') = keep_hook (tenants l)"
proof -
  obtain r c where "lru_get tid (tenants l) = (r, c)" by fastforce
  then show "forTenant now tid l = (a, l') \<Longrightarrow> keep_hook (tenants l') = keep_hook (tenants l)"
    using lru_hooks(2) [of tid "tenants l"] by (auto simp: forTenant_def split: option.splits)
qed

lemma arrives_in_order:
  assumes ok: "limits_ok lims fr l C" and hook: "keep_hook (tenants l) = None" and o: "in_order xs l"
    and x: "x \<notin> set xs" and n: "int (length xs) < maxLimiterKeys"
  shows "in_order (xs @ [x]) (arrives now x l) \<and> keep_hook (tenants (arrives now x l)) = None"
proof -
  have lru: "lru_ok (tenants l)" "lru_max (tenants l) = maxLimiterKeys" using ok by (simp_all add: limits_ok_def)
  obtain rest where rest: "map fst (lru_list (tenants l)) = rev xs @ rest" using o by (auto simp: in_order_def)
  have hook': "keep_hook (tenants (arrives now x l)) = None" using hook forTenant_hook by (metis arrives_def prod.collapse)
  show ?thesis
  proof (cases "lru_look (tenants l) x")
    case (Some a)
    have t: "tenants (arrives now x l) = snd (lru_get x (tenants l))"
      using Some lru.get_value [of x "tenants l"] by (auto simp: arrives_def forTenant_def split: prod.splits option.splits)
    have "filter (\<lambda>j. x \<noteq> j) (rev xs) = rev xs" using x by (auto simp: filter_id_conv)
    then have "map fst (lru_list (tenants (arrives now x l))) = rev (xs @ [x]) @ filter (\<lambda>j. x \<noteq> j) rest"
      using lru_get_keys [OF Some] rest t by simp
    then show ?thesis using hook' by (auto simp: in_order_def)
  next
    case None
    have g: "lru_get x (tenants l) = (None, tenants l)" using None by (simp add: lru_get_def lru_look_def)
    have t: "tenants (arrives now x l) = fst (lru_put x (length (objs l)) (tenants l))"
      by (simp add: arrives_def forTenant_def g)
    have "rest \<noteq> []" if "\<not> int (length (lru_list (tenants l))) < lru_max (tenants l)"
      using that rest n lru by (metis append_Nil2 length_map length_rev)
    then have "map fst (lru_list (tenants (arrives now x l))) = rev (xs @ [x]) @
        (if int (length (lru_list (tenants l))) < lru_max (tenants l) then rest else butlast rest)"
      using lru_put_keys [OF lru(1) None hook, of "length (objs l)"] rest t by (auto simp: butlast_append)
    then show ?thesis using hook' by (auto simp: in_order_def)
  qed
qed

lemma arrives_ok: "limits_ok lims fr l C \<Longrightarrow> limits_ok lims fr (arrives now x l) C"
  using forTenant_ok [of lims fr l C now x] by (cases "forTenant now x l") (auto simp: arrives_def)

lemma arrive_all:
  assumes "limits_ok lims fr l C" "keep_hook (tenants l) = None" "distinct xs" "int (length xs) \<le> maxLimiterKeys"
  shows "limits_ok lims fr (fold (arrives now) xs l) C \<and> keep_hook (tenants (fold (arrives now) xs l)) = None
    \<and> in_order xs (fold (arrives now) xs l)"
  using assms(3,4)
proof (induction xs rule: rev_induct)
  case Nil
  then show ?case using assms by (simp add: in_order_def)
next
  case (snoc x xs)
  then show ?case
    using arrives_in_order [of lims fr "fold (arrives now) xs l" C xs x now] arrives_ok [of lims fr "fold (arrives now) xs l" C]
    by simp
qed

lemma run_hook: "limit_run lims fr ids l C \<Longrightarrow> keep_hook (tenants l) = None"
proof (induction rule: limit_run.induct)
  case (step ids l c C now until r l')
  then show ?case using call_step_shape [OF step.hyps(2)] by auto
qed (simp_all add: newLimiter_def newLRU_def forTenant_hook)

lemma arrives_objs: "i < length (objs l) \<Longrightarrow> objs (fold (arrives now) xs l) ! i = objs l ! i \<and> i < length (objs (fold (arrives now) xs l))"
proof (induction xs arbitrary: l)
  case (Cons x xs)
  have "objs (arrives now x l) ! i = objs l ! i \<and> i < length (objs (arrives now x l))"
    using Cons.prems by (auto simp: arrives_def forTenant_def nth_append split: option.splits prod.splits)
  then show ?case using Cons.IH [of "arrives now x l"] by simp
qed simp

text \<open>
  C36: The bound is lost when one tenant more calls than the map holds: a tenant whose slots are all taken
  is refused, but after ten thousand other tenants have called it is admitted again, on a new limiter,
  while every slot of the old one is still held.
\<close>

theorem evicted_tenant_readmitted:
  assumes run: "limit_run lims fr ids l C" and conc: "0 < Concurrent lims"
    and tid: "lru_look (tenants l) tid = Some a" and full: "slots a C = Concurrent lims"
    and others: "distinct others" "int (length others) = maxLimiterKeys" "tid \<notin> set others"
  shows "(\<exists>e. fst (Acquire now until tid (Some l)) = Inl e) \<and>
    (\<exists>b. fst (Acquire now until tid (Some (fold (arrives now) others l))) = Inr (Some b) \<and> b \<noteq> a \<and>
      inFlight (objs (fold (arrives now) others l) ! a) = Some (Concurrent lims, Concurrent lims))"
proof -
  have ok: "limits_ok lims fr l C" by (rule limit_run_ok [OF run])
  then have lims: "lim l = lims" and a: "a < length (objs l)" "inFlight (objs l ! a) = Some (Concurrent lims, Concurrent lims)"
    using tid full conc by (auto simp: limits_ok_def obj_ok_def)
  have unl: "\<not> unlimited l" using conc lims by (simp add: unlimited_def)
  obtain c where "forTenant now tid l = (a, l\<lparr>tenants := c\<rparr>)" using forTenant_again [of l tid a l now] tid by auto
  from Acquire_verdict [OF unl this] a(2) have refusal: "\<exists>e. fst (Acquire now until tid (Some l)) = Inl e"
    using a(1) by (simp add: verdict_def)
  let ?l = "fold (arrives now) others l"
  have all: "limits_ok lims fr ?l C" "in_order others ?l"
    using arrive_all [OF ok run_hook [OF run] others(1)] others(2) by simp_all
  obtain rest where rest: "map fst (lru_list (tenants ?l)) = rev others @ rest" using all(2) by (auto simp: in_order_def)
  have "length (rev others @ rest) = length (lru_list (tenants ?l))" by (metis rest length_map)
  moreover have "int (length (lru_list (tenants ?l))) \<le> maxLimiterKeys" using all(1) by (auto simp: limits_ok_def lru_ok_def)
  ultimately have "rest = []" using others(2) by (cases rest) auto
  then have gone: "lru_look (tenants ?l) tid = None"
    using rest others(3) by (simp add: lru_look_def map_of_eq_None_iff flip: set_map)
  have old: "objs ?l ! a = objs l ! a" "a < length (objs ?l)" using arrives_objs [OF a(1), of now others] by auto
  have lim': "lim ?l = lims" using all(1) by (simp add: limits_ok_def)
  obtain b l1 where ft: "forTenant now tid ?l = (b, l1)" by fastforce
  have new: "b = length (objs ?l)" "objs l1 ! b = fresh_limiter now ?l" "b < length (objs l1)"
    using ft gone by (auto simp: forTenant_def lru_get_def lru_look_def)
  have "\<not> unlimited ?l" using conc lim' by (simp add: unlimited_def)
  from Acquire_verdict [OF this ft new(3)] new(2) conc lim'
  have "fst (Acquire now until tid (Some ?l)) = Inr (Some b)"
    by (auto simp: verdict_def fresh_limiter_def roll_def Let_def)
  then show ?thesis using refusal new(1) old a(2) by auto
qed

section \<open>The properties at a concrete input\<close>

definition sample_limits :: Limits where
  "sample_limits = \<lparr>RequestsPerMinute = 10, Concurrent = 2, CheapModelConcurrent = 0\<rparr>"

definition sample_limiter :: "int \<Rightarrow> Limiter" where
  "sample_limiter n =
     (newLimiter sample_limits True)\<lparr>tenants := (newLRU maxLimiterKeys)\<lparr>lru_list := [(''t'', 0)]\<rparr>,
        objs := [\<lparr>windowStart = 0, tcount = n, inFlight = Some (2, n)\<rparr>]\<rparr>"

lemmas sample_defs = sample_limiter_def sample_limits_def newLimiter_def newLRU_def forTenant_def fresh_limiter_def
  rate_section_def roll_def truncate_to_def minute_def second_def take_slot_def upd_def maxLimiterKeys_def unlimited_def

lemma sample_run: "limit_run sample_limits (1/4) [''t''] (sample_limiter 1) {#Holding ''t'' 0 False#}"
proof -
  let ?l = "(sample_limiter 0)"
  have a: "forTenant 0 ''t'' (newLimiter sample_limits True) = (0, ?l)"
    by (simp add: sample_defs lru_get_def lru_put_def evict_none)
  have b: "call_step (1/4) 0 0 (AtRate ''t'' 0) ?l = (Continue (AtSlot ''t'' 0), ?l\<lparr>objs := [\<lparr>windowStart = 0, tcount = 1, inFlight = Some (2, 0)\<rparr>]\<rparr>)"
    by (simp add: sample_defs)
  have c: "call_step (1/4) 0 0 (AtSlot ''t'' 0) (?l\<lparr>objs := [\<lparr>windowStart = 0, tcount = 1, inFlight = Some (2, 0)\<rparr>]\<rparr>) =
      (Continue (Holding ''t'' 0 False), sample_limiter 1)"
    by (simp add: sample_defs)
  have "limit_run sample_limits (1/4) [''t''] ?l {#AtRate ''t'' 0#}"
    using limit_run.request [OF limit_run.start _ a] by (simp add: sample_defs)
  from limit_run.step [OF this b] have "limit_run sample_limits (1/4) [''t''] (?l\<lparr>objs := [\<lparr>windowStart = 0, tcount = 1, inFlight = Some (2, 0)\<rparr>]\<rparr>) {#AtSlot ''t'' 0#}"
    by simp
  from limit_run.step [OF this c] show ?thesis by simp
qed

theorem tenant_slots_bounded_witness:
  "\<exists>l C. limit_run sample_limits (1/4) [''t''] l C \<and> busy ''t'' C = 1 \<and> pinging ''t'' C \<le> 1"
proof (intro exI conjI)
  show "busy ''t'' {#Holding ''t'' 0 False#} = 1" by (simp add: busy_def)
  have "reserved (Concurrent sample_limits) (1/4) = 1" by (simp add: reserved_def sample_limits_def ceiling_eq_iff)
  then show "pinging ''t'' {#Holding ''t'' 0 False#} \<le> 1"
    using tenant_slots_bounded [OF sample_run, of "''t''"] by (simp add: maxLimiterKeys_def sample_limits_def)
qed (rule sample_run)


definition other_names :: "string list" where
  "other_names = map (\<lambda>i. replicate (Suc (Suc i)) CHR ''x'') [0..<10000]"

theorem evicted_tenant_readmitted_witness:
  "\<exists>lims fr ids l C. limit_run lims fr ids l C \<and> busy ''t'' C = 1 \<and> Concurrent lims = 1 \<and>
     (\<exists>b. fst (Acquire 0 0 ''t'' (Some (fold (arrives 0) other_names l))) = Inr (Some b))"
proof -
  let ?lims = "\<lparr>RequestsPerMinute = 0, Concurrent = 1, CheapModelConcurrent = 0\<rparr>"
  let ?l = "\<lambda>n. (newLimiter ?lims True)\<lparr>tenants := (newLRU maxLimiterKeys)\<lparr>lru_list := [(''t'', 0)]\<rparr>,
        objs := [\<lparr>windowStart = 0, tcount = 0, inFlight = Some (1, n)\<rparr>]\<rparr>"
  have a: "forTenant 0 ''t'' (newLimiter ?lims True) = (0, ?l 0)"
    by (simp add: sample_defs lru_get_def lru_put_def evict_none)
  have "limit_run ?lims 0 [''t''] (?l 0) {#AtRate ''t'' 0#}"
    using limit_run.request [OF limit_run.start _ a] by (simp add: sample_defs)
  from limit_run.step [OF this, of 0 0] have "limit_run ?lims 0 [''t''] (?l 0) {#AtSlot ''t'' 0#}"
    by (simp add: sample_defs)
  from limit_run.step [OF this, of 0 0] have run: "limit_run ?lims 0 [''t''] (?l 1) {#Holding ''t'' 0 False#}"
    by (simp add: sample_defs)
  have "distinct other_names" by (simp add: other_names_def distinct_map inj_on_def)
  moreover have "int (length other_names) = maxLimiterKeys" by (simp add: other_names_def maxLimiterKeys_def)
  moreover have "''t'' \<notin> set other_names" by (auto simp: other_names_def)
  ultimately have "\<exists>b. fst (Acquire 0 0 ''t'' (Some (fold (arrives 0) other_names (?l 1)))) = Inr (Some b)"
    using evicted_tenant_readmitted [OF run, of "''t''" 0 other_names 0 0]
    by (simp add: lru_look_def sample_defs slots_def) blast
  moreover have "busy ''t'' {#Holding ''t'' 0 False#} = 1" "Concurrent ?lims = 1" by (simp_all add: busy_def)
  ultimately show ?thesis using run by blast
qed

end
