(* ===== verification/Credential_Exit.thy ===== *)
theory Credential_Exit
  imports Go_Prelude
begin

text \<open>
  How a caller's credential enters and leaves the proxy: which header carries the proxy's own token and
  which the provider key (\<open>src/proxy/tenancy.go\<close>), the headers that are forwarded (\<open>copyHeaders\<close> and
  \<open>setUpstreamAuth\<close> of \<open>src/proxy/proxy.go\<close>), the credential a component's model call is given
  (\<open>incomingModel\<close>, \<open>AuthHeader\<close> of \<open>src/proxy/dispatcher.go\<close>) and the one the keep-alive holds
  (\<open>heldAuth\<close> of \<open>src/proxy/credmask.go\<close>).

  A header map gives the values of each name. \<open>net/http\<close> keeps one spelling per name whatever its
  letters' case, here the lower-case one; a name without values is absent. The environment is a
  parameter. Masking is the identity: it changes how a value is kept in memory, not what is sent.
\<close>

type_synonym http_header = "string \<Rightarrow> string list"

definition lower_char :: "char \<Rightarrow> char" where
  "lower_char c = (let n = (of_char c :: nat) in if 65 \<le> n \<and> n \<le> 90 then char_of (n + 32) else c)"

definition lower :: "string \<Rightarrow> string" where "lower s = map lower_char s"

text \<open>\<open>Get\<close>, \<open>Set\<close> and \<open>Del\<close> of \<open>http.Header\<close>.\<close>

definition header_get :: "http_header \<Rightarrow> string \<Rightarrow> string" where
  "header_get h k = (case h (lower k) of [] \<Rightarrow> [] | v # _ \<Rightarrow> v)"

definition header_set :: "http_header \<Rightarrow> string \<Rightarrow> string \<Rightarrow> http_header" where
  "header_set h k v = h(lower k := [v])"

definition header_del :: "http_header \<Rightarrow> string \<Rightarrow> http_header" where
  "header_del h k = h(lower k := [])"

section \<open>Tokens and keys\<close>

definition TokenHeader :: string where "TokenHeader = ''x-context-guru-token''"
definition authHeaders :: "string list" where "authHeaders = [''Authorization'', ''x-api-key'', ''x-goog-api-key'']"
definition TokenPrefix :: string where "TokenPrefix = ''cg_live_''"
definition tokenBody :: nat where "tokenBody = 26"
definition tokenLen :: nat where "tokenLen = length TokenPrefix + tokenBody"

definition LooksLikeToken :: "string \<Rightarrow> bool" where
  "LooksLikeToken s \<longleftrightarrow> has_prefix s TokenPrefix \<and> length s = tokenLen"

definition tokenShaped :: "string \<Rightarrow> bool" where
  "tokenShaped s \<longleftrightarrow> has_prefix s TokenPrefix"

definition headerCredential :: "string \<Rightarrow> string" where
  "headerCredential v =
     (case str_fields v of
        [a, b] \<Rightarrow> b
      | [a] \<Rightarrow> if lower a \<noteq> ''bearer'' then a else []
      | _ \<Rightarrow> [])"

definition slot_credential :: "http_header \<Rightarrow> string \<Rightarrow> string" where
  "slot_credential h name = headerCredential (header_get h name)"

definition TokenFromRequest :: "http_header \<Rightarrow> string" where
  "TokenFromRequest h =
     (let t = slot_credential h TokenHeader in
      if t \<noteq> [] then t
      else case find LooksLikeToken (map (slot_credential h) authHeaders) of Some v \<Rightarrow> v | None \<Rightarrow> [])"

text \<open>The first slot with a credential that is no token, which both of the next functions look for.\<close>

definition caller_slot :: "http_header \<Rightarrow> string option" where
  "caller_slot h = find (\<lambda>n. slot_credential h n \<noteq> [] \<and> \<not> LooksLikeToken (slot_credential h n)) authHeaders"

definition CallerAuthScheme :: "http_header \<Rightarrow> string" where
  "CallerAuthScheme h = (if caller_slot h = Some ''Authorization'' then ''bearer'' else [])"

definition CallerKey :: "http_header \<Rightarrow> string" where
  "CallerKey h = (case caller_slot h of Some n \<Rightarrow> slot_credential h n | None \<Rightarrow> [])"

definition scrub_slot :: "http_header \<Rightarrow> string \<Rightarrow> http_header" where
  "scrub_slot h name =
     (if list_ex (\<lambda>v. tokenShaped (headerCredential v)) (h (lower name)) then header_del h name else h)"

definition scrubToken :: "http_header \<Rightarrow> http_header" where
  "scrubToken h = foldl scrub_slot (header_del h TokenHeader) authHeaders"

section \<open>The upstream and its credential\<close>

record Upstream =
  Dialect :: string
  BaseURL :: string
  KeyEnv :: string
  Header :: string

text \<open>An injector sets one header; \<open>None\<close> forwards the caller's own credential.\<close>

type_synonym injector = "(string \<times> string) option"

datatype auth_error = errKeyEnvUnset | errNoUpstreamFor | errNoProviderKey | errNoCredentialConfigured string

definition setKey :: "(string \<Rightarrow> string) \<Rightarrow> Upstream \<Rightarrow> auth_error + injector" where
  "setKey getenv u =
     (if KeyEnv u = [] then Inr None
      else let key = getenv (KeyEnv u) in
        if key = [] then Inl errKeyEnvUnset
        else if Header u \<noteq> [] \<and> lower (Header u) \<noteq> ''authorization'' then Inr (Some (Header u, key))
        else if Dialect u = ''anthropic'' then Inr (Some (''x-api-key'', key))
        else Inr (Some (''Authorization'', ''Bearer '' @ key)))"

record upstream =
  up_base :: string
  up_path :: string
  up_setKey :: injector

text \<open>\<open>hosted\<close> says that \<open>opts.Tenants\<close> is set; \<open>name\<close> is the tenant's choice for the dialect.\<close>

definition upstreamFor :: "(string \<Rightarrow> string) \<Rightarrow> bool \<Rightarrow> (string \<rightharpoonup> Upstream) \<Rightarrow> http_header \<Rightarrow> string \<Rightarrow> upstream \<Rightarrow> auth_error + upstream" where
  "upstreamFor getenv hosted ups h choice static =
     (if \<not> hosted then Inr static
      else let name = trim_space choice in
        if name = [] then Inl errNoUpstreamFor
        else case ups name of
               None \<Rightarrow> Inl errNoUpstreamFor
             | Some u \<Rightarrow>
                 if BaseURL u = [] then Inl errNoUpstreamFor
                 else case setKey getenv u of
                        Inl e \<Rightarrow> Inl (errNoCredentialConfigured name)
                      | Inr setter \<Rightarrow>
                          if setter = None \<and> CallerKey h = [] then Inl errNoProviderKey
                          else Inr \<lparr>up_base = BaseURL u, up_path = up_path static, up_setKey = setter\<rparr>)"

section \<open>The exits\<close>

definition hop_headers :: "string list" where
  "hop_headers = [''connection'', ''keep-alive'', ''transfer-encoding'', ''content-length'', ''host'']"

definition copyHeaders :: "http_header \<Rightarrow> http_header \<Rightarrow> http_header" where
  "copyHeaders dst src =
     header_del
       (\<lambda>k. if k \<in> set hop_headers \<or> has_prefix k ''x-context-guru-'' \<or> src k = [] then dst k else src k)
       ''Cookie''"

definition setUpstreamAuth :: "http_header \<Rightarrow> upstream \<Rightarrow> http_header" where
  "setUpstreamAuth dst up =
     (case up_setKey up of
        None \<Rightarrow> scrubToken dst
      | Some (name, v) \<Rightarrow> header_set (header_del (foldl header_del dst authHeaders) TokenHeader) name v)"

text \<open>The forwarded request, as every forward path builds it.\<close>

definition forwarded :: "http_header \<Rightarrow> upstream \<Rightarrow> http_header" where
  "forwarded h up = setUpstreamAuth (copyHeaders (\<lambda>k. []) h) up"

datatype provider = Anthropic | OpenAI | OtherProvider

definition AuthHeader :: "provider \<Rightarrow> string \<Rightarrow> string \<Rightarrow> http_header" where
  "AuthHeader p key scheme =
     (if p = OpenAI \<or> scheme = ''bearer'' then (\<lambda>k. [])(''authorization'' := [''Bearer '' @ key])
      else (\<lambda>k. [])(''x-api-key'' := [key]))"

definition serverKey :: "bool \<Rightarrow> string \<Rightarrow> string" where
  "serverKey hosted key = (if hosted then [] else key)"

text \<open>
  The credential of a component's own model call, and the header its dispatcher sends: the held values
  added to the call's own headers \<open>extra\<close>, then the same decision as for the forwarded request.
\<close>

definition incomingModel :: "bool \<Rightarrow> string \<Rightarrow> string \<Rightarrow> provider \<Rightarrow> upstream \<Rightarrow> string \<Rightarrow> http_header \<Rightarrow> http_header option" where
  "incomingModel hosted anthropicKey openaiKey p up model h =
     (if up_base up = [] \<or> model = [] then None
      else
        (let key = (if up_setKey up \<noteq> None then [] else CallerKey h);
             scheme = (if key = [] then [] else CallerAuthScheme h)
         in case p of
              Anthropic \<Rightarrow>
                (let key = (if key = [] then serverKey hosted anthropicKey else key)
                 in if key = [] then None else Some (AuthHeader Anthropic key scheme))
            | OpenAI \<Rightarrow>
                (let key = (if key = [] then serverKey hosted openaiKey else key)
                 in if key = [] then None else Some (AuthHeader OpenAI key []))
            | OtherProvider \<Rightarrow> None))"

definition dispatched :: "http_header \<Rightarrow> http_header \<Rightarrow> upstream \<Rightarrow> http_header" where
  "dispatched extra auth up = setUpstreamAuth (\<lambda>k. extra k @ auth k) up"

text \<open>What the keep-alive holds of the caller: the auth slots, scrubbed.\<close>

definition heldAuth :: "upstream \<Rightarrow> http_header \<Rightarrow> http_header option" where
  "heldAuth up h =
     (if up_setKey up \<noteq> None then None
      else Some (scrubToken (\<lambda>k. if k \<in> set (map lower authHeaders) then h k else [])))"

section \<open>What leaves\<close>

lemma lower_names [simp]:
  "lower ''Authorization'' = ''authorization''" "lower ''x-api-key'' = ''x-api-key''"
  "lower ''x-goog-api-key'' = ''x-goog-api-key''" "lower ''Cookie'' = ''cookie''"
  "lower ''x-context-guru-token'' = ''x-context-guru-token''"
  by code_simp+

definition auth_slots :: "string set" where
  "auth_slots = {''authorization'', ''x-api-key'', ''x-goog-api-key''}"

lemma lower_authHeaders: "lower ` set authHeaders = auth_slots"
  by (simp add: authHeaders_def auth_slots_def)

definition has_token :: "string list \<Rightarrow> bool" where
  "has_token vs \<longleftrightarrow> list_ex (\<lambda>v. tokenShaped (headerCredential v)) vs"

text \<open>\<open>scrubToken\<close> slot by slot: the token header goes, a slot with a token-shaped value goes, the rest stays.\<close>

lemma scrubToken_exact:
  "scrubToken h k =
     (if k = TokenHeader \<or> (k \<in> auth_slots \<and> has_token (h k)) then [] else h k)"
  by (auto simp: scrubToken_def authHeaders_def scrub_slot_def header_del_def auth_slots_def has_token_def TokenHeader_def)

lemma no_token_empty [simp]: "\<not> has_token []"
  by (simp add: has_token_def)

lemma scrubbed_clean: "k \<in> auth_slots \<Longrightarrow> \<not> has_token (scrubToken h k)"
  by (simp add: scrubToken_exact)

lemma gateway_header:
  "up_setKey up = Some (name, v) \<Longrightarrow>
   setUpstreamAuth h up k = (if k = lower name then [v] else if k \<in> auth_slots \<or> k = TokenHeader then [] else h k)"
  by (auto simp: setUpstreamAuth_def authHeaders_def header_set_def header_del_def auth_slots_def TokenHeader_def)

lemma copyHeaders_exact:
  "copyHeaders (\<lambda>k. []) h k =
     (if k = ''cookie'' \<or> k \<in> set hop_headers \<or> has_prefix k ''x-context-guru-'' then [] else h k)"
  by (simp add: copyHeaders_def header_del_def)

lemma slot_names_forwarded: "k \<in> auth_slots \<Longrightarrow> copyHeaders (\<lambda>k. []) h k = h k"
  by (auto simp: copyHeaders_exact auth_slots_def hop_headers_def has_prefix_def)

text \<open>A token-shaped credential is seen by the strict test or by the loose one only.\<close>

lemma Looks_shaped: "LooksLikeToken s \<Longrightarrow> tokenShaped s"
  by (simp add: LooksLikeToken_def tokenShaped_def)

lemma caller_slot_cases:
  "caller_slot h = Some n \<Longrightarrow> n \<in> set authHeaders \<and> slot_credential h n \<noteq> [] \<and> \<not> LooksLikeToken (slot_credential h n)"
  by (auto simp: caller_slot_def find_Some_iff)

lemma injected_slot: "setKey getenv u = Inr (Some (n, v)) \<Longrightarrow> v \<noteq> [] \<and>
    (v = getenv (KeyEnv u) \<or> v = ''Bearer '' @ getenv (KeyEnv u))"
  by (auto simp: setKey_def Let_def split: if_splits)

lemma forwarded_slot:
  "k \<in> auth_slots \<Longrightarrow> up_setKey up = None \<Longrightarrow> forwarded h up k = (if has_token (h k) then [] else h k)"
proof -
  assume k: "k \<in> auth_slots" "up_setKey up = None"
  then have "k \<noteq> TokenHeader" by (auto simp: auth_slots_def TokenHeader_def)
  with k show ?thesis by (simp add: forwarded_def setUpstreamAuth_def scrubToken_exact slot_names_forwarded)
qed

text \<open>
  C37: Whatever headers a request carries. When the caller pays, no auth slot of any exit (the forwarded
  request, a component's own model call, the keep-alive's held copy) holds a value whose credential is
  token-shaped, and a forwarded slot holds the caller's values or, when one of them was token-shaped,
  nothing. With a server-held key the forwarded slots hold that key alone, nothing of the caller is held,
  and a component's call does not depend on the caller's headers.
\<close>

theorem no_exit_carries_a_token:
  assumes slot: "k \<in> auth_slots"
  shows "case up_setKey up of
      None \<Rightarrow>
        \<not> has_token (forwarded h up k) \<and> \<not> has_token (dispatched extra auth up k) \<and>
        forwarded h up k = (if has_token (h k) then [] else h k) \<and>
        (\<exists>held. heldAuth up h = Some held \<and> held k = forwarded h up k)
    | Some (name, v) \<Rightarrow>
        forwarded h up k = (if k = lower name then [v] else []) \<and>
        dispatched extra auth up k = (if k = lower name then [v] else []) \<and> heldAuth up h = None \<and>
        incomingModel hosted ak ok p up model h = incomingModel hosted ak ok p up model (\<lambda>k. [])"
proof (cases "up_setKey up")
  case None
  have k: "k \<noteq> TokenHeader" using slot by (auto simp: auth_slots_def TokenHeader_def)
  have f: "forwarded h up k = (if has_token (h k) then [] else h k)"
    by (rule forwarded_slot [OF slot None])
  have "\<not> has_token (dispatched extra auth up k)"
    using slot by (simp add: dispatched_def setUpstreamAuth_def None scrubbed_clean)
  moreover have "\<exists>held. heldAuth up h = Some held \<and> held k = forwarded h up k"
    using slot k by (simp add: heldAuth_def None scrubToken_exact lower_authHeaders f)
  ultimately show ?thesis using f None by simp
next
  case (Some nv)
  then show ?thesis using slot
    by (cases nv) (simp add: forwarded_def dispatched_def gateway_header heldAuth_def incomingModel_def)
qed

definition sample_up :: upstream where
  "sample_up = \<lparr>up_base = ''https'', up_path = [], up_setKey = None\<rparr>"

definition sample_token :: string where
  "sample_token = TokenPrefix @ replicate 26 CHR ''A''"

lemmas cred_defs = TokenPrefix_def tokenBody_def tokenLen_def LooksLikeToken_def tokenShaped_def headerCredential_def
  slot_credential_def header_get_def caller_slot_def authHeaders_def has_prefix_def

section \<open>Where the two tests of a token differ\<close>

text \<open>Printable ASCII words and how \<open>Fields\<close> splits them.\<close>

definition plain :: "string \<Rightarrow> bool" where
  "plain w \<longleftrightarrow> w \<noteq> [] \<and> (\<forall>c \<in> set w. 33 \<le> (of_char c :: nat) \<and> (of_char c :: nat) < 127)"

lemma plain_no_space: "33 \<le> (of_char c :: nat) \<Longrightarrow> (of_char c :: nat) < 127 \<Longrightarrow> space_len wide_spaces (c # s) = 0"
proof -
  assume c: "33 \<le> (of_char c :: nat)" "(of_char c :: nat) < 127"
  have "list_all (\<lambda>d. (of_char d :: nat) < 33) [CHR 0x09, CHR 0x0A, CHR 0x0B, CHR 0x0C, CHR 0x0D, CHR 0x20]" by code_simp
  then have 1: "\<not> is_space c" using c by (force simp: is_space_def)
  have w: "list_all (\<lambda>w. w \<noteq> [] \<and> 127 < (of_char (hd w) :: nat)) wide_spaces" by code_simp
  have "\<not> has_prefix (c # s) w" if "w \<in> set wide_spaces" for w
    using w that c by (cases w) (auto simp: list_all_iff has_prefix_iff)
  then have "find (has_prefix (c # s)) wide_spaces = None" by (simp add: find_None_iff)
  with 1 show ?thesis by (simp add: space_len_def)
qed

lemma take_word_plain: "\<forall>c \<in> set w. 33 \<le> (of_char c :: nat) \<and> (of_char c :: nat) < 127 \<Longrightarrow>
  take_word (w @ s) = (w @ fst (take_word s), snd (take_word s))"
  by (induction w) (simp_all add: plain_no_space split: prod.splits)

lemma drop_spaces_plain: "plain w \<Longrightarrow> drop_spaces wide_spaces (w @ s) = w @ s"
  by (cases w) (auto simp: plain_def drop_spaces.simps plain_no_space)

lemma fields_one: "plain w \<Longrightarrow> str_fields w = [w]"
  using drop_spaces_plain [of w "[]"] take_word_plain [of w "[]"]
  by (cases w) (auto simp: plain_def str_fields.simps drop_spaces.simps)

lemma fields_two:
  assumes "plain v" "plain w"
  shows "str_fields (v @ '' '' @ w) = [v, w]"
proof -
  have sp: "space_len wide_spaces ('' '' @ w) = 1" by (simp add: space_len_def is_space_def)
  then have "take_word (v @ '' '' @ w) = (v, '' '' @ w)"
    using take_word_plain [of v "'' '' @ w"] assms(1) by (simp add: plain_def)
  moreover have "str_fields ('' '' @ w) = [w]"
  proof -
    have "drop_spaces wide_spaces ('' '' @ w) = w"
      using sp drop_spaces_plain [OF assms(2), of "[]"] by (subst drop_spaces.simps) simp
    then show ?thesis using fields_one [OF assms(2)] drop_spaces_plain [OF assms(2), of "[]"]
      by (simp add: str_fields.simps)
  qed
  ultimately show ?thesis using drop_spaces_plain [OF assms(1), of "'' '' @ w"] assms(1)
    by (subst str_fields.simps) (cases v; simp add: plain_def)
qed

definition one_header :: "string \<Rightarrow> string \<Rightarrow> http_header" where
  "one_header k v = (\<lambda>j. if j = k then [v] else [])"

lemma fields_empty: "str_fields [] = []"
  by (simp add: str_fields.simps drop_spaces.simps)

lemma CallerKey_one:
  "headerCredential v \<noteq> [] \<Longrightarrow> \<not> LooksLikeToken (headerCredential v) \<Longrightarrow> CallerKey (one_header ''x-api-key'' v) = headerCredential v"
  by (simp add: CallerKey_def caller_slot_def authHeaders_def slot_credential_def header_get_def one_header_def
      headerCredential_def [of "[]"] fields_empty)

lemma lower_token: "has_prefix t TokenPrefix \<Longrightarrow> lower t \<noteq> ''bearer''"
  by (auto simp: has_prefix_iff TokenPrefix_def lower_def lower_char_def Let_def)

text \<open>
  C38: Two gaps between the tests for a token. A value of an auth slot that is a token followed by another
  word is forwarded as it is, the token with it. A token that lost its last character passes as the
  caller's provider key, so the request is admitted to a caller-pays upstream, and is then scrubbed, so
  that it leaves without any credential.
\<close>

theorem token_tests_disagree:
  assumes t: "LooksLikeToken t" "plain t" and w: "plain w" "\<not> tokenShaped w"
    and u: "ups (trim_space name) = Some u" "trim_space name \<noteq> []" "BaseURL u \<noteq> []" "KeyEnv u = []"
    and up: "up_setKey up = None"
  shows "forwarded (one_header ''x-api-key'' (t @ '' '' @ w)) up ''x-api-key'' = [t @ '' '' @ w] \<and>
    (\<exists>sent. upstreamFor getenv True ups (one_header ''x-api-key'' (butlast t)) name static = Inr sent \<and>
       forwarded (one_header ''x-api-key'' (butlast t)) sent ''x-api-key'' = [])"
proof
  have k: "''x-api-key'' \<in> auth_slots" by (simp add: auth_slots_def)
  have fw: "forwarded (one_header ''x-api-key'' v) up' ''x-api-key'' = (if tokenShaped (headerCredential v) then [] else [v])"
    if "up_setKey up' = None" for v up'
    using that forwarded_slot [OF k, of up' "one_header ''x-api-key'' v"] by (simp add: one_header_def has_token_def)
  have "headerCredential (t @ '' '' @ w) = w" using fields_two [OF t(2) w(1)] by (simp add: headerCredential_def)
  then show "forwarded (one_header ''x-api-key'' (t @ '' '' @ w)) up ''x-api-key'' = [t @ '' '' @ w]"
    using fw [OF up] w(2) by simp
  obtain b where b: "t = TokenPrefix @ b" "length b = 26"
    using t(1) by (auto simp: LooksLikeToken_def has_prefix_iff tokenLen_def tokenBody_def)
  then have "b \<noteq> []" by auto
  then have bt: "butlast t = TokenPrefix @ butlast b" "has_prefix (butlast t) TokenPrefix" "length (butlast t) < tokenLen"
    using b by (simp_all add: butlast_append tokenLen_def tokenBody_def)
  have "plain (butlast t)" using t(2) bt(2) in_set_butlastD [of _ t] by (fastforce simp: plain_def has_prefix_def TokenPrefix_def)
  then have hc: "headerCredential (butlast t) = butlast t"
    using lower_token [OF bt(2)] by (simp add: headerCredential_def fields_one)
  have "CallerKey (one_header ''x-api-key'' (butlast t)) = butlast t"
    using CallerKey_one [of "butlast t"] hc bt by (simp add: LooksLikeToken_def TokenPrefix_def)
  then have "CallerKey (one_header ''x-api-key'' (butlast t)) \<noteq> []" using bt(1) by (simp add: TokenPrefix_def)
  then have "upstreamFor getenv True ups (one_header ''x-api-key'' (butlast t)) name static =
      Inr \<lparr>up_base = BaseURL u, up_path = up_path static, up_setKey = None\<rparr>"
    using u by (simp add: upstreamFor_def setKey_def Let_def)
  then show "\<exists>sent. upstreamFor getenv True ups (one_header ''x-api-key'' (butlast t)) name static = Inr sent \<and>
       forwarded (one_header ''x-api-key'' (butlast t)) sent ''x-api-key'' = []"
    using fw [of "\<lparr>up_base = BaseURL u, up_path = up_path static, up_setKey = None\<rparr>" "butlast t"] hc bt(2)
    by (simp add: tokenShaped_def)
qed

theorem no_exit_carries_a_token_witness:
  "forwarded (one_header ''x-api-key'' sample_token) sample_up ''x-api-key'' = [] \<and>
   \<not> has_token (dispatched (\<lambda>k. []) (one_header ''x-api-key'' sample_token) sample_up ''x-api-key'')"
proof -
  have "has_token (one_header ''x-api-key'' sample_token ''x-api-key'')" by code_simp
  then show ?thesis
    using no_exit_carries_a_token [where up = sample_up and k = "''x-api-key''" and h = "one_header ''x-api-key'' sample_token" and extra = "\<lambda>k. []" and auth = "one_header ''x-api-key'' sample_token"]
    by (simp add: auth_slots_def sample_up_def)
qed

definition sample_upstream :: Upstream where
  "sample_upstream = \<lparr>Dialect = ''anthropic'', BaseURL = ''https'', KeyEnv = [], Header = []\<rparr>"

theorem token_tests_disagree_witness:
  "forwarded (one_header ''x-api-key'' (sample_token @ '' '' @ ''x'')) sample_up ''x-api-key'' = [sample_token @ '' '' @ ''x'']"
proof -
  have "LooksLikeToken sample_token" "plain sample_token" "plain ''x''" "\<not> tokenShaped ''x''" "trim_space ''main'' \<noteq> []"
    by (code_simp, simp add: plain_def sample_token_def TokenPrefix_def, simp add: plain_def, code_simp, code_simp)
  then show ?thesis
    using token_tests_disagree [of sample_token "''x''" "\<lambda>n. Some sample_upstream" "''main''" sample_upstream sample_up "\<lambda>n. []" sample_up]
    by (simp add: sample_upstream_def sample_up_def)
qed

end
