(* ===== verification/Decimal_Text.thy ===== *)
theory Decimal_Text
  imports Go_Prelude
begin

text \<open>
  Decimal numbers as text: \<open>strconv.Itoa\<close> writes digits only, and two numbers are written alike only
  when they are the same. Paths into a JSON document and the references of the dispatcher rest on it.
\<close>

definition digit_char :: "nat \<Rightarrow> char" where "digit_char n = char_of (48 + n)"

lemma digit_char_less: "n < 10 \<Longrightarrow> (of_char (digit_char n) :: nat) = 48 + n"
  by (simp add: digit_char_def)

lemma digit_char_inj: "m < 10 \<Longrightarrow> n < 10 \<Longrightarrow> digit_char m = digit_char n \<Longrightarrow> m = n"
  by (metis add_left_cancel digit_char_less)

lemma nat_digits_small: "n < 10 \<Longrightarrow> nat_digits n = [digit_char n]"
  by (subst nat_digits.simps) (simp add: digit_char_def)

lemma nat_digits_big: "\<not> n < 10 \<Longrightarrow> nat_digits n = nat_digits (n div 10) @ [digit_char (n mod 10)]"
  by (subst nat_digits.simps) (simp add: digit_char_def)

lemma nat_digits_nonempty [simp]: "nat_digits n \<noteq> []"
  by (cases "n < 10") (simp_all add: nat_digits_small nat_digits_big)

lemma nat_digits_inj: "nat_digits m = nat_digits n \<Longrightarrow> m = n"
proof (induction m arbitrary: n rule: nat_digits.induct)
  case (1 m)
  consider "m < 10" "n < 10" | "m < 10" "\<not> n < 10" | "\<not> m < 10" "n < 10" | "\<not> m < 10" "\<not> n < 10" by blast
  then show ?case
  proof cases
    case 1
    with "1.prems" show ?thesis by (auto simp: nat_digits_small dest: digit_char_inj)
  next
    case 4
    with "1.prems" have e: "nat_digits (m div 10) = nat_digits (n div 10)" "digit_char (m mod 10) = digit_char (n mod 10)"
      by (simp_all add: nat_digits_big)
    from e(1) "1.IH" 4(1) have "m div 10 = n div 10" by blast
    moreover from e(2) have "m mod 10 = n mod 10" by (rule digit_char_inj [rotated 2]) simp_all
    ultimately show ?thesis by (metis div_mult_mod_eq)
  qed (use "1.prems" in \<open>auto simp: nat_digits_small nat_digits_big dest: arg_cong [of _ _ length]\<close>)
qed

lemma nat_digits_eq [simp]: "nat_digits m = nat_digits n \<longleftrightarrow> m = n"
  using nat_digits_inj by blast

lemma nat_digits_chars: "c \<in> set (nat_digits n) \<Longrightarrow> 48 \<le> (of_char c :: nat) \<and> (of_char c :: nat) < 58"
proof (induction n rule: nat_digits.induct)
  case (1 n)
  have "n mod 10 < 10" by simp
  then show ?case using 1 by (cases "n < 10") (auto simp: nat_digits_small nat_digits_big digit_char_less)
qed

lemma nat_digits_no_dot [simp]: "CHR ''.'' \<notin> set (nat_digits n)"
  using nat_digits_chars [of "CHR ''.''" n] by auto

end
