(* ===== verification/Ref_Dispatcher.thy ===== *)
theory Ref_Dispatcher
  imports Credential_Exit Keepalive_Custody Decimal_Text "HOL-Library.List_Lexorder" "HOL-Library.Char_ord"
begin

text \<open>
  The host's half of every external call (\<open>src/proxy/dispatcher.go\<close>): per reference an upstream and a
  credential, for the keep-alive's holds, for the operator's pinned model, and for the model calls of a
  request, which share a reference per credential and expire. Together with the keeper's log of calls it
  is shown that what the dispatcher holds for the keep-alive is what the keeper's live entries hold.

  A held header is its name and value; masking and wiping are not modelled, the hash of the dedup key is
  the parameter \<open>sha\<close>. The counter of references is unbounded where the code has 64 bits.
\<close>

definition IncomingRefTTL :: duration where "IncomingRefTTL = 7200 * second"

datatype targetKind = kindSession | kindPinned | kindIncoming

record target =
  g_kind :: targetKind
  g_up :: upstream
  g_auth :: "(string \<times> string) list"
  g_key :: string
  g_dedupKey :: string
  g_lastUse :: instant

record Dispatcher =
  d_next :: nat
  d_held :: "(Ref \<times> target) list"
  d_incomingByKey :: "(string \<times> Ref) list"

definition NewDispatcher :: Dispatcher where
  "NewDispatcher = \<lparr>d_next = 0, d_held = [], d_incomingByKey = []\<rparr>"

text \<open>The slots of a credential header in the order of their names.\<close>

definition slot_names :: "string list" where
  "slot_names = [''authorization'', ''x-api-key'', ''x-goog-api-key'']"

definition maskHeaders :: "http_header \<Rightarrow> (string \<times> string) list" where
  "maskHeaders h = concat (map (\<lambda>n. map (Pair n) (h n)) slot_names)"

definition unmasked :: "(string \<times> string) list \<Rightarrow> http_header" where
  "unmasked auth k = map snd (filter (\<lambda>(n, v). n = k) auth)"

definition ref_name :: "nat \<Rightarrow> Ref" where "ref_name n = CHR ''r'' # nat_digits n"

definition issueLocked :: "target \<Rightarrow> Dispatcher \<Rightarrow> Ref \<times> Dispatcher" where
  "issueLocked t d =
     (let n = d_next d + 1
      in (ref_name n, d\<lparr>d_next := n, d_held := AList.update (ref_name n) t (d_held d)\<rparr>))"

definition Pin :: "string \<Rightarrow> http_header \<Rightarrow> Dispatcher \<Rightarrow> Ref \<times> Dispatcher" where
  "Pin base auth d =
     issueLocked \<lparr>g_kind = kindPinned, g_up = \<lparr>up_base = base, up_path = [], up_setKey = None\<rparr>,
                  g_auth = maskHeaders auth, g_key = [], g_dedupKey = [], g_lastUse = 0\<rparr> d"

record CheapModelConfig =
  Provider :: string
  CBaseURL :: string
  APIKey :: string
  Auth :: string

definition pinCheapModel :: "CheapModelConfig \<Rightarrow> Dispatcher \<Rightarrow> Ref \<times> Dispatcher" where
  "pinCheapModel cfg d =
     (if Provider cfg = ''openai''
      then Pin (if CBaseURL cfg = [] then ''https://api.openai.com'' else CBaseURL cfg) (AuthHeader provider.OpenAI (APIKey cfg) []) d
      else Pin (if CBaseURL cfg = [] then ''https://api.anthropic.com'' else CBaseURL cfg)
             (AuthHeader provider.Anthropic (APIKey cfg) (Auth cfg)) d)"

definition hold_ref :: "string \<Rightarrow> upstream \<Rightarrow> http_header \<Rightarrow> Dispatcher \<Rightarrow> Ref \<times> Dispatcher" where
  "hold_ref key up reqHeaders d =
     issueLocked \<lparr>g_kind = kindSession, g_up = up,
                  g_auth = (case heldAuth up reqHeaders of None \<Rightarrow> [] | Some h \<Rightarrow> maskHeaders h),
                  g_key = key, g_dedupKey = [], g_lastUse = 0\<rparr> d"

definition Release_ref :: "Ref \<Rightarrow> Dispatcher \<Rightarrow> Dispatcher" where
  "Release_ref ref d = d\<lparr>d_held := AList.delete ref (d_held d)\<rparr>"

definition incomingDedupKey :: "(string \<Rightarrow> string) \<Rightarrow> string \<Rightarrow> http_header \<Rightarrow> string" where
  "incomingDedupKey sha base auth =
     sha (base @ concat (map (\<lambda>n. [CHR 0x00] @ n @ concat (map (\<lambda>v. [CHR 0x00] @ v) (sort (auth n))))
                          (filter (\<lambda>n. auth n \<noteq> []) slot_names)))"

definition dropIncomingLocked :: "Ref \<Rightarrow> target \<Rightarrow> Dispatcher \<Rightarrow> Dispatcher" where
  "dropIncomingLocked ref t d =
     (let d = d\<lparr>d_held := AList.delete ref (d_held d)\<rparr>
      in if map_of (d_incomingByKey d) (g_dedupKey t) = Some ref
         then d\<lparr>d_incomingByKey := AList.delete (g_dedupKey t) (d_incomingByKey d)\<rparr>
         else d)"

definition issue_incoming :: "instant \<Rightarrow> string \<Rightarrow> upstream \<Rightarrow> http_header \<Rightarrow> Dispatcher \<Rightarrow> Ref \<times> Dispatcher" where
  "issue_incoming now key up auth d =
     (let (ref, d) = issueLocked \<lparr>g_kind = kindIncoming, g_up = up, g_auth = maskHeaders auth,
                                  g_key = [], g_dedupKey = key, g_lastUse = now\<rparr> d
      in (ref, d\<lparr>d_incomingByKey := AList.update key ref (d_incomingByKey d)\<rparr>))"

text \<open>\<open>None\<close> is the panic on a nil target, when the index names a reference that is not held.\<close>

definition incoming :: "(string \<Rightarrow> string) \<Rightarrow> instant \<Rightarrow> upstream \<Rightarrow> http_header \<Rightarrow> Dispatcher \<Rightarrow> (Ref \<times> Dispatcher) option" where
  "incoming sha now up auth d =
     (let key = incomingDedupKey sha (up_base up) auth in
      case map_of (d_incomingByKey d) key of
        None \<Rightarrow> Some (issue_incoming now key up auth d)
      | Some ref \<Rightarrow>
          (case map_of (d_held d) ref of
             None \<Rightarrow> None
           | Some t \<Rightarrow>
               if now - g_lastUse t \<le> IncomingRefTTL
               then Some (ref, d\<lparr>d_held := AList.update ref (t\<lparr>g_lastUse := now\<rparr>) (d_held d)\<rparr>)
               else Some (issue_incoming now key up auth (dropIncomingLocked ref t d))))"

text \<open>One entry of the index, visited by the loop of \<open>sweepIncoming\<close>.\<close>

definition sweep_one :: "instant \<Rightarrow> string \<times> Ref \<Rightarrow> Dispatcher \<Rightarrow> Dispatcher" where
  "sweep_one now x d =
     (case map_of (d_held d) (snd x) of
        Some t \<Rightarrow>
          if now - g_lastUse t > IncomingRefTTL
          then d\<lparr>d_held := AList.delete (snd x) (d_held d), d_incomingByKey := AList.delete (fst x) (d_incomingByKey d)\<rparr>
          else d
      | None \<Rightarrow> d)"

definition sweepIncoming :: "instant \<Rightarrow> Dispatcher \<Rightarrow> Dispatcher" where
  "sweepIncoming now d = fold (sweep_one now) (d_incomingByKey d) d"

text \<open>The locked part of \<open>Do\<close>: the material it copies, with the two readings of the clock.\<close>

definition Do_resolve :: "instant \<Rightarrow> instant \<Rightarrow> Ref \<Rightarrow> Dispatcher \<Rightarrow> (upstream \<times> (string \<times> string) list) option \<times> Dispatcher" where
  "Do_resolve now later ref d =
     (case map_of (d_held d) ref of
        None \<Rightarrow> (None, d)
      | Some t \<Rightarrow>
          if g_kind t = kindIncoming
          then if now - g_lastUse t > IncomingRefTTL then (None, dropIncomingLocked ref t d)
               else (Some (g_up t, g_auth t), d\<lparr>d_held := AList.update ref (t\<lparr>g_lastUse := later\<rparr>) (d_held d)\<rparr>)
          else (Some (g_up t, g_auth t), d))"

datatype do_result = ErrNotHeld | ErrNoUpstream | Sends string string http_header

definition trim_right_slash :: "string \<Rightarrow> string" where
  "trim_right_slash s = rev (dropWhile (\<lambda>c. c = CHR ''/'') (rev s))"

text \<open>What is handed to the transport: method, URL and headers. \<open>extra\<close> are the request's own headers.\<close>

definition Do :: "instant \<Rightarrow> instant \<Rightarrow> Ref \<Rightarrow> string \<Rightarrow> string \<Rightarrow> http_header \<Rightarrow> Dispatcher \<Rightarrow> do_result \<times> Dispatcher" where
  "Do now later ref reqMethod path extra d =
     (case Do_resolve now later ref d of
        (None, d') \<Rightarrow> (ErrNotHeld, d')
      | (Some (up, auth), d') \<Rightarrow>
          if up_base up = [] then (ErrNoUpstream, d')
          else (Sends (if reqMethod = [] then ''POST'' else reqMethod) (trim_right_slash (up_base up) @ path)
                  (dispatched extra (unmasked auth) up), d'))"

section \<open>Runs\<close>

text \<open>
  A run of the dispatcher with the custody calls of the keeper in their order; the other operations may
  come in between at any time. The third argument logs the holds: the reference each was given, and the
  entry, upstream and request headers it was called with.
\<close>

type_synonym issued_hold = "Ref \<times> string \<times> upstream \<times> http_header"

inductive dispatch_run :: "(string \<Rightarrow> string) \<Rightarrow> keeper_call list \<Rightarrow> issued_hold list \<Rightarrow> Dispatcher \<Rightarrow> bool"
  for sha :: "string \<Rightarrow> string" where
  start: "dispatch_run sha [] [] NewDispatcher"
| held: "dispatch_run sha cs I d \<Longrightarrow> hold_ref key up h d = (ref, d') \<Longrightarrow>
    dispatch_run sha (cs @ [CallHold ref]) (I @ [(ref, key, up, h)]) d'"
| released: "dispatch_run sha cs I d \<Longrightarrow> dispatch_run sha (cs @ [CallRelease ref]) I (Release_ref ref d)"
| pinned: "dispatch_run sha cs I d \<Longrightarrow> Pin base auth d = (ref, d') \<Longrightarrow> dispatch_run sha cs I d'"
| asked: "dispatch_run sha cs I d \<Longrightarrow> incoming sha now up auth d = Some (ref, d') \<Longrightarrow> dispatch_run sha cs I d'"
| swept: "dispatch_run sha cs I d \<Longrightarrow> dispatch_run sha cs I (sweepIncoming now d)"
| sent: "dispatch_run sha cs I d \<Longrightarrow> Do now later ref mth path extra d = (res, d') \<Longrightarrow> dispatch_run sha cs I d'"

section \<open>What is held\<close>

definition session_refs :: "Dispatcher \<Rightarrow> Ref multiset" where
  "session_refs d = mset (map fst (filter (\<lambda>(r, t). g_kind t = kindSession) (d_held d)))"

definition index_ok :: "Dispatcher \<Rightarrow> bool" where
  "index_ok d \<longleftrightarrow>
     distinct (map fst (d_held d)) \<and> distinct (map fst (d_incomingByKey d)) \<and>
     (\<forall>r t. map_of (d_held d) r = Some t \<longrightarrow> (\<exists>n \<le> d_next d. r = ref_name n)) \<and>
     (\<forall>key r. map_of (d_incomingByKey d) key = Some r \<longrightarrow>
        (\<exists>t. map_of (d_held d) r = Some t \<and> g_kind t = kindIncoming \<and> g_dedupKey t = key))"

lemma ref_name_eq [simp]: "ref_name m = ref_name n \<longleftrightarrow> m = n"
  by (simp add: ref_name_def)

lemma fresh_ref: "index_ok d \<Longrightarrow> map_of (d_held d) (ref_name (d_next d + 1)) = None"
  by (cases "map_of (d_held d) (ref_name (d_next d + 1))") (fastforce simp: index_ok_def)+

text \<open>The invariant of a dispatcher given by its two lookups.\<close>

lemma index_okI:
  assumes "distinct (map fst (d_held d))" "distinct (map fst (d_incomingByKey d))"
    and "map_of (d_held d) = H" "map_of (d_incomingByKey d) = K"
    and "\<And>r t. H r = Some t \<Longrightarrow> \<exists>n \<le> d_next d. r = ref_name n"
    and "\<And>key r. K key = Some r \<Longrightarrow> \<exists>t. H r = Some t \<and> g_kind t = kindIncoming \<and> g_dedupKey t = key"
  shows "index_ok d"
  using assms by (auto simp: index_ok_def simp del: map_of_eq_Some_iff)

lemma index_okD:
  assumes "index_ok d"
  shows "distinct (map fst (d_held d))" "distinct (map fst (d_incomingByKey d))"
    and "map_of (d_held d) r = Some t \<Longrightarrow> \<exists>n \<le> d_next d. r = ref_name n"
    and "map_of (d_incomingByKey d) key = Some r \<Longrightarrow>
      \<exists>t. map_of (d_held d) r = Some t \<and> g_kind t = kindIncoming \<and> g_dedupKey t = key"
  using assms by (simp_all add: index_ok_def del: map_of_eq_Some_iff)

lemma held_update_new: "map_of xs k = None \<Longrightarrow> AList.update k v xs = xs @ [(k, v)]"
  by (induction xs) (auto split: if_splits)

lemma session_update_other:
  "map_of xs r = Some t \<Longrightarrow> g_kind t' = g_kind t \<Longrightarrow>
   map fst (filter (\<lambda>(r, t). g_kind t = kindSession) (AList.update r t' xs)) =
   map fst (filter (\<lambda>(r, t). g_kind t = kindSession) xs)"
  by (induction xs) auto

lemma session_delete_other:
  "map_of xs r = Some t \<Longrightarrow> g_kind t \<noteq> kindSession \<Longrightarrow> distinct (map fst xs) \<Longrightarrow>
   map fst (filter (\<lambda>(r, t). g_kind t = kindSession) (AList.delete r xs)) =
   map fst (filter (\<lambda>(r, t). g_kind t = kindSession) xs)"
proof (induction xs)
  case (Cons x xs)
  then show ?case by (cases x) (auto simp: delete_id image_iff split: if_splits)
qed simp

lemma session_delete:
  "distinct (map fst xs) \<Longrightarrow> map_of xs r = Some t \<Longrightarrow> g_kind t = kindSession \<Longrightarrow>
   mset (map fst (filter (\<lambda>(r, t). g_kind t = kindSession) (AList.delete r xs))) =
   mset (map fst (filter (\<lambda>(r, t). g_kind t = kindSession) xs)) - {#r#}"
proof (induction xs)
  case (Cons x xs)
  then show ?case by (cases x) (auto simp: delete_id image_iff split: if_splits)
qed simp

lemma in_session_refs:
  assumes "index_ok d"
  shows "r \<in># session_refs d \<longleftrightarrow> (\<exists>t. map_of (d_held d) r = Some t \<and> g_kind t = kindSession)"
proof -
  have "distinct (map fst (d_held d))" using assms by (simp add: index_ok_def)
  then have "map_of (d_held d) r = Some t \<longleftrightarrow> (r, t) \<in> set (d_held d)" for t by (rule map_of_eq_Some_iff)
  moreover have "r \<in># session_refs d \<longleftrightarrow> (\<exists>t. (r, t) \<in> set (d_held d) \<and> g_kind t = kindSession)"
    by (auto simp: session_refs_def image_iff)
  ultimately show ?thesis by simp
qed

text \<open>A new reference is fresh, and its target is added to what is held.\<close>

lemma issueLocked_ok:
  assumes ok: "index_ok d" and i: "issueLocked t d = (ref, d')"
  shows "index_ok d' \<and> map_of (d_held d) ref = None \<and> map_of (d_held d') = (map_of (d_held d))(ref \<mapsto> t) \<and>
    d_incomingByKey d' = d_incomingByKey d \<and>
    session_refs d' = (if g_kind t = kindSession then {#ref#} else {#}) + session_refs d"
proof -
  have r: "ref = ref_name (d_next d + 1)" and d': "d' = d\<lparr>d_next := d_next d + 1, d_held := AList.update ref t (d_held d)\<rparr>"
    using i by (auto simp: issueLocked_def Let_def)
  have n: "map_of (d_held d) ref = None" using fresh_ref [OF ok] r by simp
  have "index_ok d'"
  proof (rule index_okI [OF _ _ _ refl])
    show "map_of (d_held d') = (map_of (d_held d))(ref \<mapsto> t)" by (simp add: d' AList.update_conv')
    show "distinct (map fst (d_held d'))" using index_okD(1) [OF ok] by (simp add: d' AList.distinct_update)
    show "distinct (map fst (d_incomingByKey d'))" using index_okD(2) [OF ok] by (simp add: d')
    show "\<exists>m \<le> d_next d'. x = ref_name m" if "((map_of (d_held d))(ref \<mapsto> t)) x = Some u" for x u
      using that index_okD(3) [OF ok, of x u] by (cases "x = ref") (auto simp: d' r intro: le_SucI)
    show "\<exists>u. ((map_of (d_held d))(ref \<mapsto> t)) x = Some u \<and> g_kind u = kindIncoming \<and> g_dedupKey u = key"
      if "map_of (d_incomingByKey d') key = Some x" for key x
      using that index_okD(4) [OF ok, of key x] n by (cases "x = ref") (auto simp: d')
  qed
  moreover have "map_of (d_held d') = (map_of (d_held d))(ref \<mapsto> t)" by (simp add: d' AList.update_conv')
  ultimately show ?thesis using n by (simp add: d' session_refs_def held_update_new [OF n])
qed

lemma drop_ok:
  assumes ok: "index_ok d" and b: "map_of (d_incomingByKey d) key = Some r"
    and d': "d' = d\<lparr>d_held := AList.delete r (d_held d), d_incomingByKey := AList.delete key (d_incomingByKey d)\<rparr>"
  shows "index_ok d' \<and> session_refs d' = session_refs d"
proof
  obtain t where t: "map_of (d_held d) r = Some t" "g_kind t = kindIncoming" "g_dedupKey t = key"
    using index_okD(4) [OF ok b] by blast
  show "index_ok d'"
  proof (rule index_okI [where H = "(map_of (d_held d))(r := None)" and K = "(map_of (d_incomingByKey d))(key := None)"])
    show "\<exists>n \<le> d_next d'. x = ref_name n" if "((map_of (d_held d))(r := None)) x = Some u" for x u
      using that index_okD(3) [OF ok, of x u] by (auto simp: d' split: if_splits)
    show "\<exists>u. ((map_of (d_held d))(r := None)) x = Some u \<and> g_kind u = kindIncoming \<and> g_dedupKey u = k"
      if "((map_of (d_incomingByKey d))(key := None)) k = Some x" for k x
      using that index_okD(4) [OF ok, of k x] t by (cases "x = r") (auto split: if_splits)
  qed (use index_okD(1,2) [OF ok] in \<open>simp_all add: d' AList.distinct_delete AList.delete_conv'\<close>)
  show "session_refs d' = session_refs d"
    using session_delete_other [OF t(1)] t(2) index_okD(1) [OF ok] by (simp add: d' session_refs_def)
qed

lemma Release_ok:
  assumes ok: "index_ok d" and t: "map_of (d_held d) r = Some t" "g_kind t = kindSession"
  shows "index_ok (Release_ref r d) \<and> session_refs (Release_ref r d) = session_refs d - {#r#}"
proof
  show "index_ok (Release_ref r d)"
  proof (rule index_okI [where H = "(map_of (d_held d))(r := None)" and K = "map_of (d_incomingByKey d)"])
    show "\<exists>n \<le> d_next (Release_ref r d). x = ref_name n" if "((map_of (d_held d))(r := None)) x = Some u" for x u
      using that index_okD(3) [OF ok, of x u] by (auto simp: Release_ref_def split: if_splits)
    show "\<exists>u. ((map_of (d_held d))(r := None)) x = Some u \<and> g_kind u = kindIncoming \<and> g_dedupKey u = k"
      if "map_of (d_incomingByKey d) k = Some x" for k x
      using that index_okD(4) [OF ok, of k x] t by (cases "x = r") auto
  qed (use index_okD(1,2) [OF ok] in \<open>simp_all add: Release_ref_def AList.distinct_delete AList.delete_conv'\<close>)
  show "session_refs (Release_ref r d) = session_refs d - {#r#}"
    using session_delete [OF index_okD(1) [OF ok] t] by (simp add: Release_ref_def session_refs_def)
qed

lemma touch_ok:
  assumes ok: "index_ok d" and t: "map_of (d_held d) r = Some t"
    and d': "d' = d\<lparr>d_held := AList.update r (t\<lparr>g_lastUse := now\<rparr>) (d_held d)\<rparr>"
  shows "index_ok d' \<and> session_refs d' = session_refs d"
proof
  show "index_ok d'"
  proof (rule index_okI [where H = "(map_of (d_held d))(r \<mapsto> t\<lparr>g_lastUse := now\<rparr>)" and K = "map_of (d_incomingByKey d)"])
    show "\<exists>n \<le> d_next d'. x = ref_name n" if "((map_of (d_held d))(r \<mapsto> t\<lparr>g_lastUse := now\<rparr>)) x = Some u" for x u
      using that index_okD(3) [OF ok, of x u] index_okD(3) [OF ok t] by (cases "x = r") (auto simp: d')
    show "\<exists>u. ((map_of (d_held d))(r \<mapsto> t\<lparr>g_lastUse := now\<rparr>)) x = Some u \<and> g_kind u = kindIncoming \<and> g_dedupKey u = k"
      if "map_of (d_incomingByKey d) k = Some x" for k x
      using that index_okD(4) [OF ok, of k x] t by (cases "x = r") auto
  qed (use index_okD(1,2) [OF ok] in \<open>simp_all add: d' AList.distinct_update AList.update_conv'\<close>)
  show "session_refs d' = session_refs d" using session_update_other [OF t] by (simp add: d' session_refs_def)
qed

section \<open>Every operation\<close>

lemma dropIncoming_ok:
  assumes ok: "index_ok d" and t: "map_of (d_held d) r = Some t" "g_kind t = kindIncoming"
  shows "index_ok (dropIncomingLocked r t d) \<and> session_refs (dropIncomingLocked r t d) = session_refs d"
proof (cases "map_of (d_incomingByKey d) (g_dedupKey t) = Some r")
  case True
  then show ?thesis by (intro drop_ok [OF ok True]) (simp add: dropIncomingLocked_def Let_def)
next
  case False
  let ?d = "d\<lparr>d_held := AList.delete r (d_held d)\<rparr>"
  have "index_ok ?d"
  proof (rule index_okI [where H = "(map_of (d_held d))(r := None)" and K = "map_of (d_incomingByKey d)"])
    show "\<exists>n \<le> d_next ?d. x = ref_name n" if "((map_of (d_held d))(r := None)) x = Some u" for x u
      using that index_okD(3) [OF ok, of x u] by (auto split: if_splits)
    show "\<exists>u. ((map_of (d_held d))(r := None)) x = Some u \<and> g_kind u = kindIncoming \<and> g_dedupKey u = k"
      if "map_of (d_incomingByKey d) k = Some x" for k x
      using that index_okD(4) [OF ok, of k x] t False by (cases "x = r") auto
  qed (use index_okD(1,2) [OF ok] in \<open>simp_all add: AList.distinct_delete AList.delete_conv'\<close>)
  then show ?thesis using False session_delete_other [OF t(1)] t(2) index_okD(1) [OF ok]
    by (simp add: dropIncomingLocked_def Let_def session_refs_def)
qed

lemma issue_incoming_ok:
  assumes ok: "index_ok d" and n: "map_of (d_incomingByKey d) key = None"
  shows "index_ok (snd (issue_incoming now key up auth d)) \<and> session_refs (snd (issue_incoming now key up auth d)) = session_refs d"
proof -
  let ?t = "\<lparr>g_kind = kindIncoming, g_up = up, g_auth = maskHeaders auth, g_key = [], g_dedupKey = key, g_lastUse = now\<rparr>"
  obtain ref d1 where i: "issueLocked ?t d = (ref, d1)" by fastforce
  note k = issueLocked_ok [OF ok i]
  let ?d = "d1\<lparr>d_incomingByKey := AList.update key ref (d_incomingByKey d1)\<rparr>"
  have ok1: "index_ok d1" using k by blast
  have "index_ok ?d"
  proof (rule index_okI [where H = "map_of (d_held d1)" and K = "(map_of (d_incomingByKey d1))(key \<mapsto> ref)"])
    show "\<exists>u. map_of (d_held d1) x = Some u \<and> g_kind u = kindIncoming \<and> g_dedupKey u = k"
      if "((map_of (d_incomingByKey d1))(key \<mapsto> ref)) k = Some x" for k x
      using that index_okD(4) [OF ok1, of k x] k by (cases "k = key") auto
  qed (use index_okD(1,2) [OF ok1] index_okD(3) [OF ok1] in \<open>simp_all add: AList.distinct_update AList.update_conv'\<close>)
  then show ?thesis using i k by (simp add: issue_incoming_def session_refs_def)
qed

lemma incoming_ok:
  assumes ok: "index_ok d"
  shows "\<exists>ref d'. incoming sha now up auth d = Some (ref, d') \<and> index_ok d' \<and> session_refs d' = session_refs d"
proof (cases "map_of (d_incomingByKey d) (incomingDedupKey sha (up_base up) auth)")
  case None
  then show ?thesis using issue_incoming_ok [OF ok None, of now up auth]
    by (cases "issue_incoming now (incomingDedupKey sha (up_base up) auth) up auth d") (simp add: incoming_def Let_def)
next
  case (Some ref)
  let ?key = "incomingDedupKey sha (up_base up) auth"
  obtain t where t: "map_of (d_held d) ref = Some t" "g_dedupKey t = ?key" using index_okD(4) [OF ok Some] by blast
  show ?thesis
  proof (cases "now - g_lastUse t \<le> IncomingRefTTL")
    case True
    then show ?thesis using touch_ok [OF ok t(1) refl, of now] by (simp add: incoming_def Let_def Some t(1))
  next
    case False
    let ?d = "dropIncomingLocked ref t d"
    have "g_kind t = kindIncoming" using index_okD(4) [OF ok Some] t(1) by auto
    from dropIncoming_ok [OF ok t(1) this] have d: "index_ok ?d" "session_refs ?d = session_refs d" by auto
    have n: "map_of (d_incomingByKey ?d) ?key = None"
      using Some t(2) by (simp add: dropIncomingLocked_def Let_def AList.delete_conv')
    show ?thesis using issue_incoming_ok [OF d(1) n, of now up auth] d(2) False
      by (cases "issue_incoming now ?key up auth ?d") (simp add: incoming_def Let_def Some t(1))
  qed
qed

lemma sweep_one_ok:
  assumes ok: "index_ok d" and b: "map_of (d_incomingByKey d) (fst x) = Some (snd x)"
  shows "index_ok (sweep_one now x d) \<and> session_refs (sweep_one now x d) = session_refs d"
proof -
  obtain t where t: "map_of (d_held d) (snd x) = Some t" using index_okD(4) [OF ok b] by blast
  then show ?thesis using ok drop_ok [OF ok b refl] by (simp add: sweep_one_def)
qed

lemma sweepIncoming_ok:
  assumes "index_ok d"
  shows "index_ok (sweepIncoming now d) \<and> session_refs (sweepIncoming now d) = session_refs d"
proof -
  have "index_ok (fold (sweep_one now) xs c) \<and> session_refs (fold (sweep_one now) xs c) = session_refs c"
    if "index_ok c" "distinct (map fst xs)" "\<forall>x \<in> set xs. map_of (d_incomingByKey c) (fst x) = Some (snd x)" for xs c
    using that
  proof (induction xs arbitrary: c)
    case (Cons x xs)
    have one: "index_ok (sweep_one now x c)" "session_refs (sweep_one now x c) = session_refs c"
      using sweep_one_ok [of c x now] Cons.prems by auto
    have "map_of (d_incomingByKey (sweep_one now x c)) (fst y) = Some (snd y)" if "y \<in> set xs" for y
      using that Cons.prems by (auto simp: sweep_one_def AList.delete_conv' image_iff split: option.splits)
    then show ?case using Cons.IH [of "sweep_one now x c"] one Cons.prems(2) by simp
  qed simp
  from this [OF assms, of "d_incomingByKey d"] show ?thesis
    using index_okD(2) [OF assms] by (auto simp: sweepIncoming_def)
qed

lemma Do_resolve_ok:
  assumes ok: "index_ok d"
  shows "index_ok (snd (Do_resolve now later ref d)) \<and> session_refs (snd (Do_resolve now later ref d)) = session_refs d"
proof (cases "map_of (d_held d) ref")
  case (Some t)
  then show ?thesis using ok dropIncoming_ok [OF ok Some] touch_ok [OF ok Some refl, of later]
    by (simp add: Do_resolve_def)
qed (simp add: Do_resolve_def ok)

lemma Do_state: "snd (Do now later ref mth path extra d) = snd (Do_resolve now later ref d)"
  by (auto simp: Do_def split: option.splits prod.splits)

section \<open>What a session reference stands for\<close>

definition session_target :: "string \<Rightarrow> upstream \<Rightarrow> http_header \<Rightarrow> target" where
  "session_target key up h =
     \<lparr>g_kind = kindSession, g_up = up, g_auth = (case heldAuth up h of None \<Rightarrow> [] | Some s \<Rightarrow> maskHeaders s),
      g_key = key, g_dedupKey = [], g_lastUse = 0\<rparr>"

text \<open>Only \<open>hold\<close> adds a session target, and none is ever rewritten.\<close>

definition no_new_session :: "Dispatcher \<Rightarrow> Dispatcher \<Rightarrow> bool" where
  "no_new_session d d' \<longleftrightarrow> d_next d \<le> d_next d' \<and>
     (\<forall>r t. map_of (d_held d') r = Some t \<and> g_kind t = kindSession \<longrightarrow> map_of (d_held d) r = Some t)"

lemma no_new_trans: "no_new_session a b \<Longrightarrow> no_new_session b c \<Longrightarrow> no_new_session a c"
  by (auto simp: no_new_session_def)

lemma no_new_refl: "no_new_session d d"
  by (simp add: no_new_session_def)

lemma no_new_delete: "no_new_session d (d\<lparr>d_held := AList.delete r (d_held d)\<rparr>)"
  "no_new_session d (d\<lparr>d_held := AList.delete r (d_held d), d_incomingByKey := K\<rparr>)"
  by (simp_all add: no_new_session_def AList.delete_conv')

lemma no_new_update: "g_kind t \<noteq> kindSession \<Longrightarrow> no_new_session d (d\<lparr>d_held := AList.update r t (d_held d)\<rparr>)"
  by (simp add: no_new_session_def AList.update_conv')

lemma no_new_issue: "issueLocked t d = (ref, d') \<Longrightarrow> g_kind t \<noteq> kindSession \<Longrightarrow> no_new_session d d'"
  by (auto simp: issueLocked_def Let_def no_new_session_def AList.update_conv' split: if_splits)

lemma no_new_drop: "no_new_session d (dropIncomingLocked r t d)"
  using no_new_delete by (simp add: dropIncomingLocked_def Let_def)

lemma no_new_issue_incoming:
  assumes "issue_incoming now key up auth d = (ref, d')"
  shows "no_new_session d d'"
proof -
  obtain d1 where i: "issueLocked \<lparr>g_kind = kindIncoming, g_up = up, g_auth = maskHeaders auth, g_key = [], g_dedupKey = key, g_lastUse = now\<rparr> d
      = (ref, d1)" and d': "d' = d1\<lparr>d_incomingByKey := AList.update key ref (d_incomingByKey d1)\<rparr>"
    using assms by (auto simp: issue_incoming_def split: prod.splits)
  have "no_new_session d d1" by (rule no_new_issue [OF i]) simp
  then show ?thesis by (simp add: d' no_new_session_def)
qed

lemma no_new_incoming:
  assumes ok: "index_ok d" and i: "incoming sha now up auth d = Some (ref, d')"
  shows "no_new_session d d'"
proof (cases "map_of (d_incomingByKey d) (incomingDedupKey sha (up_base up) auth)")
  case None
  then show ?thesis using i no_new_issue_incoming by (auto simp: incoming_def)
next
  case (Some r)
  obtain t where t: "map_of (d_held d) r = Some t" "g_kind t = kindIncoming" using index_okD(4) [OF ok Some] by blast
  have "no_new_session d (d\<lparr>d_held := AList.update r (t\<lparr>g_lastUse := now\<rparr>) (d_held d)\<rparr>)" by (rule no_new_update) (simp add: t)
  moreover have "no_new_session d d2" if "issue_incoming now k up auth (dropIncomingLocked r t d) = (ref, d2)" for k d2
    by (rule no_new_trans [OF no_new_drop no_new_issue_incoming [OF that]])
  ultimately show ?thesis using i Some t by (auto simp: incoming_def Let_def split: if_splits)
qed

lemma no_new_sweep: "no_new_session d (sweepIncoming now d)"
proof -
  have one: "no_new_session c (sweep_one now x c)" for x c
    using no_new_delete(2) no_new_refl by (auto simp: sweep_one_def split: option.split)
  have "no_new_session c (fold (sweep_one now) xs c)" for xs c
    by (induction xs arbitrary: c) (auto simp: no_new_refl intro: no_new_trans one)
  then show ?thesis by (simp add: sweepIncoming_def)
qed

lemma no_new_Do: "no_new_session d (snd (Do_resolve now later ref d))"
  using no_new_drop no_new_refl no_new_update by (auto simp: Do_resolve_def split: option.split)

text \<open>Each session reference stands for the hold that was given it, and no reference is given twice.\<close>

definition holds_logged :: "issued_hold list \<Rightarrow> Dispatcher \<Rightarrow> bool" where
  "holds_logged I d \<longleftrightarrow>
     distinct (map fst I) \<and> (\<forall>x \<in> set I. \<exists>n \<le> d_next d. fst x = ref_name n) \<and>
     (\<forall>r t. map_of (d_held d) r = Some t \<and> g_kind t = kindSession \<longrightarrow>
        (\<exists>key up h. (r, key, up, h) \<in> set I \<and> t = session_target key up h))"

lemma holds_logged_mono: "holds_logged I d \<Longrightarrow> no_new_session d d' \<Longrightarrow> holds_logged I d'"
  unfolding holds_logged_def no_new_session_def by (meson order_trans)

lemma holds_logged_hold:
  assumes L: "holds_logged I d" and h: "hold_ref key up h d = (ref, d')"
  shows "holds_logged (I @ [(ref, key, up, h)]) d'"
proof -
  have r: "ref = ref_name (d_next d + 1)"
    and d': "d' = d\<lparr>d_next := d_next d + 1, d_held := AList.update ref (session_target key up h) (d_held d)\<rparr>"
    using h by (auto simp: hold_ref_def issueLocked_def Let_def session_target_def)
  have "ref \<notin> fst ` set I" using L by (fastforce simp: holds_logged_def r)
  moreover have "\<exists>n \<le> d_next d'. fst x = ref_name n" if "x \<in> set (I @ [(ref, key, up, h)])" for x
    using that L by (auto simp: holds_logged_def d' r intro: le_SucI)
  moreover have "\<exists>key' up' h'. (x, key', up', h') \<in> set (I @ [(ref, key, up, h)]) \<and> t = session_target key' up' h'"
    if x: "map_of (d_held d') x = Some t" "g_kind t = kindSession" for x t
  proof (cases "x = ref")
    case True
    then have "t = session_target key up h" using x(1) by (simp add: d' AList.update_conv')
    with True show ?thesis by auto
  next
    case False
    then have "map_of (d_held d) x = Some t" using x(1) by (simp add: d' AList.update_conv')
    then obtain key' up' h' where "(x, key', up', h') \<in> set I" "t = session_target key' up' h'"
      using L x(2) unfolding holds_logged_def by blast
    then show ?thesis by auto
  qed
  ultimately show ?thesis using L unfolding holds_logged_def by simp
qed

lemma dispatch_run_ok:
  "dispatch_run sha cs I d \<Longrightarrow> vault cs = Some V \<Longrightarrow> index_ok d \<and> session_refs d = V \<and> holds_logged I d"
proof (induction arbitrary: V rule: dispatch_run.induct)
  case start
  then show ?case by (simp add: index_ok_def NewDispatcher_def session_refs_def vault_def holds_logged_def)
next
  case (held cs I d key up h ref d')
  then obtain W where W: "vault cs = Some W" "vault_from W [CallHold ref] = Some V"
    by (auto simp: vault_def vault_from_append split: option.splits)
  have d: "index_ok d" "session_refs d = W" "holds_logged I d" using held.IH [OF W(1)] by auto
  show ?case using issueLocked_ok [OF d(1) held.hyps(2) [unfolded hold_ref_def]] W(2) d(2)
      holds_logged_hold [OF d(3) held.hyps(2)] by (simp add: vault_step_def)
next
  case (released cs I d ref)
  then obtain W where W: "vault cs = Some W" "vault_from W [CallRelease ref] = Some V"
    by (auto simp: vault_def vault_from_append split: option.splits)
  have d: "index_ok d" "session_refs d = W" "holds_logged I d" using released.IH [OF W(1)] by auto
  have r: "ref \<in># W" "V = W - {#ref#}" using W(2) by (auto simp: vault_step_def split: if_splits)
  then obtain t where "map_of (d_held d) ref = Some t" "g_kind t = kindSession" using in_session_refs [OF d(1)] d(2) by auto
  then show ?case using Release_ok [OF d(1)] d(2) r(2) holds_logged_mono [OF d(3) no_new_delete(1)] by (simp add: Release_ref_def)
next
  case (pinned cs I d base auth ref d')
  have d: "index_ok d" "session_refs d = V" "holds_logged I d" using pinned.IH [OF pinned.prems] by auto
  have "no_new_session d d'" by (rule no_new_issue [OF pinned.hyps(2) [unfolded Pin_def]]) simp
  then show ?case using issueLocked_ok [OF d(1) pinned.hyps(2) [unfolded Pin_def]] d(2) holds_logged_mono [OF d(3)] by simp
next
  case (asked cs I d now up auth ref d')
  then show ?case using incoming_ok [of d sha now up auth] no_new_incoming [of d sha now up auth ref d'] holds_logged_mono [of I d d'] by auto
next
  case (swept cs I d now)
  then show ?case using sweepIncoming_ok [of d now] no_new_sweep [of d now] holds_logged_mono [of I d] by auto
next
  case (sent cs I d now later ref mth path extra res d')
  have "no_new_session d d'" using no_new_Do [of d now later ref] Do_state [of now later ref mth path extra d] sent.hyps(2) by simp
  then show ?case using sent Do_resolve_ok [of d now later ref] Do_state [of now later ref mth path extra d]
      holds_logged_mono [of I d d'] by auto
qed

text \<open>Masking and unmasking give a header of the auth slots back.\<close>

lemma unmasked_mask:
  assumes "\<And>k. k \<notin> set slot_names \<Longrightarrow> h k = []"
  shows "unmasked (maskHeaders h) = h"
proof
  fix k :: string
  have f: "map snd (filter (\<lambda>(n, v). n = k) (map (Pair n) vs)) = (if n = k then vs else [])" for n and vs :: "string list"
    by (induction vs) auto
  show "unmasked (maskHeaders h) k = h k"
    using assms [of k] by (auto simp: unmasked_def maskHeaders_def slot_names_def f)
qed

lemma scrub_empty: "h k = [] \<Longrightarrow> scrub_slot h n k = []" "h k = [] \<Longrightarrow> header_del h n k = []"
  by (simp_all add: scrub_slot_def header_del_def)

lemma scrub_slots: "heldAuth up h = Some s \<Longrightarrow> k \<notin> set slot_names \<Longrightarrow> s k = []"
  by (auto simp: heldAuth_def slot_names_def authHeaders_def scrubToken_def scrub_empty split: if_splits)

lemma unmasked_held:
  "unmasked (g_auth (session_target key up h)) = (case heldAuth up h of None \<Rightarrow> (\<lambda>k. []) | Some s \<Rightarrow> s)"
proof (cases "heldAuth up h")
  case (Some s)
  then show ?thesis using unmasked_mask [of s] scrub_slots [OF Some] by (simp add: session_target_def)
qed (simp add: session_target_def unmasked_def fun_eq_iff)

text \<open>A reference of a model call that is released leaves its entry in the index, and the next call panics.\<close>

lemma released_model_ref_panics:
  assumes "incoming sha now up auth NewDispatcher = Some (ref, d)"
  shows "incoming sha later up auth (Release_ref ref d) = None"
  using assms by (auto simp: incoming_def issue_incoming_def issueLocked_def NewDispatcher_def Release_ref_def Let_def)

text \<open>
  C3: The dispatcher and the keeper agree on custody. When the dispatcher has served the holds and
  releases a run of the keeper logged, with any pins, model calls, sweeps and sends in between, the
  session references it holds are exactly those of the keeper's live entries, so none once nothing is
  live. Each of them was given to one hold, and a send on it goes to the upstream of that hold with the
  scrubbed credential of the request that hold was made for, whatever else was held since. No model call
  meets a reference that is gone.
\<close>

theorem dispatcher_keeps_custody:
  assumes keeper: "kstep\<^sup>*\<^sup>* New k" and run: "dispatch_run sha (filter custody_call (k_calls k)) I d"
  shows "session_refs d = held_refs k \<and> (k_live k = [] \<longrightarrow> session_refs d = {#}) \<and> distinct (map fst I) \<and>
    (\<forall>ref. ref \<in># held_refs k \<longrightarrow>
       (\<exists>key up h. (ref, key, up, h) \<in> set I \<and>
          Do now later ref mth path extra d =
            (if up_base up = [] then ErrNoUpstream
             else Sends (if mth = [] then ''POST'' else mth) (trim_right_slash (up_base up) @ path)
                    (dispatched extra (case heldAuth up h of None \<Rightarrow> (\<lambda>_. []) | Some s \<Rightarrow> s) up), d))) \<and>
    incoming sha now upm auth d \<noteq> None"
proof -
  have "vault (filter custody_call (k_calls k)) = Some (held_refs k)"
    using custody.I_run [OF keeper keeper_ok_New] by (simp add: keeper_ok_def vault_def vault_from_custody)
  from dispatch_run_ok [OF run this] have d: "index_ok d" "session_refs d = held_refs k" and L: "holds_logged I d" by auto
  have "\<exists>key up h. (ref, key, up, h) \<in> set I \<and>
      Do now later ref mth path extra d =
        (if up_base up = [] then ErrNoUpstream
         else Sends (if mth = [] then ''POST'' else mth) (trim_right_slash (up_base up) @ path)
                (dispatched extra (case heldAuth up h of None \<Rightarrow> (\<lambda>_. []) | Some s \<Rightarrow> s) up), d)"
    if ref: "ref \<in># held_refs k" for ref
  proof -
    obtain t where t: "map_of (d_held d) ref = Some t" "g_kind t = kindSession"
      using ref in_session_refs [OF d(1), of ref] d(2) by auto
    then obtain key up h where k: "(ref, key, up, h) \<in> set I" "t = session_target key up h"
      using L unfolding holds_logged_def by blast
    have "Do_resolve now later ref d = (Some (up, g_auth t), d)"
      using t k(2) by (simp add: Do_resolve_def session_target_def)
    then show ?thesis using k unmasked_held [of key up h] by (intro exI [of _ key] exI [of _ up] exI [of _ h]) (simp add: Do_def)
  qed
  moreover have "distinct (map fst I)" using L by (simp add: holds_logged_def)
  ultimately show ?thesis using d incoming_ok [OF d(1), of sha now upm auth] by (auto simp: held_refs_def held_by_def)
qed

definition sample_kept :: Keeper where
  "sample_kept = Record sample_host 7 (sample_record ''t'' sample_manual\<lparr>r_Hold := Some ''r1''\<rparr>) New"

theorem dispatcher_keeps_custody_witness:
  "\<exists>d. dispatch_run id [CallHold ''r1''] [(''r1'', ''k'', sample_up, one_header ''x-api-key'' ''sk'')] d \<and> session_refs d = {#''r1''#}
     \<and> fst (Do 0 0 ''r1'' [] ''/v1'' (\<lambda>_. []) d) \<noteq> ErrNotHeld"
proof -
  have calls: "filter custody_call (k_calls sample_kept) = [CallHold ''r1'']" by code_simp
  have refs: "held_refs sample_kept = {#''r1''#}" by code_simp
  have run: "kstep\<^sup>*\<^sup>* New sample_kept" unfolding sample_kept_def by (rule r_into_rtranclp, rule recorded)
  obtain ref d where h: "hold_ref ''k'' sample_up (one_header ''x-api-key'' ''sk'') NewDispatcher = (ref, d)" by fastforce
  have "ref_name 1 = ''r1''" by code_simp
  then have "ref = ''r1''" using h by (auto simp: hold_ref_def issueLocked_def NewDispatcher_def Let_def)
  then have d: "dispatch_run id [CallHold ''r1''] [(''r1'', ''k'', sample_up, one_header ''x-api-key'' ''sk'')] d"
    using dispatch_run.held [OF dispatch_run.start h, of id] by simp
  note T = dispatcher_keeps_custody [OF run d [folded calls], where now = 0 and later = 0 and mth = "[]" and path = "''/v1''"
      and extra = "\<lambda>_. []" and upm = sample_up and auth = "\<lambda>_. []"]
  have c: "session_refs d = held_refs sample_kept" using T by blast
  have "''r1'' \<in># held_refs sample_kept" by (simp add: refs)
  from T [THEN conjunct2, THEN conjunct2, THEN conjunct2, THEN conjunct1, rule_format, OF this]
  have "fst (Do 0 0 ''r1'' [] ''/v1'' (\<lambda>_. []) d) \<noteq> ErrNotHeld"
    by (elim exE conjE) (simp split: if_split)
  then show ?thesis using d c refs by metis
qed

end
