(* ===== verification/Tenancy_Source.thy ===== *)
theory Tenancy_Source
  imports Complex_Main Tenant_LRU Credential_Exit "HOL-Library.Multiset"
begin

text \<open>
  From an authenticated request to its tenant's pipeline and state store: \<open>TenantSource\<close> of
  \<open>src/proxy/tenancy.go\<close>. The cache of built tenancies is the bounded map; building happens outside its
  lock, so a request is a lookup, a build and a publication that other requests may run in between of.

  A store is \<open>Nop\<close> or a memory store, named by the number of its allocation: what matters here is which
  requests share one. The registry and the host's builder are parameters; a builder that succeeds says
  whether the document enables the store, and the store it then makes is new. A pipeline is named by the
  document it was built from.
\<close>

datatype TenancyMode = ModeSync | ModeObserve

datatype store_id = Nop | Mem nat

datatype pipe_id = EmptyPipe | PipeOf string

record Tenant =
  t_ID :: string
  t_Label :: string
  t_Manager :: bool
  t_Disabled :: bool
  t_DisabledReason :: string
  t_CaptureContent :: bool
  t_RecordTraces :: bool
  t_UpAnthropic :: string
  t_UpOpenAI :: string
  t_UpBob :: string

record Tenancy =
  TID :: string
  TLabel :: string
  TManager :: bool
  Preset :: string
  Pipe :: pipe_id
  TStore :: store_id
  Shadow :: store_id
  TMode :: TenancyMode
  CaptureContent :: bool
  RecordTraces :: bool
  UpAnthropic :: string
  UpOpenAI :: string
  UpBob :: string

text \<open>What the builder makes of a document: whether the store is on, the mode if it names one, the preset.\<close>

record BuiltConfig =
  b_StoreOn :: bool
  b_Mode :: "TenancyMode option"
  b_Preset :: string

record cached =
  c_config :: string
  c_t :: Tenancy
  returning :: bool

record TenantSource =
  s_cache :: "cached lru"
  s_next :: nat
  s_evicted :: "(string \<times> cached) list"

definition DefaultMaxTenancies :: int where "DefaultMaxTenancies = 256"

definition NewTenantSource :: "int \<Rightarrow> TenantSource" where
  "NewTenantSource maxTenancies =
     \<lparr>s_cache = (newLRU (if maxTenancies \<le> 0 then DefaultMaxTenancies else maxTenancies))\<lparr>keep_hook := Some returning\<rparr>,
      s_next = 0, s_evicted = []\<rparr>"

section \<open>Building\<close>

definition base_tenancy :: "Tenant \<Rightarrow> Tenancy" where
  "base_tenancy t =
     \<lparr>TID = t_ID t, TLabel = t_Label t, TManager = t_Manager t, Preset = [], Pipe = EmptyPipe, TStore = Nop, Shadow = Nop,
      TMode = ModeSync, CaptureContent = t_CaptureContent t, RecordTraces = t_RecordTraces t,
      UpAnthropic = t_UpAnthropic t, UpOpenAI = t_UpOpenAI t, UpBob = t_UpBob t\<rparr>"

text \<open>A document that no longer builds gives the empty pipeline; otherwise the two stores are new.\<close>

definition build :: "(string \<Rightarrow> BuiltConfig option) \<Rightarrow> Tenant \<Rightarrow> string \<Rightarrow> TenantSource \<Rightarrow> Tenancy \<times> TenantSource" where
  "build builder t cfgDoc s =
     (let tn = base_tenancy t; n = s_next s in
      case builder cfgDoc of
        None \<Rightarrow> (tn\<lparr>Preset := ''invalid''\<rparr>, s)
      | Some b \<Rightarrow>
          (tn\<lparr>Pipe := PipeOf cfgDoc, TStore := (if b_StoreOn b then Mem n else Nop), Preset := b_Preset b,
              TMode := (case b_Mode b of None \<Rightarrow> ModeSync | Some m \<Rightarrow> m), Shadow := Mem (n + 1)\<rparr>,
           s\<lparr>s_next := n + 2\<rparr>))"

section \<open>The cache\<close>

definition cache_put :: "string \<Rightarrow> cached \<Rightarrow> TenantSource \<Rightarrow> TenantSource" where
  "cache_put i c s =
     (let (l, gone) = lru_put i c (s_cache s) in s\<lparr>s_cache := l, s_evicted := s_evicted s @ gone\<rparr>)"

definition refresh :: "Tenant \<Rightarrow> Tenancy \<Rightarrow> Tenancy" where
  "refresh t tn =
     tn\<lparr>TLabel := t_Label t, TManager := t_Manager t, CaptureContent := t_CaptureContent t,
        RecordTraces := t_RecordTraces t, UpAnthropic := t_UpAnthropic t, UpOpenAI := t_UpOpenAI t, UpBob := t_UpBob t\<rparr>"

text \<open>The first locked section of \<open>tenancy\<close>: a hit is refreshed on a copy, a stale entry dropped.\<close>

definition lookup_section :: "Tenant \<Rightarrow> string \<Rightarrow> TenantSource \<Rightarrow> Tenancy option \<times> TenantSource" where
  "lookup_section t cfgDoc s =
     (case lru_get (t_ID t) (s_cache s) of
        (None, l) \<Rightarrow> (None, s\<lparr>s_cache := l\<rparr>)
      | (Some c, l) \<Rightarrow>
          if c_config c = cfgDoc
          then (let tn = refresh t (c_t c)
                in (Some tn, cache_put (t_ID t) (c\<lparr>returning := True, c_t := tn\<rparr>) (s\<lparr>s_cache := l\<rparr>)))
          else (None, s\<lparr>s_cache := lru_remove (t_ID t) l\<rparr>))"

text \<open>The second one, with the tenancy built in between: one already published is kept.\<close>

definition publish_section :: "string \<Rightarrow> string \<Rightarrow> Tenancy \<Rightarrow> TenantSource \<Rightarrow> Tenancy \<times> TenantSource" where
  "publish_section i cfgDoc tn s =
     (let fresh = (\<lambda>l. (tn, cache_put i \<lparr>c_config = cfgDoc, c_t = tn, returning = False\<rparr> (s\<lparr>s_cache := l\<rparr>))) in
      case lru_get i (s_cache s) of
        (Some c, l) \<Rightarrow> if c_config c = cfgDoc then (c_t c, s\<lparr>s_cache := l\<rparr>) else fresh (lru_remove i l)
      | (None, l) \<Rightarrow> fresh l)"

definition tenancy :: "(string \<Rightarrow> BuiltConfig option) \<Rightarrow> Tenant \<Rightarrow> string \<Rightarrow> TenantSource \<Rightarrow> Tenancy \<times> TenantSource" where
  "tenancy builder t cfgDoc s =
     (case lookup_section t cfgDoc s of
        (Some tn, s) \<Rightarrow> (tn, s)
      | (None, s) \<Rightarrow> (let (tn, s) = build builder t cfgDoc s in publish_section (t_ID t) cfgDoc tn s))"

text \<open>\<open>Forget\<close> of a source and of its absence.\<close>

definition Forget_tenant :: "string \<Rightarrow> TenantSource \<Rightarrow> TenantSource" where
  "Forget_tenant i s = (if i = [] then s else s\<lparr>s_cache := lru_remove i (s_cache s)\<rparr>)"

definition ObserveNamespaces :: "TenantSource \<Rightarrow> string list" where
  "ObserveNamespaces s = map fst (filter (\<lambda>(i, c). TMode (c_t c) = ModeObserve) (lru_each (s_cache s)))"

section \<open>Resolving a request\<close>

datatype reg_answer = Unknown_token | Disabled_account string | Active Tenant

datatype resolve_error = errNoToken | errBadToken | errUnboundKey | errTenantOff "string option"

definition tenantOff :: "string \<Rightarrow> resolve_error" where
  "tenantOff reason = errTenantOff (if reason = [] then None else Some reason)"

text \<open>Who the caller is; \<open>by_token\<close> and \<open>by_key\<close> are the registry's two lookups.\<close>

definition authenticate :: "(string \<Rightarrow> reg_answer) \<Rightarrow> (string \<Rightarrow> reg_answer) \<Rightarrow> http_header \<Rightarrow> resolve_error + Tenant" where
  "authenticate by_token by_key h =
     (let tok = TokenFromRequest h in
      if tok \<noteq> []
      then (case by_token tok of
              Active t \<Rightarrow> Inr t
            | Disabled_account r \<Rightarrow> Inl (tenantOff r)
            | Unknown_token \<Rightarrow> Inl errBadToken)
      else let key = CallerKey h in
        if key = [] then Inl errNoToken
        else (case by_key key of
                Active t \<Rightarrow> Inr t
              | Disabled_account r \<Rightarrow> Inl (tenantOff r)
              | Unknown_token \<Rightarrow> Inl errUnboundKey))"

definition Resolve_tenancy :: "(string \<Rightarrow> BuiltConfig option) \<Rightarrow> (Tenant \<Rightarrow> string) \<Rightarrow> (string \<Rightarrow> reg_answer) \<Rightarrow> (string \<Rightarrow> reg_answer)
    \<Rightarrow> http_header \<Rightarrow> TenantSource \<Rightarrow> (resolve_error + Tenancy) \<times> TenantSource" where
  "Resolve_tenancy builder config by_token by_key h s =
     (case authenticate by_token by_key h of
        Inl e \<Rightarrow> (Inl e, s)
      | Inr t \<Rightarrow> (let (tn, s) = tenancy builder t (config t) s in (Inr tn, s)))"

definition ForTenant :: "(string \<Rightarrow> BuiltConfig option) \<Rightarrow> (Tenant \<Rightarrow> string) \<Rightarrow> Tenant option \<Rightarrow> TenantSource
    \<Rightarrow> (resolve_error + Tenancy) \<times> TenantSource" where
  "ForTenant builder config t s =
     (case t of
        None \<Rightarrow> (Inl errNoToken, s)
      | Some t \<Rightarrow>
          if t_Disabled t then (Inl (tenantOff (t_DisabledReason t)), s)
          else (let (tn, s) = tenancy builder t (config t) s in (Inr tn, s)))"

section \<open>Requests that overlap\<close>

text \<open>
  A build under way: the tenant, its document, the tenancy. \<open>served\<close> collects the tenancies handed to
  requests, with the tenant that was authenticated.
\<close>

inductive source_run :: "(string \<Rightarrow> BuiltConfig option) \<Rightarrow> int \<Rightarrow> TenantSource
    \<Rightarrow> (string \<times> string \<times> Tenancy) multiset \<Rightarrow> (string \<times> Tenancy) list \<Rightarrow> bool"
  for builder :: "string \<Rightarrow> BuiltConfig option" and bnd :: int where
  start: "source_run builder bnd (NewTenantSource bnd) {#} []"
| hit: "source_run builder bnd s B served \<Longrightarrow> lookup_section t doc s = (Some tn, s') \<Longrightarrow>
        source_run builder bnd s' B ((t_ID t, tn) # served)"
| miss: "source_run builder bnd s B served \<Longrightarrow> lookup_section t doc s = (None, s') \<Longrightarrow> build builder t doc s' = (tn, s'') \<Longrightarrow>
         source_run builder bnd s'' (add_mset (t_ID t, doc, tn) B) served"
| publish: "source_run builder bnd s (add_mset (i, doc, tn) B) served \<Longrightarrow> publish_section i doc tn s = (tn', s') \<Longrightarrow>
            source_run builder bnd s' B ((i, tn') # served)"
| forget: "source_run builder bnd s B served \<Longrightarrow> source_run builder bnd (Forget_tenant i s) B served"

section \<open>Whose store it is\<close>

text \<open>The tenancies in sight: cached, being built, handed out.\<close>

definition known :: "TenantSource \<Rightarrow> (string \<times> string \<times> Tenancy) multiset \<Rightarrow> (string \<times> Tenancy) list \<Rightarrow> (string \<times> Tenancy) set" where
  "known s B served =
     {(i, c_t c) | i c. lru_look (s_cache s) i = Some c} \<union> {(i, tn). \<exists>doc. (i, doc, tn) \<in># B} \<union> set served"

definition owns :: "Tenancy \<Rightarrow> nat \<Rightarrow> bool" where
  "owns tn m \<longleftrightarrow> TStore tn = Mem m \<or> Shadow tn = Mem m"

text \<open>Stores are numbered evenly, shadows oddly, each number given to one tenant.\<close>

definition fits :: "nat \<Rightarrow> string \<times> Tenancy \<Rightarrow> bool" where
  "fits n x \<longleftrightarrow>
     TID (snd x) = fst x \<and> (\<forall>m. owns (snd x) m \<longrightarrow> m < n) \<and>
     (\<forall>m. TStore (snd x) = Mem m \<longrightarrow> even m) \<and> (\<forall>m. Shadow (snd x) = Mem m \<longrightarrow> odd m)"

definition apart :: "(string \<times> Tenancy) set \<Rightarrow> bool" where
  "apart K \<longleftrightarrow> (\<forall>x \<in> K. \<forall>y \<in> K. \<forall>m. owns (snd x) m \<longrightarrow> owns (snd y) m \<longrightarrow> fst x = fst y)"

definition isolated :: "nat \<Rightarrow> (string \<times> Tenancy) set \<Rightarrow> bool" where
  "isolated n K \<longleftrightarrow> even n \<and> (\<forall>x \<in> K. fits n x) \<and> apart K"

lemma isolated_subset: "isolated n K \<Longrightarrow> K' \<subseteq> K \<Longrightarrow> isolated n K'"
  unfolding isolated_def apart_def by blast

lemma apart_insert:
  assumes "apart K" "\<And>y m. y \<in> K \<Longrightarrow> owns (snd x) m \<Longrightarrow> owns (snd y) m \<Longrightarrow> fst x = fst y"
  shows "apart (insert x K)"
  using assms unfolding apart_def by (metis insert_iff)

lemma isolated_refresh:
  assumes "isolated n K" "(i, tn) \<in> K"
  shows "isolated n (insert (i, refresh t tn) K)"
proof -
  have r: "TID (refresh t tn) = TID tn" "owns (refresh t tn) = owns tn"
    "TStore (refresh t tn) = TStore tn" "Shadow (refresh t tn) = Shadow tn"
    by (simp_all add: refresh_def owns_def fun_eq_iff)
  have "fits n (i, tn)" "apart K" using assms by (simp_all add: isolated_def)
  then have f: "fits n (i, refresh t tn)" by (simp add: fits_def r)
  have "apart (insert (i, refresh t tn) K)"
    by (rule apart_insert [OF \<open>apart K\<close>]) (use assms \<open>apart K\<close> in \<open>force simp: r apart_def\<close>)
  then show ?thesis using f assms(1) by (simp add: isolated_def)
qed

lemma isolated_new:
  assumes iso: "isolated (s_next s) K" and b: "build builder t doc s = (tn, s')"
  shows "isolated (s_next s') (insert (t_ID t, tn) K)"
proof -
  have e: "even (s_next s)" using iso by (simp add: isolated_def)
  have tn: "fits (s_next s') (t_ID t, tn)" "\<forall>m. owns tn m \<longrightarrow> s_next s \<le> m" "s_next s \<le> s_next s'" "even (s_next s')"
    using b e by (auto simp: build_def base_tenancy_def owns_def fits_def Let_def split: option.splits if_splits)
  have old: "fits (s_next s) y" if "y \<in> K" for y using iso that by (simp add: isolated_def)
  have "apart (insert (t_ID t, tn) K)"
  proof (rule apart_insert)
    show "apart K" using iso by (simp add: isolated_def)
    show "fst (t_ID t, tn) = fst y" if "y \<in> K" "owns (snd (t_ID t, tn)) m" "owns (snd y) m" for y m
      using old [OF that(1)] tn(2) that(2,3) by (fastforce simp: fits_def)
  qed
  moreover have "fits (s_next s') y" if "y \<in> K" for y
    using old [OF that] tn(3) by (auto simp: fits_def)
  ultimately show ?thesis using tn(1,4) by (simp add: isolated_def)
qed

section \<open>What the cache keeps\<close>

definition cache_ok :: "TenantSource \<Rightarrow> bool" where
  "cache_ok s \<longleftrightarrow> lru_ok (s_cache s) \<and> keep_hook (s_cache s) = Some returning"

lemma lru_look_remove: "lru_look (lru_remove k c) = (lru_look c)(k := None)"
  by (simp add: lru_look_def lru_remove_def AList.delete_conv')

lemma lru_ok_remove: "lru_ok c \<Longrightarrow> lru_ok (lru_remove k c)"
  using length_delete_le [of k "lru_list c"] by (auto simp: lru_ok_def lru_remove_def AList.distinct_delete)

lemma remove_hook [simp]: "keep_hook (lru_remove k c) = keep_hook c"
  by (simp add: lru_remove_def)

lemma cache_put_ok:
  assumes "cache_ok s"
  shows "cache_ok (cache_put i c s) \<and> s_next (cache_put i c s) = s_next s \<and> lru_look (s_cache (cache_put i c s)) i = Some c \<and>
    (\<forall>j d. lru_look (s_cache (cache_put i c s)) j = Some d \<longrightarrow> j = i \<and> d = c \<or> j \<noteq> i \<and> lru_look (s_cache s) j = Some d)"
proof -
  have ok: "lru_ok (s_cache s)" using assms by (simp add: cache_ok_def)
  have s: "s_cache (cache_put i c s) = fst (lru_put i c (s_cache s))" "s_next (cache_put i c s) = s_next s"
    by (simp_all add: cache_put_def split: prod.splits)
  have "j = i \<and> d = c \<or> j \<noteq> i \<and> lru_look (s_cache s) j = Some d" if "lru_look (s_cache (cache_put i c s)) j = Some d" for j d
    using lru.put_Some [OF ok that [unfolded s]] by (auto split: if_splits)
  then show ?thesis using assms lru.put_ok [OF ok, of i c] lru.put_same [OF ok, of i c] by (simp add: s cache_ok_def)
qed

lemma get_ok: "lru_get k (s_cache s) = (r, l) \<Longrightarrow> cache_ok s \<Longrightarrow> cache_ok (s\<lparr>s_cache := l\<rparr>) \<and> lru_look l = lru_look (s_cache s) \<and> r = lru_look (s_cache s) k"
  using lru.get_value [of k "s_cache s"] lru.get_look [of k "s_cache s"] lru.get_ok [of "s_cache s" k] lru_hooks(2) [of k "s_cache s"]
  by (auto simp: cache_ok_def)

lemma lookup_ok:
  assumes ok: "cache_ok s" and l: "lookup_section t doc s = (r, s')"
  shows "cache_ok s' \<and> s_next s' = s_next s \<and>
    (\<forall>tn. r = Some tn \<longrightarrow> (\<exists>c. lru_look (s_cache s) (t_ID t) = Some c \<and> tn = refresh t (c_t c))) \<and>
    (\<forall>j d. lru_look (s_cache s') j = Some d \<longrightarrow>
       (\<exists>c. lru_look (s_cache s) j = Some c \<and> c_t d = c_t c) \<or> j = t_ID t \<and> r = Some (c_t d))"
proof -
  obtain r' l' where g: "lru_get (t_ID t) (s_cache s) = (r', l')" by fastforce
  note k = get_ok [OF g ok]
  show ?thesis
  proof (cases r')
    case None
    then show ?thesis using l g k by (auto simp: lookup_section_def)
  next
    case (Some c)
    then have look: "lru_look (s_cache s) (t_ID t) = Some c" using k by simp
    show ?thesis
    proof (cases "c_config c = doc")
      case True
      let ?c = "c\<lparr>returning := True, c_t := refresh t (c_t c)\<rparr>"
      have "r = Some (refresh t (c_t c))" "s' = cache_put (t_ID t) ?c (s\<lparr>s_cache := l'\<rparr>)"
        using l g Some True by (simp_all add: lookup_section_def Let_def)
      then show ?thesis using cache_put_ok [of "s\<lparr>s_cache := l'\<rparr>" "t_ID t" ?c] k look by fastforce
    next
      case False
      then have "r = None" "s' = s\<lparr>s_cache := lru_remove (t_ID t) l'\<rparr>" using l g Some by (simp_all add: lookup_section_def)
      then show ?thesis using k by (auto simp: cache_ok_def lru_ok_remove lru_look_remove split: if_splits)
    qed
  qed
qed

lemma publish_ok:
  assumes ok: "cache_ok s" and p: "publish_section i doc tn s = (tn', s')"
  shows "cache_ok s' \<and> s_next s' = s_next s \<and>
    (tn' = tn \<or> (\<exists>c. lru_look (s_cache s) i = Some c \<and> tn' = c_t c)) \<and>
    (\<exists>c. lru_look (s_cache s') i = Some c \<and> c_t c = tn') \<and>
    (\<forall>j d. lru_look (s_cache s') j = Some d \<longrightarrow> j = i \<and> c_t d = tn' \<or> lru_look (s_cache s) j = Some d)"
proof -
  obtain r' l' where g: "lru_get i (s_cache s) = (r', l')" by fastforce
  note k = get_ok [OF g ok]
  let ?c = "\<lparr>c_config = doc, c_t = tn, returning = False\<rparr>"
  have put: "cache_ok (s\<lparr>s_cache := l\<rparr>) \<Longrightarrow> (\<And>j d. lru_look l j = Some d \<Longrightarrow> lru_look (s_cache s) j = Some d) \<Longrightarrow>
      tn' = tn \<Longrightarrow> s' = cache_put i ?c (s\<lparr>s_cache := l\<rparr>) \<Longrightarrow> ?thesis" for l
    using cache_put_ok [of "s\<lparr>s_cache := l\<rparr>" i ?c] by fastforce
  show ?thesis
  proof (cases r')
    case None
    then have "tn' = tn" "s' = cache_put i ?c (s\<lparr>s_cache := l'\<rparr>)" using p g by (auto simp: publish_section_def Let_def)
    then show ?thesis using put [of l'] k by simp
  next
    case (Some c)
    show ?thesis
    proof (cases "c_config c = doc")
      case True
      then have "tn' = c_t c" "s' = s\<lparr>s_cache := l'\<rparr>" using p g Some by (auto simp: publish_section_def Let_def)
      moreover have "lru_look (s_cache s) i = Some c" using k Some by simp
      ultimately show ?thesis using k by simp
    next
      case False
      then have "tn' = tn" "s' = cache_put i ?c (s\<lparr>s_cache := lru_remove i l'\<rparr>)"
        using p g Some by (auto simp: publish_section_def Let_def)
      moreover have "cache_ok (s\<lparr>s_cache := lru_remove i l'\<rparr>)" using k by (simp add: cache_ok_def lru_ok_remove)
      moreover have "lru_look (s_cache s) j = Some d" if "lru_look (lru_remove i l') j = Some d" for j d
        using that k by (auto simp: lru_look_remove split: if_splits)
      ultimately show ?thesis using put [of "lru_remove i l'"] by blast
    qed
  qed
qed

lemma source_run_ok:
  "source_run builder bnd s B served \<Longrightarrow> cache_ok s \<and> isolated (s_next s) (known s B served)"
proof (induction rule: source_run.induct)
  case start
  show ?case by (simp add: cache_ok_def NewTenantSource_def isolated_def known_def)
      (simp add: lru_ok_def newLRU_def lru_look_def apart_def)
next
  case (hit s B served t doc tn s')
  note l = lookup_ok [OF conjunct1 [OF hit.IH] hit.hyps(2)]
  obtain c where c: "lru_look (s_cache s) (t_ID t) = Some c" "tn = refresh t (c_t c)" using l by blast
  have "(t_ID t, c_t c) \<in> known s B served" using c by (auto simp: known_def)
  then have iso: "isolated (s_next s) (insert (t_ID t, tn) (known s B served))"
    using isolated_refresh hit.IH c by blast
  have "known s' B ((t_ID t, tn) # served) \<subseteq> insert (t_ID t, tn) (known s B served)"
    using l unfolding known_def by fastforce
  then show ?case using l iso isolated_subset by metis
next
  case (miss s B served t doc s' tn s'')
  note l = lookup_ok [OF conjunct1 [OF miss.IH] miss.hyps(2)]
  have b: "s_cache s'' = s_cache s'" using miss.hyps(3) by (auto simp: build_def Let_def split: option.splits)
  have "isolated (s_next s') (known s' B served)"
    using l miss.IH isolated_subset [of "s_next s" "known s B served" "known s' B served"] by (fastforce simp: known_def)
  then have "isolated (s_next s'') (insert (t_ID t, tn) (known s' B served))" by (rule isolated_new [OF _ miss.hyps(3)])
  moreover have "known s'' (add_mset (t_ID t, doc, tn) B) served = insert (t_ID t, tn) (known s' B served)"
    by (auto simp: known_def b)
  ultimately show ?case using l b by (simp add: cache_ok_def)
next
  case (publish s i doc tn B served tn' s')
  note l = publish_ok [OF conjunct1 [OF publish.IH] publish.hyps(2)]
  let ?K = "known s (add_mset (i, doc, tn) B) served"
  have "(i, tn') \<in> ?K" using l by (auto simp: known_def)
  moreover have "known s' B ((i, tn') # served) \<subseteq> insert (i, tn') ?K" using l unfolding known_def by fastforce
  ultimately have "known s' B ((i, tn') # served) \<subseteq> ?K" by (simp add: insert_absorb)
  then show ?case using l publish.IH isolated_subset by metis
next
  case (forget s B served i)
  have "known (Forget_tenant i s) B served \<subseteq> known s B served"
    by (auto simp: known_def Forget_tenant_def lru_look_remove split: if_splits)
  then show ?case using forget.IH isolated_subset by (auto simp: Forget_tenant_def cache_ok_def lru_ok_remove)
qed

text \<open>
  C16: Whatever requests overlap, each is handed a tenancy of the tenant that was authenticated, and the
  memory stores of two tenants, live or shadow, are never the same; nor is a live store ever a shadow.
\<close>

theorem tenant_stores_isolated:
  assumes run: "source_run builder bnd s B served" and x: "(i, tn) \<in> set served" and y: "(j, tn') \<in> set served"
  shows "TID tn = i \<and> (\<forall>m. owns tn m \<and> owns tn' m \<longrightarrow> i = j) \<and> (\<forall>m. TStore tn = Mem m \<longrightarrow> Shadow tn' \<noteq> Mem m)"
proof -
  have iso: "isolated (s_next s) (known s B served)" using source_run_ok [OF run] by simp
  have "(i, tn) \<in> known s B served" "(j, tn') \<in> known s B served" using x y by (auto simp: known_def)
  then have "fits (s_next s) (i, tn)" "fits (s_next s) (j, tn')" "\<forall>m. owns tn m \<and> owns tn' m \<longrightarrow> i = j"
    using iso by (auto simp: isolated_def apart_def)
  then show ?thesis by (fastforce simp: fits_def)
qed

text \<open>
  C39: A build that ends late has its way. Published after the tenant was forgotten it puts the tenant back
  into the cache, store and all; published over an entry for another document it throws that entry's
  store away, also when it is the older of the two that was built late.
\<close>

theorem late_build_wins:
  assumes run: "source_run builder bnd s (add_mset (i, doc, tn) B) served" and i: "i \<noteq> []"
  shows "lru_look (s_cache (snd (publish_section i doc tn (Forget_tenant i s)))) i =
      Some \<lparr>c_config = doc, c_t = tn, returning = False\<rparr> \<and>
    (\<forall>c. lru_look (s_cache s) i = Some c \<and> c_config c \<noteq> doc \<longrightarrow>
       fst (publish_section i doc tn s) = tn \<and>
       lru_look (s_cache (snd (publish_section i doc tn s))) i = Some \<lparr>c_config = doc, c_t = tn, returning = False\<rparr>)"
proof -
  have ok: "cache_ok s" using source_run_ok [OF run] by simp
  let ?c = "\<lparr>c_config = doc, c_t = tn, returning = False\<rparr>"
  have placed: "fst (publish_section i doc tn u) = tn \<and> lru_look (s_cache (snd (publish_section i doc tn u))) i = Some ?c"
    if u: "cache_ok u" "\<And>c. lru_look (s_cache u) i = Some c \<Longrightarrow> c_config c \<noteq> doc" for u
  proof -
    obtain r l where g: "lru_get i (s_cache u) = (r, l)" by fastforce
    note k = get_ok [OF g u(1)]
    have "\<exists>l. cache_ok (u\<lparr>s_cache := l\<rparr>) \<and> publish_section i doc tn u = (tn, cache_put i ?c (u\<lparr>s_cache := l\<rparr>))"
    proof (cases r)
      case None
      then show ?thesis using g k by (intro exI [of _ l]) (simp add: publish_section_def Let_def)
    next
      case (Some c)
      then show ?thesis using g k u(2) by (intro exI [of _ "lru_remove i l"])
          (simp add: publish_section_def Let_def cache_ok_def lru_ok_remove)
    qed
    then show ?thesis using cache_put_ok by fastforce
  qed
  have f: "cache_ok (Forget_tenant i s)" "lru_look (s_cache (Forget_tenant i s)) i = None"
    using ok i by (simp_all add: Forget_tenant_def cache_ok_def lru_ok_remove lru_look_remove)
  show ?thesis using placed [OF f(1)] f(2) placed [OF ok] by auto
qed

text \<open>A tenant that came back is evicted by a publication only when every other cached tenant came back too.\<close>

lemma returning_tenant_protected:
  assumes ok: "cache_ok s" and new: "lru_look (s_cache s) i = None"
    and p: "publish_section i doc tn s = (tn', s')" and e: "s_evicted s' = s_evicted s @ gone" "(j, c) \<in> set gone" "returning c"
  shows "lru_look (s_cache s) k = Some d \<Longrightarrow> returning d"
proof -
  let ?c = "\<lparr>c_config = doc, c_t = tn, returning = False\<rparr>"
  obtain l ev where put: "lru_put i ?c (s_cache s) = (l, ev)" by fastforce
  have "lru_get i (s_cache s) = (None, s_cache s)" using new by (simp add: lru_get_def lru_look_def)
  then have "ev = gone" using p e(1) put by (auto simp: publish_section_def cache_put_def Let_def)
  then have "list_all (returning \<circ> snd) (lru_list (s_cache s))"
    using kept_evicted_last [OF _ _ put, of returning "(j, c)"] ok e by (simp add: cache_ok_def)
  then show "lru_look (s_cache s) k = Some d \<Longrightarrow> returning d"
    by (force simp: lru_look_def list_all_iff dest: map_of_SomeD)
qed

text \<open>Resolving fails closed: only an account the registry calls active is served, by its token when one is presented.\<close>

lemma Resolve_tenancy_closed:
  assumes "Resolve_tenancy builder config by_token by_key h s = (Inr tn, s')"
  shows "\<exists>t. (if TokenFromRequest h \<noteq> [] then by_token (TokenFromRequest h) = Active t
              else CallerKey h \<noteq> [] \<and> by_key (CallerKey h) = Active t) \<and>
    tenancy builder t (config t) s = (tn, s')"
  using assms by (auto simp: Resolve_tenancy_def authenticate_def Let_def split: sum.splits reg_answer.splits if_splits prod.splits)

section \<open>The properties at a concrete input\<close>

definition sample_tenant :: Tenant where
  "sample_tenant = \<lparr>t_ID = ''t'', t_Label = [], t_Manager = False, t_Disabled = False, t_DisabledReason = [],
     t_CaptureContent = True, t_RecordTraces = False, t_UpAnthropic = [], t_UpOpenAI = [], t_UpBob = []\<rparr>"

definition sample_builder :: "string \<Rightarrow> BuiltConfig option" where
  "sample_builder d = Some \<lparr>b_StoreOn = True, b_Mode = None, b_Preset = d\<rparr>"

text \<open>Two overlapping requests: one misses with the old document, the other with the new one, and the new one is published.\<close>

definition pending :: "string \<Rightarrow> TenantSource \<Rightarrow> Tenancy \<times> TenantSource" where
  "pending doc s = build sample_builder sample_tenant doc (snd (lookup_section sample_tenant doc s))"

definition sample_old :: "Tenancy \<times> TenantSource" where "sample_old = pending ''old'' (NewTenantSource 2)"
definition sample_new :: "Tenancy \<times> TenantSource" where "sample_new = pending ''new'' (snd sample_old)"

definition sample_published :: "Tenancy \<times> TenantSource" where
  "sample_published = publish_section ''t'' ''new'' (fst sample_new) (snd sample_new)"

lemma sample_source_run:
  "source_run sample_builder 2 (snd sample_published) {#(''t'', ''old'', fst sample_old)#} [(''t'', fst sample_published)]"
proof -
  have m: "source_run sample_builder 2 (snd (pending doc s)) (add_mset (''t'', doc, fst (pending doc s)) B) served"
    if "source_run sample_builder 2 s B served" "fst (lookup_section sample_tenant doc s) = None" for s doc B served
    using source_run.miss [OF that(1), of sample_tenant doc "snd (lookup_section sample_tenant doc s)" "fst (pending doc s)" "snd (pending doc s)"] that(2)
    by (cases "lookup_section sample_tenant doc s") (simp add: pending_def sample_tenant_def)
  have "fst (lookup_section sample_tenant ''old'' (NewTenantSource 2)) = None" by code_simp
  from m [OF source_run.start this] have 1: "source_run sample_builder 2 (snd sample_old) {#(''t'', ''old'', fst sample_old)#} []"
    by (simp add: sample_old_def)
  have "fst (lookup_section sample_tenant ''new'' (snd sample_old)) = None" by code_simp
  from m [OF 1 this] have 2: "source_run sample_builder 2 (snd sample_new) {#(''t'', ''new'', fst sample_new), (''t'', ''old'', fst sample_old)#} []"
    by (simp add: sample_new_def)
  from source_run.publish [OF this, of "fst sample_published" "snd sample_published"] show ?thesis
    by (simp add: sample_published_def)
qed

theorem tenant_stores_isolated_witness:
  "TID (fst sample_published) = ''t'' \<and> Shadow (fst sample_published) \<noteq> Mem 2 \<and> TStore (fst sample_published) = Mem 2"
proof -
  have "TStore (fst sample_published) = Mem 2" by code_simp
  then show ?thesis
    using tenant_stores_isolated [OF sample_source_run, of "''t''" "fst sample_published" "''t''" "fst sample_published"] by auto
qed

theorem late_build_wins_witness:
  "TStore (fst sample_published) = Mem 2 \<and>
   TStore (fst (publish_section ''t'' ''old'' (fst sample_old) (snd sample_published))) = Mem 0"
proof -
  have "TStore (fst sample_published) = Mem 2" "TStore (fst sample_old) = Mem 0" by code_simp+
  moreover have "map_option c_config (lru_look (s_cache (snd sample_published)) ''t'') = Some ''new''" by code_simp
  ultimately show ?thesis using late_build_wins [OF sample_source_run] by auto
qed

end
