(* ===== verification/Expand_Repair.thy ===== *)
theory Expand_Repair
  imports Keepalive_Policy Expand_Marker Decimal_Text
begin

text \<open>
  The repair of an expand call the client answered itself (\<open>src/expand/repair.go\<close>,
  \<open>src/expand/unresolved.go\<close>, \<open>src/schema/rawtext.go\<close>): the results of the proxy's own tool are
  rewritten to the stored original, or to a note when the original is elsewhere in the request.

  A body is its decoded JSON. \<open>raw\<close> gives the text of a value as it stood in the body, \<open>parse\<close> decodes a
  text, and \<open>jset\<close> is the editor's \<open>SetBytes\<close>, \<open>None\<close> when it fails: all three belong to the JSON
  libraries. \<open>resolve\<close> is the store's lookup of an id. Paths are the strings the code builds. What is
  returned is the body, the originals restored, and the ids counted as unresolved.
\<close>

section \<open>Texts\<close>

definition Unavailable :: "string \<Rightarrow> string" where
  "Unavailable hashID = ''[expand: original for id '' @ hashID @ '' is no longer available]''"

definition RestoredInPlace :: "string \<Rightarrow> string" where
  "RestoredInPlace hashID = ''[expand: the content for id '' @ hashID @ '' is present in the transcript above]''"

definition idHexLens :: "nat list" where "idHexLens = [16, 24]"

definition WellFormedID :: "string \<Rightarrow> bool" where
  "WellFormedID i \<longleftrightarrow>
     length i \<in> set idHexLens \<and>
     list_all (\<lambda>c. (48 \<le> (of_char c :: nat) \<and> (of_char c :: nat) \<le> 57) \<or> (97 \<le> (of_char c :: nat) \<and> (of_char c :: nat) \<le> 102)) i"

text \<open>The two counters of ids that resolved to nothing, malformed and missing.\<close>

definition noteUnresolved :: "string \<Rightarrow> int \<times> int \<Rightarrow> int \<times> int" where
  "noteUnresolved i n = (if WellFormedID i then (fst n, snd n + 1) else (fst n + 1, snd n))"

section \<open>Reading a body\<close>

definition json_has :: "json \<Rightarrow> string \<Rightarrow> bool" where
  "json_has v k = (case v of JObj kvs \<Rightarrow> map_of kvs k \<noteq> None | _ \<Rightarrow> False)"

text \<open>gjson's \<open>String\<close> and \<open>ForEach\<close>.\<close>

definition json_string :: "(json \<Rightarrow> string) \<Rightarrow> json \<Rightarrow> string" where
  "json_string raw v = (case v of JArr _ \<Rightarrow> raw v | JObj _ \<Rightarrow> raw v | _ \<Rightarrow> json_text v)"

definition json_each :: "json \<Rightarrow> (string \<times> json) list" where
  "json_each v =
     (case v of
        JArr xs \<Rightarrow> zip (map nat_digits [0..<length xs]) xs
      | JObj kvs \<Rightarrow> kvs
      | JNull \<Rightarrow> []
      | _ \<Rightarrow> [([], v)])"

definition block_text :: "json \<Rightarrow> string" where
  "block_text b = (case json_field b ''text'' of JStr s \<Rightarrow> s | _ \<Rightarrow> [])"

definition ContentText :: "json \<Rightarrow> string" where
  "ContentText v =
     (case v of
        JStr s \<Rightarrow> s
      | JArr bs \<Rightarrow> concat (map block_text bs)
      | _ \<Rightarrow> [])"

definition ToolResultText :: "json \<Rightarrow> string" where
  "ToolResultText blk = ContentText (json_field blk ''content'')"

text \<open>A field of a block holds the text, as a string, in a block of its array, or over the blocks joined.\<close>

definition field_has :: "json \<Rightarrow> string \<Rightarrow> bool" where
  "field_has v orig =
     (case v of
        JStr s \<Rightarrow> s = orig
      | JArr subs \<Rightarrow>
          list_ex (\<lambda>sub. json_field sub ''text'' = JStr orig \<or> json_field sub ''content'' = JStr orig) subs
          \<or> ContentText v = orig
      | _ \<Rightarrow> False)"

definition blockHasText :: "json \<Rightarrow> string \<Rightarrow> string \<Rightarrow> string \<Rightarrow> bool" where
  "blockHasText blk blkBase orig exceptPath =
     list_ex (\<lambda>f. blkBase @ ''.'' @ f \<noteq> exceptPath \<and> field_has (json_field blk f) orig) [''text'', ''content'']"

text \<open>One message, as \<open>contentPresent\<close> visits it.\<close>

definition message_has :: "string \<Rightarrow> json \<Rightarrow> string \<Rightarrow> string \<Rightarrow> bool" where
  "message_has mk m orig exceptPath =
     (let base = ''messages.'' @ mk; c = json_field m ''content'' in
      case c of
        JStr s \<Rightarrow> base @ ''.content'' \<noteq> exceptPath \<and> s = orig
      | _ \<Rightarrow>
          (case c of JArr _ \<Rightarrow> base @ ''.content'' \<noteq> exceptPath \<and> ContentText c = orig | _ \<Rightarrow> False)
          \<or> list_ex (\<lambda>(bk, blk). blockHasText blk (base @ ''.content.'' @ bk) orig exceptPath) (json_each c))"

definition contentPresent :: "json \<Rightarrow> string \<Rightarrow> string \<Rightarrow> bool" where
  "contentPresent body orig exceptPath \<longleftrightarrow>
     orig \<noteq> [] \<and> list_ex (\<lambda>(mk, m). message_has mk m orig exceptPath) (json_each (json_field body ''messages''))"

section \<open>The repair\<close>

type_synonym resolver = "string \<Rightarrow> string option"
type_synonym json_set = "json \<Rightarrow> string \<Rightarrow> json \<Rightarrow> json option"
type_synonym repaired = "json \<times> string list \<times> string list"

text \<open>The calls of our tool in one message: the id a result will carry, and the id asked for.\<close>

definition anthropic_calls :: "(json \<Rightarrow> string) \<Rightarrow> json \<Rightarrow> (string \<times> string) list" where
  "anthropic_calls raw m =
     List.map_filter (\<lambda>blk.
         let i = json_string raw (json_field blk ''id'') in
         if json_string raw (json_field blk ''type'') = ''tool_use'' \<and> json_string raw (json_field blk ''name'') = ToolName \<and> i \<noteq> []
         then Some (i, json_string raw (json_field (json_field blk ''input'') ''id'')) else None)
       (json_array (json_field m ''content''))"

definition chat_calls :: "(json \<Rightarrow> string) \<Rightarrow> (string \<Rightarrow> json) \<Rightarrow> json \<Rightarrow> (string \<times> string) list" where
  "chat_calls raw parse m =
     List.map_filter (\<lambda>tc.
         let i = json_string raw (json_field tc ''id''); f = json_field tc ''function'' in
         if json_string raw (json_field f ''name'') = ToolName \<and> i \<noteq> []
         then Some (i, json_string raw (json_field (parse (json_string raw (json_field f ''arguments''))) ''id'')) else None)
       (json_array (json_field m ''tool_calls''))"

text \<open>The Go map \<open>ours\<close>: a later call with the same id replaces an earlier one.\<close>

definition ours_of :: "(string \<times> string) list \<Rightarrow> string \<rightharpoonup> string" where
  "ours_of calls = map_of (rev calls)"

definition answer_for :: "resolver \<Rightarrow> (string \<Rightarrow> bool) \<Rightarrow> string \<Rightarrow> string" where
  "answer_for resolve present hashID =
     (case resolve hashID of
        None \<Rightarrow> Unavailable hashID
      | Some orig \<Rightarrow> if present orig then RestoredInPlace hashID else orig)"

definition repairOne :: "json_set \<Rightarrow> resolver \<Rightarrow> (string \<rightharpoonup> string) \<Rightarrow> string \<Rightarrow> string \<Rightarrow> bool \<Rightarrow> repaired \<Rightarrow> repaired" where
  "repairOne jset resolve ours callID path hasErrFlag st =
     (case st of (body, restored, noted) \<Rightarrow>
        if callID = [] then st
        else case ours callID of
               None \<Rightarrow> st
             | Some hashID \<Rightarrow>
                 (let noted = (if resolve hashID = None then noted @ [hashID] else noted);
                      answer = answer_for resolve (\<lambda>orig. contentPresent body orig (path @ ''.content'')) hashID
                  in case jset body (path @ ''.content'') (JStr answer) of
                       None \<Rightarrow> (body, restored, noted)
                     | Some nb \<Rightarrow>
                         (let nb = (if hasErrFlag then (case jset nb (path @ ''.is_error'') (JBool False) of Some b \<Rightarrow> b | None \<Rightarrow> nb) else nb)
                          in (nb, (case resolve hashID of Some orig \<Rightarrow> restored @ [orig] | None \<Rightarrow> restored), noted))))"

definition msg_path :: "nat \<Rightarrow> string" where "msg_path i = ''messages.'' @ nat_digits i"

definition block_path :: "nat \<Rightarrow> nat \<Rightarrow> string" where
  "block_path i j = ''messages.'' @ nat_digits i @ ''.content.'' @ nat_digits j"

definition repair_chat_message :: "json_set \<Rightarrow> (json \<Rightarrow> string) \<Rightarrow> resolver \<Rightarrow> (string \<rightharpoonup> string) \<Rightarrow> nat \<times> json \<Rightarrow> repaired \<Rightarrow> repaired" where
  "repair_chat_message jset raw resolve ours x st =
     (case x of (mi, m) \<Rightarrow>
        if json_string raw (json_field m ''role'') \<noteq> ''tool'' then st
        else repairOne jset resolve ours (json_string raw (json_field m ''tool_call_id'')) (msg_path mi) False st)"

definition repair_block :: "json_set \<Rightarrow> (json \<Rightarrow> string) \<Rightarrow> resolver \<Rightarrow> (string \<rightharpoonup> string) \<Rightarrow> nat \<Rightarrow> nat \<times> json \<Rightarrow> repaired \<Rightarrow> repaired" where
  "repair_block jset raw resolve ours mi x st =
     (case x of (bi, blk) \<Rightarrow>
        if json_string raw (json_field blk ''type'') \<noteq> ''tool_result'' then st
        else repairOne jset resolve ours (json_string raw (json_field blk ''tool_use_id'')) (block_path mi bi)
               (json_has blk ''is_error'') st)"

definition repair_anthropic_message :: "json_set \<Rightarrow> (json \<Rightarrow> string) \<Rightarrow> resolver \<Rightarrow> (string \<rightharpoonup> string) \<Rightarrow> nat \<times> json \<Rightarrow> repaired \<Rightarrow> repaired" where
  "repair_anthropic_message jset raw resolve ours x st =
     (case x of (mi, m) \<Rightarrow>
        fold (repair_block jset raw resolve ours mi) (List.enumerate 0 (json_array (json_field m ''content''))) st)"

section \<open>Responses\<close>

definition call_type :: "string \<Rightarrow> bool" where
  "call_type t \<longleftrightarrow> t = ''function_call'' \<or> t = ''custom_tool_call''"

definition output_type :: "string \<Rightarrow> bool" where
  "output_type t \<longleftrightarrow> t = ''function_call_output'' \<or> t = ''custom_tool_call_output''"

definition responses_calls :: "(json \<Rightarrow> string) \<Rightarrow> (string \<Rightarrow> json) \<Rightarrow> json list \<Rightarrow> (string \<times> string) list" where
  "responses_calls raw parse items =
     List.map_filter (\<lambda>item.
         let typ = json_string raw (json_field item ''type''); i = json_string raw (json_field item ''call_id'');
             args = json_string raw (json_field item (if typ = ''custom_tool_call'' then ''input'' else ''arguments'')) in
         if call_type typ \<and> json_string raw (json_field item ''name'') = ToolName \<and> i \<noteq> []
         then Some (i, json_string raw (json_field (parse args) ''id'')) else None) items"

definition item_has :: "json \<Rightarrow> string \<Rightarrow> bool" where
  "item_has item orig =
     list_ex (\<lambda>f. let v = json_field item f in
         v = JStr orig \<or> list_ex (\<lambda>block. json_field block ''text'' = JStr orig) (json_array v)
         \<or> (case v of JArr _ \<Rightarrow> ContentText v = orig | _ \<Rightarrow> False)) [''content'', ''output'']"

definition responsesContentPresent :: "(json \<Rightarrow> string) \<Rightarrow> (string \<Rightarrow> json) \<Rightarrow> json \<Rightarrow> string \<Rightarrow> nat \<Rightarrow> bool" where
  "responsesContentPresent raw parse body orig exceptIndex =
     (let items = json_array (json_field body ''input'') in
      if orig = [] then False
      else (case parse orig of
              JArr want \<Rightarrow>
                want \<noteq> [] \<and>
                list_ex (\<lambda>i. i + length want \<le> length items \<and>
                           list_all (\<lambda>j. i + j \<noteq> exceptIndex \<and> raw (items ! (i + j)) = raw (want ! j)) [0..<length want])
                  [0..<Suc (length items)]
            | _ \<Rightarrow> False)
           \<or> list_ex (\<lambda>(i, item). i \<noteq> exceptIndex \<and> item_has item orig) (List.enumerate 0 items))"

definition repair_item :: "json_set \<Rightarrow> (json \<Rightarrow> string) \<Rightarrow> (string \<Rightarrow> json) \<Rightarrow> resolver \<Rightarrow> (string \<rightharpoonup> string) \<Rightarrow> json \<Rightarrow> nat \<times> json \<Rightarrow> repaired \<Rightarrow> repaired" where
  "repair_item jset raw parse resolve ours body x st =
     (case (x, st) of ((i, item), (out, restored, noted)) \<Rightarrow>
        if \<not> output_type (json_string raw (json_field item ''type'')) then st
        else case ours (json_string raw (json_field item ''call_id'')) of
               None \<Rightarrow> st
             | Some hashID \<Rightarrow>
                 (let noted = (if resolve hashID = None then noted @ [hashID] else noted);
                      answer = answer_for resolve (\<lambda>orig. responsesContentPresent raw parse body orig i) hashID
                  in case jset out (''input.'' @ nat_digits i @ ''.output'') (JStr answer) of
                       None \<Rightarrow> (out, restored, noted)
                     | Some nb \<Rightarrow> (nb, (case resolve hashID of Some orig \<Rightarrow> restored @ [orig] | None \<Rightarrow> restored), noted)))"

definition repairResponsesToolResults :: "json_set \<Rightarrow> (json \<Rightarrow> string) \<Rightarrow> (string \<Rightarrow> json) \<Rightarrow> resolver \<Rightarrow> json \<Rightarrow> repaired" where
  "repairResponsesToolResults jset raw parse resolve body =
     (case json_field body ''input'' of
        JArr items \<Rightarrow>
          (let calls = responses_calls raw parse items in
           if calls = [] then (body, [], [])
           else fold (repair_item jset raw parse resolve (ours_of calls) body) (List.enumerate 0 items) (body, [], []))
      | _ \<Rightarrow> (body, [], []))"

definition RepairToolResults :: "json_set \<Rightarrow> (json \<Rightarrow> string) \<Rightarrow> (string \<Rightarrow> json) \<Rightarrow> resolver \<Rightarrow> string \<Rightarrow> json \<Rightarrow> repaired" where
  "RepairToolResults jset raw parse resolve provider body =
     (if provider = ''responses'' then repairResponsesToolResults jset raw parse resolve body
      else case json_field body ''messages'' of
             JArr ms \<Rightarrow>
               (let anthropic = (provider = ''anthropic'');
                    calls = concat (map (if anthropic then anthropic_calls raw else chat_calls raw parse) ms) in
                if calls = [] then (body, [], [])
                else fold ((if anthropic then repair_anthropic_message else repair_chat_message) jset raw resolve (ours_of calls))
                       (List.enumerate 0 ms) (body, [], []))
           | _ \<Rightarrow> (body, [], []))"

end
