(* ===== verification/Repair_Cells.thy ===== *)
theory Repair_Cells
  imports Expand_Repair
begin

text \<open>
  The repair without the shape of a body: cells (the contents of the results that answer our calls), the
  texts found outside of them, and a write that changes one cell. A locale states what a body has to
  promise about them. From that follow what one pass writes, that a second pass writes the same, and that
  a note never points at nothing.
\<close>

text \<open>One pass over the results and the ids they ask for.\<close>

fun repair_cells :: "('b \<Rightarrow> 'p \<Rightarrow> string \<Rightarrow> 'b) \<Rightarrow> ('b \<Rightarrow> string \<Rightarrow> 'p \<Rightarrow> bool) \<Rightarrow> resolver \<Rightarrow> ('p \<times> string) list \<Rightarrow> 'b \<Rightarrow> 'b" where
  "repair_cells wr present resolve [] b = b"
| "repair_cells wr present resolve ((p, h) # T) b =
     repair_cells wr present resolve T (wr b p (answer_for resolve (\<lambda>t. present b t p) h))"

text \<open>
  The specification: what is written depends on the texts outside the cells and on what has been written
  before, and on nothing else.
\<close>

fun answers :: "(string \<Rightarrow> bool) \<Rightarrow> resolver \<Rightarrow> string list \<Rightarrow> string list \<Rightarrow> string list" where
  "answers outside resolve [] written = []"
| "answers outside resolve (h # hs) written =
     (let a = answer_for resolve (\<lambda>t. t \<noteq> [] \<and> (outside t \<or> t \<in> set written)) h
      in a # answers outside resolve hs (written @ [a]))"

definition write_all :: "('b \<Rightarrow> 'p \<Rightarrow> string \<Rightarrow> 'b) \<Rightarrow> ('p \<times> string) list \<Rightarrow> 'b \<Rightarrow> 'b" where
  "write_all wr xs b = fold (\<lambda>(p, a) b. wr b p a) xs b"

lemma length_answers [simp]: "length (answers outside resolve hs written) = length hs"
  by (induction hs arbitrary: written) (simp_all add: Let_def)

lemma answers_nth:
  "i < length hs \<Longrightarrow> answers outside resolve hs written ! i =
     answer_for resolve (\<lambda>t. t \<noteq> [] \<and> (outside t \<or> t \<in> set written \<or> t \<in> set (take i (answers outside resolve hs written)))) (hs ! i)"
proof (induction hs arbitrary: written i)
  case (Cons h hs)
  then show ?case by (cases i) (simp_all add: Let_def disj_ac)
qed simp

text \<open>No original is the text of a note about one of the ids.\<close>

definition notes_apart :: "resolver \<Rightarrow> string list \<Rightarrow> bool" where
  "notes_apart resolve hs \<longleftrightarrow>
     list_all (\<lambda>h. case resolve h of
         None \<Rightarrow> True
       | Some orig \<Rightarrow> list_all (\<lambda>g. orig \<noteq> RestoredInPlace g \<and> orig \<noteq> Unavailable g) hs) hs"

lemma notes_apartD:
  "notes_apart resolve hs \<Longrightarrow> h \<in> set hs \<Longrightarrow> g \<in> set hs \<Longrightarrow> resolve h = Some orig \<Longrightarrow>
   orig \<noteq> RestoredInPlace g \<and> orig \<noteq> Unavailable g"
  by (force simp: notes_apart_def list_all_iff)

text \<open>An original is written later only when it was not written before.\<close>

lemma later_answer:
  assumes apart: "notes_apart resolve hs" and i: "i < length hs" and j: "j < length hs" and r: "resolve (hs ! i) = Some t"
    and e: "answers outside resolve hs [] ! j = t" "j \<noteq> i" and t: "t \<noteq> []"
  shows "outside t \<or> t \<in> set (take i (answers outside resolve hs []))"
proof (rule ccontr)
  let ?as = "answers outside resolve hs []"
  assume n: "\<not> ?thesis"
  then have ai: "?as ! i = t" using answers_nth [OF i, of outside resolve "[]"] r by (simp add: answer_for_def)
  have "i < j"
  proof (rule ccontr)
    assume "\<not> i < j"
    then have "j < i" using e(2) by simp
    then have "?as ! j \<in> set (take i ?as)" using i j by (auto simp: in_set_conv_nth intro!: exI [of _ j])
    then show False using n e(1) by simp
  qed
  then have w: "t \<in> set (take j ?as)" using ai i j by (auto simp: in_set_conv_nth intro!: exI [of _ i])
  have aj: "?as ! j = answer_for resolve (\<lambda>t. t \<noteq> [] \<and> (outside t \<or> t \<in> set (take j ?as))) (hs ! j)"
    using answers_nth [OF j, of outside resolve "[]"] by simp
  have g: "hs ! j \<in> set hs" "hs ! i \<in> set hs" using i j by simp_all
  show False using aj e(1) w t notes_apartD [OF apart g(2,1) r]
    by (auto simp: answer_for_def split: option.splits if_splits)
qed

text \<open>The results hold none of the originals the ids stand for.\<close>

definition clean_cells :: "('p \<Rightarrow> string \<Rightarrow> bool) \<Rightarrow> 'p set \<Rightarrow> resolver \<Rightarrow> string list \<Rightarrow> bool" where
  "clean_cells holds P resolve hs \<longleftrightarrow>
     (\<forall>q \<in> P. \<forall>h \<in> set hs. case resolve h of None \<Rightarrow> True | Some t \<Rightarrow> t \<noteq> [] \<longrightarrow> \<not> holds q t)"

lemma clean_cellsD:
  "clean_cells holds P resolve hs \<Longrightarrow> q \<in> P \<Longrightarrow> h \<in> set hs \<Longrightarrow> resolve h = Some t \<Longrightarrow> t \<noteq> [] \<Longrightarrow> \<not> holds q t"
  by (force simp: clean_cells_def)

locale cell_body =
  fixes ok :: "'b \<Rightarrow> bool" and cells :: "'p set" and outside :: "'b \<Rightarrow> string \<Rightarrow> bool"
    and holds :: "'b \<Rightarrow> 'p \<Rightarrow> string \<Rightarrow> bool" and own :: "'b \<Rightarrow> 'p \<Rightarrow> string \<Rightarrow> bool"
    and present :: "'b \<Rightarrow> string \<Rightarrow> 'p \<Rightarrow> bool" and settled :: "'b \<Rightarrow> 'p \<Rightarrow> string \<Rightarrow> bool"
    and wr :: "'b \<Rightarrow> 'p \<Rightarrow> string \<Rightarrow> 'b"
  assumes present_iff: "ok b \<Longrightarrow> p \<in> cells \<Longrightarrow>
      present b t p \<longleftrightarrow> t \<noteq> [] \<and> (outside b t \<or> own b p t \<or> (\<exists>q \<in> cells. q \<noteq> p \<and> holds b q t))"
    and own_holds: "ok b \<Longrightarrow> p \<in> cells \<Longrightarrow> own b p t \<Longrightarrow> holds b p t"
    and wr_ok: "ok b \<Longrightarrow> p \<in> cells \<Longrightarrow> ok (wr b p a)"
    and wr_holds: "ok b \<Longrightarrow> p \<in> cells \<Longrightarrow> q \<in> cells \<Longrightarrow> holds (wr b p a) q t \<longleftrightarrow> (if q = p then t = a else holds b q t)"
    and wr_own: "ok b \<Longrightarrow> p \<in> cells \<Longrightarrow> q \<in> cells \<Longrightarrow> own (wr b p a) q t \<Longrightarrow> q \<noteq> p \<and> own b q t"
    and wr_outside: "ok b \<Longrightarrow> p \<in> cells \<Longrightarrow> outside (wr b p a) = outside b"
    and wr_settled: "ok b \<Longrightarrow> p \<in> cells \<Longrightarrow> settled (wr b p a) p a"
    and settled_other: "ok b \<Longrightarrow> p \<in> cells \<Longrightarrow> q \<in> cells \<Longrightarrow> p \<noteq> q \<Longrightarrow> settled b q c \<Longrightarrow> settled (wr b p a) q c"
    and settled_same: "ok b \<Longrightarrow> p \<in> cells \<Longrightarrow> settled b p a \<Longrightarrow> wr b p a = b"
begin

lemma write_all_ok:
  "ok b \<Longrightarrow> fst ` set xs \<subseteq> cells \<Longrightarrow> ok (write_all wr xs b) \<and> outside (write_all wr xs b) = outside b"
  by (induction xs arbitrary: b) (auto simp: write_all_def wr_ok wr_outside)

lemma write_all_other:
  assumes "ok b" "fst ` set xs \<subseteq> cells" "q \<in> cells" "q \<notin> fst ` set xs"
  shows "holds (write_all wr xs b) q t = holds b q t \<and> (own (write_all wr xs b) q t \<longrightarrow> own b q t)
    \<and> (settled b q c \<longrightarrow> settled (write_all wr xs b) q c)"
  using assms
proof (induction xs arbitrary: b)
  case (Cons x xs)
  obtain p a where x: "x = (p, a)" by fastforce
  have p: "p \<in> cells" "p \<noteq> q" using Cons.prems x by auto
  have ih: "holds (write_all wr xs (wr b p a)) q t = holds (wr b p a) q t
      \<and> (own (write_all wr xs (wr b p a)) q t \<longrightarrow> own (wr b p a) q t)
      \<and> (settled (wr b p a) q c \<longrightarrow> settled (write_all wr xs (wr b p a)) q c)"
    using Cons.prems p x by (intro Cons.IH) (auto simp: wr_ok)
  then show ?case using Cons.prems p wr_holds [of b p q a t] wr_own [of b p q a t] settled_other [of b p q c a]
    by (auto simp: x write_all_def)
qed (simp add: write_all_def)

lemma write_all_at:
  assumes "ok b" "fst ` set xs \<subseteq> cells" "distinct (map fst xs)" "(p, a) \<in> set xs"
  shows "(holds (write_all wr xs b) p t \<longleftrightarrow> t = a) \<and> \<not> own (write_all wr xs b) p t \<and> settled (write_all wr xs b) p a"
  using assms
proof (induction xs arbitrary: b)
  case (Cons x xs)
  obtain q c where x: "x = (q, c)" by fastforce
  have q: "q \<in> cells" "ok (wr b q c)" using Cons.prems x by (auto simp: wr_ok)
  show ?case
  proof (cases "(p, a) = x")
    case True
    then have "p \<notin> fst ` set xs" using Cons.prems(3) x by auto
    from write_all_other [OF q(2) _ _ this, of t c] show ?thesis
      using Cons.prems q x True wr_holds [of b q p c t] wr_own [of b q p c t] wr_settled [of b q c] by (auto simp: write_all_def)
  next
    case False
    then have "(p, a) \<in> set xs" using Cons.prems(4) by auto
    then show ?thesis using Cons.IH [OF q(2)] Cons.prems x by (simp add: write_all_def)
  qed
qed simp

text \<open>The first pass writes the answers of the specification.\<close>

lemma pass_from:
  assumes "ok b" "distinct (map fst T)" "fst ` set T \<subseteq> cells"
    and "clean_cells (holds b) (fst ` set T) resolve (map snd T)"
    and "\<And>t. (\<exists>q \<in> cells - fst ` set T. holds b q t) \<longleftrightarrow> t \<in> set written"
  shows "repair_cells wr present resolve T b = write_all wr (zip (map fst T) (answers (outside b) resolve (map snd T) written)) b"
  using assms
proof (induction T arbitrary: b written)
  case (Cons x T)
  obtain p h where x: "x = (p, h)" by fastforce
  have p: "p \<in> cells" "p \<notin> fst ` set T" using Cons.prems(2,3) x by auto
  let ?a = "answer_for resolve (\<lambda>t. present b t p) h"
  have "present b t p \<longleftrightarrow> t \<noteq> [] \<and> (outside b t \<or> t \<in> set written)" if "resolve h = Some t" for t
  proof -
    have "\<not> own b p t" if "t \<noteq> []"
      using clean_cellsD [OF Cons.prems(4), of p h t] own_holds [OF Cons.prems(1) p(1), of t] \<open>resolve h = Some t\<close> that x by auto
    moreover have "(\<exists>q \<in> cells. q \<noteq> p \<and> holds b q t) \<longleftrightarrow> t \<in> set written" if "t \<noteq> []"
    proof -
      have "\<not> holds b q t" if "q \<in> fst ` set (x # T)" for q
        using clean_cellsD [OF Cons.prems(4) that, of h t] \<open>resolve h = Some t\<close> \<open>t \<noteq> []\<close> x by simp
      moreover have "p \<in> fst ` set (x # T)" using x by simp
      ultimately show ?thesis unfolding Cons.prems(5) [of t, symmetric] by blast
    qed
    ultimately show ?thesis using present_iff [OF Cons.prems(1) p(1), of t] by auto
  qed
  then have a: "answer_for resolve (\<lambda>t. t \<noteq> [] \<and> (outside b t \<or> t \<in> set written)) h = ?a"
    by (auto simp: answer_for_def split: option.splits)
  have w: "ok (wr b p ?a)" "outside (wr b p ?a) = outside b" using Cons.prems(1) p(1) by (simp_all add: wr_ok wr_outside)
  have "repair_cells wr present resolve T (wr b p ?a) =
      write_all wr (zip (map fst T) (answers (outside (wr b p ?a)) resolve (map snd T) (written @ [?a]))) (wr b p ?a)"
  proof (rule Cons.IH)
    show "clean_cells (holds (wr b p ?a)) (fst ` set T) resolve (map snd T)"
      unfolding clean_cells_def
    proof (intro ballI)
      fix q h' assume q: "q \<in> fst ` set T" "h' \<in> set (map snd T)"
      then have "q \<in> cells" "q \<noteq> p" using Cons.prems(3) p(2) by auto
      then have "holds (wr b p ?a) q t = holds b q t" for t using wr_holds [OF Cons.prems(1) p(1), of q ?a t] by simp
      then show "case resolve h' of None \<Rightarrow> True | Some t \<Rightarrow> t \<noteq> [] \<longrightarrow> \<not> holds (wr b p ?a) q t"
        using clean_cellsD [OF Cons.prems(4), of q h'] q by (auto split: option.split)
    qed
    show "(\<exists>q \<in> cells - fst ` set T. holds (wr b p ?a) q t) \<longleftrightarrow> t \<in> set (written @ [?a])" for t
    proof -
      let ?B = "cells - fst ` set (x # T)"
      have B: "cells - fst ` set T = insert p ?B" "p \<notin> ?B" using p x by auto
      have "holds (wr b p ?a) q t = holds b q t" if "q \<in> ?B" for q
        using wr_holds [OF Cons.prems(1) p(1), of q ?a t] that B(2) by auto
      then have "(\<exists>q \<in> ?B. holds (wr b p ?a) q t) \<longleftrightarrow> (\<exists>q \<in> ?B. holds b q t)" by (rule bex_cong [OF refl])
      moreover have "holds (wr b p ?a) p t \<longleftrightarrow> t = ?a" using wr_holds [OF Cons.prems(1) p(1) p(1), of ?a t] by simp
      ultimately show ?thesis unfolding B(1) using Cons.prems(5) [of t] by auto
    qed
  qed (use Cons.prems w in auto)
  then show ?case by (simp add: x Let_def a w(2) write_all_def)
qed (simp add: write_all_def)

text \<open>
  For a body whose results hold none of the originals yet: the pass writes the specified answers, a second
  pass changes nothing, and each result has its original or a note whose original is elsewhere.
\<close>

lemma repair_spec:
  assumes b: "ok b" and T: "distinct (map fst T)" "fst ` set T = cells"
    and clean: "clean_cells (holds b) cells resolve (map snd T)"
  shows "repair_cells wr present resolve T b = write_all wr (zip (map fst T) (answers (outside b) resolve (map snd T) [])) b"
  by (rule pass_from) (use assms in simp_all)

lemma after_pass:
  assumes b: "ok b" and T: "distinct (map fst T)" "fst ` set T = cells"
    and clean: "clean_cells (holds b) cells resolve (map snd T)"
    and apart: "notes_apart resolve (map snd T)" and i: "i < length T"
  defines "f \<equiv> repair_cells wr present resolve T b" and "as \<equiv> answers (outside b) resolve (map snd T) []"
  shows "ok f" and "outside f = outside b" and "holds f (fst (T ! i)) t \<longleftrightarrow> t = as ! i"
    and "settled f (fst (T ! i)) (as ! i)"
    and "answer_for resolve (\<lambda>t. present f t (fst (T ! i))) (snd (T ! i)) = as ! i"
proof -
  let ?xs = "zip (map fst T) as"
  have f: "f = write_all wr ?xs b" unfolding f_def as_def by (rule repair_spec [OF b T clean])
  have len: "length as = length T" by (simp add: as_def)
  have xs: "map fst ?xs = map fst T" using len by simp
  then have xs': "fst ` set ?xs \<subseteq> cells" "distinct (map fst ?xs)" using T by (metis image_set order_refl, simp)
  show fo: "ok f" "outside f = outside b" using write_all_ok [OF b xs'(1)] by (simp_all add: f)
  have at: "(holds f (fst (T ! j)) t \<longleftrightarrow> t = as ! j) \<and> \<not> own f (fst (T ! j)) t \<and> settled f (fst (T ! j)) (as ! j)"
    if "j < length T" for j t
  proof -
    have "(fst (T ! j), as ! j) \<in> set ?xs" using that len by (auto simp: set_zip intro!: exI [of _ j])
    then show ?thesis using write_all_at [OF b xs'] by (simp add: f)
  qed
  show "holds f (fst (T ! i)) t \<longleftrightarrow> t = as ! i" "settled f (fst (T ! i)) (as ! i)" using at [OF i] by auto
  let ?p = "fst (T ! i)" and ?h = "snd (T ! i)"
  have p: "?p \<in> cells" using T(2) i by (metis image_eqI nth_mem)
  have "present f t ?p \<longleftrightarrow> t \<noteq> [] \<and> (outside b t \<or> t \<in> set (take i as))" if r: "resolve ?h = Some t" for t
  proof (cases "t = []")
    case False
    have "present f t ?p \<longleftrightarrow> outside b t \<or> (\<exists>q \<in> cells. q \<noteq> ?p \<and> holds f q t)"
      using present_iff [OF fo(1) p, of t] at [OF i] fo(2) False by auto
    also have "\<dots> \<longleftrightarrow> outside b t \<or> t \<in> set (take i as)"
    proof
      assume "outside b t \<or> (\<exists>q \<in> cells. q \<noteq> ?p \<and> holds f q t)"
      then show "outside b t \<or> t \<in> set (take i as)"
      proof
        assume "\<exists>q \<in> cells. q \<noteq> ?p \<and> holds f q t"
        then obtain q where q: "q \<in> cells" "q \<noteq> ?p" "holds f q t" by blast
        then obtain x where x: "x \<in> set T" "q = fst x" using T(2) by blast
        then obtain j where "j < length T" "T ! j = x" by (auto simp: in_set_conv_nth)
        then have j: "j < length T" "fst (T ! j) \<noteq> ?p" "holds f (fst (T ! j)) t" using q x(2) by auto
        then have "as ! j = t" "j \<noteq> i" using at [OF j(1)] by auto
        then show ?thesis using later_answer [OF apart, of i j t "outside b"] i j(1) r False by (simp add: as_def)
      qed simp
    next
      assume "outside b t \<or> t \<in> set (take i as)"
      then show "outside b t \<or> (\<exists>q \<in> cells. q \<noteq> ?p \<and> holds f q t)"
      proof
        assume "t \<in> set (take i as)"
        then obtain j where j: "j < i" "as ! j = t" using i len by (auto simp: in_set_conv_nth)
        then have "fst (T ! j) \<noteq> ?p" using T(1) i nth_eq_iff_index_eq [OF T(1), of j i] by simp
        moreover have "fst (T ! j) \<in> cells" using T(2) i j by (metis image_eqI less_trans nth_mem)
        moreover have "holds f (fst (T ! j)) t" using at [of j t] i j by simp
        ultimately show ?thesis by blast
      qed simp
    qed
    finally show ?thesis using False by simp
  next
    case True
    then show ?thesis using present_iff [OF fo(1) p, of t] by simp
  qed
  then show "answer_for resolve (\<lambda>t. present f t ?p) ?h = as ! i"
    using answers_nth [of i "map snd T" "outside b" resolve "[]"] i by (auto simp: answer_for_def as_def split: option.splits)
qed

lemma second_pass:
  assumes b: "ok b" and T: "distinct (map fst T)" "fst ` set T = cells"
    and clean: "clean_cells (holds b) cells resolve (map snd T)"
    and apart: "notes_apart resolve (map snd T)"
  defines "f \<equiv> repair_cells wr present resolve T b"
  shows "repair_cells wr present resolve T f = f"
proof -
  have "wr f p (answer_for resolve (\<lambda>t. present f t p) h) = f" if ph: "(p, h) \<in> set T" for p h
  proof -
    obtain i where i: "i < length T" "T ! i = (p, h)" using ph unfolding in_set_conv_nth by blast
    have "fst (p, h) \<in> cells" unfolding T(2) [symmetric] using ph by (rule imageI)
    then have "p \<in> cells" by simp
    note a = after_pass [OF b T clean apart i(1), folded f_def]
    have "answer_for resolve (\<lambda>t. present f t p) h = answers (outside b) resolve (map snd T) [] ! i"
      using a(5) i(2) by simp
    moreover have "settled f p (answers (outside b) resolve (map snd T) [] ! i)" using a(4) i(2) by simp
    ultimately show ?thesis using settled_same [OF a(1) \<open>p \<in> cells\<close>] by simp
  qed
  then have all: "\<forall>x \<in> set T. wr f (fst x) (answer_for resolve (\<lambda>t. present f t (fst x)) (snd x)) = f" by auto
  have "\<forall>x \<in> set S. wr f (fst x) (answer_for resolve (\<lambda>t. present f t (fst x)) (snd x)) = f \<Longrightarrow>
      repair_cells wr present resolve S f = f" for S
  proof (induction S)
    case (Cons x S)
    then show ?case by (cases x) simp
  qed simp
  from this [OF all] show ?thesis .
qed

text \<open>What a result reads after a pass is what the body as it now stands asks for.\<close>

lemma pass_settled:
  assumes b: "ok b" and T: "distinct (map fst T)" "fst ` set T = cells"
    and clean: "clean_cells (holds b) cells resolve (map snd T)"
    and apart: "notes_apart resolve (map snd T)" and x: "(p, h) \<in> set T"
  defines "f \<equiv> repair_cells wr present resolve T b"
  shows "settled f p (answer_for resolve (\<lambda>t. present f t p) h)"
proof -
  obtain i where i: "i < length T" "T ! i = (p, h)" using x unfolding in_set_conv_nth by blast
  note a = after_pass [OF b T clean apart i(1), folded f_def]
  show ?thesis using a(4,5) i(2) by simp
qed

end

end
