(* ===== verification/Repair_Json.thy ===== *)
theory Repair_Json
  imports Repair_Cells
begin

text \<open>
  The cells of \<open>Repair_Cells\<close> in a body of the Anthropic wire: the block at message \<open>i\<close>, position \<open>j\<close>.
  Writing one is setting \<open>content\<close>, and \<open>is_error\<close> where the block has that field. What is documented
  of the editor (\<open>sjson.SetBytes\<close> replaces the field at a path that exists, or appends it to the object)
  is \<open>block_editor\<close>. The contract of \<open>cell_body\<close> is discharged for these bodies.
\<close>

section \<open>Setting a field\<close>

definition json_put :: "string \<Rightarrow> json \<Rightarrow> json \<Rightarrow> json" where
  "json_put k x v = (case v of JObj kvs \<Rightarrow> JObj (AList.update k x kvs) | _ \<Rightarrow> v)"

lemma field_put: "v = JObj kvs \<Longrightarrow> json_field (json_put k x v) k' = (if k' = k then x else json_field v k')"
  by (simp add: json_put_def json_field_def update_conv)

lemma field_put_other [simp]: "k' \<noteq> k \<Longrightarrow> json_field (json_put k x v) k' = json_field v k'"
  by (cases v) (simp_all add: json_put_def json_field_def update_conv)

lemma has_put: "v = JObj kvs \<Longrightarrow> json_has (json_put k x v) k' \<longleftrightarrow> k' = k \<or> json_has v k'"
  by (simp add: json_put_def json_has_def update_conv)

lemma put_same: "v = JObj kvs \<Longrightarrow> json_has v k \<Longrightarrow> json_field v k = x \<Longrightarrow> json_put k x v = v"
  by (auto simp: json_put_def json_has_def json_field_def intro: update_triv)

lemma put_obj: "v = JObj kvs \<Longrightarrow> \<exists>kvs. json_put k x v = JObj kvs"
  by (simp add: json_put_def)

section \<open>The block at a place\<close>

definition msgs_of :: "json \<Rightarrow> json list" where
  "msgs_of b = json_array (json_field b ''messages'')"

definition content_blocks :: "json \<Rightarrow> json list" where
  "content_blocks m = json_array (json_field m ''content'')"

definition block_at :: "json \<Rightarrow> nat \<times> nat \<Rightarrow> json" where
  "block_at b p = content_blocks (msgs_of b ! fst p) ! snd p"

text \<open>There is an object there, and all above it are arrays.\<close>

definition placed :: "json \<Rightarrow> nat \<times> nat \<Rightarrow> bool" where
  "placed b p \<longleftrightarrow>
     (\<exists>ms bs kvs. json_field b ''messages'' = JArr ms \<and> fst p < length ms
       \<and> json_field (ms ! fst p) ''content'' = JArr bs \<and> snd p < length bs \<and> bs ! snd p = JObj kvs)"

definition upd_block :: "nat \<times> nat \<Rightarrow> (json \<Rightarrow> json) \<Rightarrow> json \<Rightarrow> json" where
  "upd_block p g b =
     (let ms = msgs_of b; m = ms ! fst p; bs = content_blocks m
      in json_put ''messages'' (JArr (ms[fst p := json_put ''content'' (JArr (bs[snd p := g (bs ! snd p)])) m])) b)"

definition put_result :: "string \<Rightarrow> json \<Rightarrow> json" where
  "put_result a blk =
     (let c = json_put ''content'' (JStr a) blk in if json_has blk ''is_error'' then json_put ''is_error'' (JBool False) c else c)"

definition block_editor :: "json_set \<Rightarrow> bool" where
  "block_editor jset \<longleftrightarrow>
     (\<forall>b i j v. placed b (i, j) \<longrightarrow>
        jset b (block_path i j @ ''.content'') v = Some (upd_block (i, j) (json_put ''content'' v) b) \<and>
        jset b (block_path i j @ ''.is_error'') v = Some (upd_block (i, j) (json_put ''is_error'' v) b))"

lemma json_field_obj: "json_field v k \<noteq> JNull \<Longrightarrow> \<exists>kvs. v = JObj kvs"
  by (cases v) (auto simp: json_field_def)

lemma placedE:
  assumes "placed b (i, j)"
  obtains ms bs kvs bk mk where "json_field b ''messages'' = JArr ms" "i < length ms" "json_field (ms ! i) ''content'' = JArr bs"
    "j < length bs" "bs ! j = JObj kvs" "b = JObj bk" "ms ! i = JObj mk"
    "msgs_of b = ms" "content_blocks (ms ! i) = bs" "block_at b (i, j) = JObj kvs"
proof -
  obtain ms bs kvs where a: "json_field b ''messages'' = JArr ms" "i < length ms" "json_field (ms ! i) ''content'' = JArr bs"
    "j < length bs" "bs ! j = JObj kvs" using assms by (auto simp: placed_def)
  moreover obtain bk where "b = JObj bk" using json_field_obj [of b "''messages''"] a(1) by auto
  moreover obtain mk where "ms ! i = JObj mk" using json_field_obj [of "ms ! i" "''content''"] a(3) by auto
  moreover have "msgs_of b = ms" "content_blocks (ms ! i) = bs" "block_at b (i, j) = JObj kvs"
    using a by (simp_all add: msgs_of_def content_blocks_def block_at_def json_array_def)
  ultimately show ?thesis by (rule that)
qed

lemma update_twice: "AList.update k x (AList.update k y kvs) = AList.update k x kvs"
  by (induction kvs) auto

lemma put_put [simp]: "json_put k x (json_put k y v) = json_put k x v"
  by (cases v) (simp_all add: json_put_def update_twice)

lemma upd_block_msgs:
  assumes "placed b (i, j)"
  shows "msgs_of (upd_block (i, j) g b) =
    (msgs_of b)[i := json_put ''content'' (JArr ((content_blocks (msgs_of b ! i))[j := g (block_at b (i, j))])) (msgs_of b ! i)]"
    and "\<exists>ms. json_field (upd_block (i, j) g b) ''messages'' = JArr ms"
  by (rule placedE [OF assms], simp add: msgs_of_def upd_block_def Let_def field_put json_array_def content_blocks_def block_at_def)+

lemma upd_block_blocks:
  assumes "placed b (i, j)" and "i' < length (msgs_of b)"
  shows "json_field (msgs_of (upd_block (i, j) g b) ! i') ''content'' =
    (if i' = i then JArr ((content_blocks (msgs_of b ! i))[j := g (block_at b (i, j))]) else json_field (msgs_of b ! i') ''content'')"
    and "k \<noteq> ''content'' \<Longrightarrow> json_field (msgs_of (upd_block (i, j) g b) ! i') k = json_field (msgs_of b ! i') k"
proof -
  obtain mk where "msgs_of b ! i = JObj mk" by (rule placedE [OF assms(1)]) simp
  then show "json_field (msgs_of (upd_block (i, j) g b) ! i') ''content'' =
    (if i' = i then JArr ((content_blocks (msgs_of b ! i))[j := g (block_at b (i, j))]) else json_field (msgs_of b ! i') ''content'')"
    "k \<noteq> ''content'' \<Longrightarrow> json_field (msgs_of (upd_block (i, j) g b) ! i') k = json_field (msgs_of b ! i') k"
    using assms(2) by (cases "i' = i", simp_all add: upd_block_msgs(1) [OF assms(1)] field_put)+
qed

lemma upd_block_at:
  assumes "placed b p" "placed b q" and g: "\<And>kvs. block_at b p = JObj kvs \<Longrightarrow> \<exists>kvs. g (block_at b p) = JObj kvs"
  shows "placed (upd_block p g b) q" and "block_at (upd_block p g b) q = (if q = p then g (block_at b p) else block_at b q)"
proof -
  obtain i j i' j' where pq: "p = (i, j)" "q = (i', j')" by (metis surj_pair)
  from assms(1) [unfolded pq] obtain ms bs kvs where a: "json_field b ''messages'' = JArr ms" "i < length ms"
    "json_field (ms ! i) ''content'' = JArr bs" "j < length bs" "msgs_of b = ms" "content_blocks (ms ! i) = bs" "block_at b (i, j) = JObj kvs"
    by (metis placedE)
  from assms(2) [unfolded pq] obtain bs' kvs' where b: "i' < length ms" "json_field (ms ! i') ''content'' = JArr bs'" "j' < length bs'"
    "content_blocks (ms ! i') = bs'" "bs' ! j' = JObj kvs'" using a(1) by (metis json.inject(4) placedE)
  obtain ms' where m: "json_field (upd_block (i, j) g b) ''messages'' = JArr ms'" using upd_block_msgs(2) [OF assms(1) [unfolded pq]] by blast
  then have m': "msgs_of (upd_block (i, j) g b) = ms'" by (simp add: msgs_of_def json_array_def)
  have l: "length ms' = length ms" using upd_block_msgs(1) [OF assms(1) [unfolded pq], of g] a(5) m' by simp
  have f: "json_field (ms' ! i') ''content'' = (if i' = i then JArr (bs[j := g (JObj kvs)]) else JArr bs')"
    using upd_block_blocks(1) [OF assms(1) [unfolded pq], of i' g] a b m' by simp
  obtain kvs'' where g': "g (JObj kvs) = JObj kvs''" using g a(7) pq by auto
  have bb: "i' = i \<Longrightarrow> bs' = bs" using a(3) b(2) by simp
  have e: "block_at (upd_block (i, j) g b) (i', j') = (if i' = i then bs[j := g (JObj kvs)] ! j' else bs' ! j')"
    using m' f by (simp add: block_at_def content_blocks_def json_array_def)
  then show at: "block_at (upd_block p g b) q = (if q = p then g (block_at b p) else block_at b q)"
    unfolding pq using a b bb by (auto simp: block_at_def nth_list_update)
  show "placed (upd_block p g b) q"
  proof (cases "i' = i")
    case True
    have "bs[j := g (JObj kvs)] ! j' \<in> range JObj" using True bb b(3,5) g' by (cases "j' = j") auto
    then obtain k where "bs[j := g (JObj kvs)] ! j' = JObj k" by auto
    then show ?thesis unfolding placed_def pq using m l b True f bb by auto
  next
    case False
    then show ?thesis unfolding placed_def pq using m l b f by auto
  qed
qed

lemma upd_block_comp:
  assumes "placed b p"
  shows "upd_block p h (upd_block p g b) = upd_block p (h \<circ> g) b"
proof -
  obtain i j where p: "p = (i, j)" by fastforce
  note P = assms [unfolded p]
  obtain ms bs mk bk where o: "json_field b ''messages'' = JArr ms" "i < length ms" "json_field (ms ! i) ''content'' = JArr bs"
    "j < length bs" "ms ! i = JObj mk" "b = JObj bk" "msgs_of b = ms" "content_blocks (ms ! i) = bs"
    by (rule placedE [OF P])
  let ?m = "\<lambda>g. json_put ''content'' (JArr (bs[j := g (bs ! j)])) (ms ! i)"
  have u: "upd_block (i, j) g b = json_put ''messages'' (JArr (ms[i := ?m g])) b" for g
    using o by (simp add: upd_block_def Let_def)
  have "msgs_of (upd_block (i, j) g b) = ms[i := ?m g]" "content_blocks (?m g) = bs[j := g (bs ! j)]"
    by (simp_all add: u msgs_of_def content_blocks_def json_array_def field_put [OF o(6)] field_put [OF o(5)])
  then have "upd_block (i, j) h (upd_block (i, j) g b) = upd_block (i, j) (h \<circ> g) b"
    using o(2,4) by (simp add: upd_block_def [of "(i, j)" h "json_put _ _ _"] Let_def u)
  then show ?thesis by (simp add: p)
qed

lemma upd_block_same:
  assumes "placed b p" "g (block_at b p) = block_at b p"
  shows "upd_block p g b = b"
proof -
  obtain i j where p: "p = (i, j)" by fastforce
  obtain ms bs mk bk where o: "json_field b ''messages'' = JArr ms" "i < length ms" "json_field (ms ! i) ''content'' = JArr bs"
    "j < length bs" "ms ! i = JObj mk" "b = JObj bk" "msgs_of b = ms" "content_blocks (ms ! i) = bs"
    by (rule placedE [OF assms(1) [unfolded p]])
  have same: "json_put k x v = v" if "json_field v k = x" "x \<noteq> JNull" for k x v
    using that by (cases v) (auto simp: json_put_def json_field_def intro!: update_triv split: option.splits)
  have "g (bs ! j) = bs ! j" using assms(2) o by (simp add: p block_at_def)
  then show ?thesis unfolding p using o same [OF o(1)] same [OF o(3)] list_update_id [of ms i] by (simp add: upd_block_def Let_def)
qed

section \<open>Writing a result\<close>

lemma result_obj: "blk = JObj kvs \<Longrightarrow> \<exists>kvs. put_result a blk = JObj kvs"
  by (simp add: put_result_def Let_def json_put_def)

lemma result_fields:
  assumes "blk = JObj kvs"
  shows "json_field (put_result a blk) k =
    (if k = ''content'' then JStr a else if k = ''is_error'' \<and> json_has blk k then JBool False else json_field blk k)"
    and "json_has (put_result a blk) ''is_error'' = json_has blk ''is_error''"
    and "json_has (put_result a blk) ''content''"
proof -
  obtain kvs' where "json_put ''content'' (JStr a) blk = JObj kvs'" using put_obj [OF assms] by blast
  note f = field_put [OF this] has_put [OF this] field_put [OF assms] has_put [OF assms]
  show "json_field (put_result a blk) k =
    (if k = ''content'' then JStr a else if k = ''is_error'' \<and> json_has blk k then JBool False else json_field blk k)"
    "json_has (put_result a blk) ''is_error'' = json_has blk ''is_error''"
    "json_has (put_result a blk) ''content''"
    by (auto simp: put_result_def Let_def f)
qed

text \<open>The block reads as the answer, with no error flag left.\<close>

definition answered :: "string \<Rightarrow> json \<Rightarrow> bool" where
  "answered a blk \<longleftrightarrow> json_has blk ''content'' \<and> json_field blk ''content'' = JStr a
     \<and> (json_has blk ''is_error'' \<longrightarrow> json_field blk ''is_error'' = JBool False)"

lemma answered_put: "blk = JObj kvs \<Longrightarrow> answered a (put_result a blk)"
  by (simp add: answered_def result_fields)

lemma put_answered: "blk = JObj kvs \<Longrightarrow> answered a blk \<Longrightarrow> put_result a blk = blk"
  by (auto simp: answered_def put_result_def Let_def put_same)

definition put_at :: "json \<Rightarrow> nat \<times> nat \<Rightarrow> string \<Rightarrow> json" where
  "put_at b p a = upd_block p (put_result a) b"

lemma put_at_at:
  assumes "placed b p" "placed b q"
  shows "placed (put_at b p a) q" "block_at (put_at b p a) q = (if q = p then put_result a (block_at b p) else block_at b q)"
  unfolding put_at_def using upd_block_at [OF assms, of "put_result a"] result_obj by auto

end
