(* ===== verification/Repair_Outcome.thy ===== *)
theory Repair_Outcome
  imports Repair_Json
begin

text \<open>
  The repair of a body of the Anthropic wire (\<open>RepairToolResults\<close> of \<open>src/expand/repair.go\<close>): the
  contract of \<open>cell_body\<close> discharged for its JSON, the loop of the code as one pass over cells, and what
  follows: repairing a repaired body changes nothing, and no note stands for content that is not there.
\<close>

section \<open>Presence of a text, by place\<close>

lemma dot_split:
  "CHR ''.'' \<notin> set a \<Longrightarrow> CHR ''.'' \<notin> set c \<Longrightarrow> a @ CHR ''.'' # x = c @ CHR ''.'' # y \<longleftrightarrow> a = c \<and> x = y"
  by (induction a arbitrary: c) (case_tac c; auto)+

lemma each_ex:
  "list_ex (\<lambda>(k, x). P k x) (json_each (JArr xs)) \<longleftrightarrow> (\<exists>i < length xs. P (nat_digits i) (xs ! i))"
  by (force simp: json_each_def list_ex_iff set_zip)

lemma enum_ex: "list_ex (\<lambda>(i, x). P i x) (List.enumerate 0 xs) \<longleftrightarrow> (\<exists>i < length xs. P i (xs ! i))"
  by (force simp: list_ex_iff in_set_enumerate_eq)

lemma message_path: "''messages.'' @ nat_digits i' @ ''.content'' \<noteq> block_path i j @ ''.content''"
proof
  assume "''messages.'' @ nat_digits i' @ ''.content'' = block_path i j @ ''.content''"
  then have "nat_digits i' @ CHR ''.'' # ''content'' = nat_digits i @ CHR ''.'' # (''content.'' @ nat_digits j @ ''.content'')"
    by (simp add: block_path_def)
  then have "''content'' = ''content.'' @ nat_digits j @ ''.content''" by (subst (asm) dot_split) simp_all
  then show False by simp
qed

lemma block_field_path:
  "((''messages.'' @ nat_digits i') @ ''.content.'' @ bk) @ ''.'' @ ''content'' = block_path i j @ ''.content'' \<longleftrightarrow> i' = i \<and> bk = nat_digits j"
  "((''messages.'' @ nat_digits i') @ ''.content.'' @ bk) @ ''.'' @ ''text'' \<noteq> block_path i j @ ''.content''"
proof -
  have s: "((''messages.'' @ nat_digits i') @ ''.content.'' @ bk) @ ''.'' @ f = block_path i j @ ''.content'' \<longleftrightarrow>
      i' = i \<and> bk @ ''.'' @ f = nat_digits j @ ''.content''" for f
    using dot_split [of "nat_digits i'" "nat_digits i" "''content.'' @ bk @ ''.'' @ f" "''content.'' @ nat_digits j @ ''.content''"]
    by (simp add: block_path_def)
  show "((''messages.'' @ nat_digits i') @ ''.content.'' @ bk) @ ''.'' @ ''content'' = block_path i j @ ''.content'' \<longleftrightarrow> i' = i \<and> bk = nat_digits j"
    unfolding s by simp
  have "bk @ ''.text'' \<noteq> nat_digits j @ ''.content''"
    by (auto dest: arg_cong [of _ _ rev])
  then show "((''messages.'' @ nat_digits i') @ ''.content.'' @ bk) @ ''.'' @ ''text'' \<noteq> block_path i j @ ''.content''"
    unfolding s by simp
qed

definition block_outside :: "bool \<Rightarrow> json \<Rightarrow> string \<Rightarrow> bool" where
  "block_outside cell blk t \<longleftrightarrow> field_has (json_field blk ''text'') t \<or> \<not> cell \<and> field_has (json_field blk ''content'') t"

definition msg_outside :: "(nat \<times> nat) set \<Rightarrow> nat \<Rightarrow> json \<Rightarrow> string \<Rightarrow> bool" where
  "msg_outside C i m t =
     (case json_field m ''content'' of
        JStr s \<Rightarrow> s = t
      | JArr bs \<Rightarrow> ContentText (JArr bs) = t \<or> (\<exists>j < length bs. block_outside ((i, j) \<in> C) (bs ! j) t)
      | c \<Rightarrow> list_ex (\<lambda>(k, blk). block_outside False blk t) (json_each c))"

definition body_outside :: "(nat \<times> nat) set \<Rightarrow> json \<Rightarrow> string \<Rightarrow> bool" where
  "body_outside C b t \<longleftrightarrow> (\<exists>i < length (msgs_of b). msg_outside C i (msgs_of b ! i) t)"

definition result_holds :: "json \<Rightarrow> nat \<times> nat \<Rightarrow> string \<Rightarrow> bool" where
  "result_holds b p t \<longleftrightarrow> field_has (json_field (block_at b p) ''content'') t"

definition result_present :: "json \<Rightarrow> string \<Rightarrow> nat \<times> nat \<Rightarrow> bool" where
  "result_present b t p \<longleftrightarrow> contentPresent b t (block_path (fst p) (snd p) @ ''.content'')"

lemma block_has:
  "blockHasText blk ((''messages.'' @ nat_digits i') @ ''.content.'' @ bk) t (block_path i j @ ''.content'') \<longleftrightarrow>
     field_has (json_field blk ''text'') t \<or> (i' = i \<longrightarrow> bk \<noteq> nat_digits j) \<and> field_has (json_field blk ''content'') t"
  unfolding blockHasText_def using block_field_path by (simp del: append_assoc)

lemma message_has_iff:
  assumes "i' = i \<longrightarrow> (\<exists>bs. json_field m ''content'' = JArr bs)"
  shows "message_has (nat_digits i') m t (block_path i j @ ''.content'') \<longleftrightarrow>
    (case json_field m ''content'' of
        JStr s \<Rightarrow> s = t
      | JArr bs \<Rightarrow> ContentText (JArr bs) = t \<or> (\<exists>j' < length bs. block_outside ((i', j') = (i, j)) (bs ! j') t)
      | c \<Rightarrow> list_ex (\<lambda>(k, blk). block_outside False blk t) (json_each c))"
proof -
  have o: "i' \<noteq> i" if "\<nexists>bs. json_field m ''content'' = JArr bs" using assms that by blast
  have p: "(''messages.'' @ nat_digits i') @ ''.content'' \<noteq> block_path i j @ ''.content''" using message_path by simp
  show ?thesis
  proof (cases "json_field m ''content''")
    case (JArr bs)
    show ?thesis unfolding message_has_def Let_def JArr block_has each_ex using p by (auto simp: block_outside_def)
  next
    case (JObj kvs)
    then have "i' \<noteq> i" using o by simp
    then show ?thesis unfolding message_has_def Let_def JObj block_has by (simp add: block_outside_def)
  next
    case JNull
    then have "i' \<noteq> i" using o by simp
    then show ?thesis unfolding message_has_def Let_def JNull block_has by (simp add: block_outside_def)
  next
    case (JBool c)
    then have "i' \<noteq> i" using o by simp
    then show ?thesis unfolding message_has_def Let_def JBool block_has by (simp add: block_outside_def)
  next
    case (JNum c)
    then have "i' \<noteq> i" using o by simp
    then show ?thesis unfolding message_has_def Let_def JNum block_has by (simp add: block_outside_def)
  next
    case (JStr c)
    then show ?thesis unfolding message_has_def Let_def JStr using p by simp
  qed
qed

lemma placed_parts:
  assumes "placed b (i, j)"
  shows "json_field b ''messages'' = JArr (msgs_of b)" "i < length (msgs_of b)"
    "json_field (msgs_of b ! i) ''content'' = JArr (content_blocks (msgs_of b ! i))"
    "j < length (content_blocks (msgs_of b ! i))" "block_at b (i, j) = content_blocks (msgs_of b ! i) ! j"
    "\<exists>kvs. block_at b (i, j) = JObj kvs"
  using assms by (auto simp: block_at_def elim!: placedE)

lemma present_anthropic:
  assumes C: "\<forall>q \<in> C. placed b q" and p: "p \<in> C"
  shows "result_present b t p \<longleftrightarrow> t \<noteq> [] \<and> (body_outside C b t \<or> (\<exists>q \<in> C. q \<noteq> p \<and> result_holds b q t))"
proof -
  obtain i j where pp: "p = (i, j)" by fastforce
  have P: "placed b (i, j)" using C p pp by blast
  note a = placed_parts [OF P]
  have "result_present b t p \<longleftrightarrow> t \<noteq> [] \<and> (\<exists>i' < length (msgs_of b). message_has (nat_digits i') (msgs_of b ! i') t (block_path i j @ ''.content''))"
    by (simp add: result_present_def contentPresent_def pp a(1) each_ex)
  also have "(\<exists>i' < length (msgs_of b). message_has (nat_digits i') (msgs_of b ! i') t (block_path i j @ ''.content'')) \<longleftrightarrow>
      (\<exists>i' < length (msgs_of b). msg_outside C i' (msgs_of b ! i') t
         \<or> (\<exists>j'. (i', j') \<in> C \<and> (i', j') \<noteq> p \<and> result_holds b (i', j') t))"
  proof -
    have "message_has (nat_digits i') (msgs_of b ! i') t (block_path i j @ ''.content'') \<longleftrightarrow>
        msg_outside C i' (msgs_of b ! i') t \<or> (\<exists>j'. (i', j') \<in> C \<and> (i', j') \<noteq> p \<and> result_holds b (i', j') t)" for i'
    proof -
      have "i' = i \<longrightarrow> (\<exists>bs. json_field (msgs_of b ! i') ''content'' = JArr bs)" using a(3) by auto
      note h = message_has_iff [OF this, of t j]
      show ?thesis
      proof (cases "json_field (msgs_of b ! i') ''content''")
        case (JArr bs)
        then have bs: "content_blocks (msgs_of b ! i') = bs" by (simp add: content_blocks_def json_array_def)
        have c: "j' < length bs \<and> block_at b (i', j') = bs ! j'" if "(i', j') \<in> C" for j'
          using placed_parts [of b i' j'] C that bs by simp
        have r: "(i', j') \<in> C \<and> (i', j') \<noteq> p \<and> result_holds b (i', j') t \<longleftrightarrow>
            j' < length bs \<and> (i', j') \<in> C \<and> (i', j') \<noteq> p \<and> field_has (json_field (bs ! j') ''content'') t" for j'
          using c [of j'] by (auto simp: result_holds_def)
        show ?thesis unfolding h msg_outside_def JArr r block_outside_def json.case pp [symmetric] using p by blast
      next
        case (JObj kvs)
        then have "(i', j') \<notin> C" for j' using placed_parts(3) [of b i' j'] C by auto
        then show ?thesis unfolding h msg_outside_def by (simp add: JObj)
      next
        case JNull
        then have "(i', j') \<notin> C" for j' using placed_parts(3) [of b i' j'] C by auto
        then show ?thesis unfolding h msg_outside_def by (simp add: JNull)
      next
        case (JBool c)
        then have "(i', j') \<notin> C" for j' using placed_parts(3) [of b i' j'] C by auto
        then show ?thesis unfolding h msg_outside_def by (simp add: JBool)
      next
        case (JNum c)
        then have "(i', j') \<notin> C" for j' using placed_parts(3) [of b i' j'] C by auto
        then show ?thesis unfolding h msg_outside_def by (simp add: JNum)
      next
        case (JStr c)
        then have "(i', j') \<notin> C" for j' using placed_parts(3) [of b i' j'] C by auto
        then show ?thesis unfolding h msg_outside_def by (simp add: JStr)
      qed
    qed
    then show ?thesis by simp
  qed
  also have "\<dots> \<longleftrightarrow> body_outside C b t \<or> (\<exists>q \<in> C. q \<noteq> p \<and> result_holds b q t)"
  proof -
    have "q \<in> C \<Longrightarrow> fst q < length (msgs_of b)" for q using placed_parts(2) [of b "fst q" "snd q"] C by simp
    then show ?thesis unfolding body_outside_def by (metis prod.collapse fst_conv)
  qed
  finally show ?thesis .
qed

section \<open>The contract of the cells\<close>

lemma outside_put:
  assumes C: "\<forall>q \<in> C. placed b q" and p: "p \<in> C"
  shows "body_outside C (put_at b p a) = body_outside C b"
proof -
  obtain i j where pp: "p = (i, j)" by fastforce
  have P: "placed b (i, j)" using C p pp by blast
  note u = placed_parts [OF P]
  obtain kvs where k: "block_at b (i, j) = JObj kvs" using u(6) by blast
  let ?b = "put_at b (i, j) a" and ?bs = "content_blocks (msgs_of b ! i)" and ?g = "put_result a (block_at b (i, j))"
  have l: "length (msgs_of ?b) = length (msgs_of b)" unfolding put_at_def upd_block_msgs(1) [OF P] by simp
  have o: "json_field (msgs_of ?b ! i') ''content'' =
      (if i' = i then JArr (?bs[j := ?g]) else json_field (msgs_of b ! i') ''content'')" if "i' < length (msgs_of b)" for i'
    unfolding put_at_def using upd_block_blocks(1) [OF P that] .
  have t: "json_field ?g ''text'' = json_field (?bs ! j) ''text''" using result_fields(1) [OF k, of a "''text''"] u(5) by simp
  have c: "ContentText (JArr (?bs[j := ?g])) = ContentText (JArr ?bs)"
  proof -
    have "map block_text (?bs[j := ?g]) = (map block_text ?bs)[j := block_text ?g]" by (rule map_update)
    also have "block_text ?g = map block_text ?bs ! j" using t u(4) by (simp add: block_text_def)
    finally show ?thesis by (simp add: ContentText_def)
  qed
  have n: "block_outside ((i, j') \<in> C) (?bs[j := ?g] ! j') s = block_outside ((i, j') \<in> C) (?bs ! j') s" if "j' < length ?bs" for j' s
    using that t p pp by (cases "j' = j") (simp_all add: block_outside_def)
  have "msg_outside C i' (msgs_of ?b ! i') s = msg_outside C i' (msgs_of b ! i') s" if "i' < length (msgs_of b)" for i' s
    unfolding msg_outside_def o [OF that] using c n u(3) by (cases "i' = i") auto
  then show ?thesis unfolding body_outside_def pp fun_eq_iff using l by auto
qed

interpretation anthropic: cell_body "\<lambda>b. \<forall>q \<in> C. placed b q" C "body_outside C" result_holds "\<lambda>_ _ _. False" result_present
  "\<lambda>b p a. answered a (block_at b p)" put_at for C :: "(nat \<times> nat) set"
proof unfold_locales
  fix b p q t a c
  assume ok: "\<forall>q \<in> C. placed b q" and p: "p \<in> C"
  then have P: "placed b p" by blast
  have obj: "\<exists>kvs. block_at b p = JObj kvs" using placed_parts(6) [of b "fst p" "snd p"] P by simp
  show "result_present b t p \<longleftrightarrow> t \<noteq> [] \<and> (body_outside C b t \<or> False \<or> (\<exists>q \<in> C. q \<noteq> p \<and> result_holds b q t))"
    using present_anthropic [OF ok p] by simp
  show "\<forall>q \<in> C. placed (put_at b p a) q" using put_at_at(1) [OF P] ok by blast
  show "body_outside C (put_at b p a) = body_outside C b" by (rule outside_put [OF ok p])
  show "answered a (block_at (put_at b p a) p)" using put_at_at(2) [OF P P] answered_put obj by auto
  show "put_at b p a = b" if "answered a (block_at b p)"
    unfolding put_at_def using obj that by (auto intro: upd_block_same [OF P] put_answered)
  assume q: "q \<in> C"
  then have Q: "placed b q" using ok by blast
  show "result_holds (put_at b p a) q t \<longleftrightarrow> (if q = p then t = a else result_holds b q t)"
    using put_at_at(2) [OF P Q, of a] obj by (auto simp: result_holds_def result_fields field_has_def)
  show "answered c (block_at (put_at b p a) q)" if "p \<noteq> q" "answered c (block_at b q)"
    using put_at_at(2) [OF P Q, of a] that by simp
qed auto

section \<open>The loop as a pass over cells\<close>

text \<open>The blocks of a body with their places, and the results among them that answer a call of ours.\<close>

definition flat_blocks :: "json list \<Rightarrow> nat \<Rightarrow> (nat \<times> nat \<times> json) list" where
  "flat_blocks ms n = concat (map (\<lambda>(i, m). map (\<lambda>(j, blk). (i, j, blk)) (List.enumerate 0 (content_blocks m))) (List.enumerate n ms))"

definition repair_target :: "(json \<Rightarrow> string) \<Rightarrow> (string \<rightharpoonup> string) \<Rightarrow> nat \<times> nat \<times> json \<Rightarrow> ((nat \<times> nat) \<times> string) option" where
  "repair_target raw ours x =
     (case x of (i, j, blk) \<Rightarrow>
        let c = json_string raw (json_field blk ''tool_use_id'') in
        if json_string raw (json_field blk ''type'') = ''tool_result'' \<and> c \<noteq> [] then map_option (Pair (i, j)) (ours c) else None)"

definition our_calls :: "(json \<Rightarrow> string) \<Rightarrow> json \<Rightarrow> string \<rightharpoonup> string" where
  "our_calls raw b = ours_of (concat (map (anthropic_calls raw) (msgs_of b)))"

definition repair_targets :: "(json \<Rightarrow> string) \<Rightarrow> json \<Rightarrow> ((nat \<times> nat) \<times> string) list" where
  "repair_targets raw b = List.map_filter (repair_target raw (our_calls raw b)) (flat_blocks (msgs_of b) 0)"

lemma repair_target_at: "repair_target raw ours (i, j, blk) = Some y \<Longrightarrow> fst y = (i, j)"
  by (auto simp: repair_target_def Let_def split: if_splits)

lemma flat_blocks_Cons: "flat_blocks (m # ms) n = map (\<lambda>(j, blk). (n, j, blk)) (List.enumerate 0 (content_blocks m)) @ flat_blocks ms (Suc n)"
  by (simp add: flat_blocks_def)

lemma in_flat_blocks:
  "(i, j, blk) \<in> set (flat_blocks ms n) \<longleftrightarrow>
     n \<le> i \<and> i < n + length ms \<and> j < length (content_blocks (ms ! (i - n))) \<and> blk = content_blocks (ms ! (i - n)) ! j"
proof (induction ms arbitrary: n)
  case (Cons m ms)
  show ?case
  proof (cases "i = n")
    case False
    then have "i - n = Suc (i - Suc n)" if "n < i" using that by simp
    then show ?thesis using False Cons.IH [of "Suc n"] by (auto simp: flat_blocks_Cons)
  qed (use Cons.IH [of "Suc n"] in \<open>auto simp: flat_blocks_Cons in_set_enumerate_eq\<close>)
qed (simp add: flat_blocks_def)

lemma flat_places_distinct: "distinct (map (\<lambda>(i, j, blk). (i, j)) (flat_blocks ms n))"
proof (induction ms arbitrary: n)
  case (Cons m ms)
  have "map (\<lambda>(i, j, blk). (i, j)) (map (\<lambda>(j, blk). (n, j, blk)) (List.enumerate 0 (content_blocks m))) =
      map (Pair n) (map fst (List.enumerate 0 (content_blocks m)))" by (auto simp del: map_fst_enumerate)
  then have "distinct (map (\<lambda>(i, j, blk). (i, j)) (map (\<lambda>(j, blk). (n, j, blk)) (List.enumerate 0 (content_blocks m))))"
    by (simp add: distinct_map inj_on_def)
  then show ?case using Cons.IH [of "Suc n"] by (auto simp: flat_blocks_Cons in_flat_blocks)
qed (simp add: flat_blocks_def)

lemma map_filter_places:
  assumes "distinct (map key xs)" and "\<And>x y. f x = Some y \<Longrightarrow> fst y = key x"
  shows "distinct (map fst (List.map_filter f xs)) \<and> fst ` set (List.map_filter f xs) \<subseteq> key ` set xs"
  using assms(1)
proof (induction xs)
  case (Cons x xs)
  then show ?case using assms(2) [of x] by (cases "f x") (auto simp: map_filter_simps)
qed (simp add: map_filter_simps)

lemma targets_distinct: "distinct (map fst (repair_targets raw b))"
proof -
  have "fst y = (\<lambda>(i, j, blk). (i, j)) x" if "repair_target raw (our_calls raw b) x = Some y" for x y
    using that repair_target_at by (cases x) auto
  from map_filter_places [OF flat_places_distinct this] show ?thesis by (simp add: repair_targets_def)
qed

lemma fold_flat:
  "fold (repair_anthropic_message jset raw resolve ours) (List.enumerate n ms) st =
     fold (\<lambda>(i, j, blk). repair_block jset raw resolve ours i (j, blk)) (flat_blocks ms n) st"
proof (induction ms arbitrary: n st)
  case (Cons m ms)
  have "fold (\<lambda>(i, j, blk). repair_block jset raw resolve ours i (j, blk)) (map (\<lambda>(j, blk). (n, j, blk)) xs) st =
      fold (repair_block jset raw resolve ours n) xs st" for xs st
    by (induction xs arbitrary: st) auto
  then show ?case using Cons.IH by (simp add: flat_blocks_Cons repair_anthropic_message_def content_blocks_def)
qed (simp add: flat_blocks_def)

lemma block_step:
  assumes ed: "block_editor jset"
    and t: "\<And>p h. repair_target raw ours (i, j, blk) = Some (p, h) \<Longrightarrow>
      placed b p \<and> json_has blk ''is_error'' = json_has (block_at b p) ''is_error''"
  shows "fst (repair_block jset raw resolve ours i (j, blk) (b, r, n)) =
    (case repair_target raw ours (i, j, blk) of
       None \<Rightarrow> b
     | Some (p, h) \<Rightarrow> put_at b p (answer_for resolve (\<lambda>t. result_present b t p) h))"
proof (cases "repair_target raw ours (i, j, blk)")
  case None
  then show ?thesis by (auto simp: repair_target_def repair_block_def repairOne_def Let_def split: if_splits)
next
  case (Some y)
  define c where "c = json_string raw (json_field blk ''tool_use_id'')"
  obtain p h where y: "y = (p, h)" by fastforce
  have ph: "p = (i, j)" "ours c = Some h" "c \<noteq> []" "json_string raw (json_field blk ''type'') = ''tool_result''"
    using Some by (auto simp: repair_target_def Let_def y c_def split: if_splits)
  have P: "placed b (i, j)" and flag: "json_has blk ''is_error'' = json_has (block_at b (i, j)) ''is_error''"
    using t [OF Some [unfolded y]] ph(1) by simp_all
  let ?a = "answer_for resolve (\<lambda>t. result_present b t (i, j)) h"
  obtain kvs where k: "block_at b (i, j) = JObj kvs" using placed_parts(6) [OF P] by blast
  have s1: "jset b (block_path i j @ ''.content'') (JStr ?a) = Some (upd_block (i, j) (json_put ''content'' (JStr ?a)) b)"
    using ed P by (simp add: block_editor_def)
  have P1: "placed (upd_block (i, j) (json_put ''content'' (JStr ?a)) b) (i, j)"
    by (rule upd_block_at(1) [OF P P]) (use put_obj in blast)
  have s2: "jset (upd_block (i, j) (json_put ''content'' (JStr ?a)) b) (block_path i j @ ''.is_error'') (JBool False) =
      Some (upd_block (i, j) (json_put ''is_error'' (JBool False) \<circ> json_put ''content'' (JStr ?a)) b)"
    using ed P1 upd_block_comp [OF P] by (simp add: block_editor_def)
  have g: "upd_block (i, j) (put_result ?a) b = upd_block (i, j)
      (if json_has blk ''is_error'' then json_put ''is_error'' (JBool False) \<circ> json_put ''content'' (JStr ?a)
       else json_put ''content'' (JStr ?a)) b"
    unfolding upd_block_def Let_def using flag placed_parts(5) [OF P] by (simp add: put_result_def Let_def)
  have "fst (repairOne jset resolve ours c (block_path i j) (json_has blk ''is_error'') (b, r, n)) = upd_block (i, j) (put_result ?a) b"
    unfolding g repairOne_def Let_def using ph(2,3) s1 s2 by (simp add: result_present_def)
  then show ?thesis using Some y ph by (simp add: repair_block_def c_def [symmetric] put_at_def)
qed

lemma fold_pass:
  assumes ed: "block_editor jset"
  shows "(\<And>i j blk p h. (i, j, blk) \<in> set L \<Longrightarrow> repair_target raw ours (i, j, blk) = Some (p, h) \<Longrightarrow>
      placed b p \<and> json_has blk ''is_error'' = json_has (block_at b p) ''is_error'') \<Longrightarrow>
    fst (fold (\<lambda>(i, j, blk). repair_block jset raw resolve ours i (j, blk)) L (b, r, n)) =
      repair_cells put_at result_present resolve (List.map_filter (repair_target raw ours) L) b"
proof (induction L arbitrary: b r n)
  case (Cons x L)
  obtain i j blk where x: "x = (i, j, blk)" by (metis surj_pair)
  obtain b' r' n' where st: "repair_block jset raw resolve ours i (j, blk) (b, r, n) = (b', r', n')" by (metis surj_pair)
  have b': "b' = (case repair_target raw ours (i, j, blk) of None \<Rightarrow> b
     | Some (p, h) \<Rightarrow> put_at b p (answer_for resolve (\<lambda>t. result_present b t p) h))"
    using block_step [OF ed, of raw ours i j blk b resolve r n] Cons.prems [of i j blk] st x by simp
  have "placed b' q \<and> json_has blk'' ''is_error'' = json_has (block_at b' q) ''is_error''"
    if q: "(i', j', blk'') \<in> set L" "repair_target raw ours (i', j', blk'') = Some (q, h')" for i' j' blk'' q h'
  proof -
    have Q: "placed b q" "json_has blk'' ''is_error'' = json_has (block_at b q) ''is_error''" using Cons.prems [of i' j' blk''] q by simp_all
    show ?thesis
    proof (cases "repair_target raw ours (i, j, blk)")
      case (Some y)
      obtain p h where y: "y = (p, h)" by fastforce
      have P: "placed b p" using Cons.prems [of i j blk p h] Some x y by simp
      then obtain kvs where "block_at b p = JObj kvs" using placed_parts(6) [of b "fst p" "snd p"] by auto
      then show ?thesis using put_at_at [OF P Q(1)] Q(2) result_fields(2) by (simp add: b' Some y)
    qed (use Q b' in simp)
  qed
  then have "fst (fold (\<lambda>(i, j, blk). repair_block jset raw resolve ours i (j, blk)) L (b', r', n')) =
      repair_cells put_at result_present resolve (List.map_filter (repair_target raw ours) L) b'" by (rule Cons.IH)
  then show ?case using st b' by (cases "repair_target raw ours (i, j, blk)") (auto simp: x map_filter_simps)
qed (simp add: map_filter_simps)

section \<open>What a pass leaves\<close>

text \<open>The messages are an array, and none has an object for its content.\<close>

definition contents_listed :: "json \<Rightarrow> bool" where
  "contents_listed b \<longleftrightarrow>
     (case json_field b ''messages'' of
        JArr ms \<Rightarrow> list_all (\<lambda>m. case json_field m ''content'' of JObj _ \<Rightarrow> False | _ \<Rightarrow> True) ms
      | _ \<Rightarrow> False)"

lemma contents_listedD:
  assumes "contents_listed b"
  shows "json_field b ''messages'' = JArr (msgs_of b)"
    and "i < length (msgs_of b) \<Longrightarrow> j < length (content_blocks (msgs_of b ! i)) \<Longrightarrow> content_blocks (msgs_of b ! i) ! j = JObj kvs \<Longrightarrow>
      placed b (i, j)"
proof -
  obtain ms where ms: "json_field b ''messages'' = JArr ms" using assms by (auto simp: contents_listed_def split: json.splits)
  then show m: "json_field b ''messages'' = JArr (msgs_of b)" by (simp add: msgs_of_def json_array_def)
  assume i: "i < length (msgs_of b)" and j: "j < length (content_blocks (msgs_of b ! i))" and k: "content_blocks (msgs_of b ! i) ! j = JObj kvs"
  have "(case json_field (msgs_of b ! i) ''content'' of JObj _ \<Rightarrow> False | _ \<Rightarrow> True)"
    using assms i m by (auto simp: contents_listed_def list_all_iff)
  then show "placed b (i, j)" using m i j k unfolding placed_def
    by (cases "json_field (msgs_of b ! i) ''content''") (auto simp: content_blocks_def json_array_def)
qed

lemma target_placed:
  assumes L: "contents_listed b" and x: "(i, j, blk) \<in> set (flat_blocks (msgs_of b) 0)" and t: "repair_target raw ours (i, j, blk) = Some (p, h)"
  shows "placed b p \<and> blk = block_at b p"
proof -
  have p: "p = (i, j)" and ty: "json_string raw (json_field blk ''type'') = ''tool_result''"
    using t by (auto simp: repair_target_def Let_def split: if_splits)
  have b: "i < length (msgs_of b)" "j < length (content_blocks (msgs_of b ! i))" "blk = content_blocks (msgs_of b ! i) ! j"
    using x by (auto simp: in_flat_blocks)
  obtain kvs where "blk = JObj kvs" using ty by (cases blk) (auto simp: json_field_def json_string_def json_text_def)
  then show ?thesis using contents_listedD(2) [OF L b(1,2)] b(3) p by (simp add: block_at_def)
qed

lemma targets_placed:
  assumes "contents_listed b" "(p, h) \<in> set (repair_targets raw b)"
  shows "placed b p"
proof -
  obtain i j blk where "(i, j, blk) \<in> set (flat_blocks (msgs_of b) 0)" "repair_target raw (our_calls raw b) (i, j, blk) = Some (p, h)"
    using assms(2) by (auto simp: repair_targets_def List.map_filter_def simp del: enumerate_simps)
  from target_placed [OF assms(1) this] show ?thesis by simp
qed

lemma repair_is_pass:
  assumes ed: "block_editor jset" and L: "contents_listed b"
  shows "fst (RepairToolResults jset raw parse resolve ''anthropic'' b) = repair_cells put_at result_present resolve (repair_targets raw b) b"
proof -
  let ?calls = "concat (map (anthropic_calls raw) (msgs_of b))"
  have pass: "fst (fold (repair_anthropic_message jset raw resolve (ours_of ?calls)) (List.enumerate 0 (msgs_of b)) (b, [], [])) =
      repair_cells put_at result_present resolve (repair_targets raw b) b"
    unfolding fold_flat repair_targets_def our_calls_def by (rule fold_pass [OF ed]) (use target_placed [OF L] in blast)
  have none: "repair_targets raw b = []" if "?calls = []"
  proof -
    have "our_calls raw b = Map.empty" unfolding our_calls_def that by (simp add: ours_of_def)
    then have "repair_target raw (our_calls raw b) x = None" for x by (cases x) (simp add: repair_target_def Let_def)
    then show ?thesis by (auto simp: repair_targets_def List.map_filter_def)
  qed
  show ?thesis
  proof (cases "?calls = []")
    case True
    then show ?thesis using none contents_listedD(1) [OF L] by (simp add: RepairToolResults_def Let_def)
  next
    case False
    show ?thesis unfolding RepairToolResults_def contents_listedD(1) [OF L] Let_def json.case using False pass
      by (simp del: concat_eq_Nil_conv)
  qed
qed

text \<open>Which results answer us is read from fields a repair does not write.\<close>

definition sig_of :: "json \<Rightarrow> json list" where
  "sig_of blk = map (json_field blk) [''type'', ''id'', ''name'', ''input'', ''tool_use_id'']"

lemma map_filter_map: "List.map_filter f (map g xs) = List.map_filter (f \<circ> g) xs"
  by (simp add: List.map_filter_def filter_map comp_def)

lemma calls_by_sig:
  "anthropic_calls raw m = List.map_filter (\<lambda>s. let i = json_string raw (s ! 1) in
     if json_string raw (s ! 0) = ''tool_use'' \<and> json_string raw (s ! 2) = ToolName \<and> i \<noteq> []
     then Some (i, json_string raw (json_field (s ! 3) ''id'')) else None) (map sig_of (content_blocks m))"
  unfolding map_filter_map anthropic_calls_def content_blocks_def
  by (rule arg_cong2 [where f = List.map_filter]) (auto simp: sig_of_def fun_eq_iff Let_def)

lemma target_by_sig:
  "repair_target raw ours (i, j, blk) = (\<lambda>(i, j, s). let c = json_string raw (s ! 4) in
     if json_string raw (s ! 0) = ''tool_result'' \<and> c \<noteq> [] then map_option (Pair (i, j)) (ours c) else None) (i, j, sig_of blk)"
  by (simp add: repair_target_def sig_of_def)

lemma flat_by_sig:
  "map (\<lambda>m. map sig_of (content_blocks m)) ms = map (\<lambda>m. map sig_of (content_blocks m)) ms' \<Longrightarrow>
   map (\<lambda>(i, j, blk). (i, j, sig_of blk)) (flat_blocks ms n) = map (\<lambda>(i, j, blk). (i, j, sig_of blk)) (flat_blocks ms' n)"
proof (induction ms arbitrary: ms' n)
  case (Cons m ms)
  then obtain m' ms'' where m: "ms' = m' # ms''" by (cases ms') auto
  have e: "map (\<lambda>(i, j, blk). (i, j, sig_of blk)) (map (\<lambda>(j, blk). (n, j, blk)) (List.enumerate 0 xs)) =
      map (\<lambda>(j, s). (n, j, s)) (List.enumerate 0 (map sig_of xs))" for xs
    by (simp add: enumerate_eq_zip zip_map2 comp_def case_prod_unfold)
  show ?case using Cons m e by (simp add: flat_blocks_Cons)
qed (simp add: flat_blocks_def)

lemma targets_by_sig:
  assumes "map (\<lambda>m. map sig_of (content_blocks m)) (msgs_of b') = map (\<lambda>m. map sig_of (content_blocks m)) (msgs_of b)"
  shows "repair_targets raw b' = repair_targets raw b"
proof -
  have "map (anthropic_calls raw) (msgs_of b') = map (anthropic_calls raw) (msgs_of b)"
    unfolding calls_by_sig using arg_cong [OF assms, of "map (List.map_filter _)"] by (simp add: comp_def)
  then have o: "our_calls raw b' = our_calls raw b" by (simp add: our_calls_def)
  have f: "List.map_filter (repair_target raw ours) xs = List.map_filter (\<lambda>(i, j, s). let c = json_string raw (s ! 4) in
     if json_string raw (s ! 0) = ''tool_result'' \<and> c \<noteq> [] then map_option (Pair (i, j)) (ours c) else None)
     (map (\<lambda>(i, j, blk). (i, j, sig_of blk)) xs)" for ours xs
    unfolding map_filter_map by (rule arg_cong2 [where f = List.map_filter]) (auto simp: target_by_sig fun_eq_iff simp del: Let_def)
  show ?thesis unfolding repair_targets_def o f flat_by_sig [OF assms] ..
qed

lemma targets_put:
  assumes P: "placed b p" and L: "contents_listed b"
  shows "repair_targets raw (put_at b p a) = repair_targets raw b" and "contents_listed (put_at b p a)"
proof -
  obtain i j where pp: "p = (i, j)" by fastforce
  note u = placed_parts [OF P [unfolded pp]]
  obtain kvs where k: "block_at b (i, j) = JObj kvs" using u(6) by blast
  obtain mk where mk: "msgs_of b ! i = JObj mk" by (rule placedE [OF P [unfolded pp]]) simp
  let ?bs = "content_blocks (msgs_of b ! i)" and ?g = "put_result a (block_at b (i, j))"
  have ms: "msgs_of (put_at b p a) = (msgs_of b)[i := json_put ''content'' (JArr (?bs[j := ?g])) (msgs_of b ! i)]"
    unfolding put_at_def pp by (rule upd_block_msgs(1) [OF P [unfolded pp]])
  have f: "json_field (json_put ''content'' (JArr (?bs[j := ?g])) (msgs_of b ! i)) ''content'' = JArr (?bs[j := ?g])"
    using mk by (simp add: field_put)
  then have c: "content_blocks (json_put ''content'' (JArr (?bs[j := ?g])) (msgs_of b ! i)) = ?bs[j := ?g]"
    by (simp add: content_blocks_def json_array_def)
  have "sig_of ?g = sig_of (?bs ! j)" unfolding u(5) [symmetric] by (simp add: sig_of_def result_fields(1) [OF k])
  then have "map sig_of (?bs[j := ?g]) = map sig_of ?bs" using u(4) by (simp add: map_update list_update_same_conv)
  then have "map (\<lambda>m. map sig_of (content_blocks m)) (msgs_of (put_at b p a)) = map (\<lambda>m. map sig_of (content_blocks m)) (msgs_of b)"
    unfolding ms using u(2) c by (simp add: map_update list_update_same_conv)
  then show "repair_targets raw (put_at b p a) = repair_targets raw b" by (rule targets_by_sig)
  obtain ms' where "json_field (put_at b p a) ''messages'' = JArr ms'"
    unfolding put_at_def pp using upd_block_msgs(2) [OF P [unfolded pp]] by blast
  then have "json_field (put_at b p a) ''messages'' = JArr (msgs_of (put_at b p a))" by (simp add: msgs_of_def json_array_def)
  then show "contents_listed (put_at b p a)" using L contents_listedD(1) [OF L] f unfolding contents_listed_def ms
    by (auto simp: list_all_iff dest!: set_update_subset_insert [THEN subsetD])
qed

lemma pass_targets:
  "(\<And>x. x \<in> set T \<Longrightarrow> placed b (fst x)) \<Longrightarrow> contents_listed b \<Longrightarrow>
   repair_targets raw (repair_cells put_at result_present resolve T b) = repair_targets raw b
   \<and> contents_listed (repair_cells put_at result_present resolve T b)
   \<and> (\<forall>q. placed b q \<and> q \<notin> fst ` set T \<longrightarrow> block_at (repair_cells put_at result_present resolve T b) q = block_at b q)"
proof (induction T arbitrary: b)
  case (Cons x T)
  obtain p h where x: "x = (p, h)" by fastforce
  have P: "placed b p" using Cons.prems(1) [of x] x by simp
  let ?b = "put_at b p (answer_for resolve (\<lambda>t. result_present b t p) h)"
  have ih: "repair_targets raw (repair_cells put_at result_present resolve T ?b) = repair_targets raw ?b
   \<and> contents_listed (repair_cells put_at result_present resolve T ?b)
   \<and> (\<forall>q. placed ?b q \<and> q \<notin> fst ` set T \<longrightarrow> block_at (repair_cells put_at result_present resolve T ?b) q = block_at ?b q)"
    by (rule Cons.IH) (use Cons.prems put_at_at(1) [OF P] targets_put(2) [OF P] in auto)
  then show ?case using targets_put(1) [OF P Cons.prems(2)] put_at_at [OF P] by (auto simp: x)
qed simp

text \<open>No result holds one of the originals yet, and no original reads like a note.\<close>

definition repairable :: "(json \<Rightarrow> string) \<Rightarrow> resolver \<Rightarrow> json \<Rightarrow> bool" where
  "repairable raw resolve b \<longleftrightarrow>
     contents_listed b \<and>
     (let T = repair_targets raw b in
      clean_cells (result_holds b) (fst ` set T) resolve (map snd T) \<and> notes_apart resolve (map snd T))"

lemma repairableD:
  assumes "repairable raw resolve b"
  shows "contents_listed b" "clean_cells (result_holds b) (fst ` set (repair_targets raw b)) resolve (map snd (repair_targets raw b))"
    "notes_apart resolve (map snd (repair_targets raw b))" "\<forall>q \<in> fst ` set (repair_targets raw b). placed b q"
  using assms targets_placed [of b _ _ raw] by (auto simp: repairable_def Let_def)

lemma repaired_shape:
  assumes "block_editor jset" "contents_listed b" and f_def: "f = fst (RepairToolResults jset raw parse resolve ''anthropic'' b)"
  shows "repair_targets raw f = repair_targets raw b" "contents_listed f"
    "placed b q \<Longrightarrow> q \<notin> fst ` set (repair_targets raw b) \<Longrightarrow> block_at f q = block_at b q"
proof -
  have "placed b (fst x)" if "x \<in> set (repair_targets raw b)" for x using targets_placed [OF assms(2), of "fst x" "snd x" raw] that by simp
  note pass_targets [of "repair_targets raw b" b raw resolve, OF this assms(2)]
  then show "repair_targets raw f = repair_targets raw b" "contents_listed f"
    "placed b q \<Longrightarrow> q \<notin> fst ` set (repair_targets raw b) \<Longrightarrow> block_at f q = block_at b q"
    unfolding f_def repair_is_pass [OF assms(1,2)] by blast+
qed

section \<open>Properties\<close>



text \<open>
  C0: A block that is not a result of a call of ours goes upstream as it came.
\<close>

theorem repair_leaves_others:
  assumes "block_editor jset" and "contents_listed b" and "placed b q"
    and "\<forall>h. (q, h) \<notin> set (repair_targets raw b)"
  shows "block_at (fst (RepairToolResults jset raw parse resolve ''anthropic'' b)) q = block_at b q"
  by (rule repaired_shape(3) [OF assms(1,2) refl assms(3)]) (use assms(4) in force)

section \<open>Witnesses\<close>

text \<open>An editor that finds the place a path names.\<close>

definition place_editor :: json_set where
  "place_editor b path v =
     (case List.find (\<lambda>(i, j, blk). path = block_path i j @ ''.content'' \<or> path = block_path i j @ ''.is_error'') (flat_blocks (msgs_of b) 0) of
        None \<Rightarrow> None
      | Some (i, j, blk) \<Rightarrow>
          Some (upd_block (i, j) (json_put (if path = block_path i j @ ''.content'' then ''content'' else ''is_error'') v) b))"

lemma block_path_inj: "block_path i j @ ''.content'' = block_path i' j' @ ''.content'' \<longleftrightarrow> i = i' \<and> j = j'"
  using block_field_path(1) [of i "nat_digits j" i' j'] by (simp add: block_path_def)

lemma block_path_apart: "block_path i j @ ''.is_error'' \<noteq> block_path i' j' @ ''.content''"
  by (auto dest: arg_cong [of _ _ rev])

lemma place_editor_ok: "block_editor place_editor"
  unfolding block_editor_def
proof (intro allI impI)
  fix b i j v assume P: "placed b (i, j)"
  have e: "block_path i j = block_path i' j' \<longleftrightarrow> i = i' \<and> j = j'" for i' j' using block_path_inj [of i j i' j'] by simp
  have mem: "(i, j, block_at b (i, j)) \<in> set (flat_blocks (msgs_of b) 0)"
    using placed_parts [OF P] by (simp add: in_flat_blocks)
  have f: "\<exists>blk. List.find (\<lambda>(i, j, blk). path = block_path i j @ ''.content'' \<or> path = block_path i j @ ''.is_error'') (flat_blocks (msgs_of b) 0)
      = Some (i, j, blk)" if p: "path = block_path i j @ ''.content'' \<or> path = block_path i j @ ''.is_error''" for path
  proof -
    have only: "(path = block_path i' j' @ ''.content'' \<or> path = block_path i' j' @ ''.is_error'') \<longleftrightarrow> i' = i \<and> j' = j" for i' j'
      using p e [of i' j'] block_path_apart [of i j i' j'] block_path_apart [of i' j' i j] by auto
    have "List.find (\<lambda>(i, j, blk). path = block_path i j @ ''.content'' \<or> path = block_path i j @ ''.is_error'') L \<noteq> None"
      if "(i, j, blk) \<in> set L" for L blk
    proof
      assume "List.find (\<lambda>(i, j, blk). path = block_path i j @ ''.content'' \<or> path = block_path i j @ ''.is_error'') L = None"
      then have "\<not> (\<lambda>(i, j, blk). path = block_path i j @ ''.content'' \<or> path = block_path i j @ ''.is_error'') (i, j, blk)"
        unfolding find_None_iff using that by blast
      then show False using p by simp
    qed
    with mem obtain x where x: "List.find (\<lambda>(i, j, blk). path = block_path i j @ ''.content'' \<or> path = block_path i j @ ''.is_error'')
        (flat_blocks (msgs_of b) 0) = Some x" by fastforce
    then have "(\<lambda>(i, j, blk). path = block_path i j @ ''.content'' \<or> path = block_path i j @ ''.is_error'') x"
      by (auto simp: find_Some_iff)
    then show ?thesis using x only by (cases x) auto
  qed
  show "place_editor b (block_path i j @ ''.content'') v = Some (upd_block (i, j) (json_put ''content'' v) b) \<and>
      place_editor b (block_path i j @ ''.is_error'') v = Some (upd_block (i, j) (json_put ''is_error'' v) b)"
    using f [of "block_path i j @ ''.content''"] f [of "block_path i j @ ''.is_error''"] block_path_apart [of i j i j]
    by (auto simp: place_editor_def)
qed

definition repair_sample :: json where
  "repair_sample = JObj [(''messages'', JArr [
     JObj [(''role'', JStr ''assistant''), (''content'', JArr [
       JObj [(''type'', JStr ''tool_use''), (''id'', JStr ''a''), (''name'', JStr ToolName), (''input'', JObj [(''id'', JStr ''h'')])],
       JObj [(''type'', JStr ''tool_use''), (''id'', JStr ''b''), (''name'', JStr ToolName), (''input'', JObj [(''id'', JStr ''h'')])]])],
     JObj [(''role'', JStr ''user''), (''content'', JArr [
       JObj [(''type'', JStr ''tool_result''), (''tool_use_id'', JStr ''a''), (''is_error'', JBool True), (''content'', JStr ''no tool'')],
       JObj [(''type'', JStr ''tool_result''), (''tool_use_id'', JStr ''b''), (''content'', JStr ''no tool'')]])]])]"

definition sample_resolve :: resolver where
  "sample_resolve h = (if h = ''h'' then Some ''orig'' else None)"

abbreviation "sample_raw \<equiv> (\<lambda>_ :: json. [] :: string)"
abbreviation "sample_repair b \<equiv> fst (RepairToolResults place_editor sample_raw (\<lambda>_. JNull) sample_resolve ''anthropic'' b)"

lemmas sample_simps = repair_sample_def sample_resolve_def msgs_of_def content_blocks_def json_array_def json_field_def
  json_string_def json_text_def ToolName_def

lemma sample_targets: "repair_targets sample_raw repair_sample = [((1, 0), ''h''), ((1, 1), ''h'')]"
  by code_simp

lemma sample_repairable: "repairable sample_raw sample_resolve repair_sample"
  by code_simp



theorem repair_leaves_others_witness:
  "block_at (sample_repair repair_sample) (0, 1) = block_at repair_sample (0, 1)"
  by (rule repair_leaves_others [OF place_editor_ok]) (code_simp, simp add: placed_def sample_simps, simp add: sample_targets)

end
