(* ===== verification/Repair_Responses.thy ===== *)
theory Repair_Responses
  imports Repair_Json
begin

text \<open>
  Where the other two wires differ from the one of \<open>Repair_Outcome\<close>. A Responses body is searched as it
  came, not as it is being repaired, so two results for one id both get the original, and on the next pass
  each points at the other. A chat result whose content is an array is not excepted from the search.
\<close>

text \<open>What is documented of the editor for the output of an item, and for the content of a message.\<close>

definition item_editor :: "json_set \<Rightarrow> bool" where
  "item_editor jset \<longleftrightarrow>
     (\<forall>b items i v. json_field b ''input'' = JArr items \<and> i < length items \<longrightarrow>
        jset b (''input.'' @ nat_digits i @ ''.output'') v =
          Some (json_put ''input'' (JArr (items[i := json_put ''output'' v (items ! i)])) b))"

definition message_editor :: "json_set \<Rightarrow> bool" where
  "message_editor jset \<longleftrightarrow>
     (\<forall>b ms i v. json_field b ''messages'' = JArr ms \<and> i < length ms \<longrightarrow>
        jset b (msg_path i @ ''.content'') v =
          Some (json_put ''messages'' (JArr (ms[i := json_put ''content'' v (ms ! i)])) b))"

section \<open>Two results for one id\<close>

definition expand_call :: "string \<Rightarrow> json" where
  "expand_call i = JObj [(''type'', JStr ''function_call''), (''name'', JStr ToolName), (''call_id'', JStr i), (''arguments'', JStr ''args'')]"

definition expand_output :: "string \<Rightarrow> string \<Rightarrow> json" where
  "expand_output i x = JObj [(''type'', JStr ''function_call_output''), (''call_id'', JStr i), (''output'', JStr x)]"

definition two_answers :: "string \<Rightarrow> json" where
  "two_answers x = JObj [(''input'', JArr [expand_call ''a'', expand_output ''a'' x, expand_call ''b'', expand_output ''b'' x])]"

lemma item_step:
  assumes "item_editor jset" "json_field b ''input'' = JArr items" "i < length items"
  shows "jset b (''input.'' @ nat_digits i @ ''.output'') v = Some (json_put ''input'' (JArr (items[i := json_put ''output'' v (items ! i)])) b)"
  using assms by (simp add: item_editor_def)

definition outputs_of :: "string \<Rightarrow> string \<Rightarrow> json" where
  "outputs_of x y = JObj [(''input'', JArr [expand_call ''a'', expand_output ''a'' x, expand_call ''b'', expand_output ''b'' y])]"

lemma outputs_steps:
  assumes "item_editor jset"
  shows "jset (outputs_of x y) (''input.'' @ nat_digits 1 @ ''.output'') (JStr z) = Some (outputs_of z y)"
    and "jset (outputs_of x y) (''input.'' @ nat_digits 3 @ ''.output'') (JStr z) = Some (outputs_of x z)"
proof -
  have f: "json_field (outputs_of x y) ''input'' = JArr [expand_call ''a'', expand_output ''a'' x, expand_call ''b'', expand_output ''b'' y]"
    by (simp add: outputs_of_def json_field_def)
  show "jset (outputs_of x y) (''input.'' @ nat_digits 1 @ ''.output'') (JStr z) = Some (outputs_of z y)"
    by (subst item_step [OF assms f]) (simp_all add: outputs_of_def json_put_def expand_output_def)
  show "jset (outputs_of x y) (''input.'' @ nat_digits 3 @ ''.output'') (JStr z) = Some (outputs_of x z)"
    by (subst item_step [OF assms f]) (simp_all add: outputs_of_def json_put_def expand_output_def)
qed

lemma two_answers_calls:
  assumes "parse ''args'' = JObj [(''id'', JStr h)]"
  shows "ours_of (responses_calls raw parse [expand_call ''a'', expand_output ''a'' x, expand_call ''b'', expand_output ''b'' y])
      = [''a'' \<mapsto> h, ''b'' \<mapsto> h]"
    and "responses_calls raw parse [expand_call ''a'', expand_output ''a'' x, expand_call ''b'', expand_output ''b'' y] \<noteq> []"
  using assms by (auto simp: responses_calls_def map_filter_simps expand_call_def expand_output_def json_field_def json_string_def
      json_text_def call_type_def ours_of_def Let_def fun_eq_iff)

lemma item_has_simps:
  "item_has (expand_output i x) orig \<longleftrightarrow> x = orig" "\<not> item_has (expand_call i) orig"
  by (simp_all add: item_has_def expand_output_def expand_call_def json_field_def json_array_def Let_def)

lemma two_answers_present:
  assumes "orig \<noteq> []" "\<nexists>xs. parse orig = JArr xs"
  shows "responsesContentPresent raw parse (two_answers x) orig 1 \<longleftrightarrow> x = orig"
    and "responsesContentPresent raw parse (two_answers x) orig 3 \<longleftrightarrow> x = orig"
proof -
  have c: "(case parse orig of JArr want \<Rightarrow> f want | _ \<Rightarrow> False) = False" for f using assms(2) by (auto split: json.split)
  have i: "json_field (two_answers x) ''input'' = JArr [expand_call ''a'', expand_output ''a'' x, expand_call ''b'', expand_output ''b'' x]"
    by (simp add: two_answers_def json_field_def)
  show "responsesContentPresent raw parse (two_answers x) orig 1 \<longleftrightarrow> x = orig"
    "responsesContentPresent raw parse (two_answers x) orig 3 \<longleftrightarrow> x = orig"
    using assms(1) by (simp_all add: responsesContentPresent_def c i json_array_def item_has_simps)
qed

lemma two_answers_pass:
  assumes ed: "item_editor jset" and p: "parse ''args'' = JObj [(''id'', JStr h)]" and r: "resolve h = Some orig"
    and o: "orig \<noteq> []" "\<nexists>xs. parse orig = JArr xs"
  shows "fst (RepairToolResults jset raw parse resolve ''responses'' (two_answers x)) =
    two_answers (if x = orig then RestoredInPlace h else orig)"
proof -
  let ?a = "if x = orig then RestoredInPlace h else orig"
  have i: "json_field (two_answers x) ''input'' = JArr [expand_call ''a'', expand_output ''a'' x, expand_call ''b'', expand_output ''b'' x]"
    by (simp add: two_answers_def json_field_def)
  have w: "two_answers y = outputs_of y y" for y by (simp add: two_answers_def outputs_of_def)
  have ty: "output_type (json_string raw (json_field (expand_output c y) ''type''))" "\<not> output_type (json_string raw (json_field (expand_call c) ''type''))"
    "json_string raw (json_field (expand_output c y) ''call_id'') = c" for c y
    by (simp_all add: expand_output_def expand_call_def json_field_def json_string_def json_text_def output_type_def)
  have step: "fst (repair_item jset raw parse resolve [''a'' \<mapsto> h, ''b'' \<mapsto> h] (two_answers x) (n, expand_output c y) (b, l, m)) =
      (case jset b (''input.'' @ nat_digits n @ ''.output'') (JStr ?a) of None \<Rightarrow> b | Some nb \<Rightarrow> nb)"
    if "c = ''a'' \<or> c = ''b''" "n = 1 \<or> n = 3" for n c y b l m
    using that two_answers_present [where parse = parse and raw = raw and x = x, OF o] r by (auto simp: repair_item_def ty answer_for_def Let_def split: option.splits)
  have skip: "repair_item jset raw parse resolve ours (two_answers x) (n, expand_call c) st = st" for ours n c st
    by (cases st) (simp add: repair_item_def ty)
  obtain b1 l1 m1 where s1: "repair_item jset raw parse resolve [''a'' \<mapsto> h, ''b'' \<mapsto> h] (two_answers x) (1, expand_output ''a'' x) (two_answers x, [], []) = (b1, l1, m1)"
    by (metis surj_pair)
  have b1: "b1 = outputs_of ?a x" using step [of "''a''" 1 x "two_answers x" "[]" "[]"] s1 outputs_steps(1) [OF ed] by (simp add: w)
  obtain b2 l2 m2 where s2: "repair_item jset raw parse resolve [''a'' \<mapsto> h, ''b'' \<mapsto> h] (two_answers x) (3, expand_output ''b'' x) (b1, l1, m1) = (b2, l2, m2)"
    by (metis surj_pair)
  have b2: "b2 = two_answers ?a" using step [of "''b''" 3 x b1 l1 m1] s2 outputs_steps(2) [OF ed] by (simp add: w b1)
  have e: "List.enumerate 0 [expand_call ''a'', expand_output ''a'' x, expand_call ''b'', expand_output ''b'' x] =
      [(0, expand_call ''a''), (1, expand_output ''a'' x), (2, expand_call ''b''), (3, expand_output ''b'' x)]" by simp
  show ?thesis unfolding RepairToolResults_def repairResponsesToolResults_def i json.case Let_def two_answers_calls(1) [where parse = parse, OF p] e
    using two_answers_calls(2) [where parse = parse and raw = raw and x = x and y = x, OF p] by (simp add: skip s1 s2 b2 del: One_nat_def)
qed

text \<open>
  C40: When two calls of one transcript ask for the same id, the repair of a Responses body alternates: the
  first pass writes the original into both results, a pass over that body replaces both by notes that point
  at the transcript, which then holds the original nowhere, and the next pass writes the originals again.
\<close>

theorem responses_repair_alternates:
  assumes ed: "item_editor jset" and p: "parse ''args'' = JObj [(''id'', JStr h)]" and r: "resolve h = Some orig"
    and o: "orig \<noteq> []" "\<nexists>xs. parse orig = JArr xs" and x: "x \<noteq> orig" "orig \<noteq> RestoredInPlace h"
  shows "let rep = \<lambda>b. fst (RepairToolResults jset raw parse resolve ''responses'' b) in
    rep (two_answers x) = two_answers orig
    \<and> rep (rep (two_answers x)) = two_answers (RestoredInPlace h)
    \<and> \<not> responsesContentPresent raw parse (rep (rep (two_answers x))) orig 4
    \<and> rep (rep (rep (two_answers x))) = rep (two_answers x)"
proof -
  have c: "(case parse orig of JArr want \<Rightarrow> f want | _ \<Rightarrow> False) = False" for f using o(2) by (auto split: json.split)
  have "\<not> responsesContentPresent raw parse (two_answers (RestoredInPlace h)) orig 4"
    using x(2) by (auto simp: responsesContentPresent_def c two_answers_def json_field_def json_array_def item_has_simps)
  then show ?thesis using two_answers_pass [where parse = parse and resolve = resolve, OF ed p r o] x by (simp add: Let_def)
qed

definition item_place_editor :: json_set where
  "item_place_editor b path v =
     (case json_field b ''input'' of
        JArr items \<Rightarrow>
          (case List.find (\<lambda>i. path = ''input.'' @ nat_digits i @ ''.output'') [0..<length items] of
             Some i \<Rightarrow> Some (json_put ''input'' (JArr (items[i := json_put ''output'' v (items ! i)])) b)
           | None \<Rightarrow> None)
      | _ \<Rightarrow> None)"

lemma find_self: "i < n \<Longrightarrow> (\<And>j. P j \<longleftrightarrow> j = i) \<Longrightarrow> List.find P [0..<n] = Some i"
proof -
  assume i: "i < n" and P: "\<And>j. P j \<longleftrightarrow> j = i"
  then have "P = (\<lambda>j. j = i)" by auto
  then show ?thesis unfolding find_Some_iff using i by (intro exI [of _ i]) simp
qed

lemma item_place_editor_ok: "item_editor item_place_editor"
proof -
  have "List.find (\<lambda>j. ''input.'' @ nat_digits i @ ''.output'' = ''input.'' @ nat_digits j @ ''.output'') [0..<n] = Some i" if "i < n" for i n
    by (rule find_self [OF that]) auto
  then show ?thesis by (simp add: item_editor_def item_place_editor_def)
qed

abbreviation "sample_args s \<equiv> (if s = ''args'' then JObj [(''id'', JStr ''h'')] else JNull)"
abbreviation "sample_lookup h \<equiv> (if h = ''h'' then Some ''orig'' else None)"

theorem responses_repair_alternates_witness:
  "let rep = \<lambda>b. fst (RepairToolResults item_place_editor (\<lambda>_. []) (\<lambda>s. sample_args s) (\<lambda>h. sample_lookup h) ''responses'' b) in
   rep (two_answers ''no tool'') = two_answers ''orig'' \<and> rep (rep (two_answers ''no tool'')) = two_answers (RestoredInPlace ''h'')"
proof -
  have a: "sample_args ''args'' = JObj [(''id'', JStr ''h'')]" "sample_lookup ''h'' = Some ''orig''" "''orig'' \<noteq> []"
    "\<nexists>xs. sample_args ''orig'' = JArr xs" "''no tool'' \<noteq> ''orig''" "''orig'' \<noteq> RestoredInPlace ''h''"
    by (simp_all add: RestoredInPlace_def)
  show ?thesis
    using responses_repair_alternates [where parse = "\<lambda>s. sample_args s" and resolve = "\<lambda>h. sample_lookup h" and raw = "\<lambda>_. []",
        OF item_place_editor_ok a] unfolding Let_def by blast
qed

section \<open>A chat result that holds the original already\<close>

definition chat_result :: "json \<Rightarrow> json" where
  "chat_result c = JObj [(''messages'', JArr [
     JObj [(''role'', JStr ''assistant''), (''tool_calls'', JArr [
       JObj [(''id'', JStr ''a''), (''function'', JObj [(''name'', JStr ToolName), (''arguments'', JStr ''args'')])]])],
     JObj [(''role'', JStr ''tool''), (''tool_call_id'', JStr ''a''), (''content'', c)]])]"

lemma chat_self_match:
  "contentPresent (chat_result (JArr [JObj [(''type'', JStr ''text''), (''text'', JStr ''orig'')]])) ''orig'' (msg_path 1 @ ''.content'')
   \<and> \<not> contentPresent (chat_result (JStr ''orig'')) ''orig'' (msg_path 1 @ ''.content'')"
  by code_simp

end
