(* ===== verification/Spec2Isabelle.thy ===== *)
theory Spec2Isabelle
  imports Store_Reserve Turn_Tracker Worker_Pool Offload_Window Summarize_Flight Wait_Counts Limit_Bounds Ref_Dispatcher Tenancy_Source
    Repair_Outcome Repair_Responses
begin

text \<open>
  A verification library for context-guru, a proxy between coding agents and model providers that takes
  content out of requests, keeps what it took, and keeps the provider's prompt cache warm.

  \<^bold>\<open>The program and its parts.\<close> A request is authenticated and given its tenant's pipeline and state store
  (\<open>src/proxy/tenancy.go\<close>), admitted by the tenant's limits (\<open>src/proxy/limits.go\<close>), and repaired where a
  client answered the proxy's own tool (\<open>src/expand/repair.go\<close>). The thread tracker
  (\<open>src/internal/thread\<close>) names the conversation, the turn tracker (\<open>src/modes/tracker.go\<close>) tells which of
  its messages the provider has cached, and the pipeline (\<open>src/components/pipeline.go\<close>) runs the
  components. An offloader (\<open>src/components/offload\<close>) replaces content by a marker that names a key
  (\<open>src/expand/expand.go\<close>) and puts the content under that key in the rewind reserve of the session store
  (\<open>src/store\<close>); what it decided is frozen in the store and replayed on later turns, so that the bytes
  sent stay the same. Work that may not delay a request runs on a pool (\<open>src/modes/pool.go\<close>) or, for a
  summary, in a background job of its own. After the answer the keep-alive keeper (\<open>src/keepalive\<close>) holds
  the body of the request and a reference to its credential, decides from the open waits of the thread
  (\<open>src/internal/waitcause\<close>) whether and how often to ping, and sends the pings through the dispatcher of
  the host (\<open>src/proxy/dispatcher.go\<close>), which alone holds credentials.

  \<^bold>\<open>Shared theories.\<close>
  \<^item> \<open>Go_Prelude\<close>: the Go language and library as the code uses it (64-bit durations, truncated division,
    string splitting, counting lemmas); \<open>Decimal_Text\<close>: \<open>strconv.Itoa\<close>; \<open>Utf8_Runes\<close>: package
    \<open>unicode/utf8\<close>; \<open>Go_Regexp\<close>: a leftmost-first matcher for the operators of \<open>regexp\<close> that occur.

  \<^bold>\<open>The session store.\<close>
  \<^item> \<open>Store_Memory\<close> models type \<open>Memory\<close> of \<open>store.go\<close> and the session state of \<open>disk.go\<close>: entries in LRU
    order, the live counters, the reserve of stashed payloads, the pins, the marks of lost and reclaimed
    keys. \<open>Store_Invariant\<close> has the representation invariant and its preservation by each step,
    \<open>Store_Shift\<close> that only the difference of the byte limit and the byte counter matters, and
    \<open>Store_Reserve\<close> collects the operations into runs: the invariant over every run, and that a payload the
    reserve accepted is returned until its lifetime ends.
  \<^item> \<open>Store_Interface\<close> states what clients rely on as the locale \<open>rewind_store\<close> and discharges it for the
    memory store and for the disabled one; the offloaders are verified against the locale.

  \<^bold>\<open>Trackers and the pool.\<close>
  \<^item> \<open>Turn_Tracker\<close>: \<open>tracker.go\<close>, with its bounded map, the restart grace and the eviction marks.
  \<^item> \<open>Thread_Fingerprint\<close>, \<open>Thread_Tracker\<close>: \<open>internal/thread/thread.go\<close>: the canonical bytes and the running
    hash of a message list, and every search of \<open>Resolve\<close>.
  \<^item> \<open>Worker_Pool\<close>: \<open>pool.go\<close> as a step relation over all interleavings of producers and workers.

  \<^bold>\<open>Messages, components, pipeline.\<close>
  \<^item> \<open>Chat_Schema\<close>: the message toolbox and the shape validator of \<open>src/schema\<close>, with a declarative
    description of a well-formed transcript that the validator is proved equivalent to.
  \<^item> \<open>Component_Core\<close>: the context of a component, cache phases, triggers, span hashes.
  \<^item> \<open>Pipeline\<close>: one component under a snapshot (\<open>runOne\<close>: panics, errors, growth, drops without a key
    revert) and a whole run. The behaviour of a component is a function argument.
  \<^item> \<open>Expand_Marker\<close>: markers and their parsing; \<open>Offload_State\<close>: the operations the offloaders share
    (\<open>marker.go\<close>, \<open>state.go\<close>); \<open>Offload_Contract\<close>: the locale \<open>offloader\<close>, from whose step law follows what
    any pass guarantees; \<open>Offload_Mask\<close>: \<open>mask\<close> and \<open>failed_run\<close>; \<open>Offload_Window\<close>: \<open>dedup\<close>, \<open>collapse\<close>, \<open>linecap\<close>.
  \<^item> \<open>Summarize_Span\<close>: which span may be summarized and the splice; \<open>Summary_Text\<close>: prompt, sanitizing and
    wrapper; \<open>Summarize\<close>: the pass of the summarizer; \<open>Summarize_Flight\<close>: its background jobs.

  \<^bold>\<open>Keep-alive.\<close>
  \<^item> \<open>Keepalive_Policy\<close> (policies, schedules, the plan of pings), \<open>Keepalive_Keeper\<close> (the state and every
    operation that sends nothing), \<open>Keepalive_Sweep\<close> (the sweep), \<open>Keepalive_Ping\<close> (a ping, its claim and its
    substitutes). The locale of \<open>Keepalive_Invariant\<close> carries a predicate through all of them.
  \<^item> \<open>Keepalive_Custody\<close>: every run of the keeper is a run of an abstract vault of references;
    \<open>Keepalive_Bounds\<close>: its memory; \<open>Keepalive_Schedule\<close>: what a sweep sends; \<open>Keepalive_Outcome\<close>: what follows
    a ping, and the read-side replay of the dashboard.
  \<^item> \<open>Wait_Tracker\<close>, \<open>Wait_Counts\<close>: \<open>waitcause.go\<close>, which tasks and teammates a thread waits for.

  \<^bold>\<open>The edge of the proxy.\<close>
  \<^item> \<open>Tenant_LRU\<close>: the bounded map, as the locale \<open>bounded_cache\<close>; \<open>Request_Limits\<close>, \<open>Limit_Bounds\<close>: the rate
    window and the slots, call by call and step by step; \<open>Credential_Exit\<close>: which header is whose
    credential and what leaves on each exit; \<open>Tenancy_Source\<close>: the cache of built tenancies with requests
    that overlap; \<open>Ref_Dispatcher\<close>: references, and that dispatcher and keeper agree on what is held.
  \<^item> \<open>Expand_Repair\<close>: the repair on the three wires; \<open>Repair_Cells\<close>: the specification of one pass over an
    abstract body (locale \<open>cell_body\<close>); \<open>Repair_Json\<close>: its cells in a JSON body; \<open>Repair_Outcome\<close>: the loop of
    the code refines that pass, so the repair is idempotent and its notes are true; \<open>Repair_Responses\<close>: where
    the other wires fail to be so.

  \<^bold>\<open>Conventions.\<close> State is a record passed explicitly and returned updated, named after the Go struct;
  a Go map is a map, a function or an association list where the order or the size matters. A mutex makes the locked
  section one step, and the step relations interleave the sections of the worker pool, the limiter, the
  tenancy cache, the sweep of the keeper and the waits of the summarizer with everything else. Some
  operations that release a lock in between are still one step here, coarser than the code: \<open>Record\<close> of the
  keeper (which drops \<open>k.mu\<close> around its host calls), \<open>getGlobal\<close> and \<open>LoadSession\<close> of the store (the disk is
  read outside the lock; \<open>Store_Reserve\<close> also has their halves as steps of a run), \<open>startAsyncSummary\<close> and
  \<open>finish_job\<close> (each a few short sections). What other goroutines could do between those sections is not
  covered. An error or panic is a constructor of the result. Strings are
  lists of bytes. Times are integers of nanoseconds; durations wrap at 64 bits where the code can reach
  the bound. Prices, fractions and percentages, which the code has as \<open>float64\<close>, are rationals or reals.
  Loops without structural recursion are functions with a termination proof; the regular expression
  matcher has fuel, one unit for each byte of the text, and \<open>Go_Regexp\<close> proves that more changes nothing.

  \<^bold>\<open>Parameters.\<close> These are arguments of the definitions, with what is assumed of them named in each
  theorem: the token counter, the hash functions (without collisions only where a theorem says so), the
  JSON and YAML libraries (decoder, raw text, \<open>sjson\<close> editor), the model and the provider, the clock, the
  iteration order of a Go map, the disk, the account registry, the builder of a pipeline, the environment.
  The hypotheses on them are \<open>block_editor\<close>, \<open>item_editor\<close>, the laws of \<open>rewind_store\<close> and the like, and each
  theorem that has one comes with a witness at a concrete instance.

  \<^bold>\<open>What the model showed.\<close> Some lemmas state behaviour the comments of the code deny:
  \<open>responses_repair_alternates\<close> and \<open>chat_self_match\<close> (a repaired body repaired again loses the content),
  \<open>late_build_wins\<close> (a deleted tenant's store comes back), \<open>evicted_tenant_readmitted\<close>,
  \<open>token_tests_disagree\<close>, \<open>released_model_ref_panics\<close>, \<open>finished_waits_reopen\<close>, \<open>head_splits_parallel_calls\<close>,
  \<open>trim_can_split_group\<close>, \<open>own_output_can_grow_the_request\<close>, \<open>side_recorded_on_its_parent\<close>,
  \<open>sanitizeSummary_bypass\<close>.

  \<^bold>\<open>Not modelled.\<close>
  \<^item> \<open>src/apply\<close>, \<open>src/proxy/proxy.go\<close>, \<open>control.go\<close> and the rest of the HTTP server: byte-level surgery on
    provider bodies through third-party JSON libraries, streaming and routing, with no state of their
    own beyond the modelled packages they call.
  \<^item> \<open>src/dash\<close>, \<open>src/metrics\<close>, \<open>src/session\<close>: SQL over an event database, exports and reports.
  \<^item> \<open>extract\<close>, \<open>sweep_*\<close>, \<open>agentdiet\<close> and the cache-aware summarizer: prompts to a model and prices; their commits
    go through \<open>Offload_State\<close>.
  \<^item> \<open>cmdfilter\<close>, \<open>skeleton\<close>, \<open>smartcrush\<close>, \<open>coref\<close>, \<open>src/components/reformat\<close>, \<open>dsl\<close>: tables of patterns, grammars of
    tree-sitter and rules in YAML.
  \<^item> \<open>src/kvcache\<close>, \<open>src/predictive\<close>: simulation and learned models over floating-point numbers.
  \<^item> \<open>src/tenant\<close>, \<open>src/config\<close>, \<open>src/tooldefer\<close>, the rest of \<open>src/internal\<close>, \<open>src/cmd\<close>, \<open>src/adapters\<close>: accounts in SQLite,
    decoding of settings, ledgers on disk, tables of models, wiring.
\<close>

end
